(* ===== verification/Prelude.thy ===== *)
theory Prelude
  imports Complex_Main "HOL-Library.Word" "HOL-Library.Product_Lexorder" "HOL-Library.Multiset"
begin

text \<open>
  What the component theories share: the names of the machine types, the conversions of Go
  the source relies on, the fact collections the proofs use, the finite-table interface
  that stands for a Go map, and the interface of a state machine with an invariant.
\<close>

named_theorems go_simps "equations that evaluate the translated code"
named_theorems inv_intros "preservation of the component invariants"

subsection \<open>Numbers\<close>

text \<open>
  A Go \<open>float64\<close> is modelled by the rational number it denotes and its arithmetic is exact:
  every finite float64 is a rational, rounding is not modelled. \<open>+Inf\<close>, where the code
  uses it, is \<open>None\<close> of a \<open>rat option\<close>.
\<close>

type_synonym f64 = rat
type_synonym byte = "8 word"

text \<open>\<open>int(x)\<close> of a float64 drops the fraction, towards zero.\<close>

definition go_int :: "f64 \<Rightarrow> int" where
  "go_int x = (if 0 \<le> x then \<lfloor>x\<rfloor> else \<lceil>x\<rceil>)"

lemma go_int_nonneg: "0 \<le> x \<Longrightarrow> go_int x = \<lfloor>x\<rfloor>"
  by (simp add: go_int_def)

lemma go_int_le: "0 \<le> x \<Longrightarrow> of_int (go_int x) \<le> x"
  by (simp add: go_int_def)

lemma go_int_gt: "0 \<le> x \<Longrightarrow> x < of_int (go_int x) + 1"
  using floor_correct [of x] by (simp add: go_int_def)

lemma go_int_ge_0: "0 \<le> x \<Longrightarrow> 0 \<le> go_int x"
  by (simp add: go_int_def)

text \<open>The least int64, what the conversion of \<open>+Inf\<close> gives on amd64.\<close>

definition int64_min :: int where
  "int64_min = - 9223372036854775808"

text \<open>Go's integer division truncates towards zero.\<close>

definition go_div :: "int \<Rightarrow> int \<Rightarrow> int" where
  "go_div a b = sgn a * sgn b * (\<bar>a\<bar> div \<bar>b\<bar>)"

lemma go_div_nonneg: "0 \<le> a \<Longrightarrow> 0 < b \<Longrightarrow> go_div a b = a div b"
  by (cases "a = 0") (auto simp: go_div_def)

subsection \<open>List lemmas\<close>

lemma filter_shorter:
  assumes "filter (\<lambda>x. \<not> P x) xs \<noteq> []"
  shows "length (filter P xs) < length xs"
proof -
  from assms obtain x where "x \<in> set xs" "\<not> P x"
    by (auto simp: filter_empty_conv)
  then show ?thesis by (rule length_filter_less)
qed

lemma sum_list_map_filter_le:
  fixes f :: "'a \<Rightarrow> 'b :: ordered_comm_monoid_add"
  shows "(\<And>x. x \<in> set xs \<Longrightarrow> 0 \<le> f x) \<Longrightarrow> sum_list (map f (filter P xs)) \<le> sum_list (map f xs)"
  by (induction xs) (auto intro: add_mono add_increasing)

lemma sum_list_map_filter_eq:
  fixes f :: "'a \<Rightarrow> 'b :: comm_monoid_add"
  shows "(\<And>x. x \<in> set xs \<Longrightarrow> \<not> P x \<Longrightarrow> f x = 0) \<Longrightarrow>
    sum_list (map f (filter P xs)) = sum_list (map f xs)"
  by (induction xs) auto

lemma sum_list_map_perm:
  fixes f :: "'a \<Rightarrow> 'b :: comm_monoid_add"
  assumes "mset xs = mset ys"
  shows "sum_list (map f xs) = sum_list (map f ys)"
proof -
  have "sum_mset (mset (map f xs)) = sum_mset (mset (map f ys))"
    using assms by simp
  then show ?thesis by (simp only: sum_mset_sum_list)
qed

subsection \<open>Decimal numbers\<close>

text \<open>The decimal form of \<open>%d\<close>.\<close>

fun decimal :: "nat \<Rightarrow> string" where
  "decimal n = (if n < 10 then [char_of (48 + n)] else decimal (n div 10) @ [char_of (48 + n mod 10)])"

declare decimal.simps [simp del]

definition undecimal :: "string \<Rightarrow> nat" where
  "undecimal s = foldl (\<lambda>n c. 10 * n + (of_char c - 48)) 0 s"

lemma digit_value: "d < 10 \<Longrightarrow> of_char (char_of (48 + d :: nat)) - 48 = d"
  by simp

lemma undecimal_decimal: "undecimal (decimal n) = n"
proof (induction n rule: decimal.induct)
  case (1 n)
  show ?case
  proof (cases "n < 10")
    case True
    then show ?thesis by (simp add: decimal.simps [of n] undecimal_def)
  next
    case False
    then have "undecimal (decimal n) = 10 * undecimal (decimal (n div 10)) + n mod 10"
      by (simp add: decimal.simps [of n] undecimal_def)
    then show ?thesis using 1 False by simp
  qed
qed

subsection \<open>Machines\<close>

text \<open>\<open>SameMachine\<close> of \<^verbatim>\<open>heartbeat/machine.go\<close>: an unknown machine is nobody's.\<close>

definition SameMachine :: "string \<Rightarrow> string \<Rightarrow> bool" where
  "SameMachine a b \<longleftrightarrow> a \<noteq> [] \<and> a = b"

end
