(* ===== verification/Schedule.thy ===== *)
theory Schedule
  imports Prelude "HOL-Library.Multiset"
begin

text \<open>
  \<^verbatim>\<open>src/internal/schedule/schedule.go\<close> and \<^verbatim>\<open>pool.go\<close>: which devices take part in a piece of
  work, how much each of them gets, and the pacing rules of the pool map.
\<close>

subsection \<open>Data\<close>

datatype kind = CPU | GPU

record device =
  dev_ID :: string
  dev_Node :: string
  dev_Kind :: kind
  dev_Rate :: f64
  dev_BytesPerSec :: f64
  dev_SetupSec :: f64
  dev_MemBytes :: int

record share =
  sh_Device :: device
  sh_Items :: int

datatype reject_reason =
    NoMeasuredThroughput
  | NotEnoughMemory
  | CannotStartInTime
  | ShareTooSmall
  | WouldSetThePace nat nat

record rejection =
  rj_Device :: device
  rj_Reason :: reject_reason

record plan =
  pl_Shares :: "share list"
  pl_Makespan :: f64
  pl_Alone :: f64
  pl_Rejected :: "rejection list"

record options =
  op_Items :: int
  op_BytesPerItem :: f64
  op_WorkingSetBytes :: int
  op_MinItems :: int

subsection \<open>The solver\<close>

text \<open>\<open>effRate\<close> folds the wire cost into the compute rate.\<close>

definition effRate :: "device \<Rightarrow> options \<Rightarrow> f64" where
  "effRate d opts =
     (if dev_BytesPerSec d \<le> 0 \<or> op_BytesPerItem opts \<le> 0 then dev_Rate d
      else let secPerItem = 1 / dev_Rate d + op_BytesPerItem opts / dev_BytesPerSec d
           in if secPerItem \<le> 0 then dev_Rate d else 1 / secPerItem)"

text \<open>
  The loop of \<open>solveMakespan\<close> over the devices in order of setup, each a (setup, rate) pair.
  The last iteration, past the list, has \<open>next = +Inf\<close>: with a positive rate its capacity
  covers any work. \<open>None\<close> is the final \<open>return math.Inf(1)\<close>.
\<close>

fun solve_walk :: "f64 \<Rightarrow> f64 \<Rightarrow> f64 \<Rightarrow> f64 \<Rightarrow> (f64 \<times> f64) list \<Rightarrow> f64 option" where
  "solve_walk work sumRate prev don [] =
     (if 0 < sumRate then Some (prev + (work - don) / sumRate) else None)"
| "solve_walk work sumRate prev don ((s, r) # ds) =
     (let capacity = sumRate * (s - prev)
      in if 0 < sumRate \<and> work \<le> don + capacity then Some (prev + (work - don) / sumRate)
         else solve_walk work (sumRate + r) s (if 0 < sumRate then don + capacity else don) ds)"

definition solve_devs :: "options \<Rightarrow> device list \<Rightarrow> (f64 \<times> f64) list" where
  "solve_devs opts devices = sort_key fst (map (\<lambda>d. (dev_SetupSec d, effRate d opts)) devices)"

definition solveMakespan :: "device list \<Rightarrow> options \<Rightarrow> f64 option" where
  "solveMakespan devices opts =
     (case solve_devs opts devices of
        [] \<Rightarrow> None
      | (s, r) # ds \<Rightarrow> solve_walk (of_int (op_Items opts)) 0 s 0 ((s, r) # ds))"

subsection \<open>Shares\<close>

text \<open>The items a device finishes by the makespan; \<open>None\<close> is a makespan of \<open>+Inf\<close>.\<close>

definition share_items :: "options \<Rightarrow> f64 option \<Rightarrow> device \<Rightarrow> int" where
  "share_items opts makespan d =
     (let items = (case makespan of
                     None \<Rightarrow> int64_min
                   | Some m \<Rightarrow> go_int ((m - dev_SetupSec d) * effRate d opts))
      in if items < 0 then 0 else items)"

text \<open>The first index with the greatest rate above the one held; \<open>None\<close> is the code's -1.\<close>

fun best_index :: "options \<Rightarrow> nat \<Rightarrow> nat option \<Rightarrow> f64 \<Rightarrow> device list \<Rightarrow> nat option" where
  "best_index opts i best bestRate [] = best"
| "best_index opts i best bestRate (d # ds) =
     (if effRate d opts > bestRate
      then best_index opts (Suc i) (Some i) (effRate d opts) ds
      else best_index opts (Suc i) best bestRate ds)"

definition allocate :: "device list \<Rightarrow> options \<Rightarrow> f64 option \<Rightarrow> share list" where
  "allocate devices opts makespan =
     (let shares = map (\<lambda>d. \<lparr>sh_Device = d, sh_Items = share_items opts makespan d\<rparr>) devices;
          assigned = sum_list (map sh_Items shares)
      in case best_index opts 0 None 0 devices of
           None \<Rightarrow> shares
         | Some b \<Rightarrow>
             if assigned \<noteq> op_Items opts
             then shares[b := (shares ! b)\<lparr>sh_Items :=
                    max 0 (sh_Items (shares ! b) + (op_Items opts - assigned))\<rparr>]
             else shares)"

definition predict :: "share list \<Rightarrow> options \<Rightarrow> f64" where
  "predict shares opts =
     foldl (\<lambda>worst s.
       if sh_Items s = 0 then worst
       else let t = dev_SetupSec (sh_Device s) + of_int (sh_Items s) / effRate (sh_Device s) opts
            in if t > worst then t else worst) 0 shares"

definition keep_share :: "options \<Rightarrow> device list \<Rightarrow> share \<Rightarrow> bool" where
  "keep_share opts active s \<longleftrightarrow> op_MinItems opts \<le> sh_Items s \<or> length active = 1"

definition dropTinyShares :: "plan \<Rightarrow> options \<Rightarrow> device list \<Rightarrow> plan" where
  "dropTinyShares p opts active =
     (let keep = map sh_Device (filter (keep_share opts active) (pl_Shares p));
          p' = p\<lparr>pl_Rejected := pl_Rejected p @
                 map (\<lambda>s. \<lparr>rj_Device = sh_Device s, rj_Reason = ShareTooSmall\<rparr>)
                     (filter (\<lambda>s. \<not> keep_share opts active s) (pl_Shares p))\<rparr>
      in if keep = [] \<or> length keep = length (pl_Shares p) then p'
         else p'\<lparr>pl_Shares := allocate keep opts (solveMakespan keep opts)\<rparr>)"

subsection \<open>Compute\<close>

definition ineligible :: "options \<Rightarrow> device \<Rightarrow> reject_reason option" where
  "ineligible opts d =
     (if dev_Rate d \<le> 0 then Some NoMeasuredThroughput
      else if 0 < op_WorkingSetBytes opts \<and> dev_MemBytes d < op_WorkingSetBytes opts
      then Some NotEnoughMemory else None)"

fun split_eligible :: "options \<Rightarrow> device list \<Rightarrow> device list \<times> rejection list" where
  "split_eligible opts [] = ([], [])"
| "split_eligible opts (d # ds) =
     (let (el, rj) = split_eligible opts ds
      in case ineligible opts d of
           Some why \<Rightarrow> (el, \<lparr>rj_Device = d, rj_Reason = why\<rparr> # rj)
         | None \<Rightarrow> (d # el, rj))"

text \<open>The best single-device time, starting from \<open>+Inf\<close>.\<close>

fun best_alone :: "options \<Rightarrow> f64 option \<Rightarrow> device list \<Rightarrow> f64 option" where
  "best_alone opts a [] = a"
| "best_alone opts a (d # ds) =
     (let t = dev_SetupSec d + of_int (op_Items opts) / effRate d opts
      in best_alone opts (case a of None \<Rightarrow> Some t | Some x \<Rightarrow> if t < x then Some t else a) ds)"

definition starts_before :: "f64 option \<Rightarrow> device \<Rightarrow> bool" where
  "starts_before makespan d \<longleftrightarrow>
     (case makespan of None \<Rightarrow> True | Some m \<Rightarrow> dev_SetupSec d < m)"

text \<open>
  The admission loop: solve, drop what cannot start in time, repeat until nothing is dropped
  or nothing would be left. It returns the active set, its makespan and the rejections.
\<close>

function admission :: "options \<Rightarrow> device list \<Rightarrow> rejection list
    \<Rightarrow> device list \<times> f64 option \<times> rejection list" where
  "admission opts active rej =
     (let m = solveMakespan active opts;
          kept = filter (starts_before m) active;
          dropped = filter (\<lambda>d. \<not> starts_before m d) active
      in if dropped = [] \<or> kept = [] then (active, m, rej)
         else admission opts kept
                (rej @ map (\<lambda>d. \<lparr>rj_Device = d, rj_Reason = CannotStartInTime\<rparr>) dropped))"
  by pat_completeness auto
termination
  by (relation "measure (\<lambda>(opts, active, rej). length active)")
    (auto simp: filter_shorter)

declare admission.simps [simp del]

definition empty_plan :: plan where
  "empty_plan = \<lparr>pl_Shares = [], pl_Makespan = 0, pl_Alone = 0, pl_Rejected = []\<rparr>"

definition Compute :: "options \<Rightarrow> device list \<Rightarrow> plan" where
  "Compute opts devices =
     (if op_Items opts \<le> 0 then empty_plan
      else let (eligible, rej) = split_eligible opts devices
      in if eligible = [] then empty_plan\<lparr>pl_Rejected := rej\<rparr>
      else let alone = best_alone opts None eligible;
               (active, makespan, rej') = admission opts eligible rej;
               p = \<lparr>pl_Shares = allocate active opts makespan, pl_Makespan = 0,
                    pl_Alone = (case alone of Some a \<Rightarrow> a | None \<Rightarrow> 0), pl_Rejected = rej'\<rparr>;
               p' = (if 1 < op_MinItems opts then dropTinyShares p opts active else p)
      in p'\<lparr>pl_Makespan := predict (pl_Shares p') opts\<rparr>)"

subsection \<open>The work a set of devices absorbs by a time\<close>

text \<open>
  The model of the package comment: by the time \<open>T\<close> a device has done
  \<open>max(0, T - setup) * rate\<close> items.
\<close>

definition absorbed :: "f64 \<Rightarrow> (f64 \<times> f64) list \<Rightarrow> f64" where
  "absorbed T ds = sum_list (map (\<lambda>(s, r). max 0 (T - s) * r) ds)"

definition absorbed_by :: "options \<Rightarrow> f64 \<Rightarrow> device list \<Rightarrow> f64" where
  "absorbed_by opts T devices =
     sum_list (map (\<lambda>d. max 0 (T - dev_SetupSec d) * effRate d opts) devices)"

definition pos_rates :: "(f64 \<times> f64) list \<Rightarrow> bool" where
  "pos_rates ds \<longleftrightarrow> (\<forall>(s, r) \<in> set ds. 0 < r)"

lemma absorbed_simps [simp]:
  "absorbed T [] = 0"
  "absorbed T ((s, r) # ds) = max 0 (T - s) * r + absorbed T ds"
  "absorbed T (xs @ ys) = absorbed T xs + absorbed T ys"
  by (simp_all add: absorbed_def)

lemma pos_rates_simps [simp]:
  "pos_rates []"
  "pos_rates ((s, r) # ds) \<longleftrightarrow> 0 < r \<and> pos_rates ds"
  "pos_rates (xs @ ys) \<longleftrightarrow> pos_rates xs \<and> pos_rates ys"
  by (auto simp: pos_rates_def)

lemma absorbed_mono: "pos_rates ds \<Longrightarrow> T \<le> T' \<Longrightarrow> absorbed T ds \<le> absorbed T' ds"
  by (induction ds) (auto intro!: add_mono mult_right_mono)

lemma absorbed_strict:
  "pos_rates ds \<Longrightarrow> T' < T \<Longrightarrow> 0 < absorbed T ds \<Longrightarrow> absorbed T' ds < absorbed T ds"
proof (induction ds)
  case (Cons d ds)
  obtain s r where d: "d = (s, r)" by (cases d)
  show ?case
  proof (cases "s < T")
    case True
    then have "max 0 (T' - s) * r < max 0 (T - s) * r"
      using Cons.prems d by (intro mult_strict_right_mono) auto
    moreover have "absorbed T' ds \<le> absorbed T ds"
      using Cons.prems d by (intro absorbed_mono) auto
    ultimately show ?thesis unfolding d absorbed_simps by (rule add_less_le_mono)
  next
    case False
    with Cons d show ?thesis by simp
  qed
qed simp

lemma absorbed_late: "(\<And>s r. (s, r) \<in> set ds \<Longrightarrow> T \<le> s) \<Longrightarrow> absorbed T ds = 0"
  by (induction ds) force+

lemma absorbed_started:
  "(\<And>s r. (s, r) \<in> set ds \<Longrightarrow> s \<le> T) \<Longrightarrow> T \<le> T' \<Longrightarrow>
    absorbed T' ds = absorbed T ds + sum_list (map snd ds) * (T' - T)"
proof (induction ds)
  case (Cons d ds)
  obtain s r where d: "d = (s, r)" by (cases d)
  with Cons.prems have "s \<le> T" by auto
  with Cons d show ?case by (auto simp: algebra_simps)
qed simp

lemma sum_rates_pos: "pos_rates ds \<Longrightarrow> ds \<noteq> [] \<Longrightarrow> 0 < sum_list (map snd ds)"
proof (induction ds)
  case (Cons d ds)
  then show ?case by (cases d; cases ds) (auto intro: add_pos_pos)
qed simp

text \<open>
  The invariant of the walk: \<open>ps\<close> are the devices passed, \<open>prev\<close> the last breakpoint,
  \<open>don\<close> what the passed devices have absorbed by then.
\<close>

lemma solve_walk_root:
  assumes "pos_rates (ps @ ds)" "ps @ ds \<noteq> []" "sorted (map fst ds)"
    and "\<forall>(s, r) \<in> set ps. s \<le> prev" "\<forall>(s, r) \<in> set ds. prev \<le> s"
    and "absorbed prev ps < work"
  shows "\<exists>T. solve_walk work (sum_list (map snd ps)) prev (absorbed prev ps) ds = Some T
    \<and> absorbed T (ps @ ds) = work"
  using assms
proof (induction ds arbitrary: ps prev)
  case Nil
  let ?R = "sum_list (map snd ps)"
  let ?T = "prev + (work - absorbed prev ps) / ?R"
  have R: "0 < ?R" using Nil.prems by (auto intro: sum_rates_pos)
  then have "prev \<le> ?T" using Nil.prems by simp
  then have "absorbed ?T ps = absorbed prev ps + ?R * (?T - prev)"
    using Nil.prems by (intro absorbed_started) auto
  with R show ?case by simp
next
  case (Cons d ds)
  obtain s r where d: "d = (s, r)" by (cases d)
  let ?R = "sum_list (map snd ps)"
  let ?cap = "?R * (s - prev)"
  have ge: "prev \<le> s" using Cons.prems d by simp
  have at_s: "absorbed s ps = absorbed prev ps + ?cap"
    using Cons.prems ge by (intro absorbed_started) auto
  have R0: "0 < ?R \<or> ps = []" using Cons.prems sum_rates_pos [of ps] by auto
  show ?case
  proof (cases "0 < ?R \<and> work \<le> absorbed prev ps + ?cap")
    case True
    let ?T = "prev + (work - absorbed prev ps) / ?R"
    have le: "?T \<le> s" using True by (simp add: field_simps)
    have "prev \<le> ?T" using True Cons.prems by simp
    then have "absorbed ?T ps = absorbed prev ps + ?R * (?T - prev)"
      using Cons.prems by (intro absorbed_started) auto
    moreover have "absorbed ?T (d # ds) = 0"
      using Cons.prems le d by (intro absorbed_late) force
    ultimately show ?thesis using True d by simp
  next
    case False
    have "absorbed s (ps @ [d]) < work"
      using False R0 at_s Cons.prems d by auto
    then have "\<exists>T. solve_walk work (sum_list (map snd (ps @ [d]))) s (absorbed s (ps @ [d])) ds = Some T
        \<and> absorbed T ((ps @ [d]) @ ds) = work"
      using Cons.prems ge d by (intro Cons.IH) (auto simp: ball_Un intro: order_trans)
    then show ?thesis using False R0 at_s d by auto
  qed
qed

lemma effRate_pos: "0 < dev_Rate d \<Longrightarrow> 0 < effRate d opts"
  by (simp add: effRate_def Let_def add_pos_pos)

lemma absorbed_by_absorbed:
  "absorbed_by opts T devices = absorbed T (solve_devs opts devices)"
proof -
  have "absorbed T (solve_devs opts devices)
      = absorbed T (map (\<lambda>d. (dev_SetupSec d, effRate d opts)) devices)"
    unfolding absorbed_def solve_devs_def by (rule sum_list_map_perm) simp
  then show ?thesis by (simp add: absorbed_def absorbed_by_def comp_def)
qed

definition rated :: "device list \<Rightarrow> bool" where
  "rated devices \<longleftrightarrow> (\<forall>d \<in> set devices. 0 < dev_Rate d)"

lemma rated_filter [simp]: "rated ds \<Longrightarrow> rated (filter P ds)"
  by (auto simp: rated_def)

lemma pos_rates_solve_devs: "rated devices \<Longrightarrow> pos_rates (solve_devs opts devices)"
  by (auto simp: pos_rates_def solve_devs_def rated_def effRate_pos)

lemma set_solve_devs:
  "set (solve_devs opts devices) = (\<lambda>d. (dev_SetupSec d, effRate d opts)) ` set devices"
  by (simp add: solve_devs_def)

lemma solve_devs_Nil [simp]: "solve_devs opts devices = [] \<longleftrightarrow> devices = []"
  using set_solve_devs [of opts devices] by (metis image_is_empty set_empty)

lemma solveMakespan_ex:
  assumes "devices \<noteq> []" "rated devices" "0 < op_Items opts"
  shows "\<exists>T. solveMakespan devices opts = Some T
    \<and> absorbed_by opts T devices = of_int (op_Items opts)"
proof -
  obtain s r ds where ds: "solve_devs opts devices = (s, r) # ds"
    using assms(1) by (metis solve_devs_Nil list.exhaust surj_pair)
  have sorted: "sorted (map fst ((s, r) # ds))"
    unfolding ds [symmetric] solve_devs_def by simp
  have "\<exists>T. solve_walk (of_int (op_Items opts)) (sum_list (map snd [])) s (absorbed s []) ((s, r) # ds)
      = Some T \<and> absorbed T ([] @ ((s, r) # ds)) = of_int (op_Items opts)"
    using sorted pos_rates_solve_devs [OF assms(2), of opts] assms(3)
      solve_walk_root [of "[]" "(s, r) # ds" s "of_int (op_Items opts)"]
    by (auto simp: ds case_prod_beta)
  then show ?thesis by (simp add: solveMakespan_def ds absorbed_by_absorbed)
qed

text \<open>The makespan, where it is finite, as a number.\<close>

lemma solveMakespan_SomeD:
  assumes "solveMakespan devices opts = Some T" "rated devices" "0 < op_Items opts"
  shows "absorbed_by opts T devices = of_int (op_Items opts)"
proof -
  have "devices \<noteq> []" using assms(1) by (auto simp: solveMakespan_def solve_devs_def)
  from solveMakespan_ex [OF this assms(2,3)] assms(1) show ?thesis by auto
qed

lemma makespan_least:
  assumes "solveMakespan devices opts = Some T" "rated devices" "0 < op_Items opts"
    and "of_int (op_Items opts) \<le> absorbed_by opts T' devices"
  shows "T \<le> T'"
proof (rule ccontr)
  assume "\<not> T \<le> T'"
  then have "absorbed T' (solve_devs opts devices) < absorbed T (solve_devs opts devices)"
    using solveMakespan_SomeD [OF assms(1-3)] assms(2,3)
    by (intro absorbed_strict) (auto simp: pos_rates_solve_devs absorbed_by_absorbed)
  with assms(4) solveMakespan_SomeD [OF assms(1-3)] show False
    by (simp add: absorbed_by_absorbed)
qed

lemma makespan_unique:
  assumes "solveMakespan devices opts = Some T" "rated devices" "0 < op_Items opts"
    and "absorbed_by opts T' devices = of_int (op_Items opts)"
  shows "T' = T"
proof (rule antisym)
  show "T \<le> T'" by (rule makespan_least [OF assms(1-3)]) (simp add: assms(4))
  show "T' \<le> T"
  proof (rule ccontr)
    assume "\<not> T' \<le> T"
    then have "absorbed T (solve_devs opts devices) < absorbed T' (solve_devs opts devices)"
      using assms(2-4) by (intro absorbed_strict) (auto simp: pos_rates_solve_devs absorbed_by_absorbed)
    with assms(4) solveMakespan_SomeD [OF assms(1-3)] show False
      by (simp add: absorbed_by_absorbed)
  qed
qed

text \<open>Devices that cannot start before the makespan contribute nothing to it.\<close>

lemma absorbed_by_kept:
  "absorbed_by opts T (filter (starts_before (Some T)) devices) = absorbed_by opts T devices"
  unfolding absorbed_by_def by (rule sum_list_map_filter_eq) (auto simp: starts_before_def)

lemma some_starts_before:
  assumes "solveMakespan devices opts = Some T" "rated devices" "0 < op_Items opts"
  shows "filter (starts_before (Some T)) devices \<noteq> []"
proof
  assume "filter (starts_before (Some T)) devices = []"
  with absorbed_by_kept [of opts T devices] have "absorbed_by opts T devices = 0"
    by (simp add: absorbed_by_def)
  with solveMakespan_SomeD [OF assms] assms(3) show False by simp
qed

lemma makespan_kept:
  assumes "solveMakespan devices opts = Some T" "rated devices" "0 < op_Items opts"
  shows "solveMakespan (filter (starts_before (Some T)) devices) opts = Some T"
proof -
  let ?K = "filter (starts_before (Some T)) devices"
  obtain T' where T': "solveMakespan ?K opts = Some T'"
    using solveMakespan_ex [OF some_starts_before [OF assms] _ assms(3)] assms(2) by auto
  moreover have "T = T'"
    by (rule makespan_unique [OF T' _ assms(3)])
      (simp_all add: assms(2) absorbed_by_kept solveMakespan_SomeD [OF assms])
  ultimately show ?thesis by simp
qed

text \<open>
  So the admission loop settles after one round: it ends with the makespan of the first
  round and the devices that start before it.
\<close>

lemma filter_all_iff: "filter (\<lambda>x. \<not> P x) xs = [] \<longleftrightarrow> filter P xs = xs"
  by (auto simp: filter_empty_conv filter_id_conv)

lemma admission_settles:
  assumes "solveMakespan devices opts = Some T" "rated devices" "0 < op_Items opts"
  shows "admission opts devices rej =
    (filter (starts_before (Some T)) devices, Some T,
     rej @ map (\<lambda>d. \<lparr>rj_Device = d, rj_Reason = CannotStartInTime\<rparr>)
             (filter (\<lambda>d. \<not> starts_before (Some T) d) devices))"
proof (cases "filter (\<lambda>d. \<not> starts_before (Some T) d) devices = []")
  case True
  then show ?thesis
    using assms(1) by (simp add: admission.simps [of opts devices] filter_all_iff Let_def)
next
  case False
  let ?K = "filter (starts_before (Some T)) devices"
  have "admission opts ?K r = (?K, Some T, r)" for r
    by (simp add: admission.simps [of opts ?K] makespan_kept [OF assms] Let_def)
  with False some_starts_before [OF assms] assms(1) show ?thesis
    by (simp add: admission.simps [of opts devices] Let_def)
qed

subsection \<open>Allocation\<close>

lemma share_items_floor:
  assumes "0 < dev_Rate d"
  shows "share_items opts (Some T) d = \<lfloor>max 0 (T - dev_SetupSec d) * effRate d opts\<rfloor>"
proof -
  have r: "0 < effRate d opts" using assms by (rule effRate_pos)
  show ?thesis
  proof (cases "dev_SetupSec d \<le> T")
    case True
    then have "0 \<le> (T - dev_SetupSec d) * effRate d opts" using r by simp
    then show ?thesis using True
      by (simp add: share_items_def Let_def go_int_nonneg)
  next
    case False
    then have "(T - dev_SetupSec d) * effRate d opts < 0" using r by (simp add: mult_neg_pos)
    then have "go_int ((T - dev_SetupSec d) * effRate d opts) \<le> 0"
      by (simp add: go_int_def ceiling_le_zero)
    then show ?thesis using False by (auto simp: share_items_def Let_def)
  qed
qed

lemma share_items_nonneg: "0 \<le> share_items opts m d"
  by (simp add: share_items_def Let_def)

lemma share_items_sum_le:
  "rated devices \<Longrightarrow>
    of_int (sum_list (map (share_items opts (Some T)) devices)) \<le> absorbed_by opts T devices"
proof (induction devices)
  case (Cons d ds)
  have "of_int (share_items opts (Some T) d) \<le> max 0 (T - dev_SetupSec d) * effRate d opts"
    using Cons.prems by (simp add: share_items_floor rated_def)
  with Cons show ?case by (auto simp: absorbed_by_def rated_def intro: add_mono)
qed (simp add: absorbed_by_def)

lemma share_items_sum_gt:
  "rated devices \<Longrightarrow>
    absorbed_by opts T devices
      \<le> of_int (sum_list (map (share_items opts (Some T)) devices)) + of_nat (length devices)"
proof (induction devices)
  case (Cons d ds)
  have "max 0 (T - dev_SetupSec d) * effRate d opts \<le> of_int (share_items opts (Some T) d) + 1"
    using Cons.prems floor_correct [of "max 0 (T - dev_SetupSec d) * effRate d opts"]
    by (simp add: share_items_floor rated_def)
  with Cons show ?case by (auto simp: absorbed_by_def rated_def)
qed (simp add: absorbed_by_def)

lemma best_index_spec:
  "best_index opts i best br ds = Some b \<Longrightarrow>
    (best = Some b \<and> (\<forall>d \<in> set ds. effRate d opts \<le> br)) \<or>
    (i \<le> b \<and> b < i + length ds \<and> br < effRate (ds ! (b - i)) opts
      \<and> (\<forall>d \<in> set ds. effRate d opts \<le> effRate (ds ! (b - i)) opts))"
proof (induction ds arbitrary: i best br)
  case (Cons d ds)
  show ?case
  proof (cases "effRate d opts > br")
    case True
    with Cons.prems have "best_index opts (Suc i) (Some i) (effRate d opts) ds = Some b" by simp
    from Cons.IH [OF this] True show ?thesis
      by (elim disjE) (auto simp: nth_Cons' Suc_le_eq)
  next
    case False
    with Cons.prems have "best_index opts (Suc i) best br ds = Some b" by simp
    from Cons.IH [OF this] False show ?thesis
      by (elim disjE) (auto simp: nth_Cons' Suc_le_eq)
  qed
qed simp

lemma best_index_keeps: "best_index opts i (Some x) br ds \<noteq> None"
  by (induction ds arbitrary: i x br) auto

lemma best_index_ex:
  assumes "devices \<noteq> []" "rated devices"
  obtains b where "best_index opts 0 None 0 devices = Some b" "b < length devices"
    "\<forall>d \<in> set devices. effRate d opts \<le> effRate (devices ! b) opts"
proof -
  have "best_index opts 0 None 0 devices \<noteq> None"
    using assms by (cases devices) (auto simp: rated_def effRate_pos best_index_keeps)
  then obtain b where "best_index opts 0 None 0 devices = Some b" by auto
  from this best_index_spec [OF this] that show ?thesis by auto
qed

lemma sum_list_update_diff:
  fixes xs :: "int list"
  shows "i < length xs \<Longrightarrow> sum_list (xs[i := y]) = sum_list xs - xs ! i + y"
  by (induction xs arbitrary: i) (auto split: nat.splits)

text \<open>\<open>allocate\<close> of a rated, non-empty set at its own makespan, in closed form.\<close>

lemma allocate_eq:
  assumes m: "solveMakespan devices opts = Some T" and "devices \<noteq> []" "rated devices" "0 < op_Items opts"
  obtains b extra where "b < length devices" "0 \<le> extra" "extra \<le> int (length devices)"
    "\<forall>d \<in> set devices. effRate d opts \<le> effRate (devices ! b) opts"
    "op_Items opts = sum_list (map (share_items opts (Some T)) devices) + extra"
    "map sh_Device (allocate devices opts (Some T)) = devices"
    "map sh_Items (allocate devices opts (Some T))
       = (map (share_items opts (Some T)) devices)[b := share_items opts (Some T) (devices ! b) + extra]"
proof -
  obtain b where b: "best_index opts 0 None 0 devices = Some b" "b < length devices"
    "\<forall>d \<in> set devices. effRate d opts \<le> effRate (devices ! b) opts"
    using best_index_ex [OF assms(2,3)] by metis
  define items where "items = map (share_items opts (Some T)) devices"
  define extra where "extra = op_Items opts - sum_list items"
  have root: "absorbed_by opts T devices = of_int (op_Items opts)"
    using solveMakespan_SomeD [OF m assms(3,4)] .
  have "(of_int (sum_list items) :: rat) \<le> of_int (op_Items opts)"
    using share_items_sum_le [OF assms(3), of opts T] by (simp add: root items_def)
  then have e0: "0 \<le> extra" by (simp add: extra_def)
  have "(of_int (op_Items opts) :: rat) \<le> of_int (sum_list items + int (length devices))"
    using share_items_sum_gt [OF assms(3), of opts T] by (simp add: root items_def)
  then have e1: "extra \<le> int (length devices)"
    unfolding extra_def of_int_le_iff by linarith
  define shares where "shares = map (\<lambda>d. \<lparr>sh_Device = d, sh_Items = share_items opts (Some T) d\<rparr>) devices"
  have sh: "map sh_Device shares = devices" "map sh_Items shares = items"
    by (simp_all add: shares_def items_def comp_def)
  have nb: "sh_Items (shares ! b) = items ! b" using b(2) by (simp add: shares_def items_def)
  have nd: "sh_Device (shares ! b) = devices ! b" using b(2) by (simp add: shares_def)
  have nn: "0 \<le> items ! b" using b(2) by (simp add: items_def share_items_nonneg)
  have al: "allocate devices opts (Some T) = (if extra = 0 then shares
      else shares[b := (shares ! b)\<lparr>sh_Items := items ! b + extra\<rparr>])"
    using b(1) e0 nn nb by (auto simp: allocate_def Let_def extra_def shares_def [symmetric] sh(2))
  have dev: "map sh_Device (allocate devices opts (Some T)) = devices"
    by (simp add: al map_update sh(1) nd)
  have it: "map sh_Items (allocate devices opts (Some T)) = items[b := items ! b + extra]"
    using e0 by (simp add: al map_update sh(2))
  show thesis
    by (rule that [OF b(2) e0 e1 b(3)])
      (use dev it b(2) in \<open>simp_all add: extra_def items_def\<close>)
qed

lemma allocate_devices:
  assumes "solveMakespan devices opts = Some T" "devices \<noteq> []" "rated devices" "0 < op_Items opts"
  shows "map sh_Device (allocate devices opts (Some T)) = devices"
  using allocate_eq [OF assms] by metis

lemma allocate_sum:
  assumes "solveMakespan devices opts = Some T" "devices \<noteq> []" "rated devices" "0 < op_Items opts"
  shows "sum_list (map sh_Items (allocate devices opts (Some T))) = op_Items opts"
  by (rule allocate_eq [OF assms]) (simp add: sum_list_update_diff)

lemma allocate_nonneg:
  assumes "solveMakespan devices opts = Some T" "devices \<noteq> []" "rated devices" "0 < op_Items opts"
    and "s \<in> set (allocate devices opts (Some T))"
  shows "0 \<le> sh_Items s"
proof -
  obtain b extra where *: "b < length devices" "0 \<le> extra"
    "map sh_Items (allocate devices opts (Some T))
       = (map (share_items opts (Some T)) devices)[b := share_items opts (Some T) (devices ! b) + extra]"
    using allocate_eq [OF assms(1-4)] by metis
  let ?v = "share_items opts (Some T) (devices ! b) + extra"
  have "sh_Items s \<in> set ((map (share_items opts (Some T)) devices)[b := ?v])"
    using assms(5) by (simp flip: *(3))
  then have "sh_Items s \<in> insert ?v (set (map (share_items opts (Some T)) devices))"
    by (rule subsetD [OF set_update_subset_insert])
  then show ?thesis using *(2) by (auto simp: share_items_nonneg)
qed

subsection \<open>The predicted finish time\<close>

abbreviation finish :: "options \<Rightarrow> share \<Rightarrow> f64" where
  "finish opts s \<equiv> dev_SetupSec (sh_Device s) + of_int (sh_Items s) / effRate (sh_Device s) opts"

abbreviation predict_step :: "options \<Rightarrow> f64 \<Rightarrow> share \<Rightarrow> f64" where
  "predict_step opts worst s \<equiv>
     (if sh_Items s = 0 then worst
      else let t = finish opts s in if t > worst then t else worst)"

lemma predict_fold_ge: "w \<le> foldl (predict_step opts) w shares"
  by (induction shares arbitrary: w) (auto simp: Let_def intro: order_trans [OF less_imp_le])

lemma predict_fold_upper:
  "s \<in> set shares \<Longrightarrow> sh_Items s \<noteq> 0 \<Longrightarrow> finish opts s \<le> foldl (predict_step opts) w shares"
proof (induction shares arbitrary: w)
  case (Cons x xs)
  show ?case
  proof (cases "s \<in> set xs")
    case True
    with Cons show ?thesis by simp
  next
    case False
    with Cons.prems have "s = x" by simp
    moreover have "finish opts x \<le> predict_step opts w x"
      using Cons.prems \<open>s = x\<close> by (simp add: Let_def)
    ultimately show ?thesis
      using predict_fold_ge [of "predict_step opts w x" opts xs] by auto
  qed
qed simp

lemma predict_fold_least:
  "w \<le> B \<Longrightarrow> (\<And>s. s \<in> set shares \<Longrightarrow> sh_Items s \<noteq> 0 \<Longrightarrow> finish opts s \<le> B) \<Longrightarrow>
    foldl (predict_step opts) w shares \<le> B"
  by (induction shares arbitrary: w) (auto simp: Let_def)

lemma predict_upper: "s \<in> set shares \<Longrightarrow> sh_Items s \<noteq> 0 \<Longrightarrow> finish opts s \<le> predict shares opts"
  unfolding predict_def by (rule predict_fold_upper)

lemma predict_least:
  "0 \<le> B \<Longrightarrow> (\<And>s. s \<in> set shares \<Longrightarrow> sh_Items s \<noteq> 0 \<Longrightarrow> finish opts s \<le> B) \<Longrightarrow>
    predict shares opts \<le> B"
  unfolding predict_def by (rule predict_fold_least)

text \<open>Whatever is spread over rated devices is at most what they absorb by its finish time.\<close>

lemma items_le_absorbed:
  assumes "rated (map sh_Device shares)" "\<And>s. s \<in> set shares \<Longrightarrow> 0 \<le> sh_Items s"
    and "\<And>s. s \<in> set shares \<Longrightarrow> sh_Items s \<noteq> 0 \<Longrightarrow> finish opts s \<le> B"
  shows "of_int (sum_list (map sh_Items shares)) \<le> absorbed_by opts B (map sh_Device shares)"
  using assms
proof (induction shares)
  case (Cons s ss)
  have r: "0 < effRate (sh_Device s) opts" using Cons.prems by (auto simp: rated_def intro: effRate_pos)
  have "of_int (sh_Items s) \<le> max 0 (B - dev_SetupSec (sh_Device s)) * effRate (sh_Device s) opts"
  proof (cases "sh_Items s = 0")
    case True
    then show ?thesis using r by simp
  next
    case False
    then have "of_int (sh_Items s) / effRate (sh_Device s) opts \<le> B - dev_SetupSec (sh_Device s)"
      using Cons.prems by (auto simp: algebra_simps)
    then have "of_int (sh_Items s) \<le> (B - dev_SetupSec (sh_Device s)) * effRate (sh_Device s) opts"
      using r by (simp add: field_simps)
    also have "\<dots> \<le> max 0 (B - dev_SetupSec (sh_Device s)) * effRate (sh_Device s) opts"
      using r by (intro mult_right_mono) auto
    finally show ?thesis .
  qed
  with Cons show ?case by (auto simp: absorbed_by_def rated_def intro: add_mono)
qed (simp add: absorbed_by_def)

lemma makespan_le_predict:
  assumes "solveMakespan devices opts = Some T" "rated devices" "0 < op_Items opts"
    and "map sh_Device alt = devices" "\<And>s. s \<in> set alt \<Longrightarrow> 0 \<le> sh_Items s"
    and "sum_list (map sh_Items alt) = op_Items opts"
  shows "T \<le> predict alt opts"
proof (rule makespan_least [OF assms(1-3)])
  show "of_int (op_Items opts) \<le> absorbed_by opts (predict alt opts) devices"
    using items_le_absorbed [of alt opts "predict alt opts"] assms by (simp add: predict_upper)
qed

text \<open>
  The rounding settled on the fastest device costs at most one item per device at its rate.
\<close>

lemma allocate_finish:
  assumes m: "solveMakespan devices opts = Some T" and ne: "devices \<noteq> []" and r: "rated devices"
    and pos: "0 < op_Items opts" and d: "d \<in> set devices"
    and st: "\<And>d. d \<in> set devices \<Longrightarrow> dev_SetupSec d < T"
    and s: "s \<in> set (allocate devices opts (Some T))"
  shows "finish opts s \<le> T + of_nat (length devices) / effRate d opts"
proof -
  let ?al = "allocate devices opts (Some T)" and ?n = "of_nat (length devices) :: f64"
  obtain b extra where *: "b < length devices" "0 \<le> extra" "extra \<le> int (length devices)"
    "\<forall>d \<in> set devices. effRate d opts \<le> effRate (devices ! b) opts"
    and dev: "map sh_Device ?al = devices"
    and it: "map sh_Items ?al
       = (map (share_items opts (Some T)) devices)[b := share_items opts (Some T) (devices ! b) + extra]"
    using allocate_eq [OF m ne r pos] by metis
  obtain i where i: "i < length ?al" "s = ?al ! i" using s by (metis in_set_conv_nth)
  have il: "i < length devices" using i dev by (metis length_map)
  define x where "x = devices ! i"
  have sx: "sh_Device s = x" using i dev il by (metis nth_map x_def)
  have xr: "0 < effRate x opts" using r il by (auto simp: rated_def x_def intro: effRate_pos)
  have dr: "0 < effRate d opts" using r d by (auto simp: rated_def intro: effRate_pos)
  have fl: "of_int (share_items opts (Some T) x) / effRate x opts \<le> T - dev_SetupSec x"
    using st [of x] xr r il
    by (simp add: share_items_floor rated_def x_def divide_le_eq mult.commute)
  have "sh_Items s = map sh_Items ?al ! i" using i by simp
  then have si: "sh_Items s = share_items opts (Some T) x + (if i = b then extra else 0)"
    using *(1) il by (auto simp: it x_def nth_list_update)
  have "(if i = b then of_int extra else 0) / effRate x opts \<le> ?n / effRate d opts"
  proof (cases "i = b")
    case True
    have "(of_int extra :: f64) \<le> of_int (int (length devices))"
      using *(3) by (simp only: of_int_le_iff)
    then have "(of_int extra :: f64) / effRate x opts \<le> ?n / effRate x opts"
      using xr by (intro divide_right_mono) auto
    also have "effRate d opts \<le> effRate x opts" using True *(4) d by (simp add: x_def)
    then have "?n / effRate x opts \<le> ?n / effRate d opts"
      using xr dr by (intro divide_left_mono) auto
    finally show ?thesis using True by simp
  next
    case False
    then show ?thesis using dr by simp
  qed
  with fl show ?thesis by (simp add: sx si add_divide_distrib split: if_splits)
qed

subsection \<open>The plan\<close>

definition eligible :: "options \<Rightarrow> device list \<Rightarrow> device list" where
  "eligible opts devices = filter (\<lambda>d. ineligible opts d = None) devices"

lemma split_eligible_fst: "fst (split_eligible opts ds) = eligible opts ds"
  by (induction ds) (auto simp: eligible_def split: option.splits prod.splits)

lemma split_eligible_mset:
  "mset (map rj_Device (snd (split_eligible opts ds))) + mset (eligible opts ds) = mset ds"
  by (induction ds) (auto simp: eligible_def split: option.splits prod.splits)

lemma rated_eligible: "rated (eligible opts devices)"
  by (auto simp: rated_def eligible_def ineligible_def split: if_splits)

lemma best_alone_Some: "\<exists>b. best_alone opts (Some a) ds = Some b \<and> b \<le> a"
  by (induction ds arbitrary: a) (auto simp: Let_def intro: order_trans [OF _ less_imp_le])

lemma best_alone_attained:
  "best_alone opts a ds = Some b \<Longrightarrow>
    a = Some b \<or> (\<exists>d \<in> set ds. b = dev_SetupSec d + of_int (op_Items opts) / effRate d opts)"
proof (induction ds arbitrary: a)
  case (Cons d ds)
  let ?t = "dev_SetupSec d + of_int (op_Items opts) / effRate d opts"
  obtain a' where a': "a' = Some ?t \<or> a' = a" and "best_alone opts a' ds = Some b"
    using Cons.prems by (cases a) (auto simp: Let_def split: if_splits)
  from Cons.IH [OF this(2)] a' show ?case by auto
qed simp

text \<open>
  The plan before small shares are given back: \<open>T\<close> is the solved makespan of the eligible
  devices and \<open>a\<close> the best single-device time.
\<close>

definition settled_plan :: "options \<Rightarrow> device list \<Rightarrow> f64 \<Rightarrow> f64 \<Rightarrow> plan" where
  "settled_plan opts devices T a =
     \<lparr>pl_Shares = allocate (filter (starts_before (Some T)) (eligible opts devices)) opts (Some T),
      pl_Makespan = 0, pl_Alone = a,
      pl_Rejected = snd (split_eligible opts devices)
        @ map (\<lambda>d. \<lparr>rj_Device = d, rj_Reason = CannotStartInTime\<rparr>)
            (filter (\<lambda>d. \<not> starts_before (Some T) d) (eligible opts devices))\<rparr>"

lemma Compute_eq:
  assumes "0 < op_Items opts" "eligible opts devices \<noteq> []"
  obtains T a where "solveMakespan (eligible opts devices) opts = Some T"
    "best_alone opts None (eligible opts devices) = Some a"
    "Compute opts devices =
      (let p = settled_plan opts devices T a;
           p' = (if 1 < op_MinItems opts
                 then dropTinyShares p opts (filter (starts_before (Some T)) (eligible opts devices))
                 else p)
       in p'\<lparr>pl_Makespan := predict (pl_Shares p') opts\<rparr>)"
proof -
  let ?E = "eligible opts devices"
  obtain T where T: "solveMakespan ?E opts = Some T"
    using solveMakespan_ex [OF assms(2) rated_eligible assms(1)] by blast
  obtain d ds where E: "?E = d # ds" using assms(2) by (cases ?E) auto
  obtain a where a: "best_alone opts None ?E = Some a"
    using best_alone_Some [of opts "dev_SetupSec d + of_int (op_Items opts) / effRate d opts" ds]
    unfolding E by (auto simp: Let_def)
  have sp: "split_eligible opts devices = (?E, snd (split_eligible opts devices))"
    by (metis split_eligible_fst prod.collapse)
  show thesis
    by (rule that [OF T a], unfold Compute_def, subst sp)
      (use assms T in \<open>simp add: admission_settles rated_eligible a Let_def not_le settled_plan_def\<close>)
qed

lemma active_facts:
  assumes "solveMakespan (eligible opts devices) opts = Some T" "0 < op_Items opts"
  defines "active \<equiv> filter (starts_before (Some T)) (eligible opts devices)"
  shows "solveMakespan active opts = Some T" "active \<noteq> []" "rated active"
    "\<And>d. d \<in> set active \<Longrightarrow> dev_SetupSec d < T"
  using makespan_kept [OF assms(1) rated_eligible assms(2)]
    some_starts_before [OF assms(1) rated_eligible assms(2)] rated_eligible [of opts devices]
  by (auto simp: active_def starts_before_def)

lemma mset_filter_split: "mset (filter P xs) + mset (filter (\<lambda>x. \<not> P x) xs) = mset xs"
  by (induction xs) auto

lemma settled_shares:
  assumes "solveMakespan (eligible opts devices) opts = Some T" "0 < op_Items opts"
  defines "active \<equiv> filter (starts_before (Some T)) (eligible opts devices)"
  shows "map sh_Device (pl_Shares (settled_plan opts devices T a)) = active"
    and "sum_list (map sh_Items (pl_Shares (settled_plan opts devices T a))) = op_Items opts"
  using active_facts [OF assms(1,2)] assms(2)
  by (simp_all add: settled_plan_def active_def allocate_devices allocate_sum)

lemma dropTinyShares_sum:
  assumes "sum_list (map sh_Items (pl_Shares p)) = op_Items opts" "0 < op_Items opts"
    and "rated (map sh_Device (pl_Shares p))"
  shows "sum_list (map sh_Items (pl_Shares (dropTinyShares p opts active))) = op_Items opts"
proof -
  define keep where "keep = map sh_Device (filter (keep_share opts active) (pl_Shares p))"
  have "rated keep" using assms(3) by (auto simp: keep_def rated_def)
  then have "sum_list (map sh_Items (allocate keep opts (solveMakespan keep opts))) = op_Items opts"
    if "keep \<noteq> []"
    using that assms(2) solveMakespan_ex [of keep opts] allocate_sum [of keep opts] by auto
  with assms(1) show ?thesis
    by (simp add: dropTinyShares_def keep_def [symmetric] Let_def)
qed

subsection \<open>Properties of \<open>Compute\<close>\<close>

text \<open>The shares handed out add up to exactly the items to do, whatever was rounded,
  rejected or given back.\<close>

theorem Compute_items_exact:
  assumes "0 < op_Items opts" "eligible opts devices \<noteq> []"
  shows "sum_list (map sh_Items (pl_Shares (Compute opts devices))) = op_Items opts"
proof (rule Compute_eq [OF assms])
  fix T a
  let ?active = "filter (starts_before (Some T)) (eligible opts devices)"
  let ?p = "settled_plan opts devices T a"
  assume T: "solveMakespan (eligible opts devices) opts = Some T"
    and C: "Compute opts devices =
      (let p = ?p; p' = (if 1 < op_MinItems opts then dropTinyShares p opts ?active else p)
       in p'\<lparr>pl_Makespan := predict (pl_Shares p') opts\<rparr>)"
  have "rated (map sh_Device (pl_Shares ?p))"
    by (simp add: settled_shares [OF T assms(1)] rated_eligible)
  then have "sum_list (map sh_Items (pl_Shares (dropTinyShares ?p opts ?active))) = op_Items opts"
    using assms(1) by (intro dropTinyShares_sum) (simp_all add: settled_shares [OF T assms(1)])
  then show ?thesis by (simp add: C Let_def settled_shares [OF T assms(1)])
qed

text \<open>With no floor on shares, every device is either given a share or turned down with a
  reason, exactly once: no device is lost and none is reported twice.\<close>

theorem Compute_accounts_for_every_device:
  assumes "0 < op_Items opts" "eligible opts devices \<noteq> []" "op_MinItems opts \<le> 1"
  shows "mset (map sh_Device (pl_Shares (Compute opts devices)))
       + mset (map rj_Device (pl_Rejected (Compute opts devices))) = mset devices"
proof (rule Compute_eq [OF assms(1,2)])
  fix T a
  let ?E = "eligible opts devices" and ?p = "settled_plan opts devices T a"
  assume T: "solveMakespan ?E opts = Some T"
    and C: "Compute opts devices =
      (let p = ?p; p' = (if 1 < op_MinItems opts then dropTinyShares p opts (filter (starts_before (Some T)) ?E) else p)
       in p'\<lparr>pl_Makespan := predict (pl_Shares p') opts\<rparr>)"
  have "mset (map rj_Device (pl_Rejected ?p))
      = mset (map rj_Device (snd (split_eligible opts devices)))
        + mset (filter (\<lambda>d. \<not> starts_before (Some T) d) ?E)"
    by (simp add: settled_plan_def comp_def)
  then show ?thesis
    using assms(3) mset_filter_split [of "starts_before (Some T)" ?E] split_eligible_mset [of opts devices]
    by (simp add: C Let_def settled_shares [OF T assms(1)] ac_simps)
qed

lemma predict_settled:
  assumes T: "solveMakespan (eligible opts devices) opts = Some T" and pos: "0 < op_Items opts"
    and nonneg: "\<forall>d \<in> set devices. 0 \<le> dev_SetupSec d"
    and d: "d \<in> set (filter (starts_before (Some T)) (eligible opts devices))"
  shows "predict (pl_Shares (settled_plan opts devices T a)) opts
    \<le> T + of_nat (length (pl_Shares (settled_plan opts devices T a))) / effRate d opts"
proof (rule predict_least)
  note act = active_facts [OF T pos]
  have len: "length (pl_Shares (settled_plan opts devices T a))
      = length (filter (starts_before (Some T)) (eligible opts devices))"
    by (metis length_map settled_shares(1) [OF T pos])
  have r: "0 < effRate d opts" using act(3) d by (auto simp: rated_def intro: effRate_pos)
  have "0 < T" using act(4) [OF d] nonneg d by (fastforce simp: eligible_def)
  with r show "0 \<le> T + of_nat (length (pl_Shares (settled_plan opts devices T a))) / effRate d opts"
    by simp
  show "finish opts s \<le> T + of_nat (length (pl_Shares (settled_plan opts devices T a))) / effRate d opts"
    if "s \<in> set (pl_Shares (settled_plan opts devices T a))" for s
    using allocate_finish [OF act(1-3) pos d act(4)] that
    unfolding len by (simp add: settled_plan_def)
qed

lemma Compute_unfloored:
  assumes "0 < op_Items opts" "eligible opts devices \<noteq> []" "op_MinItems opts \<le> 1"
  obtains T a where "solveMakespan (eligible opts devices) opts = Some T"
    "best_alone opts None (eligible opts devices) = Some a"
    "Compute opts devices = (settled_plan opts devices T a)
       \<lparr>pl_Makespan := predict (pl_Shares (settled_plan opts devices T a)) opts\<rparr>"
  by (rule Compute_eq [OF assms(1,2)]) (use assms(3) in \<open>auto simp: Let_def\<close>)

lemma Compute_unfloored_shares:
  assumes "0 < op_Items opts" "eligible opts devices \<noteq> []" "op_MinItems opts \<le> 1"
  shows "sum_list (map sh_Items (pl_Shares (Compute opts devices))) = op_Items opts"
    and "s \<in> set (pl_Shares (Compute opts devices)) \<Longrightarrow> 0 \<le> sh_Items s \<and> sh_Device s \<in> set devices"
proof (atomize (full), rule Compute_unfloored [OF assms])
  fix T a
  let ?p = "settled_plan opts devices T a"
  assume T: "solveMakespan (eligible opts devices) opts = Some T"
    and C: "Compute opts devices = ?p\<lparr>pl_Makespan := predict (pl_Shares ?p) opts\<rparr>"
  note act = active_facts [OF T assms(1)]
  have "sh_Device s \<in> set (map sh_Device (pl_Shares ?p))" if "s \<in> set (pl_Shares ?p)"
    using that by simp
  then have "sh_Device s \<in> set devices" if "s \<in> set (pl_Shares ?p)"
    using that unfolding settled_shares(1) [OF T assms(1)] by (auto simp: eligible_def)
  moreover have "0 \<le> sh_Items s" if "s \<in> set (pl_Shares ?p)"
    using that allocate_nonneg [OF act(1-3) assms(1)] by (simp add: settled_plan_def)
  ultimately show "sum_list (map sh_Items (pl_Shares (Compute opts devices))) = op_Items opts
      \<and> (s \<in> set (pl_Shares (Compute opts devices)) \<longrightarrow> 0 \<le> sh_Items s \<and> sh_Device s \<in> set devices)"
    by (simp add: C settled_shares(2) [OF T assms(1)])
qed

lemma Compute_unfloored_devices:
  assumes "0 < op_Items opts" "op_MinItems opts \<le> 1"
  shows "\<exists>P. map sh_Device (pl_Shares (Compute opts devices)) = filter P (eligible opts devices)"
proof (cases "eligible opts devices = []")
  case True
  then obtain rj where "split_eligible opts devices = ([], rj)"
    by (metis split_eligible_fst prod.collapse)
  then have "Compute opts devices = empty_plan\<lparr>pl_Rejected := rj\<rparr>"
    using assms(1) by (simp add: Compute_def)
  then show ?thesis by (simp add: True empty_plan_def)
next
  case False
  obtain T a where "solveMakespan (eligible opts devices) opts = Some T"
    and "Compute opts devices = (settled_plan opts devices T a)
       \<lparr>pl_Makespan := predict (pl_Shares (settled_plan opts devices T a)) opts\<rparr>"
    using Compute_unfloored [OF assms(1) False assms(2)] by blast
  then show ?thesis using settled_shares(1) [OF _ assms(1)] by auto
qed

text \<open>C33: Near-optimality: the shares add up to exactly the items asked for, and however the items
  are spread over the eligible devices, the plan's predicted finish is later by at most what rounding costs, one item per used device at the
  rate of any device in use.\<close>

theorem Compute_near_optimal:
  assumes "0 < op_Items opts" "eligible opts devices \<noteq> []" "op_MinItems opts \<le> 1"
    and "\<forall>d \<in> set devices. 0 \<le> dev_SetupSec d"
    and "map sh_Device alt = eligible opts devices" "\<forall>s \<in> set alt. 0 \<le> sh_Items s"
    and "sum_list (map sh_Items alt) = op_Items opts"
    and "u \<in> set (pl_Shares (Compute opts devices))"
  shows "sum_list (map sh_Items (pl_Shares (Compute opts devices))) = op_Items opts
   \<and> pl_Makespan (Compute opts devices) \<le> predict alt opts
     + of_nat (length (pl_Shares (Compute opts devices))) / effRate (sh_Device u) opts"
proof (rule Compute_unfloored [OF assms(1-3)])
  fix T a
  assume T: "solveMakespan (eligible opts devices) opts = Some T"
    and C: "Compute opts devices = (settled_plan opts devices T a)
       \<lparr>pl_Makespan := predict (pl_Shares (settled_plan opts devices T a)) opts\<rparr>"
  have "sh_Device u \<in> set (map sh_Device (pl_Shares (settled_plan opts devices T a)))"
    using assms(8) by (simp add: C)
  then have "sh_Device u \<in> set (filter (starts_before (Some T)) (eligible opts devices))"
    by (simp only: settled_shares(1) [OF T assms(1)])
  from predict_settled [OF T assms(1,4) this, of a]
    makespan_le_predict [OF T rated_eligible assms(1,5) _ assms(7)] assms(6)
  show ?thesis using Compute_items_exact [OF assms(1,2)] by (simp add: C)
qed

text \<open>Never slower than the best single device, but for that rounding: the claim the
  package comment makes for the whole scheduler.\<close>

theorem Compute_not_slower_than_alone:
  assumes "0 < op_Items opts" "eligible opts devices \<noteq> []" "op_MinItems opts \<le> 1"
    and "\<forall>d \<in> set devices. 0 \<le> dev_SetupSec d"
    and "u \<in> set (pl_Shares (Compute opts devices))"
  shows "pl_Makespan (Compute opts devices) \<le> pl_Alone (Compute opts devices)
     + of_nat (length (pl_Shares (Compute opts devices))) / effRate (sh_Device u) opts"
proof (rule Compute_unfloored [OF assms(1-3)])
  fix T a
  let ?E = "eligible opts devices"
  assume T: "solveMakespan ?E opts = Some T"
    and a: "best_alone opts None ?E = Some a"
    and C: "Compute opts devices = (settled_plan opts devices T a)
       \<lparr>pl_Makespan := predict (pl_Shares (settled_plan opts devices T a)) opts\<rparr>"
  from best_alone_attained [OF a] obtain d where d: "d \<in> set ?E"
    "a = dev_SetupSec d + of_int (op_Items opts) / effRate d opts" by auto
  have "T \<le> a"
  proof (rule makespan_least [OF T rated_eligible assms(1)])
    have r: "\<forall>e \<in> set ?E. 0 < effRate e opts"
      using rated_eligible [of opts devices] by (auto simp: rated_def intro: effRate_pos)
    then have "effRate d opts \<noteq> 0" using d(1) by force
    then have "of_int (op_Items opts) = (a - dev_SetupSec d) * effRate d opts"
      using d(2) by simp
    also have "\<dots> \<le> max 0 (a - dev_SetupSec d) * effRate d opts"
      using r d by (intro mult_right_mono) (auto intro: less_imp_le)
    also have "\<dots> \<le> absorbed_by opts a ?E"
      unfolding absorbed_by_def using d(1) r
      by (intro member_le_sum_list) (auto intro: less_imp_le)
    finally show "of_int (op_Items opts) \<le> absorbed_by opts a ?E" .
  qed
  moreover have "sh_Device u \<in> set (map sh_Device (pl_Shares (settled_plan opts devices T a)))"
    using assms(5) by (simp add: C)
  then have "sh_Device u \<in> set (filter (starts_before (Some T)) ?E)"
    by (simp only: settled_shares(1) [OF T assms(1)])
  ultimately show ?thesis
    using predict_settled [OF T assms(1,4), of "sh_Device u" a]
    by (simp add: C) (simp add: settled_plan_def)
qed

text \<open>The admission loop settles after its first round: dropping the devices that cannot
  start in time leaves the makespan where it was, so the second round drops nothing.\<close>

theorem admission_needs_one_round:
  assumes "0 < op_Items opts" "eligible opts devices \<noteq> []"
  shows "\<exists>T. solveMakespan (eligible opts devices) opts = Some T
    \<and> solveMakespan (filter (starts_before (Some T)) (eligible opts devices)) opts = Some T
    \<and> (\<exists>rej'. admission opts (eligible opts devices) rej
          = (filter (starts_before (Some T)) (eligible opts devices), Some T, rej'))"
proof -
  obtain T where T: "solveMakespan (eligible opts devices) opts = Some T"
    using solveMakespan_ex [OF assms(2) rated_eligible assms(1)] by blast
  then show ?thesis
    using makespan_kept [OF T rated_eligible assms(1)] admission_settles [OF T rated_eligible assms(1)]
    by simp
qed

subsection \<open>Pacing of the pool map\<close>

text \<open>\<^verbatim>\<open>pool.go\<close>.\<close>

definition PartSec :: "f64 \<Rightarrow> f64 \<Rightarrow> f64" where
  "PartSec su rtt = max (max (9 * su) (9 * rtt)) (1 / 4)"

definition Depth :: "f64 \<Rightarrow> f64 \<Rightarrow> int" where
  "Depth lead part =
     (if part \<le> 0 then 1
      else let d = 1 + \<lceil>max 0 lead / part\<rceil> in min (max d 1) 3)"

text \<open>The loop of \<open>Backlog\<close>: a prediction with no elapsed time at its index is skipped.\<close>

fun Backlog :: "f64 list \<Rightarrow> f64 list \<Rightarrow> f64" where
  "Backlog (p # ps) (e # es) = max 0 (p - e) + Backlog ps es"
| "Backlog _ _ = 0"

definition BackupWorth :: "f64 \<Rightarrow> f64 \<Rightarrow> f64 \<Rightarrow> f64 \<Rightarrow> bool \<times> f64" where
  "BackupWorth expected elapsed fresh freshSetup =
     (let rem = (if elapsed > expected then max (elapsed - expected) expected else expected - elapsed);
          gain = rem - fresh
      in (gain > max freshSetup (1 / 5), gain))"

lemma Backlog_nonneg: "0 \<le> Backlog ps es"
  by (induction ps es rule: Backlog.induct) auto

text \<open>A node always holds at least one part and at most three, and a part of the target
  length keeps its node's fixed cost and round trip at or under a tenth of the request.\<close>

theorem pacing_bounds:
  assumes "0 \<le> su" "0 \<le> rtt"
  shows "1 \<le> Depth lead part \<and> Depth lead part \<le> 3
    \<and> su \<le> (su + PartSec su rtt) / 10 \<and> rtt \<le> (rtt + PartSec su rtt) / 10
    \<and> 1 / 4 \<le> PartSec su rtt \<and> Depth su (PartSec su rtt) \<le> 2"
proof -
  have "\<lceil>su / PartSec su rtt\<rceil> \<le> 1"
  proof -
    have "su \<le> PartSec su rtt" "0 < PartSec su rtt" using assms by (auto simp: PartSec_def)
    then show ?thesis by (simp add: ceiling_le_iff)
  qed
  then show ?thesis using assms by (auto simp: Depth_def PartSec_def Let_def)
qed

text \<open>A backup copy is started only when it is predicted to finish before the late part
  does, by more than the larger of its own fixed cost and a fifth of a second; and once a part
  is overdue its remaining time is never predicted below its whole expected length.\<close>

theorem BackupWorth_saves:
  assumes "BackupWorth expected elapsed fresh freshSetup = (True, gain)" "expected < elapsed"
  shows "gain + fresh \<ge> expected \<and> gain + fresh \<ge> elapsed - expected
    \<and> gain > freshSetup \<and> gain > 1 / 5"
  using assms by (auto simp: BackupWorth_def Let_def)

subsection \<open>Evaluation at concrete inputs\<close>

definition ex_fast :: device where
  "ex_fast = \<lparr>dev_ID = ''a'', dev_Node = ''a'', dev_Kind = CPU, dev_Rate = 10, dev_BytesPerSec = 0,
     dev_SetupSec = 0, dev_MemBytes = 0\<rparr>"

definition ex_slow :: device where
  "ex_slow = \<lparr>dev_ID = ''b'', dev_Node = ''b'', dev_Kind = CPU, dev_Rate = 5, dev_BytesPerSec = 0,
     dev_SetupSec = 0, dev_MemBytes = 0\<rparr>"

definition ex_opts :: options where
  "ex_opts = \<lparr>op_Items = 30, op_BytesPerItem = 0, op_WorkingSetBytes = 0, op_MinItems = 0\<rparr>"

lemmas ex_defs = ex_fast_def ex_slow_def ex_opts_def

lemma ex_opts_sel [simp]: "op_Items ex_opts = 30" "op_MinItems ex_opts = 0"
  by (simp_all add: ex_opts_def)

lemma ex_eligible: "eligible ex_opts [ex_fast, ex_slow] = [ex_fast, ex_slow]"
  by (simp add: eligible_def ineligible_def ex_defs)

lemma ex_makespan: "solveMakespan [ex_fast, ex_slow] ex_opts = Some 2"
  by (simp add: solveMakespan_def solve_devs_def effRate_def ex_defs)

lemma ex_shares:
  "pl_Shares (Compute ex_opts [ex_fast, ex_slow])
    = [\<lparr>sh_Device = ex_fast, sh_Items = 20\<rparr>, \<lparr>sh_Device = ex_slow, sh_Items = 10\<rparr>]"
proof -
  have "admission ex_opts [ex_fast, ex_slow] [] = ([ex_fast, ex_slow], Some 2, [])"
    by (simp add: admission.simps [of _ "[ex_fast, ex_slow]"] ex_makespan starts_before_def)
      (simp add: ex_defs)
  moreover have "split_eligible ex_opts [ex_fast, ex_slow] = ([ex_fast, ex_slow], [])"
    by (simp add: ineligible_def ex_defs)
  ultimately show ?thesis
    by (simp add: Compute_def Let_def allocate_def share_items_def effRate_def go_int_def ex_defs)
qed

theorem Compute_items_exact_witness:
  "sum_list (map sh_Items (pl_Shares (Compute ex_opts [ex_fast, ex_slow]))) = 30"
  using Compute_items_exact [of ex_opts "[ex_fast, ex_slow]"]
  by (simp add: ex_eligible)

theorem Compute_accounts_for_every_device_witness:
  "mset (map sh_Device (pl_Shares (Compute ex_opts [ex_fast, ex_slow])))
     + mset (map rj_Device (pl_Rejected (Compute ex_opts [ex_fast, ex_slow])))
   = mset [ex_fast, ex_slow]"
  by (rule Compute_accounts_for_every_device) (simp_all add: ex_eligible)

theorem Compute_near_optimal_witness:
  "sum_list (map sh_Items (pl_Shares (Compute ex_opts [ex_fast, ex_slow]))) = 30
   \<and> pl_Makespan (Compute ex_opts [ex_fast, ex_slow])
     \<le> predict [\<lparr>sh_Device = ex_fast, sh_Items = 30\<rparr>, \<lparr>sh_Device = ex_slow, sh_Items = 0\<rparr>] ex_opts
       + of_nat (length (pl_Shares (Compute ex_opts [ex_fast, ex_slow]))) / effRate ex_fast ex_opts"
  using Compute_near_optimal [of ex_opts "[ex_fast, ex_slow]"
      "[\<lparr>sh_Device = ex_fast, sh_Items = 30\<rparr>, \<lparr>sh_Device = ex_slow, sh_Items = 0\<rparr>]"
      "\<lparr>sh_Device = ex_fast, sh_Items = 20\<rparr>"]
  by (simp add: ex_eligible ex_shares) (simp add: ex_defs)

theorem Compute_not_slower_than_alone_witness:
  "pl_Makespan (Compute ex_opts [ex_fast, ex_slow]) \<le> pl_Alone (Compute ex_opts [ex_fast, ex_slow])
     + of_nat (length (pl_Shares (Compute ex_opts [ex_fast, ex_slow]))) / effRate ex_fast ex_opts"
  using Compute_not_slower_than_alone [of ex_opts "[ex_fast, ex_slow]"
      "\<lparr>sh_Device = ex_fast, sh_Items = 20\<rparr>"]
  by (simp add: ex_eligible ex_shares) (simp add: ex_defs)

theorem admission_needs_one_round_witness:
  "\<exists>T. solveMakespan [ex_fast, ex_slow] ex_opts = Some T
    \<and> fst (snd (admission ex_opts [ex_fast, ex_slow] [])) = Some T"
proof -
  obtain T where "solveMakespan [ex_fast, ex_slow] ex_opts = Some T"
    "\<exists>rej'. admission ex_opts [ex_fast, ex_slow] []
      = (filter (starts_before (Some T)) [ex_fast, ex_slow], Some T, rej')"
    using admission_needs_one_round [of ex_opts "[ex_fast, ex_slow]" "[]"]
    by (auto simp: ex_eligible simp del: filter.simps)
  then show ?thesis by (metis fst_conv snd_conv)
qed

theorem pacing_bounds_witness:
  "Depth (1 / 20) (PartSec (1 / 20) (1 / 100)) \<le> 2 \<and> (1 / 20 :: f64) \<le> (1 / 20 + PartSec (1 / 20) (1 / 100)) / 10"
  using pacing_bounds [of "1 / 20" "1 / 100"] by simp

theorem BackupWorth_saves_witness:
  "fst (BackupWorth 1 2 (1 / 4) 0) \<and> snd (BackupWorth 1 2 (1 / 4) 0) + 1 / 4 \<ge> (1 :: f64)"
  using BackupWorth_saves [of 1 2 "1 / 4" 0 "3 / 4"] by (simp add: BackupWorth_def)

text \<open>When every share falls below the floor the plan is kept as it was, but every device in
  it is also reported as turned down for too small a share: a device can be both used and
  rejected.\<close>

lemma tiny_shares_used_and_rejected:
  "\<exists>opts devices s. s \<in> set (pl_Shares (Compute opts devices)) \<and> 0 < sh_Items s
     \<and> \<lparr>rj_Device = sh_Device s, rj_Reason = ShareTooSmall\<rparr> \<in> set (pl_Rejected (Compute opts devices))"
proof -
  define o2 where "o2 = ex_opts\<lparr>op_Items := 2, op_MinItems := 2\<rparr>"
  have m: "solveMakespan [ex_fast, ex_fast] o2 = Some (1 / 10)"
    by (simp add: solveMakespan_def solve_devs_def effRate_def ex_defs o2_def)
  have "admission o2 [ex_fast, ex_fast] [] = ([ex_fast, ex_fast], Some (1 / 10), [])"
    by (simp add: admission.simps [of _ "[ex_fast, ex_fast]"] m starts_before_def)
      (simp add: ex_defs)
  moreover have "split_eligible o2 [ex_fast, ex_fast] = ([ex_fast, ex_fast], [])"
    by (simp add: ineligible_def ex_defs o2_def)
  ultimately have "pl_Shares (Compute o2 [ex_fast, ex_fast])
      = [\<lparr>sh_Device = ex_fast, sh_Items = 1\<rparr>, \<lparr>sh_Device = ex_fast, sh_Items = 1\<rparr>]"
    and "pl_Rejected (Compute o2 [ex_fast, ex_fast])
      = [\<lparr>rj_Device = ex_fast, rj_Reason = ShareTooSmall\<rparr>, \<lparr>rj_Device = ex_fast, rj_Reason = ShareTooSmall\<rparr>]"
    by (simp_all add: Compute_def Let_def allocate_def share_items_def effRate_def go_int_def
        dropTinyShares_def keep_share_def ex_defs o2_def)
  then show ?thesis
    by (intro exI [of _ o2] exI [of _ "[ex_fast, ex_fast]"]
        exI [of _ "\<lparr>sh_Device = ex_fast, sh_Items = 1\<rparr>"]) simp
qed

end
