(* ===== verification/GoMap.thy ===== *)
theory GoMap
  imports Prelude "HOL-Library.AList"
begin

text \<open>
  The interface of a Go map as the components use it, and its provider: an association list
  with distinct keys, so that sums and sweeps over the entries evaluate. The order of the
  list stands for no order of the Go map: what is proved through the interface does not
  depend on it. The second interface is a machine whose steps keep an invariant.
\<close>

subsection \<open>Lookup, store, delete\<close>

locale go_table =
  fixes look :: "'t \<Rightarrow> 'k \<Rightarrow> 'v option"
    and put :: "'k \<Rightarrow> 'v \<Rightarrow> 't \<Rightarrow> 't"
    and del :: "'k \<Rightarrow> 't \<Rightarrow> 't"
    and wf_table :: "'t \<Rightarrow> bool"
  assumes look_put: "look (put k v t) k' = (if k' = k then Some v else look t k')"
    and look_del: "look (del k t) k' = (if k' = k then None else look t k')"
    and wf_put: "wf_table t \<Longrightarrow> wf_table (put k v t)"
    and wf_del: "wf_table t \<Longrightarrow> wf_table (del k t)"
begin

lemma look_put_same: "look (put k v t) k = Some v"
  by (simp add: look_put)

lemma look_put_other: "k' \<noteq> k \<Longrightarrow> look (put k v t) k' = look t k'"
  by (simp add: look_put)

lemma look_del_put: "look t k = None \<Longrightarrow> look (del k (put k v t)) k' = look t k'"
  by (simp add: look_put look_del)

end

text \<open>A table whose entries can be summed, as the memory reserved by the leases is.\<close>

locale go_table_total = go_table look put del wf_table
  for look :: "'t \<Rightarrow> 'k \<Rightarrow> 'v option"
    and put :: "'k \<Rightarrow> 'v \<Rightarrow> 't \<Rightarrow> 't"
    and del :: "'k \<Rightarrow> 't \<Rightarrow> 't"
    and wf_table :: "'t \<Rightarrow> bool" +
  fixes total :: "('v \<Rightarrow> int) \<Rightarrow> 't \<Rightarrow> int"
  assumes total_put_fresh: "look t k = None \<Longrightarrow> total f (put k v t) = total f t + f v"
    and total_put_over: "wf_table t \<Longrightarrow> look t k = Some w \<Longrightarrow> total f (put k v t) = total f t - f w + f v"
    and total_del: "wf_table t \<Longrightarrow> look t k = Some w \<Longrightarrow> total f (del k t) = total f t - f w"
    and del_absent: "look t k = None \<Longrightarrow> del k t = t"
begin

lemma total_put_same:
  "wf_table t \<Longrightarrow> look t k = Some w \<Longrightarrow> f v = f w \<Longrightarrow> total f (put k v t) = total f t"
  by (simp add: total_put_over)

lemma total_reserve_release:
  assumes "wf_table t" "look t k = None"
  shows "total f (del k (put k v t)) = total f t"
proof -
  have "total f (del k (put k v t)) = total f (put k v t) - f v"
    using assms by (intro total_del wf_put) (simp_all add: look_put)
  with assms show ?thesis by (simp add: total_put_fresh)
qed

lemma total_del_le:
  assumes "wf_table t" "\<And>v. 0 \<le> f v"
  shows "total f (del k t) \<le> total f t"
proof (cases "look t k")
  case (Some w)
  then show ?thesis using assms(2) [of w] by (simp add: total_del [OF assms(1)])
qed (simp add: del_absent)

end

subsection \<open>Association lists with distinct keys\<close>

definition keys_distinct :: "('k \<times> 'v) list \<Rightarrow> bool" where
  "keys_distinct t \<longleftrightarrow> distinct (map fst t)"

definition total_of :: "('v \<Rightarrow> int) \<Rightarrow> ('k \<times> 'v) list \<Rightarrow> int" where
  "total_of f t = sum_list (map (f \<circ> snd) t)"

lemma keys_distinct_Nil [simp]: "keys_distinct []"
  by (simp add: keys_distinct_def)

lemma keys_distinct_Cons [simp]:
  "keys_distinct ((k, v) # t) \<longleftrightarrow> map_of t k = None \<and> keys_distinct t"
  by (auto simp: keys_distinct_def map_of_eq_None_iff)

lemma keys_distinct_filter: "keys_distinct t \<Longrightarrow> keys_distinct (filter P t)"
  by (auto simp: keys_distinct_def distinct_map_filter)

lemma total_of_simps [simp]:
  "total_of f [] = 0" "total_of f ((k, v) # t) = f v + total_of f t"
  by (simp_all add: total_of_def)

lemma total_of_update_fresh:
  "map_of t k = None \<Longrightarrow> total_of f (AList.update k v t) = total_of f t + f v"
  by (induction t) (auto split: if_splits)

lemma total_of_update_over:
  "map_of t k = Some w \<Longrightarrow> total_of f (AList.update k v t) = total_of f t - f w + f v"
  by (induction t) (auto split: if_splits)

lemma set_update_sub: "set (AList.update k v t) \<subseteq> insert (k, v) (set t)"
  by (induction t) auto

lemma delete_absent: "map_of t k = None \<Longrightarrow> AList.delete k t = t"
  by (induction t) (auto split: if_splits)

lemma total_of_delete:
  "keys_distinct t \<Longrightarrow> map_of t k = Some w \<Longrightarrow> total_of f (AList.delete k t) = total_of f t - f w"
  by (induction t) (auto simp: delete_absent split: if_splits)

lemma map_of_filter_table:
  "keys_distinct t \<Longrightarrow>
    map_of (filter P t) k = (case map_of t k of None \<Rightarrow> None | Some v \<Rightarrow> if P (k, v) then Some v else None)"
  by (induction t) (auto split: option.splits if_splits)

lemma total_of_filter_le:
  "\<forall>(k, v) \<in> set t. 0 \<le> f v \<Longrightarrow> total_of f (filter P t) \<le> total_of f t"
  unfolding total_of_def by (rule sum_list_map_filter_le) auto

lemma total_of_nonneg: "\<forall>(k, v) \<in> set t. 0 \<le> f v \<Longrightarrow> 0 \<le> total_of f t"
  unfolding total_of_def by (rule sum_list_nonneg) auto

lemma total_of_cong: "\<forall>(k, v) \<in> set t. f v = g v \<Longrightarrow> total_of f t = total_of g t"
  unfolding total_of_def by (rule arg_cong [of _ _ sum_list]) auto

interpretation gm: go_table_total map_of AList.update AList.delete keys_distinct total_of
proof unfold_locales
  show "map_of (AList.update k v t) k' = (if k' = k then Some v else map_of t k')" for k v t k'
    by (simp add: update_conv')
  show "map_of (AList.delete k t) k' = (if k' = k then None else map_of t k')" for k t k'
    by (simp add: delete_conv')
  show "keys_distinct (AList.update k v t)" if "keys_distinct t" for k v t
    using that by (simp add: keys_distinct_def distinct_update)
  show "keys_distinct (AList.delete k t)" if "keys_distinct t" for k t
    using that by (simp add: keys_distinct_def distinct_delete)
qed (simp_all add: total_of_update_fresh total_of_update_over total_of_delete delete_absent)

lemmas go_map_simps = gm.look_put gm.look_del

subsection \<open>Machines with an invariant\<close>

locale guarded_machine =
  fixes step :: "'e \<Rightarrow> 's \<Rightarrow> 's"
    and ok :: "'e \<Rightarrow> 's \<Rightarrow> bool"
    and inv :: "'s \<Rightarrow> bool"
  assumes step_inv: "inv s \<Longrightarrow> ok e s \<Longrightarrow> inv (step e s)"
begin

text \<open>A run is a sequence of events each allowed in the state it meets.\<close>

fun run_ok :: "'e list \<Rightarrow> 's \<Rightarrow> bool" where
  "run_ok [] s \<longleftrightarrow> True"
| "run_ok (e # es) s \<longleftrightarrow> ok e s \<and> run_ok es (step e s)"

lemma run_inv: "inv s \<Longrightarrow> run_ok es s \<Longrightarrow> inv (fold step es s)"
  by (induction es arbitrary: s) (auto intro: step_inv)

lemma run_inv_prefix: "inv s \<Longrightarrow> run_ok (es @ fs) s \<Longrightarrow> inv (fold step es s)"
proof (induction es arbitrary: s)
  case (Cons e es)
  then show ?case by (auto intro: step_inv)
qed simp

end

end
