(* ===== verification/Lease.thy ===== *)
theory Lease
  imports GoMap
begin

text \<open>
  The lease table of the daemon: \<^verbatim>\<open>src/internal/daemonapi/serverlease.go\<close>, the accept, commit
  and complete logic of \<^verbatim>\<open>serverhttp.go\<close>, its types in \<^verbatim>\<open>server.go\<close>, the snapshot of
  \<^verbatim>\<open>state.go\<close>, \<open>Admit\<close> of \<^verbatim>\<open>resourceest/estimator.go\<close> and the budget arithmetic of
  \<^verbatim>\<open>cgroups/budget.go\<close>. The clock, the host figures and fresh lease ids are inputs of the
  operations; times are nanoseconds.
\<close>

subsection \<open>Memory budget\<close>

record budget =
  bu_Total :: int
  bu_Used :: int
  bu_Enforced :: bool

definition Remaining :: "budget \<Rightarrow> int" where
  "Remaining b =
     (if bu_Total b \<le> 0 then 0
      else let r = bu_Total b - bu_Used b in if 0 < r then r else 0)"

lemma Remaining_nonneg [simp]: "0 \<le> Remaining b"
  by (simp add: Remaining_def Let_def)

text \<open>\<open>consider\<close> of \<open>limitBudget\<close>: the level with the least left, the first of equals.\<close>

fun tightest :: "budget option \<Rightarrow> budget list \<Rightarrow> budget option" where
  "tightest best [] = best"
| "tightest best (b # bs) =
     tightest (case best of
         None \<Rightarrow> Some b
       | Some x \<Rightarrow> if Remaining b < Remaining x then Some b else best) bs"

text \<open>\<open>usageOf\<close>, from \<open>memory.current\<close> and the two figures of \<open>memory.stat\<close> it subtracts.\<close>

definition usageOf :: "int option \<Rightarrow> int \<Rightarrow> int \<Rightarrow> int" where
  "usageOf current inactive_file slab_reclaimable =
     (case current of
        None \<Rightarrow> 0
      | Some cur \<Rightarrow>
          let reclaimable = inactive_file + slab_reclaimable
          in if cur \<le> reclaimable then 0 else cur - reclaimable)"

definition defaultShare :: "int \<Rightarrow> int" where
  "defaultShare totalMem = go_div totalMem 2"

definition empty_budget :: budget where
  "empty_budget = \<lparr>bu_Total = 0, bu_Used = 0, bu_Enforced = False\<rparr>"

text \<open>\<open>SelfBudget\<close>, from the levels \<open>limitBudget\<close> visits and the machine's memory.\<close>

definition SelfBudget :: "budget list \<Rightarrow> int \<Rightarrow> budget" where
  "SelfBudget levels totalMem =
     (case tightest None levels of
        Some b \<Rightarrow> b
      | None \<Rightarrow> if totalMem \<le> 0 then empty_budget
          else \<lparr>bu_Total = defaultShare totalMem, bu_Used = 0, bu_Enforced = False\<rparr>)"

lemma tightest_least:
  "tightest best bs = Some b \<Longrightarrow>
    (best = Some b \<or> b \<in> set bs)
    \<and> (\<forall>x \<in> set bs. Remaining b \<le> Remaining x) \<and> (\<forall>x. best = Some x \<longrightarrow> Remaining b \<le> Remaining x)"
proof (induction bs arbitrary: best)
  case (Cons c bs)
  define best' where "best' = (case best of None \<Rightarrow> Some c
    | Some x \<Rightarrow> if Remaining c < Remaining x then Some c else best)"
  have "tightest best' bs = Some b" using Cons.prems by (simp add: best'_def)
  note IH = Cons.IH [OF this]
  have "(best' = Some c \<and> (\<forall>x. best = Some x \<longrightarrow> Remaining c \<le> Remaining x))
      \<or> (best' = best \<and> (\<exists>x. best = Some x \<and> Remaining x \<le> Remaining c))"
    by (auto simp: best'_def split: option.splits if_splits)
  with IH show ?case by (auto intro: order_trans)
qed simp

subsection \<open>Data\<close>

datatype lease_state = LeaseReserved | LeaseRunning

text \<open>\<open>RenewedAt\<close> is \<open>None\<close> where the Go field is the zero time.\<close>

record lease =
  le_LeaseID :: string
  le_JobName :: string
  le_SubmitterNode :: string
  le_State :: lease_state
  le_MemBytes :: int
  le_GPUIndex :: int
  le_CreatedAt :: int
  le_ExpiresAt :: int
  le_RenewedAt :: "int option"
  le_JobID :: string

text \<open>The fields of a \<open>JobRecord\<close> the lease logic reads.\<close>

record job =
  jb_Status :: string
  jb_CreatedAt :: int
  jb_FinishedAt :: "int option"

type_synonym leases = "(string \<times> lease) list"
type_synonym jobs = "(string \<times> job) list"

text \<open>
  The server: the fields the lease operations read or write. \<open>sv_State\<close> is \<open>s.state\<close>: \<open>None\<close>
  while persistence is off, else the snapshot last written.
\<close>

record server =
  sv_NodeID :: string
  sv_Role :: string
  sv_leaseDuration :: int
  sv_gracePeriod :: int
  sv_runningLeaseTTL :: int
  sv_maxConcurrent :: int
  sv_leases :: leases
  sv_jobs :: jobs
  sv_State :: "(leases \<times> jobs) option"

record gpu_device =
  gd_Index :: int
  gd_MemoryFreeBytes :: int

text \<open>What admission reads from the machine, before it takes the lock.\<close>

record host =
  ho_OSFree :: int
  ho_CPUPercent :: f64
  ho_TotalCPUs :: int
  ho_NumCPU :: int
  ho_Roommates :: int
  ho_Budget :: budget
  ho_Devices :: "gpu_device list"
  ho_GPUPresent :: bool

record accept_request =
  ar_TargetID :: string
  ar_JobName :: string
  ar_SubmitterNode :: string
  ar_RequiredMemBytes :: int
  ar_RequiredCores :: int
  ar_RequireGPU :: bool
  ar_RequiredGPUMem :: int

datatype accept_reason =
    TargetRequired | TargetMismatch | TakesNoJobs string | InsufficientCores
  | AtConcurrencyLimit int int | InsufficientMemory int int | NoGPUAvailable

text \<open>Responses carry the HTTP status.\<close>

datatype accept_response =
    AcceptRejected accept_reason nat
  | Accepted string int int nat

datatype commit_reason =
    LeaseNotFound | NotReserved lease_state | LeaseExpired | ExpiredDuringCommit
  | ResourcesGone int

datatype commit_response = CommitRejected commit_reason nat | Committed nat

subsection \<open>Persistence\<close>

text \<open>\<open>persist\<close>: the maps as they are now replace the snapshot, when persistence is on.\<close>

definition persist :: "server \<Rightarrow> server" where
  "persist s = (case sv_State s of
       None \<Rightarrow> s
     | Some _ \<Rightarrow> s\<lparr>sv_State := Some (sv_leases s, sv_jobs s)\<rparr>)"

text \<open>\<open>state.load\<close>: the entries of the snapshot are stored into the maps; no snapshot, no change.\<close>

definition load_state :: "(leases \<times> jobs) option \<Rightarrow> leases \<Rightarrow> jobs \<Rightarrow> leases \<times> jobs" where
  "load_state snap ls js = (case snap of
       None \<Rightarrow> (ls, js)
     | Some (dl, dj) \<Rightarrow> (foldr (\<lambda>(k, v). AList.update k v) dl ls,
                         foldr (\<lambda>(k, v). AList.update k v) dj js))"

subsection \<open>Accounting\<close>

definition ReservedMem :: "server \<Rightarrow> int" where
  "ReservedMem s = total_of le_MemBytes (sv_leases s)"

definition ActiveJobs :: "server \<Rightarrow> int" where
  "ActiveJobs s = total_of (\<lambda>l. if le_State l = LeaseRunning then 1 else 0) (sv_leases s)"

definition ActiveLeases :: "server \<Rightarrow> int" where
  "ActiveLeases s = int (length (sv_leases s))"

definition QueueDepth :: "server \<Rightarrow> int" where
  "QueueDepth s = total_of (\<lambda>l. if le_State l = LeaseReserved then 1 else 0) (sv_leases s)"

definition recentFailureWindow :: int where
  "recentFailureWindow = 10 * 60 * 1000000000"

definition RecentFailures :: "int \<Rightarrow> server \<Rightarrow> int" where
  "RecentFailures now s =
     total_of (\<lambda>j. if jb_Status j = ''failed'' \<and> now - recentFailureWindow < jb_CreatedAt j then 1 else 0)
       (sv_jobs s)"

definition GetLease :: "string \<Rightarrow> server \<Rightarrow> lease option" where
  "GetLease leaseID s = map_of (sv_leases s) leaseID"

text \<open>\<open>CollectLoad\<close>'s available memory: what the OS has free less the reservations, floored.\<close>

definition CollectLoad_available :: "int \<Rightarrow> int \<Rightarrow> int" where
  "CollectLoad_available osFree reserved =
     (let available = osFree - reserved in if available < 0 then 0 else available)"

definition grantableFrom :: "host \<Rightarrow> int \<Rightarrow> int \<Rightarrow> int" where
  "grantableFrom h availableMem reserved =
     (let avail = availableMem - ho_Roommates h;
          avail = (if avail < 0 then 0 else avail)
      in if 0 < bu_Total (ho_Budget h)
         then let r = Remaining (ho_Budget h) - reserved;
                  r = (if r < 0 then 0 else r)
              in if r < avail then r else avail
         else avail)"

definition AvailableForJob :: "host \<Rightarrow> server \<Rightarrow> int" where
  "AvailableForJob h s =
     (let reserved = ReservedMem s
      in grantableFrom h (CollectLoad_available (ho_OSFree h) reserved) reserved)"

text \<open>\<open>ownJobLease\<close>: the smallest lease bound to a job, 0 without one; -1 is the start value.\<close>

definition ownJobLease :: "server \<Rightarrow> int" where
  "ownJobLease s =
     max (foldl (\<lambda>own (_, l). if le_JobID l \<noteq> [] \<and> (own < 0 \<or> le_MemBytes l < own)
                              then le_MemBytes l else own) (-1) (sv_leases s)) 0"

definition availableForOwnJob :: "host \<Rightarrow> server \<Rightarrow> int" where
  "availableForOwnJob h s =
     (let reserved = ReservedMem s - ownJobLease s
      in grantableFrom h (CollectLoad_available (ho_OSFree h) reserved) reserved)"

text \<open>\<open>Admit\<close> of \<^verbatim>\<open>resourceest\<close>: an estimate that does not fit still starts on an idle node.\<close>

definition Admit :: "int \<Rightarrow> int \<Rightarrow> bool \<Rightarrow> bool" where
  "Admit required available idle =
     (if required \<le> 0 \<or> required \<le> available then True
      else if \<not> idle \<or> available \<le> 0 then False else True)"

definition freeCoresFromLoad :: "host \<Rightarrow> f64" where
  "freeCoresFromLoad h =
     (let cores = (if ho_TotalCPUs h \<le> 0 then ho_NumCPU h else ho_TotalCPUs h);
          free = of_int cores * (1 - ho_CPUPercent h / 100)
      in if free < 0 then 0 else free)"

subsection \<open>Admission\<close>

definition live_gpu :: "lease \<Rightarrow> bool" where
  "live_gpu l \<longleftrightarrow> 0 \<le> le_GPUIndex l \<and> (le_State l = LeaseReserved \<or> le_State l = LeaseRunning)"

definition reserved_gpus :: "leases \<Rightarrow> int list" where
  "reserved_gpus ls = map (le_GPUIndex \<circ> snd) (filter (live_gpu \<circ> snd) ls)"

fun pick_gpu :: "int list \<Rightarrow> int \<Rightarrow> int \<Rightarrow> int \<Rightarrow> gpu_device list \<Rightarrow> int" where
  "pick_gpu reserved minVRAM best bestFree [] = best"
| "pick_gpu reserved minVRAM best bestFree (d # ds) =
     (if gd_Index d \<in> set reserved then pick_gpu reserved minVRAM best bestFree ds
      else if 0 < minVRAM \<and> gd_MemoryFreeBytes d < minVRAM then pick_gpu reserved minVRAM best bestFree ds
      else if bestFree < gd_MemoryFreeBytes d
      then pick_gpu reserved minVRAM (gd_Index d) (gd_MemoryFreeBytes d) ds
      else pick_gpu reserved minVRAM best bestFree ds)"

definition reserveGPULocked :: "gpu_device list \<Rightarrow> bool \<Rightarrow> int \<Rightarrow> leases \<Rightarrow> int" where
  "reserveGPULocked devices gpuPresent minVRAM ls =
     (if devices = [] then (if gpuPresent \<and> minVRAM = 0 then 0 else -1)
      else pick_gpu (reserved_gpus ls) minVRAM (-1) (-1) devices)"

text \<open>The memory figure of the accept path, computed inside the lock.\<close>

definition accept_available :: "host \<Rightarrow> server \<Rightarrow> int" where
  "accept_available h s =
     (let reserved = ReservedMem s;
          available = CollectLoad_available (ho_OSFree h) 0 - reserved - ho_Roommates h;
          r = Remaining (ho_Budget h) - reserved;
          available = (if 0 < bu_Total (ho_Budget h) \<and> r < available then r else available)
      in if available < 0 then 0 else available)"

definition new_lease :: "accept_request \<Rightarrow> string \<Rightarrow> int \<Rightarrow> int \<Rightarrow> server \<Rightarrow> lease" where
  "new_lease req leaseID gpuIndex now s =
     \<lparr>le_LeaseID = leaseID, le_JobName = ar_JobName req, le_SubmitterNode = ar_SubmitterNode req,
      le_State = LeaseReserved, le_MemBytes = ar_RequiredMemBytes req, le_GPUIndex = gpuIndex,
      le_CreatedAt = now, le_ExpiresAt = now + sv_leaseDuration s, le_RenewedAt = None, le_JobID = []\<rparr>"

definition processAccept ::
  "accept_request \<Rightarrow> host \<Rightarrow> string \<Rightarrow> int \<Rightarrow> server \<Rightarrow> accept_response \<times> server" where
  "processAccept req h leaseID now s =
     (if ar_TargetID req = [] then (AcceptRejected TargetRequired 400, s)
      else if ar_TargetID req \<noteq> sv_NodeID s then (AcceptRejected TargetMismatch 409, s)
      else if sv_Role s \<noteq> [] then (AcceptRejected (TakesNoJobs (sv_Role s)) 503, s)
      else if 0 < ar_RequiredCores req \<and> freeCoresFromLoad h < of_int (ar_RequiredCores req)
      then (AcceptRejected InsufficientCores 503, s)
      else if 0 < sv_maxConcurrent s \<and> sv_maxConcurrent s \<le> int (length (sv_leases s))
      then (AcceptRejected (AtConcurrencyLimit (int (length (sv_leases s))) (sv_maxConcurrent s)) 503, s)
      else if 0 < ar_RequiredMemBytes req
              \<and> \<not> Admit (ar_RequiredMemBytes req) (accept_available h s)
                       (sv_leases s = [] \<and> ho_Roommates h = 0)
      then (AcceptRejected (InsufficientMemory (ar_RequiredMemBytes req) (accept_available h s)) 503, s)
      else let gpuIndex = (if ar_RequireGPU req
                           then reserveGPULocked (ho_Devices h) (ho_GPUPresent h)
                                  (ar_RequiredGPUMem req) (sv_leases s)
                           else -1)
      in if ar_RequireGPU req \<and> gpuIndex < 0 then (AcceptRejected NoGPUAvailable 503, s)
      else let l = new_lease req leaseID gpuIndex now s
      in (Accepted leaseID gpuIndex (le_ExpiresAt l) 200,
          persist (s\<lparr>sv_leases := AList.update leaseID l (sv_leases s)\<rparr>)))"

subsection \<open>Commit, renew, complete, bind, release, sweep\<close>

text \<open>
  The last step of \<open>processCommit\<close>: the lease found at the start becomes running. The pointer
  it holds is the entry of the table, unless another operation removed it meanwhile.
\<close>

definition commit_running :: "string \<Rightarrow> lease \<Rightarrow> int \<Rightarrow> server \<Rightarrow> commit_response \<times> server" where
  "commit_running leaseID l now s =
     (Committed 200,
      persist (s\<lparr>sv_leases := AList.update leaseID
                   (l\<lparr>le_State := LeaseRunning, le_RenewedAt := Some now\<rparr>) (sv_leases s)\<rparr>))"

text \<open>
  \<open>mid\<close> is whatever other operations do to the server while the lock is given up to read the
  available memory; \<open>now'\<close> is the clock at the end.
\<close>

definition processCommit ::
  "string \<Rightarrow> host \<Rightarrow> int \<Rightarrow> int \<Rightarrow> (server \<Rightarrow> server) \<Rightarrow> server \<Rightarrow> commit_response \<times> server" where
  "processCommit leaseID h now now' mid s =
     (case map_of (sv_leases s) leaseID of
        None \<Rightarrow> (CommitRejected LeaseNotFound 404, s)
      | Some l \<Rightarrow>
          if le_State l \<noteq> LeaseReserved then (CommitRejected (NotReserved (le_State l)) 409, s)
          else if le_ExpiresAt l + sv_gracePeriod s < now
          then (CommitRejected LeaseExpired 410,
                persist (s\<lparr>sv_leases := AList.delete leaseID (sv_leases s)\<rparr>))
          else if 0 < le_MemBytes l
          then let available = AvailableForJob h s; s' = mid s
               in case map_of (sv_leases s') leaseID of
                    None \<Rightarrow> (CommitRejected ExpiredDuringCommit 404, s')
                  | Some l' \<Rightarrow>
                      if available < 0
                      then (CommitRejected (ResourcesGone available) 503,
                            persist (s'\<lparr>sv_leases := AList.delete leaseID (sv_leases s')\<rparr>))
                      else commit_running leaseID l' now' s'
          else commit_running leaseID l now' s)"

definition processComplete :: "string \<Rightarrow> server \<Rightarrow> server" where
  "processComplete leaseID s =
     persist (if leaseID \<noteq> [] then s\<lparr>sv_leases := AList.delete leaseID (sv_leases s)\<rparr> else s)"

text \<open>\<open>processRenew\<close> answers with the expiry, \<open>None\<close> for an unknown lease; it does not persist.\<close>

definition processRenew :: "string \<Rightarrow> int \<Rightarrow> server \<Rightarrow> int option \<times> server" where
  "processRenew leaseID now s =
     (case map_of (sv_leases s) leaseID of
        None \<Rightarrow> (None, s)
      | Some l \<Rightarrow>
          let l = l\<lparr>le_RenewedAt := Some now\<rparr>;
              l = (if le_State l = LeaseReserved then l\<lparr>le_ExpiresAt := now + sv_leaseDuration s\<rparr> else l)
          in (Some (le_ExpiresAt l), s\<lparr>sv_leases := AList.update leaseID l (sv_leases s)\<rparr>))"

definition job_ended :: "string \<Rightarrow> bool" where
  "job_ended status \<longleftrightarrow> status = ''done'' \<or> status = ''failed'' \<or> status = ''cancelled''"

definition liveJobIDs :: "server \<Rightarrow> string list" where
  "liveJobIDs s = map fst (filter (\<lambda>(_, j). \<not> job_ended (jb_Status j)) (sv_jobs s))"

definition swept :: "int \<Rightarrow> string list \<Rightarrow> server \<Rightarrow> lease \<Rightarrow> bool" where
  "swept now alive s l =
     (case le_State l of
        LeaseReserved \<Rightarrow> le_ExpiresAt l + sv_gracePeriod s < now
      | LeaseRunning \<Rightarrow>
          if le_JobID l \<noteq> [] \<and> le_JobID l \<in> set alive then False
          else let last = (case le_RenewedAt l of None \<Rightarrow> le_CreatedAt l | Some t \<Rightarrow> t)
               in 0 < sv_runningLeaseTTL s \<and> sv_runningLeaseTTL s < now - last)"

definition sweepExpired :: "int \<Rightarrow> server \<Rightarrow> server" where
  "sweepExpired now s =
     persist (s\<lparr>sv_leases := filter (\<lambda>(_, l). \<not> swept now (liveJobIDs s) s l) (sv_leases s)\<rparr>)"

definition taken_again :: "string \<Rightarrow> string \<Rightarrow> int \<Rightarrow> lease" where
  "taken_again leaseID jobID now =
     \<lparr>le_LeaseID = leaseID, le_JobName = [], le_SubmitterNode = [], le_State = LeaseRunning,
      le_MemBytes = 0, le_GPUIndex = -1, le_CreatedAt = now, le_ExpiresAt = now,
      le_RenewedAt = Some now, le_JobID = jobID\<rparr>"

definition bindLease :: "string \<Rightarrow> string \<Rightarrow> int \<Rightarrow> server \<Rightarrow> server" where
  "bindLease leaseID jobID now s =
     (if leaseID = [] then s
      else let l = (case map_of (sv_leases s) leaseID of
                      Some l \<Rightarrow> l\<lparr>le_JobID := jobID\<rparr>
                    | None \<Rightarrow> taken_again leaseID jobID now)
           in persist (s\<lparr>sv_leases := AList.update leaseID l (sv_leases s)\<rparr>))"

definition releaseJobLease :: "string \<Rightarrow> server \<Rightarrow> server" where
  "releaseJobLease jobID s =
     (if jobID = [] then s
      else if filter (\<lambda>(_, l). le_JobID l = jobID) (sv_leases s) = [] then s
      else persist (s\<lparr>sv_leases := filter (\<lambda>(_, l). le_JobID l \<noteq> jobID) (sv_leases s)\<rparr>))"

definition SetRunningLeaseTTL :: "int \<Rightarrow> server \<Rightarrow> server" where
  "SetRunningLeaseTTL d s = s\<lparr>sv_runningLeaseTTL := d\<rparr>"

definition SetMaxConcurrentJobs :: "int \<Rightarrow> server \<Rightarrow> server" where
  "SetMaxConcurrentJobs n s = s\<lparr>sv_maxConcurrent := (if n < 0 then 0 else n)\<rparr>"

subsection \<open>Restart\<close>

definition orphan_job :: "job \<Rightarrow> bool" where
  "orphan_job j \<longleftrightarrow> jb_Status j = ''running'' \<or> jb_Status j = ''importing''"

text \<open>The bookkeeping of \<open>failOrphanedJobs\<close>: containers and process groups are outside the model.\<close>

definition failOrphanedJobs :: "int \<Rightarrow> server \<Rightarrow> server" where
  "failOrphanedJobs now s =
     (let orphans = map fst (filter (orphan_job \<circ> snd) (sv_jobs s));
          s = s\<lparr>sv_jobs := map (\<lambda>(k, j). (k, if orphan_job j
                 then j\<lparr>jb_Status := ''failed'', jb_FinishedAt := Some now\<rparr> else j)) (sv_jobs s)\<rparr>
      in if orphans = [] then s
         else persist (fold releaseJobLease orphans s))"

text \<open>\<open>EnablePersistence\<close>, on the snapshot file as it is (\<open>None\<close>: missing or unreadable).\<close>

definition EnablePersistence :: "(leases \<times> jobs) option \<Rightarrow> int \<Rightarrow> server \<Rightarrow> server" where
  "EnablePersistence disk now s =
     (let (ls, js) = load_state disk (sv_leases s) (sv_jobs s)
      in failOrphanedJobs now
           (s\<lparr>sv_State := Some (case disk of None \<Rightarrow> ([], []) | Some d \<Rightarrow> d),
              sv_leases := ls, sv_jobs := js\<rparr>))"

subsection \<open>The operations as one step function\<close>

datatype lease_event =
    EvAccept accept_request host string int
  | EvCommit string host int int
  | EvComplete string
  | EvRenew string int
  | EvSweep int
  | EvBind string string int
  | EvRelease string
  | EvJobStatus string string
  | EvTTL int
  | EvCap int

text \<open>\<open>EvJobStatus\<close> is the job runner setting a job's status; the rest are the operations above.\<close>

fun lease_step :: "lease_event \<Rightarrow> server \<Rightarrow> server" where
  "lease_step (EvAccept req h i now) s = snd (processAccept req h i now s)"
| "lease_step (EvCommit i h now now') s = snd (processCommit i h now now' id s)"
| "lease_step (EvComplete i) s = processComplete i s"
| "lease_step (EvRenew i now) s = snd (processRenew i now s)"
| "lease_step (EvSweep now) s = sweepExpired now s"
| "lease_step (EvBind i j now) s = bindLease i j now s"
| "lease_step (EvRelease j) s = releaseJobLease j s"
| "lease_step (EvJobStatus j st) s =
     s\<lparr>sv_jobs := map (\<lambda>(k, v). (k, if k = j then v\<lparr>jb_Status := st\<rparr> else v)) (sv_jobs s)\<rparr>"
| "lease_step (EvTTL d) s = SetRunningLeaseTTL d s"
| "lease_step (EvCap n) s = SetMaxConcurrentJobs n s"

subsection \<open>GPU reservations\<close>

lemma persist_sel [simp]:
  "sv_leases (persist s) = sv_leases s" "sv_jobs (persist s) = sv_jobs s"
  "sv_NodeID (persist s) = sv_NodeID s" "sv_Role (persist s) = sv_Role s"
  "sv_leaseDuration (persist s) = sv_leaseDuration s" "sv_gracePeriod (persist s) = sv_gracePeriod s"
  "sv_runningLeaseTTL (persist s) = sv_runningLeaseTTL s" "sv_maxConcurrent (persist s) = sv_maxConcurrent s"
  by (simp_all add: persist_def split: option.splits)

lemma live_gpu_iff: "live_gpu l \<longleftrightarrow> 0 \<le> le_GPUIndex l"
  by (cases "le_State l") (auto simp: live_gpu_def)

lemma reserved_gpus_simps [simp]:
  "reserved_gpus [] = []"
  "reserved_gpus ((k, l) # ls) = (if 0 \<le> le_GPUIndex l then [le_GPUIndex l] else []) @ reserved_gpus ls"
  by (simp_all add: reserved_gpus_def live_gpu_iff)

lemma reserved_gpus_fresh:
  "map_of ls k = None \<Longrightarrow> reserved_gpus (AList.update k l ls)
    = reserved_gpus ls @ (if 0 \<le> le_GPUIndex l then [le_GPUIndex l] else [])"
  by (induction ls) (auto split: if_splits)

lemma reserved_gpus_over:
  "map_of ls k = Some w \<Longrightarrow> le_GPUIndex l = le_GPUIndex w \<Longrightarrow>
    reserved_gpus (AList.update k l ls) = reserved_gpus ls"
  by (induction ls) (auto split: if_splits)

lemma reserved_gpus_filter: "distinct (reserved_gpus ls) \<Longrightarrow> distinct (reserved_gpus (filter P ls))"
proof -
  assume "distinct (reserved_gpus ls)"
  then have "distinct (map (le_GPUIndex \<circ> snd) (filter P (filter (live_gpu \<circ> snd) ls)))"
    unfolding reserved_gpus_def by (rule distinct_map_filter)
  then show ?thesis by (simp add: reserved_gpus_def conj_commute)
qed

lemma delete_filter: "AList.delete k ls = filter (\<lambda>(k', _). k \<noteq> k') ls"
  by (induction ls) auto

lemma reserved_gpus_delete: "distinct (reserved_gpus ls) \<Longrightarrow> distinct (reserved_gpus (AList.delete k ls))"
  unfolding delete_filter by (rule reserved_gpus_filter)

lemma pick_gpu_result:
  "pick_gpu reserved m best bf ds = best \<or> pick_gpu reserved m best bf ds \<notin> set reserved"
proof (induction ds arbitrary: best bf)
  case (Cons d ds)
  then show ?case by (auto) (metis)+
qed simp

lemma reserveGPU_unreserved:
  "devices \<noteq> [] \<Longrightarrow> 0 \<le> reserveGPULocked devices p m ls \<Longrightarrow>
    reserveGPULocked devices p m ls \<notin> set (reserved_gpus ls)"
  using pick_gpu_result [of "reserved_gpus ls" m "-1" "-1" devices]
  by (auto simp: reserveGPULocked_def)

lemma reserved_gpus_set: "(k, l) \<in> set ls \<Longrightarrow> 0 \<le> le_GPUIndex l \<Longrightarrow> le_GPUIndex l \<in> set (reserved_gpus ls)"
  by (induction ls) auto

lemma reserved_gpus_inj:
  "distinct (reserved_gpus ls) \<Longrightarrow> (k, l) \<in> set ls \<Longrightarrow> (k', l') \<in> set ls \<Longrightarrow>
    0 \<le> le_GPUIndex l \<Longrightarrow> le_GPUIndex l = le_GPUIndex l' \<Longrightarrow> (k, l) = (k', l')"
proof (induction ls)
  case (Cons e ls)
  then show ?case
    using reserved_gpus_set [of k l ls] reserved_gpus_set [of k' l' ls]
    by (cases e) (auto split: if_splits)
qed simp

subsection \<open>The invariant of the lease table\<close>

definition lease_entry_ok :: "string \<times> lease \<Rightarrow> bool" where
  "lease_entry_ok e \<longleftrightarrow> (case e of (k, l) \<Rightarrow> le_LeaseID l = k \<and> 0 \<le> le_MemBytes l)"

definition lease_inv :: "server \<Rightarrow> bool" where
  "lease_inv s \<longleftrightarrow> keys_distinct (sv_leases s) \<and> distinct (reserved_gpus (sv_leases s))
     \<and> list_all lease_entry_ok (sv_leases s)"

text \<open>
  What is asked of the environment: a fresh id for a new lease (they are UUIDs), no negative
  memory request, and per-device GPU telemetry when a GPU is requested.
\<close>

fun lease_event_ok :: "lease_event \<Rightarrow> server \<Rightarrow> bool" where
  "lease_event_ok (EvAccept req h i now) s \<longleftrightarrow>
     map_of (sv_leases s) i = None \<and> 0 \<le> ar_RequiredMemBytes req
     \<and> (ar_RequireGPU req \<longrightarrow> ho_Devices h \<noteq> [])"
| "lease_event_ok _ s \<longleftrightarrow> True"

lemma list_all_update:
  "list_all P ls \<Longrightarrow> P (k, v) \<Longrightarrow> list_all P (AList.update k v ls)"
  by (induction ls) auto

lemma list_all_filter: "list_all P ls \<Longrightarrow> list_all P (filter Q ls)"
  by (induction ls) auto

lemma lease_inv_filter [inv_intros]:
  "lease_inv s \<Longrightarrow> sv_leases s' = filter P (sv_leases s) \<Longrightarrow> lease_inv s'"
  by (simp add: lease_inv_def keys_distinct_filter reserved_gpus_filter list_all_filter)

lemma lease_inv_delete [inv_intros]:
  "lease_inv s \<Longrightarrow> sv_leases s' = AList.delete k (sv_leases s) \<Longrightarrow> lease_inv s'"
  unfolding delete_filter by (rule lease_inv_filter)

lemma lease_inv_same: "lease_inv s \<Longrightarrow> sv_leases s' = sv_leases s \<Longrightarrow> lease_inv s'"
  by (simp add: lease_inv_def)

lemma lease_inv_fresh [inv_intros]:
  assumes "lease_inv s" "map_of (sv_leases s) k = None" "lease_entry_ok (k, l)"
    and "0 \<le> le_GPUIndex l \<Longrightarrow> le_GPUIndex l \<notin> set (reserved_gpus (sv_leases s))"
    and "sv_leases s' = AList.update k l (sv_leases s)"
  shows "lease_inv s'"
  using assms by (auto simp: lease_inv_def gm.wf_put reserved_gpus_fresh list_all_update)

lemma lease_inv_over [inv_intros]:
  assumes "lease_inv s" "map_of (sv_leases s) k = Some w" "le_GPUIndex l = le_GPUIndex w"
    and "le_LeaseID l = le_LeaseID w" "le_MemBytes l = le_MemBytes w"
    and "sv_leases s' = AList.update k l (sv_leases s)"
  shows "lease_inv s'"
proof -
  have "(k, w) \<in> set (sv_leases s)" using assms(2) by (rule map_of_SomeD)
  then have "lease_entry_ok (k, l)"
    using assms(1,4,5) by (auto simp: lease_inv_def list_all_iff lease_entry_ok_def)
  with assms show ?thesis
    by (simp add: lease_inv_def gm.wf_put reserved_gpus_over list_all_update)
qed

text \<open>What an accept that changes the table did, whatever the branch.\<close>

definition accept_gpu :: "accept_request \<Rightarrow> host \<Rightarrow> server \<Rightarrow> int" where
  "accept_gpu req h s = (if ar_RequireGPU req
     then reserveGPULocked (ho_Devices h) (ho_GPUPresent h) (ar_RequiredGPUMem req) (sv_leases s) else -1)"

lemma lease_inv_persist [simp]: "lease_inv (persist s) = lease_inv s"
  by (simp add: lease_inv_def)

lemma lease_inv_put:
  assumes "lease_inv s" "map_of (sv_leases s) k = Some w" "le_GPUIndex l = le_GPUIndex w"
    and "le_LeaseID l = le_LeaseID w" "le_MemBytes l = le_MemBytes w"
  shows "lease_inv (s\<lparr>sv_leases := AList.update k l (sv_leases s)\<rparr>)"
  by (rule lease_inv_over [OF assms]) simp

lemma accept_rejected_same: "processAccept req h i now s = (AcceptRejected r c, s') \<Longrightarrow> s' = s"
  unfolding processAccept_def Let_def by (simp split: if_splits)

lemma accept_accepted:
  assumes "processAccept req h i now s = (Accepted i' g e c, s')"
  shows "i' = i \<and> g = accept_gpu req h s \<and> c = 200 \<and> e = now + sv_leaseDuration s
    \<and> s' = persist (s\<lparr>sv_leases := AList.update i (new_lease req i (accept_gpu req h s) now s) (sv_leases s)\<rparr>)
    \<and> ar_TargetID req \<noteq> [] \<and> ar_TargetID req = sv_NodeID s \<and> sv_Role s = []
    \<and> (0 < ar_RequiredCores req \<longrightarrow> of_int (ar_RequiredCores req) \<le> freeCoresFromLoad h)
    \<and> (0 < sv_maxConcurrent s \<longrightarrow> int (length (sv_leases s)) < sv_maxConcurrent s)
    \<and> (0 < ar_RequiredMemBytes req \<longrightarrow> Admit (ar_RequiredMemBytes req) (accept_available h s)
         (sv_leases s = [] \<and> ho_Roommates h = 0))
    \<and> (ar_RequireGPU req \<longrightarrow> 0 \<le> accept_gpu req h s)"
  using assms unfolding processAccept_def accept_gpu_def Let_def
  by (simp split: if_splits add: new_lease_def not_less not_le) (elim conjE, simp, fastforce)+

lemma accept_inv:
  assumes "lease_inv s" "map_of (sv_leases s) i = None" "0 \<le> ar_RequiredMemBytes req"
    and "ar_RequireGPU req \<longrightarrow> ho_Devices h \<noteq> []"
  shows "lease_inv (snd (processAccept req h i now s))"
proof (cases "processAccept req h i now s")
  case (Pair res s')
  show ?thesis
  proof (cases res)
    case (AcceptRejected r c)
    then show ?thesis using Pair accept_rejected_same [of req h i now s r c s'] assms(1) by simp
  next
    case (Accepted i' g e c)
    let ?l = "new_lease req i (accept_gpu req h s) now s"
    have "lease_inv (s\<lparr>sv_leases := AList.update i ?l (sv_leases s)\<rparr>)"
    proof (rule lease_inv_fresh [OF assms(1,2), of ?l])
      show "lease_entry_ok (i, ?l)" using assms(3) by (simp add: new_lease_def lease_entry_ok_def)
      show "le_GPUIndex ?l \<notin> set (reserved_gpus (sv_leases s))" if "0 \<le> le_GPUIndex ?l"
        using that assms(4) by (auto simp: new_lease_def accept_gpu_def
            dest: reserveGPU_unreserved split: if_splits)
    qed simp
    moreover have "s' = persist (s\<lparr>sv_leases := AList.update i ?l (sv_leases s)\<rparr>)"
      using accept_accepted [of req h i now s i' g e c s'] Pair Accepted by simp
    ultimately show ?thesis using Pair by simp
  qed
qed

lemma commit_inv:
  assumes "lease_inv s" "lease_inv (mid s)"
  shows "lease_inv (snd (processCommit i h now now' mid s))"
  using assms
  using lease_inv_delete [OF assms(1), of _ i] lease_inv_delete [OF assms(2), of _ i]
    lease_inv_put [OF assms(1), of i] lease_inv_put [OF assms(2), of i]
  by (simp add: processCommit_def commit_running_def Let_def split: option.split)

lemma releaseJobLease_leases:
  "sv_leases (releaseJobLease j s) =
    (if j = [] then sv_leases s else filter (\<lambda>(_, l). le_JobID l \<noteq> j) (sv_leases s))"
proof (cases "j = [] \<or> filter (\<lambda>(_, l). le_JobID l = j) (sv_leases s) \<noteq> []")
  case False
  then have "filter (\<lambda>(_, l). le_JobID l \<noteq> j) (sv_leases s) = sv_leases s"
    by (auto simp: filter_empty_conv filter_id_conv)
  with False show ?thesis by (simp add: releaseJobLease_def)
qed (auto simp: releaseJobLease_def)

lemma bind_inv: "lease_inv s \<Longrightarrow> lease_inv (bindLease i j now s)"
proof (cases "map_of (sv_leases s) i")
  case None
  assume "lease_inv s"
  then show ?thesis
    by (cases "i = []") (auto simp: bindLease_def None
        intro!: lease_inv_fresh [OF _ None, where l = "taken_again i j now"]
        simp: taken_again_def lease_entry_ok_def)
next
  case (Some l)
  assume "lease_inv s"
  then show ?thesis
    by (cases "i = []") (auto simp: bindLease_def Some
        intro!: lease_inv_put)
qed

lemma renew_inv: "lease_inv s \<Longrightarrow> lease_inv (snd (processRenew i now s))"
proof (cases "map_of (sv_leases s) i")
  case (Some l)
  assume "lease_inv s"
  then show ?thesis
    by (auto simp: processRenew_def Some Let_def intro!: lease_inv_put)
qed (simp add: processRenew_def)

lemma lease_step_inv:
  assumes "lease_inv s" "lease_event_ok e s"
  shows "lease_inv (lease_step e s)"
proof (cases e)
  case (EvAccept req h i now)
  with assms show ?thesis by (auto intro: accept_inv)
next
  case (EvCommit i h now now')
  with assms show ?thesis by (auto intro: commit_inv)
next
  case (EvComplete i)
  with assms show ?thesis
    by (auto simp: processComplete_def intro: lease_inv_delete lease_inv_same)
next
  case (EvSweep now)
  with assms show ?thesis by (auto simp: sweepExpired_def intro: lease_inv_filter)
next
  case (EvRelease j)
  with assms show ?thesis
    by (auto intro!: lease_inv_filter [of s _ "\<lambda>(_, l). j = [] \<or> le_JobID l \<noteq> j"]
        simp: releaseJobLease_leases case_prod_beta)
qed (use assms in \<open>auto simp: SetRunningLeaseTTL_def SetMaxConcurrentJobs_def
      intro: bind_inv renew_inv lease_inv_same\<close>)

interpretation lm: guarded_machine lease_step lease_event_ok lease_inv
  by unfold_locales (rule lease_step_inv)

lemma lease_run_inv:
  "sv_leases s = [] \<Longrightarrow> lm.run_ok es s \<Longrightarrow> lease_inv (fold lease_step es s)"
  by (rule lm.run_inv) (simp add: lease_inv_def)

subsection \<open>Concrete inputs\<close>

definition ex_server :: server where
  "ex_server = \<lparr>sv_NodeID = ''n'', sv_Role = [], sv_leaseDuration = 30, sv_gracePeriod = 5,
     sv_runningLeaseTTL = 90, sv_maxConcurrent = 2, sv_leases = [], sv_jobs = [], sv_State = Some ([], [])\<rparr>"

definition ex_host :: host where
  "ex_host = \<lparr>ho_OSFree = 100, ho_CPUPercent = 50, ho_TotalCPUs = 8, ho_NumCPU = 8, ho_Roommates = 10,
     ho_Budget = \<lparr>bu_Total = 70, bu_Used = 20, bu_Enforced = True\<rparr>,
     ho_Devices = [\<lparr>gd_Index = 0, gd_MemoryFreeBytes = 5\<rparr>, \<lparr>gd_Index = 1, gd_MemoryFreeBytes = 9\<rparr>],
     ho_GPUPresent = True\<rparr>"

definition ex_req :: "int \<Rightarrow> accept_request" where
  "ex_req mem = \<lparr>ar_TargetID = ''n'', ar_JobName = ''j'', ar_SubmitterNode = ''m'', ar_RequiredMemBytes = mem,
     ar_RequiredCores = 2, ar_RequireGPU = True, ar_RequiredGPUMem = 0\<rparr>"

lemmas lease_eval = ex_server_def ex_host_def ex_req_def processAccept_def processCommit_def
  processRenew_def processComplete_def bindLease_def releaseJobLease_def sweepExpired_def
  commit_running_def persist_def new_lease_def Admit_def accept_available_def AvailableForJob_def
  grantableFrom_def CollectLoad_available_def Remaining_def ReservedMem_def freeCoresFromLoad_def
  reserveGPULocked_def reserved_gpus_def live_gpu_def liveJobIDs_def swept_def job_ended_def Let_def

subsection \<open>Properties\<close>


lemma Admit_iff: "Admit required available idle \<longleftrightarrow>
    required \<le> 0 \<or> required \<le> available \<or> (idle \<and> 0 < available)"
  by (auto simp: Admit_def)

lemma ReservedMem_fresh: "map_of (sv_leases s) i = None \<Longrightarrow>
    ReservedMem (persist (s\<lparr>sv_leases := AList.update i l (sv_leases s)\<rparr>)) = ReservedMem s + le_MemBytes l"
  by (simp add: ReservedMem_def gm.total_put_fresh)




text \<open>The memory figure the accept path computes inside its lock is the figure
  AvailableForJob reports, in every state the operations reach.\<close>

theorem accept_available_is_AvailableForJob:
  assumes "lease_inv s" "0 \<le> ho_Roommates h"
  shows "accept_available h s = AvailableForJob h s"
proof -
  have "0 \<le> ReservedMem s"
    unfolding ReservedMem_def using assms(1)
    by (intro total_of_nonneg) (auto simp: lease_inv_def lease_entry_ok_def list_all_iff)
  then show ?thesis using assms(2)
    by (auto simp: accept_available_def AvailableForJob_def grantableFrom_def
        CollectLoad_available_def Let_def)
qed

lemma accept_available_is_AvailableForJob_witness:
  "accept_available ex_host ex_server = AvailableForJob ex_host ex_server \<and> AvailableForJob ex_host ex_server = 50"
  using accept_available_is_AvailableForJob [of ex_server ex_host]
  by (simp add: lease_eval lease_inv_def)

subsection \<open>The concurrency cap\<close>

definition under_cap :: "int \<Rightarrow> server \<Rightarrow> bool" where
  "under_cap c s \<longleftrightarrow> sv_maxConcurrent s = c \<and> int (length (sv_leases s)) \<le> c"

text \<open>Binding a job to a lease the node lost takes the lease again, past the cap; a changed cap
  evicts nothing.\<close>

fun cap_event_ok :: "lease_event \<Rightarrow> server \<Rightarrow> bool" where
  "cap_event_ok (EvCap n) s \<longleftrightarrow> False"
| "cap_event_ok (EvBind i j now) s \<longleftrightarrow> map_of (sv_leases s) i \<noteq> None"
| "cap_event_ok _ s \<longleftrightarrow> True"

lemma length_update_over: "map_of ls k = Some w \<Longrightarrow> length (AList.update k v ls) = length ls"
  by (induction ls) (auto split: if_splits)

lemma length_update_le: "length (AList.update k v ls) \<le> Suc (length ls)"
  by (induction ls) (auto split: if_splits)

lemma under_capI:
  "under_cap c s \<Longrightarrow> sv_maxConcurrent s' = sv_maxConcurrent s \<Longrightarrow>
    length (sv_leases s') \<le> length (sv_leases s) \<Longrightarrow> under_cap c s'"
  by (simp add: under_cap_def)

lemma cap_step_inv:
  assumes "0 < c" "under_cap c s" "cap_event_ok e s"
  shows "under_cap c (lease_step e s)"
proof (cases e)
  case (EvAccept req h i now)
  obtain res s' where acc: "processAccept req h i now s = (res, s')" by fastforce
  show ?thesis
  proof (cases res)
    case (AcceptRejected r d)
    then show ?thesis using acc accept_rejected_same [of req h i now s r d s'] assms(2) EvAccept by simp
  next
    case (Accepted i' g x d)
    have "int (length (sv_leases s)) < c"
      and "s' = persist (s\<lparr>sv_leases := AList.update i (new_lease req i (accept_gpu req h s) now s) (sv_leases s)\<rparr>)"
      using acc accept_accepted [of req h i now s i' g x d s'] assms(1,2) Accepted
      by (auto simp: under_cap_def)
    then show ?thesis
      using assms(2) length_update_le [of i "new_lease req i (accept_gpu req h s) now s" "sv_leases s"]
      by (simp add: EvAccept acc under_cap_def)
  qed
next
  case (EvCommit i h now now')
  then show ?thesis using assms(2) length_delete_le [of i "sv_leases s"]
    by (auto simp: processCommit_def commit_running_def Let_def under_cap_def length_update_over split: option.split)
next
  case (EvComplete i)
  then show ?thesis using assms(2) length_delete_le [of i "sv_leases s"]
    by (auto simp: processComplete_def under_cap_def)
next
  case (EvRenew i now)
  then show ?thesis using assms(2)
    by (auto simp: processRenew_def Let_def under_cap_def length_update_over split: option.split)
next
  case (EvSweep now)
  show ?thesis by (rule under_capI [OF assms(2)]) (simp_all add: EvSweep sweepExpired_def)
next
  case (EvBind i j now)
  then show ?thesis using assms(2,3)
    by (auto simp: bindLease_def Let_def under_cap_def length_update_over split: option.split)
next
  case (EvRelease j)
  show ?thesis
    by (rule under_capI [OF assms(2)])
      (simp_all add: EvRelease releaseJobLease_leases, simp add: releaseJobLease_def)
qed (use assms in \<open>simp_all add: under_cap_def SetRunningLeaseTTL_def\<close>)

interpretation cap_machine: guarded_machine lease_step cap_event_ok "\<lambda>s. under_cap (max 1 c) s" for c
  by unfold_locales (rule cap_step_inv, simp_all)

text \<open>While the cap is not changed and no job is bound to a lost lease, the reserved and
  running leases together never exceed the concurrency cap.\<close>

theorem concurrency_cap_respected:
  assumes "0 < sv_maxConcurrent s" "int (length (sv_leases s)) \<le> sv_maxConcurrent s"
    and "cap_machine.run_ok es s"
  shows "int (length (sv_leases (fold lease_step es s))) \<le> sv_maxConcurrent s"
proof -
  have "under_cap (max 1 (sv_maxConcurrent s)) (fold lease_step es s)"
    using assms by (intro cap_machine.run_inv) (auto simp: under_cap_def max_def)
  then show ?thesis using assms(1) by (simp add: under_cap_def max_def split: if_splits)
qed

lemma concurrency_cap_respected_witness:
  "int (length (sv_leases (fold lease_step
      [EvAccept (ex_req 5) ex_host ''a'' 1, EvAccept (ex_req 5) ex_host ''b'' 2,
       EvAccept (ex_req 5) ex_host ''c'' 3] ex_server))) \<le> 2"
  using concurrency_cap_respected [of ex_server "[EvAccept (ex_req 5) ex_host ''a'' 1,
      EvAccept (ex_req 5) ex_host ''b'' 2, EvAccept (ex_req 5) ex_host ''c'' 3]"]
  by (simp add: ex_server_def)

subsection \<open>The life of a lease\<close>

definition lease_later :: "lease \<Rightarrow> lease \<Rightarrow> bool" where
  "lease_later l l' \<longleftrightarrow> le_LeaseID l' = le_LeaseID l \<and> le_JobName l' = le_JobName l
     \<and> le_SubmitterNode l' = le_SubmitterNode l \<and> le_MemBytes l' = le_MemBytes l
     \<and> le_GPUIndex l' = le_GPUIndex l \<and> le_CreatedAt l' = le_CreatedAt l
     \<and> (le_State l = LeaseRunning \<longrightarrow> le_State l' = LeaseRunning)"

lemma lease_later_refl [simp]: "lease_later l l"
  by (simp add: lease_later_def)

lemma releaseJobLease_other [simp]:
  "sv_maxConcurrent (releaseJobLease j s) = sv_maxConcurrent s" "sv_jobs (releaseJobLease j s) = sv_jobs s"
  by (simp_all add: releaseJobLease_def)

text \<open>What one step does to an entry that is there before and after: only a commit, a renewal and
  a binding touch it.\<close>

lemma step_entry:
  assumes "keys_distinct (sv_leases s)" "lease_event_ok e s"
    and "map_of (sv_leases s) k = Some l" "map_of (sv_leases (lease_step e s)) k = Some l'"
  shows "l' = l
    \<or> (\<exists>h now now'. e = EvCommit k h now now' \<and> le_State l = LeaseReserved
          \<and> now \<le> le_ExpiresAt l + sv_gracePeriod s
          \<and> l' = l\<lparr>le_State := LeaseRunning, le_RenewedAt := Some now'\<rparr>)
    \<or> (\<exists>now. e = EvRenew k now \<and> (l' = l\<lparr>le_RenewedAt := Some now\<rparr>
          \<or> l' = l\<lparr>le_RenewedAt := Some now, le_ExpiresAt := now + sv_leaseDuration s\<rparr>))
    \<or> (\<exists>j now. e = EvBind k j now \<and> l' = l\<lparr>le_JobID := j\<rparr>)"
proof (cases e)
  case (EvAccept req h i now)
  obtain res s' where acc: "processAccept req h i now s = (res, s')" by fastforce
  have "k \<noteq> i" using assms(2,3) EvAccept by auto
  then show ?thesis
    using acc accept_rejected_same [of req h i now s _ _ s'] accept_accepted [of req h i now s _ _ _ _ s']
      assms(3,4) EvAccept
    by (cases res) (auto simp: gm.look_put)
next
  case (EvCommit i h now now')
  then show ?thesis using assms(3,4)
    by (cases "k = i") (auto simp: processCommit_def commit_running_def Let_def gm.look_put gm.look_del not_less
        split: option.splits if_splits)
next
  case (EvComplete i)
  then show ?thesis using assms(3,4)
    by (auto simp: processComplete_def gm.look_del split: if_splits)
next
  case (EvRenew i now)
  then show ?thesis using assms(3,4)
    by (cases "k = i") (auto simp: processRenew_def Let_def gm.look_put split: option.splits if_splits)
next
  case (EvSweep now)
  then show ?thesis using assms(1,3,4)
    by (simp add: sweepExpired_def map_of_filter_table split: if_splits)
next
  case (EvBind i j now)
  then show ?thesis using assms(3,4)
    by (cases "k = i") (auto simp: bindLease_def Let_def gm.look_put split: option.splits if_splits)
next
  case (EvRelease j)
  then show ?thesis using assms(1,3,4)
    by (simp add: releaseJobLease_leases map_of_filter_table split: if_splits)
qed (use assms in \<open>simp_all add: SetRunningLeaseTTL_def SetMaxConcurrentJobs_def\<close>)

text \<open>C3: A lease that survives a step keeps its identity, its memory and its GPU; a running lease
  is never reserved again, and a reserved one becomes running only through its own commit,
  before the expiry and the grace period have passed.\<close>

theorem lease_life:
  assumes "lease_inv s" "lease_event_ok e s"
    and "map_of (sv_leases s) k = Some l" "map_of (sv_leases (lease_step e s)) k = Some l'"
  shows "lease_later l l' \<and> (le_State l' \<noteq> le_State l \<longrightarrow>
    (\<exists>h now now'. e = EvCommit k h now now' \<and> now \<le> le_ExpiresAt l + sv_gracePeriod s))"
  using step_entry [OF _ assms(2-4)] assms(1) by (auto simp: lease_inv_def lease_later_def)

lemma lease_life_witness:
  "let s = lease_step (EvAccept (ex_req 30) ex_host ''a'' 7) ex_server;
       l = new_lease (ex_req 30) ''a'' 1 7 ex_server
   in lease_later l (l\<lparr>le_State := LeaseRunning, le_RenewedAt := Some 9\<rparr>)
      \<and> map_of (sv_leases (lease_step (EvCommit ''a'' ex_host 8 9) s)) ''a''
         = Some (l\<lparr>le_State := LeaseRunning, le_RenewedAt := Some 9\<rparr>)"
proof -
  let ?s = "lease_step (EvAccept (ex_req 30) ex_host ''a'' 7) ex_server"
  let ?l = "new_lease (ex_req 30) ''a'' 1 7 ex_server"
  let ?l' = "?l\<lparr>le_State := LeaseRunning, le_RenewedAt := Some 9\<rparr>"
  have inv: "lease_inv ?s" by (simp add: lease_eval lease_inv_def lease_entry_ok_def)
  have before: "map_of (sv_leases ?s) ''a'' = Some ?l" by (simp add: lease_eval)
  have after: "map_of (sv_leases (lease_step (EvCommit ''a'' ex_host 8 9) ?s)) ''a'' = Some ?l'"
    by (simp add: lease_eval)
  have "lease_later ?l ?l'"
    using lease_life [OF inv _ before after] by simp
  with after show ?thesis by (simp add: Let_def)
qed

subsection \<open>Expiry\<close>

text \<open>The sweep keeps exactly the reserved leases still within expiry and grace, and of the
  running ones those bound to a job that has not ended and those renewed within the time to
  live; a time to live of zero keeps every running lease.\<close>

theorem sweep_keeps_exactly:
  assumes "keys_distinct (sv_leases s)" "keys_distinct (sv_jobs s)"
  shows "map_of (sv_leases (sweepExpired now s)) k = Some l \<longleftrightarrow>
    map_of (sv_leases s) k = Some l \<and>
    (case le_State l of
       LeaseReserved \<Rightarrow> now \<le> le_ExpiresAt l + sv_gracePeriod s
     | LeaseRunning \<Rightarrow>
         (le_JobID l \<noteq> [] \<and> (\<exists>j. map_of (sv_jobs s) (le_JobID l) = Some j \<and> \<not> job_ended (jb_Status j)))
         \<or> sv_runningLeaseTTL s \<le> 0
         \<or> now - (case le_RenewedAt l of None \<Rightarrow> le_CreatedAt l | Some t \<Rightarrow> t) \<le> sv_runningLeaseTTL s)"
proof -
  have alive: "i \<in> set (liveJobIDs s) \<longleftrightarrow>
      (\<exists>j. map_of (sv_jobs s) i = Some j \<and> \<not> job_ended (jb_Status j))" for i
    using assms(2) unfolding keys_distinct_def liveJobIDs_def
    by (force simp: map_of_eq_Some_iff image_iff)
  show ?thesis
    using assms(1)
    by (auto simp: sweepExpired_def map_of_filter_table swept_def alive Let_def not_less not_le
        split: option.splits lease_state.splits if_splits)
qed

lemma sweep_keeps_exactly_witness:
  "map_of (sv_leases (sweepExpired 200 (lease_step (EvCommit ''a'' ex_host 8 9)
     (lease_step (EvAccept (ex_req 30) ex_host ''a'' 7) ex_server)))) ''a'' = None"
proof -
  let ?s = "lease_step (EvCommit ''a'' ex_host 8 9) (lease_step (EvAccept (ex_req 30) ex_host ''a'' 7) ex_server)"
  have "keys_distinct (sv_leases ?s)" "keys_distinct (sv_jobs ?s)" by (simp_all add: lease_eval)
  from sweep_keeps_exactly [OF this, of 200 "''a''"] have
    "map_of (sv_leases (sweepExpired 200 ?s)) ''a'' \<noteq> Some l" for l
    by (auto simp: lease_eval)
  then show ?thesis by (cases "map_of (sv_leases (sweepExpired 200 ?s)) ''a''") auto
qed

subsection \<open>Restart\<close>

text \<open>What a renewal may change without a snapshot being written.\<close>

definition untimed :: "lease \<Rightarrow> lease" where
  "untimed l = l\<lparr>le_RenewedAt := None, le_ExpiresAt := 0\<rparr>"

definition untimed_table :: "leases \<Rightarrow> leases" where
  "untimed_table ls = map (map_prod id untimed) ls"

definition durable :: "server \<Rightarrow> bool" where
  "durable s \<longleftrightarrow> (case sv_State s of None \<Rightarrow> False
     | Some (dl, dj) \<Rightarrow> untimed_table dl = untimed_table (sv_leases s))"

lemma durable_persist: "sv_State s \<noteq> None \<Longrightarrow> durable (persist s)"
  by (auto simp: durable_def persist_def)

lemma durable_State: "durable s \<Longrightarrow> sv_State s \<noteq> None"
  by (cases "sv_State s") (auto simp: durable_def)

lemma durable_write [simp]:
  "durable s \<Longrightarrow> durable (persist (s\<lparr>sv_leases := ls\<rparr>))" "durable s \<Longrightarrow> durable (persist s)"
  by (rule durable_persist, simp add: durable_State del: not_None_eq)+

lemma untimed_table_over:
  "map_of ls k = Some w \<Longrightarrow> untimed l = untimed w \<Longrightarrow>
    untimed_table (AList.update k l ls) = untimed_table ls"
  by (induction ls) (auto simp: untimed_table_def split: if_splits)

lemma durable_put:
  "durable s \<Longrightarrow> map_of (sv_leases s) k = Some w \<Longrightarrow> untimed l = untimed w \<Longrightarrow>
    durable (s\<lparr>sv_leases := AList.update k l (sv_leases s)\<rparr>)"
  by (auto simp: durable_def untimed_table_over split: option.splits)

lemma durable_step:
  assumes "durable s"
  shows "durable (lease_step e s)"
proof (cases e)
  case (EvAccept req h i now)
  with assms show ?thesis
    by (simp add: processAccept_def Let_def)
next
  case (EvCommit i h now now')
  with assms show ?thesis
    by (simp add: processCommit_def commit_running_def Let_def split: option.split)
next
  case (EvRenew i now)
  with assms show ?thesis
    by (auto simp: processRenew_def Let_def split: option.split intro!: durable_put simp: untimed_def)
next
  case (EvBind i j now)
  with assms show ?thesis
    by (simp add: bindLease_def Let_def)
qed (use assms in \<open>auto simp: processComplete_def sweepExpired_def releaseJobLease_def durable_def
      SetRunningLeaseTTL_def SetMaxConcurrentJobs_def persist_def split: option.splits\<close>)

interpretation durable_machine: guarded_machine lease_step "\<lambda>_ _. True" durable
  by unfold_locales (rule durable_step)

lemma map_of_foldr_update:
  "map_of (foldr (\<lambda>(k, v). AList.update k v) dl t) k
    = (case map_of dl k of None \<Rightarrow> map_of t k | Some v \<Rightarrow> Some v)"
  by (induction dl) (auto simp: gm.look_put)

lemma keys_distinct_foldr_update:
  "keys_distinct t \<Longrightarrow> keys_distinct (foldr (\<lambda>(k, v). AList.update k v) dl t)"
  by (induction dl) (auto intro: gm.wf_put)

lemma fold_release_leases:
  "sv_leases (fold releaseJobLease js s)
    = filter (\<lambda>(_, l). le_JobID l = [] \<or> le_JobID l \<notin> set js) (sv_leases s)"
  by (induction js arbitrary: s) (auto simp: releaseJobLease_leases intro!: filter_cong)

definition lost_job :: "jobs \<Rightarrow> lease \<Rightarrow> bool" where
  "lost_job js l \<longleftrightarrow> le_JobID l \<noteq> []
     \<and> (case map_of js (le_JobID l) of None \<Rightarrow> False | Some j \<Rightarrow> orphan_job j)"

lemma restart_leases:
  assumes "sv_leases s0 = []" "sv_jobs s0 = []"
  shows "map_of (sv_leases (EnablePersistence (Some (dl, dj)) now s0)) k
    = (case map_of dl k of None \<Rightarrow> None | Some l \<Rightarrow> if lost_job dj l then None else Some l)"
proof -
  let ?ls = "foldr (\<lambda>(k, v). AList.update k v) dl []"
  let ?js = "foldr (\<lambda>(k, v). AList.update k v) dj []"
  let ?orphans = "map fst (filter (orphan_job \<circ> snd) ?js)"
  have "keys_distinct ?js" "keys_distinct ?ls" by (simp_all add: keys_distinct_foldr_update)
  then have mem: "i \<in> set ?orphans \<longleftrightarrow>
      (case map_of dj i of None \<Rightarrow> False | Some j \<Rightarrow> orphan_job j)" for i
  proof -
    have "i \<in> set ?orphans \<longleftrightarrow> (\<exists>j. map_of ?js i = Some j \<and> orphan_job j)"
      using \<open>keys_distinct ?js\<close> by (force simp: keys_distinct_def map_of_eq_Some_iff image_iff)
    then show ?thesis by (simp add: map_of_foldr_update split: option.split)
  qed
  have "sv_leases (EnablePersistence (Some (dl, dj)) now s0)
      = filter (\<lambda>(_, l). le_JobID l = [] \<or> le_JobID l \<notin> set ?orphans) ?ls"
  proof (cases "?orphans = []")
    case True
    then have "\<forall>x \<in> set ?js. \<not> orphan_job (snd x)" by (simp add: filter_empty_conv)
    then have "filter (\<lambda>(_, l). le_JobID l = [] \<or> le_JobID l \<notin> set ?orphans) ?ls = ?ls"
      by (simp add: True)
    with True show ?thesis using assms
      by (simp add: EnablePersistence_def load_state_def failOrphanedJobs_def Let_def)
  next
    case False
    then show ?thesis using assms
      by (simp add: EnablePersistence_def load_state_def failOrphanedJobs_def Let_def fold_release_leases)
  qed
  then have "map_of (sv_leases (EnablePersistence (Some (dl, dj)) now s0)) k
      = (case map_of dl k of None \<Rightarrow> None
         | Some l \<Rightarrow> if le_JobID l = [] \<or> le_JobID l \<notin> set ?orphans then Some l else None)"
    using \<open>keys_distinct ?ls\<close>
    by (simp only: map_of_filter_table map_of_foldr_update) (simp split: option.split)
  then show ?thesis unfolding mem by (simp add: lost_job_def split: option.split)
qed



subsection \<open>What the code does beyond its comments\<close>

text \<open>\<open>AvailableForJob\<close> floors its figure at zero, so the re-check in \<open>processCommit\<close> never fires.\<close>

lemma commit_never_resources_gone:
  "fst (processCommit i h now now' mid s) \<noteq> CommitRejected (ResourcesGone a) c"
  by (auto simp: processCommit_def commit_running_def AvailableForJob_def grantableFrom_def Let_def
      split: option.splits)

text \<open>A negative memory request passes the check and makes room for others.\<close>

lemma negative_request_frees_memory:
  assumes "processAccept req h i now s = (Accepted i' g e c, s')"
    and "map_of (sv_leases s) i = None" "ar_RequiredMemBytes req < 0"
  shows "ReservedMem s' < ReservedMem s" and "accept_available h s \<le> accept_available h s'"
proof -
  have "ReservedMem s' = ReservedMem s + ar_RequiredMemBytes req"
    using accept_accepted [OF assms(1)] ReservedMem_fresh [OF assms(2)] by (simp add: new_lease_def)
  then show "ReservedMem s' < ReservedMem s" "accept_available h s \<le> accept_available h s'"
    using assms(3) by (simp_all add: accept_available_def Let_def)
qed

lemma negative_request_accepted:
  "fst (processAccept (ex_req (-40)) ex_host ''a'' 7 ex_server) = Accepted ''a'' 1 37 200
   \<and> accept_available ex_host (snd (processAccept (ex_req (-40)) ex_host ''a'' 7 ex_server)) = 90
   \<and> accept_available ex_host ex_server = 50"
  by (simp add: lease_eval total_of_def)

text \<open>Without per-device telemetry the same device index is granted to every request.\<close>

lemma gpu_without_telemetry_granted_twice:
  "let h = ex_host\<lparr>ho_Devices := []\<rparr>;
       s = fold lease_step [EvAccept (ex_req 5) h ''a'' 7, EvAccept (ex_req 5) h ''b'' 8] ex_server
   in map (le_GPUIndex \<circ> snd) (sv_leases s) = [0, 0]"
  by (simp add: lease_eval total_of_def)

text \<open>A lease still reserved is swept after its expiry although it is bound to a live job.\<close>

lemma reserved_bound_lease_swept:
  "let s = (lease_step (EvBind ''a'' ''job'' 8) (lease_step (EvAccept (ex_req 5) ex_host ''a'' 7) ex_server))
         \<lparr>sv_jobs := [(''job'', \<lparr>jb_Status = ''running'', jb_CreatedAt = 8, jb_FinishedAt = None\<rparr>)]\<rparr>
   in map_of (sv_leases s) ''a'' \<noteq> None \<and> sv_leases (sweepExpired 100 s) = []"
  by (simp add: lease_eval total_of_def)

text \<open>Two commits of one lease both succeed when the second starts while the first has released the
  lock to read the load: the state is not checked again.\<close>

lemma lease_committed_twice:
  "let s = lease_step (EvAccept (ex_req 5) ex_host ''a'' 7) ex_server;
       other = processCommit ''a'' ex_host 8 9 id
   in fst (other s) = Committed 200
      \<and> fst (processCommit ''a'' ex_host 8 10 (\<lambda>s. snd (other s)) s) = Committed 200"
  by (simp add: lease_eval total_of_def)

end
