(* ===== verification/NodeBook.thy ===== *)
theory NodeBook
  imports GoMap
begin

text \<open>
  The daemon's address book, \<^verbatim>\<open>src/internal/nodestore/store.go\<close>: every node it knows and every
  address it has for each one. The two tables are lists of rows in the order of insertion and
  each SQL statement of the source is a function on them, with the meaning SQLite documents; a
  failing database is not modelled. Times are unix seconds, 0 is the zero time, and the clock
  is an argument.
\<close>

subsection \<open>Rows\<close>

datatype path_kind = PathLAN | PathInternet | PathGossip | PathSelf | OtherKind string

fun rank :: "path_kind \<Rightarrow> nat" where
  "rank PathSelf = 4"
| "rank PathLAN = 3"
| "rank PathInternet = 2"
| "rank PathGossip = 1"
| "rank (OtherKind _) = 0"

record path_row =
  pa_Node :: string
  pa_Host :: string
  pa_Port :: int
  pa_Kind :: path_kind
  pa_LastSeen :: int
  pa_LastOK :: int
  pa_LastErr :: string
  pa_Active :: bool

definition answering :: "path_row \<Rightarrow> bool" where
  "answering p \<longleftrightarrow> pa_LastOK p \<noteq> 0 \<and> pa_LastErr p = []"

record node_row =
  no_ID :: string
  no_SSHEndpoint :: string
  no_Arch :: string
  no_Hostname :: string
  no_State :: string
  no_ActiveJobs :: int
  no_AvailableMem :: int
  no_ReservedMem :: int
  no_TotalMem :: int
  no_CPUPercent :: f64
  no_HealthScore :: f64
  no_LastSeen :: int
  no_Created :: int
  no_VerifiedAt :: int
  no_CapsJSON :: string
  no_LoadJSON :: string

record store =
  st_nodes :: "node_row list"
  st_paths :: "path_row list"

definition empty_store :: store where
  "empty_store = \<lparr>st_nodes = [], st_paths = []\<rparr>"

text \<open>A row with the defaults of the schema.\<close>

definition default_node :: "string \<Rightarrow> int \<Rightarrow> node_row" where
  "default_node nodeID ts =
     \<lparr>no_ID = nodeID, no_SSHEndpoint = [], no_Arch = [], no_Hostname = [], no_State = ''unknown'',
      no_ActiveJobs = 0, no_AvailableMem = 0, no_ReservedMem = 0, no_TotalMem = 0, no_CPUPercent = 0,
      no_HealthScore = 0, no_LastSeen = 0, no_Created = ts, no_VerifiedAt = 0,
      no_CapsJSON = [], no_LoadJSON = []\<rparr>"

subsection \<open>Statements\<close>

text \<open>\<open>INSERT ... ON CONFLICT DO UPDATE\<close> and \<open>UPDATE ... WHERE\<close>.\<close>

definition update_where :: "('a \<Rightarrow> bool) \<Rightarrow> ('a \<Rightarrow> 'a) \<Rightarrow> 'a list \<Rightarrow> 'a list" where
  "update_where P f xs = map (\<lambda>x. if P x then f x else x) xs"

definition upsert :: "('a \<Rightarrow> bool) \<Rightarrow> ('a \<Rightarrow> 'a) \<Rightarrow> 'a \<Rightarrow> 'a list \<Rightarrow> 'a list" where
  "upsert P f new xs = (if list_ex P xs then update_where P f xs else xs @ [new])"

definition is_path :: "string \<Rightarrow> string \<Rightarrow> int \<Rightarrow> path_row \<Rightarrow> bool" where
  "is_path nodeID h port p \<longleftrightarrow> pa_Node p = nodeID \<and> pa_Host p = h \<and> pa_Port p = port"

subsection \<open>Sightings and verifications\<close>

datatype path_error = BadPath | UnknownKind | NoNodeID

definition checkPath :: "string \<Rightarrow> path_kind \<Rightarrow> string \<Rightarrow> int \<Rightarrow> path_error option" where
  "checkPath nodeID k h port =
     (if nodeID = [] \<or> h = [] \<or> port \<le> 0 \<or> 65535 < port then Some BadPath
      else if rank k = 0 then Some UnknownKind else None)"

definition seen_path :: "path_kind \<Rightarrow> int \<Rightarrow> path_row \<Rightarrow> path_row" where
  "seen_path k ts p = p\<lparr>pa_LastSeen := ts, pa_Kind := (if rank k > rank (pa_Kind p) then k else pa_Kind p)\<rparr>"

definition new_path :: "string \<Rightarrow> path_kind \<Rightarrow> string \<Rightarrow> int \<Rightarrow> int \<Rightarrow> path_row" where
  "new_path nodeID k h port ts =
     \<lparr>pa_Node = nodeID, pa_Host = h, pa_Port = port, pa_Kind = k, pa_LastSeen = ts,
      pa_LastOK = 0, pa_LastErr = [], pa_Active = False\<rparr>"

definition seePath :: "string \<Rightarrow> path_kind \<Rightarrow> string \<Rightarrow> int \<Rightarrow> int \<Rightarrow> store \<Rightarrow> store" where
  "seePath nodeID k h port ts s =
     \<lparr>st_nodes = upsert (\<lambda>n. no_ID n = nodeID) id (default_node nodeID ts) (st_nodes s),
      st_paths = upsert (is_path nodeID h port) (seen_path k ts) (new_path nodeID k h port ts) (st_paths s)\<rparr>"

definition SeePath :: "string \<Rightarrow> path_kind \<Rightarrow> string \<Rightarrow> int \<Rightarrow> int \<Rightarrow> store \<Rightarrow> path_error option \<times> store" where
  "SeePath nodeID k h port ts s =
     (case checkPath nodeID k h port of
        Some e \<Rightarrow> (Some e, s)
      | None \<Rightarrow> (None, seePath nodeID k h port ts s))"

text \<open>The first steps of \<open>PathOK\<close>: seen, stamped as verified, and taken from every other node.\<close>

definition verify_path :: "string \<Rightarrow> path_kind \<Rightarrow> string \<Rightarrow> int \<Rightarrow> int \<Rightarrow> store \<Rightarrow> store" where
  "verify_path nodeID k h port ts s =
     (let s = seePath nodeID k h port ts s
      in \<lparr>st_nodes = update_where (\<lambda>n. no_ID n = nodeID) (\<lambda>n. n\<lparr>no_VerifiedAt := ts\<rparr>) (st_nodes s),
          st_paths = filter (\<lambda>p. \<not> (pa_Host p = h \<and> pa_Port p = port \<and> pa_Node p \<noteq> nodeID))
            (update_where (is_path nodeID h port) (\<lambda>p. p\<lparr>pa_LastOK := ts, pa_LastErr := []\<rparr>) (st_paths s))\<rparr>)"

definition incumbent :: "string \<Rightarrow> string \<Rightarrow> int \<Rightarrow> path_row list \<Rightarrow> path_row option" where
  "incumbent nodeID h port ps =
     find (\<lambda>p. pa_Node p = nodeID \<and> pa_Active p \<and> \<not> (pa_Host p = h \<and> pa_Port p = port)) ps"

definition promotes :: "path_kind \<Rightarrow> path_row option \<Rightarrow> bool" where
  "promotes stored inc =
     (case inc of
        None \<Rightarrow> True
      | Some p \<Rightarrow> \<not> (0 < pa_LastOK p \<and> pa_LastErr p = []) \<or> rank (pa_Kind p) < rank stored)"

definition make_active :: "string \<Rightarrow> string \<Rightarrow> int \<Rightarrow> path_row list \<Rightarrow> path_row list" where
  "make_active nodeID h port ps =
     update_where (\<lambda>p. pa_Node p = nodeID) (\<lambda>p. p\<lparr>pa_Active := (pa_Host p = h \<and> pa_Port p = port)\<rparr>) ps"

definition PathOK :: "string \<Rightarrow> path_kind \<Rightarrow> string \<Rightarrow> int \<Rightarrow> int \<Rightarrow> store \<Rightarrow> path_error option \<times> store" where
  "PathOK nodeID k h port ts s =
     (case checkPath nodeID k h port of
        Some e \<Rightarrow> (Some e, s)
      | None \<Rightarrow>
          let s = verify_path nodeID k h port ts s;
              stored = (case find (is_path nodeID h port) (st_paths s) of Some p \<Rightarrow> pa_Kind p | None \<Rightarrow> k)
          in (None,
              if stored = PathSelf
              then s\<lparr>st_paths := make_active nodeID h port
                       (filter (\<lambda>p. \<not> (pa_Node p = nodeID \<and> pa_Kind p = PathSelf
                                       \<and> \<not> (pa_Host p = h \<and> pa_Port p = port))) (st_paths s))\<rparr>
              else if promotes stored (incumbent nodeID h port (st_paths s))
              then s\<lparr>st_paths := make_active nodeID h port (st_paths s)\<rparr>
              else s))"

definition PathFailed :: "string \<Rightarrow> string \<Rightarrow> int \<Rightarrow> string \<Rightarrow> store \<Rightarrow> store" where
  "PathFailed nodeID h port reason s =
     (let reason = (if reason = [] then ''failed'' else reason)
      in s\<lparr>st_paths := update_where (is_path nodeID h port) (\<lambda>p. p\<lparr>pa_LastErr := reason\<rparr>) (st_paths s)\<rparr>)"

definition DropPath :: "string \<Rightarrow> string \<Rightarrow> int \<Rightarrow> store \<Rightarrow> store" where
  "DropPath nodeID h port s = s\<lparr>st_paths := filter (\<lambda>p. \<not> is_path nodeID h port p) (st_paths s)\<rparr>"

subsection \<open>Reading the paths of a node\<close>

definition path_group :: "path_row \<Rightarrow> nat" where
  "path_group p = (if pa_Active p then 0 else if answering p then 1 else if pa_LastErr p = [] then 2 else 3)"

definition latest :: "path_row \<Rightarrow> int" where
  "latest p = (if pa_LastOK p > pa_LastSeen p then pa_LastOK p else pa_LastSeen p)"

text \<open>The comparison of \<open>sortPaths\<close> as a key, compared lexicographically.\<close>

definition path_key :: "path_row \<Rightarrow> nat \<times> int \<times> int" where
  "path_key p = (path_group p, - int (rank (pa_Kind p)), - latest p)"

definition sortPaths :: "path_row list \<Rightarrow> path_row list" where
  "sortPaths ps = sort_key path_key ps"

definition Paths :: "string \<Rightarrow> store \<Rightarrow> path_row list" where
  "Paths nodeID s = sortPaths (filter (\<lambda>p. pa_Node p = nodeID) (st_paths s))"

text \<open>What \<open>ListAll\<close> shows of a node: its row and the host, port, kind and reason of its first path.\<close>

definition shown_path :: "store \<Rightarrow> string \<Rightarrow> (string \<times> int \<times> path_kind \<times> string) option" where
  "shown_path s nodeID = (case Paths nodeID s of
       [] \<Rightarrow> None
     | p # _ \<Rightarrow> Some (pa_Host p, pa_Port p, pa_Kind p, pa_LastErr p))"

text \<open>Node ids order byte by byte.\<close>

definition id_key :: "string \<Rightarrow> nat list" where
  "id_key s = map of_char s"

fun lex_le :: "nat list \<Rightarrow> nat list \<Rightarrow> bool" where
  "lex_le [] _ \<longleftrightarrow> True"
| "lex_le (_ # _) [] \<longleftrightarrow> False"
| "lex_le (a # as) (b # bs) \<longleftrightarrow> a < b \<or> (a = b \<and> lex_le as bs)"

fun insert_by_id :: "node_row \<Rightarrow> node_row list \<Rightarrow> node_row list" where
  "insert_by_id n [] = [n]"
| "insert_by_id n (m # ms) =
     (if lex_le (id_key (no_ID n)) (id_key (no_ID m)) then n # m # ms else m # insert_by_id n ms)"

definition ListAll :: "store \<Rightarrow> (node_row \<times> (string \<times> int \<times> path_kind \<times> string) option) list" where
  "ListAll s = map (\<lambda>n. (n, shown_path s (no_ID n))) (foldr insert_by_id (st_nodes s) [])"

subsection \<open>Node rows\<close>

definition keep_text :: "string \<Rightarrow> string \<Rightarrow> string" where
  "keep_text new old = (if new = [] then old else new)"

definition merge_node :: "node_row \<Rightarrow> node_row \<Rightarrow> node_row" where
  "merge_node n old = old\<lparr>
     no_SSHEndpoint := keep_text (no_SSHEndpoint n) (no_SSHEndpoint old),
     no_Arch := keep_text (no_Arch n) (no_Arch old),
     no_Hostname := keep_text (no_Hostname n) (no_Hostname old),
     no_State := no_State n, no_ActiveJobs := no_ActiveJobs n, no_AvailableMem := no_AvailableMem n,
     no_ReservedMem := no_ReservedMem n, no_TotalMem := no_TotalMem n, no_CPUPercent := no_CPUPercent n,
     no_HealthScore := no_HealthScore n, no_LastSeen := no_LastSeen n,
     no_CapsJSON := keep_text (no_CapsJSON n) (no_CapsJSON old),
     no_LoadJSON := keep_text (no_LoadJSON n) (no_LoadJSON old)\<rparr>"

definition UpsertNode :: "node_row \<Rightarrow> int \<Rightarrow> store \<Rightarrow> path_error option \<times> store" where
  "UpsertNode n ts s =
     (if no_ID n = [] then (Some NoNodeID, s)
      else let n = (if no_LastSeen n = 0 then n\<lparr>no_LastSeen := ts\<rparr> else n);
               n = (if no_State n = [] then n\<lparr>no_State := ''unknown''\<rparr> else n)
      in (None, s\<lparr>st_nodes := upsert (\<lambda>m. no_ID m = no_ID n) (merge_node n)
                    (n\<lparr>no_Created := ts, no_VerifiedAt := 0\<rparr>) (st_nodes s)\<rparr>))"

definition HealthFloor :: f64 where "HealthFloor = 1 / 10"

definition HealthRecovery :: f64 where "HealthRecovery = 1 / 10"

definition MarkHealthy :: "node_row \<Rightarrow> int \<Rightarrow> store \<Rightarrow> path_error option \<times> store" where
  "MarkHealthy n ts s =
     UpsertNode (n\<lparr>no_State := ''healthy'', no_LastSeen := ts,
       no_HealthScore := (case find (\<lambda>m. no_ID m = no_ID n) (st_nodes s) of
           Some m \<Rightarrow> min 1 (no_HealthScore m + HealthRecovery)
         | None \<Rightarrow> 1)\<rparr>) ts s"

definition lower_health :: "node_row \<Rightarrow> node_row" where
  "lower_health m = m\<lparr>no_HealthScore := max HealthFloor (no_HealthScore m / 2)\<rparr>"

definition MarkFailed :: "string \<Rightarrow> store \<Rightarrow> store" where
  "MarkFailed nodeID s = s\<lparr>st_nodes := update_where (\<lambda>m. no_ID m = nodeID) lower_health (st_nodes s)\<rparr>"

definition MarkUnreachable :: "string \<Rightarrow> store \<Rightarrow> store" where
  "MarkUnreachable nodeID s = s\<lparr>st_nodes := update_where (\<lambda>m. no_ID m = nodeID)
     (\<lambda>m. (lower_health m)\<lparr>no_State := ''unreachable'', no_ActiveJobs := 0, no_AvailableMem := 0\<rparr>) (st_nodes s)\<rparr>"

text \<open>Deleting a node row deletes its paths (\<open>ON DELETE CASCADE\<close>).\<close>

definition delete_nodes :: "(node_row \<Rightarrow> bool) \<Rightarrow> store \<Rightarrow> store" where
  "delete_nodes P s =
     (let gone = map no_ID (filter P (st_nodes s))
      in \<lparr>st_nodes = filter (\<lambda>n. \<not> P n) (st_nodes s),
          st_paths = filter (\<lambda>p. pa_Node p \<notin> set gone) (st_paths s)\<rparr>)"

definition DeleteNode :: "string \<Rightarrow> store \<Rightarrow> store" where
  "DeleteNode nodeID s = delete_nodes (\<lambda>n. no_ID n = nodeID) s"

definition RemoveAll :: "store \<Rightarrow> store" where
  "RemoveAll s = delete_nodes (\<lambda>_. True) s"

subsection \<open>Pruning\<close>

definition nodeVerifiedTTL :: int where "nodeVerifiedTTL = 15 * 60"

definition candidateNodeTTL :: int where "candidateNodeTTL = 2 * 60"

definition lanPathTTL :: int where "lanPathTTL = 10 * 60"

definition remotePathTTL :: int where "remotePathTTL = 60 * 60"

definition has_kind :: "path_kind \<Rightarrow> store \<Rightarrow> node_row \<Rightarrow> bool" where
  "has_kind k s n \<longleftrightarrow> list_ex (\<lambda>p. pa_Node p = no_ID n \<and> pa_Kind p = k) (st_paths s)"

definition stale_node :: "int \<Rightarrow> store \<Rightarrow> node_row \<Rightarrow> bool" where
  "stale_node t s n \<longleftrightarrow> \<not> has_kind PathSelf s n \<and>
     ((0 < no_VerifiedAt n \<and> no_VerifiedAt n < t - nodeVerifiedTTL)
      \<or> (no_VerifiedAt n = 0 \<and> no_Created n < t - nodeVerifiedTTL)
      \<or> (no_VerifiedAt n = 0 \<and> no_Created n < t - candidateNodeTTL \<and> \<not> has_kind PathInternet s n))"

definition stale_path :: "int \<Rightarrow> path_row \<Rightarrow> bool" where
  "stale_path t p \<longleftrightarrow> pa_Kind p \<noteq> PathSelf \<and>
     max (pa_LastSeen p) (pa_LastOK p) < t - (if pa_Kind p = PathLAN then lanPathTTL else remotePathTTL)"

definition PruneStale :: "int \<Rightarrow> store \<Rightarrow> store" where
  "PruneStale t s =
     (let s = delete_nodes (stale_node t s) s
      in s\<lparr>st_paths := filter (\<lambda>p. \<not> stale_path t p) (st_paths s)\<rparr>)"

subsection \<open>Node id prefixes\<close>

text \<open>SQLite's \<open>LIKE\<close>: \<open>%\<close> any text, \<open>_\<close> any character, ASCII letters without case.\<close>

definition fold_case :: "char \<Rightarrow> char" where
  "fold_case c = (if (65 :: nat) \<le> of_char c \<and> (of_char c :: nat) \<le> 90 then char_of ((of_char c :: nat) + 32) else c)"

function like :: "string \<Rightarrow> string \<Rightarrow> bool" where
  "like [] s \<longleftrightarrow> s = []"
| "like (c # p) [] \<longleftrightarrow> c = CHR ''%'' \<and> like p []"
| "like (c # p) (d # s) \<longleftrightarrow>
     (if c = CHR ''%'' then like p (d # s) \<or> like (c # p) s
      else (c = CHR ''_'' \<or> fold_case c = fold_case d) \<and> like p s)"
  by pat_completeness auto
termination by (relation "measure (\<lambda>(p, s). length p + length s)") auto

text \<open>\<open>Inl\<close> of the id is the ambiguity error; the empty id means no match.\<close>

definition ResolveNodeID :: "string \<Rightarrow> store \<Rightarrow> string + string" where
  "ResolveNodeID idOrPrefix s =
     (let ids = take 2 (filter (\<lambda>i. i = idOrPrefix \<or> like (idOrPrefix @ ''%'') i) (map no_ID (st_nodes s)))
      in case ids of [] \<Rightarrow> Inr [] | [i] \<Rightarrow> Inr i | _ \<Rightarrow> Inl idOrPrefix)"

subsection \<open>The invariant of the address book\<close>

definition path_id :: "path_row \<Rightarrow> string \<times> string \<times> int" where
  "path_id p = (pa_Node p, pa_Host p, pa_Port p)"

definition path_fields_ok :: "string set \<Rightarrow> path_row \<Rightarrow> bool" where
  "path_fields_ok ids p \<longleftrightarrow> pa_Node p \<in> ids \<and> 0 < rank (pa_Kind p) \<and> pa_Host p \<noteq> [] \<and> 0 < pa_Port p
     \<and> pa_Port p \<le> 65535 \<and> (pa_Active p \<longrightarrow> 0 < pa_LastOK p)"

text \<open>Rows with the property and the same value are the same row.\<close>

definition uniq :: "(path_row \<Rightarrow> bool) \<Rightarrow> (path_row \<Rightarrow> 'b) \<Rightarrow> path_row list \<Rightarrow> bool" where
  "uniq Q f ps \<longleftrightarrow> (\<forall>p \<in> set ps. \<forall>q \<in> set ps. Q p \<and> Q q \<and> f p = f q \<longrightarrow> path_id p = path_id q)"

definition verified :: "path_row \<Rightarrow> bool" where
  "verified p \<longleftrightarrow> 0 < pa_LastOK p"

definition addr :: "path_row \<Rightarrow> string \<times> int" where
  "addr p = (pa_Host p, pa_Port p)"

definition one_active :: "path_row list \<Rightarrow> bool" where
  "one_active ps \<longleftrightarrow> uniq pa_Active pa_Node ps"

definition one_owner :: "path_row list \<Rightarrow> bool" where
  "one_owner ps \<longleftrightarrow> uniq verified addr ps"

lemma uniqD: "uniq Q f ps \<Longrightarrow> p \<in> set ps \<Longrightarrow> q \<in> set ps \<Longrightarrow> Q p \<Longrightarrow> Q q \<Longrightarrow> f p = f q \<Longrightarrow> path_id p = path_id q"
  unfolding uniq_def by blast

lemma uniqI: "(\<And>p q. p \<in> set ps \<Longrightarrow> q \<in> set ps \<Longrightarrow> Q p \<Longrightarrow> Q q \<Longrightarrow> f p = f q \<Longrightarrow> path_id p = path_id q) \<Longrightarrow> uniq Q f ps"
  unfolding uniq_def by blast

lemma uniq_filter: "uniq Q f ps \<Longrightarrow> uniq Q f (filter P ps)"
  unfolding uniq_def set_filter by blast

lemma uniq_map:
  assumes "uniq Q f ps" "\<And>p. p \<in> set ps \<Longrightarrow> Q (g p) \<Longrightarrow> Q p" "\<And>p. f (g p) = f p" "\<And>p. path_id (g p) = path_id p"
  shows "uniq Q f (map g ps)"
proof (rule uniqI)
  fix x y
  assume xy: "x \<in> set (map g ps)" "y \<in> set (map g ps)" "Q x" "Q y" "f x = f y"
  then obtain p q where pq: "p \<in> set ps" "q \<in> set ps" "x = g p" "y = g q" by auto
  then have "Q p" "Q q" "f p = f q" using xy assms(2,3) by auto
  then have "path_id p = path_id q" using uniqD [OF assms(1)] pq(1,2) by blast
  then show "path_id x = path_id y" using pq(3,4) by (simp add: assms(4))
qed

lemma uniq_append: "uniq Q f ps \<Longrightarrow> \<not> Q p \<Longrightarrow> uniq Q f (ps @ [p])"
  unfolding uniq_def by (metis Un_iff empty_iff insert_iff list.set(1) list.simps(15) set_append)

definition paths_inv :: "string set \<Rightarrow> path_row list \<Rightarrow> bool" where
  "paths_inv ids ps \<longleftrightarrow> distinct (map path_id ps) \<and> (\<forall>p \<in> set ps. path_fields_ok ids p)
     \<and> one_active ps \<and> one_owner ps"

definition node_ids :: "store \<Rightarrow> string set" where
  "node_ids s = set (map no_ID (st_nodes s))"

definition book_inv :: "store \<Rightarrow> bool" where
  "book_inv s \<longleftrightarrow> distinct (map no_ID (st_nodes s)) \<and> paths_inv (node_ids s) (st_paths s)"

lemma is_path_id: "is_path n h port p \<longleftrightarrow> path_id p = (n, h, port)"
  by (auto simp: is_path_def path_id_def)

lemma paths_inv_filter: "paths_inv ids ps \<Longrightarrow> paths_inv ids (filter P ps)"
  by (simp add: paths_inv_def one_active_def one_owner_def uniq_filter distinct_map_filter)

text \<open>An update that moves no row, activates none and verifies none.\<close>

lemma paths_inv_update:
  assumes "paths_inv ids ps"
    and "\<And>p. path_id (f p) = path_id p" "\<And>p. pa_Active (f p) = pa_Active p"
    and "\<And>p. pa_LastOK (f p) = pa_LastOK p" "\<And>p. rank (pa_Kind p) \<le> rank (pa_Kind (f p))"
  shows "paths_inv ids (update_where P f ps)"
proof -
  have fields: "pa_Node (f p) = pa_Node p" "pa_Host (f p) = pa_Host p" "pa_Port (f p) = pa_Port p" for p
    using assms(2) [of p] by (simp_all add: path_id_def)
  have "one_active (update_where P f ps)" "one_owner (update_where P f ps)"
    using assms(1) unfolding paths_inv_def one_active_def one_owner_def update_where_def
    by (auto intro!: uniq_map simp: fields assms(2-4) verified_def addr_def split: if_splits)
  moreover have "map path_id (update_where P f ps) = map path_id ps"
    by (simp add: update_where_def assms(2))
  moreover have "path_fields_ok ids (f p)" if "path_fields_ok ids p" for p
    using that less_le_trans [OF _ assms(5) [of p], of 0]
    by (simp add: path_fields_ok_def fields assms(3,4))
  ultimately show ?thesis
    using assms(1) by (auto simp: paths_inv_def) (auto simp: update_where_def)
qed

lemma paths_inv_mono: "paths_inv ids ps \<Longrightarrow> ids \<subseteq> ids' \<Longrightarrow> paths_inv ids' ps"
  by (auto simp: paths_inv_def path_fields_ok_def)

lemma paths_inv_append:
  assumes "paths_inv ids ps" "path_fields_ok ids p" "path_id p \<notin> path_id ` set ps"
    and "\<not> pa_Active p" "pa_LastOK p = 0"
  shows "paths_inv ids (ps @ [p])"
  using assms by (auto simp: paths_inv_def one_active_def one_owner_def verified_def intro: uniq_append)

lemma upsert_ids:
  assumes "\<And>x. P x \<longleftrightarrow> k x = k new" "\<And>x. k (f x) = k x"
  shows "map k (upsert P f new xs) = (if k new \<in> set (map k xs) then map k xs else map k xs @ [k new])"
proof -
  have "list_ex P xs \<longleftrightarrow> k new \<in> set (map k xs)"
    unfolding list_ex_iff by (auto simp: assms(1) image_iff) metis
  then show ?thesis by (simp add: upsert_def update_where_def assms(2) comp_def if_distrib cong: if_cong)
qed

lemma seePath_node_ids: "node_ids (seePath n k h port ts s) = insert n (node_ids s)"
  by (auto simp: node_ids_def seePath_def upsert_ids [where k = no_ID] default_node_def
      upsert_def update_where_def list_ex_iff)

lemma checkPath_None: "checkPath n k h port = None \<longleftrightarrow>
    n \<noteq> [] \<and> h \<noteq> [] \<and> 0 < port \<and> port \<le> 65535 \<and> 0 < rank k"
  by (auto simp: checkPath_def)

lemma seePath_inv:
  assumes "book_inv s" "checkPath n k h port = None"
  shows "book_inv (seePath n k h port ts s)"
proof -
  let ?ids = "insert n (node_ids s)"
  have paths: "paths_inv ?ids (st_paths s)"
    using assms(1) by (auto simp: book_inv_def intro: paths_inv_mono)
  have "paths_inv ?ids (upsert (is_path n h port) (seen_path k ts) (new_path n k h port ts) (st_paths s))"
  proof (cases "list_ex (is_path n h port) (st_paths s)")
    case True
    then show ?thesis
      by (simp add: upsert_def, intro paths_inv_update [OF paths])
        (auto simp: seen_path_def path_id_def)
  next
    case False
    then show ?thesis using assms(2)
      by (simp add: upsert_def, intro paths_inv_append [OF paths])
        (auto simp: checkPath_None new_path_def path_fields_ok_def is_path_id list_ex_iff path_id_def)
  qed
  moreover have "distinct (map no_ID (st_nodes (seePath n k h port ts s)))"
    using assms(1)
    by (simp add: book_inv_def seePath_def)
      (subst upsert_ids [where k = no_ID], auto simp: default_node_def)
  ultimately show ?thesis
    by (simp add: book_inv_def seePath_node_ids) (simp add: seePath_def)
qed

definition stamp_ok :: "int \<Rightarrow> path_row \<Rightarrow> path_row" where
  "stamp_ok ts p = p\<lparr>pa_LastOK := ts, pa_LastErr := []\<rparr>"

lemma update_where_ids:
  "(\<And>p. path_id (f p) = path_id p) \<Longrightarrow> map path_id (update_where P f ps) = map path_id ps"
  by (simp add: update_where_def)

lemma set_update_where: "x \<in> set (update_where P f ps) \<longleftrightarrow> (\<exists>p \<in> set ps. x = (if P p then f p else p))"
  by (auto simp: update_where_def)

lemma verify_paths_inv:
  assumes "paths_inv ids ps" "0 < ts"
  shows "paths_inv ids (filter (\<lambda>p. \<not> (pa_Host p = h \<and> pa_Port p = port \<and> pa_Node p \<noteq> n))
    (update_where (is_path n h port) (stamp_ok ts) ps))"
proof -
  let ?ups = "update_where (is_path n h port) (stamp_ok ts) ps"
  have "distinct (map path_id ?ups)"
    using assms(1) by (simp add: update_where_ids stamp_ok_def path_id_def paths_inv_def)
  moreover have "one_active ?ups"
    using assms(1) unfolding paths_inv_def one_active_def update_where_def
    by (auto intro!: uniq_map simp: stamp_ok_def path_id_def split: if_splits)
  moreover have "\<forall>p \<in> set ?ups. path_fields_ok ids p"
    using assms by (auto simp: set_update_where paths_inv_def path_fields_ok_def stamp_ok_def split: if_splits)
  moreover have "uniq verified addr (filter (\<lambda>p. \<not> (pa_Host p = h \<and> pa_Port p = port \<and> pa_Node p \<noteq> n)) ?ups)"
  proof (rule uniqI)
    fix x y
    assume xy: "x \<in> set (filter (\<lambda>p. \<not> (pa_Host p = h \<and> pa_Port p = port \<and> pa_Node p \<noteq> n)) ?ups)"
      "y \<in> set (filter (\<lambda>p. \<not> (pa_Host p = h \<and> pa_Port p = port \<and> pa_Node p \<noteq> n)) ?ups)"
      "verified x" "verified y" "addr x = addr y"
    show "path_id x = path_id y"
    proof (cases "addr x = (h, port)")
      case True
      then show ?thesis using xy by (simp add: addr_def path_id_def)
    next
      case False
      then have "x \<in> set ps" "y \<in> set ps"
        using xy by (auto simp: set_update_where stamp_ok_def is_path_def addr_def split: if_splits)
      then show ?thesis
        using uniqD [of verified addr ps x y] assms(1) xy(3-5) by (simp add: paths_inv_def one_owner_def)
    qed
  qed
  ultimately show ?thesis
    unfolding paths_inv_def one_active_def one_owner_def
    by (simp add: uniq_filter distinct_map_filter)
qed

lemma make_active_own:
  assumes "x \<in> set (make_active n h port ps)" "pa_Node x = n"
  shows "pa_Active x \<longleftrightarrow> is_path n h port x"
proof -
  obtain p where "x = (if pa_Node p = n then p\<lparr>pa_Active := (pa_Host p = h \<and> pa_Port p = port)\<rparr> else p)"
    using assms(1) by (auto simp: make_active_def set_update_where)
  then show ?thesis using assms(2) by (cases "pa_Node p = n") (simp_all add: is_path_def)
qed

lemma make_active_other: "x \<in> set (make_active n h port ps) \<Longrightarrow> pa_Node x \<noteq> n \<Longrightarrow> x \<in> set ps"
  by (auto simp: make_active_def set_update_where)

lemma make_active_inv:
  assumes "paths_inv ids ps" "\<And>p. p \<in> set ps \<Longrightarrow> is_path n h port p \<Longrightarrow> verified p"
  shows "paths_inv ids (make_active n h port ps)"
proof -
  have "distinct (map path_id (make_active n h port ps))"
    using assms(1) by (simp add: make_active_def update_where_ids path_id_def paths_inv_def)
  moreover have "one_owner (make_active n h port ps)"
    using assms(1) unfolding paths_inv_def one_owner_def make_active_def update_where_def
    by (auto intro!: uniq_map simp: path_id_def verified_def addr_def split: if_splits)
  moreover have "\<forall>p \<in> set (make_active n h port ps). path_fields_ok ids p"
    using assms by (auto simp: make_active_def set_update_where paths_inv_def path_fields_ok_def
        verified_def is_path_def split: if_splits)
  moreover have "one_active (make_active n h port ps)"
    unfolding one_active_def
  proof (rule uniqI)
    fix x y
    assume xy: "x \<in> set (make_active n h port ps)" "y \<in> set (make_active n h port ps)"
      "pa_Active x" "pa_Active y" "pa_Node x = pa_Node y"
    show "path_id x = path_id y"
    proof (cases "pa_Node x = n")
      case True
      then show ?thesis using xy make_active_own [of _ n h port ps] by (simp add: is_path_id)
    next
      case False
      then have "x \<in> set ps" "y \<in> set ps" using xy make_active_other by auto
      then show ?thesis
        using uniqD [of pa_Active pa_Node ps x y] assms(1) xy(3-5) by (simp add: paths_inv_def one_active_def)
    qed
  qed
  ultimately show ?thesis by (simp add: paths_inv_def)
qed

lemma update_nodes_ids:
  "(\<And>m. no_ID (f m) = no_ID m) \<Longrightarrow> map no_ID (update_where P f ns) = map no_ID ns"
  by (simp add: update_where_def)

lemma verify_path_nodes: "map no_ID (st_nodes (verify_path n k h port ts s)) = map no_ID (st_nodes (seePath n k h port ts s))"
  by (simp add: verify_path_def Let_def update_nodes_ids)

lemma verify_path_paths:
  "st_paths (verify_path n k h port ts s) =
    filter (\<lambda>p. \<not> (pa_Host p = h \<and> pa_Port p = port \<and> pa_Node p \<noteq> n))
      (update_where (is_path n h port) (stamp_ok ts) (st_paths (seePath n k h port ts s)))"
  by (simp add: verify_path_def Let_def stamp_ok_def [abs_def])

lemma verify_path_inv:
  assumes "book_inv s" "checkPath n k h port = None" "0 < ts"
  shows "book_inv (verify_path n k h port ts s)"
  using seePath_inv [OF assms(1,2), of ts] verify_paths_inv [OF _ assms(3)]
  unfolding book_inv_def node_ids_def verify_path_nodes verify_path_paths by blast

lemma verified_after: "p \<in> set (st_paths (verify_path n k h port ts s)) \<Longrightarrow> is_path n h port p \<Longrightarrow> 0 < ts \<Longrightarrow> verified p"
proof -
  assume p: "p \<in> set (st_paths (verify_path n k h port ts s))" "is_path n h port p" "0 < ts"
  then obtain q where "p = (if is_path n h port q then stamp_ok ts q else q)"
    by (auto simp: verify_path_paths set_update_where)
  then show ?thesis using p(2,3) by (cases "is_path n h port q") (simp_all add: stamp_ok_def verified_def)
qed

lemma book_inv_paths:
  "book_inv s \<Longrightarrow> paths_inv (node_ids s) ps \<Longrightarrow> book_inv (s\<lparr>st_paths := ps\<rparr>)"
  by (simp add: book_inv_def node_ids_def)

lemma PathOK_inv:
  assumes "book_inv s" "0 < ts"
  shows "book_inv (snd (PathOK n k h port ts s))"
proof (cases "checkPath n k h port")
  case None
  let ?s = "verify_path n k h port ts s"
  note inv = verify_path_inv [OF assms(1) None assms(2)]
  have paths: "paths_inv (node_ids ?s) (st_paths ?s)" using inv by (simp add: book_inv_def)
  have "paths_inv (node_ids ?s) (make_active n h port (filter P (st_paths ?s)))" for P
    by (rule make_active_inv) (use paths verified_after assms(2) in \<open>auto intro: paths_inv_filter\<close>)
  then have "book_inv (?s\<lparr>st_paths := make_active n h port (filter P (st_paths ?s))\<rparr>)" for P
    by (intro book_inv_paths [OF inv])
  from this [of "\<lambda>_. True"] this show ?thesis using inv
    by (simp add: PathOK_def None Let_def)
qed (simp add: PathOK_def assms(1))

lemma delete_nodes_inv: "book_inv s \<Longrightarrow> book_inv (delete_nodes P s)"
  by (auto simp: book_inv_def delete_nodes_def Let_def node_ids_def distinct_map_filter
      paths_inv_def path_fields_ok_def one_active_def one_owner_def uniq_filter)

lemma UpsertNode_inv: "book_inv s \<Longrightarrow> book_inv (snd (UpsertNode n ts s))"
proof -
  assume inv: "book_inv s"
  have ids: "map no_ID (upsert (\<lambda>m. no_ID m = no_ID n) (merge_node n') x (st_nodes s))
      = (if no_ID n \<in> node_ids s then map no_ID (st_nodes s) else map no_ID (st_nodes s) @ [no_ID n])"
    if "no_ID x = no_ID n" for n' x
    using that by (subst upsert_ids [where k = no_ID]) (auto simp: merge_node_def node_ids_def)
  have "book_inv (s\<lparr>st_nodes := upsert (\<lambda>m. no_ID m = no_ID n) (merge_node n') x (st_nodes s)\<rparr>)"
    if "no_ID x = no_ID n" for n' x
    using inv that unfolding book_inv_def node_ids_def
    by (simp add: ids node_ids_def split del: if_split) (auto intro: paths_inv_mono)
  then show ?thesis using inv by (simp add: UpsertNode_def Let_def)
qed

lemma update_nodes_inv:
  "book_inv s \<Longrightarrow> (\<And>m. no_ID (f m) = no_ID m) \<Longrightarrow> book_inv (s\<lparr>st_nodes := update_where P f (st_nodes s)\<rparr>)"
  using update_nodes_ids [of f P "st_nodes s"] by (simp add: book_inv_def node_ids_def flip: set_map)

subsection \<open>Runs\<close>

datatype book_event =
    BkSee string path_kind string int int
  | BkOK string path_kind string int int
  | BkFailed string string int string
  | BkDrop string string int
  | BkUpsert node_row int
  | BkHealthy node_row int
  | BkMarkFailed string
  | BkUnreachable string
  | BkDelete string
  | BkRemoveAll
  | BkPrune int

fun book_step :: "book_event \<Rightarrow> store \<Rightarrow> store" where
  "book_step (BkSee n k h p ts) s = snd (SeePath n k h p ts s)"
| "book_step (BkOK n k h p ts) s = snd (PathOK n k h p ts s)"
| "book_step (BkFailed n h p r) s = PathFailed n h p r s"
| "book_step (BkDrop n h p) s = DropPath n h p s"
| "book_step (BkUpsert n ts) s = snd (UpsertNode n ts s)"
| "book_step (BkHealthy n ts) s = snd (MarkHealthy n ts s)"
| "book_step (BkMarkFailed n) s = MarkFailed n s"
| "book_step (BkUnreachable n) s = MarkUnreachable n s"
| "book_step (BkDelete n) s = DeleteNode n s"
| "book_step BkRemoveAll s = RemoveAll s"
| "book_step (BkPrune t) s = PruneStale t s"

text \<open>The clock is past 1970.\<close>

fun book_event_ok :: "book_event \<Rightarrow> store \<Rightarrow> bool" where
  "book_event_ok (BkOK n k h p ts) s \<longleftrightarrow> 0 < ts"
| "book_event_ok _ s \<longleftrightarrow> True"

lemma book_step_inv:
  assumes "book_inv s" "book_event_ok e s"
  shows "book_inv (book_step e s)"
proof (cases e)
  case (BkSee n k h p ts)
  then show ?thesis using assms(1)
    by (cases "checkPath n k h p") (simp_all add: SeePath_def seePath_inv)
next
  case (BkFailed n h p r)
  have "paths_inv (node_ids s) (update_where (is_path n h p) (\<lambda>q. q\<lparr>pa_LastErr := r'\<rparr>) (st_paths s))" for r'
    using assms(1) by (intro paths_inv_update) (simp_all add: book_inv_def path_id_def)
  then show ?thesis using assms(1) by (auto simp: BkFailed PathFailed_def Let_def intro: book_inv_paths)
next
  case (BkDrop n h p)
  have "book_inv (s\<lparr>st_paths := filter (\<lambda>q. \<not> is_path n h p q) (st_paths s)\<rparr>)"
    using assms(1) by (intro book_inv_paths paths_inv_filter) (simp_all add: book_inv_def)
  then show ?thesis by (simp add: BkDrop DropPath_def)
next
  case (BkPrune t)
  have "book_inv (delete_nodes (stale_node t s) s)" using assms(1) by (rule delete_nodes_inv)
  then show ?thesis
    by (auto simp: BkPrune PruneStale_def Let_def intro!: book_inv_paths paths_inv_filter)
      (simp add: book_inv_def)
qed (use assms in \<open>simp_all add: PathOK_inv UpsertNode_inv MarkHealthy_def MarkFailed_def MarkUnreachable_def
      update_nodes_inv lower_health_def DeleteNode_def RemoveAll_def delete_nodes_inv\<close>)

interpretation bm: guarded_machine book_step book_event_ok book_inv
  by unfold_locales (rule book_step_inv)

lemma book_run_inv: "bm.run_ok es empty_store \<Longrightarrow> book_inv (fold book_step es empty_store)"
  by (rule bm.run_inv) (simp_all add: book_inv_def paths_inv_def empty_store_def one_active_def one_owner_def uniq_def)

lemma same_row:
  "paths_inv ids ps \<Longrightarrow> p \<in> set ps \<Longrightarrow> q \<in> set ps \<Longrightarrow> path_id p = path_id q \<Longrightarrow> p = q"
  by (auto simp: paths_inv_def distinct_map dest: inj_onD)

text \<open>In every run of the operations on an empty address book a node has at most one active
  path, an active path has been verified, and of all nodes only one holds a verified path at
  a given host and port.\<close>

theorem address_book_invariant:
  assumes "bm.run_ok es empty_store"
    and "p \<in> set (st_paths (fold book_step es empty_store))" "q \<in> set (st_paths (fold book_step es empty_store))"
  shows "(pa_Active p \<longrightarrow> 0 < pa_LastOK p)
    \<and> (pa_Active p \<and> pa_Active q \<and> pa_Node p = pa_Node q \<longrightarrow> p = q)
    \<and> (0 < pa_LastOK p \<and> 0 < pa_LastOK q \<and> pa_Host p = pa_Host q \<and> pa_Port p = pa_Port q \<longrightarrow> p = q)"
proof -
  let ?s = "fold book_step es empty_store"
  have inv: "paths_inv (node_ids ?s) (st_paths ?s)" using book_run_inv [OF assms(1)] by (simp add: book_inv_def)
  note same = same_row [OF inv assms(2,3)]
  show ?thesis
    using inv same uniqD [OF _ assms(2,3), of pa_Active pa_Node] uniqD [OF _ assms(2,3), of verified addr] assms(2)
    unfolding paths_inv_def one_active_def one_owner_def path_fields_ok_def verified_def addr_def
    by blast
qed

subsection \<open>Which path is active\<close>

definition active_addr :: "store \<Rightarrow> string \<Rightarrow> (string \<times> int) option" where
  "active_addr s n = map_option addr (find (\<lambda>p. pa_Node p = n \<and> pa_Active p) (st_paths s))"

lemma find_unique:
  assumes "p \<in> set ps" "P p" "\<And>q. q \<in> set ps \<Longrightarrow> P q \<Longrightarrow> q = p"
  shows "find P ps = Some p"
proof (cases "find P ps")
  case None
  then show ?thesis using assms(1,2) by (auto simp: find_None_iff)
next
  case (Some q)
  then have "q \<in> set ps" "P q" by (auto simp: find_Some_iff)
  then show ?thesis using assms(3) Some by auto
qed

lemma active_addr_None: "active_addr s n = None \<longleftrightarrow> \<not> (\<exists>p \<in> set (st_paths s). pa_Node p = n \<and> pa_Active p)"
  by (auto simp: active_addr_def find_None_iff)

lemma active_addr_Some:
  assumes "book_inv s"
  shows "active_addr s n = Some a \<longleftrightarrow> (\<exists>p \<in> set (st_paths s). pa_Node p = n \<and> pa_Active p \<and> addr p = a)"
proof
  assume "active_addr s n = Some a"
  then show "\<exists>p \<in> set (st_paths s). pa_Node p = n \<and> pa_Active p \<and> addr p = a"
    by (auto simp: active_addr_def find_Some_iff intro: nth_mem)
next
  assume "\<exists>p \<in> set (st_paths s). pa_Node p = n \<and> pa_Active p \<and> addr p = a"
  then obtain p where p: "p \<in> set (st_paths s)" "pa_Node p = n" "pa_Active p" "addr p = a" by blast
  have inv: "paths_inv (node_ids s) (st_paths s)" using assms by (simp add: book_inv_def)
  have "find (\<lambda>p. pa_Node p = n \<and> pa_Active p) (st_paths s) = Some p"
  proof (rule find_unique)
    fix q assume q: "q \<in> set (st_paths s)" "pa_Node q = n \<and> pa_Active q"
    then have "path_id q = path_id p"
      using inv p uniqD [of pa_Active pa_Node "st_paths s" q p] by (simp add: paths_inv_def one_active_def)
    then show "q = p" using same_row [OF inv q(1) p(1)] by simp
  qed (use p in simp_all)
  then show "active_addr s n = Some a" using p(4) by (simp add: active_addr_def)
qed

lemma active_addr_eqI:
  assumes "book_inv s" "book_inv s'"
    and "\<And>a. (\<exists>p \<in> set (st_paths s). pa_Node p = n \<and> pa_Active p \<and> addr p = a)
      \<longleftrightarrow> (\<exists>p \<in> set (st_paths s'). pa_Node p = n' \<and> pa_Active p \<and> addr p = a)"
  shows "active_addr s n = active_addr s' n'"
proof -
  have "active_addr s n = Some a \<longleftrightarrow> active_addr s' n' = Some a" for a
    unfolding active_addr_Some [OF assms(1)] active_addr_Some [OF assms(2)] by (rule assms(3))
  then show ?thesis by (metis option.exhaust)
qed

text \<open>Rows at another address go through a verification as they are; at this one only the node's stays.\<close>

lemma set_upsert:
  "x \<in> set (upsert P f new xs) \<longleftrightarrow> (x \<in> set (update_where P f xs) \<or> (\<not> list_ex P xs \<and> x = new))"
proof (cases "list_ex P xs")
  case False
  then have "update_where P f xs = xs"
    by (auto simp: update_where_def list_ex_iff intro: map_idI)
  with False show ?thesis by (auto simp: upsert_def)
qed (simp add: upsert_def)

lemma seePath_other:
  "\<not> is_path n h port p \<Longrightarrow> p \<in> set (st_paths (seePath n k h port ts s)) \<longleftrightarrow> p \<in> set (st_paths s)"
  by (auto simp: seePath_def set_upsert set_update_where new_path_def is_path_def seen_path_def split: if_splits)

lemma verify_other:
  assumes "addr p \<noteq> (h, port)"
  shows "p \<in> set (st_paths (verify_path n k h port ts s)) \<longleftrightarrow> p \<in> set (st_paths s)"
proof -
  have "\<not> is_path n h port p" using assms by (auto simp: is_path_def addr_def)
  note see = seePath_other [OF this, of k ts s]
  show ?thesis using assms
    by (auto simp: verify_path_paths set_update_where see [symmetric] is_path_def addr_def stamp_ok_def split: if_splits)
qed

lemma verify_at:
  "p \<in> set (st_paths (verify_path n k h port ts s)) \<Longrightarrow> addr p = (h, port) \<Longrightarrow> pa_Node p = n"
  by (auto simp: verify_path_paths addr_def)

definition stored_kind :: "store \<Rightarrow> string \<Rightarrow> path_kind \<Rightarrow> string \<Rightarrow> int \<Rightarrow> path_kind" where
  "stored_kind s n k h port = (case find (is_path n h port) (st_paths s) of
     None \<Rightarrow> k | Some p \<Rightarrow> if rank k > rank (pa_Kind p) then k else pa_Kind p)"

lemma verify_own:
  assumes "book_inv s"
  shows "\<exists>p \<in> set (st_paths (verify_path n k h port ts s)). is_path n h port p \<and> pa_Kind p = stored_kind s n k h port"
proof (cases "find (is_path n h port) (st_paths s)")
  case None
  then have "new_path n k h port ts \<in> set (st_paths (seePath n k h port ts s))"
    by (auto simp: seePath_def upsert_def list_ex_iff find_None_iff)
  then show ?thesis
    by (intro bexI [of _ "stamp_ok ts (new_path n k h port ts)"])
      (auto simp: stored_kind_def None verify_path_paths set_update_where stamp_ok_def new_path_def is_path_def
        intro!: bexI [of _ "new_path n k h port ts"])
next
  case (Some p)
  then have p: "p \<in> set (st_paths s)" "is_path n h port p" by (auto simp: find_Some_iff)
  then have "seen_path k ts p \<in> set (st_paths (seePath n k h port ts s))"
    by (auto simp: seePath_def upsert_def list_ex_iff set_update_where)
  then show ?thesis using p
    by (intro bexI [of _ "stamp_ok ts (seen_path k ts p)"])
      (auto simp: stored_kind_def Some verify_path_paths set_update_where stamp_ok_def seen_path_def is_path_def
        intro!: bexI [of _ "seen_path k ts p"])
qed

lemma incumbent_verify:
  assumes "book_inv s" "book_inv (verify_path n k h port ts s)"
  shows "incumbent n h port (st_paths (verify_path n k h port ts s)) = incumbent n h port (st_paths s)"
proof -
  let ?s = "verify_path n k h port ts s"
  let ?P = "\<lambda>p. pa_Node p = n \<and> pa_Active p \<and> \<not> (pa_Host p = h \<and> pa_Port p = port)"
  have iff: "p \<in> set (st_paths ?s) \<and> ?P p \<longleftrightarrow> p \<in> set (st_paths s) \<and> ?P p" for p
    using verify_other [of p h port n k ts s] by (auto simp: addr_def)
  have unique: "find ?P (st_paths s') = Some p" if "book_inv s'" "p \<in> set (st_paths s')" "?P p" for s' p
  proof (rule find_unique [where P = ?P and p = p, OF that(2) that(3)])
    fix q assume q: "q \<in> set (st_paths s')" "?P q"
    have inv: "paths_inv (node_ids s') (st_paths s')" using that(1) by (simp add: book_inv_def)
    then have "path_id q = path_id p"
      using q that uniqD [of pa_Active pa_Node "st_paths s'" q p] by (simp add: paths_inv_def one_active_def)
    then show "q = p" using same_row [OF inv q(1) that(2)] by simp
  qed
  show ?thesis
  proof (cases "find ?P (st_paths s)")
    case None
    then have "find ?P (st_paths ?s) = None" using iff by (auto simp: find_None_iff)
    then show ?thesis using None by (simp add: incumbent_def)
  next
    case (Some p)
    then have "p \<in> set (st_paths s) \<and> ?P p" by (auto simp: find_Some_iff)
    then show ?thesis using Some unique [OF assms(2), of p] iff [of p] by (simp add: incumbent_def)
  qed
qed

lemma make_active_row:
  assumes "p \<in> set ps" "is_path n h port p"
  shows "p\<lparr>pa_Active := True\<rparr> \<in> set (make_active n h port ps)"
  using assms by (auto simp: make_active_def set_update_where is_path_def intro!: bexI [of _ p])

lemma make_active_keeps: "pa_Node p \<noteq> n \<Longrightarrow> p \<in> set (make_active n h port ps) \<longleftrightarrow> p \<in> set ps"
  by (auto simp: make_active_def set_update_where intro!: bexI [of _ p])

lemma find_own:
  assumes "book_inv s" "p \<in> set (st_paths s)" "is_path n h port p"
  shows "find (is_path n h port) (st_paths s) = Some p"
proof (rule find_unique [where P = "is_path n h port", OF assms(2) assms(3)])
  fix q assume "q \<in> set (st_paths s)" "is_path n h port q"
  then show "q = p" using assms same_row [of "node_ids s" "st_paths s" q p] by (simp add: book_inv_def is_path_id)
qed

text \<open>A verification makes a path active exactly when the node has no other active path, that
  path no longer answers, the verified one outranks it, or it is the node's own address;
  otherwise the incumbent stays active. Every other node keeps its active path, unless that was
  the address just verified, which it loses.\<close>

theorem PathOK_moves_active:
  assumes "book_inv s" "0 < ts" "checkPath n k h port = None"
  shows "active_addr (snd (PathOK n k h port ts s)) m =
    (if m = n
     then (case incumbent n h port (st_paths s) of
         None \<Rightarrow> Some (h, port)
       | Some q \<Rightarrow> if stored_kind s n k h port = PathSelf \<or> \<not> answering q
                      \<or> rank (pa_Kind q) < rank (stored_kind s n k h port)
                   then Some (h, port) else Some (addr q))
     else if active_addr s m = Some (h, port) then None else active_addr s m)"
proof -
  let ?s = "verify_path n k h port ts s" and ?st = "stored_kind s n k h port"
  let ?s' = "snd (PathOK n k h port ts s)"
  let ?keep = "\<lambda>p. \<not> (pa_Node p = n \<and> pa_Kind p = PathSelf \<and> \<not> (pa_Host p = h \<and> pa_Port p = port))"
  have inv: "book_inv ?s" by (rule verify_path_inv [OF assms(1,3,2)])
  have inv': "book_inv ?s'" by (rule PathOK_inv [OF assms(1,2)])
  obtain own where own: "own \<in> set (st_paths ?s)" "is_path n h port own" "pa_Kind own = ?st"
    using verify_own [OF assms(1), of n k h port ts] by blast
  note find = find_own [OF inv own(1,2)] and inc = incumbent_verify [OF assms(1) inv]
  have paths: "st_paths ?s' = (if ?st = PathSelf then make_active n h port (filter ?keep (st_paths ?s))
      else if promotes ?st (incumbent n h port (st_paths s)) then make_active n h port (st_paths ?s)
      else st_paths ?s)"
    by (simp add: PathOK_def assms(3) Let_def find own(3) inc)
  show ?thesis
  proof (cases "m = n")
    case True
    have own': "own\<lparr>pa_Active := True\<rparr> \<in> set (make_active n h port (filter ?keep (st_paths ?s)))"
      "own\<lparr>pa_Active := True\<rparr> \<in> set (make_active n h port (st_paths ?s))"
      using own by (auto intro!: make_active_row simp: is_path_def)
    have won: "active_addr ?s' n = Some (h, port)" if "?st = PathSelf \<or> promotes ?st (incumbent n h port (st_paths s))"
      unfolding active_addr_Some [OF inv'] paths using that own' own(2)
      by (intro bexI [of _ "own\<lparr>pa_Active := True\<rparr>"]) (auto simp: is_path_def addr_def)
    show ?thesis
    proof (cases "incumbent n h port (st_paths s)")
      case None
      then show ?thesis using True won by (simp add: promotes_def)
    next
      case (Some q)
      then have q: "q \<in> set (st_paths s)" "pa_Node q = n" "pa_Active q" "addr q \<noteq> (h, port)"
        by (auto simp: incumbent_def find_Some_iff addr_def)
      have ok: "0 < pa_LastOK q"
        using assms(1) q by (auto simp: book_inv_def paths_inv_def path_fields_ok_def)
      have lost: "active_addr ?s' n = Some (addr q)"
        if "?st \<noteq> PathSelf" "\<not> promotes ?st (incumbent n h port (st_paths s))"
        unfolding active_addr_Some [OF inv'] paths using that q verify_other [OF q(4)]
        by (intro bexI [of _ q]) auto
      show ?thesis using True won lost ok Some by (auto simp: promotes_def answering_def)
    qed
  next
    case False
    have rows: "p \<in> set (st_paths ?s') \<longleftrightarrow> p \<in> set (st_paths ?s)" if "pa_Node p = m" for p
      using that False by (auto simp: paths make_active_keeps)
    have same: "p \<in> set (st_paths ?s') \<longleftrightarrow> p \<in> set (st_paths s) \<and> addr p \<noteq> (h, port)" if "pa_Node p = m" for p
      using rows [OF that] verify_other [of p h port n k ts s] verify_at [of p n k h port ts s] that False by blast
    have iff: "active_addr ?s' m = Some a \<longleftrightarrow> active_addr s m = Some a \<and> a \<noteq> (h, port)" for a
      unfolding active_addr_Some [OF inv'] active_addr_Some [OF assms(1)] using same by blast
    show ?thesis
    proof (cases "active_addr ?s' m")
      case None
      then show ?thesis using iff False by (cases "active_addr s m") auto
    next
      case (Some a)
      then show ?thesis using iff [of a] False by simp
    qed
  qed
qed

subsection \<open>The path shown\<close>

lemma head_of_sort_key:
  assumes "sort_key f xs = x # ys"
  shows "x \<in> set xs" "y \<in> set xs \<Longrightarrow> f x \<le> f y"
proof -
  have "set (sort_key f xs) = set xs" by simp
  then have set: "set xs = insert x (set ys)" by (simp only: assms list.set(2))
  then show "x \<in> set xs" by simp
  have "sorted (map f (x # ys))" using sorted_sort_key [of f xs] by (simp only: assms)
  then show "f x \<le> f y" if "y \<in> set xs" using that set by auto
qed

lemma path_key_group: "path_key p \<le> path_key q \<Longrightarrow> path_group p \<le> path_group q"
  by (auto simp: path_key_def less_eq_prod_def)

text \<open>The path a node is shown with is one of its own, no other is in a better group, and when
  the node has an active path it is that one; a node is shown without an address only when it
  has none.\<close>

theorem shown_path_is_active:
  assumes "book_inv s"
  shows "case shown_path s n of
      None \<Rightarrow> filter (\<lambda>p. pa_Node p = n) (st_paths s) = []
    | Some (h, port, k, err) \<Rightarrow>
        active_addr s n = Some (h, port) \<or>
        (active_addr s n = None \<and> (\<exists>p \<in> set (st_paths s). is_path n h port p \<and> pa_Kind p = k \<and> pa_LastErr p = err
           \<and> list_all (\<lambda>q. pa_Node q = n \<longrightarrow> path_group p \<le> path_group q) (st_paths s)))"
proof (cases "Paths n s")
  case Nil
  then have "set (filter (\<lambda>p. pa_Node p = n) (st_paths s)) = {}"
    unfolding Paths_def sortPaths_def by (metis list.set(1) set_sort)
  then show ?thesis using Nil by (simp add: shown_path_def)
next
  case (Cons p ps)
  note head = head_of_sort_key [OF Cons [unfolded Paths_def sortPaths_def]]
  have p: "p \<in> set (st_paths s)" "pa_Node p = n" using head(1) by auto
  have least: "path_group p \<le> path_group q" if "q \<in> set (st_paths s)" "pa_Node q = n" for q
    using head(2) [of q] that by (auto intro: path_key_group)
  have shown: "shown_path s n = Some (pa_Host p, pa_Port p, pa_Kind p, pa_LastErr p)"
    by (simp add: shown_path_def Cons)
  show ?thesis
  proof (cases "active_addr s n")
    case None
    then show ?thesis using p least by (auto simp: shown is_path_def list_all_iff)
  next
    case (Some a)
    then obtain q where "q \<in> set (st_paths s)" "pa_Node q = n" "pa_Active q"
      using active_addr_Some [OF assms] by blast
    then have "pa_Active p" using least [of q] by (simp add: path_group_def split: if_splits)
    then have "active_addr s n = Some (addr p)" using active_addr_Some [OF assms] p by blast
    then show ?thesis by (simp add: shown addr_def)
  qed
qed

subsection \<open>Pruning\<close>

text \<open>Sightings as discovery and gossip make them.\<close>

fun sighting :: "book_event \<Rightarrow> bool" where
  "sighting (BkSee n k h p ts) \<longleftrightarrow> k \<noteq> PathSelf"
| "sighting _ \<longleftrightarrow> False"

definition unverified_since :: "int \<Rightarrow> string \<Rightarrow> store \<Rightarrow> bool" where
  "unverified_since t n s \<longleftrightarrow> n \<in> node_ids s
     \<and> (\<forall>m \<in> set (st_nodes s). no_ID m = n \<longrightarrow> 0 < no_VerifiedAt m \<and> no_VerifiedAt m < t - nodeVerifiedTTL)
     \<and> (\<forall>p \<in> set (st_paths s). pa_Node p = n \<longrightarrow> pa_Kind p \<noteq> PathSelf)"

lemma sighting_unverified:
  assumes "unverified_since t n s" "sighting e"
  shows "unverified_since t n (book_step e s)"
proof -
  obtain n' k h port ts where e: "e = BkSee n' k h port ts" "k \<noteq> PathSelf"
    using assms(2) by (cases e) auto
  show ?thesis
  proof (cases "checkPath n' k h port")
    case None
    have ids: "n \<in> node_ids (seePath n' k h port ts s)"
      using assms(1) by (simp add: seePath_node_ids unverified_since_def)
    have nodes: "m \<in> set (st_nodes s)" if "m \<in> set (st_nodes (seePath n' k h port ts s))" "no_ID m = n" for m
    proof -
      have "\<not> (\<not> list_ex (\<lambda>m. no_ID m = n') (st_nodes s) \<and> n' = n)"
        using assms(1) by (auto simp: unverified_since_def node_ids_def list_ex_iff)
      then show ?thesis using that
        by (auto simp: seePath_def set_upsert set_update_where default_node_def split: if_splits)
    qed
    have paths: "pa_Kind p \<noteq> PathSelf"
      if "p \<in> set (st_paths (seePath n' k h port ts s))" "pa_Node p = n" for p
      using that assms(1) e(2)
      by (auto simp: seePath_def set_upsert set_update_where unverified_since_def seen_path_def new_path_def
          split: if_splits)
    show ?thesis using assms(1) ids nodes paths
      by (auto simp: e SeePath_def None unverified_since_def)
  qed (simp add: e SeePath_def assms(1))
qed

text \<open>Sightings alone do not keep a node: one not verified for fifteen minutes, and not the
  daemon itself, is gone with all its paths at the next prune, however often it was seen.\<close>

theorem sightings_do_not_keep_a_node:
  assumes "unverified_since t n s" "list_all sighting es"
  shows "n \<notin> node_ids (PruneStale t (fold book_step es s))
    \<and> filter (\<lambda>p. pa_Node p = n) (st_paths (PruneStale t (fold book_step es s))) = []"
proof -
  have "unverified_since t n (fold book_step es s)"
    using assms by (induction es arbitrary: s) (auto intro: sighting_unverified)
  then have stale: "stale_node t (fold book_step es s) m" if "m \<in> set (st_nodes (fold book_step es s))" "no_ID m = n" for m
    using that by (auto simp: unverified_since_def stale_node_def has_kind_def list_ex_iff)
  moreover have "n \<in> node_ids (fold book_step es s)"
    using \<open>unverified_since t n (fold book_step es s)\<close> by (simp add: unverified_since_def)
  ultimately show ?thesis
    by (auto simp: PruneStale_def delete_nodes_def Let_def node_ids_def filter_empty_conv)
qed

subsection \<open>Health\<close>

definition health_of :: "store \<Rightarrow> string \<Rightarrow> f64 option" where
  "health_of s n = map_option no_HealthScore (find (\<lambda>m. no_ID m = n) (st_nodes s))"

lemma find_upsert:
  assumes "P new" "\<And>x. P (f x) = P x"
  shows "find P (upsert P f new xs) = Some (case find P xs of None \<Rightarrow> new | Some x \<Rightarrow> f x)"
proof (cases "list_ex P xs")
  case True
  then have "find P (update_where P f xs) = Some (case find P xs of None \<Rightarrow> new | Some x \<Rightarrow> f x)"
    by (induction xs) (auto simp: update_where_def assms(2))
  then show ?thesis by (simp add: upsert_def True)
next
  case False
  then have "find P (xs @ [new]) = Some new \<and> find P xs = None"
    using assms(1) by (induction xs) auto
  then show ?thesis by (simp add: upsert_def False)
qed

lemma find_node: "find (\<lambda>m. no_ID m = n) ns = None \<longleftrightarrow> n \<notin> set (map no_ID ns)"
  by (auto simp: find_None_iff)

lemma health_MarkHealthy:
  assumes "n \<noteq> []" "no_ID r = n"
  shows "health_of (snd (MarkHealthy r ts s)) n
    = Some (case health_of s n of None \<Rightarrow> 1 | Some h \<Rightarrow> min 1 (h + HealthRecovery))"
  using assms
  by (auto simp: health_of_def MarkHealthy_def UpsertNode_def Let_def find_upsert merge_node_def split: option.splits)

lemma health_SeePath:
  assumes "checkPath n k h port = None"
  shows "health_of (snd (SeePath n k h port ts s)) n = Some (case health_of s n of None \<Rightarrow> 0 | Some h \<Rightarrow> h)"
  by (simp add: health_of_def SeePath_def assms seePath_def find_upsert default_node_def split: option.split)

text \<open>A node first sighted and then polled starts at a tenth of full health, as a node that
  just failed six times does; only a node polled without a sighting starts at 1.\<close>

lemma sighted_node_starts_low:
  assumes "n \<notin> node_ids s" "no_ID r = n" "checkPath n k h port = None"
  shows "health_of (snd (MarkHealthy r ts' (snd (SeePath n k h port ts s)))) n = Some HealthFloor
    \<and> health_of (snd (MarkHealthy r ts' s)) n = Some 1"
proof -
  have none: "health_of s n = None" using assms(1) by (simp add: health_of_def find_node node_ids_def)
  have n: "n \<noteq> []" using assms(3) by (simp add: checkPath_None)
  show ?thesis
    by (simp add: health_MarkHealthy [OF n assms(2)] health_SeePath [OF assms(3)] none
        HealthRecovery_def HealthFloor_def)
qed

lemma health_lowered: "0 \<le> h \<Longrightarrow> h \<le> 1 \<Longrightarrow> HealthFloor \<le> max HealthFloor (h / 2) \<and> max HealthFloor (h / 2) \<le> 1"
  by (auto simp: HealthFloor_def)

subsection \<open>Concrete inputs\<close>

definition ex_book :: store where
  "ex_book = fold book_step [BkSee ''a'' PathGossip ''h'' 1 100, BkOK ''a'' PathInternet ''i'' 2 200] empty_store"

lemmas book_eval = ex_book_def empty_store_def SeePath_def PathOK_def checkPath_def seePath_def upsert_def
  update_where_def verify_path_def make_active_def promotes_def incumbent_def is_path_def default_node_def
  new_path_def seen_path_def Let_def answering_def

lemma ex_book_inv: "book_inv ex_book"
  unfolding ex_book_def by (rule book_run_inv) (simp add: book_eval)

lemma address_book_invariant_witness:
  "let ps = st_paths (fold book_step [BkOK ''a'' PathLAN ''h'' 1 100, BkOK ''b'' PathLAN ''h'' 1 200] empty_store)
   in map pa_Node ps = [''b''] \<and> 0 < pa_LastOK (hd ps)"
proof -
  let ?es = "[BkOK ''a'' PathLAN ''h'' 1 100, BkOK ''b'' PathLAN ''h'' 1 200]"
  have run: "bm.run_ok ?es empty_store" by simp
  obtain p where ps: "st_paths (fold book_step ?es empty_store) = [p]" and p: "pa_Node p = ''b''" "pa_Active p"
    by (simp add: book_eval)
  have "0 < pa_LastOK p"
    using address_book_invariant [OF run, of p p] p unfolding ps by simp
  then show ?thesis by (simp only: ps Let_def) (simp add: p)
qed

lemma PathOK_moves_active_witness:
  "active_addr (snd (PathOK ''a'' PathLAN ''h'' 1 300 ex_book)) ''a'' = Some (''h'', 1)
   \<and> active_addr (snd (PathOK ''a'' PathGossip ''h'' 1 300 ex_book)) ''a'' = Some (''i'', 2)"
  using PathOK_moves_active [OF ex_book_inv, of 300 "''a''" PathLAN "''h''" 1 "''a''"]
    PathOK_moves_active [OF ex_book_inv, of 300 "''a''" PathGossip "''h''" 1 "''a''"]
  by (simp add: book_eval stored_kind_def addr_def)

lemma shown_path_is_active_witness: "shown_path ex_book ''a'' = Some (''i'', 2, PathInternet, [])
   \<and> active_addr ex_book ''a'' = Some (''i'', 2)"
proof -
  have "shown_path ex_book ''a'' = Some (''i'', 2, PathInternet, [])"
    by (simp add: book_eval shown_path_def Paths_def sortPaths_def path_key_def path_group_def latest_def less_eq_prod_def)
  moreover have "active_addr ex_book ''a'' \<noteq> None"
    by (simp add: book_eval active_addr_def)
  ultimately show ?thesis
    using shown_path_is_active [OF ex_book_inv, of "''a''"] by (simp del: not_None_eq)
qed

lemma sightings_do_not_keep_a_node_witness:
  "''a'' \<notin> node_ids (PruneStale 2000 (fold book_step [BkSee ''a'' PathLAN ''h'' 1 1900, BkSee ''a'' PathLAN ''j'' 1 1990] ex_book))"
  using sightings_do_not_keep_a_node [of 2000 "''a''" ex_book
      "[BkSee ''a'' PathLAN ''h'' 1 1900, BkSee ''a'' PathLAN ''j'' 1 1990]"]
  by (simp add: book_eval unverified_since_def node_ids_def nodeVerifiedTTL_def)

lemma sighted_node_starts_low_witness:
  "health_of (snd (MarkHealthy ((default_node ''b'' 0)) 7 (snd (SeePath ''b'' PathLAN ''h'' 1 5 ex_book)))) ''b'' = Some (1 / 10)"
  using sighted_node_starts_low [of "''b''" ex_book "default_node ''b'' 0" PathLAN "''h''" 1 7 5]
  by (simp add: book_eval node_ids_def HealthFloor_def)

end
