(* ===== verification/NodePoll.thy ===== *)
theory NodePoll
  imports NodeBook
begin

text \<open>
  How the daemon keeps its address book: the internet paths that come and go
  (\<^verbatim>\<open>src/internal/daemonapi/nodespeers.go\<close>), the poll of a node's paths (\<^verbatim>\<open>nodespoll.go\<close>), the signed
  address records the members exchange (\<^verbatim>\<open>gossip.go\<close>), the rows it serves (\<^verbatim>\<open>nodes.go\<close>) and the pins of
  \<^verbatim>\<open>tlsid/tlsid.go\<close>. An address is a pair of host and port, where the code has its text
  \<open>host:port\<close>. The network, the clock, the parsing of an IP address and the signatures answer through
  arguments; a store that fails is not modelled. A poll is cut into the stretches between which a
  removal can come: its start, one step per path, its end.
\<close>

type_synonym address = "string \<times> int"

subsection \<open>Address records\<close>

record addr_record =
  ad_NodeID :: string
  ad_Seq :: int
  ad_Hosts :: "string list"
  ad_DaemonPort :: int
  ad_DirectPort :: int
  ad_IntroducerPort :: int
  ad_Pub :: string
  ad_Sig :: "byte list"

text \<open>
  \<open>sg_node\<close> is the fingerprint of an encoded public key, \<open>None\<close> when it cannot be decoded; \<open>sg_ok\<close>
  whether a signature over the record as signed is the key's.
\<close>

record signatures =
  sg_node :: "string \<Rightarrow> string option"
  sg_ok :: "string \<Rightarrow> addr_record \<Rightarrow> byte list \<Rightarrow> bool"

definition canonical :: "addr_record \<Rightarrow> addr_record" where
  "canonical r = r\<lparr>ad_Sig := []\<rparr>"

datatype record_error = BadPublicKey | KeyOfAnother string | BadSignature

definition verify_record :: "signatures \<Rightarrow> addr_record \<Rightarrow> record_error option" where
  "verify_record sg r =
     (case sg_node sg (ad_Pub r) of
        None \<Rightarrow> Some BadPublicKey
      | Some node \<Rightarrow>
          if node \<noteq> ad_NodeID r then Some (KeyOfAnother node)
          else if \<not> sg_ok sg (ad_Pub r) (canonical r) (ad_Sig r) then Some BadSignature else None)"

text \<open>What parsing a host gives: \<open>None\<close> when it is no IP address.\<close>

record ip_class =
  ip_loopback :: bool
  ip_unspecified :: bool
  ip_private :: bool
  ip_linklocal :: bool

record net_env =
  ne_ip :: "string \<Rightarrow> ip_class option"
  ne_networks :: "(string \<Rightarrow> bool) option"
  ne_hinter :: bool

definition routable :: "net_env \<Rightarrow> string \<Rightarrow> bool" where
  "routable e h = (case ne_ip e h of None \<Rightarrow> False | Some ip \<Rightarrow> \<not> ip_loopback ip \<and> \<not> ip_unspecified ip)"

text \<open>\<open>ne_networks\<close> says of a host whether it is on a network of this machine, \<open>None\<close> when they cannot be listed.\<close>

definition Probeable :: "net_env \<Rightarrow> string \<Rightarrow> bool" where
  "Probeable e h =
     (case ne_ip e h of None \<Rightarrow> True
      | Some ip \<Rightarrow> if \<not> ip_private ip \<and> \<not> ip_linklocal ip then True
          else case ne_networks e of None \<Rightarrow> True | Some on \<Rightarrow> on h)"

subsection \<open>State\<close>

record pin =
  pn_Node :: string
  pn_Expected :: bool

record mesh =
  me_nodeID :: string
  me_store :: store
  me_pending :: "address list"
  me_pathGen :: nat
  me_removedAt :: "(address \<times> nat) list"
  me_pins :: "(address \<times> pin) list"
  me_strangers :: "(string \<times> address) list"
  me_self :: "addr_record option"
  me_records :: "(string \<times> addr_record) list"
  me_hints :: "(string \<times> address list) list"

definition mesh_start :: "string \<Rightarrow> mesh" where
  "mesh_start nodeID = \<lparr>me_nodeID = nodeID, me_store = empty_store, me_pending = [], me_pathGen = 0, me_removedAt = [],
     me_pins = [], me_strangers = [], me_self = None, me_records = [], me_hints = []\<rparr>"

definition with_store :: "(store \<Rightarrow> store) \<Rightarrow> mesh \<Rightarrow> mesh" where
  "with_store f m = m\<lparr>me_store := f (me_store m)\<rparr>"

subsection \<open>Pins\<close>

definition Expect :: "address \<Rightarrow> string \<Rightarrow> mesh \<Rightarrow> mesh" where
  "Expect a node m = m\<lparr>me_pins := AList.update a \<lparr>pn_Node = node, pn_Expected = True\<rparr> (me_pins m)\<rparr>"

definition Forget :: "address \<Rightarrow> mesh \<Rightarrow> mesh" where
  "Forget a m = m\<lparr>me_pins := AList.delete a (me_pins m)\<rparr>"

text \<open>\<open>cert\<close> is the node a certificate proves, \<open>None\<close> when it holds no node key.\<close>

datatype pin_error = NotANodeKey | OtherNodeExpected string string

definition CheckOrPin :: "address \<Rightarrow> string option \<Rightarrow> mesh \<Rightarrow> pin_error option \<times> mesh" where
  "CheckOrPin a cert m =
     (case cert of None \<Rightarrow> (Some NotANodeKey, m)
      | Some node \<Rightarrow>
          (case map_of (me_pins m) a of
             Some known \<Rightarrow>
               if pn_Node known = node then (None, m)
               else if pn_Expected known then (Some (OtherNodeExpected node (pn_Node known)), m)
               else (None, m\<lparr>me_pins := AList.update a \<lparr>pn_Node = node, pn_Expected = False\<rparr> (me_pins m)\<rparr>)
           | None \<Rightarrow> (None, m\<lparr>me_pins := AList.update a \<lparr>pn_Node = node, pn_Expected = False\<rparr> (me_pins m)\<rparr>)))"

subsection \<open>Internet paths that come and go\<close>

definition removed_since :: "address \<Rightarrow> nat \<Rightarrow> mesh \<Rightarrow> bool" where
  "removed_since a since m = (case map_of (me_removedAt m) a of None \<Rightarrow> False | Some g \<Rightarrow> since < g)"

text \<open>\<open>PathOK\<close> plus the pin, unless the address was removed after generation \<open>since\<close>; \<open>Inl\<close> is the store's error.\<close>

definition verifyPath :: "string \<Rightarrow> path_kind \<Rightarrow> address \<Rightarrow> nat \<Rightarrow> int \<Rightarrow> mesh \<Rightarrow> (path_error + bool) \<times> mesh" where
  "verifyPath nodeID k a since ts m =
     (if removed_since a since m then (Inr False, m)
      else case PathOK nodeID k (fst a) (snd a) ts (me_store m) of
          (Some e, _) \<Rightarrow> (Inl e, m)
        | (None, s) \<Rightarrow> (Inr True, Expect a nodeID (m\<lparr>me_store := s\<rparr>)))"

text \<open>The end of \<open>AddPeer\<close>: \<open>answer\<close> is the node that answered the probe begun at generation \<open>since\<close>.\<close>

definition AddPeer :: "address \<Rightarrow> nat \<Rightarrow> string option \<Rightarrow> int \<Rightarrow> mesh \<Rightarrow> (path_error + unit) \<times> mesh" where
  "AddPeer a since answer ts m =
     (case answer of
        None \<Rightarrow> (Inr (), if removed_since a since m then m else m\<lparr>me_pending := List.insert a (me_pending m)\<rparr>)
      | Some node \<Rightarrow>
          (case verifyPath node PathInternet a since ts m of
             (Inl e, m') \<Rightarrow> (Inl e, m') | (Inr _, m') \<Rightarrow> (Inr (), m')))"

definition tryPending :: "address \<Rightarrow> nat \<Rightarrow> string option \<Rightarrow> int \<Rightarrow> mesh \<Rightarrow> bool \<times> mesh" where
  "tryPending a since answer ts m =
     (case answer of None \<Rightarrow> (False, m)
      | Some node \<Rightarrow>
          (case verifyPath node PathInternet a since ts m of
             (Inl e, m') \<Rightarrow> (False, m')
           | (Inr ok, m') \<Rightarrow> (ok, m'\<lparr>me_pending := removeAll a (me_pending m')\<rparr>)))"

definition drop_everywhere :: "address \<Rightarrow> store \<Rightarrow> store" where
  "drop_everywhere a s =
     fold (\<lambda>n s. if list_ex (\<lambda>p. pa_Host p = fst a \<and> pa_Port p = snd a) (Paths (no_ID n) s)
                 then DropPath (no_ID n) (fst a) (snd a) s else s) (map fst (ListAll s)) s"

definition RemovePeer :: "address \<Rightarrow> mesh \<Rightarrow> mesh" where
  "RemovePeer a m =
     (let g = me_pathGen m + 1
      in Forget a (with_store (drop_everywhere a)
           (m\<lparr>me_pathGen := g, me_removedAt := AList.update a g (me_removedAt m), me_pending := removeAll a (me_pending m)\<rparr>)))"

subsection \<open>The poll of one node\<close>

record health =
  he_NodeID :: string
  he_arch :: string
  he_hostname :: string
  he_ActiveJobs :: int
  he_AvailableMem :: int
  he_ReservedMem :: int
  he_TotalMem :: int
  he_CPUPercent :: f64
  he_CapsJSON :: string
  he_LoadJSON :: string

text \<open>
  What a probe gives: an answer, a refusal by the pin (another key answers), or a failure with its
  text and whether something answered that could not prove the cluster's token.
\<close>

datatype probe_answer = Answers health | AnotherKey | NoAnswer string bool

fun try_rank :: "path_kind \<Rightarrow> nat" where
  "try_rank PathInternet = 1"
| "try_rank PathGossip = 2"
| "try_rank _ = 0"

definition candidateOrder :: "path_row list \<Rightarrow> path_row list" where
  "candidateOrder paths =
     (let ps = filter (\<lambda>p. pa_Kind p \<noteq> PathSelf) paths
      in case find pa_Active ps of
           None \<Rightarrow> sort_key (try_rank \<circ> pa_Kind) ps
         | Some p \<Rightarrow> p # sort_key (try_rank \<circ> pa_Kind) (takeWhile (\<lambda>q. \<not> pa_Active q) ps @ tl (dropWhile (\<lambda>q. \<not> pa_Active q) ps)))"

record poll =
  pl_node :: string
  pl_since :: nat
  pl_todo :: "path_row list"
  pl_verified :: "health option"
  pl_at :: "address \<times> path_kind"
  pl_unproven :: "path_row list"

definition path_addr :: "path_row \<Rightarrow> address" where
  "path_addr p = (pa_Host p, pa_Port p)"

definition poll_begin :: "string \<Rightarrow> address \<times> path_kind \<Rightarrow> mesh \<Rightarrow> poll" where
  "poll_begin node shown m = \<lparr>pl_node = node, pl_since = me_pathGen m, pl_todo = candidateOrder (Paths node (me_store m)),
     pl_verified = None, pl_at = shown, pl_unproven = []\<rparr>"

definition dropPath :: "string \<Rightarrow> address \<Rightarrow> mesh \<Rightarrow> mesh" where
  "dropPath node a m = Forget a (with_store (DropPath node (fst a) (snd a)) m)"

definition on_answer :: "path_row \<Rightarrow> probe_answer \<Rightarrow> int \<Rightarrow> poll \<times> mesh \<Rightarrow> poll \<times> mesh" where
  "on_answer p ans ts pm =
     (let (pl, m) = pm; a = path_addr p
      in case ans of
           AnotherKey \<Rightarrow> (pl, dropPath (pl_node pl) a m)
         | NoAnswer why unproven \<Rightarrow>
             (if unproven then pl\<lparr>pl_unproven := pl_unproven pl @ [p]\<rparr> else pl,
              with_store (PathFailed (pl_node pl) (fst a) (snd a) why) m)
         | Answers h \<Rightarrow>
             if he_NodeID h \<noteq> pl_node pl then (pl, dropPath (pl_node pl) a m)
             else (case verifyPath (pl_node pl) (pa_Kind p) a (pl_since pl) ts m of
                (Inr True, m') \<Rightarrow>
                  (if pl_verified pl = None then pl\<lparr>pl_verified := Some h, pl_at := (a, pa_Kind p)\<rparr> else pl, m')
              | (_, m') \<Rightarrow> (pl, m')))"

text \<open>One turn of the loop over the candidates.\<close>

definition poll_path :: "net_env \<Rightarrow> probe_answer \<Rightarrow> int \<Rightarrow> poll \<times> mesh \<Rightarrow> poll \<times> mesh" where
  "poll_path e ans ts pm =
     (let (pl, m) = pm
      in case pl_todo pl of [] \<Rightarrow> pm
         | p # ps \<Rightarrow>
             if pl_verified pl \<noteq> None \<and> pa_Kind p \<noteq> PathLAN then (pl\<lparr>pl_todo := []\<rparr>, m)
             else if pa_Kind p = PathGossip \<and> \<not> Probeable e (pa_Host p) then (pl\<lparr>pl_todo := ps\<rparr>, m)
             else on_answer p ans ts (pl\<lparr>pl_todo := ps\<rparr>, m))"

definition dropStranger :: "string \<Rightarrow> address \<Rightarrow> path_row \<Rightarrow> mesh \<Rightarrow> mesh" where
  "dropStranger node using p m =
     (if path_addr p = using then m
      else with_store (DropPath node (pa_Host p) (pa_Port p))
             (m\<lparr>me_strangers := List.insert (node, path_addr p) (me_strangers m)\<rparr>))"

definition forgetStrangers :: "string \<Rightarrow> mesh \<Rightarrow> mesh" where
  "forgetStrangers node m = m\<lparr>me_strangers := filter (\<lambda>x. fst x \<noteq> node) (me_strangers m)\<rparr>"

definition healthy_row :: "string \<Rightarrow> health \<Rightarrow> node_row" where
  "healthy_row node h =
     \<lparr>no_ID = node, no_SSHEndpoint = [], no_Arch = he_arch h, no_Hostname = he_hostname h, no_State = [],
      no_ActiveJobs = he_ActiveJobs h, no_AvailableMem = he_AvailableMem h, no_ReservedMem = he_ReservedMem h,
      no_TotalMem = he_TotalMem h, no_CPUPercent = he_CPUPercent h, no_HealthScore = 0, no_LastSeen = 0,
      no_Created = 0, no_VerifiedAt = 0, no_CapsJSON = he_CapsJSON h, no_LoadJSON = he_LoadJSON h\<rparr>"

definition poll_end :: "int \<Rightarrow> poll \<Rightarrow> mesh \<Rightarrow> bool \<times> mesh" where
  "poll_end ts pl m =
     (case pl_verified pl of
        None \<Rightarrow> (False, with_store (MarkUnreachable (pl_node pl)) (forgetStrangers (pl_node pl) m))
      | Some h \<Rightarrow>
          (True, with_store (\<lambda>s. snd (MarkHealthy (healthy_row (pl_node pl) h) ts s))
             (fold (dropStranger (pl_node pl) (fst (pl_at pl))) (pl_unproven pl) m)))"

text \<open>The poll when nothing comes between: \<open>answer\<close> is what each path gives.\<close>

definition poll_turn :: "net_env \<Rightarrow> (path_row \<Rightarrow> probe_answer) \<Rightarrow> int \<Rightarrow> poll \<times> mesh \<Rightarrow> poll \<times> mesh" where
  "poll_turn e answer ts pm = (case pl_todo (fst pm) of [] \<Rightarrow> pm | p # _ \<Rightarrow> poll_path e (answer p) ts pm)"

definition pollOne :: "net_env \<Rightarrow> (path_row \<Rightarrow> probe_answer) \<Rightarrow> int \<Rightarrow> string \<Rightarrow> address \<times> path_kind \<Rightarrow> mesh \<Rightarrow> bool \<times> mesh" where
  "pollOne e answer ts node shown m =
     (let pl = poll_begin node shown m; (pl', m') = (poll_turn e answer ts ^^ length (pl_todo pl)) (pl, m)
      in poll_end ts pl' m')"

text \<open>Which addresses came up and which went down between two polls: the paths of the healthy peers.\<close>

definition healthy_at :: "(address \<times> (string \<times> bool)) list \<Rightarrow> address \<Rightarrow> bool" where
  "healthy_at m a = (case map_of m a of None \<Rightarrow> False | Some (node, healthy) \<Rightarrow> healthy)"

definition logPeerChanges :: "(address \<times> (string \<times> bool)) list \<Rightarrow> (address \<times> (string \<times> bool)) list \<Rightarrow> address list \<times> address list" where
  "logPeerChanges prev following =
     (filter (\<lambda>a. healthy_at following a \<and> \<not> healthy_at prev a) (map fst following),
      filter (\<lambda>a. healthy_at prev a \<and> \<not> healthy_at following a) (map fst prev))"

text \<open>This node's own row, at the address \<open>host\<close> the kernel would use towards the \<open>voting_peers\<close>.\<close>

definition voting_peers :: "mesh \<Rightarrow> address list" where
  "voting_peers m =
     map (\<lambda>(n, sp). case sp of Some (h, port, k, err) \<Rightarrow> (h, port) | None \<Rightarrow> ([], 0))
       (filter (\<lambda>(n, sp). no_ID n \<noteq> me_nodeID m \<and> no_State n = ''healthy''
                 \<and> (case sp of Some (h, port, k, err) \<Rightarrow> h \<noteq> [] \<and> port \<noteq> 0 | None \<Rightarrow> False))
         (ListAll (me_store m)))"

definition upsertSelf :: "string \<Rightarrow> int \<Rightarrow> health \<Rightarrow> int \<Rightarrow> mesh \<Rightarrow> mesh" where
  "upsertSelf host port h ts m =
     (if port = 0 then m
      else with_store (\<lambda>s. snd (MarkHealthy (healthy_row (me_nodeID m) h) ts
             (snd (PathOK (me_nodeID m) PathSelf host port ts s)))) m)"

subsection \<open>Gossip\<close>

definition isStranger :: "string \<Rightarrow> address \<Rightarrow> mesh \<Rightarrow> bool" where
  "isStranger node a m \<longleftrightarrow> (node, a) \<in> set (me_strangers m)"

definition apply_host :: "net_env \<Rightarrow> addr_record \<Rightarrow> int \<Rightarrow> string \<Rightarrow> mesh \<times> address list \<Rightarrow> mesh \<times> address list" where
  "apply_host e r ts h acc =
     (let (m, hints) = acc
      in if \<not> routable e h then acc
         else (if 0 < ad_DaemonPort r \<and> \<not> isStranger (ad_NodeID r) (h, ad_DaemonPort r) m
               then with_store (\<lambda>s. snd (SeePath (ad_NodeID r) PathGossip h (ad_DaemonPort r) ts s)) m else m,
               if 0 < ad_DirectPort r \<and> Probeable e h then hints @ [(h, ad_DirectPort r)] else hints))"

definition applyRecord :: "net_env \<Rightarrow> int \<Rightarrow> addr_record \<Rightarrow> mesh \<Rightarrow> mesh" where
  "applyRecord e ts r m =
     (let (m, hints) = fold (apply_host e r ts) (ad_Hosts r) (m, [])
      in if ne_hinter e \<and> hints \<noteq> [] then m\<lparr>me_hints := me_hints m @ [(ad_NodeID r, hints)]\<rparr> else m)"

definition fresh_record :: "addr_record \<Rightarrow> mesh \<Rightarrow> bool" where
  "fresh_record r m = (case map_of (me_records m) (ad_NodeID r) of None \<Rightarrow> True | Some old \<Rightarrow> ad_Seq old < ad_Seq r)"

definition learn_record :: "net_env \<Rightarrow> signatures \<Rightarrow> int \<Rightarrow> addr_record \<Rightarrow> mesh \<Rightarrow> mesh" where
  "learn_record e sg ts r m =
     (if ad_NodeID r = me_nodeID m \<or> verify_record sg r \<noteq> None \<or> \<not> fresh_record r m then m
      else applyRecord e ts r (m\<lparr>me_records := AList.update (ad_NodeID r) r (me_records m)\<rparr>))"

record addresses_reply =
  ar_Self :: "addr_record option"
  ar_Peers :: "addr_record list"

definition reply_records :: "addresses_reply \<Rightarrow> addr_record list" where
  "reply_records got = (case ar_Self got of None \<Rightarrow> [] | Some r \<Rightarrow> [r]) @ ar_Peers got"

definition learnAddresses :: "net_env \<Rightarrow> signatures \<Rightarrow> int \<Rightarrow> addresses_reply \<Rightarrow> mesh \<Rightarrow> mesh" where
  "learnAddresses e sg ts got m =
     fold (learn_record e sg ts) (reply_records got) m"

text \<open>This node's own record: \<open>sign\<close> puts its key's signature on it. \<open>now\<close> is in nanoseconds.\<close>

definition directPort :: int where "directPort = 4243"
definition DefaultPort :: int where "DefaultPort = 4244"

definition selfRecord ::
  "(addr_record \<Rightarrow> byte list) \<Rightarrow> string \<Rightarrow> string \<Rightarrow> int \<Rightarrow> string list \<Rightarrow> int \<Rightarrow> mesh \<Rightarrow> addr_record \<times> mesh" where
  "selfRecord sign node pub now hosts port m =
     (case me_self m of
        Some c \<Rightarrow>
          if ad_DaemonPort c = port \<and> ad_Hosts c = hosts then (c, m)
          else let seq = (if now \<le> ad_Seq c then ad_Seq c + 1 else now);
                   r = \<lparr>ad_NodeID = node, ad_Seq = seq, ad_Hosts = hosts, ad_DaemonPort = port, ad_DirectPort = directPort,
                     ad_IntroducerPort = DefaultPort, ad_Pub = pub, ad_Sig = []\<rparr>;
                   r = r\<lparr>ad_Sig := sign r\<rparr>
               in (r, m\<lparr>me_self := Some r\<rparr>)
      | None \<Rightarrow>
          let r = \<lparr>ad_NodeID = node, ad_Seq = now, ad_Hosts = hosts, ad_DaemonPort = port, ad_DirectPort = directPort,
                ad_IntroducerPort = DefaultPort, ad_Pub = pub, ad_Sig = []\<rparr>;
              r = r\<lparr>ad_Sig := sign r\<rparr>
          in (r, m\<lparr>me_self := Some r\<rparr>))"

definition selfHosts :: "net_env \<Rightarrow> string \<Rightarrow> string \<Rightarrow> string list" where
  "selfHosts e selfHost selfIP =
     foldl (\<lambda>out h. if routable e h \<and> (out = [] \<or> hd out \<noteq> h) then out @ [h] else out) [] [selfHost, selfIP]"

text \<open>A sighting on the network: a candidate, never a working path.\<close>

definition discovered :: "string \<Rightarrow> address \<Rightarrow> int \<Rightarrow> mesh \<Rightarrow> mesh" where
  "discovered node a ts m =
     (if node = [] \<or> node = me_nodeID m \<or> fst a = [] \<or> snd a = 0 then m
      else with_store (\<lambda>s. snd (SeePath node PathLAN (fst a) (snd a) ts s)) m)"

subsection \<open>The rows it serves\<close>

definition staleAfter :: int where "staleAfter = 45"

text \<open>The state of a row at \<open>now\<close>; the difference of two times is exact here.\<close>

definition shown_state :: "int \<Rightarrow> node_row \<Rightarrow> string" where
  "shown_state now n =
     (let state = no_State n;
          state = (if state = ''healthy'' \<and> staleAfter < now - no_LastSeen n then ''stale'' else state)
      in if state = [] then ''unknown'' else state)"

definition pathName :: "string \<Rightarrow> path_kind \<Rightarrow> string" where
  "pathName host k = (if host = [] then []
     else case k of PathSelf \<Rightarrow> ''self'' | PathInternet \<Rightarrow> ''internet'' | PathGossip \<Rightarrow> ''gossip'' | _ \<Rightarrow> ''lan'')"

definition ssh_endpoint :: "string \<Rightarrow> string" where
  "ssh_endpoint host = (if host = [] then [] else ''root@'' @ host @ '':22'')"

definition lastPathError :: "string \<Rightarrow> store \<Rightarrow> string" where
  "lastPathError node s =
     (case find (\<lambda>p. pa_LastErr p \<noteq> []) (Paths node s) of Some p \<Rightarrow> pa_LastErr p
      | None \<Rightarrow> if Paths node s = [] then ''no address known'' else [])"

record path_resp =
  pr_Kind :: path_kind
  pr_Host :: string
  pr_Port :: int
  pr_Active :: bool
  pr_OK :: bool
  pr_Err :: string

definition pathList :: "string \<Rightarrow> store \<Rightarrow> path_resp list" where
  "pathList node s = map (\<lambda>p. \<lparr>pr_Kind = pa_Kind p, pr_Host = pa_Host p, pr_Port = pa_Port p, pr_Active = pa_Active p,
     pr_OK = (pa_LastOK p \<noteq> 0 \<and> pa_LastErr p = []), pr_Err = pa_LastErr p\<rparr>) (Paths node s)"

record node_resp =
  nr_NodeID :: string
  nr_SSHEndpoint :: string
  nr_DaemonPort :: int
  nr_Capabilities :: "string \<rightharpoonup> string"
  nr_State :: string
  nr_HealthScore :: f64
  nr_Source :: "path_kind option"
  nr_Host :: string
  nr_Path :: string
  nr_Reason :: string
  nr_Paths :: "path_resp list"

text \<open>\<open>decode\<close> reads the stored capabilities, \<open>None\<close> when they are unreadable. The load it serves is not modelled.\<close>

definition shown_caps :: "(string \<Rightarrow> (string \<rightharpoonup> string) option) \<Rightarrow> node_row \<Rightarrow> string \<Rightarrow> string \<rightharpoonup> string" where
  "shown_caps decode n path =
     (let absent = (\<lambda>caps k. case caps k of None \<Rightarrow> True | Some v \<Rightarrow> v = []);
          caps = (if no_CapsJSON n = [] then Map.empty else case decode (no_CapsJSON n) of Some c \<Rightarrow> c | None \<Rightarrow> Map.empty);
          caps = (if absent caps ''arch'' \<and> no_Arch n \<noteq> [] then caps(''arch'' \<mapsto> no_Arch n) else caps);
          caps = (if absent caps ''hostname'' \<and> no_Hostname n \<noteq> [] then caps(''hostname'' \<mapsto> no_Hostname n) else caps)
      in if path \<noteq> [] then caps(''path'' \<mapsto> path) else caps)"

definition toNodeResp ::
  "(string \<Rightarrow> (string \<rightharpoonup> string) option) \<Rightarrow> int \<Rightarrow> node_row \<times> (string \<times> int \<times> path_kind \<times> string) option \<Rightarrow> node_resp" where
  "toNodeResp decode now row =
     (let n = fst row;
          (host, port, source, reason) = (case snd row of Some (h, p, k, e) \<Rightarrow> (h, p, Some k, e) | None \<Rightarrow> ([], 0, None, []));
          path = (case source of Some k \<Rightarrow> pathName host k | None \<Rightarrow> pathName host (OtherKind []))
      in \<lparr>nr_NodeID = no_ID n, nr_SSHEndpoint = ssh_endpoint host, nr_DaemonPort = port,
          nr_Capabilities = shown_caps decode n path, nr_State = shown_state now n, nr_HealthScore = no_HealthScore n,
          nr_Source = source, nr_Host = host, nr_Path = path, nr_Reason = reason, nr_Paths = []\<rparr>)"

definition list_row :: "store \<Rightarrow> node_resp \<Rightarrow> node_resp" where
  "list_row s r =
     (let r = (if nr_Source r \<noteq> Some PathSelf then r\<lparr>nr_Paths := pathList (nr_NodeID r) s\<rparr> else r);
          r = (if nr_Reason r = [] \<and> nr_State r = ''unreachable'' then r\<lparr>nr_Reason := lastPathError (nr_NodeID r) s\<rparr> else r)
      in if nr_Reason r \<noteq> [] then r\<lparr>nr_Capabilities := (nr_Capabilities r)(''unreachable_reason'' \<mapsto> nr_Reason r)\<rparr> else r)"

definition nodeList :: "(string \<Rightarrow> (string \<rightharpoonup> string) option) \<Rightarrow> int \<Rightarrow> store \<Rightarrow> node_resp list" where
  "nodeList decode now s = map (list_row s \<circ> toNodeResp decode now) (ListAll s)"

text \<open>The source sorts them by id, which is the order \<open>ListAll\<close> has given already.\<close>

definition handleUnreachable :: "node_resp list \<Rightarrow> (string \<times> string) list" where
  "handleUnreachable ns = map (\<lambda>n. (nr_NodeID n, nr_Reason n))
     (filter (\<lambda>n. nr_State n = ''unreachable'' \<and> nr_Source n \<noteq> Some PathSelf) ns)"

subsection \<open>Runs\<close>

text \<open>
  What can happen to the book, in any order: verifications and poll steps carry the generation their
  probe began at, so a removal may come between a probe and its write.
\<close>

datatype mesh_event =
    MeDiscovered string address int
  | MeSelf string int health int
  | MeAdd address nat "string option" int
  | MeTry address nat "string option" int
  | MeRemove address
  | MePath net_env probe_answer int poll
  | MeEnd int poll
  | MeLearn net_env int addresses_reply
  | MeTLS address "string option"
  | MePrune int

fun mesh_step :: "signatures \<Rightarrow> mesh_event \<Rightarrow> mesh \<Rightarrow> mesh" where
  "mesh_step sg (MeDiscovered node a ts) m = discovered node a ts m"
| "mesh_step sg (MeSelf host port h ts) m = upsertSelf host port h ts m"
| "mesh_step sg (MeAdd a since answer ts) m = snd (AddPeer a since answer ts m)"
| "mesh_step sg (MeTry a since answer ts) m = snd (tryPending a since answer ts m)"
| "mesh_step sg (MeRemove a) m = RemovePeer a m"
| "mesh_step sg (MePath e ans ts pl) m = snd (poll_path e ans ts (pl, m))"
| "mesh_step sg (MeEnd ts pl) m = snd (poll_end ts pl m)"
| "mesh_step sg (MeLearn e ts got) m = learnAddresses e sg ts got m"
| "mesh_step sg (MeTLS a cert) m = snd (CheckOrPin a cert m)"
| "mesh_step sg (MePrune ts) m = with_store (PruneStale ts) m"

fun mesh_ok :: "mesh_event \<Rightarrow> mesh \<Rightarrow> bool" where
  "mesh_ok (MeSelf host port h ts) m \<longleftrightarrow> 0 < ts"
| "mesh_ok (MeAdd a since answer ts) m \<longleftrightarrow> 0 < ts"
| "mesh_ok (MeTry a since answer ts) m \<longleftrightarrow> 0 < ts"
| "mesh_ok (MePath e ans ts pl) m \<longleftrightarrow> 0 < ts"
| "mesh_ok _ m \<longleftrightarrow> True"

subsection \<open>Who holds an address\<close>

text \<open>The node has been verified at the address.\<close>

definition holds :: "store \<Rightarrow> address \<Rightarrow> string \<Rightarrow> bool" where
  "holds s a n \<longleftrightarrow> (\<exists>p \<in> set (st_paths s). addr p = a \<and> pa_Node p = n \<and> 0 < pa_LastOK p)"

named_theorems held "which operations leave a verified address with its node"

lemma holdsE:
  assumes "holds s a n"
  obtains p where "p \<in> set (st_paths s)" "addr p = a" "pa_Node p = n" "0 < pa_LastOK p"
  using assms unfolding holds_def by blast

lemma holds_rows:
  assumes "holds s' a n"
    and "\<And>p. p \<in> set (st_paths s') \<Longrightarrow> 0 < pa_LastOK p \<Longrightarrow>
      \<exists>q \<in> set (st_paths s). addr q = addr p \<and> pa_Node q = pa_Node p \<and> 0 < pa_LastOK q"
  shows "holds s a n"
  using assms unfolding holds_def by metis

lemma holds_SeePath [held]: "holds (snd (SeePath n k h port ts s)) a m \<Longrightarrow> holds s a m"
proof (cases "checkPath n k h port")
  case None
  assume "holds (snd (SeePath n k h port ts s)) a m"
  then show ?thesis
    by (rule holds_rows)
      (auto simp: SeePath_def None seePath_def set_upsert set_update_where new_path_def seen_path_def addr_def split: if_splits)
qed (simp add: SeePath_def)

lemma holds_PathFailed [held]: "holds (PathFailed n h port r s) a m \<Longrightarrow> holds s a m"
  by (erule holds_rows) (auto simp: PathFailed_def Let_def set_update_where addr_def split: if_splits)

lemma holds_DropPath [held]: "holds (DropPath n h port s) a m \<Longrightarrow> holds s a m"
  by (erule holds_rows) (auto simp: DropPath_def)

lemma holds_MarkHealthy [held]: "holds (snd (MarkHealthy r ts s)) a m \<Longrightarrow> holds s a m"
  by (erule holds_rows) (auto simp: MarkHealthy_def UpsertNode_def Let_def split: if_splits)

lemma holds_MarkUnreachable [held]: "holds (MarkUnreachable n s) a m \<Longrightarrow> holds s a m"
  by (erule holds_rows) (auto simp: MarkUnreachable_def)

lemma holds_PruneStale [held]: "holds (PruneStale ts s) a m \<Longrightarrow> holds s a m"
  by (erule holds_rows) (auto simp: PruneStale_def delete_nodes_def Let_def)

lemma PathOK_paths:
  assumes "checkPath n k h port = None" "p \<in> set (st_paths (snd (PathOK n k h port ts s)))"
  obtains q where "q \<in> set (st_paths (verify_path n k h port ts s))" "addr q = addr p" "pa_Node q = pa_Node p" "pa_LastOK q = pa_LastOK p"
proof -
  have "\<exists>q \<in> set (st_paths (verify_path n k h port ts s)). addr q = addr p \<and> pa_Node q = pa_Node p \<and> pa_LastOK q = pa_LastOK p"
    using assms(2) unfolding PathOK_def assms(1)
    by (auto simp: Let_def make_active_def set_update_where addr_def split: if_splits)
  then show ?thesis using that by blast
qed

lemma holds_PathOK:
  assumes "holds (snd (PathOK n k h port ts s)) a m" "fst (PathOK n k h port ts s) = None"
  shows "if a = (h, port) then m = n else holds s a m"
proof -
  have check: "checkPath n k h port = None" using assms(2) by (simp add: PathOK_def Let_def split: option.splits)
  obtain p where p: "p \<in> set (st_paths (snd (PathOK n k h port ts s)))" "addr p = a" "pa_Node p = m" "0 < pa_LastOK p"
    using assms(1) by (rule holdsE)
  obtain q where q: "q \<in> set (st_paths (verify_path n k h port ts s))" "addr q = addr p" "pa_Node q = pa_Node p" "pa_LastOK q = pa_LastOK p"
    using PathOK_paths [OF check p(1)] .
  show ?thesis
    using verify_at [OF q(1)] verify_other [of q h port n k ts s] p q
    unfolding holds_def by (auto intro!: bexI [of _ q])
qed

lemma PathOK_error: "fst (PathOK n k h port ts s) \<noteq> None \<Longrightarrow> snd (PathOK n k h port ts s) = s"
  by (cases "checkPath n k h port") (simp_all add: PathOK_def Let_def)

subsection \<open>The invariant\<close>

text \<open>
  The store is a sound address book; a pinned address is held by the node pinned to it, or by this
  daemon itself; a record held is another node's and signed by it; no removal is newer than the
  generation counter.
\<close>

definition pins_agree :: "mesh \<Rightarrow> bool" where
  "pins_agree m \<longleftrightarrow> (\<forall>a p n. map_of (me_pins m) a = Some p \<and> pn_Expected p \<and> holds (me_store m) a n
      \<longrightarrow> n = pn_Node p \<or> n = me_nodeID m)"

definition records_ok :: "signatures \<Rightarrow> mesh \<Rightarrow> bool" where
  "records_ok sg m \<longleftrightarrow> (\<forall>n r. map_of (me_records m) n = Some r \<longrightarrow> ad_NodeID r = n \<and> n \<noteq> me_nodeID m \<and> verify_record sg r = None)"

definition removals_ok :: "mesh \<Rightarrow> bool" where
  "removals_ok m \<longleftrightarrow> (\<forall>a g. map_of (me_removedAt m) a = Some g \<longrightarrow> g \<le> me_pathGen m)"

definition mesh_inv :: "signatures \<Rightarrow> mesh \<Rightarrow> bool" where
  "mesh_inv sg m \<longleftrightarrow> book_inv (me_store m) \<and> pins_agree m \<and> records_ok sg m \<and> removals_ok m"

text \<open>A change of the store and the pins that verifies nothing and pins nothing keeps the invariant.\<close>

definition lets_go :: "mesh \<Rightarrow> mesh \<Rightarrow> bool" where
  "lets_go m m' \<longleftrightarrow> book_inv (me_store m') \<and> me_nodeID m' = me_nodeID m \<and> me_records m' = me_records m
     \<and> me_removedAt m' = me_removedAt m \<and> me_pathGen m' = me_pathGen m \<and> me_pending m' = me_pending m
     \<and> (\<forall>a n. holds (me_store m') a n \<longrightarrow> holds (me_store m) a n)
     \<and> (\<forall>a p. map_of (me_pins m') a = Some p \<and> pn_Expected p \<longrightarrow> map_of (me_pins m) a = Some p)"

lemma lets_go_inv: "mesh_inv sg m \<Longrightarrow> lets_go m m' \<Longrightarrow> mesh_inv sg m'"
proof -
  assume inv: "mesh_inv sg m" and go: "lets_go m m'"
  have "pins_agree m'"
    unfolding pins_agree_def
  proof (intro allI impI)
    fix a p n
    assume "map_of (me_pins m') a = Some p \<and> pn_Expected p \<and> holds (me_store m') a n"
    then have "map_of (me_pins m) a = Some p \<and> pn_Expected p \<and> holds (me_store m) a n"
      using go unfolding lets_go_def by blast
    moreover have "me_nodeID m' = me_nodeID m" using go by (simp add: lets_go_def)
    ultimately show "n = pn_Node p \<or> n = me_nodeID m'"
      using inv unfolding mesh_inv_def pins_agree_def by metis
  qed
  then show ?thesis using inv go by (simp add: mesh_inv_def lets_go_def records_ok_def removals_ok_def)
qed

lemma lets_go_refl: "book_inv (me_store m) \<Longrightarrow> lets_go m m"
  by (simp add: lets_go_def)

lemma lets_go_trans: "lets_go m m' \<Longrightarrow> lets_go m' m'' \<Longrightarrow> lets_go m m''"
  by (auto simp: lets_go_def)

lemma lets_go_fold:
  assumes "book_inv (me_store m)" "\<And>x m. book_inv (me_store m) \<Longrightarrow> lets_go m (f x m)"
  shows "lets_go m (fold f xs m)"
  using assms(1)
proof (induction xs arbitrary: m)
  case (Cons x xs)
  have step: "lets_go m (f x m)" using Cons.prems by (rule assms(2))
  then have "book_inv (me_store (f x m))" by (simp add: lets_go_def)
  from lets_go_trans [OF step Cons.IH [OF this]] show ?case by simp
qed (simp add: lets_go_refl)

lemma lets_go_store:
  assumes "book_inv (f (me_store m))" "\<And>a n. holds (f (me_store m)) a n \<Longrightarrow> holds (me_store m) a n"
  shows "lets_go m (with_store f m)"
  using assms by (simp add: lets_go_def with_store_def)

lemma lets_go_event:
  assumes "book_inv (me_store m)" "book_event_ok e (me_store m)" "f (me_store m) = book_step e (me_store m)"
    and "\<And>a n. holds (f (me_store m)) a n \<Longrightarrow> holds (me_store m) a n"
  shows "lets_go m (with_store f m)"
  using assms(4) by (intro lets_go_store) (simp_all add: assms(3) book_step_inv [OF assms(1,2)])

named_theorems letting_go "operations that verify and pin nothing"

lemma lets_go_SeePath [letting_go]: "book_inv (me_store m) \<Longrightarrow> lets_go m (with_store (\<lambda>s. snd (SeePath n k h port ts s)) m)"
  by (rule lets_go_event [of _ "BkSee n k h port ts"]) (auto dest: held)

lemma lets_go_PathFailed [letting_go]: "book_inv (me_store m) \<Longrightarrow> lets_go m (with_store (PathFailed n h port r) m)"
  by (rule lets_go_event [of _ "BkFailed n h port r"]) (auto dest: held)

lemma lets_go_DropPath [letting_go]: "book_inv (me_store m) \<Longrightarrow> lets_go m (with_store (DropPath n h port) m)"
  by (rule lets_go_event [of _ "BkDrop n h port"]) (auto dest: held)

lemma lets_go_MarkHealthy [letting_go]: "book_inv (me_store m) \<Longrightarrow> lets_go m (with_store (\<lambda>s. snd (MarkHealthy r ts s)) m)"
  by (rule lets_go_event [of _ "BkHealthy r ts"]) (auto dest: held)

lemma lets_go_MarkUnreachable [letting_go]: "book_inv (me_store m) \<Longrightarrow> lets_go m (with_store (MarkUnreachable n) m)"
  by (rule lets_go_event [of _ "BkUnreachable n"]) (auto dest: held)

lemma lets_go_PruneStale [letting_go]: "book_inv (me_store m) \<Longrightarrow> lets_go m (with_store (PruneStale ts) m)"
  by (rule lets_go_event [of _ "BkPrune ts"]) (auto dest: held)

lemma lets_go_Forget [letting_go]: "book_inv (me_store m) \<Longrightarrow> lets_go m (Forget a m)"
  by (auto simp: lets_go_def Forget_def delete_conv' split: if_splits)

lemma lets_go_CheckOrPin [letting_go]: "book_inv (me_store m) \<Longrightarrow> lets_go m (snd (CheckOrPin a cert m))"
  by (auto simp: lets_go_def CheckOrPin_def update_conv' split: option.splits if_splits)

lemma lets_go_dropPath [letting_go]: "book_inv (me_store m) \<Longrightarrow> lets_go m (dropPath n a m)"
  unfolding dropPath_def
  by (rule lets_go_trans [OF lets_go_DropPath lets_go_Forget]) (auto dest: lets_go_DropPath simp: lets_go_def)

lemma lets_go_strangers [letting_go]:
  "book_inv (me_store m) \<Longrightarrow> lets_go m (m\<lparr>me_strangers := xs\<rparr>)"
  "book_inv (me_store m) \<Longrightarrow> lets_go m (m\<lparr>me_hints := hs\<rparr>)"
  "book_inv (me_store m) \<Longrightarrow> lets_go m (forgetStrangers n m)"
  by (simp_all add: lets_go_def forgetStrangers_def)

lemma lets_go_book: "lets_go m m' \<Longrightarrow> book_inv (me_store m')"
  by (simp add: lets_go_def)

lemma lets_go_dropStranger [letting_go]: "book_inv (me_store m) \<Longrightarrow> lets_go m (dropStranger n a p m)"
  unfolding dropStranger_def using lets_go_refl
  by (auto intro!: lets_go_trans [OF lets_go_strangers(1) lets_go_DropPath] split: if_splits)

lemma lets_go_poll_end [letting_go]:
  assumes "book_inv (me_store m)"
  shows "lets_go m (snd (poll_end ts pl m))"
proof (cases "pl_verified pl")
  case None
  show ?thesis
    using lets_go_trans [OF lets_go_strangers(3) lets_go_MarkUnreachable] lets_go_book [OF lets_go_strangers(3)] assms
    by (simp add: poll_end_def None)
next
  case (Some h)
  let ?m = "fold (dropStranger (pl_node pl) (fst (pl_at pl))) (pl_unproven pl) m"
  have go: "lets_go m ?m" by (rule lets_go_fold [OF assms]) (rule lets_go_dropStranger)
  then show ?thesis
    using lets_go_trans [OF go lets_go_MarkHealthy [OF lets_go_book [OF go]]] by (simp add: poll_end_def Some)
qed

lemma lets_go_discovered [letting_go]: "book_inv (me_store m) \<Longrightarrow> lets_go m (discovered n a ts m)"
  by (simp add: discovered_def lets_go_refl lets_go_SeePath)

lemma set_insert_by_id: "set (insert_by_id n ns) = insert n (set ns)"
  by (induction ns) auto

lemma ListAll_ids: "set (map (no_ID \<circ> fst) (ListAll s)) = node_ids s"
proof -
  have "set (foldr insert_by_id ns []) = set ns" for ns
    by (induction ns) (simp_all add: set_insert_by_id)
  then show ?thesis by (auto simp: ListAll_def node_ids_def)
qed

lemma set_Paths: "set (Paths n s) = {p \<in> set (st_paths s). pa_Node p = n}"
  by (auto simp: Paths_def sortPaths_def)

lemma drop_step:
  "(if list_ex (\<lambda>p. pa_Host p = h \<and> pa_Port p = port) (Paths n s) then DropPath n h port s else s) = DropPath n h port s"
proof (cases "list_ex (\<lambda>p. pa_Host p = h \<and> pa_Port p = port) (Paths n s)")
  case False
  then have "filter (\<lambda>p. \<not> is_path n h port p) (st_paths s) = st_paths s"
    by (intro filter_True) (auto simp: list_ex_iff set_Paths is_path_def)
  then show ?thesis by (simp add: DropPath_def)
qed simp

lemma drop_everywhere_fold: "drop_everywhere a s = fold (\<lambda>n. DropPath (no_ID n) (fst a) (snd a)) (map fst (ListAll s)) s"
  by (simp only: drop_everywhere_def drop_step)

lemma drop_fold_rows:
  "p \<in> set (st_paths (fold (\<lambda>n. DropPath (no_ID n) (fst a) (snd a)) ns s)) \<longleftrightarrow>
    p \<in> set (st_paths s) \<and> \<not> (addr p = a \<and> pa_Node p \<in> set (map no_ID ns))"
proof (induction ns arbitrary: s)
  case (Cons n ns)
  have row: "p \<in> set (st_paths (DropPath (no_ID n) (fst a) (snd a) s)) \<longleftrightarrow> p \<in> set (st_paths s) \<and> \<not> (addr p = a \<and> pa_Node p = no_ID n)"
    by (cases a) (auto simp: DropPath_def is_path_def addr_def)
  show ?case by (simp only: fold_simps Cons.IH row) auto
qed simp

lemma drop_fold_inv: "book_inv s \<Longrightarrow> book_inv (fold (\<lambda>n. DropPath (no_ID n) (fst a) (snd a)) ns s)"
proof (induction ns arbitrary: s)
  case (Cons n ns)
  then show ?case using book_step_inv [OF Cons.prems, of "BkDrop (no_ID n) (fst a) (snd a)"] by simp
qed simp

text \<open>Every row is of a node of the book, so a removal finds all rows of the address.\<close>

lemma drop_everywhere_rows:
  assumes "book_inv s"
  shows "p \<in> set (st_paths (drop_everywhere a s)) \<longleftrightarrow> p \<in> set (st_paths s) \<and> addr p \<noteq> a"
proof -
  have "pa_Node p \<in> set (map no_ID (map fst (ListAll s)))" if "p \<in> set (st_paths s)"
    using that assms ListAll_ids [of s] by (simp add: book_inv_def paths_inv_def path_fields_ok_def)
  then show ?thesis unfolding drop_everywhere_fold drop_fold_rows by blast
qed

lemma holds_drop_everywhere:
  assumes "book_inv s" "holds (drop_everywhere a s) b n"
  shows "b \<noteq> a" "holds s b n"
  using assms(2) unfolding holds_def by (auto simp: drop_everywhere_rows [OF assms(1)])

lemma lets_go_drop_everywhere: "book_inv (me_store m) \<Longrightarrow> lets_go m (with_store (drop_everywhere a) m)"
  using drop_fold_inv [of "me_store m" a "map fst (ListAll (me_store m))"]
  by (intro lets_go_store) (simp_all only: drop_everywhere_fold [symmetric] holds_drop_everywhere(2))

lemma RemovePeer_inv:
  assumes "mesh_inv sg m"
  shows "mesh_inv sg (RemovePeer a m)"
proof -
  let ?g = "me_pathGen m + 1"
  let ?m = "m\<lparr>me_pathGen := ?g, me_removedAt := AList.update a ?g (me_removedAt m), me_pending := removeAll a (me_pending m)\<rparr>"
  have inv: "mesh_inv sg ?m"
    using assms
    by (auto simp: mesh_inv_def pins_agree_def records_ok_def removals_ok_def update_conv' le_SucI split: if_splits)
  have book: "book_inv (me_store ?m)" using inv by (simp add: mesh_inv_def)
  note go = lets_go_drop_everywhere [OF book]
  have "lets_go ?m (Forget a (with_store (drop_everywhere a) ?m))"
    by (rule lets_go_trans [OF go lets_go_Forget [OF lets_go_book [OF go]]])
  then show ?thesis using lets_go_inv [OF inv] by (simp add: RemovePeer_def Let_def)
qed

lemma apply_host_go: "book_inv (me_store m) \<Longrightarrow> lets_go m (fst (apply_host e r ts h (m, hints)))"
  by (simp add: apply_host_def lets_go_refl lets_go_SeePath)

lemma apply_hosts_go: "book_inv (me_store m) \<Longrightarrow> lets_go m (fst (fold (apply_host e r ts) hs (m, hints)))"
proof (induction hs arbitrary: m hints)
  case (Cons h hs)
  obtain m' hints' where step: "apply_host e r ts h (m, hints) = (m', hints')" by (rule prod.exhaust)
  have go: "lets_go m m'" using apply_host_go [OF Cons.prems, of e r ts h hints] by (simp add: step)
  show ?case using lets_go_trans [OF go Cons.IH [OF lets_go_book [OF go], of hints']] by (simp add: step)
qed (simp add: lets_go_refl)

lemma lets_go_applyRecord: "book_inv (me_store m) \<Longrightarrow> lets_go m (applyRecord e ts r m)"
proof -
  assume "book_inv (me_store m)"
  then have go: "lets_go m (fst (fold (apply_host e r ts) (ad_Hosts r) (m, [])))" by (rule apply_hosts_go)
  obtain m' hints where run: "fold (apply_host e r ts) (ad_Hosts r) (m, []) = (m', hints)" by (rule prod.exhaust)
  show ?thesis
    using go lets_go_trans [OF go lets_go_strangers(2)] lets_go_book [OF go] by (simp add: applyRecord_def run)
qed

lemma learn_record_inv:
  assumes "mesh_inv sg m"
  shows "mesh_inv sg (learn_record e sg ts r m)"
proof -
  let ?m = "m\<lparr>me_records := AList.update (ad_NodeID r) r (me_records m)\<rparr>"
  have "mesh_inv sg ?m" if "ad_NodeID r \<noteq> me_nodeID m" "verify_record sg r = None"
    using assms that by (auto simp: mesh_inv_def pins_agree_def records_ok_def removals_ok_def update_conv' split: if_splits)
  moreover from this have "mesh_inv sg (applyRecord e ts r ?m)"
    if "ad_NodeID r \<noteq> me_nodeID m" "verify_record sg r = None"
    using that by (intro lets_go_inv [OF _ lets_go_applyRecord]) (simp_all add: mesh_inv_def)
  ultimately show ?thesis using assms by (simp add: learn_record_def)
qed

lemma learnAddresses_inv: "mesh_inv sg m \<Longrightarrow> mesh_inv sg (learnAddresses e sg ts got m)"
proof -
  have "mesh_inv sg m \<Longrightarrow> mesh_inv sg (fold (learn_record e sg ts) rs m)" for rs
    by (induction rs arbitrary: m) (simp_all add: learn_record_inv)
  then show "mesh_inv sg m \<Longrightarrow> mesh_inv sg (learnAddresses e sg ts got m)" unfolding learnAddresses_def .
qed

lemma verifyPath_cases:
  obtains (same) "snd (verifyPath n k a since ts m) = m" "fst (verifyPath n k a since ts m) \<noteq> Inr True"
  | (verified) "fst (verifyPath n k a since ts m) = Inr True" "\<not> removed_since a since m"
      "fst (PathOK n k (fst a) (snd a) ts (me_store m)) = None"
      "snd (verifyPath n k a since ts m) = Expect a n (m\<lparr>me_store := snd (PathOK n k (fst a) (snd a) ts (me_store m))\<rparr>)"
proof (cases "removed_since a since m")
  case False
  obtain r s where run: "PathOK n k (fst a) (snd a) ts (me_store m) = (r, s)" by (rule prod.exhaust)
  show ?thesis using that False by (cases r) (auto simp: verifyPath_def run)
qed (use that in \<open>simp add: verifyPath_def\<close>)

lemma pins_agreeD: "pins_agree m \<Longrightarrow> map_of (me_pins m) a = Some p \<Longrightarrow> pn_Expected p \<Longrightarrow> holds (me_store m) a n \<Longrightarrow>
    n = pn_Node p \<or> n = me_nodeID m"
  unfolding pins_agree_def by blast

lemma pins_agree_PathOK:
  assumes "pins_agree m" "fst (PathOK n k h port ts (me_store m)) = None"
  shows "pins_agree (Expect (h, port) n (m\<lparr>me_store := snd (PathOK n k h port ts (me_store m))\<rparr>))"
    and "n = me_nodeID m \<Longrightarrow> pins_agree (m\<lparr>me_store := snd (PathOK n k h port ts (me_store m))\<rparr>)"
proof -
  let ?s = "snd (PathOK n k h port ts (me_store m))"
  have held: "if a = (h, port) then x = n else holds (me_store m) a x" if "holds ?s a x" for a x
    by (rule holds_PathOK [OF that assms(2)])
  show "pins_agree (Expect (h, port) n (m\<lparr>me_store := ?s\<rparr>))"
    unfolding pins_agree_def
  proof (intro allI impI)
    fix a p x
    assume "map_of (me_pins (Expect (h, port) n (m\<lparr>me_store := ?s\<rparr>))) a = Some p \<and> pn_Expected p
      \<and> holds (me_store (Expect (h, port) n (m\<lparr>me_store := ?s\<rparr>))) a x"
    then have pin: "(if a = (h, port) then Some \<lparr>pn_Node = n, pn_Expected = True\<rparr> else map_of (me_pins m) a) = Some p"
      and p: "pn_Expected p" "holds ?s a x"
      by (simp_all add: Expect_def update_conv' split: if_splits)
    have "x = pn_Node p \<or> x = me_nodeID m"
    proof (cases "a = (h, port)")
      case True
      then show ?thesis using pin held [OF p(2)] by auto
    next
      case False
      then show ?thesis using pin held [OF p(2)] pins_agreeD [OF assms(1) _ p(1)] by simp
    qed
    then show "x = pn_Node p \<or> x = me_nodeID (Expect (h, port) n (m\<lparr>me_store := ?s\<rparr>))" by (simp add: Expect_def)
  qed
  show "pins_agree (m\<lparr>me_store := ?s\<rparr>)" if "n = me_nodeID m"
    unfolding pins_agree_def
  proof (intro allI impI)
    fix a p x
    assume "map_of (me_pins (m\<lparr>me_store := ?s\<rparr>)) a = Some p \<and> pn_Expected p \<and> holds (me_store (m\<lparr>me_store := ?s\<rparr>)) a x"
    then have p: "map_of (me_pins m) a = Some p" "pn_Expected p" "holds ?s a x" by simp_all
    show "x = pn_Node p \<or> x = me_nodeID (m\<lparr>me_store := ?s\<rparr>)"
      using held [OF p(3)] pins_agreeD [OF assms(1) p(1,2)] that by (auto split: if_splits)
  qed
qed

lemma verifyPath_inv:
  assumes "mesh_inv sg m" "0 < ts"
  shows "mesh_inv sg (snd (verifyPath n k a since ts m))"
proof (cases rule: verifyPath_cases [of n k a since ts m])
  case verified
  have "pins_agree (Expect a n (m\<lparr>me_store := snd (PathOK n k (fst a) (snd a) ts (me_store m))\<rparr>))"
    using pins_agree_PathOK(1) [OF _ verified(3)] assms(1) by (simp add: mesh_inv_def)
  then show ?thesis using assms PathOK_inv
    by (simp add: verified(4) mesh_inv_def records_ok_def removals_ok_def Expect_def)
qed (simp add: assms(1))

lemma upsertSelf_inv:
  assumes "mesh_inv sg m" "0 < ts"
  shows "mesh_inv sg (upsertSelf host port h ts m)"
proof (cases "port = 0")
  case False
  let ?P = "PathOK (me_nodeID m) PathSelf host port ts (me_store m)"
  let ?m = "m\<lparr>me_store := snd ?P\<rparr>"
  have "pins_agree ?m"
  proof (cases "fst ?P")
    case None
    then show ?thesis using pins_agree_PathOK(2) [of m "me_nodeID m"] assms(1) by (simp add: mesh_inv_def)
  next
    case (Some err)
    then have "snd ?P = me_store m" by (intro PathOK_error) simp
    then show ?thesis using assms(1) by (simp add: mesh_inv_def)
  qed
  then have inv: "mesh_inv sg ?m" using assms PathOK_inv by (simp add: mesh_inv_def records_ok_def removals_ok_def)
  have "lets_go ?m (with_store (\<lambda>s. snd (MarkHealthy (healthy_row (me_nodeID m) h) ts s)) ?m)"
    using inv by (intro lets_go_MarkHealthy) (simp add: mesh_inv_def)
  from lets_go_inv [OF inv this] show ?thesis using False by (simp add: upsertSelf_def with_store_def)
qed (simp add: upsertSelf_def assms(1))

lemma inv_pending: "mesh_inv sg m \<Longrightarrow> mesh_inv sg (m\<lparr>me_pending := xs\<rparr>)"
  unfolding mesh_inv_def pins_agree_def records_ok_def removals_ok_def by (simp del: split_paired_All) blast

lemma AddPeer_mesh:
  obtains (waiting) "answer = None" "snd (AddPeer a since answer ts m) = (if removed_since a since m then m else m\<lparr>me_pending := List.insert a (me_pending m)\<rparr>)"
  | (known) n where "answer = Some n" "snd (AddPeer a since answer ts m) = snd (verifyPath n PathInternet a since ts m)"
  by (cases answer) (auto simp: AddPeer_def split: prod.splits sum.splits)

lemma tryPending_mesh:
  obtains (silent) "snd (tryPending a since answer ts m) = m"
  | (answered) n xs where "answer = Some n" "set xs \<subseteq> set (me_pending m)"
      "snd (tryPending a since answer ts m) = (snd (verifyPath n PathInternet a since ts m))\<lparr>me_pending := xs\<rparr>"
  | (refused) n where "answer = Some n" "snd (tryPending a since answer ts m) = snd (verifyPath n PathInternet a since ts m)"
proof (cases answer)
  case (Some n)
  have pending: "me_pending (snd (verifyPath n PathInternet a since ts m)) = me_pending m"
    by (cases rule: verifyPath_cases [of n PathInternet a since ts m]) (simp_all add: Expect_def)
  obtain r m' where run: "verifyPath n PathInternet a since ts m = (r, m')" by (rule prod.exhaust)
  show ?thesis
    using that(2) [OF Some, of "removeAll a (me_pending m')"] that(3) [OF Some] pending
    by (cases r) (simp_all add: tryPending_def Some run)
qed (use that in \<open>simp add: tryPending_def\<close>)

text \<open>A turn of the poll lets a path go, or is a verification at the generation the poll began at.\<close>

lemma on_answer_mesh:
  assumes "book_inv (me_store m)"
  obtains (go) "lets_go m (snd (on_answer p ans ts (pl, m)))"
  | (verify) "snd (on_answer p ans ts (pl, m)) = snd (verifyPath (pl_node pl) (pa_Kind p) (path_addr p) (pl_since pl) ts m)"
proof (cases ans)
  case (Answers h)
  show ?thesis
  proof (cases "he_NodeID h = pl_node pl")
    case True
    have "snd (on_answer p ans ts (pl, m)) = snd (verifyPath (pl_node pl) (pa_Kind p) (path_addr p) (pl_since pl) ts m)"
      by (simp add: on_answer_def Answers True Let_def split: prod.splits sum.splits bool.splits)
    then show ?thesis by (rule verify)
  next
    case False
    then show ?thesis using go lets_go_dropPath [OF assms] by (simp add: on_answer_def Answers Let_def)
  qed
next
  case AnotherKey
  then show ?thesis using go lets_go_dropPath [OF assms] by (simp add: on_answer_def Let_def)
next
  case (NoAnswer why unproven)
  then show ?thesis using go lets_go_PathFailed [OF assms] by (simp add: on_answer_def Let_def)
qed

lemma poll_path_mesh:
  assumes "book_inv (me_store m)"
  obtains (go) "lets_go m (snd (poll_path e ans ts (pl, m)))"
  | (verify) p ps where "pl_todo pl = p # ps"
      "snd (poll_path e ans ts (pl, m)) = snd (verifyPath (pl_node pl) (pa_Kind p) (path_addr p) (pl_since pl) ts m)"
proof (cases "snd (poll_path e ans ts (pl, m)) = m")
  case True
  then show ?thesis using go lets_go_refl [OF assms] by simp
next
  case False
  then obtain p ps where p: "pl_todo pl = p # ps"
    "snd (poll_path e ans ts (pl, m)) = snd (on_answer p ans ts (pl\<lparr>pl_todo := ps\<rparr>, m))"
    by (auto simp: poll_path_def split: list.splits if_splits)
  then show ?thesis
    using go verify [OF p(1)] by (cases rule: on_answer_mesh [OF assms, of p ans ts "pl\<lparr>pl_todo := ps\<rparr>"]) simp_all
qed

lemma mesh_step_inv:
  assumes "mesh_inv sg m" "mesh_ok ev m"
  shows "mesh_inv sg (mesh_step sg ev m)"
proof -
  have book: "book_inv (me_store m)" using assms(1) by (simp add: mesh_inv_def)
  show ?thesis
  proof (cases ev)
    case (MeAdd a since answer ts)
    then show ?thesis using assms
      by (cases rule: AddPeer_mesh [of answer a since ts m]) (simp_all add: verifyPath_inv inv_pending)
  next
    case (MeTry a since answer ts)
    then show ?thesis using assms
      by (cases rule: tryPending_mesh [of a since answer ts m]) (simp_all add: verifyPath_inv inv_pending)
  next
    case (MePath e ans ts pl)
    then show ?thesis using assms
      by (cases rule: poll_path_mesh [OF book, of e ans ts pl]) (simp_all add: verifyPath_inv lets_go_inv)
  qed (use assms(2) in \<open>simp_all add: RemovePeer_inv [OF assms(1)] learnAddresses_inv [OF assms(1)] upsertSelf_inv [OF assms(1)]
      lets_go_inv [OF assms(1) lets_go_discovered [OF book]] lets_go_inv [OF assms(1) lets_go_poll_end [OF book]]
      lets_go_inv [OF assms(1) lets_go_CheckOrPin [OF book]] lets_go_inv [OF assms(1) lets_go_PruneStale [OF book]]\<close>)
qed

interpretation mm: guarded_machine "mesh_step sg" mesh_ok "mesh_inv sg" for sg
  by unfold_locales (rule mesh_step_inv)

lemma mesh_start_inv: "mesh_inv sg (mesh_start own)"
  by (simp add: mesh_start_def mesh_inv_def pins_agree_def records_ok_def removals_ok_def book_inv_def paths_inv_def
      empty_store_def one_active_def one_owner_def uniq_def)

lemma mesh_run_inv: "mm.run_ok sg es (mesh_start own) \<Longrightarrow> mesh_inv sg (fold (mesh_step sg) es (mesh_start own))"
  by (rule mm.run_inv [OF mesh_start_inv])

subsection \<open>A removed path\<close>

text \<open>The address has no verified row and no expectation, and is not waited for.\<close>

definition unused :: "address \<Rightarrow> mesh \<Rightarrow> bool" where
  "unused a m \<longleftrightarrow> filter (\<lambda>p. addr p = a \<and> 0 < pa_LastOK p) (st_paths (me_store m)) = [] \<and> a \<notin> set (me_pending m)
     \<and> (case map_of (me_pins m) a of None \<Rightarrow> True | Some p \<Rightarrow> \<not> pn_Expected p)"

lemma unused_iff: "unused a m \<longleftrightarrow> (\<forall>n. \<not> holds (me_store m) a n) \<and> a \<notin> set (me_pending m)
    \<and> (\<forall>p. map_of (me_pins m) a = Some p \<longrightarrow> \<not> pn_Expected p)"
  unfolding unused_def holds_def filter_empty_conv by (auto split: option.split)

text \<open>Whatever verifies the address began before generation \<open>g\<close>, and it is not this daemon's own.\<close>

fun begun_before :: "address \<Rightarrow> nat \<Rightarrow> mesh_event \<Rightarrow> bool" where
  "begun_before a g (MeSelf host port h ts) \<longleftrightarrow> (host, port) \<noteq> a"
| "begun_before a g (MeAdd b since answer ts) \<longleftrightarrow> b = a \<longrightarrow> since < g"
| "begun_before a g (MeTry b since answer ts) \<longleftrightarrow> b = a \<longrightarrow> since < g"
| "begun_before a g (MePath e ans ts pl) \<longleftrightarrow>
     (case pl_todo pl of [] \<Rightarrow> True | p # _ \<Rightarrow> path_addr p = a \<longrightarrow> pl_since pl < g)"
| "begun_before a g _ \<longleftrightarrow> True"

definition gone :: "address \<Rightarrow> nat \<Rightarrow> mesh \<Rightarrow> bool" where
  "gone a g m \<longleftrightarrow> unused a m \<and> (\<exists>g'. map_of (me_removedAt m) a = Some g' \<and> g \<le> g')"

lemma gone_lets_go: "gone a g m \<Longrightarrow> lets_go m m' \<Longrightarrow> gone a g m'"
  unfolding gone_def unused_iff lets_go_def by (metis option.inject)

lemma gone_verifyPath:
  assumes "gone a g m" "b = a \<longrightarrow> since < g"
  shows "gone a g (snd (verifyPath n k b since ts m))"
proof (cases rule: verifyPath_cases [of n k b since ts m])
  case verified
  have "b \<noteq> a" using verified(2) assms by (auto simp: gone_def removed_since_def)
  then have "\<not> holds (snd (PathOK n k (fst b) (snd b) ts (me_store m))) a x" for x
    using holds_PathOK [OF _ verified(3), of a x] assms(1) by (auto simp: gone_def unused_iff)
  then show ?thesis using assms(1) \<open>b \<noteq> a\<close> by (simp add: verified(4) gone_def unused_iff Expect_def update_conv')
qed (simp add: assms(1))

lemma gone_pending: "gone a g m \<Longrightarrow> a \<notin> set xs \<Longrightarrow> gone a g (m\<lparr>me_pending := xs\<rparr>)"
  by (simp add: gone_def unused_iff)

lemma verifyPath_pending: "me_pending (snd (verifyPath n k a since ts m)) = me_pending m"
  by (cases rule: verifyPath_cases [of n k a since ts m]) (simp_all add: Expect_def)

lemma gone_learn_record:
  assumes "book_inv (me_store m)" "gone a g m"
  shows "gone a g (learn_record e sg ts r m) \<and> book_inv (me_store (learn_record e sg ts r m))"
proof -
  let ?m = "m\<lparr>me_records := AList.update (ad_NodeID r) r (me_records m)\<rparr>"
  have "gone a g ?m" using assms(2) by (simp add: gone_def unused_iff)
  moreover have "lets_go ?m (applyRecord e ts r ?m)" using assms(1) by (intro lets_go_applyRecord) simp
  ultimately show ?thesis using assms by (auto simp: learn_record_def dest: gone_lets_go lets_go_book)
qed

lemma gone_learn:
  "book_inv (me_store m) \<Longrightarrow> gone a g m \<Longrightarrow> gone a g (fold (learn_record e sg ts) rs m)"
  by (induction rs arbitrary: m) (simp_all add: gone_learn_record)

lemma RemovePeer_gone:
  assumes "mesh_inv sg m" "g \<le> me_pathGen m + 1"
  shows "gone a g (RemovePeer a m)" "gone b g m \<Longrightarrow> gone b g (RemovePeer a m)"
proof -
  have book: "book_inv (me_store m)" using assms(1) by (simp add: mesh_inv_def)
  have store: "me_store (RemovePeer a m) = drop_everywhere a (me_store m)"
    and pins: "map_of (me_pins (RemovePeer a m)) x = (if x = a then None else map_of (me_pins m) x)"
    and pending: "set (me_pending (RemovePeer a m)) = set (me_pending m) - {a}"
    and removed: "map_of (me_removedAt (RemovePeer a m)) x = (if x = a then Some (me_pathGen m + 1) else map_of (me_removedAt m) x)" for x
    by (simp_all add: RemovePeer_def Let_def Forget_def with_store_def delete_conv' update_conv')
  show "gone a g (RemovePeer a m)"
    using holds_drop_everywhere(1) [OF book, of a a] assms(2) by (auto simp: gone_def unused_iff store pins pending removed)
  show "gone b g (RemovePeer a m)" if "gone b g m"
    using that holds_drop_everywhere(2) [OF book, of a b] assms(2) by (auto simp: gone_def unused_iff store pins pending removed)
qed

lemma gone_upsertSelf:
  assumes "gone a g m" "(host, port) \<noteq> a"
  shows "gone a g (upsertSelf host port h ts m)"
proof -
  let ?P = "PathOK (me_nodeID m) PathSelf host port ts (me_store m)"
  have "\<not> holds (snd (MarkHealthy (healthy_row (me_nodeID m) h) ts (snd ?P))) a n" for n
  proof
    assume "holds (snd (MarkHealthy (healthy_row (me_nodeID m) h) ts (snd ?P))) a n"
    then have "holds (snd ?P) a n" by (rule holds_MarkHealthy)
    then have "holds (me_store m) a n"
      using holds_PathOK [of _ _ _ _ _ _ a n] PathOK_error assms(2) by (metis (full_types))
    then show False using assms(1) by (simp add: gone_def unused_iff)
  qed
  then show ?thesis using assms(1) by (simp add: upsertSelf_def with_store_def gone_def unused_iff)
qed

lemma mesh_step_gone:
  assumes "mesh_inv sg m" "gone a g m" "begun_before a g ev"
  shows "gone a g (mesh_step sg ev m)"
proof -
  have book: "book_inv (me_store m)" using assms(1) by (simp add: mesh_inv_def)
  have gen: "g \<le> me_pathGen m + 1"
  proof -
    obtain g' where "map_of (me_removedAt m) a = Some g'" "g \<le> g'" using assms(2) by (auto simp: gone_def)
    then show ?thesis using assms(1) unfolding mesh_inv_def removals_ok_def by fastforce
  qed
  note go = gone_lets_go [OF assms(2)]
  show ?thesis
  proof (cases ev)
    case (MeAdd b since answer ts)
    show ?thesis
    proof (cases rule: AddPeer_mesh [of answer b since ts m])
      case waiting
      have "removed_since b since m" if "b = a"
        using assms(2,3) that by (auto simp: MeAdd gone_def removed_since_def)
      then show ?thesis using assms(2) unfolding MeAdd mesh_step.simps waiting(2)
        by (auto simp: gone_def unused_iff)
    next
      case (known n)
      then show ?thesis using gone_verifyPath [OF assms(2), of b since] assms(3) by (simp add: MeAdd)
    qed
  next
    case (MeTry b since answer ts)
    have verify: "gone a g (snd (verifyPath n PathInternet b since ts m))" for n
      using gone_verifyPath [OF assms(2), of b since] assms(3) by (simp add: MeTry)
    show ?thesis
    proof (cases rule: tryPending_mesh [of b since answer ts m])
      case (answered n xs)
      have "a \<notin> set xs" using answered(2) assms(2) by (auto simp: gone_def unused_iff)
      then show ?thesis using gone_pending [OF verify] by (simp add: MeTry answered(3))
    qed (simp_all add: MeTry verify assms(2))
  next
    case (MePath e ans ts pl)
    show ?thesis
    proof (rule poll_path_mesh [OF book, of e ans ts pl])
      assume "lets_go m (snd (poll_path e ans ts (pl, m)))"
      then show ?thesis by (simp add: MePath go)
    next
      fix p ps
      assume "pl_todo pl = p # ps"
        "snd (poll_path e ans ts (pl, m)) = snd (verifyPath (pl_node pl) (pa_Kind p) (path_addr p) (pl_since pl) ts m)"
      then show ?thesis using gone_verifyPath [OF assms(2), of "path_addr p" "pl_since pl"] assms(3) by (simp add: MePath)
    qed
  qed (use assms(2,3) in \<open>simp_all add: go lets_go_discovered [OF book] lets_go_poll_end [OF book] lets_go_CheckOrPin [OF book]
      lets_go_PruneStale [OF book] RemovePeer_gone(2) [OF assms(1) gen] gone_upsertSelf learnAddresses_def gone_learn [OF book]\<close>)
qed

lemma mesh_run_gone:
  assumes "mesh_inv sg m" "gone a g m" "list_all (begun_before a g) es" "mm.run_ok sg es m"
  shows "gone a g (fold (mesh_step sg) es m)"
  using assms
proof (induction es arbitrary: m)
  case (Cons ev es)
  then show ?case using mesh_step_inv [of sg m ev] mesh_step_gone [of sg m a g ev] by simp
qed simp

text \<open>C14: A removed internet path stays removed: after RemovePeer no run of the daemon, in which the
  address is verified only by probes that began before the removal, gives it a verified row, expects
  a node there or waits for it.\<close>

theorem removed_path_stays_removed:
  assumes "mm.run_ok sg es (mesh_start own)"
    and "m = RemovePeer a (fold (mesh_step sg) es (mesh_start own))"
    and "list_all (begun_before a (me_pathGen m)) fs" "mm.run_ok sg fs m"
  shows "unused a (fold (mesh_step sg) fs m)"
proof -
  let ?m = "fold (mesh_step sg) es (mesh_start own)"
  have inv: "mesh_inv sg ?m" using assms(1) by (rule mesh_run_inv)
  have "me_pathGen m = me_pathGen ?m + 1" by (simp add: assms(2) RemovePeer_def Let_def Forget_def with_store_def)
  then have "gone a (me_pathGen m) m" using RemovePeer_gone(1) [OF inv] by (simp add: assms(2))
  moreover have "mesh_inv sg m" unfolding assms(2) by (rule RemovePeer_inv [OF inv])
  ultimately have "gone a (me_pathGen m) (fold (mesh_step sg) fs m)" using assms(3,4) by (intro mesh_run_gone)
  then show ?thesis by (simp add: gone_def)
qed

text \<open>C15: In every run of the daemon the address book keeps its invariant, an address expected to be a
  node is held by no other node but the daemon itself, and a gossiped record held is another node's,
  signed by the key it names.\<close>

theorem mesh_keeps_its_promises:
  assumes "mm.run_ok sg es (mesh_start own)"
  shows "book_inv (me_store (fold (mesh_step sg) es (mesh_start own)))
    \<and> pins_agree (fold (mesh_step sg) es (mesh_start own)) \<and> records_ok sg (fold (mesh_step sg) es (mesh_start own))"
  using mesh_run_inv [OF assms] by (simp add: mesh_inv_def)

subsection \<open>Gossip\<close>

definition genuine :: "signatures \<Rightarrow> string \<Rightarrow> string \<Rightarrow> addr_record \<Rightarrow> bool" where
  "genuine sg own n r \<longleftrightarrow> ad_NodeID r = n \<and> n \<noteq> own \<and> verify_record sg r = None"

lemma applyRecord_records: "me_records (applyRecord e ts r m) = me_records m" "me_nodeID (applyRecord e ts r m) = me_nodeID m"
proof -
  have "me_records (fst (fold (apply_host e r ts) hs (m, hints))) = me_records m
      \<and> me_nodeID (fst (fold (apply_host e r ts) hs (m, hints))) = me_nodeID m" for hs m hints
    by (induction hs arbitrary: m hints) (simp_all add: apply_host_def with_store_def Let_def)
  from this [of "ad_Hosts r" m "[]"]
  show "me_records (applyRecord e ts r m) = me_records m" "me_nodeID (applyRecord e ts r m) = me_nodeID m"
    by (auto simp: applyRecord_def split: prod.split)
qed

lemma learn_record_held:
  "map_of (me_records (learn_record e sg ts r m)) n =
    (if genuine sg (me_nodeID m) n r \<and> fresh_record r m then Some r else map_of (me_records m) n)"
  by (auto simp: learn_record_def applyRecord_records update_conv' genuine_def)

lemma learn_record_own: "me_nodeID (learn_record e sg ts r m) = me_nodeID m"
  by (simp add: learn_record_def applyRecord_records)

text \<open>The record held is the newest genuine one among those in \<open>rs\<close>.\<close>

definition newest_of :: "addr_record option \<Rightarrow> addr_record list \<Rightarrow> bool" where
  "newest_of held rs \<longleftrightarrow> (case held of None \<Rightarrow> rs = [] | Some r \<Rightarrow> r \<in> set rs \<and> list_all (\<lambda>x. ad_Seq x \<le> ad_Seq r) rs)"

lemma learn_record_newest:
  assumes "newest_of (map_of (me_records m) n) (filter (genuine sg (me_nodeID m) n) seen)"
  shows "newest_of (map_of (me_records (learn_record e sg ts r m)) n) (filter (genuine sg (me_nodeID m) n) (seen @ [r]))"
proof (cases "genuine sg (me_nodeID m) n r")
  case True
  then have "ad_NodeID r = n" by (simp add: genuine_def)
  then show ?thesis using assms True unfolding learn_record_held
    by (auto simp: newest_of_def fresh_record_def list_all_iff filter_empty_conv split: option.splits)
qed (use assms in \<open>simp add: learn_record_held\<close>)

lemma learn_newest:
  assumes "newest_of (map_of (me_records m) n) (filter (genuine sg own n) seen)" "me_nodeID m = own"
  shows "newest_of (map_of (me_records (fold (learn_record e sg ts) rs m)) n) (filter (genuine sg own n) (seen @ rs))
    \<and> me_nodeID (fold (learn_record e sg ts) rs m) = own"
  using assms
proof (induction rs arbitrary: m seen)
  case (Cons r rs)
  then show ?case
    using learn_record_newest [of m n sg seen e ts r] Cons.IH [of "learn_record e sg ts r m" "seen @ [r]"]
    by (simp add: learn_record_own)
qed simp

lemma replies_newest:
  assumes "newest_of (map_of (me_records m) n) (filter (genuine sg own n) seen)" "me_nodeID m = own"
  shows "newest_of (map_of (me_records (fold (\<lambda>(e, ts, got). learnAddresses e sg ts got) gs m)) n)
    (filter (genuine sg own n) (seen @ concat (map (\<lambda>(e, ts, got). reply_records got) gs)))"
  using assms
proof (induction gs arbitrary: m seen)
  case (Cons x gs)
  obtain e ts got where x: "x = (e, ts, got)" by (rule prod_cases3)
  from learn_newest [OF Cons.prems, of e ts "reply_records got"]
  show ?case using Cons.IH [of "learnAddresses e sg ts got m" "seen @ reply_records got"]
    by (simp add: x learnAddresses_def)
qed simp

lemma find_update_same:
  assumes "\<And>x. Q (f x) = Q x" "\<And>x. h (f x) = h x"
  shows "map_option h (find Q (update_where P f xs)) = map_option h (find Q xs)"
  by (induction xs) (simp_all add: update_where_def assms)

lemma active_SeePath: "active_addr (snd (SeePath n k h port ts s)) x = active_addr s x"
proof (cases "checkPath n k h port")
  case None
  let ?Q = "\<lambda>p. pa_Node p = x \<and> pa_Active p"
  have new: "find ?Q (ps @ [new_path n k h port ts]) = find ?Q ps" for ps
    by (induction ps) (simp_all add: new_path_def)
  have "map_option addr (find ?Q (upsert (is_path n h port) (seen_path k ts) (new_path n k h port ts) ps)) = map_option addr (find ?Q ps)" for ps
    using find_update_same [of ?Q "seen_path k ts" addr "is_path n h port" ps] new [of ps]
    by (simp add: upsert_def seen_path_def addr_def)
  then show ?thesis by (simp add: SeePath_def None seePath_def active_addr_def)
qed (simp add: SeePath_def)

lemma active_applyRecord: "active_addr (me_store (applyRecord e ts r m)) x = active_addr (me_store m) x"
proof -
  have "active_addr (me_store (fst (fold (apply_host e r ts) hs (m, hints)))) x = active_addr (me_store m) x" for hs m hints
    by (induction hs arbitrary: m hints) (simp_all add: apply_host_def with_store_def active_SeePath Let_def)
  from this [of "ad_Hosts r" m "[]"] show ?thesis by (auto simp: applyRecord_def split: prod.split)
qed

lemma active_learn: "active_addr (me_store (fold (\<lambda>(e, ts, got). learnAddresses e sg ts got) gs m)) x = active_addr (me_store m) x"
proof -
  have "active_addr (me_store (fold (learn_record e sg ts) rs m)) x = active_addr (me_store m) x" for e ts rs m
    by (induction rs arbitrary: m) (simp_all add: learn_record_def active_applyRecord)
  then show ?thesis by (induction gs arbitrary: m) (auto simp: learnAddresses_def)
qed

text \<open>C16: However the members' replies arrive and whatever forged or old records they hold, of every
  other node the record held is one that node signed, with the highest sequence number of all those
  received; there is none only when none was received. No record makes a path active.\<close>

theorem gossip_holds_newest:
  assumes "me_records m = []"
    and "m' = fold (\<lambda>(e, ts, got). learnAddresses e sg ts got) gs m"
  shows "newest_of (map_of (me_records m') n)
      (filter (genuine sg (me_nodeID m) n) (concat (map (\<lambda>(e, ts, got). reply_records got) gs)))
    \<and> active_addr (me_store m') x = active_addr (me_store m) x"
  using replies_newest [of m n sg "me_nodeID m" "[]" gs] assms by (simp add: active_learn newest_of_def)

subsection \<open>The poll\<close>

text \<open>The path is probed, and the node itself answers there.\<close>

definition answers_as :: "net_env \<Rightarrow> (path_row \<Rightarrow> probe_answer) \<Rightarrow> string \<Rightarrow> path_row \<Rightarrow> bool" where
  "answers_as e answer node p \<longleftrightarrow> \<not> (pa_Kind p = PathGossip \<and> \<not> Probeable e (pa_Host p))
     \<and> (case answer p of Answers h \<Rightarrow> he_NodeID h = node | _ \<Rightarrow> False)"

definition checkable :: "poll \<Rightarrow> mesh \<Rightarrow> path_row \<Rightarrow> bool" where
  "checkable pl m p \<longleftrightarrow> checkPath (pl_node pl) (pa_Kind p) (pa_Host p) (pa_Port p) = None
     \<and> \<not> removed_since (path_addr p) (pl_since pl) m"

lemma verifyPath_ok:
  assumes "checkPath n k (fst a) (snd a) = None" "\<not> removed_since a since m"
  shows "fst (verifyPath n k a since ts m) = Inr True"
proof -
  have "fst (PathOK n k (fst a) (snd a) ts (me_store m)) = None" by (simp add: PathOK_def assms(1) Let_def)
  then show ?thesis by (cases "PathOK n k (fst a) (snd a) ts (me_store m)") (simp add: verifyPath_def assms(2))
qed

lemma verifyPath_removedAt: "me_removedAt (snd (verifyPath n k a since ts m)) = me_removedAt m"
  by (cases rule: verifyPath_cases [of n k a since ts m]) (simp_all add: Expect_def)

lemma on_answer_turn:
  assumes "checkable pl m p" "on_answer p (answer p) ts (pl, m) = (pl', m')"
    and "\<not> (pa_Kind p = PathGossip \<and> \<not> Probeable e (pa_Host p))"
  shows "pl_node pl' = pl_node pl" "pl_since pl' = pl_since pl" "pl_todo pl' = pl_todo pl" "me_removedAt m' = me_removedAt m"
    and "pl_verified pl' \<noteq> None \<longleftrightarrow> pl_verified pl \<noteq> None \<or> answers_as e answer (pl_node pl) p"
    and "pl_verified pl' = None \<Longrightarrow> st_nodes (me_store m') = st_nodes (me_store m)"
proof -
  let ?v = "verifyPath (pl_node pl) (pa_Kind p) (path_addr p) (pl_since pl) ts m"
  have ok: "fst ?v = Inr True" using assms(1) by (intro verifyPath_ok) (simp_all add: checkable_def path_addr_def)
  then obtain m2 where v: "?v = (Inr True, m2)" by (cases ?v) simp
  have removed: "me_removedAt m2 = me_removedAt m" using verifyPath_removedAt [of "pl_node pl" "pa_Kind p" "path_addr p" "pl_since pl" ts m] by (simp add: v)
  have "pl_node pl' = pl_node pl \<and> pl_since pl' = pl_since pl \<and> pl_todo pl' = pl_todo pl \<and> me_removedAt m' = me_removedAt m
    \<and> (pl_verified pl' \<noteq> None \<longleftrightarrow> pl_verified pl \<noteq> None \<or> answers_as e answer (pl_node pl) p)
    \<and> (pl_verified pl' = None \<longrightarrow> st_nodes (me_store m') = st_nodes (me_store m))"
  proof (cases "answer p")
    case (Answers h)
    show ?thesis
    proof (cases "he_NodeID h = pl_node pl")
      case True
      have run: "on_answer p (answer p) ts (pl, m) =
          (if pl_verified pl = None then pl\<lparr>pl_verified := Some h, pl_at := (path_addr p, pa_Kind p)\<rparr> else pl, m2)"
        by (simp add: on_answer_def Answers True Let_def v)
      show ?thesis using assms(2,3) removed unfolding run
        by (auto simp: answers_as_def Answers True split: if_splits)
    qed (use assms(2,3) in \<open>auto simp: on_answer_def Answers Let_def dropPath_def Forget_def with_store_def DropPath_def answers_as_def\<close>)
  qed (use assms(2,3) in \<open>auto simp: on_answer_def Let_def dropPath_def Forget_def with_store_def DropPath_def PathFailed_def answers_as_def split: if_splits\<close>)
  then show "pl_node pl' = pl_node pl" "pl_since pl' = pl_since pl" "pl_todo pl' = pl_todo pl" "me_removedAt m' = me_removedAt m"
    and "pl_verified pl' \<noteq> None \<longleftrightarrow> pl_verified pl \<noteq> None \<or> answers_as e answer (pl_node pl) p"
    and "pl_verified pl' = None \<Longrightarrow> st_nodes (me_store m') = st_nodes (me_store m)" by blast+
qed

lemma poll_idle: "pl_todo pl = [] \<Longrightarrow> (poll_turn e answer ts ^^ k) (pl, m) = (pl, m)"
  by (induction k) (simp_all add: poll_turn_def)

lemma poll_turns:
  assumes "(poll_turn e answer ts ^^ k) (pl, m) = (pl', m')" "length (pl_todo pl) \<le> k" "\<forall>p \<in> set (pl_todo pl). checkable pl m p"
  shows "pl_node pl' = pl_node pl
    \<and> (pl_verified pl' \<noteq> None \<longleftrightarrow> pl_verified pl \<noteq> None \<or> list_ex (answers_as e answer (pl_node pl)) (pl_todo pl))
    \<and> (pl_verified pl' = None \<longrightarrow> st_nodes (me_store m') = st_nodes (me_store m))"
  using assms
proof (induction k arbitrary: pl m)
  case (Suc k)
  show ?case
  proof (cases "pl_todo pl")
    case Nil
    then have "(pl', m') = (pl, m)" using Suc.prems(1) poll_idle [OF Nil] by metis
    then show ?thesis by (simp add: Nil)
  next
    case (Cons p ps)
    have run: "(poll_turn e answer ts ^^ k) (poll_path e (answer p) ts (pl, m)) = (pl', m')"
      using Suc.prems(1) poll_turn_def [of e answer ts "(pl, m)"] by (simp add: funpow_Suc_right Cons del: funpow.simps)
    consider (stop) "pl_verified pl \<noteq> None" "pa_Kind p \<noteq> PathLAN"
      | (skip) "\<not> (pl_verified pl \<noteq> None \<and> pa_Kind p \<noteq> PathLAN)" "pa_Kind p = PathGossip" "\<not> Probeable e (pa_Host p)"
      | (probe) "\<not> (pl_verified pl \<noteq> None \<and> pa_Kind p \<noteq> PathLAN)" "\<not> (pa_Kind p = PathGossip \<and> \<not> Probeable e (pa_Host p))"
      by blast
    then show ?thesis
    proof cases
      case stop
      then have "(pl', m') = (pl\<lparr>pl_todo := []\<rparr>, m)"
        using run poll_idle [of "pl\<lparr>pl_todo := []\<rparr>"] by (simp add: poll_path_def Cons)
      then show ?thesis using stop by simp
    next
      case skip
      have "poll_path e (answer p) ts (pl, m) = (pl\<lparr>pl_todo := ps\<rparr>, m)" using skip by (simp add: poll_path_def Cons)
      moreover have "\<not> answers_as e answer (pl_node pl) p" using skip by (simp add: answers_as_def)
      ultimately show ?thesis using Suc.IH [of "pl\<lparr>pl_todo := ps\<rparr>" m] run Suc.prems(2,3)
        by (simp add: Cons checkable_def)
    next
      case probe
      obtain pl1 m1 where turn: "on_answer p (answer p) ts (pl\<lparr>pl_todo := ps\<rparr>, m) = (pl1, m1)" by (rule prod.exhaust)
      have "checkable (pl\<lparr>pl_todo := ps\<rparr>) m p" using Suc.prems(3) by (simp add: Cons checkable_def)
      note ot = on_answer_turn [of "pl\<lparr>pl_todo := ps\<rparr>" m p answer ts pl1 m1 e, OF this turn probe(2)]
      have "poll_path e (answer p) ts (pl, m) = (pl1, m1)" using probe turn by (auto simp: poll_path_def Cons)
      then have run1: "(poll_turn e answer ts ^^ k) (pl1, m1) = (pl', m')" using run by simp
      have "\<forall>q \<in> set (pl_todo pl1). checkable pl1 m1 q"
        using Suc.prems(3) ot(1-4) by (simp add: Cons checkable_def removed_since_def)
      from Suc.IH [OF run1 _ this] show ?thesis using ot Suc.prems(2) by (auto simp: Cons)
    qed
  qed
qed simp

lemma dropWhile_find: "find P xs = Some p \<Longrightarrow> dropWhile (\<lambda>x. \<not> P x) xs = p # tl (dropWhile (\<lambda>x. \<not> P x) xs)"
  by (induction xs) (auto split: if_splits)

lemma set_candidateOrder: "set (candidateOrder ps) = {p \<in> set ps. pa_Kind p \<noteq> PathSelf}"
proof -
  let ?ps = "filter (\<lambda>p. pa_Kind p \<noteq> PathSelf) ps"
  have "set (candidateOrder ps) = set ?ps"
  proof (cases "find pa_Active ?ps")
    case (Some p)
    let ?t = "takeWhile (\<lambda>q. \<not> pa_Active q) ?ps" and ?d = "dropWhile (\<lambda>q. \<not> pa_Active q) ?ps"
    have "set ?ps = set (?t @ ?d)" by (simp only: takeWhile_dropWhile_id)
    also have "\<dots> = insert p (set ?t \<union> set (tl ?d))" by (subst dropWhile_find [OF Some]) simp
    finally show ?thesis unfolding candidateOrder_def Let_def Some by simp
  qed (simp add: candidateOrder_def)
  then show ?thesis by simp
qed

lemma shown_healthy:
  assumes "node \<noteq> []"
  shows "map_option (shown_state now) (find (\<lambda>n. no_ID n = node) (st_nodes (snd (MarkHealthy (healthy_row node h) ts s))))
    = Some (if staleAfter < now - ts then ''stale'' else ''healthy'')"
  using assms
  by (auto simp: MarkHealthy_def UpsertNode_def Let_def healthy_row_def find_upsert merge_node_def shown_state_def
        split: option.split)

lemma shown_unreachable:
  "map_option (shown_state now) (find (\<lambda>n. no_ID n = node) (st_nodes (MarkUnreachable node s)))
    = (if node \<in> node_ids s then Some ''unreachable'' else None)"
proof -
  have "map_option (shown_state now) (find (\<lambda>n. no_ID n = node) (update_where (\<lambda>m. no_ID m = node)
      (\<lambda>m. (lower_health m)\<lparr>no_State := ''unreachable'', no_ActiveJobs := 0, no_AvailableMem := 0\<rparr>) ns))
      = (if node \<in> set (map no_ID ns) then Some ''unreachable'' else None)" for ns
    by (induction ns) (auto simp: update_where_def lower_health_def shown_state_def)
  then show ?thesis by (simp add: MarkUnreachable_def node_ids_def)
qed

text \<open>C17: A poll calls a node healthy exactly when, of its addresses other than the daemon's own, one
  that is worth probing is answered by that very node. Then the node is served as healthy for 45
  seconds and as stale after; if not it is served as unreachable.\<close>

theorem poll_decides_what_is_served:
  assumes "mm.run_ok sg es (mesh_start own)" "m = fold (mesh_step sg) es (mesh_start own)" "node \<noteq> []"
    and "pollOne e answer ts node shown m = (up, m')"
  shows "up = list_ex (answers_as e answer node) (filter (\<lambda>p. pa_Kind p \<noteq> PathSelf) (Paths node (me_store m)))
    \<and> map_option (shown_state now) (find (\<lambda>n. no_ID n = node) (st_nodes (me_store m'))) =
        (if up then Some (if staleAfter < now - ts then ''stale'' else ''healthy'')
         else if node \<in> node_ids (me_store m) then Some ''unreachable'' else None)"
proof -
  let ?pl = "poll_begin node shown m"
  obtain pl1 m1 where run: "(poll_turn e answer ts ^^ length (pl_todo ?pl)) (?pl, m) = (pl1, m1)" by (rule prod.exhaust)
  have inv: "mesh_inv sg m" unfolding assms(2) by (rule mesh_run_inv [OF assms(1)])
  have "checkable ?pl m p" if "p \<in> set (pl_todo ?pl)" for p
  proof -
    have "p \<in> set (st_paths (me_store m))"
      using that by (auto simp: poll_begin_def set_candidateOrder set_Paths)
    then have "path_fields_ok (node_ids (me_store m)) p" using inv by (simp add: mesh_inv_def book_inv_def paths_inv_def)
    moreover have "\<not> removed_since (path_addr p) (me_pathGen m) m"
      using inv unfolding mesh_inv_def removals_ok_def removed_since_def by (cases "map_of (me_removedAt m) (path_addr p)") (auto simp del: split_paired_All simp: not_less)
    ultimately show ?thesis using assms(3)
      by (simp add: checkable_def poll_begin_def checkPath_None path_fields_ok_def)
  qed
  then have turns: "pl_node pl1 = node"
    "pl_verified pl1 \<noteq> None \<longleftrightarrow> list_ex (answers_as e answer node) (candidateOrder (Paths node (me_store m)))"
    "pl_verified pl1 = None \<longrightarrow> st_nodes (me_store m1) = st_nodes (me_store m)"
    using poll_turns [OF run] by (simp_all add: poll_begin_def)
  have "poll_end ts pl1 m1 = (up, m')" using assms(4) run by (simp add: pollOne_def Let_def)
  then have up: "up \<longleftrightarrow> pl_verified pl1 \<noteq> None" and m': "me_store m' = (case pl_verified pl1 of
      None \<Rightarrow> MarkUnreachable node (me_store m1)
    | Some h \<Rightarrow> snd (MarkHealthy (healthy_row node h) ts
        (me_store (fold (dropStranger node (fst (pl_at pl1))) (pl_unproven pl1) m1))))"
    by (auto simp: poll_end_def turns(1) with_store_def forgetStrangers_def split: option.splits)
  have cands: "list_ex P (candidateOrder ps) = list_ex P (filter (\<lambda>p. pa_Kind p \<noteq> PathSelf) ps)" for P ps
    by (auto simp: list_ex_iff set_candidateOrder)
  show ?thesis
  proof (cases "pl_verified pl1")
    case None
    then have "node_ids (me_store m1) = node_ids (me_store m)" using turns(3) by (simp add: node_ids_def)
    then show ?thesis using up turns(2) None by (simp add: m' shown_unreachable cands)
  next
    case (Some h)
    then show ?thesis using up turns(2) by (simp add: m' shown_healthy [OF assms(3)] cands)
  qed
qed

subsection \<open>What the code gives up\<close>

text \<open>
  \<open>forgetStrangers\<close> is there so that a node's refused candidates can be learnt again, but a record
  already held is not fresh: the same record teaches nothing a second time.
\<close>

lemma held_record_teaches_nothing:
  assumes "map_of (me_records m) (ad_NodeID r) = Some r"
  shows "learn_record e sg ts r (forgetStrangers n m) = forgetStrangers n m"
  using assms by (simp add: learn_record_def fresh_record_def forgetStrangers_def)

text \<open>
  A stale row of one node at an address where another is expected costs that other its pin: any
  certificate is then accepted there.
\<close>

lemma dropped_row_costs_the_pin:
  "map_of (me_pins (dropPath n a m)) a = None \<and> fst (CheckOrPin a (Some x) (dropPath n a m)) = None"
  by (simp add: dropPath_def Forget_def with_store_def delete_conv' CheckOrPin_def)

subsection \<open>Concrete inputs\<close>

definition ex_net :: net_env where
  "ex_net = \<lparr>ne_ip = (\<lambda>h. if h = [] then None else Some \<lparr>ip_loopback = False, ip_unspecified = False, ip_private = False,
     ip_linklocal = False\<rparr>), ne_networks = None, ne_hinter = False\<rparr>"

definition ex_sigs :: signatures where
  "ex_sigs = \<lparr>sg_node = Some, sg_ok = (\<lambda>pub r sig. sig = [1])\<rparr>"

definition ex_record :: "string \<Rightarrow> int \<Rightarrow> byte list \<Rightarrow> addr_record" where
  "ex_record n seq sig = \<lparr>ad_NodeID = n, ad_Seq = seq, ad_Hosts = [''h''], ad_DaemonPort = 7, ad_DirectPort = 0,
     ad_IntroducerPort = DefaultPort, ad_Pub = ''b'', ad_Sig = sig\<rparr>"

definition ex_health :: "string \<Rightarrow> health" where
  "ex_health n = \<lparr>he_NodeID = n, he_arch = [], he_hostname = [], he_ActiveJobs = 0, he_AvailableMem = 0, he_ReservedMem = 0,
     he_TotalMem = 0, he_CPUPercent = 0, he_CapsJSON = [], he_LoadJSON = []\<rparr>"

lemmas mesh_eval = mesh_start_def with_store_def discovered_def AddPeer_def verifyPath_def removed_since_def Expect_def

text \<open>A probe begun before a removal answers after it, and the address is also sighted again.\<close>

lemma removed_path_stays_removed_witness:
  "unused (''h'', 7) (fold (mesh_step ex_sigs)
     [MeAdd (''h'', 7) 0 (Some ''b'') 30, MeDiscovered ''b'' (''h'', 7) 40]
     (RemovePeer (''h'', 7) (fold (mesh_step ex_sigs) [MeAdd (''h'', 7) 0 (Some ''b'') 10] (mesh_start ''a''))))"
  by (rule removed_path_stays_removed [OF _ refl])
    (simp_all add: mesh_eval RemovePeer_def Let_def Forget_def mm.run_ok.simps split: option.split prod.split)

lemma mesh_keeps_its_promises_witness:
  "let m = fold (mesh_step ex_sigs) [MeAdd (''h'', 7) 0 (Some ''b'') 10, MeLearn ex_net 20 \<lparr>ar_Self = Some (ex_record ''b'' 5 [1]), ar_Peers = []\<rparr>]
     (mesh_start ''a'')
   in book_inv (me_store m) \<and> pins_agree m \<and> records_ok ex_sigs m"
  using mesh_keeps_its_promises [of ex_sigs "[MeAdd (''h'', 7) 0 (Some ''b'') 10,
      MeLearn ex_net 20 \<lparr>ar_Self = Some (ex_record ''b'' 5 [1]), ar_Peers = []\<rparr>]" "''a''"]
  by (simp add: Let_def mm.run_ok.simps)

text \<open>An old record, a forged one and a new one of \<open>b\<close>: the new one is held.\<close>

lemma gossip_holds_newest_witness:
  "let m = mesh_start ''a'';
       got = \<lparr>ar_Self = Some (ex_record ''b'' 5 [1]), ar_Peers = [ex_record ''b'' 9 [2], ex_record ''b'' 7 [1], ex_record ''b'' 6 [1]]\<rparr>
   in map_of (me_records (learnAddresses ex_net ex_sigs 20 got m)) ''b'' = Some (ex_record ''b'' 7 [1])"
proof -
  let ?got = "\<lparr>ar_Self = Some (ex_record ''b'' 5 [1]), ar_Peers = [ex_record ''b'' 9 [2], ex_record ''b'' 7 [1], ex_record ''b'' 6 [1]]\<rparr>"
  have start: "me_records (mesh_start ''a'') = []" by (simp add: mesh_start_def)
  have "newest_of (map_of (me_records (learnAddresses ex_net ex_sigs 20 ?got (mesh_start ''a''))) ''b'')
      [ex_record ''b'' 5 [1], ex_record ''b'' 7 [1], ex_record ''b'' 6 [1]]"
    using gossip_holds_newest [OF start refl, of ex_sigs "[(ex_net, 20, ?got)]" "''b''" "''b''"]
    by (simp add: reply_records_def genuine_def verify_record_def ex_sigs_def ex_record_def mesh_start_def)
  then show ?thesis
    by (auto simp: Let_def newest_of_def ex_record_def split: option.splits)
qed

lemma poll_decides_what_is_served_witness:
  "let m = fold (mesh_step ex_sigs) [MeDiscovered ''b'' (''g'', 7) 10, MeDiscovered ''b'' (''h'', 7) 10] (mesh_start ''a'')
   in fst (pollOne ex_net (\<lambda>p. if pa_Host p = ''h'' then Answers (ex_health ''b'') else AnotherKey) 20 ''b''
        ((''h'', 7), PathLAN) m)"
proof -
  let ?es = "[MeDiscovered ''b'' (''g'', 7) 10, MeDiscovered ''b'' (''h'', 7) 10]"
  let ?m = "fold (mesh_step ex_sigs) ?es (mesh_start ''a'')"
  let ?answer = "\<lambda>p. if pa_Host p = ''h'' then Answers (ex_health ''b'') else AnotherKey"
  obtain up m' where run: "pollOne ex_net ?answer 20 ''b'' ((''h'', 7), PathLAN) ?m = (up, m')" by (rule prod.exhaust)
  have ok: "mm.run_ok ex_sigs ?es (mesh_start ''a'')" by (simp add: mm.run_ok.simps)
  have "new_path ''b'' PathLAN ''h'' 7 10 \<in> set (filter (\<lambda>p. pa_Kind p \<noteq> PathSelf) (Paths ''b'' (me_store ?m)))"
    by (simp add: set_Paths mesh_eval SeePath_def checkPath_def seePath_def upsert_def update_where_def empty_store_def
        is_path_def new_path_def)
  then have "list_ex (answers_as ex_net ?answer ''b'') (filter (\<lambda>p. pa_Kind p \<noteq> PathSelf) (Paths ''b'' (me_store ?m)))"
    unfolding list_ex_iff by (rule bexI [rotated]) (simp add: answers_as_def new_path_def ex_health_def)
  then have up using poll_decides_what_is_served [OF ok refl _ run] by simp
  then show ?thesis by (simp only: Let_def run fst_conv)
qed

end
