(* ===== verification/Float16.thy ===== *)
theory Float16
  imports Prelude
begin

text \<open>
  The binary16 codec of the gradient exchange: \<open>float16ToFloat32\<close> and \<open>float32ToFloat16\<close> of
  \<^verbatim>\<open>src/internal/daemonapi/ddpreduce.go\<close>, on the bit patterns as words. A \<open>float32\<close> is the 32-bit
  word its \<open>Float32bits\<close> is. The specification is the value a pattern denotes, as a natural
  number of units: \<open>2 ^ -24\<close> for binary16, \<open>2 ^ -149\<close> for binary32.
\<close>

unbundle bit_operations_syntax

subsection \<open>The code\<close>

text \<open>The loop that normalises a subnormal; the first argument bounds its rounds, ten are enough.\<close>

fun normalise :: "nat \<Rightarrow> 32 word \<Rightarrow> 32 word \<Rightarrow> 32 word \<times> 32 word" where
  "normalise 0 mant e = (mant, e)"
| "normalise (Suc n) mant e =
     (if mant AND 0x0400 = 0 then normalise n (push_bit 1 mant) (e - 1) else (mant, e))"

definition float16ToFloat32 :: "16 word \<Rightarrow> 32 word" where
  "float16ToFloat32 h =
     (let sign = push_bit 16 (ucast (h AND 0x8000) :: 32 word);
          ex = drop_bit 10 h AND 0x1f;
          mant = (ucast (h AND 0x03ff) :: 32 word)
      in if ex = 0 then
           (if mant = 0 then sign
            else let (mant, e) = normalise 10 mant (127 - 15 + 1)
                 in sign OR push_bit 23 e OR push_bit 13 (mant AND 0x03ff))
         else if ex = 0x1f then sign OR push_bit 23 0xff OR push_bit 13 mant
         else sign OR push_bit 23 (ucast ex - 15 + 127) OR push_bit 13 mant)"

text \<open>\<open>exp\<close> is an \<open>int32\<close> between -127 and 128, here an integer; the branches are those of the switch.\<close>

definition float32ToFloat16 :: "32 word \<Rightarrow> 16 word" where
  "float32ToFloat16 b =
     (let sign = (ucast (drop_bit 16 b) :: 16 word) AND 0x8000;
          ex = uint (drop_bit 23 b AND 0xff) - 127;
          mant = b AND 0x007fffff
      in if drop_bit 23 b AND 0xff = 0xff then
           (if mant \<noteq> 0
            then let m = (ucast (drop_bit 13 mant) :: 16 word);
                     m = (if m = 0 then 1 else m)
                 in sign OR 0x7c00 OR m
            else sign OR 0x7c00)
         else if 15 < ex then sign OR 0x7c00
         else if ex < -25 then sign
         else if ex < -14 then
           (let mant = mant OR 0x00800000;
                shift = nat (- ex - 1);
                q = drop_bit shift mant;
                remd = mant AND (push_bit shift 1 - 1);
                half = push_bit (shift - 1) 1;
                q = (if half < remd \<or> (remd = half \<and> q AND 1 = 1) then q + 1 else q)
            in sign OR ucast q)
         else
           (let lsb = drop_bit 13 mant AND 1;
                rounded = mant + 0x0fff + lsb
            in if rounded AND 0x00800000 \<noteq> 0
               then (if 15 < ex + 1 then sign OR 0x7c00
                     else sign OR push_bit 10 (word_of_int (ex + 1 + 15)))
               else sign OR push_bit 10 (word_of_int (ex + 15)) OR ucast (drop_bit 13 rounded)))"

subsection \<open>What the patterns denote\<close>

text \<open>The magnitude of a pattern without its sign bit, in units of the least subnormal.\<close>

definition units16 :: "nat \<Rightarrow> nat" where
  "units16 k = (if k div 1024 = 0 then k mod 1024 else (1024 + k mod 1024) * 2 ^ (k div 1024 - 1))"

definition units32 :: "nat \<Rightarrow> nat" where
  "units32 k = (if k div 8388608 = 0 then k mod 8388608
     else (8388608 + k mod 8388608) * 2 ^ (k div 8388608 - 1))"

subsection \<open>Words as numbers\<close>

lemma and_mask_mod: "(x::nat) AND (2 ^ n - 1) = x mod 2 ^ n"
  using take_bit_eq_mask [of n x] by (simp add: mask_eq_exp_minus_1 take_bit_eq_mod)

lemma or_disjoint:
  assumes "(x::nat) mod 2 ^ n = 0" "y < 2 ^ n"
  shows "x OR y = x + y"
proof -
  have x: "push_bit n (x div 2 ^ n) = x"
    using assms(1) by (simp add: push_bit_eq_mult mod_0_imp_dvd)
  have y: "take_bit n y = y" using assms(2) by (simp add: take_bit_nat_eq_self_iff)
  have "push_bit n (x div 2 ^ n) AND take_bit n y = 0"
    by (rule bit_eqI) (auto simp: bit_simps)
  then have "x AND y = 0" unfolding x y .
  then show ?thesis by (simp add: disjunctive_add_eq_or)
qed

lemma and_bit: "(x::nat) AND 2 ^ n = 2 ^ n * (x div 2 ^ n mod 2)"
proof -
  have "x AND 2 ^ n = (if bit x n then 2 ^ n else 0)"
    by (rule bit_eqI) (auto simp: bit_simps)
  then show ?thesis by (auto simp: bit_iff_odd odd_iff_mod_2_eq_one)
qed

definition enc_parts :: "nat \<Rightarrow> nat \<Rightarrow> nat" where
  "enc_parts e m =
     (if e = 255 then (if m = 0 then 31744 else 31744 + max 1 (m div 8192))
      else if 142 < e then 31744
      else if e < 102 then 0
      else if e < 113 then
        (let q = (m + 8388608) div 2 ^ (126 - e); r = (m + 8388608) mod 2 ^ (126 - e); half = 2 ^ (125 - e)
         in if half < r \<or> (r = half \<and> odd q) then q + 1 else q)
      else
        (let r = m + 4095 + m div 8192 mod 2
         in if 8388608 \<le> r then (if e = 142 then 31744 else (e - 111) * 1024)
            else (e - 112) * 1024 + r div 8192))"

definition enc_mag :: "nat \<Rightarrow> nat" where
  "enc_mag k = enc_parts (k div 8388608) (k mod 8388608)"

lemma and_masks: "(x::nat) AND 255 = x mod 256" "(x::nat) AND 8388607 = x mod 8388608"
  "(x::nat) AND 1 = x mod 2" "(x::nat) AND 31 = x mod 32" "(x::nat) AND 1023 = x mod 1024"
  using and_mask_mod [of x 8] apply simp
  using and_mask_mod [of x 23] apply simp
  using and_mask_mod [of x 1] apply simp
  using and_mask_mod [of x 5] apply simp
  using and_mask_mod [of x 10] apply simp
  done

lemma and_single: "(x::nat) AND 32768 = 32768 * (x div 32768 mod 2)"
  "(x::nat) AND 8388608 = 8388608 * (x div 8388608 mod 2)" "(x::nat) AND 1024 = 1024 * (x div 1024 mod 2)"
  using and_bit [of x 15] and_bit [of x 23] and_bit [of x 10] by simp_all

lemmas and_nums = and_masks and_single

lemmas nat_shifts = take_bit_eq_mod [where ?'a = nat] push_bit_eq_mult [where ?'a = nat] drop_bit_eq_div [where ?'a = nat]

lemma unat32: "unat (b::32 word) < 4294967296"
  using unsigned_less [of b, where ?'a = nat] by simp

lemmas unat_bits = unsigned_and_eq unsigned_or_eq unsigned_push_bit_eq unat_drop_bit_eq unsigned_ucast_eq
  and_nums nat_shifts unsigned_of_int

lemma div_mod_eq: "(x::nat) mod (a * b) div a = x div a mod b"
  by (metis mod_mult2_eq mult.commute add.commute div_mult_self2 mod_div_trivial add.left_neutral mult_eq_0_iff div_by_0 mod_0 mod_by_0) 

lemma sign16: "unat ((ucast (drop_bit 16 b) :: 16 word) AND 0x8000) = 32768 * (unat (b::32 word) div 2147483648)"
proof -
  have "unat b div 65536 < 65536" "unat b div 2147483648 < 2"
    using unat32 [of b] by (simp_all add: less_mult_imp_div_less)
  then show ?thesis by (simp add: unat_bits div_mult2_eq [symmetric])
qed

lemma parts: "unat (drop_bit 23 (b :: 32 word) AND 0xff) = (unat b mod 2147483648) div 8388608"
   "unat (b AND 0x007fffff) = (unat b mod 2147483648) mod 8388608"
  using div_mod_eq [of "unat b" 8388608 256] by (simp_all add: unat_bits mod_mod_cancel)

lemma sign_or: "unat (x :: 16 word) < 32768 \<Longrightarrow> unat (((ucast (drop_bit 16 b) :: 16 word) AND 0x8000) OR x)
    = 32768 * (unat (b::32 word) div 2147483648) + unat x"
  unfolding unsigned_or_eq sign16 by (rule or_disjoint [of _ 15]) simp_all

lemma low_mask: "push_bit n 1 - 1 = (mask n :: 32 word)"
  by (simp add: mask_eq_exp_minus_1 push_bit_eq_mult)

lemma unat_encode:
  fixes b :: "32 word"
  shows "unat (float32ToFloat16 b) = 32768 * (unat b div 2147483648) + enc_mag (unat b mod 2147483648)"
proof -
  define e where "e = (unat b mod 2147483648) div 8388608"
  define m where "m = (unat b mod 2147483648) mod 8388608"
  let ?sign = "(ucast (drop_bit 16 b) :: 16 word) AND 0x8000"
  have e: "unat (drop_bit 23 b AND 0xff) = e" and m: "unat (b AND 0x007fffff) = m"
    unfolding e_def m_def by (rule parts)+
  have e': "uint (drop_bit 23 b AND 0xff) = int e" using e by (simp add: uint_nat)
  have mlt: "m < 8388608" and elt: "e < 256" by (auto simp: m_def e_def less_mult_imp_div_less)
  have k: "enc_mag (unat b mod 2147483648) = enc_parts e m" by (simp add: enc_mag_def e_def m_def)
  have e255: "drop_bit 23 b AND 0xff = 0xff \<longleftrightarrow> e = 255" using e by (auto simp: word_unat_eq_iff)
  consider "e = 255" | "e \<noteq> 255" "142 < e" | "e < 102" | "102 \<le> e" "e < 113" | "113 \<le> e" "e \<le> 142" by linarith
  then show ?thesis
  proof cases
    case 1
    let ?m = "ucast (drop_bit 13 (b AND 0x007fffff)) :: 16 word"
    have um: "unat ?m = m div 8192"
      unfolding unsigned_ucast_eq unat_drop_bit_eq m using mlt by (simp add: nat_shifts)
    have m0: "b AND 0x007fffff = 0 \<longleftrightarrow> m = 0" using m by (simp add: word_unat_eq_iff)
    have um0: "?m = 0 \<longleftrightarrow> m div 8192 = 0" using um by (simp add: word_unat_eq_iff)
    have "unat (0x7c00 OR x :: 16 word) = 31744 + unat x" if "unat x < 1024" for x
      using that or_disjoint [of 31744 10 "unat x"] by (simp add: unsigned_or_eq)
    note or = this
    have "unat (float32ToFloat16 b) = 32768 * (unat b div 2147483648) + (if m = 0 then 31744 else 31744 + max 1 (m div 8192))"
      using 1 mlt um um0 or [of 1] or [of ?m]
      by (simp add: float32ToFloat16_def Let_def e255 m0 or.assoc sign_or)
    then show ?thesis using 1 mlt by (simp add: k enc_parts_def)
  next
    case 2
    then show ?thesis using mlt by (simp add: float32ToFloat16_def e255 e' k enc_parts_def sign_or Let_def)
  next
    case 3
    then show ?thesis using mlt by (simp add: float32ToFloat16_def e255 e' k enc_parts_def sign16 Let_def)
  next
    case 4
    define M where "M = (b AND 0x007fffff) OR (0x00800000 :: 32 word)"
    define sh where "sh = 126 - e"
    have uM: "unat M = m + 8388608"
    proof -
      have "unat (0x00800000 :: 32 word) = 8388608" by simp
      then show ?thesis
        using or_disjoint [of 8388608 23 m] mlt unfolding M_def unsigned_or_eq m
        by (simp add: or.commute add.commute)
    qed
    have sh: "nat (- (int e - 127) - 1) = sh" "sh \<le> 24" "14 \<le> sh" "125 - e = sh - 1" using 4 by (simp_all add: sh_def)
    have nsh: "nat (126 - int e) = sh" using 4 by (simp add: sh_def nat_diff_distrib')
    define q where "q = drop_bit sh M"
    have uq: "unat q = (m + 8388608) div 2 ^ sh" by (simp add: q_def unat_drop_bit_eq uM nat_shifts)
    define r where "r = M AND (push_bit sh 1 - 1)"
    have ur: "unat r = (m + 8388608) mod 2 ^ sh"
      unfolding r_def low_mask take_bit_eq_mask [symmetric] by (simp add: unsigned_take_bit_eq uM nat_shifts)
    have uh: "unat (push_bit (sh - 1) 1 :: 32 word) = 2 ^ (sh - 1)"
    proof -
      have "(2::nat) ^ (sh - 1) < 2 ^ 32" using sh by (intro power_strict_increasing) auto
      then show ?thesis unfolding unsigned_push_bit_eq by (simp add: nat_shifts)
    qed
    have up: "push_bit (sh - 1) 1 < r \<or> (r = push_bit (sh - 1) 1 \<and> q AND 1 = 1)
      \<longleftrightarrow> 2 ^ (sh - 1) < unat r \<or> (unat r = 2 ^ (sh - 1) \<and> odd (unat q))"
      using uh by (simp add: word_less_nat_alt word_unat_eq_iff unsigned_and_eq and_nums odd_iff_mod_2_eq_one)
    have small: "unat q \<le> 1024"
    proof -
      have "(2::nat) ^ 14 \<le> 2 ^ sh" using sh(3) by (intro power_increasing) auto
      then have "(m + 8388608) div 2 ^ sh \<le> (m + 8388608) div 16384" by (intro div_le_mono2) auto
      then show ?thesis using uq mlt by simp
    qed
    define q' where "q' = (if push_bit (sh - 1) 1 < r \<or> (r = push_bit (sh - 1) 1 \<and> q AND 1 = 1) then q + 1 else q)"
    have uq': "unat q' = (if 2 ^ (sh - 1) < unat r \<or> (unat r = 2 ^ (sh - 1) \<and> odd (unat q)) then unat q + 1 else unat q)"
      using small unfolding q'_def up by (simp add: unat_word_ariths)
    have "float32ToFloat16 b = ?sign OR ucast q'"
      using 4 by (simp add: float32ToFloat16_def e255 e' Let_def nsh M_def q_def r_def q'_def cong: if_cong)
    moreover have "unat (ucast q' :: 16 word) = unat q'"
      using small uq' by (simp add: unsigned_ucast_eq nat_shifts)
    ultimately have "unat (float32ToFloat16 b) = 32768 * (unat b div 2147483648) + unat q'"
      using small uq' by (simp add: sign_or)
    then show ?thesis using 4 mlt by (simp add: k enc_parts_def Let_def uq' ur uq sh(4) sh_def [symmetric])
  next
    case 5
    define rd where "rd = (b AND 0x007fffff) + 0x0fff + (drop_bit 13 (b AND 0x007fffff) AND 1)"
    have lsb: "unat (drop_bit 13 (b AND 0x007fffff) AND 1) = m div 8192 mod 2"
    proof -
      have "unat (drop_bit 13 x AND 1) = unat x div 8192 mod 2" for x :: "32 word"
        by (simp add: unsigned_and_eq unat_drop_bit_eq nat_shifts and_nums)
      then show ?thesis by (simp only: m)
    qed
    have urd: "unat rd = m + 4095 + m div 8192 mod 2"
    proof -
      have "(4095 :: nat) < 2 ^ 32" "unat (0x0fff :: 32 word) = 4095" by simp_all
      moreover have "m + 4095 + m div 8192 mod 2 < 2 ^ 32" using mlt mod_less_divisor [of 2 "m div 8192"] by simp
      ultimately show ?thesis unfolding rd_def unat_word_ariths m lsb by simp
    qed
    have bnd: "m + 4095 + m div 8192 mod 2 < 16777216" using mlt mod_less_divisor [of 2 "m div 8192"] by linarith
    have carry: "rd AND 0x00800000 \<noteq> 0 \<longleftrightarrow> 8388608 \<le> m + 4095 + m div 8192 mod 2"
    proof -
      have "unat (rd AND 0x00800000) = 8388608 * (unat rd div 8388608 mod 2)" by (simp add: unsigned_and_eq and_nums)
      moreover have "unat rd div 8388608 < 2" using bnd urd by simp
      then have "unat rd div 8388608 mod 2 = unat rd div 8388608" by simp
      ultimately have "unat (rd AND 0x00800000) = 8388608 * (unat rd div 8388608)" by simp
      then show ?thesis using urd by (simp add: word_unat_eq_iff div_eq_0_iff not_less)
    qed
    have ex: "unat (push_bit 10 (word_of_int (int e - int c)) :: 16 word) = (e - c) * 1024"
      if "c \<le> e" "e - c < 32" for c
    proof -
      have "unat (word_of_int (int e - int c) :: 16 word) = e - c"
      proof -
        have "int e - int c = int (e - c)" using that by simp
        then have "(word_of_int (int e - int c) :: 16 word) = of_nat (e - c)" by (simp only: of_int_of_nat_eq)
        moreover have "unat (of_nat n :: 16 word) = n" if "n < 32" for n
          using that by (simp add: unsigned_of_nat nat_shifts)
        ultimately show ?thesis using that(2) by (simp only:)
      qed
      then show ?thesis using that by (simp add: unsigned_push_bit_eq nat_shifts)
    qed
    have c: "\<not> (drop_bit 23 b AND 0xff = 0xff)" "\<not> 15 < int e - 127" "\<not> int e - 127 < - 25" "\<not> int e - 127 < - 14"
      using 5 e255 by simp_all
    have enc: "float32ToFloat16 b = (if rd AND 0x00800000 \<noteq> 0
        then (if 15 < int e - 127 + 1 then ?sign OR 0x7c00 else ?sign OR push_bit 10 (word_of_int (int e - 127 + 1 + 15)))
        else ?sign OR push_bit 10 (word_of_int (int e - 127 + 15)) OR ucast (drop_bit 13 rd))"
      unfolding float32ToFloat16_def Let_def e' rd_def [symmetric] by (simp only: c if_False)
    have i: "int e - 127 + 1 + 15 = int e - int 111" "int e - 127 + 15 = int e - int 112" "15 < int e - 127 + 1 \<longleftrightarrow> e = 142"
      using 5 by auto
    show ?thesis
    proof (cases "8388608 \<le> m + 4095 + m div 8192 mod 2")
      case True
      have "float32ToFloat16 b = (if e = 142 then ?sign OR 0x7c00 else ?sign OR push_bit 10 (word_of_int (int e - int 111)))"
        unfolding enc i carry using True by (simp only: if_True)
      moreover have "enc_parts e m = (if e = 142 then 31744 else (e - 111) * 1024)"
        using 5 True by (simp add: enc_parts_def Let_def)
      ultimately show ?thesis using 5 ex [of 111] by (simp add: k sign_or)
    next
      case False
      let ?x = "push_bit 10 (word_of_int (int e - int 112)) OR ucast (drop_bit 13 rd) :: 16 word"
      have "unat rd div 8192 < 1024" using False urd by (simp add: less_mult_imp_div_less)
      then have "unat (ucast (drop_bit 13 rd) :: 16 word) = unat rd div 8192"
        by (simp add: unsigned_ucast_eq unat_drop_bit_eq nat_shifts)
      then have "unat ?x = (e - 112) * 1024 + unat rd div 8192"
        using 5 ex [of 112] or_disjoint [of "(e - 112) * 1024" 10 "unat rd div 8192"] \<open>unat rd div 8192 < 1024\<close>
        by (simp add: unsigned_or_eq)
      moreover have "float32ToFloat16 b = ?sign OR ?x"
        unfolding enc i carry using False by (simp only: if_False or.assoc)
      moreover have "enc_parts e m = (e - 112) * 1024 + unat rd div 8192"
        using 5 False by (simp add: enc_parts_def Let_def urd)
      ultimately show ?thesis using 5 \<open>unat rd div 8192 < 1024\<close> by (simp add: k sign_or)
    qed
  qed
qed

subsection \<open>Rounding\<close>

lemma units16_Suc: "units16 (Suc k) = (if k div 1024 = 0 then Suc k else units16 k + 2 ^ (k div 1024 - 1))"
proof (cases "k mod 1024 = 1023")
  case True
  then have k: "k = 1024 * (k div 1024) + 1023" using div_mult_mod_eq [of k 1024] by simp
  have "Suc k div 1024 = Suc (k div 1024)" "Suc k mod 1024 = 0" using True by (simp_all add: div_Suc mod_Suc)
  then show ?thesis using k True by (cases "k div 1024") (simp_all add: units16_def)
next
  case False
  then have "Suc k div 1024 = k div 1024" "Suc k mod 1024 = Suc (k mod 1024)" by (simp_all add: div_Suc mod_Suc)
  then show ?thesis using div_mult_mod_eq [of k 1024] by (simp add: units16_def algebra_simps)
qed

lemma units16_step: "units16 k < units16 (Suc k)"
  using div_mult_mod_eq [of k 1024] by (simp add: units16_Suc) (simp add: units16_def)

lemma units16_less: "j < k \<Longrightarrow> units16 j < units16 k"
  by (rule lift_Suc_mono_less [of units16]) (auto intro: units16_step)

lemma units16_mono: "j \<le> k \<Longrightarrow> units16 j \<le> units16 k"
  using units16_less [of j k] by (cases "j = k") auto

lemma units16_inj: "units16 j = units16 k \<Longrightarrow> j = k"
  using units16_less [of j k] units16_less [of k j] by (metis less_irrefl nat_neq_iff)

definition round_up :: "nat \<Rightarrow> nat \<Rightarrow> nat \<Rightarrow> bool" where
  "round_up K t H \<longleftrightarrow> H < t \<or> (t = H \<and> odd K)"

lemma enc_normal:
  assumes "113 \<le> e" "e \<le> 142" "m < 8388608"
  shows "enc_parts e m = (e - 112) * 1024 + m div 8192 + (if round_up (m div 8192) (m mod 8192) 4096 then 1 else 0)"
proof -
  define d where "d = m div 8192"
  define t where "t = m mod 8192"
  have m: "m = 8192 * d + t" and "t < 8192" and "d < 1024" using assms(3) by (auto simp: d_def t_def less_mult_imp_div_less)
  define u where "u = t + 4095 + d mod 2"
  have up: "round_up d t 4096 \<longleftrightarrow> 8192 \<le> u"
    unfolding round_up_def u_def odd_iff_mod_2_eq_one using mod_less_divisor [of 2 d] by linarith
  have ult: "u < 16384" using \<open>t < 8192\<close> mod_less_divisor [of 2 d] unfolding u_def by linarith
  have r: "m + 4095 + d mod 2 = 8192 * d + u" unfolding u_def m by simp
  have r8: "(8192 * d + u) div 8192 = d + (if 8192 \<le> u then 1 else 0)" using ult by auto
  have carry: "8388608 \<le> 8192 * d + u \<longleftrightarrow> d = 1023 \<and> 8192 \<le> u" using ult \<open>d < 1024\<close> by auto
  show ?thesis
    unfolding enc_parts_def Let_def r d_def [symmetric] t_def [symmetric] up carry r8
    using assms(1,2) \<open>d < 1024\<close> by auto
qed

text \<open>Units of binary32 in one of binary16.\<close>

definition unit16 :: nat where
  "unit16 = 2 ^ 125"

lemma unit16_pos [simp]: "0 < unit16"
  by (simp add: unit16_def)

lemma bracket:
  assumes "k div 8388608 \<le> 142"
  shows "\<exists>K A t H. units16 K * unit16 = A \<and> units16 (Suc K) * unit16 = A + 2 * H \<and> units32 k = A + t
    \<and> t < 2 * H \<and> K < 31744 \<and> enc_mag k = (if round_up K t H then Suc K else K)"
proof -
  define e where "e = k div 8388608"
  define m where "m = k mod 8388608"
  have mlt: "m < 8388608" by (simp add: m_def)
  have enc: "enc_mag k = enc_parts e m" by (simp add: enc_mag_def e_def m_def)
  have U: "units32 k = (if e = 0 then m else (8388608 + m) * 2 ^ (e - 1))" by (simp add: units32_def e_def m_def)
  consider "e < 102" | "102 \<le> e" "e < 113" | "113 \<le> e" "e \<le> 142" using assms by (fold e_def) linarith
  then show ?thesis
  proof cases
    case 1
    have "units32 k < 2 ^ 124"
    proof (cases "e = 0")
      case False
      have "(8388608 + m) * 2 ^ (e - 1) < 2 ^ 24 * 2 ^ (e - 1)" using mlt by simp
      also have "\<dots> \<le> 2 ^ 24 * 2 ^ 100" using 1 by (intro mult_le_mono2 power_increasing) auto
      finally show ?thesis using False by (simp add: U)
    qed (use mlt U in simp)
    then show ?thesis using 1
      by (intro exI [of _ 0] exI [of _ "units32 k"] exI [of _ "2 ^ 124"])
        (simp add: enc enc_parts_def round_up_def units16_def unit16_def)
  next
    case 2
    define sh where "sh = 126 - e"
    define q where "q = (m + 8388608) div 2 ^ sh"
    define r where "r = (m + 8388608) mod 2 ^ sh"
    have M: "m + 8388608 = q * 2 ^ sh + r" and rlt: "r < 2 ^ sh" by (simp_all only: q_def r_def div_mult_mod_eq mod_less_divisor zero_less_power zero_less_numeral)
    have qlt: "q < 1024"
    proof -
      have "(2::nat) ^ 14 \<le> 2 ^ sh" using 2 by (intro power_increasing) (auto simp: sh_def)
      then have "q \<le> (m + 8388608) div 16384" unfolding q_def by (intro div_le_mono2) auto
      then show ?thesis using mlt by simp
    qed
    have s1: "(2::nat) ^ sh * 2 ^ (e - 1) = unit16" 
    proof -
      have "sh + (e - 1) = 125" using 2 by (simp add: sh_def)
      then show ?thesis by (simp only: power_add [symmetric] unit16_def)
    qed
    have s2: "(2::nat) ^ sh = 2 * 2 ^ (sh - 1)" using 2 by (simp add: sh_def flip: power_Suc)
    have "units32 k = q * unit16 + r * 2 ^ (e - 1)"
      using 2 M s1 by (simp add: U add.commute distrib_right mult.assoc)
    moreover have "units16 q = q" "units16 (Suc q) = Suc q" using qlt by (simp_all add: units16_Suc) (simp add: units16_def)
    moreover have H: "2 * (2 ^ (sh - 1) * 2 ^ (e - 1)) = unit16" using s1 unfolding s2 by (simp only: mult.assoc)
    moreover have "r * 2 ^ (e - 1) < 2 * (2 ^ (sh - 1) * 2 ^ (e - 1))"
      unfolding H s1 [symmetric] using rlt by simp
    moreover have "enc_mag k = (if round_up q (r * 2 ^ (e - 1)) (2 ^ (sh - 1) * 2 ^ (e - 1)) then Suc q else q)"
      using 2 by (simp add: enc enc_parts_def Let_def round_up_def q_def r_def sh_def)
    moreover have "Suc q * unit16 = q * unit16 + 2 * (2 ^ (sh - 1) * 2 ^ (e - 1))" unfolding H by simp
    moreover have "q < 31744" using qlt by simp
    ultimately show ?thesis by metis
  next
    case 3
    define d where "d = m div 8192"
    define t where "t = m mod 8192"
    have m: "m = 8192 * d + t" and tlt: "t < 8192" and dlt: "d < 1024" using mlt by (auto simp: d_def t_def less_mult_imp_div_less)
    define K where "K = (e - 112) * 1024 + d"
    define S where "S = (2::nat) ^ (e - 1)"
    have s: "2 ^ (e - 113) * unit16 = 8192 * S"
    proof -
      have "(2::nat) ^ (e - 113) * unit16 = 2 ^ 13 * 2 ^ (e - 1)" 
      proof -
        have "e - 113 + 125 = 13 + (e - 1)" using 3 by simp
        then show ?thesis by (simp only: power_add [symmetric] unit16_def)
      qed
      then show ?thesis by (simp add: S_def)
    qed
    have Kd: "K div 1024 = e - 112" "K mod 1024 = d" using dlt by (simp_all add: K_def)
    have uK: "units16 K = (1024 + d) * 2 ^ (e - 113)" using 3 by (simp add: units16_def Kd)
    have uSK: "units16 (Suc K) = units16 K + 2 ^ (e - 113)" using 3 by (simp add: units16_Suc Kd)
    have "units32 k = units16 K * unit16 + t * S"
    proof -
      have "units16 K * unit16 = (1024 + d) * (8192 * S)" unfolding uK mult.assoc s ..
      moreover have "units32 k = (8388608 + (8192 * d + t)) * S" using 3 by (simp add: U m S_def)
      ultimately show ?thesis by (simp add: algebra_simps)
    qed
    moreover have "units16 (Suc K) * unit16 = units16 K * unit16 + 2 * (4096 * S)" using s by (simp add: uSK distrib_right)
    moreover have "t * S < 2 * (4096 * S)" using tlt by (simp add: S_def)
    moreover have "enc_mag k = (if round_up K (t * S) (4096 * S) then Suc K else K)"
      using 3 mlt by (simp add: enc enc_normal round_up_def K_def d_def [symmetric] t_def [symmetric] S_def)
    moreover have "K < 31744" using 3 dlt by (simp add: K_def)
    ultimately show ?thesis by blast
  qed
qed


text \<open>The distance of a value from a half pattern; 31744, the pattern of infinity, stands for the
  value the next normal would have, as IEEE 754 rounds before it overflows.\<close>

definition dist16 :: "nat \<Rightarrow> nat \<Rightarrow> int" where
  "dist16 u j = \<bar>int (units16 j * unit16) - int u\<bar>"

lemma nearest_of_bracket:
  assumes A: "units16 K * unit16 = A" and B: "units16 (Suc K) * unit16 = A + 2 * H" and t: "t < 2 * H"
    and r: "r = (if round_up K t H then Suc K else K)"
  shows "dist16 (A + t) r \<le> dist16 (A + t) j"
    and "j \<noteq> r \<Longrightarrow> dist16 (A + t) j = dist16 (A + t) r \<Longrightarrow> even r"
proof -
  have dK: "dist16 (A + t) K = int t" by (simp add: dist16_def A)
  have dS: "dist16 (A + t) (Suc K) = 2 * int H - int t" using t unfolding dist16_def B by simp
  have low: "dist16 (A + t) j > int t" if "j < K" for j
  proof -
    have "units16 j * unit16 < A" using units16_less [OF that] A by (simp flip: A)
    then show ?thesis by (simp add: dist16_def del: of_nat_mult)
  qed
  have high: "dist16 (A + t) j > 2 * int H - int t" if "Suc K < j" for j
  proof -
    have "A + 2 * H < units16 j * unit16" using units16_less [OF that] by (simp flip: B)
    then show ?thesis using t by (simp add: dist16_def del: of_nat_mult)
  qed
  have cases: "j < K \<or> j = K \<or> j = Suc K \<or> Suc K < j" by linarith
  show "dist16 (A + t) r \<le> dist16 (A + t) j"
    using cases low [of j] high [of j] dK dS t r by (auto simp: round_up_def)
  show "even r" if "j \<noteq> r" "dist16 (A + t) j = dist16 (A + t) r"
    using that cases low [of j] high [of j] dK dS t r by (auto simp: round_up_def)
qed

lemma dist16_below: "(a::nat) \<le> b \<Longrightarrow> b \<le> u \<Longrightarrow> \<bar>int b - int u\<bar> \<le> \<bar>int a - int u\<bar>"
  by simp

lemma enc_nearest:
  assumes "k < 2139095040"
  shows "enc_mag k \<le> 31744 \<and> (j \<le> 31744 \<longrightarrow> dist16 (units32 k) (enc_mag k) \<le> dist16 (units32 k) j)
    \<and> (j \<le> 31744 \<and> j \<noteq> enc_mag k \<and> dist16 (units32 k) j = dist16 (units32 k) (enc_mag k) \<longrightarrow> even (enc_mag k))"
proof (cases "k div 8388608 \<le> 142")
  case True
  then obtain K A t H where *: "units16 K * unit16 = A" "units16 (Suc K) * unit16 = A + 2 * H"
    "units32 k = A + t" "t < 2 * H" "K < 31744" "enc_mag k = (if round_up K t H then Suc K else K)"
    using bracket by metis
  show ?thesis
    using nearest_of_bracket [OF *(1,2,4,6), of j] *(5) unfolding *(3) by (auto simp: *(6))
next
  case False
  have e: "k div 8388608 < 255" using assms by (simp add: less_mult_imp_div_less)
  then have enc: "enc_mag k = 31744" using False by (simp add: enc_mag_def enc_parts_def)
  have "(2::nat) ^ 142 \<le> 2 ^ (k div 8388608 - 1)" using False by (intro power_increasing) auto
  then have "8388608 * 2 ^ 142 \<le> (8388608 + k mod 8388608) * 2 ^ (k div 8388608 - 1)"
    by (intro mult_le_mono) auto
  then have "8388608 * 2 ^ 142 \<le> units32 k" using False by (simp add: units32_def)
  moreover have top: "units16 31744 * unit16 = 8388608 * 2 ^ 142" by (simp add: units16_def unit16_def)
  moreover have "units16 j * unit16 \<le> units16 31744 * unit16" if "j \<le> 31744" using units16_mono [OF that] by simp
  ultimately have "dist16 (units32 k) 31744 \<le> dist16 (units32 k) j" if "j \<le> 31744"
    unfolding dist16_def using that by (intro dist16_below) auto
  then show ?thesis by (simp add: enc)
qed

subsection \<open>Decoding\<close>

lemma parts16: "unat (h AND 0x03ff) = unat (h::16 word) mod 1024"
  "unat (drop_bit 10 h AND 0x1f) = unat h mod 32768 div 1024"
  "unat (push_bit 16 (ucast (h AND 0x8000) :: 32 word)) = 2147483648 * (unat h div 32768)"
proof -
  have "unat h < 65536" using unsigned_less [of h, where ?'a = nat] by simp
  then have "unat h div 32768 < 2" by simp
  then show "unat (push_bit 16 (ucast (h AND 0x8000) :: 32 word)) = 2147483648 * (unat h div 32768)"
    unfolding unsigned_push_bit_eq unsigned_ucast_eq unsigned_and_eq by (simp add: nat_shifts and_nums)
  show "unat (drop_bit 10 h AND 0x1f) = unat h mod 32768 div 1024"
    using div_mod_eq [of "unat h" 1024 32] by (simp add: unat_bits)
qed (simp add: unat_bits)

lemma decode_or:
  fixes e m :: "32 word"
  assumes "unat e < 256" "unat m < 1024"
  shows "unat (push_bit 16 (ucast (h AND 0x8000)) OR push_bit 23 e OR push_bit 13 m)
    = 2147483648 * (unat (h::16 word) div 32768) + unat e * 8388608 + unat m * 8192"
proof -
  have "unat (push_bit 23 e) = unat e * 8388608" "unat (push_bit 13 m) = unat m * 8192"
    using assms unfolding unsigned_push_bit_eq by (simp_all add: nat_shifts)
  moreover have "(unat e * 8388608) OR (unat m * 8192) = unat e * 8388608 + unat m * 8192"
    using assms by (intro or_disjoint [of _ 23]) auto
  moreover have "(2147483648 * (unat h div 32768)) OR (unat e * 8388608 + unat m * 8192)
      = 2147483648 * (unat h div 32768) + (unat e * 8388608 + unat m * 8192)"
    using assms by (intro or_disjoint [of _ 31]) auto
  ultimately show ?thesis unfolding unsigned_or_eq parts16(3) by simp
qed

lemma normalise_spec:
  assumes "normalise n mant e = (mant', e')" "0 < unat mant" "unat mant < 2048" "1024 \<le> unat mant * 2 ^ n" "n < unat e"
  shows "1024 \<le> unat mant' \<and> unat mant' < 2048 \<and> 0 < unat e' \<and> unat e' \<le> unat e
    \<and> unat mant' * 2 ^ (unat e') = unat mant * 2 ^ (unat e)"
  using assms
proof (induction n arbitrary: mant e)
  case (Suc n)
  have bit: "mant AND 0x0400 = 0 \<longleftrightarrow> unat mant < 1024"
  proof -
    have "unat (mant AND 0x0400) = 1024 * (unat mant div 1024 mod 2)" by (simp add: unsigned_and_eq and_nums)
    moreover have "unat mant div 1024 < 2" using Suc.prems(3) by simp
    ultimately show ?thesis by (simp add: word_unat_eq_iff) linarith
  qed
  show ?case
  proof (cases "unat mant < 1024")
    case True
    have p: "unat (push_bit 1 mant) = 2 * unat mant"
      using True unfolding unsigned_push_bit_eq by (simp add: nat_shifts)
    have e: "unat (e - 1) = unat e - 1"
      using Suc.prems(5) by (simp add: unat_sub_if' unat_minus_one)
    have "normalise n (push_bit 1 mant) (e - 1) = (mant', e')" using Suc.prems(1) bit True by simp
    from Suc.IH [OF this, unfolded p e] have "1024 \<le> unat mant' \<and> unat mant' < 2048 \<and> 0 < unat e' \<and> unat e' \<le> unat e - 1
        \<and> unat mant' * 2 ^ (unat e') = 2 * unat mant * 2 ^ (unat e - 1)"
      using Suc.prems(2-5) True by simp
    moreover have "2 * unat mant * 2 ^ (unat e - 1) = unat mant * 2 ^ (unat e)"
      using Suc.prems(5) by (cases "unat e") simp_all
    ultimately show ?thesis by linarith
  next
    case False
    then show ?thesis using Suc.prems bit by simp
  qed
qed simp

lemma decode_finite:
  fixes h :: "16 word"
  assumes "unat h mod 32768 < 31744"
  shows "\<exists>k. unat (float16ToFloat32 h) = 2147483648 * (unat h div 32768) + k \<and> k < 2139095040
    \<and> units32 k = units16 (unat h mod 32768) * unit16"
proof -
  define m where "m = unat h mod 1024"
  define e where "e = unat h mod 32768 div 1024"
  have m: "unat (ucast (h AND 0x03ff) :: 32 word) = m" "m < 1024"
    unfolding unsigned_ucast_eq parts16 by (simp_all add: nat_shifts m_def)
  have e: "unat (drop_bit 10 h AND 0x1f) = e" unfolding e_def by (rule parts16)
  have elt: "e < 31" using assms by (simp add: e_def less_mult_imp_div_less)
  have ex: "drop_bit 10 h AND 0x1f = 0 \<longleftrightarrow> e = 0" "drop_bit 10 h AND 0x1f = 0x1f \<longleftrightarrow> False"
    using e elt by (auto simp: word_unat_eq_iff)
  have mm: "unat h mod 32768 mod 1024 = m" by (simp add: m_def mod_mod_cancel)
  have u16: "units16 (unat h mod 32768) = (if e = 0 then m else (1024 + m) * 2 ^ (e - 1))"
    unfolding units16_def mm e_def [symmetric] ..
  have units: "units32 ((c + 1) * 8388608 + x * 8192) = (1024 + x) * 2 ^ (c + 13)" if "x < 1024" for c x
  proof -
    have "((c + 1) * 8388608 + x * 8192) div 8388608 = c + 1" "((c + 1) * 8388608 + x * 8192) mod 8388608 = x * 8192"
      using that by (simp_all only: mod_mult_self3) simp_all
    then show ?thesis unfolding units32_def by (simp add: power_add)
  qed
  show ?thesis
  proof (cases "e = 0")
    case False
    let ?e = "ucast (drop_bit 10 h AND 0x1f) - 15 + 127 :: 32 word"
    have ue: "unat ?e = e + 112"
    proof -
      have "unat (ucast (drop_bit 10 h AND 0x1f) :: 32 word) = e"
        unfolding unsigned_ucast_eq e using elt by (simp add: nat_shifts)
      then have "(ucast (drop_bit 10 h AND 0x1f) :: 32 word) = of_nat e" 
        using elt by (simp add: word_unat_eq_iff unsigned_of_nat nat_shifts)
      then have "?e = of_nat (e + 112)" by simp
      then show ?thesis using elt unfolding \<open>?e = of_nat (e + 112)\<close> unsigned_of_nat by (simp add: nat_shifts)
    qed
    have "float16ToFloat32 h = push_bit 16 (ucast (h AND 0x8000)) OR push_bit 23 ?e OR push_bit 13 (ucast (h AND 0x03ff))"
      unfolding float16ToFloat32_def Let_def ex using False by (simp only: if_False)
    then have "unat (float16ToFloat32 h) = 2147483648 * (unat h div 32768) + ((e + 112) * 8388608 + m * 8192)"
      using decode_or [of ?e "ucast (h AND 0x03ff)" h] elt m by (simp only: ue m(1))
    moreover have "units32 ((e + 112) * 8388608 + m * 8192) = units16 (unat h mod 32768) * unit16"
    proof -
      have "e + 111 + 13 = (e - 1) + 125" using False by simp
      then have "(2::nat) ^ (e + 111 + 13) = 2 ^ (e - 1) * unit16" by (simp only: power_add unit16_def)
      moreover have "(e + 111 + 1) * 8388608 = (e + 112) * 8388608" by simp
      ultimately show ?thesis using units [OF m(2), of "e + 111"] False
        by (simp only: u16 if_False mult.assoc)
    qed
    ultimately show ?thesis using elt m(2) by (intro exI [of _ "(e + 112) * 8388608 + m * 8192"]) simp
  next
    case True
    note e0 = True
    have m0: "(ucast (h AND 0x03ff) :: 32 word) = 0 \<longleftrightarrow> m = 0" using m(1) by (simp add: word_unat_eq_iff)
    show ?thesis
    proof (cases "m = 0")
      case True
      have "float16ToFloat32 h = push_bit 16 (ucast (h AND 0x8000))"
        unfolding float16ToFloat32_def Let_def ex m0 using e0 True by (simp only: simp_thms if_True)
      then show ?thesis using e0 True by (intro exI [of _ 0]) (simp add: parts16(3) u16 units32_def del: push_bit_of_0)
    next
      case False
      obtain mant' e' where n: "normalise 10 (ucast (h AND 0x03ff)) (127 - 15 + 1) = (mant', e')" by fastforce
      have "unat (127 - 15 + 1 :: 32 word) = 113" by simp
      with normalise_spec [OF n] have spec: "1024 \<le> unat mant'" "unat mant' < 2048" "0 < unat e'" "unat e' \<le> 113"
        "unat mant' * 2 ^ (unat e') = m * 2 ^ 113"
        using m False by simp_all
      have um: "unat (mant' AND 0x03ff) = unat mant' - 1024"
      proof -
        have "unat (mant' AND 0x03ff) = unat mant' mod 1024" by (simp add: unsigned_and_eq and_nums)
        also have "\<dots> = (unat mant' - 1024) mod 1024" using spec(1) by (simp add: le_mod_geq)
        finally show ?thesis using spec(2) by simp
      qed
      have "float16ToFloat32 h = push_bit 16 (ucast (h AND 0x8000)) OR push_bit 23 e' OR push_bit 13 (mant' AND 0x03ff)"
        unfolding float16ToFloat32_def Let_def ex m0 n using e0 False by (simp only: simp_thms if_True if_False case_prod_conv)
      then have "unat (float16ToFloat32 h) = 2147483648 * (unat h div 32768) + (unat e' * 8388608 + (unat mant' - 1024) * 8192)"
        using decode_or [of e' "mant' AND 0x03ff" h] spec by (simp only: um)
      moreover have "units32 (unat e' * 8388608 + (unat mant' - 1024) * 8192) = units16 (unat h mod 32768) * unit16"
      proof -
        have "unat mant' * 2 ^ (unat e' - 1 + 13) = unat mant' * 2 ^ (unat e') * 2 ^ 12"
          using spec(3) by (cases "unat e'") (simp_all add: power_add)
        also have "\<dots> = m * unit16" by (simp add: spec(5) unit16_def)
        finally have "unat mant' * 2 ^ (unat e' - 1 + 13) = m * unit16" .
        then show ?thesis using units [of "unat mant' - 1024" "unat e' - 1"] spec(1-3) by (simp add: u16 e0)
      qed
      ultimately show ?thesis using spec
        by (intro exI [of _ "unat e' * 8388608 + (unat mant' - 1024) * 8192"]) simp
    qed
  qed
qed

lemma decode_special:
  fixes h :: "16 word"
  assumes "31744 \<le> unat h mod 32768"
  shows "unat (float16ToFloat32 h) = 2147483648 * (unat h div 32768) + 2139095040 + (unat h mod 32768 - 31744) * 8192"
proof -
  have e: "unat (drop_bit 10 h AND 0x1f) = 31" using assms unfolding parts16 by linarith
  then have ex: "drop_bit 10 h AND 0x1f = 0 \<longleftrightarrow> False" "drop_bit 10 h AND 0x1f = 0x1f \<longleftrightarrow> True"
    by (auto simp: word_unat_eq_iff)
  have m: "unat (ucast (h AND 0x03ff) :: 32 word) = unat h mod 1024"
    unfolding unsigned_ucast_eq parts16 by (simp add: nat_shifts)
  have mm: "unat h mod 32768 - 31744 = unat h mod 1024" 
  proof -
    have "unat h mod 32768 div 1024 = 31" using e unfolding parts16 .
    then have "unat h mod 32768 = 31744 + unat h mod 32768 mod 1024"
      using div_mult_mod_eq [of "unat h mod 32768" 1024] by simp
    then show ?thesis by (simp add: mod_mod_cancel)
  qed
  have "float16ToFloat32 h = push_bit 16 (ucast (h AND 0x8000)) OR push_bit 23 0xff OR push_bit 13 (ucast (h AND 0x03ff))"
    unfolding float16ToFloat32_def Let_def ex by (simp only: if_True if_False)
  then show ?thesis
    using decode_or [of "0xff" "ucast (h AND 0x03ff)" h] unfolding m mm by simp
qed


lemma mag_split:
  "(2147483648 * s + k) mod 2147483648 = k" "(2147483648 * s + k) div 2147483648 = s" if "k < 2147483648" for s k :: nat
  using that by simp_all

subsection \<open>Properties\<close>

text \<open>C38: Encoding rounds to nearest, ties to even: of every finite float32 the result has the sign
  and, among all half patterns, the magnitude closest to it, an even one when two are equally
  close; beyond the largest half, the pattern of infinity.\<close>

theorem float32ToFloat16_rounds_to_nearest_even:
  assumes "unat b mod 2147483648 < 2139095040" "j \<le> 31744"
  shows "unat (float32ToFloat16 b) div 32768 = unat b div 2147483648
    \<and> unat (float32ToFloat16 b) mod 32768 \<le> 31744
    \<and> dist16 (units32 (unat b mod 2147483648)) (unat (float32ToFloat16 b) mod 32768)
        \<le> dist16 (units32 (unat b mod 2147483648)) j
    \<and> (dist16 (units32 (unat b mod 2147483648)) (unat (float32ToFloat16 b) mod 32768)
        = dist16 (units32 (unat b mod 2147483648)) j \<and> j \<noteq> unat (float32ToFloat16 b) mod 32768
        \<longrightarrow> even (unat (float32ToFloat16 b)))"
proof -
  let ?k = "unat b mod 2147483648" and ?s = "unat b div 2147483648"
  note near = enc_nearest [OF assms(1), of j]
  have "enc_mag ?k \<le> 31744" using near by blast
  then have mod: "unat (float32ToFloat16 b) mod 32768 = enc_mag ?k" and dv: "unat (float32ToFloat16 b) div 32768 = ?s"
    unfolding unat_encode by simp_all
  have ev: "even (unat (float32ToFloat16 b)) \<longleftrightarrow> even (enc_mag ?k)" unfolding unat_encode by simp
  show ?thesis unfolding mod dv ev using near assms(2) by auto
qed

lemma float32ToFloat16_rounds_to_nearest_even_witness:
  "float32ToFloat16 0x3f801000 = 0x3c00 \<and> even (unat (float32ToFloat16 0x3f801000))
   \<and> unat (float32ToFloat16 0x3f801000) mod 32768 \<le> 31744"
proof -
  have v: "float32ToFloat16 0x3f801000 = 0x3c00" by (simp add: float32ToFloat16_def Let_def)
  then show ?thesis
    using float32ToFloat16_rounds_to_nearest_even [of "0x3f801000" 15361]
    by (simp add: dist16_def units16_def units32_def)
qed

text \<open>Decoding is exact: a finite half keeps its sign and its value.\<close>

theorem float16ToFloat32_exact:
  assumes "unat h mod 32768 < 31744"
  shows "unat (float16ToFloat32 h) div 2147483648 = unat h div 32768
    \<and> unat (float16ToFloat32 h) mod 2147483648 < 2139095040
    \<and> units32 (unat (float16ToFloat32 h) mod 2147483648) = units16 (unat h mod 32768) * unit16"
proof -
  obtain k where k: "unat (float16ToFloat32 h) = 2147483648 * (unat h div 32768) + k" "k < 2139095040"
    "units32 k = units16 (unat h mod 32768) * unit16"
    using decode_finite [OF assms] by blast
  have "k < 2147483648" using k(2) by simp
  then show ?thesis unfolding k(1) mag_split [OF \<open>k < 2147483648\<close>] using k(2,3) by simp
qed

lemma float16ToFloat32_exact_witness:
  "float16ToFloat32 0xbc01 = 0xbf802000
   \<and> units32 (unat (float16ToFloat32 0xbc01) mod 2147483648) = units16 15361 * unit16"
proof -
  have v: "float16ToFloat32 0xbc01 = 0xbf802000"
    by (simp add: float16ToFloat32_def Let_def)
  then show ?thesis using float16ToFloat32_exact [of "0xbc01"] by simp
qed

text \<open>Every half survives the round trip through float32, infinities and NaN payloads included.\<close>

theorem float16_roundtrip: "float32ToFloat16 (float16ToFloat32 h) = h"
proof -
  have split: "32768 * (unat h div 32768) + unat h mod 32768 = unat h" by simp
  have "unat (float32ToFloat16 (float16ToFloat32 h)) = unat h"
  proof (cases "unat h mod 32768 < 31744")
    case True
    obtain k where k: "unat (float16ToFloat32 h) = 2147483648 * (unat h div 32768) + k" "k < 2139095040"
      "units32 k = units16 (unat h mod 32768) * unit16"
      using decode_finite [OF True] by blast
    have "dist16 (units32 k) (enc_mag k) \<le> dist16 (units32 k) (unat h mod 32768)"
      using enc_nearest [OF k(2), of "unat h mod 32768"] True by auto
    then have "units16 (enc_mag k) * unit16 = units16 (unat h mod 32768) * unit16"
      by (simp add: dist16_def k(3) del: of_nat_mult)
    then have "units16 (enc_mag k) = units16 (unat h mod 32768)" using unit16_pos by simp
    then have "enc_mag k = unat h mod 32768" by (rule units16_inj)
    moreover have "k < 2147483648" using k(2) by simp
    ultimately show ?thesis unfolding unat_encode k(1) using mag_split [OF \<open>k < 2147483648\<close>] split by simp
  next
    case False
    define x where "x = unat h mod 32768 - 31744"
    have x: "unat h mod 32768 = 31744 + x" "x < 1024" using False by (auto simp: x_def)
    have dec: "unat (float16ToFloat32 h) = 2147483648 * (unat h div 32768) + (2139095040 + x * 8192)"
      using decode_special [of h] False by (simp add: x_def)
    have "2139095040 + x * 8192 < 2147483648" using x(2) by simp
    note sp = mag_split [OF this]
    have "(2139095040 + x * 8192) div 8388608 = 255" "(2139095040 + x * 8192) mod 8388608 = x * 8192"
      using x(2) mod_mult_self3 [of 255 8388608 "x * 8192"] by simp_all
    then have "enc_mag (2139095040 + x * 8192) = 31744 + x"
      by (simp add: enc_mag_def enc_parts_def max_def)
    then show ?thesis unfolding unat_encode dec sp using split x(1) by simp
  qed
  then show ?thesis by (simp add: word_unat_eq_iff)
qed

end
