(* ===== verification/DdpReduce.thy ===== *)
theory DdpReduce
  imports Float16
begin

text \<open>
  The averaging of gradients on the lead daemon, \<^verbatim>\<open>src/internal/daemonapi/ddpreduce.go\<close>: one
  accumulator folds in every rank's payload, and the int8 reply is quantised with a scale per
  tensor and error feedback. float64 arithmetic is exact; an Inf or NaN in a payload has no value
  here and is reported as \<open>NotFinite\<close>, where the code would carry it on. The replies at
  float16, float32 and float64 width, which round a float64 to the wire width, are not modelled.
\<close>

subsection \<open>Element values\<close>

datatype ddpDType = ddpF16 | ddpF32 | ddpF64 | ddpI8 | OtherDType string

fun dtype_size :: "ddpDType \<Rightarrow> nat" where
  "dtype_size ddpF16 = 2"
| "dtype_size ddpF32 = 4"
| "dtype_size ddpF64 = 8"
| "dtype_size ddpI8 = 1"
| "dtype_size (OtherDType _) = 0"

fun le_nat :: "byte list \<Rightarrow> nat" where
  "le_nat [] = 0"
| "le_nat (b # bs) = unat b + 256 * le_nat bs"

text \<open>The value of a binary32 and of a binary64 pattern, \<open>None\<close> for Inf and NaN.\<close>

definition value32 :: "32 word \<Rightarrow> f64 option" where
  "value32 b =
     (let k = unat b mod 2 ^ 31
      in if 2139095040 \<le> k then None
         else Some ((if unat b div 2 ^ 31 = 1 then -1 else 1) * of_nat (units32 k) / 2 ^ 149))"

definition value64 :: "nat \<Rightarrow> f64 option" where
  "value64 n =
     (let e = n div 2 ^ 52 mod 2048; m = n mod 2 ^ 52;
          s = (if n div 2 ^ 63 = 1 then -1 else 1)
      in if e = 2047 then None
         else if e = 0 then Some (s * of_nat m / 2 ^ 1074)
         else Some (s * of_nat ((2 ^ 52 + m) * 2 ^ (e - 1)) / 2 ^ 1074))"

definition element :: "ddpDType \<Rightarrow> f64 \<Rightarrow> byte list \<Rightarrow> nat \<Rightarrow> f64 option" where
  "element dtype scale payload i =
     (case dtype of
        ddpF16 \<Rightarrow> value32 (float16ToFloat32 (of_nat (le_nat (take 2 (drop (i * 2) payload)))))
      | ddpF32 \<Rightarrow> value32 (of_nat (le_nat (take 4 (drop (i * 4) payload))))
      | ddpF64 \<Rightarrow> value64 (le_nat (take 8 (drop (i * 8) payload)))
      | ddpI8 \<Rightarrow> Some (of_int (sint (payload ! i)) * scale)
      | OtherDType _ \<Rightarrow> None)"

subsection \<open>The accumulator\<close>

record ddpAccumulator =
  ac_dtype :: ddpDType
  ac_segments :: "nat list"
  ac_sum :: "f64 list"
  ac_count :: int
  ac_weight :: f64
  ac_sumSq :: f64

datatype ddp_error =
    SegmentNotPositive int | SegmentsTotal int nat | ScaleCount nat nat | PayloadSize nat nat
  | NonPositiveScale nat | UnsupportedDType | NoRanks | NotFinite

definition newDDPAccumulator :: "ddpDType \<Rightarrow> nat \<Rightarrow> ddpAccumulator" where
  "newDDPAccumulator dtype n =
     \<lparr>ac_dtype = dtype, ac_segments = [], ac_sum = replicate n 0, ac_count = 0, ac_weight = 0, ac_sumSq = 0\<rparr>"

definition withSegments :: "int list \<Rightarrow> ddpAccumulator \<Rightarrow> ddp_error + ddpAccumulator" where
  "withSegments counts a =
     (case find (\<lambda>c. c \<le> 0) counts of
        Some c \<Rightarrow> Inl (SegmentNotPositive c)
      | None \<Rightarrow> if sum_list counts \<noteq> int (length (ac_sum a))
                then Inl (SegmentsTotal (sum_list counts) (length (ac_sum a)))
                else Inr (a\<lparr>ac_segments := map nat counts\<rparr>))"

definition sampleWeight :: "f64 \<Rightarrow> f64" where
  "sampleWeight w = (if w < 0 then 0 else if w = 0 then 1 else w)"

definition fold_in :: "f64 list \<Rightarrow> f64 \<Rightarrow> ddpAccumulator \<Rightarrow> ddpAccumulator" where
  "fold_in vs weight a =
     a\<lparr>ac_sum := map2 (\<lambda>s v. s + v * weight) (ac_sum a) vs,
       ac_sumSq := ac_sumSq a + foldl (\<lambda>sq v. sq + v * v) 0 vs * weight,
       ac_count := ac_count a + 1,
       ac_weight := ac_weight a + weight\<rparr>"

definition addFlat :: "byte list \<Rightarrow> f64 \<Rightarrow> f64 \<Rightarrow> ddpAccumulator \<Rightarrow> ddp_error + ddpAccumulator" where
  "addFlat payload scale w a =
     (let n = length (ac_sum a); want = n * dtype_size (ac_dtype a)
      in if length payload \<noteq> want then Inl (PayloadSize (length payload) want)
         else case ac_dtype a of
             OtherDType _ \<Rightarrow> Inl UnsupportedDType
           | dtype \<Rightarrow>
               if dtype = ddpI8 \<and> scale \<le> 0 then Inl (NonPositiveScale 0)
               else case those (map (element dtype scale payload) [0..<n]) of
                   None \<Rightarrow> Inl NotFinite
                 | Some vs \<Rightarrow> Inr (fold_in vs (sampleWeight w) a))"

text \<open>The values of the segments, each with its scale; an error at the first scale not above 0.\<close>

fun segment_values :: "nat \<Rightarrow> (nat \<times> f64) list \<Rightarrow> byte list \<Rightarrow> ddp_error + f64 list" where
  "segment_values i [] payload = Inr []"
| "segment_values i ((n, sc) # segs) payload =
     (if sc \<le> 0 then Inl (NonPositiveScale i)
      else case segment_values (Suc i) segs (drop n payload) of
          Inl e \<Rightarrow> Inl e
        | Inr vs \<Rightarrow> Inr (map (\<lambda>b. of_int (sint b) * sc) (take n payload) @ vs))"

definition addSegmented :: "byte list \<Rightarrow> f64 list \<Rightarrow> f64 \<Rightarrow> ddpAccumulator \<Rightarrow> ddp_error + ddpAccumulator" where
  "addSegmented payload scales w a =
     (if ac_dtype a \<noteq> ddpI8 \<or> length (ac_segments a) \<le> 1 then addFlat payload (hd scales) w a
      else if length scales \<noteq> length (ac_segments a)
      then Inl (ScaleCount (length scales) (length (ac_segments a)))
      else if length payload \<noteq> length (ac_sum a)
      then Inl (PayloadSize (length payload) (length (ac_sum a)))
      else case segment_values 0 (zip (ac_segments a) scales) payload of
          Inl e \<Rightarrow> Inl e
        | Inr vs \<Rightarrow> Inr (fold_in vs (sampleWeight w) a))"

definition add_payload :: "byte list \<Rightarrow> f64 \<Rightarrow> ddpAccumulator \<Rightarrow> ddp_error + ddpAccumulator" where
  "add_payload payload scale a = addSegmented payload [scale] 1 a"

subsection \<open>Drift\<close>

definition inv_weight :: "ddpAccumulator \<Rightarrow> f64" where
  "inv_weight a = (if 0 < ac_weight a then 1 / ac_weight a else 0)"

definition driftCap :: f64 where
  "driftCap = 10 ^ 9"

text \<open>The square of what \<open>drift\<close> returns: the code takes the root of \<open>spread / m2\<close>.\<close>

definition drift_squared :: "ddpAccumulator \<Rightarrow> f64 option" where
  "drift_squared a =
     (if ac_count a < 2 \<or> ac_weight a \<le> 0 then None
      else let inv = inv_weight a;
               m2 = foldl (\<lambda>m2 s. m2 + (s * inv) * (s * inv)) 0 (ac_sum a);
               spread = max (ac_sumSq a * inv - m2) 0
      in if m2 \<le> 0 then Some (if 0 < spread then driftCap * driftCap else 0)
         else Some (min (spread / m2) (driftCap * driftCap)))"

subsection \<open>The quantised mean\<close>

text \<open>\<open>math.Round\<close>: to nearest, halves away from zero.\<close>

definition go_round :: "f64 \<Rightarrow> int" where
  "go_round x = (if 0 \<le> x then \<lfloor>x + 1 / 2\<rfloor> else - \<lfloor>- x + 1 / 2\<rfloor>)"

definition peak_of :: "f64 list \<Rightarrow> f64" where
  "peak_of vs = foldl (\<lambda>peak v. if \<bar>v\<bar> > peak then \<bar>v\<bar> else peak) 0 vs"

definition segment_scale :: "f64 list \<Rightarrow> f64" where
  "segment_scale vs = (if 0 < peak_of vs then peak_of vs / 127 else 1)"

definition quantise :: "f64 \<Rightarrow> f64 \<Rightarrow> int" where
  "quantise sc v = min (max (go_round (v / sc)) (-127)) 127"

text \<open>One segment: its bytes, its scale, and what the rounding dropped.\<close>

definition quantise_segment :: "f64 list \<Rightarrow> byte list \<times> f64 \<times> f64 list" where
  "quantise_segment vs =
     (let sc = segment_scale vs
      in (map (\<lambda>v. word_of_int (quantise sc v)) vs, sc, map (\<lambda>v. v - of_int (quantise sc v) * sc) vs))"

fun quantise_segments :: "nat list \<Rightarrow> f64 list \<Rightarrow> byte list \<times> f64 list \<times> f64 list" where
  "quantise_segments [] vs = ([], [], [])"
| "quantise_segments (n # ns) vs =
     (let (bs, sc, rs) = quantise_segment (take n vs);
          (bs', scs, rs') = quantise_segments ns (drop n vs)
      in (bs @ bs', sc # scs, rs @ rs'))"

text \<open>\<open>meanResidual\<close> at int8: the reply, its scales and the residual left; \<open>None\<close> is a nil \<open>res\<close>.\<close>

definition meanResidual :: "f64 list option \<Rightarrow> ddpAccumulator \<Rightarrow> ddp_error + byte list \<times> f64 list \<times> f64 list option" where
  "meanResidual res a =
     (if ac_count a = 0 then Inl NoRanks
      else let r = (case res of None \<Rightarrow> None
                      | Some r \<Rightarrow> if length r \<noteq> length (ac_sum a) then None else Some r);
               segs = (if ac_segments a = [] then [length (ac_sum a)] else ac_segments a);
               means = map (\<lambda>s. s * inv_weight a) (ac_sum a);
               vals = (case r of None \<Rightarrow> means | Some r \<Rightarrow> map2 (+) means r);
               (out, scales, left) = quantise_segments segs vals
      in Inr (out, scales, case r of None \<Rightarrow> res | Some _ \<Rightarrow> Some left))"

subsection \<open>What a payload decodes to\<close>

definition decode_payload :: "ddpDType \<Rightarrow> nat list \<Rightarrow> nat \<Rightarrow> byte list \<Rightarrow> f64 list \<Rightarrow> ddp_error + f64 list" where
  "decode_payload dtype segs n payload scales =
     (if dtype \<noteq> ddpI8 \<or> length segs \<le> 1 then
        (if length payload \<noteq> n * dtype_size dtype then Inl (PayloadSize (length payload) (n * dtype_size dtype))
         else case dtype of OtherDType _ \<Rightarrow> Inl UnsupportedDType
           | d \<Rightarrow> if d = ddpI8 \<and> hd scales \<le> 0 then Inl (NonPositiveScale 0)
               else case those (map (element d (hd scales) payload) [0..<n]) of
                   None \<Rightarrow> Inl NotFinite | Some vs \<Rightarrow> Inr vs)
      else if length scales \<noteq> length segs then Inl (ScaleCount (length scales) (length segs))
      else if length payload \<noteq> n then Inl (PayloadSize (length payload) n)
      else segment_values 0 (zip segs scales) payload)"

lemma addSegmented_decode:
  "addSegmented payload scales w a =
    (case decode_payload (ac_dtype a) (ac_segments a) (length (ac_sum a)) payload scales of
       Inl e \<Rightarrow> Inl e | Inr vs \<Rightarrow> Inr (fold_in vs (sampleWeight w) a))"
proof (cases "ac_dtype a \<noteq> ddpI8 \<or> length (ac_segments a) \<le> 1")
  case True
  have "addFlat payload (hd scales) w a = (case decode_payload (ac_dtype a) (ac_segments a) (length (ac_sum a)) payload scales of
      Inl e \<Rightarrow> Inl e | Inr vs \<Rightarrow> Inr (fold_in vs (sampleWeight w) a))"
    unfolding addFlat_def decode_payload_def Let_def if_P [OF True]
    by (cases "ac_dtype a"; cases "those (map (element (ac_dtype a) (hd scales) payload) [0..<length (ac_sum a)])") simp_all
  then show ?thesis unfolding addSegmented_def if_P [OF True] .
next
  case False
  then show ?thesis by (simp add: addSegmented_def decode_payload_def)
qed

lemma those_length: "those xs = Some ys \<Longrightarrow> length ys = length xs"
proof (induction xs arbitrary: ys)
  case (Cons x xs)
  then show ?case by (cases x) (auto split: option.splits)
qed simp

lemma segment_values_length:
  "segment_values i segs payload = Inr vs \<Longrightarrow> length payload = sum_list (map fst segs) \<Longrightarrow> length vs = length payload"
proof (induction segs arbitrary: i payload vs)
  case (Cons s segs)
  obtain n sc where s: "s = (n, sc)" by fastforce
  from Cons.prems(1) obtain ws where "segment_values (Suc i) segs (drop n payload) = Inr ws"
    and vs: "vs = map (\<lambda>b. of_int (sint b) * sc) (take n payload) @ ws"
    by (auto simp: s split: if_splits sum.splits)
  then have "length ws = length (drop n payload)" using Cons.IH Cons.prems(2) by (simp add: s)
  then show ?case using Cons.prems(2) by (simp add: vs s)
qed simp

lemma decode_length:
  assumes "decode_payload dtype segs n payload scales = Inr vs" "segs = [] \<or> sum_list segs = n"
  shows "length vs = n"
proof (cases "dtype \<noteq> ddpI8 \<or> length segs \<le> 1")
  case True
  then have "\<exists>d. those (map (element d (hd scales) payload) [0..<n]) = Some vs"
    using assms(1) by (auto simp: decode_payload_def split: ddpDType.splits if_splits option.splits)
  then show ?thesis by (auto dest: those_length)
next
  case False
  then have "segment_values 0 (zip segs scales) payload = Inr vs" "length payload = n" "length scales = length segs"
    using assms(1) by (auto simp: decode_payload_def split: if_splits)
  then show ?thesis using segment_values_length [of 0 "zip segs scales" payload vs] assms(2) False by auto
qed

subsection \<open>The sum of the contributions\<close>

type_synonym contribution = "byte list \<times> f64 list \<times> f64"

fun add_all :: "contribution list \<Rightarrow> ddpAccumulator \<Rightarrow> ddp_error + ddpAccumulator" where
  "add_all [] a = Inr a"
| "add_all ((payload, scales, w) # cs) a =
     (case addSegmented payload scales w a of Inl e \<Rightarrow> Inl e | Inr a' \<Rightarrow> add_all cs a')"

text \<open>The values of a contribution, and what it weighs.\<close>

definition values_of :: "ddpAccumulator \<Rightarrow> contribution \<Rightarrow> f64 list" where
  "values_of a c = (case c of (payload, scales, w) \<Rightarrow>
     case decode_payload (ac_dtype a) (ac_segments a) (length (ac_sum a)) payload scales of
       Inl e \<Rightarrow> [] | Inr vs \<Rightarrow> vs)"

definition weight_of :: "contribution \<Rightarrow> f64" where
  "weight_of c = (case c of (payload, scales, w) \<Rightarrow> sampleWeight w)"

definition norm2 :: "f64 list \<Rightarrow> f64" where
  "norm2 vs = sum_list (map (\<lambda>v. v * v) vs)"

lemma foldl_norm2: "foldl (\<lambda>sq v. sq + v * v) x vs = x + norm2 vs"
  by (induction vs arbitrary: x) (simp_all add: norm2_def)

definition acc_shape :: "ddpAccumulator \<Rightarrow> bool" where
  "acc_shape a \<longleftrightarrow> ac_segments a = [] \<or> sum_list (ac_segments a) = length (ac_sum a)"

lemma fold_in_shape [simp]:
  "ac_dtype (fold_in vs w a) = ac_dtype a" "ac_segments (fold_in vs w a) = ac_segments a"
  "length vs = length (ac_sum a) \<Longrightarrow> length (ac_sum (fold_in vs w a)) = length (ac_sum a)"
  by (simp_all add: fold_in_def)

lemma add_all_sums:
  assumes "add_all cs a = Inr a'" "acc_shape a"
  shows "length (ac_sum a') = length (ac_sum a) \<and> ac_count a' = ac_count a + int (length cs)
    \<and> ac_weight a' = ac_weight a + sum_list (map weight_of cs)
    \<and> ac_sumSq a' = ac_sumSq a + (\<Sum>c\<leftarrow>cs. weight_of c * norm2 (values_of a c))
    \<and> (\<forall>c \<in> set cs. length (values_of a c) = length (ac_sum a))
    \<and> (\<forall>j < length (ac_sum a). ac_sum a' ! j = ac_sum a ! j + (\<Sum>c\<leftarrow>cs. weight_of c * values_of a c ! j))"
  using assms
proof (induction cs arbitrary: a)
  case (Cons c cs)
  obtain payload scales w where c: "c = (payload, scales, w)" by (cases c) auto
  from Cons.prems(1) obtain vs where
    dec: "decode_payload (ac_dtype a) (ac_segments a) (length (ac_sum a)) payload scales = Inr vs"
    and rest: "add_all cs (fold_in vs (sampleWeight w) a) = Inr a'"
    by (auto simp: c addSegmented_decode split: sum.splits)
  let ?a = "fold_in vs (sampleWeight w) a"
  have len: "length vs = length (ac_sum a)"
    using decode_length [OF dec] Cons.prems(2) by (simp add: acc_shape_def)
  have "acc_shape ?a" using Cons.prems(2) len by (simp add: acc_shape_def)
  note IH = Cons.IH [OF rest this]
  have vals: "values_of ?a = values_of a" using len by (simp add: values_of_def fun_eq_iff)
  have vc: "values_of a c = vs" "weight_of c = sampleWeight w" by (simp_all add: values_of_def c dec weight_of_def)
  have "ac_sum ?a ! j = ac_sum a ! j + weight_of c * values_of a c ! j" if "j < length (ac_sum a)" for j
    using that len by (simp add: fold_in_def vc)
  moreover have "ac_count ?a = ac_count a + 1" "ac_weight ?a = ac_weight a + weight_of c"
    "ac_sumSq ?a = ac_sumSq a + weight_of c * norm2 (values_of a c)"
    by (simp_all add: fold_in_def vc foldl_norm2)
  ultimately show ?case using IH len by (simp add: vals vc)
qed simp

subsection \<open>Quantisation\<close>

lemma floor_half: "\<bar>y - of_int \<lfloor>y + 1 / 2\<rfloor>\<bar> \<le> (1 / 2 :: f64)"
  using of_int_floor_le [of "y + 1 / 2"] floor_correct [of "y + 1 / 2"] unfolding abs_le_iff by linarith

lemma go_round_near: "\<bar>x - of_int (go_round x)\<bar> \<le> 1 / 2"
proof (cases "0 \<le> x")
  case True
  then show ?thesis using floor_half [of x] by (simp add: go_round_def)
next
  case False
  have "x - of_int (go_round x) = - (- x - of_int \<lfloor>- x + 1 / 2\<rfloor>)" using False by (simp add: go_round_def)
  then show ?thesis using floor_half [of "- x"] by (simp only: abs_minus_cancel)
qed

lemma go_round_bound:
  assumes "\<bar>x\<bar> \<le> of_int n"
  shows "\<bar>go_round x\<bar> \<le> n"
proof -
  have "\<lfloor>\<bar>x\<bar> + 1 / 2\<rfloor> \<le> n" using assms by (simp add: floor_le_iff)
  moreover have "0 \<le> \<lfloor>\<bar>x\<bar> + 1 / 2\<rfloor>" by simp
  ultimately show ?thesis by (cases "0 \<le> x") (simp_all add: go_round_def)
qed

lemma peak_step: "foldl (\<lambda>peak v. if \<bar>v\<bar> > peak then \<bar>v\<bar> else peak) p vs = (fold (\<lambda>v p. max p \<bar>v\<bar>) vs p :: f64)"
  by (induction vs arbitrary: p) (auto simp: max_def)

lemma fold_max_ge: "p \<le> fold (\<lambda>v p. max p \<bar>v\<bar>) vs (p :: f64)"
  by (induction vs arbitrary: p) (auto intro: order_trans [OF max.cobounded1])

lemma fold_max_upper: "v \<in> set vs \<Longrightarrow> \<bar>v\<bar> \<le> fold (\<lambda>v p. max p \<bar>v\<bar>) vs (p :: f64)"
proof (induction vs arbitrary: p)
  case (Cons w vs)
  then show ?case using order_trans [OF max.cobounded2 fold_max_ge [of "max p \<bar>w\<bar>" vs]] by auto
qed simp

lemma peak_upper: "v \<in> set vs \<Longrightarrow> \<bar>v\<bar> \<le> peak_of vs"
  unfolding peak_of_def peak_step by (rule fold_max_upper)

lemma peak_nonneg: "0 \<le> peak_of vs"
  unfolding peak_of_def peak_step by (rule fold_max_ge)

lemma segment_scale_pos: "0 < segment_scale vs"
  by (simp add: segment_scale_def)

lemma quantise_exact:
  assumes "v \<in> set vs"
  shows "sint (word_of_int (quantise (segment_scale vs) v) :: byte) = quantise (segment_scale vs) v"
    and "\<bar>v - of_int (quantise (segment_scale vs) v) * segment_scale vs\<bar> \<le> segment_scale vs / 2"
proof -
  let ?sc = "segment_scale vs"
  have "\<bar>v\<bar> \<le> 127 * ?sc"
    using peak_upper [OF assms] peak_nonneg [of vs] by (auto simp: segment_scale_def)
  then have "\<bar>v / ?sc\<bar> \<le> of_int 127"
    using segment_scale_pos [of vs] by (simp add: abs_divide divide_le_eq)
  then have "\<bar>go_round (v / ?sc)\<bar> \<le> 127" by (rule go_round_bound)
  then have q: "quantise ?sc v = go_round (v / ?sc)" "- 128 \<le> quantise ?sc v" "quantise ?sc v \<le> 127"
    by (auto simp: quantise_def)
  then show "sint (word_of_int (quantise ?sc v) :: byte) = quantise ?sc v"
    by (simp add: signed_of_int signed_take_bit_int_eq_self)
  have "v - of_int (quantise ?sc v) * ?sc = (v / ?sc - of_int (go_round (v / ?sc))) * ?sc"
    using segment_scale_pos [of vs] by (simp add: q(1) left_diff_distrib)
  then have "\<bar>v - of_int (quantise ?sc v) * ?sc\<bar> = \<bar>v / ?sc - of_int (go_round (v / ?sc))\<bar> * ?sc"
    using segment_scale_pos [of vs] by (simp add: abs_mult)
  also have "\<dots> \<le> 1 / 2 * ?sc"
    using segment_scale_pos [of vs] by (intro mult_right_mono go_round_near) simp
  finally show "\<bar>v - of_int (quantise ?sc v) * ?sc\<bar> \<le> ?sc / 2" by simp
qed

definition half_steps :: "nat list \<Rightarrow> f64 list \<Rightarrow> f64 list" where
  "half_steps ns scales = concat (map2 (\<lambda>n sc. replicate n (sc / 2)) ns scales)"

lemma list_all2_map_replicate:
  "(\<And>v. v \<in> set xs \<Longrightarrow> P (f v) c) \<Longrightarrow> length xs = n \<Longrightarrow> list_all2 P (map f xs) (replicate n c)"
  by (auto simp: list_all2_conv_all_nth)

lemma quantise_segments_decode:
  assumes "quantise_segments ns vs = (out, scales, left)" "sum_list ns = length vs"
  shows "\<exists>dec. segment_values i (zip ns scales) out = Inr dec \<and> length dec = length vs
    \<and> length out = length vs \<and> length scales = length ns
    \<and> left = map2 (-) vs dec \<and> list_all2 (\<lambda>r h. \<bar>r\<bar> \<le> h) left (half_steps ns scales)"
  using assms
proof (induction ns arbitrary: vs out scales left i)
  case Nil
  then show ?case by (simp add: half_steps_def)
next
  case (Cons n ns)
  let ?v = "take n vs"
  obtain out' scales' left' where rest: "quantise_segments ns (drop n vs) = (out', scales', left')"
    by (metis prod_cases3)
  let ?sc = "segment_scale ?v"
  have res: "out = map (\<lambda>v. word_of_int (quantise ?sc v)) ?v @ out'" "scales = ?sc # scales'"
    "left = map (\<lambda>v. v - of_int (quantise ?sc v) * ?sc) ?v @ left'"
    using Cons.prems(1) rest by (auto simp: quantise_segment_def Let_def)
  have n: "n \<le> length vs" "sum_list ns = length (drop n vs)" using Cons.prems(2) by auto
  from Cons.IH [OF rest n(2), of "Suc i"] obtain dec where dec:
    "segment_values (Suc i) (zip ns scales') out' = Inr dec" "length dec = length (drop n vs)"
    "length out' = length (drop n vs)" "length scales' = length ns"
    "left' = map2 (-) (drop n vs) dec" "list_all2 (\<lambda>r h. \<bar>r\<bar> \<le> h) left' (half_steps ns scales')"
    by blast
  let ?d = "map (\<lambda>v. of_int (quantise ?sc v) * ?sc) ?v"
  have "map (\<lambda>b. of_int (sint b) * ?sc) (map (\<lambda>v. word_of_int (quantise ?sc v) :: byte) ?v) = ?d"
    using quantise_exact(1) [of _ ?v] by (simp del: of_int_sint)
  then have "segment_values i (zip (n # ns) scales) out = Inr (?d @ dec)"
    using dec(1) n(1) segment_scale_pos [of ?v] by (simp add: res not_le [symmetric])
  moreover have "left = map2 (-) vs (?d @ dec)"
  proof -
    have "map2 (-) (?v @ drop n vs) (?d @ dec) = map2 (-) ?v ?d @ map2 (-) (drop n vs) dec"
      by (rule zip_append [THEN arg_cong [of _ _ "map (\<lambda>(x, y). x - y)"], THEN trans]) simp_all
    moreover have "map2 (-) ?v ?d = map (\<lambda>v. v - of_int (quantise ?sc v) * ?sc) ?v"
      by (rule nth_equalityI) simp_all
    ultimately show ?thesis by (simp add: res dec(5))
  qed
  moreover have "list_all2 (\<lambda>r h. \<bar>r\<bar> \<le> h) left (half_steps (n # ns) scales)"
  proof -
    have "list_all2 (\<lambda>r h. \<bar>r\<bar> \<le> h) (map (\<lambda>v. v - of_int (quantise ?sc v) * ?sc) ?v) (replicate n (?sc / 2))"
      by (rule list_all2_map_replicate) (use quantise_exact(2) [of _ ?v] n(1) in simp_all)
    with dec(6) show ?thesis by (auto simp: half_steps_def res intro!: list_all2_appendI)
  qed
  ultimately show ?case using dec n(1) by (intro exI [of _ "?d @ dec"]) (simp add: res)
qed

subsection \<open>Properties\<close>

lemma add_all_shape: "add_all cs a = Inr a' \<Longrightarrow> ac_dtype a' = ac_dtype a \<and> ac_segments a' = ac_segments a"
proof (induction cs arbitrary: a)
  case (Cons c cs)
  obtain p s w where c: "c = (p, s, w)" by (cases c) auto
  then obtain vs where "add_all cs (fold_in vs (sampleWeight w) a) = Inr a'"
    using Cons.prems by (auto simp: addSegmented_decode split: sum.splits)
  then show ?case using Cons.IH by fastforce
qed simp

definition fresh_acc :: "ddpDType \<Rightarrow> nat \<Rightarrow> nat list \<Rightarrow> ddpAccumulator" where
  "fresh_acc dtype n segs = (newDDPAccumulator dtype n)\<lparr>ac_segments := segs\<rparr>"

text \<open>C39: The accumulator's mean is the sample-weighted mean of what the ranks sent, element by
  element and for every wire type: a rank that reported no count weighs 1, a pad step nothing,
  and the order in which the payloads arrive does not matter.\<close>

theorem mean_is_sample_weighted:
  assumes "add_all cs (fresh_acc dtype n segs) = Inr a" "segs = [] \<or> sum_list segs = n" "j < n"
  shows "ac_sum a ! j * inv_weight a =
      (if 0 < sum_list (map weight_of cs)
       then (\<Sum>c\<leftarrow>cs. weight_of c * values_of a c ! j) / sum_list (map weight_of cs) else 0)
    \<and> (mset cs' = mset cs \<and> add_all cs' (fresh_acc dtype n segs) = Inr a' \<longrightarrow> a' = a)"
proof -
  let ?a = "fresh_acc dtype n segs"
  have shape: "acc_shape ?a" and len: "length (ac_sum ?a) = n"
    using assms(2) by (auto simp: acc_shape_def fresh_acc_def newDDPAccumulator_def)
  note sums = add_all_sums [OF assms(1) shape]
  have vals: "values_of b = values_of ?a" if "add_all ds ?a = Inr b" for b ds
    using add_all_shape [OF that] add_all_sums [OF that shape] by (simp add: values_of_def fun_eq_iff)
  have zero: "ac_sum ?a ! j = 0" "ac_weight ?a = 0" "ac_count ?a = 0" "ac_sumSq ?a = 0" if "j < n" for j
    using that by (simp_all add: fresh_acc_def newDDPAccumulator_def)
  have "a' = a" if perm: "mset cs' = mset cs" and run: "add_all cs' ?a = Inr a'"
  proof -
    note sums' = add_all_sums [OF run shape]
    have same: "(\<Sum>c\<leftarrow>cs'. f c) = (\<Sum>c\<leftarrow>cs. f c)" for f :: "contribution \<Rightarrow> f64"
      by (rule sum_list_map_perm) (rule perm)
    have "ac_sum a' = ac_sum a"
      using sums sums' same by (intro nth_equalityI) auto
    moreover have "length cs' = length cs" using perm by (metis size_mset)
    ultimately show ?thesis
      using sums sums' same [of weight_of] same [of "\<lambda>c. weight_of c * norm2 (values_of ?a c)"]
        add_all_shape [OF run] add_all_shape [OF assms(1)] by (simp add: ddpAccumulator.equality)
  qed
  moreover have "ac_sum a ! j = (\<Sum>c\<leftarrow>cs. weight_of c * values_of a c ! j)"
    unfolding vals [OF assms(1)] using sums zero(1) [OF assms(3)] assms(3) by (simp add: len)
  moreover have "ac_weight a = sum_list (map weight_of cs)" using sums zero(2) [OF assms(3)] by simp
  ultimately show ?thesis by (simp add: inv_weight_def)
qed

text \<open>C40: Error feedback loses nothing: what the ranks decode from the int8 reply plus the residual
  kept for the next round is exactly the mean plus the residual of the last round, and each
  element is off by at most half a step of its segment's scale.\<close>

theorem reply_plus_residual_is_mean:
  assumes "meanResidual (Some res) a = Inr (out, scales, left)" "acc_shape a"
    and "length res = length (ac_sum a)"
  shows "\<exists>dec r. left = Some r \<and> length dec = length (ac_sum a) \<and>
    segment_values 0 (zip (if ac_segments a = [] then [length (ac_sum a)] else ac_segments a) scales) out = Inr dec
    \<and> map2 (+) dec r = map2 (+) (map (\<lambda>s. s * inv_weight a) (ac_sum a)) res
    \<and> list_all2 (\<lambda>r h. \<bar>r\<bar> \<le> h) r (half_steps (if ac_segments a = [] then [length (ac_sum a)] else ac_segments a) scales)"
proof -
  let ?segs = "if ac_segments a = [] then [length (ac_sum a)] else ac_segments a"
  let ?vals = "map2 (+) (map (\<lambda>s. s * inv_weight a) (ac_sum a)) res"
  obtain r where q: "quantise_segments ?segs ?vals = (out, scales, r)" and left: "left = Some r"
    using assms(1,3) by (auto simp: meanResidual_def Let_def split: if_splits prod.splits)
  have len: "length ?vals = length (ac_sum a)" using assms(3) by simp
  have "sum_list ?segs = length ?vals" using assms(2) len by (auto simp: acc_shape_def)
  from quantise_segments_decode [OF q this, of 0] obtain dec where dec:
    "segment_values 0 (zip ?segs scales) out = Inr dec" "length dec = length ?vals"
    "r = map2 (-) ?vals dec" "list_all2 (\<lambda>r h. \<bar>r\<bar> \<le> h) r (half_steps ?segs scales)"
    by blast
  have total: "map2 (+) dec r = ?vals" using dec(2) by (intro nth_equalityI) (simp_all add: dec(3))
  have "length dec = length (ac_sum a)" using dec(2) len by (simp only:)
  then show ?thesis using dec(1,4) left total by (intro exI [of _ dec] exI [of _ r] conjI)
qed

lemma spread_identity:
  fixes x :: "'c \<Rightarrow> nat \<Rightarrow> f64"
  shows "(\<Sum>c\<leftarrow>cs. w c * (\<Sum>j<n. (x c j - m j) * (x c j - m j)))
    = (\<Sum>c\<leftarrow>cs. w c * (\<Sum>j<n. x c j * x c j)) - 2 * (\<Sum>j<n. m j * (\<Sum>c\<leftarrow>cs. w c * x c j))
      + (\<Sum>c\<leftarrow>cs. w c) * (\<Sum>j<n. m j * m j)"
proof (induction cs)
  case (Cons c cs)
  have "w c * (\<Sum>j<n. (x c j - m j) * (x c j - m j))
      = w c * (\<Sum>j<n. x c j * x c j) - 2 * (\<Sum>j<n. m j * (w c * x c j)) + w c * (\<Sum>j<n. m j * m j)"
    by (simp add: sum_distrib_left sum_subtractf [symmetric] sum.distrib [symmetric] algebra_simps)
  then show ?case
    by (simp add: Cons.IH distrib_left distrib_right sum.distrib)
qed simp

lemma norm2_sum: "length vs = n \<Longrightarrow> norm2 vs = (\<Sum>j<n. vs ! j * vs ! j)"
  unfolding norm2_def by (simp add: sum_list_sum_nth atLeast0LessThan)

text \<open>The drift the code computes from running sums, without keeping any rank's payload, is
  the weighted mean squared distance of the ranks from their mean, relative to the mean's
  square: what is under the root is never negative, and the guard against that only catches
  rounding.\<close>

theorem drift_is_weighted_spread:
  assumes "add_all cs (fresh_acc dtype n segs) = Inr a" "segs = [] \<or> sum_list segs = n"
    and "2 \<le> length cs" "0 < sum_list (map weight_of cs)"
  defines "mean \<equiv> map (\<lambda>s. s * inv_weight a) (ac_sum a)"
  defines "spread \<equiv> (\<Sum>c\<leftarrow>cs. weight_of c * (\<Sum>j<n. (values_of a c ! j - mean ! j) * (values_of a c ! j - mean ! j)))
     / sum_list (map weight_of cs)"
  shows "drift_squared a = Some
    (if norm2 mean = 0 then (if 0 < spread then driftCap * driftCap else 0)
     else min (spread / norm2 mean) (driftCap * driftCap))"
proof -
  let ?a = "fresh_acc dtype n segs" and ?W = "sum_list (map weight_of cs)"
  have shape: "acc_shape ?a" and len0: "length (ac_sum ?a) = n"
    using assms(2) by (auto simp: acc_shape_def fresh_acc_def newDDPAccumulator_def)
  have zero: "ac_weight ?a = 0" "ac_count ?a = 0" "ac_sumSq ?a = 0" "\<And>j. j < n \<Longrightarrow> ac_sum ?a ! j = 0"
    by (simp_all add: fresh_acc_def newDDPAccumulator_def)
  note sums = add_all_sums [OF assms(1) shape]
  have len: "length (ac_sum a) = n" using sums by (simp add: len0)
  have vals: "values_of a = values_of ?a"
    using add_all_shape [OF assms(1)] by (simp add: values_of_def fun_eq_iff len len0)
  have W: "ac_weight a = ?W" "ac_count a = int (length cs)" using sums by (simp_all add: zero)
  have inv: "inv_weight a = 1 / ?W" using assms(4) by (simp add: inv_weight_def W)
  have lens: "\<And>c. c \<in> set cs \<Longrightarrow> length (values_of a c) = n" using sums by (simp add: len0 vals)
  have sumSq: "ac_sumSq a = (\<Sum>c\<leftarrow>cs. weight_of c * (\<Sum>j<n. values_of a c ! j * values_of a c ! j))"
    using sums lens by (simp add: zero vals norm2_sum cong: map_cong)
  have sum_j: "(\<Sum>c\<leftarrow>cs. weight_of c * values_of a c ! j) = ?W * mean ! j" if "j < n" for j
    using sums that assms(4) by (simp add: zero vals len len0 mean_def inv)
  have m2: "norm2 mean = (\<Sum>j<n. mean ! j * mean ! j)" by (rule norm2_sum) (simp add: mean_def len)
  have "(\<Sum>c\<leftarrow>cs. weight_of c * (\<Sum>j<n. (values_of a c ! j - mean ! j) * (values_of a c ! j - mean ! j)))
      = ac_sumSq a - 2 * (\<Sum>j<n. mean ! j * (?W * mean ! j)) + ?W * norm2 mean"
    unfolding spread_identity sumSq m2 by (simp add: sum_j)
  also have "(\<Sum>j<n. mean ! j * (?W * mean ! j)) = ?W * norm2 mean"
    unfolding m2 sum_distrib_left by (intro sum.cong) (simp_all add: algebra_simps)
  finally have sp: "spread = ac_sumSq a * inv_weight a - norm2 mean"
    using assms(4) by (simp add: spread_def inv field_simps)
  have wpos: "0 \<le> weight_of c" for c by (cases c) (simp add: weight_of_def sampleWeight_def)
  have sq: "0 \<le> (\<Sum>j<n. (values_of a c ! j - mean ! j) * (values_of a c ! j - mean ! j))" for c
    by (intro sum_nonneg zero_le_square)
  have "0 \<le> weight_of c * (\<Sum>j<n. (values_of a c ! j - mean ! j) * (values_of a c ! j - mean ! j))" for c
    by (rule mult_nonneg_nonneg [OF wpos sq])
  then have "0 \<le> spread" unfolding spread_def using assms(4)
    by (intro divide_nonneg_pos sum_list_nonneg) auto
  moreover have "foldl (\<lambda>m2 s. m2 + (s * inv_weight a) * (s * inv_weight a)) 0 (ac_sum a) = norm2 mean"
  proof -
    have "foldl (\<lambda>m2 s. m2 + (s * i) * (s * i)) y ss = y + norm2 (map (\<lambda>s. s * i) ss)" for i y and ss :: "f64 list"
      by (induction ss arbitrary: y) (simp_all add: norm2_def)
    then show ?thesis by (simp add: mean_def)
  qed
  moreover have "0 \<le> norm2 mean" unfolding m2 by (intro sum_nonneg) simp
  moreover have "max (ac_sumSq a * inv_weight a - norm2 mean) 0 = spread"
    using \<open>0 \<le> spread\<close> by (simp add: sp)
  ultimately show ?thesis
    using assms(3,4) W by (simp add: drift_squared_def)
qed

subsection \<open>Concrete inputs\<close>

definition ex_cs :: "contribution list" where
  "ex_cs = [([10, 246, 5], [1 / 2, 1], 0), ([20, 0, 1], [1, 2], 3), ([7, 7, 7], [1, 1], -1)]"

definition ex_acc :: ddpAccumulator where
  "ex_acc = \<lparr>ac_dtype = ddpI8, ac_segments = [2, 1], ac_sum = [65, -5, 11], ac_count = 3, ac_weight = 4, ac_sumSq = 1287\<rparr>"

lemma ex_run: "add_all ex_cs (fresh_acc ddpI8 3 [2, 1]) = Inr ex_acc"
  by (simp add: ex_cs_def ex_acc_def fresh_acc_def newDDPAccumulator_def addSegmented_def fold_in_def
      sampleWeight_def eval_nat_numeral)

lemma ex_weights: "sum_list (map weight_of ex_cs) = 4"
  by (simp add: ex_cs_def weight_of_def sampleWeight_def)

lemma mean_is_sample_weighted_witness:
  "ac_sum ex_acc ! 0 * inv_weight ex_acc = (\<Sum>c\<leftarrow>ex_cs. weight_of c * values_of ex_acc c ! 0) / 4"
  using mean_is_sample_weighted [OF ex_run, of 0 ex_cs ex_acc] by (simp add: ex_weights)

lemma reply_plus_residual_is_mean_witness:
  "\<exists>out scales left dec. meanResidual (Some [1, 0, 0]) ex_acc = Inr (out, scales, left)
     \<and> segment_values 0 (zip [2, 1] scales) out = Inr dec"
proof -
  obtain out scales left where
    "quantise_segments [2, 1] (map2 (+) (map (\<lambda>s. s * inv_weight ex_acc) (ac_sum ex_acc)) [1, 0, 0]) = (out, scales, left)"
    using prod_cases3 by blast
  moreover have "ac_count ex_acc = 3" "ac_segments ex_acc = [2, 1]" "length (ac_sum ex_acc) = 3"
    by (simp_all add: ex_acc_def)
  ultimately have m: "meanResidual (Some [1, 0, 0]) ex_acc = Inr (out, scales, Some left)"
    by (simp add: meanResidual_def)
  have "acc_shape ex_acc" "length [1, 0, 0 :: f64] = length (ac_sum ex_acc)"
    by (simp_all add: acc_shape_def ex_acc_def)
  from reply_plus_residual_is_mean [OF m this] show ?thesis
    using m by (auto simp: ex_acc_def)
qed

lemma drift_is_weighted_spread_witness:
  "drift_squared ex_acc = Some (min ((1287 / 4 - norm2 [65 / 4, - 5 / 4, 11 / 4]) / norm2 [65 / 4, - 5 / 4, 11 / 4]) (driftCap * driftCap))
   \<and> norm2 (map (\<lambda>s. s * inv_weight ex_acc) (ac_sum ex_acc)) \<noteq> 0"
proof -
  have mean: "map (\<lambda>s. s * inv_weight ex_acc) (ac_sum ex_acc) = [65 / 4, - 5 / 4, 11 / 4]"
    by (simp add: ex_acc_def inv_weight_def)
  have "drift_squared ex_acc = Some (min ((\<Sum>c\<leftarrow>ex_cs. weight_of c * (\<Sum>j<3. (values_of ex_acc c ! j - [65 / 4, - 5 / 4, 11 / 4] ! j)
      * (values_of ex_acc c ! j - [65 / 4, - 5 / 4, 11 / 4] ! j))) / 4 / norm2 [65 / 4, - 5 / 4, 11 / 4]) (driftCap * driftCap))"
    using drift_is_weighted_spread [OF ex_run] unfolding mean ex_weights
    by (simp add: ex_cs_def norm2_def)
  moreover have "(\<Sum>c\<leftarrow>ex_cs. weight_of c * (\<Sum>j<3. (values_of ex_acc c ! j - [65 / 4, - 5 / 4, 11 / 4] ! j)
      * (values_of ex_acc c ! j - [65 / 4, - 5 / 4, 11 / 4] ! j))) / 4 = 1287 / 4 - norm2 [65 / 4, - 5 / 4, 11 / 4]"
    by (simp add: ex_cs_def ex_acc_def values_of_def decode_payload_def weight_of_def sampleWeight_def norm2_def
        lessThan_Suc eval_nat_numeral)
  ultimately show ?thesis unfolding mean by (simp only:) (simp add: norm2_def)
qed

end
