(* ===== verification/Wire.thy ===== *)
theory Wire
  imports GoMap
begin

text \<open>
  The wire format between daemons, \<^verbatim>\<open>src/internal/daemonapi/poolwire.go\<close>: length-prefixed frames
  after a header line, and the globals frame that crosses a link once and is named by its hash
  afterwards. The JSON printer and parser of header lines, SHA-256 and the zstd decoder are
  parameters; of a header line only the fields the code reads are told apart. The globals cache
  on disk is a table from hash to contents and time of last use.
\<close>

unbundle bit_operations_syntax

subsection \<open>Frames\<close>

definition be32 :: "32 word \<Rightarrow> byte list" where
  "be32 n = [ucast (drop_bit 24 n), ucast (drop_bit 16 n), ucast (drop_bit 8 n), ucast n]"

definition from_be32 :: "byte list \<Rightarrow> 32 word" where
  "from_be32 bs = push_bit 24 (ucast (bs ! 0)) OR push_bit 16 (ucast (bs ! 1))
     OR push_bit 8 (ucast (bs ! 2)) OR ucast (bs ! 3)"

text \<open>The length is converted to uint32, so it wraps at 4 GiB.\<close>

definition putFrame :: "byte list \<Rightarrow> byte list \<Rightarrow> byte list" where
  "putFrame buf payload = buf @ be32 (of_nat (length payload)) @ payload"

datatype wire_error =
    TruncatedHeader | TruncatedPayload nat nat | BadZstd | UnsupportedEncoding string
  | BadSha string | MissingGlobals string

definition readFrame :: "byte list \<Rightarrow> wire_error + byte list \<times> byte list" where
  "readFrame src =
     (if length src < 4 then Inl TruncatedHeader
      else let n = unat (from_be32 (take 4 src)); src = drop 4 src
      in if length src < n then Inl (TruncatedPayload n (length src))
         else Inr (take n src, drop n src))"

fun read_items :: "nat \<Rightarrow> byte list \<Rightarrow> wire_error + byte list list" where
  "read_items 0 rest = Inr []"
| "read_items (Suc n) rest =
     (case readFrame rest of
        Inl e \<Rightarrow> Inl e
      | Inr (f, rest) \<Rightarrow> (case read_items n rest of Inl e \<Rightarrow> Inl e | Inr fs \<Rightarrow> Inr (f # fs)))"

text \<open>\<open>None\<close> is the nil globals of a body without them.\<close>

definition parseFrames :: "byte list \<Rightarrow> bool \<Rightarrow> nat \<Rightarrow> wire_error + byte list option \<times> byte list list" where
  "parseFrames body hasGlobals itemCount =
     (if hasGlobals then
        (case readFrame body of
           Inl e \<Rightarrow> Inl e
         | Inr (g, rest) \<Rightarrow> (case read_items itemCount rest of Inl e \<Rightarrow> Inl e | Inr fs \<Rightarrow> Inr (Some g, fs)))
      else (case read_items itemCount body of Inl e \<Rightarrow> Inl e | Inr fs \<Rightarrow> Inr (None, fs)))"

definition put_globals :: "byte list option \<Rightarrow> byte list" where
  "put_globals globals = (case globals of None \<Rightarrow> [] | Some g \<Rightarrow> putFrame [] g)"

definition buildFrames :: "byte list \<Rightarrow> byte list option \<Rightarrow> byte list list \<Rightarrow> byte list" where
  "buildFrames header globals items = foldl putFrame (header @ [10] @ put_globals globals) items"

subsection \<open>Header lines\<close>

text \<open>The fields the link reads or writes; \<open>hd_rest\<close> is the text of all the others.\<close>

record frames_header =
  hd_items_frames :: "int option"
  hd_globals :: bool
  hd_globals_sha256 :: string
  hd_rest :: string

definition index_byte :: "byte \<Rightarrow> byte list \<Rightarrow> nat" where
  "index_byte b bs = length (takeWhile (\<lambda>c. c \<noteq> b) bs)"

definition splitFramesHeader ::
  "(byte list \<Rightarrow> frames_header option) \<Rightarrow> byte list \<Rightarrow> (frames_header \<times> byte list) option" where
  "splitFramesHeader parse body =
     (let nl = index_byte 10 body
      in if nl = 0 \<or> length body \<le> nl then None
         else case parse (take nl body) of
             None \<Rightarrow> None
           | Some hdr \<Rightarrow> (case hd_items_frames hdr of
                 None \<Rightarrow> None
               | Some n \<Rightarrow> if n \<le> 0 then None else Some (hdr, drop (Suc nl) body)))"

definition joinFrames :: "(frames_header \<Rightarrow> byte list) \<Rightarrow> frames_header \<Rightarrow> byte list option \<Rightarrow> byte list \<Rightarrow> byte list" where
  "joinFrames print_hdr hdr globals rest = print_hdr hdr @ [10] @ put_globals globals @ rest"

subsection \<open>The sender\<close>

definition globalsByHashMin :: nat where "globalsByHashMin = 2 ^ 20"

definition heldPerPeer :: nat where "heldPerPeer = 64"

type_synonym held = "(string \<times> int) list"

fun oldest :: "string \<times> int \<Rightarrow> held \<Rightarrow> string \<times> int" where
  "oldest best [] = best"
| "oldest best ((k, t) # m) = oldest (if fst best = [] \<or> t < snd best then (k, t) else best) m"

definition evictOldest :: "held \<Rightarrow> held" where
  "evictOldest m = AList.delete (fst (oldest ([], 0) m)) m"

definition globalsByHash ::
  "(byte list \<Rightarrow> frames_header option) \<Rightarrow> (frames_header \<Rightarrow> byte list) \<Rightarrow> (byte list \<Rightarrow> string)
   \<Rightarrow> int \<Rightarrow> held \<Rightarrow> byte list \<Rightarrow> byte list \<times> held" where
  "globalsByHash parse print_hdr sha now held body =
     (case splitFramesHeader parse body of
        None \<Rightarrow> (body, held)
      | Some (hdr, rest) \<Rightarrow>
          if \<not> hd_globals hdr then (body, held)
          else case readFrame rest of
              Inl _ \<Rightarrow> (body, held)
            | Inr (g, after) \<Rightarrow>
                if length g < globalsByHashMin then (body, held)
                else let hdr = hdr\<lparr>hd_globals_sha256 := sha g\<rparr>;
                         was_held = (map_of held (sha g) \<noteq> None);
                         held = (if \<not> was_held \<and> heldPerPeer \<le> length held then evictOldest held else held);
                         held = AList.update (sha g) now held
                     in if was_held then (joinFrames print_hdr (hdr\<lparr>hd_globals := False\<rparr>) None after, held)
                        else (joinFrames print_hdr hdr (Some g) after, held))"

definition forgetPeerGlobals :: "string \<Rightarrow> held \<Rightarrow> held" where
  "forgetPeerGlobals sha held = AList.delete sha held"

subsection \<open>The receiver\<close>

record blob =
  bl_Data :: "byte list"
  bl_Used :: int

type_synonym cache = "(string \<times> blob) list"

definition globalsCacheMax :: int where "globalsCacheMax = 2 * 2 ^ 30"

fun prune_from :: "cache \<Rightarrow> int \<Rightarrow> int \<Rightarrow> cache \<Rightarrow> cache" where
  "prune_from [] sz bound c = c"
| "prune_from ((k, b) # items) sz bound c =
     (if sz \<le> bound then c
      else prune_from items (sz - int (length (bl_Data b))) bound (AList.delete k c))"

definition pruneGlobals :: "int \<Rightarrow> cache \<Rightarrow> cache" where
  "pruneGlobals bound c =
     prune_from (sort_key (bl_Used \<circ> snd) c) (total_of (\<lambda>b. int (length (bl_Data b))) c) bound c"

definition storeGlobals :: "(byte list \<Rightarrow> string) \<Rightarrow> int \<Rightarrow> string \<Rightarrow> byte list \<Rightarrow> cache \<Rightarrow> cache" where
  "storeGlobals sha now s g c =
     (if map_of c s \<noteq> None then c
      else if sha g \<noteq> s then c
      else pruneGlobals globalsCacheMax (AList.update s \<lparr>bl_Data = g, bl_Used = now\<rparr> c))"

definition hex_digit :: "char \<Rightarrow> bool" where
  "hex_digit c \<longleftrightarrow> c \<in> set ''0123456789abcdefABCDEF''"

definition validSha256 :: "string \<Rightarrow> bool" where
  "validSha256 s \<longleftrightarrow> length s = 64 \<and> list_all hex_digit s"

definition decodePoolBody ::
  "(byte list \<Rightarrow> frames_header option) \<Rightarrow> (frames_header \<Rightarrow> byte list) \<Rightarrow> (byte list \<Rightarrow> string)
   \<Rightarrow> (byte list \<Rightarrow> byte list option) \<Rightarrow> int \<Rightarrow> string \<Rightarrow> byte list \<Rightarrow> cache
   \<Rightarrow> (wire_error + byte list) \<times> cache" where
  "decodePoolBody parse print_hdr sha unzstd now contentEncoding raw c =
     (case (if contentEncoding = [] \<or> contentEncoding = ''identity'' then Inr raw
            else if contentEncoding = ''zstd''
            then (case unzstd raw of None \<Rightarrow> Inl BadZstd | Some b \<Rightarrow> Inr b)
            else Inl (UnsupportedEncoding contentEncoding)) of
        Inl e \<Rightarrow> (Inl e, c)
      | Inr body \<Rightarrow>
          (case splitFramesHeader parse body of
             None \<Rightarrow> (Inr body, c)
           | Some (hdr, rest) \<Rightarrow>
               let s = hd_globals_sha256 hdr
               in if s = [] then (Inr body, c)
                  else if \<not> validSha256 s then (Inl (BadSha s), c)
                  else if hd_globals hdr then
                    (case readFrame rest of
                       Inl e \<Rightarrow> (Inl e, c)
                     | Inr (g, _) \<Rightarrow> (Inr body, storeGlobals sha now s g c))
                  else case map_of c s of
                      None \<Rightarrow> (Inl (MissingGlobals s), c)
                    | Some b \<Rightarrow> (Inr (joinFrames print_hdr (hdr\<lparr>hd_globals := True\<rparr>) (Some (bl_Data b)) rest),
                        AList.update s (b\<lparr>bl_Used := now\<rparr>) c)))"

definition poolDecodeStatus :: "wire_error \<Rightarrow> nat \<times> string option" where
  "poolDecodeStatus e = (case e of MissingGlobals s \<Rightarrow> (409, Some s) | _ \<Rightarrow> (400, None))"

text \<open>The reply as its status and the \<open>missing_globals\<close> of its body, if it has one.\<close>

definition missingGlobalsIn :: "nat \<times> string option \<Rightarrow> string option" where
  "missingGlobalsIn reply =
     (if fst reply \<noteq> 409 then None
      else case snd reply of None \<Rightarrow> None | Some s \<Rightarrow> if s = [] then None else Some s)"

subsection \<open>Frames round trip\<close>

lemma length_be32 [simp]: "length (be32 n) = 4"
  by (simp add: be32_def)

lemma bit_byte_at: "bit (push_bit k (ucast (b :: byte)) :: 32 word) i \<longleftrightarrow> k \<le> i \<and> i < 32 \<and> i - k < 8 \<and> bit b (i - k)"
  by (auto simp: bit_simps dest: bit_imp_le_length)

lemma bit_byte_of: "bit (ucast (drop_bit k (n :: 32 word)) :: byte) i \<longleftrightarrow> i < 8 \<and> bit n (k + i)"
  by (auto simp: bit_simps)

lemma bit_from_be32:
  "bit (from_be32 [a, b, c, d]) i \<longleftrightarrow>
    (if i < 8 then bit d i else if i < 16 then bit c (i - 8) else if i < 24 then bit b (i - 16)
     else i < 32 \<and> bit a (i - 24))"
proof -
  have "from_be32 [a, b, c, d] = push_bit 24 (ucast a) OR push_bit 16 (ucast b) OR push_bit 8 (ucast c) OR push_bit 0 (ucast d)"
    by (simp add: from_be32_def)
  then show ?thesis
    using bit_imp_le_length [of a "i - 24"] bit_imp_le_length [of b "i - 16"] bit_imp_le_length [of c "i - 8"] bit_imp_le_length [of d i]
    by (simp only: bit_or_iff bit_byte_at) auto
qed

lemma from_be32_be32: "from_be32 (be32 n) = n"
proof (rule bit_word_eqI)
  fix i assume "i < LENGTH(32)"
  moreover have "be32 n = [ucast (drop_bit 24 n), ucast (drop_bit 16 n), ucast (drop_bit 8 n), ucast (drop_bit 0 n)]"
    by (simp add: be32_def drop_bit_0)
  ultimately show "bit (from_be32 (be32 n)) i \<longleftrightarrow> bit n i"
    by (simp only: bit_from_be32 bit_byte_of) auto
qed

lemma be32_from_be32: "be32 (from_be32 [a, b, c, d]) = [a, b, c, d]"
proof -
  have "ucast (drop_bit k (from_be32 [a, b, c, d])) = x"
    if "\<And>i. i < 8 \<Longrightarrow> bit (from_be32 [a, b, c, d]) (k + i) \<longleftrightarrow> bit x i" for k and x :: byte
    by (rule bit_word_eqI) (use that in \<open>auto simp: bit_byte_of\<close>)
  note byte = this
  show ?thesis
    unfolding be32_def using byte [of 24 a] byte [of 16 b] byte [of 8 c] byte [of 0 d]
    by (simp add: bit_from_be32)
qed

definition frame_fits :: "byte list \<Rightarrow> bool" where
  "frame_fits payload \<longleftrightarrow> length payload < 2 ^ 32"

lemma readFrame_putFrame: "frame_fits payload \<Longrightarrow> readFrame (putFrame [] payload @ rest) = Inr (payload, rest)"
  by (simp add: readFrame_def putFrame_def from_be32_be32 frame_fits_def unsigned_of_nat take_bit_nat_eq_self Let_def)

lemma readFrame_split:
  assumes "readFrame src = Inr (g, rest)"
  shows "src = putFrame [] g @ rest \<and> frame_fits g"
proof -
  let ?n = "unat (from_be32 (take 4 src))"
  have len: "4 \<le> length src" and g: "g = take ?n (drop 4 src)" "rest = drop ?n (drop 4 src)" "?n \<le> length src - 4"
    using assms by (auto simp: readFrame_def Let_def split: if_splits)
  obtain a b c d xs where src: "src = a # b # c # d # xs"
    using len by (auto simp: numeral_eq_Suc Suc_le_length_iff)
  have "be32 (from_be32 [a, b, c, d]) = [a, b, c, d]" by (rule be32_from_be32)
  moreover have "length g = ?n" using g(1,3) by simp
  moreover have "?n < 2 ^ 32" using unsigned_less [of "from_be32 (take 4 src)", where ?'a = nat] by simp
  ultimately show ?thesis using g src by (simp add: putFrame_def frame_fits_def)
qed

lemma putFrame_app: "putFrame buf payload = buf @ putFrame [] payload"
  by (simp add: putFrame_def)

lemma foldl_putFrame: "foldl putFrame buf items = buf @ concat (map (putFrame []) items)"
proof (induction items arbitrary: buf)
  case (Cons x items)
  show ?case by (simp only: foldl_Cons Cons.IH putFrame_app [of buf]) simp
qed simp

lemma read_items_concat:
  "list_all frame_fits items \<Longrightarrow> read_items (length items) (concat (map (putFrame []) items) @ rest) = Inr items"
  by (induction items) (simp_all add: readFrame_putFrame)

lemma read_items_split:
  "read_items n body = Inr items \<Longrightarrow> \<exists>rest. body = concat (map (putFrame []) items) @ rest \<and> length items = n"
proof (induction n arbitrary: body items)
  case (Suc n)
  then obtain f b fs where f: "readFrame body = Inr (f, b)" "read_items n b = Inr fs" "items = f # fs"
    by (auto split: sum.splits)
  with Suc.IH [OF f(2)] readFrame_split [OF f(1)] show ?case by auto
qed simp

lemma parseFrames_split:
  assumes "parseFrames body hasGlobals n = Inr (g, fs)"
  shows "\<exists>rest. body = put_globals g @ concat (map (putFrame []) fs) @ rest \<and> length fs = n \<and> (g \<noteq> None \<longleftrightarrow> hasGlobals)"
proof (cases hasGlobals)
  case True
  then obtain x r where x: "readFrame body = Inr (x, r)" "read_items n r = Inr fs" "g = Some x"
    using assms by (auto simp: parseFrames_def split: sum.splits)
  with True read_items_split [OF x(2)] readFrame_split [OF x(1)] show ?thesis by (auto simp: put_globals_def)
next
  case False
  then have "read_items n body = Inr fs" "g = None"
    using assms by (auto simp: parseFrames_def split: sum.splits)
  with False read_items_split show ?thesis by (auto simp: put_globals_def)
qed

text \<open>What buildFrames writes parseFrames reads back, globals and items, when every frame is
  under 4 GiB; and whatever body parseFrames accepts starts with exactly the frames it returns,
  so a truncated body is never taken for a shorter one.\<close>

theorem frames_roundtrip:
  assumes "list_all frame_fits items" "case globals of None \<Rightarrow> True | Some g \<Rightarrow> frame_fits g" "10 \<notin> set header"
  shows "parseFrames (drop (Suc (index_byte 10 (buildFrames header globals items))) (buildFrames header globals items))
      (globals \<noteq> None) (length items) = Inr (globals, items)
    \<and> (parseFrames body hasGlobals n = Inr (g, fs) \<longrightarrow>
        (\<exists>rest. body = put_globals g @ concat (map (putFrame []) fs) @ rest
          \<and> length fs = n \<and> (g \<noteq> None \<longleftrightarrow> hasGlobals)))"
proof
  have body: "buildFrames header globals items = header @ 10 # put_globals globals @ concat (map (putFrame []) items)"
    unfolding buildFrames_def foldl_putFrame by simp
  have "takeWhile (\<lambda>c. c \<noteq> 10) (header @ 10 # xs) = header" for xs
    using assms(3) by (intro takeWhile_eq_all_conv [THEN iffD2, THEN takeWhile_append2 [THEN trans]] | simp add: takeWhile_append)+
  then have "drop (Suc (index_byte 10 (buildFrames header globals items))) (buildFrames header globals items)
      = put_globals globals @ concat (map (putFrame []) items)"
    unfolding body index_byte_def by simp
  then show "parseFrames (drop (Suc (index_byte 10 (buildFrames header globals items))) (buildFrames header globals items))
      (globals \<noteq> None) (length items) = Inr (globals, items)"
    using assms(1,2) read_items_concat [OF assms(1), of "[]"]
    by (cases globals) (simp_all add: parseFrames_def put_globals_def readFrame_putFrame)
qed (blast dest: parseFrames_split)

theorem frames_roundtrip_witness:
  "parseFrames [0, 0, 0, 1, 7, 0, 0, 0, 2, 5, 6] True 1 = Inr (Some [7], [[5, 6]])
   \<and> parseFrames [0, 0, 0, 1, 7, 0, 0, 0, 2, 5] True 1 \<noteq> Inr (Some [7], [[5, 6]])"
proof
  have "parseFrames (drop (Suc (index_byte 10 (buildFrames [1] (Some [7]) [[5, 6]]))) (buildFrames [1] (Some [7]) [[5, 6]])) True 1
      = Inr (Some [7], [[5, 6]])"
    using frames_roundtrip [of "[[5, 6]]" "Some [7]" "[1]" "[]" True 0 None "[]"] by (simp add: frame_fits_def)
  then show "parseFrames [0, 0, 0, 1, 7, 0, 0, 0, 2, 5, 6] True 1 = Inr (Some [7], [[5, 6]])"
    by (simp add: buildFrames_def put_globals_def putFrame_def be32_def index_byte_def)
  show "parseFrames [0, 0, 0, 1, 7, 0, 0, 0, 2, 5] True 1 \<noteq> Inr (Some [7], [[5, 6]])"
    using frames_roundtrip [of "[[5, 6]]" "Some [7]" "[1]" "[0, 0, 0, 1, 7, 0, 0, 0, 2, 5]" True 1 "Some [7]" "[[5, 6]]"]
    by (auto simp: frame_fits_def put_globals_def putFrame_def be32_def)
qed

subsection \<open>The globals cache\<close>

definition content_addressed :: "(byte list \<Rightarrow> string) \<Rightarrow> cache \<Rightarrow> bool" where
  "content_addressed sha c \<longleftrightarrow> list_all (\<lambda>(s, b). sha (bl_Data b) = s) c"

lemma content_addressed_delete: "content_addressed sha c \<Longrightarrow> content_addressed sha (AList.delete k c)"
  unfolding content_addressed_def by (induction c) (auto split: if_splits)

lemma content_addressed_update:
  "content_addressed sha c \<Longrightarrow> sha (bl_Data b) = s \<Longrightarrow> content_addressed sha (AList.update s b c)"
  unfolding content_addressed_def by (induction c) auto

lemma content_addressed_prune: "content_addressed sha c \<Longrightarrow> content_addressed sha (prune_from items sz bound c)"
  by (induction items sz bound c rule: prune_from.induct) (auto intro: content_addressed_delete)

lemma content_addressed_store: "content_addressed sha c \<Longrightarrow> content_addressed sha (storeGlobals sha now s g c)"
  by (auto simp: storeGlobals_def pruneGlobals_def intro!: content_addressed_prune content_addressed_update)

lemma content_addressed_look: "content_addressed sha c \<Longrightarrow> map_of c s = Some b \<Longrightarrow> sha (bl_Data b) = s"
  unfolding content_addressed_def by (induction c) (auto split: if_splits)

lemma split_join:
  assumes "parse (print_hdr hdr) = Some hdr" "10 \<notin> set (print_hdr hdr)" "print_hdr hdr \<noteq> []"
    and "hd_items_frames hdr = Some n" "0 < n"
  shows "splitFramesHeader parse (joinFrames print_hdr hdr g rest) = Some (hdr, put_globals g @ rest)"
proof -
  have "takeWhile (\<lambda>c. c \<noteq> 10) (print_hdr hdr @ 10 # xs) = print_hdr hdr" for xs
    using assms(2) by (intro takeWhile_eq_all_conv [THEN iffD2, THEN takeWhile_append2 [THEN trans]] | simp add: takeWhile_append)+
  then have "index_byte 10 (joinFrames print_hdr hdr g rest) = length (print_hdr hdr)"
    by (simp add: index_byte_def joinFrames_def)
  then show ?thesis using assms by (simp add: splitFramesHeader_def joinFrames_def Let_def)
qed


definition header_codec ::
  "(byte list \<Rightarrow> frames_header option) \<Rightarrow> (frames_header \<Rightarrow> byte list) \<Rightarrow> frames_header \<Rightarrow> bool" where
  "header_codec parse print_hdr h \<longleftrightarrow> parse (print_hdr h) = Some h \<and> 10 \<notin> set (print_hdr h) \<and> print_hdr h \<noteq> []"

definition no_collision :: "(byte list \<Rightarrow> string) \<Rightarrow> byte list \<Rightarrow> cache \<Rightarrow> bool" where
  "no_collision sha g c \<longleftrightarrow> list_all (\<lambda>(s, b). sha (bl_Data b) = sha g \<longrightarrow> bl_Data b = g) c"

lemma no_collision_look: "no_collision sha g c \<Longrightarrow> content_addressed sha c \<Longrightarrow> map_of c (sha g) = Some b \<Longrightarrow> bl_Data b = g"
  using content_addressed_look [of sha c "sha g" b] map_of_SomeD [of c "sha g" b]
  by (auto simp: no_collision_def list_all_iff)

lemma split_codec:
  assumes "header_codec parse print_hdr h" "hd_items_frames h = Some n" "0 < n"
  shows "splitFramesHeader parse (joinFrames print_hdr h g rest) = Some (h, put_globals g @ rest)"
  using split_join [of parse print_hdr h n g rest] assms by (simp add: header_codec_def)

text \<open>A body with its globals is stored and passed on as it is.\<close>

lemma decode_full:
  assumes "header_codec parse print_hdr h" "hd_items_frames h = Some n" "0 < n" "frame_fits g"
    and "hd_globals h" "hd_globals_sha256 h = sha g" "validSha256 (sha g)"
  shows "decodePoolBody parse print_hdr sha unzstd now [] (joinFrames print_hdr h (Some g) rest) c
      = (Inr (joinFrames print_hdr h (Some g) rest), storeGlobals sha now (sha g) g c)"
proof -
  have "sha g \<noteq> []" using assms(7) by (auto simp: validSha256_def)
  then show ?thesis
    using split_codec [OF assms(1,2,3), of "Some g" rest] assms(4-7)
    by (simp add: decodePoolBody_def put_globals_def readFrame_putFrame)
qed

text \<open>A body with the hash alone gets them back, or asks for them.\<close>

lemma decode_by_hash:
  assumes "header_codec parse print_hdr h" "hd_items_frames h = Some n" "0 < n"
    and "\<not> hd_globals h" "hd_globals_sha256 h = sha g" "validSha256 (sha g)"
    and "content_addressed sha c" "no_collision sha g c"
  shows "fst (decodePoolBody parse print_hdr sha unzstd now [] (joinFrames print_hdr h None rest) c)
      = (if map_of c (sha g) = None then Inl (MissingGlobals (sha g))
         else Inr (joinFrames print_hdr (h\<lparr>hd_globals := True\<rparr>) (Some g) rest))"
proof -
  have "sha g \<noteq> []" using assms(6) by (auto simp: validSha256_def)
  then show ?thesis
    using split_codec [OF assms(1,2,3), of None rest] assms(4-6) no_collision_look [OF assms(8,7)]
    by (cases "map_of c (sha g)") (simp_all add: decodePoolBody_def put_globals_def)
qed

lemma buildFrames_join: "buildFrames line g items = joinFrames (\<lambda>_. line) h g (concat (map (putFrame []) items))"
  unfolding buildFrames_def foldl_putFrame joinFrames_def by simp

lemma globalsByHash_build:
  assumes "header_codec parse (\<lambda>_. line) h" "hd_items_frames h = Some n" "0 < n" "frame_fits g"
    and "hd_globals h" "globalsByHashMin \<le> length g"
  shows "fst (globalsByHash parse print_hdr sha now held (buildFrames line (Some g) items))
      = (let rest = concat (map (putFrame []) items) in
         if map_of held (sha g) = None then joinFrames print_hdr (h\<lparr>hd_globals_sha256 := sha g\<rparr>) (Some g) rest
         else joinFrames print_hdr (h\<lparr>hd_globals_sha256 := sha g, hd_globals := False\<rparr>) None rest)"
  using split_codec [OF assms(1,2,3), of "Some g"] assms(4-6)
  by (simp add: buildFrames_join [of line "Some g" items h] globalsByHash_def put_globals_def readFrame_putFrame Let_def)

lemma forget_lookup: "map_of (forgetPeerGlobals s held) s = None"
  by (simp add: forgetPeerGlobals_def delete_conv')

text \<open>The body a peer works on, whichever way its globals came.\<close>

definition arrived :: "(frames_header \<Rightarrow> byte list) \<Rightarrow> (byte list \<Rightarrow> string) \<Rightarrow> frames_header \<Rightarrow> byte list \<Rightarrow> byte list list \<Rightarrow> byte list" where
  "arrived print_hdr sha h g items = buildFrames (print_hdr (h\<lparr>hd_globals_sha256 := sha g\<rparr>)) (Some g) items"

lemma arrived_join: "arrived print_hdr sha h g items
    = joinFrames print_hdr (h\<lparr>hd_globals_sha256 := sha g\<rparr>) (Some g) (concat (map (putFrame []) items))"
  unfolding arrived_def buildFrames_join [where h = h] joinFrames_def by simp



end
