(* ===== verification/Rates.thy ===== *)
theory Rates
  imports Schedule GoMap
begin

text \<open>
  How fast each peer is, learnt from the parts it ran: \<^verbatim>\<open>rateModel\<close> of
  \<^verbatim>\<open>src/internal/daemonapi/poolrates.go\<close>. A ring of the last eight observations per key and
  the line fitted through them. Durations are seconds; the mutex is left out, since every
  method holds it from its first read to its last write.
\<close>

subsection \<open>Data\<close>

definition obsWindow :: nat where "obsWindow = 8"

record obs =
  ob_items :: f64
  ob_sec :: f64

record peerObs =
  po_ring :: "obs list"
  po_next :: nat

type_synonym rateModel = "(string \<times> peerObs) list"

definition newRateModel :: rateModel where "newRateModel = []"

definition ring_add :: "obs \<Rightarrow> peerObs \<Rightarrow> peerObs" where
  "ring_add ob p =
     (if length (po_ring p) < obsWindow then p\<lparr>po_ring := po_ring p @ [ob]\<rparr>
      else p\<lparr>po_ring := (po_ring p)[po_next p := ob], po_next := (po_next p + 1) mod obsWindow\<rparr>)"

definition observe :: "string \<Rightarrow> int \<Rightarrow> f64 \<Rightarrow> rateModel \<Rightarrow> rateModel" where
  "observe peer items d m =
     (if items \<le> 0 \<or> d \<le> 0 then m
      else let p = (case map_of m peer of None \<Rightarrow> \<lparr>po_ring = [], po_next = 0\<rparr> | Some p \<Rightarrow> p)
           in AList.update peer (ring_add \<lparr>ob_items = of_int items, ob_sec = d\<rparr> p) m)"

subsection \<open>The fit\<close>

record fit_sums =
  s_n :: f64
  s_x :: f64
  s_y :: f64
  s_xx :: f64
  s_xy :: f64

fun add_obs :: "obs \<Rightarrow> fit_sums \<Rightarrow> fit_sums" where
  "add_obs ob s = \<lparr>s_n = s_n s + 1, s_x = s_x s + ob_items ob, s_y = s_y s + ob_sec ob,
     s_xx = s_xx s + ob_items ob * ob_items ob, s_xy = s_xy s + ob_items ob * ob_sec ob\<rparr>"

definition sums_of :: "obs list \<Rightarrow> fit_sums" where
  "sums_of os = fold add_obs os \<lparr>s_n = 0, s_x = 0, s_y = 0, s_xx = 0, s_xy = 0\<rparr>"

definition mean_fit :: "fit_sums \<Rightarrow> (f64 \<times> f64) option" where
  "mean_fit s = (if s_y s \<le> 0 then None else Some (s_x s / s_y s, 0))"

text \<open>\<open>None\<close> is \<open>ok = false\<close>; else the items per second and the fixed seconds.\<close>

definition fitLine :: "obs list \<Rightarrow> (f64 \<times> f64) option" where
  "fitLine os =
     (if os = [] then None
      else let s = sums_of os
      in if s_n s < 2 then mean_fit s
         else let denom = s_n s * s_xx s - s_x s * s_x s
         in if denom = 0 then mean_fit s
            else let slope = (s_n s * s_xy s - s_x s * s_y s) / denom;
                     intercept = (s_y s - slope * s_x s) / s_n s
                 in if slope \<le> 0 then mean_fit s
                    else Some (1 / slope, if intercept < 0 then 0 else intercept))"

definition fit :: "string \<Rightarrow> rateModel \<Rightarrow> (f64 \<times> f64) option" where
  "fit peer m =
     (case map_of m peer of
        None \<Rightarrow> None
      | Some p \<Rightarrow> if po_ring p = [] then None else fitLine (po_ring p))"

text \<open>The guess for a peer with no measurement, from core counts; \<open>numCPU\<close> is this node's.\<close>

definition coresPrior :: "int \<Rightarrow> int \<Rightarrow> f64 \<Rightarrow> f64 \<times> f64" where
  "coresPrior numCPU c localRate =
     (let c = (if c \<le> 0 then numCPU else c);
          rate = localRate * of_int c / of_int (max 1 numCPU);
          rate = (if rate \<le> 0 then of_int c else rate)
      in (rate, 1 / 20))"

definition rateKey :: "string \<Rightarrow> string \<Rightarrow> string" where
  "rateKey key fn = (if fn = [] then key else key @ [CHR 0x00] @ fn)"

subsection \<open>The sums\<close>

lemma divide_pos_swap: "0 < a / b \<Longrightarrow> 0 < b / (a :: f64)"
  by (auto simp: zero_less_divide_iff)

abbreviation total_f :: "(obs \<Rightarrow> f64) \<Rightarrow> obs list \<Rightarrow> f64" where
  "total_f f os \<equiv> sum_list (map f os)"

lemma fold_add_obs:
  "fold add_obs os s = \<lparr>s_n = s_n s + of_nat (length os), s_x = s_x s + total_f ob_items os,
     s_y = s_y s + total_f ob_sec os, s_xx = s_xx s + total_f (\<lambda>ob. ob_items ob * ob_items ob) os,
     s_xy = s_xy s + total_f (\<lambda>ob. ob_items ob * ob_sec ob) os\<rparr>"
  by (induction os arbitrary: s) (simp_all add: algebra_simps)

lemma sums_of_eq: "sums_of os = \<lparr>s_n = of_nat (length os), s_x = total_f ob_items os,
    s_y = total_f ob_sec os, s_xx = total_f (\<lambda>ob. ob_items ob * ob_items ob) os,
    s_xy = total_f (\<lambda>ob. ob_items ob * ob_sec ob) os\<rparr>"
  by (simp add: sums_of_def fold_add_obs)

text \<open>The fit does not depend on the order of the ring.\<close>

lemma fitLine_perm:
  assumes "mset os = mset os'"
  shows "fitLine os = fitLine os'"
proof -
  have "sums_of os = sums_of os'"
    unfolding sums_of_eq sum_list_map_perm [OF assms] mset_eq_length [OF assms] ..
  moreover have "os = [] \<longleftrightarrow> os' = []" using assms by auto
  ultimately show ?thesis by (simp add: fitLine_def)
qed

definition physical :: "obs \<Rightarrow> bool" where
  "physical ob \<longleftrightarrow> 0 < ob_items ob \<and> 0 < ob_sec ob"

lemma total_f_pos: "os \<noteq> [] \<Longrightarrow> list_all (\<lambda>ob. 0 < f ob) os \<Longrightarrow> 0 < total_f f os"
proof (induction os)
  case (Cons a os)
  then show ?case by (cases os) auto
qed simp

text \<open>Measured parts always give a usable speed.\<close>

lemma fitLine_total:
  assumes "os \<noteq> []" "list_all physical os"
  shows "\<exists>rate su. fitLine os = Some (rate, su) \<and> 0 < rate \<and> 0 \<le> su"
proof -
  have "0 < total_f ob_items os" "0 < total_f ob_sec os"
    using assms by (intro total_f_pos; simp add: physical_def list_all_iff)+
  then have "\<exists>rate. mean_fit (sums_of os) = Some (rate, 0) \<and> 0 < rate"
    by (simp add: mean_fit_def sums_of_eq)
  then show ?thesis using assms(1) by (auto simp: fitLine_def Let_def not_le intro: divide_pos_swap)
qed


subsection \<open>Least squares\<close>

definition sq_err :: "obs list \<Rightarrow> f64 \<Rightarrow> f64 \<Rightarrow> f64" where
  "sq_err os a b = total_f (\<lambda>ob. (ob_sec ob - (a + b * ob_items ob)) ^ 2) os"

lemma sq_err_expand:
  "sq_err os a b = total_f (\<lambda>ob. ob_sec ob * ob_sec ob) os - 2 * a * s_y (sums_of os) - 2 * b * s_xy (sums_of os)
     + a * a * s_n (sums_of os) + 2 * a * b * s_x (sums_of os) + b * b * s_xx (sums_of os)"
  unfolding sq_err_def sums_of_eq by (induction os) (simp_all add: algebra_simps power2_eq_square)

lemma quadratic_sum:
  "d * d * s_n (sums_of os) + 2 * d * e * s_x (sums_of os) + e * e * s_xx (sums_of os)
     = total_f (\<lambda>ob. (d + e * ob_items ob) ^ 2) os"
  unfolding sums_of_eq by (induction os) (simp_all add: algebra_simps power2_eq_square)

lemma total_f_sq_nonneg: "0 \<le> total_f (\<lambda>ob. (f ob) ^ 2) os"
  by (induction os) simp_all

lemma least_squares:
  assumes "s_n s * A + B * s_x s = s_y s" "A * s_x s + B * s_xx s = s_xy s" "s = sums_of os"
  shows "sq_err os A B \<le> sq_err os a b"
proof -
  have "sq_err os a b - sq_err os A B
      = (a - A) * (a - A) * s_n s + 2 * (a - A) * (b - B) * s_x s + (b - B) * (b - B) * s_xx s"
    unfolding sq_err_expand assms(3) [symmetric] assms(1,2) [symmetric] by (simp add: algebra_simps)
  also have "\<dots> \<ge> 0" unfolding assms(3) quadratic_sum by (rule total_f_sq_nonneg)
  finally show ?thesis by simp
qed

text \<open>A fixed cost above zero can only come from the line, whose two equations are the normal ones.\<close>

lemma fitLine_normal:
  assumes "fitLine os = Some (rate, su)" "0 < su" "s = sums_of os"
  shows "s_n s * su + 1 / rate * s_x s = s_y s \<and> su * s_x s + 1 / rate * s_xx s = s_xy s \<and> 0 < rate"
proof -
  let ?D = "s_n s * s_xx s - s_x s * s_x s" and ?N = "s_n s * s_xy s - s_x s * s_y s"
  let ?B = "?N / ?D"
  have n: "2 \<le> s_n s" and D: "?D \<noteq> 0" and B: "0 < ?B" "rate = 1 / ?B"
    and A: "su = (s_y s - ?B * s_x s) / s_n s"
    using assms by (auto simp: fitLine_def mean_fit_def Let_def split: if_splits)
  have r: "1 / rate = ?B" "0 < rate" using B divide_pos_swap [OF B(1)] by simp_all
  have 1: "s_n s * su + ?B * s_x s = s_y s" using A n by simp
  have BD: "?B * ?D = ?N" using D by simp
  have "s_n s * (su * s_x s + b * s_xx s) = s_x s * (s_n s * su + b * s_x s) + b * ?D" for b
    by (simp add: algebra_simps)
  from this [of ?B] have "s_n s * (su * s_x s + ?B * s_xx s) = s_x s * s_y s + ?N" unfolding 1 BD .
  also have "\<dots> = s_n s * s_xy s" by simp
  finally have 2: "su * s_x s + ?B * s_xx s = s_xy s" using n by simp
  show ?thesis using 1 2 r by simp
qed

lemma spread_pos:
  assumes "ob \<in> set os" "ob' \<in> set os" "ob_items ob \<noteq> ob_items ob'"
  shows "0 < s_n (sums_of os) * s_xx (sums_of os) - s_x (sums_of os) * s_x (sums_of os)"
proof -
  let ?s = "sums_of os"
  have n: "0 < s_n ?s" using assms(1) by (cases os) (auto simp: sums_of_eq)
  define m where "m = - s_x ?s / s_n ?s"
  have "s_n ?s * s_xx ?s - s_x ?s * s_x ?s = s_n ?s * (m * m * s_n ?s + 2 * m * 1 * s_x ?s + 1 * 1 * s_xx ?s)"
    using n by (simp add: m_def field_simps)
  also have "\<dots> = s_n ?s * total_f (\<lambda>ob. (m + 1 * ob_items ob) ^ 2) os" by (simp only: quadratic_sum)
  finally have eq: "s_n ?s * s_xx ?s - s_x ?s * s_x ?s = s_n ?s * total_f (\<lambda>ob. (m + ob_items ob) ^ 2) os" by simp
  have "total_f (\<lambda>ob. (m + ob_items ob) ^ 2) os \<noteq> 0"
  proof
    assume "total_f (\<lambda>ob. (m + ob_items ob) ^ 2) os = 0"
    then have "\<forall>x \<in> set (map (\<lambda>ob. (m + ob_items ob) ^ 2) os). x = 0"
      by (subst (asm) sum_list_nonneg_eq_0_iff) auto
    then have "m + ob_items ob = 0" "m + ob_items ob' = 0" using assms(1,2) by auto
    with assms(3) show False by auto
  qed
  with total_f_sq_nonneg [of "\<lambda>ob. m + ob_items ob" os] n show ?thesis unfolding eq by simp
qed

lemma fitLine_exact:
  assumes "list_all (\<lambda>ob. ob_sec ob = su + ob_items ob / rate) os" "0 < rate" "0 \<le> su"
    and "ob \<in> set os" "ob' \<in> set os" "ob_items ob \<noteq> ob_items ob'"
  shows "fitLine os = Some (rate, su)"
proof -
  let ?s = "sums_of os"
  let ?D = "s_n ?s * s_xx ?s - s_x ?s * s_x ?s"
  have "s_y ?s = su * s_n ?s + s_x ?s / rate \<and> s_xy ?s = su * s_x ?s + s_xx ?s / rate"
    using assms(1) unfolding sums_of_eq by (induction os) (simp_all add: algebra_simps add_divide_distrib)
  then have y: "s_y ?s = su * s_n ?s + s_x ?s / rate" "s_xy ?s = su * s_x ?s + s_xx ?s / rate" by simp_all
  have D: "0 < ?D" by (rule spread_pos [OF assms(4-6)])
  have "2 \<le> length os"
    using assms(4-6) by (cases os rule: remdups_adj.cases) auto
  then have n: "2 \<le> s_n ?s" by (simp add: sums_of_eq)
  have "s_n ?s * s_xy ?s - s_x ?s * s_y ?s = ?D / rate"
    unfolding y by (simp add: algebra_simps diff_divide_distrib)
  then have slope: "(s_n ?s * s_xy ?s - s_x ?s * s_y ?s) / ?D = 1 / rate" using D by simp
  have "(s_y ?s - 1 / rate * s_x ?s) / s_n ?s = su" using y n by simp
  moreover have "os \<noteq> []" using assms(4) by auto
  ultimately show ?thesis using n D slope assms(2,3) by (simp add: fitLine_def Let_def)
qed

text \<open>What the line fit says of a peer: whenever it reports a fixed cost, cost and seconds
  per item are the least squares line through the observations, no other line fits them better;
  and when the parts really took a fixed cost plus a time per item, with two different sizes
  among them, it recovers both exactly.\<close>

theorem fitLine_least_squares:
  assumes "fitLine os = Some (rate, su)" "0 < su"
    and "list_all (\<lambda>ob. ob_sec ob = su' + ob_items ob / rate') os'" "0 < rate'" "0 \<le> su'"
    and "ob \<in> set os'" "ob' \<in> set os'" "ob_items ob \<noteq> ob_items ob'"
  shows "sq_err os su (1 / rate) \<le> sq_err os a b \<and> 0 < rate \<and> fitLine os' = Some (rate', su')"
  using fitLine_normal [OF assms(1,2) refl] least_squares [OF _ _ refl, of os su "1 / rate"]
    fitLine_exact [OF assms(3-8)] by blast

theorem fitLine_least_squares_witness:
  "fitLine [\<lparr>ob_items = 1, ob_sec = 3\<rparr>, \<lparr>ob_items = 2, ob_sec = 4\<rparr>] = Some (1, 2)
   \<and> sq_err [\<lparr>ob_items = 1, ob_sec = 3\<rparr>, \<lparr>ob_items = 2, ob_sec = 4\<rparr>] 2 1
     \<le> sq_err [\<lparr>ob_items = 1, ob_sec = 3\<rparr>, \<lparr>ob_items = 2, ob_sec = 4\<rparr>] 0 2"
proof -
  let ?os = "[\<lparr>ob_items = 1, ob_sec = 3\<rparr>, \<lparr>ob_items = 2, ob_sec = 4\<rparr>]"
  have "fitLine ?os = Some (1, 2)" by (simp add: fitLine_def sums_of_eq Let_def)
  then show ?thesis
    using fitLine_least_squares [of ?os 1 2 2 1 ?os "?os ! 0" "?os ! 1" 0 2] by simp
qed

subsection \<open>The window\<close>

lemma mset_rotated: "mset (drop k r @ take k r) = mset r"
proof -
  have "mset (drop k r @ take k r) = mset (take k r @ drop k r)" by (simp only: mset_append add.commute)
  then show ?thesis by simp
qed

definition last_window :: "obs list \<Rightarrow> obs list" where
  "last_window xs = drop (length xs - obsWindow) xs"

lemma last_window_Nil [simp]: "last_window xs = [] \<longleftrightarrow> xs = []"
  by (cases xs) (auto simp: last_window_def obsWindow_def)

text \<open>The ring, read from its oldest entry, is the window.\<close>

definition ring_is :: "obs list \<Rightarrow> peerObs \<Rightarrow> bool" where
  "ring_is xs p \<longleftrightarrow> drop (po_next p) (po_ring p) @ take (po_next p) (po_ring p) = last_window xs
     \<and> length (po_ring p) = min obsWindow (length xs) \<and> po_next p < obsWindow
     \<and> (length (po_ring p) < obsWindow \<longrightarrow> po_next p = 0)"

lemma rotate_overwrite:
  assumes "k < length r" "length r = n"
  shows "(let k' = (k + 1) mod n; r' = r[k := x] in drop k' r' @ take k' r') = tl (drop k r @ take k r) @ [x]"
proof (cases "k + 1 = n")
  case True
  then obtain ys y where r: "r = ys @ [y]" "length ys = k"
    using assms by (cases r rule: rev_cases) auto
  then show ?thesis using True by (simp add: Let_def list_update_append)
next
  case False
  then have k: "Suc k mod n = Suc k" using assms by simp
  have "drop k r = r ! k # drop (Suc k) r" using assms(1) by (simp add: Cons_nth_drop_Suc)
  then show ?thesis using assms by (simp add: k Let_def take_Suc_conv_app_nth)
qed

lemma ring_add_window:
  assumes "ring_is xs p"
  shows "ring_is (xs @ [x]) (ring_add x p)"
proof (cases "length (po_ring p) < obsWindow")
  case True
  then have "length xs < obsWindow" "po_next p = 0" using assms by (auto simp: ring_is_def)
  then show ?thesis using assms True by (simp add: ring_is_def ring_add_def last_window_def)
next
  case False
  then have full: "length (po_ring p) = obsWindow" "obsWindow \<le> length xs" "po_next p < length (po_ring p)"
    using assms by (auto simp: ring_is_def)
  have pos: "0 < obsWindow" by (simp add: obsWindow_def)
  have "length (xs @ [x]) - obsWindow = Suc (length xs - obsWindow)" using full by simp
  then have "last_window (xs @ [x]) = tl (last_window xs) @ [x]"
    using full pos by (simp add: last_window_def drop_Suc tl_drop)
  then show ?thesis
    using assms full pos rotate_overwrite [OF full(3,1), of x]
    by (simp add: ring_is_def ring_add_def Let_def)
qed

text \<open>What the model kept of a sequence of observations.\<close>

definition accepted :: "string \<Rightarrow> (string \<times> int \<times> f64) list \<Rightarrow> obs list" where
  "accepted peer es = map (\<lambda>(_, items, d). \<lparr>ob_items = of_int items, ob_sec = d\<rparr>)
     (filter (\<lambda>(p, items, d). p = peer \<and> 0 < items \<and> 0 < d) es)"

definition observe_all :: "(string \<times> int \<times> f64) list \<Rightarrow> rateModel \<Rightarrow> rateModel" where
  "observe_all = fold (\<lambda>(p, items, d). observe p items d)"

lemma accepted_physical: "list_all physical (accepted peer es)"
  by (auto simp: accepted_def physical_def list_all_iff)

fun kept :: "obs list \<Rightarrow> peerObs option \<Rightarrow> bool" where
  "kept xs None \<longleftrightarrow> xs = []"
| "kept xs (Some p) \<longleftrightarrow> xs \<noteq> [] \<and> ring_is xs p"

definition model_is :: "(string \<times> int \<times> f64) list \<Rightarrow> rateModel \<Rightarrow> bool" where
  "model_is es m \<longleftrightarrow> (\<forall>peer. kept (accepted peer es) (map_of m peer))"

lemma ring_is_Nil: "ring_is [] \<lparr>po_ring = [], po_next = 0\<rparr>"
  by (simp add: ring_is_def last_window_def obsWindow_def)

lemma observe_model:
  assumes "model_is es m"
  shows "model_is (es @ [(p, items, d)]) (observe p items d m)"
proof (cases "items \<le> 0 \<or> d \<le> 0")
  case True
  then have "accepted q (es @ [(p, items, d)]) = accepted q es" for q by (auto simp: accepted_def)
  with True assms show ?thesis by (auto simp: model_is_def observe_def)
next
  case False
  then have app: "accepted q (es @ [(p, items, d)])
      = accepted q es @ (if q = p then [\<lparr>ob_items = of_int items, ob_sec = d\<rparr>] else [])" for q
    by (simp add: accepted_def)
  have "ring_is (accepted p es) (case map_of m p of None \<Rightarrow> \<lparr>po_ring = [], po_next = 0\<rparr> | Some p \<Rightarrow> p)"
    using assms ring_is_Nil by (cases "map_of m p") (auto simp: model_is_def dest: spec [of _ p])
  from ring_add_window [OF this] False show ?thesis
    using assms by (simp add: model_is_def observe_def app update_conv' Let_def)
qed

lemma observe_all_model: "model_is es (observe_all es newRateModel)"
proof (induction es rule: rev_induct)
  case Nil
  then show ?case by (simp add: model_is_def observe_all_def newRateModel_def accepted_def)
next
  case (snoc e es)
  then show ?case using observe_model by (cases e) (simp add: observe_all_def)
qed

lemma fit_window:
  assumes "model_is es m"
  shows "fit peer m = (if accepted peer es = [] then None else fitLine (last_window (accepted peer es)))"
proof (cases "map_of m peer")
  case None
  then show ?thesis using assms by (auto simp: model_is_def fit_def dest: spec [of _ peer])
next
  case (Some p)
  then have "accepted peer es \<noteq> []" and r: "ring_is (accepted peer es) p"
    using assms by (auto simp: model_is_def dest: spec [of _ peer])
  then have w: "drop (po_next p) (po_ring p) @ take (po_next p) (po_ring p) = last_window (accepted peer es)"
    by (simp add: ring_is_def)
  have "mset (po_ring p) = mset (last_window (accepted peer es))"
    unfolding w [symmetric] by (rule mset_rotated [symmetric])
  moreover have "po_ring p \<noteq> []" using w \<open>accepted peer es \<noteq> []\<close> last_window_Nil by fastforce
  ultimately show ?thesis
    using Some \<open>accepted peer es \<noteq> []\<close> fitLine_perm [of "po_ring p" "last_window (accepted peer es)"] by (simp add: fit_def)
qed

text \<open>The speed of a peer is fitted through exactly its last eight parts of positive size
  and time, wherever the ring stands and whatever other peers did in between; it is known from the
  first such part on, with a positive rate and no negative fixed cost.\<close>

theorem fit_of_last_eight:
  assumes "0 < items" "0 < d"
  shows "let m = observe_all (es @ [(peer, items, d)]) newRateModel in
    fit peer m = fitLine (last_window (accepted peer (es @ [(peer, items, d)])))
    \<and> (\<exists>rate su. fit peer m = Some (rate, su) \<and> 0 < rate \<and> 0 \<le> su)"
proof -
  let ?es = "es @ [(peer, items, d)]"
  let ?w = "last_window (accepted peer ?es)"
  have ne: "accepted peer ?es \<noteq> []" using assms by (simp add: accepted_def)
  have "?w \<noteq> []" using ne by simp
  moreover have "list_all physical ?w"
    using accepted_physical [of peer ?es] by (auto simp: list_all_iff last_window_def dest: in_set_dropD)
  ultimately show ?thesis
    using fitLine_total [of ?w] ne by (simp add: Let_def fit_window [OF observe_all_model])
qed

theorem fit_of_last_eight_witness:
  "fit ''a'' (observe_all ([(''a'', 1, 3), (''b'', 5, 1)] @ [(''a'', 2, 4)]) newRateModel) = Some (1, 2)"
  using fit_of_last_eight [of 2 4 "[(''a'', 1, 3), (''b'', 5, 1)]" "''a''"]
  by (simp add: accepted_def last_window_def obsWindow_def fitLine_def sums_of_eq Let_def)

end
