(* ===== verification/FlightBook.thy ===== *)
theory FlightBook
  imports Schedule GoMap
begin

text \<open>
  Which parts run on which node right now: \<^verbatim>\<open>flightBook\<close> of
  \<^verbatim>\<open>src/internal/daemonapi/poolrates.go\<close> and its gate in \<^verbatim>\<open>poolsteal.go\<close>. Every method holds
  the book's mutex throughout, so a method is one step; what \<open>acquireFirst\<close> does while it waits
  is the sequence of books it finds each time it is woken. A node without an entry and a node
  with an empty one read the same everywhere, so \<open>node\<close> does not create the entry.
\<close>

subsection \<open>Data\<close>

record slot =
  sl_key :: string
  sl_depth :: int
  sl_pred :: f64

record flight =
  fl_start :: f64
  fl_pred :: f64

type_synonym busy = "(nat \<times> flight) list"

record flightBook =
  fb_next :: nat
  fb_nodes :: "(string \<times> busy) list"

definition empty_book :: flightBook where
  "empty_book = \<lparr>fb_next = 0, fb_nodes = []\<rparr>"

definition node :: "flightBook \<Rightarrow> string \<Rightarrow> busy" where
  "node b key = (case map_of (fb_nodes b) key of None \<Rightarrow> [] | Some n \<Rightarrow> n)"

subsection \<open>Operations\<close>

definition free :: "flightBook \<Rightarrow> slot \<Rightarrow> bool" where
  "free b c \<longleftrightarrow> int (length (node b (sl_key c))) < max (sl_depth c) 1"

text \<open>\<open>bookLocked\<close> gives the id its release deletes; the release is \<open>release_part\<close>.\<close>

definition bookLocked :: "slot \<Rightarrow> f64 \<Rightarrow> flightBook \<Rightarrow> nat \<times> flightBook" where
  "bookLocked c now b =
     (let n = node b (sl_key c); i = fb_next b + 1
      in (i, b\<lparr>fb_next := i, fb_nodes := AList.update (sl_key c)
             (AList.update i \<lparr>fl_start = now, fl_pred = sl_pred c\<rparr> n) (fb_nodes b)\<rparr>))"

definition release_part :: "string \<Rightarrow> nat \<Rightarrow> flightBook \<Rightarrow> flightBook" where
  "release_part key i b = b\<lparr>fb_nodes := AList.update key (AList.delete i (node b key)) (fb_nodes b)\<rparr>"

definition remaining :: "f64 \<Rightarrow> flight \<Rightarrow> f64" where
  "remaining now f =
     (let el = now - fl_start f
      in if fl_pred f < el then max (el - fl_pred f) (fl_pred f) else fl_pred f - el)"

definition earliestFree :: "flightBook \<Rightarrow> string \<Rightarrow> f64 \<Rightarrow> f64" where
  "earliestFree b key now =
     (case map (remaining now \<circ> snd) (node b key) of [] \<Rightarrow> 0 | r # rs \<Rightarrow> fold min rs r)"

text \<open>The scan of the other candidates: the index and prediction of the best so far.\<close>

fun steal_scan :: "flightBook \<Rightarrow> f64 \<Rightarrow> nat \<Rightarrow> (nat \<times> f64) option \<Rightarrow> slot list \<Rightarrow> (nat \<times> f64) option" where
  "steal_scan b bound i pick [] = pick"
| "steal_scan b bound i pick (c # cs) =
     steal_scan b bound (Suc i)
       (if free b c \<and> sl_pred c < bound \<and> (case pick of None \<Rightarrow> True | Some (_, p) \<Rightarrow> sl_pred c < p)
        then Some (i, sl_pred c) else pick) cs"

definition acquire_pick :: "slot \<Rightarrow> slot list \<Rightarrow> f64 \<Rightarrow> flightBook \<Rightarrow> nat option" where
  "acquire_pick c cs now b =
     (if free b c then Some 0
      else if cs = [] then None
      else map_option fst (steal_scan b (earliestFree b (sl_key c) now + sl_pred c) 1 None cs))"

text \<open>\<open>acquireFirst\<close> over the times it wakes and the books it finds then; \<open>None\<close> is the end of
  the context while it still waits. The result is the index taken, the part's id and the book.\<close>

fun acquireFirst :: "slot \<Rightarrow> slot list \<Rightarrow> (f64 \<times> flightBook) list \<Rightarrow> (nat \<times> nat \<times> flightBook) option" where
  "acquireFirst c cs [] = None"
| "acquireFirst c cs ((now, b) # rounds) =
     (case acquire_pick c cs now b of
        None \<Rightarrow> acquireFirst c cs rounds
      | Some i \<Rightarrow> Some (i, bookLocked ((c # cs) ! i) now b))"

definition acquire :: "string \<Rightarrow> int \<Rightarrow> f64 \<Rightarrow> (f64 \<times> flightBook) list \<Rightarrow> (nat \<times> flightBook) option" where
  "acquire key depth pred rounds =
     map_option snd (acquireFirst \<lparr>sl_key = key, sl_depth = depth, sl_pred = pred\<rparr> [] rounds)"

definition tryAcquire :: "slot \<Rightarrow> f64 \<Rightarrow> flightBook \<Rightarrow> (nat \<times> flightBook) option" where
  "tryAcquire c now b = (if free b c then Some (bookLocked c now b) else None)"

definition held :: "flightBook \<Rightarrow> string \<Rightarrow> nat" where
  "held b key = length (node b key)"

definition backlog :: "flightBook \<Rightarrow> string \<Rightarrow> f64 \<Rightarrow> f64" where
  "backlog b key now = Backlog (map (fl_pred \<circ> snd) (node b key)) (map (\<lambda>(_, f). now - fl_start f) (node b key))"

lemma backlog_nonneg: "0 \<le> backlog b key now"
  by (simp add: backlog_def Backlog_nonneg)

lemma backlog_idle: "held b key = 0 \<Longrightarrow> backlog b key now = 0"
  by (simp add: backlog_def held_def)

subsection \<open>The choice of a candidate\<close>

lemma steal_scan_sound:
  assumes "steal_scan b bound i pick cs = Some (j, p)"
    and "case pick of None \<Rightarrow> True | Some (k, q) \<Rightarrow> k < i \<and> q < bound"
  shows "(pick = Some (j, p) \<or> (i \<le> j \<and> j < i + length cs \<and> free b (cs ! (j - i)) \<and> p = sl_pred (cs ! (j - i)))) \<and> p < bound
    \<and> (case pick of None \<Rightarrow> True | Some (_, q) \<Rightarrow> p \<le> q)
    \<and> (\<forall>c \<in> set cs. free b c \<longrightarrow> p \<le> sl_pred c)"
  using assms
proof (induction cs arbitrary: i pick)
  case (Cons c cs)
  let ?pick = "if free b c \<and> sl_pred c < bound \<and> (case pick of None \<Rightarrow> True | Some (_, p) \<Rightarrow> sl_pred c < p)
    then Some (i, sl_pred c) else pick"
  have IH: "(?pick = Some (j, p) \<or> (Suc i \<le> j \<and> j < Suc i + length cs \<and> free b (cs ! (j - Suc i))
        \<and> p = sl_pred (cs ! (j - Suc i)))) \<and> p < bound
    \<and> (case ?pick of None \<Rightarrow> True | Some (_, q) \<Rightarrow> p \<le> q) \<and> (\<forall>c \<in> set cs. free b c \<longrightarrow> p \<le> sl_pred c)"
    using Cons.prems by (intro Cons.IH) (auto split: option.splits)
  have "(c # cs) ! (j - i) = cs ! (j - Suc i)" if "Suc i \<le> j"
    using that by (simp add: nth_Cons' Suc_diff_le flip: Suc_diff_le)
  then show ?case using IH by (auto split: if_splits option.splits)
qed (auto split: option.splits)

lemma steal_scan_keeps: "steal_scan b bound i (Some x) cs \<noteq> None"
  by (induction cs arbitrary: i x) auto

lemma steal_scan_None:
  "steal_scan b bound i None cs = None \<Longrightarrow> \<forall>c \<in> set cs. free b c \<longrightarrow> bound \<le> sl_pred c"
proof (induction cs arbitrary: i)
  case (Cons c cs)
  then show ?case using steal_scan_keeps by (cases "free b c \<and> sl_pred c < bound") auto
qed simp

text \<open>A candidate worth taking in the place of the planned node.\<close>

definition sooner :: "flightBook \<Rightarrow> f64 \<Rightarrow> slot \<Rightarrow> slot \<Rightarrow> bool" where
  "sooner b now planned c \<longleftrightarrow> free b c \<and> sl_pred c < earliestFree b (sl_key planned) now + sl_pred planned"

lemma acquire_pick_Some:
  assumes "acquire_pick c cs now b = Some i"
  shows "i < length (c # cs) \<and> free b ((c # cs) ! i)
    \<and> (i \<noteq> 0 \<longrightarrow> \<not> free b c \<and> sooner b now c ((c # cs) ! i)
        \<and> (\<forall>c' \<in> set cs. free b c' \<longrightarrow> sl_pred ((c # cs) ! i) \<le> sl_pred c'))"
proof (cases "free b c")
  case False
  then obtain p where "steal_scan b (earliestFree b (sl_key c) now + sl_pred c) 1 None cs = Some (i, p)"
    using assms by (auto simp: acquire_pick_def split: if_splits)
  from steal_scan_sound [OF this] False show ?thesis by (auto simp: sooner_def)
qed (use assms in \<open>simp add: acquire_pick_def\<close>)

lemma acquire_pick_None:
  "acquire_pick c cs now b = None \<Longrightarrow> \<not> free b c \<and> \<not> list_ex (sooner b now c) cs"
  by (auto simp: acquire_pick_def sooner_def list_ex_iff dest!: steal_scan_None split: if_splits)


text \<open>Where a waiting part starts: on its planned node whenever that has room; on another
  candidate only while the planned node is full, when that candidate has room and is predicted to
  finish sooner than waiting would, and then on the fastest of those with room. While a part keeps
  waiting, no candidate was such a choice in any of the books it woke to.\<close>

theorem acquireFirst_choice:
  "case acquireFirst c cs rounds of
     None \<Rightarrow> \<forall>(now, b) \<in> set rounds. \<not> free b c \<and> \<not> list_ex (sooner b now c) cs
   | Some (i, part, b') \<Rightarrow> \<exists>(now, b) \<in> set rounds. i < length (c # cs) \<and> free b ((c # cs) ! i)
       \<and> (part, b') = bookLocked ((c # cs) ! i) now b
       \<and> (i \<noteq> 0 \<longrightarrow> \<not> free b c \<and> sooner b now c ((c # cs) ! i)
           \<and> (\<forall>c' \<in> set cs. free b c' \<longrightarrow> sl_pred ((c # cs) ! i) \<le> sl_pred c'))"
proof (induction rounds)
  case (Cons r rounds)
  obtain now b where r: "r = (now, b)" by (cases r)
  show ?case
  proof (cases "acquire_pick c cs now b")
    case None
    with Cons.IH acquire_pick_None [OF None] show ?thesis by (auto simp: r split: option.splits)
  next
    case (Some i)
    with acquire_pick_Some [OF Some] show ?thesis by (auto simp: r split: prod.splits)
  qed
qed simp

definition busy_book :: flightBook where
  "busy_book = snd (bookLocked \<lparr>sl_key = ''slow'', sl_depth = 1, sl_pred = 10\<rparr> 0 empty_book)"

theorem acquireFirst_choice_witness:
  "\<exists>(now, b) \<in> set [(1, busy_book)]. free b \<lparr>sl_key = ''fast'', sl_depth = 2, sl_pred = 3\<rparr>
     \<and> sooner b now \<lparr>sl_key = ''slow'', sl_depth = 1, sl_pred = 10\<rparr> \<lparr>sl_key = ''fast'', sl_depth = 2, sl_pred = 3\<rparr>"
  using acquireFirst_choice [where c = "\<lparr>sl_key = ''slow'', sl_depth = 1, sl_pred = 10\<rparr>"
      and cs = "[\<lparr>sl_key = ''fast'', sl_depth = 2, sl_pred = 3\<rparr>]" and rounds = "[(1, busy_book)]"]
  by (simp add: acquire_pick_def free_def busy_book_def bookLocked_def empty_book_def node_def
      earliestFree_def remaining_def sooner_def Let_def)

subsection \<open>The book as a machine\<close>

text \<open>What the callers do to the book: book a part through the gate, at once or not at all, or
  release one.\<close>

datatype book_event =
    AcquireFirst slot "slot list" f64
  | TryAcquire slot f64
  | Release string nat

fun book_step :: "book_event \<Rightarrow> flightBook \<Rightarrow> flightBook" where
  "book_step (AcquireFirst c cs now) b =
     (case acquire_pick c cs now b of None \<Rightarrow> b | Some i \<Rightarrow> snd (bookLocked ((c # cs) ! i) now b))"
| "book_step (TryAcquire c now) b = (case tryAcquire c now b of None \<Rightarrow> b | Some (_, b') \<Rightarrow> b')"
| "book_step (Release key i) b = release_part key i b"

fun event_slots :: "book_event \<Rightarrow> slot list" where
  "event_slots (AcquireFirst c cs now) = c # cs"
| "event_slots (TryAcquire c now) = [c]"
| "event_slots (Release key i) = []"

definition depth_within :: "(string \<Rightarrow> int) \<Rightarrow> slot \<Rightarrow> bool" where
  "depth_within bound c \<longleftrightarrow> sl_depth c \<le> bound (sl_key c)"

definition book_ok :: "(string \<Rightarrow> int) \<Rightarrow> book_event \<Rightarrow> flightBook \<Rightarrow> bool" where
  "book_ok bound e b \<longleftrightarrow> list_all (depth_within bound) (event_slots e)"

definition part_ids :: "flightBook \<Rightarrow> string \<Rightarrow> nat list" where
  "part_ids b key = map fst (node b key)"

definition gate_inv :: "(string \<Rightarrow> int) \<Rightarrow> flightBook \<Rightarrow> bool" where
  "gate_inv bound b \<longleftrightarrow>
     (\<forall>key. int (held b key) \<le> max (bound key) 1 \<and> distinct (part_ids b key)
        \<and> (\<forall>i \<in> set (part_ids b key). i \<le> fb_next b)
        \<and> (\<forall>i \<in> set (part_ids b key). \<forall>key'. i \<in> set (part_ids b key') \<longrightarrow> key' = key))"

lemma part_ids_book:
  "part_ids (snd (bookLocked c now b)) key
     = (if key = sl_key c then (if Suc (fb_next b) \<in> set (part_ids b key) then part_ids b key
          else part_ids b key @ [Suc (fb_next b)]) else part_ids b key)"
  by (auto simp: part_ids_def bookLocked_def node_def Let_def go_map_simps update_keys)

lemma part_ids_release:
  "part_ids (release_part key' i b) key
     = (if key = key' then removeAll i (part_ids b key) else part_ids b key)"
proof -
  have "map fst (AList.delete i n) = removeAll i (map fst n)" for n :: busy
    by (induction n) auto
  then show ?thesis by (simp add: part_ids_def release_part_def node_def go_map_simps)
qed

lemma held_ids: "held b key = length (part_ids b key)"
  by (simp add: held_def part_ids_def)

lemma gate_inv_book:
  assumes "gate_inv bound b" "free b c" "depth_within bound c"
  shows "gate_inv bound (snd (bookLocked c now b))"
proof -
  have new: "Suc (fb_next b) \<notin> set (part_ids b key)" for key
    using assms(1) by (fastforce simp: gate_inv_def)
  have "int (held b (sl_key c)) < max (bound (sl_key c)) 1"
    using assms(2,3) by (auto simp: free_def held_def depth_within_def)
  moreover have "fb_next (snd (bookLocked c now b)) = Suc (fb_next b)" by (simp add: bookLocked_def Let_def)
  ultimately show ?thesis
    using assms(1) new by (auto simp: gate_inv_def part_ids_book held_ids le_Suc_eq)
qed

lemma gate_inv_release: "gate_inv bound b \<Longrightarrow> gate_inv bound (release_part key i b)"
proof -
  assume inv: "gate_inv bound b"
  have "int (length (removeAll i (part_ids b k))) \<le> max (bound k) 1" for k
  proof -
    have "length (removeAll i (part_ids b k)) \<le> length (part_ids b k)" by (rule length_removeAll_less_eq)
    moreover have "int (length (part_ids b k)) \<le> max (bound k) 1"
      using inv by (simp add: gate_inv_def held_ids)
    ultimately show ?thesis by linarith
  qed
  moreover have "fb_next (release_part key i b) = fb_next b" by (simp add: release_part_def)
  ultimately show ?thesis
    using inv by (auto simp: gate_inv_def part_ids_release held_ids distinct_removeAll)
qed

interpretation gate: guarded_machine book_step "book_ok bound" "gate_inv bound" for bound
proof
  fix b e assume inv: "gate_inv bound b" and ok: "book_ok bound e b"
  show "gate_inv bound (book_step e b)"
  proof (cases e)
    case (AcquireFirst c cs now)
    show ?thesis
    proof (cases "acquire_pick c cs now b")
      case (Some i)
      then have "free b ((c # cs) ! i)" "(c # cs) ! i \<in> set (c # cs)"
        using acquire_pick_Some [OF Some] nth_mem by blast+
      then show ?thesis
        using inv ok Some AcquireFirst by (auto simp: book_ok_def list_all_iff intro!: gate_inv_book)
    qed (use inv AcquireFirst in simp)
  next
    case (TryAcquire c now)
    then show ?thesis
      using inv ok gate_inv_book [OF inv, of c now]
      by (cases "bookLocked c now b") (auto simp: tryAcquire_def book_ok_def)
  qed (use inv in \<open>simp add: gate_inv_release\<close>)
qed

lemma gate_inv_empty: "gate_inv bound empty_book"
  by (auto simp: gate_inv_def held_def part_ids_def node_def empty_book_def)

text \<open>C32: The depth gate: in every run of bookings and releases, in any order and from any number
  of callers, a node never holds more parts than the largest depth anyone asks for it (or one),
  and no two parts in flight, on the same node or on different ones, share an id, so a release
  frees exactly its own part.\<close>

theorem depth_gate:
  assumes "gate.run_ok bound es empty_book" "b = fold book_step es empty_book" "i \<in> set (part_ids b key)"
  shows "int (held b key) \<le> max (bound key) 1
    \<and> held (release_part key i b) key = held b key - 1
    \<and> (key' \<noteq> key \<longrightarrow> i \<notin> set (part_ids b key') \<and> held (release_part key i b) key' = held b key')"
proof -
  have inv: "gate_inv bound b" unfolding assms(2) by (rule gate.run_inv [OF gate_inv_empty assms(1)])
  then have "distinct (part_ids b key)" by (simp add: gate_inv_def)
  then have "length (removeAll i (part_ids b key)) = length (part_ids b key) - 1"
    using assms(3) by (simp add: length_remove1 flip: distinct_remove1_removeAll)
  then show ?thesis using inv assms(3) by (auto simp: gate_inv_def held_ids part_ids_release)
qed

definition two_parts :: "book_event list" where
  "two_parts = [TryAcquire \<lparr>sl_key = ''a'', sl_depth = 1, sl_pred = 1\<rparr> 0,
     AcquireFirst \<lparr>sl_key = ''a'', sl_depth = 1, sl_pred = 1\<rparr> [\<lparr>sl_key = ''b'', sl_depth = 1, sl_pred = 1\<rparr>] 0]"

lemmas book_eval = two_parts_def free_def bookLocked_def empty_book_def node_def tryAcquire_def acquire_pick_def
  earliestFree_def remaining_def Let_def

theorem depth_gate_witness:
  "held (fold book_step two_parts empty_book) ''b'' = 1
   \<and> held (release_part ''b'' 2 (fold book_step two_parts empty_book)) ''b'' = 0
   \<and> held (release_part ''b'' 2 (fold book_step two_parts empty_book)) ''a'' = 1"
proof -
  have ids: "part_ids (fold book_step two_parts empty_book) ''b'' = [2]"
    "part_ids (fold book_step two_parts empty_book) ''a'' = [1]"
    by (simp_all add: part_ids_def book_eval)
  have "gate.run_ok (\<lambda>_. 1) two_parts empty_book" by (simp add: two_parts_def book_ok_def depth_within_def)
  from depth_gate [OF this refl, of 2 "''b''" "''a''"] ids show ?thesis by (simp add: held_ids)
qed

end
