(* ===== verification/Pool.thy ===== *)
theory Pool
  imports Rates FlightBook "HOL-Library.List_Lexorder" "HOL-Library.Char_ord"
begin

text \<open>
  The pool manager of \<^verbatim>\<open>src/internal/daemonapi\<close>: what it predicts of a node from its
  measurements (\<^verbatim>\<open>poolrates.go\<close>), how it picks peers (\<^verbatim>\<open>poolsteal.go\<close>, \<^verbatim>\<open>pool.go\<close>), how a chunk
  of items is cut into parts, and how the parts' results become the chunk's (\<^verbatim>\<open>poolrun.go\<close>,
  \<^verbatim>\<open>poolhandlers.go\<close>). Callbacks of the server (\<open>nodeFn\<close>, \<open>coresFn\<close>, \<open>priorFn\<close>, \<open>machineFn\<close>) are
  fields holding a function or nil; the calls of \<open>observeFn\<close> are kept as a list.
\<close>

unbundle bit_operations_syntax

subsection \<open>The manager\<close>

record pool =
  pm_rates :: rateModel
  pm_book :: flightBook
  pm_nodeFn :: "(string \<Rightarrow> string) option"
  pm_replyIDs :: "(string \<times> string) list"
  pm_coresFn :: "(string \<Rightarrow> int) option"
  pm_priorFn :: "(string \<Rightarrow> string \<Rightarrow> f64 \<times> f64 \<times> bool) option"
  pm_machineFn :: "(string \<Rightarrow> string) option"
  pm_selfID :: string
  pm_selfMachine :: string
  pm_numCPU :: int
  pm_warm :: "string list"
  pm_observes :: bool
  pm_observed :: "(string \<times> string \<times> int \<times> f64 \<times> f64) list"
  pm_dead :: "string list"

definition key :: "pool \<Rightarrow> string \<Rightarrow> string" where
  "key pm peer =
     (let byNode = (case pm_nodeFn pm of None \<Rightarrow> [] | Some f \<Rightarrow> f peer)
      in if byNode \<noteq> [] then byNode
         else case map_of (pm_replyIDs pm) peer of
             None \<Rightarrow> peer
           | Some i \<Rightarrow> if i \<noteq> [] then i else peer)"

definition sawNode :: "string \<Rightarrow> string \<Rightarrow> pool \<Rightarrow> pool" where
  "sawNode peer i pm = (if i = [] then pm else pm\<lparr>pm_replyIDs := AList.update peer i (pm_replyIDs pm)\<rparr>)"

definition firstPart :: "string \<Rightarrow> string \<Rightarrow> pool \<Rightarrow> bool \<times> pool" where
  "firstPart nd fn pm =
     (let k = nd @ [CHR 0x00] @ fn
      in if k \<in> set (pm_warm pm) then (False, pm) else (True, pm\<lparr>pm_warm := k # pm_warm pm\<rparr>))"

definition peerCores :: "pool \<Rightarrow> string \<Rightarrow> int" where
  "peerCores pm peer = (case pm_coresFn pm of None \<Rightarrow> 0 | Some f \<Rightarrow> f peer)"

definition peerDead :: "pool \<Rightarrow> string \<Rightarrow> bool" where
  "peerDead pm peer \<longleftrightarrow> peer \<in> set (pm_dead pm)"

definition markPeerDead :: "string \<Rightarrow> pool \<Rightarrow> pool" where
  "markPeerDead peer pm = pm\<lparr>pm_dead := List.insert peer (pm_dead pm)\<rparr>"

subsection \<open>Predictions\<close>

definition localDeviceID :: string where "localDeviceID = ''local''"

definition localRate :: "pool \<Rightarrow> string \<Rightarrow> f64" where
  "localRate pm fn =
     (case fit (rateKey localDeviceID fn) (pm_rates pm) of
        Some (rate, _) \<Rightarrow> rate
      | None \<Rightarrow> of_int (pm_numCPU pm))"

text \<open>An earlier run's speed, if the stats have one.\<close>

definition prior_of :: "pool \<Rightarrow> string \<Rightarrow> string \<Rightarrow> (f64 \<times> f64) option" where
  "prior_of pm nd fn =
     (case pm_priorFn pm of
        None \<Rightarrow> None
      | Some f \<Rightarrow> if fn = [] then None
          else (case f nd fn of (r, ov, ok) \<Rightarrow> if ok \<and> 0 < r then Some (r, ov) else None))"

definition peerRate :: "pool \<Rightarrow> string \<Rightarrow> string \<Rightarrow> f64 \<times> f64" where
  "peerRate pm peer fn =
     (case fit (rateKey (key pm peer) fn) (pm_rates pm) of
        Some ro \<Rightarrow> ro
      | None \<Rightarrow> (case prior_of pm (key pm peer) fn of
            Some ro \<Rightarrow> ro
          | None \<Rightarrow> coresPrior (pm_numCPU pm) (peerCores pm peer) (localRate pm fn)))"

text \<open>The empty peer is this node.\<close>

definition expectedSec :: "pool \<Rightarrow> string \<Rightarrow> string \<Rightarrow> int \<Rightarrow> f64" where
  "expectedSec pm peer fn n =
     (let secs = (\<lambda>(r, ov). ov + of_int n / r)
      in if peer = [] then
           (let prior = (if pm_selfID pm = [] then None else prior_of pm (pm_selfID pm) fn)
            in case fit (rateKey localDeviceID fn) (pm_rates pm) of
                 Some (r, ov) \<Rightarrow> if 0 < r then secs (r, ov)
                   else (case prior of Some ro \<Rightarrow> secs ro | None \<Rightarrow> 0)
               | None \<Rightarrow> (case prior of Some ro \<Rightarrow> secs ro | None \<Rightarrow> 0))
         else let (r, ov) = peerRate pm peer fn in if r \<le> 0 then 0 else secs (r, ov))"

definition depth :: "pool \<Rightarrow> string \<Rightarrow> string \<Rightarrow> int" where
  "depth pm peer fn = (let su = snd (peerRate pm peer fn) in Depth su (PartSec su 0))"

definition partSlots :: "pool \<Rightarrow> string list \<Rightarrow> string \<Rightarrow> int \<Rightarrow> slot list" where
  "partSlots pm cands fn n =
     map (\<lambda>c. \<lparr>sl_key = key pm c, sl_depth = depth pm c fn, sl_pred = expectedSec pm c fn n\<rparr>) cands"

definition observeRate :: "string \<Rightarrow> string \<Rightarrow> int \<Rightarrow> f64 \<Rightarrow> pool \<Rightarrow> pool" where
  "observeRate k fn items d pm =
     (let m = observe (rateKey k fn) items d (pm_rates pm)
      in pm\<lparr>pm_rates := (if fn \<noteq> [] then observe k items d m else m)\<rparr>)"

definition observeStats :: "string \<Rightarrow> string \<Rightarrow> int \<Rightarrow> f64 \<Rightarrow> f64 \<Rightarrow> pool \<Rightarrow> pool" where
  "observeStats nd fn items computeSec elapsedSec pm =
     (if \<not> pm_observes pm \<or> fn = [] \<or> nd = [] \<or> items \<le> 0 then pm
      else let (first, pm) = firstPart nd fn pm
      in if first then pm
         else pm\<lparr>pm_observed := pm_observed pm @ [(nd, fn, items, computeSec, elapsedSec)]\<rparr>)"

definition observeLost :: "string \<Rightarrow> string \<Rightarrow> int \<Rightarrow> f64 \<Rightarrow> f64 \<Rightarrow> pool \<Rightarrow> pool" where
  "observeLost peer fn items d expected pm =
     (if expected \<le> 0 \<or> d \<le> expected then pm
      else let k = key pm peer
      in observeStats k fn items d d (observeRate k fn items d pm))"

text \<open>The fields of the pacing reply: peers, inflight, part_ms and cores.\<close>

definition pacing :: "pool \<Rightarrow> string list \<Rightarrow> int \<times> int \<times> int \<times> int" where
  "pacing pm peers =
     (let su = (\<lambda>p. snd (peerRate pm p []));
          inflight = sum_list (map (\<lambda>p. Depth (su p) (PartSec (su p) 0)) peers);
          part = foldl (\<lambda>part p. max part (PartSec (su p) 0)) (1 / 4) peers;
          cores = sum_list (map (\<lambda>p. let c = peerCores pm p in if c \<le> 0 then pm_numCPU pm else c) peers)
      in (int (length peers), max inflight 1, go_int (part * 1000), cores))"

subsection \<open>The plan of a chunk\<close>

definition cpu_device :: "string \<Rightarrow> f64 \<Rightarrow> f64 \<Rightarrow> device" where
  "cpu_device i rate su = \<lparr>dev_ID = i, dev_Node = i, dev_Kind = CPU, dev_Rate = rate, dev_BytesPerSec = 0,
     dev_SetupSec = su, dev_MemBytes = 2 ^ 62\<rparr>"

text \<open>\<open>rateModel.devices\<close>, which the pool manager asks for this node alone.\<close>

definition devices :: "rateModel \<Rightarrow> int \<Rightarrow> string list \<Rightarrow> (string \<Rightarrow> int) \<Rightarrow> f64 \<Rightarrow> bool \<Rightarrow> device list" where
  "devices m numCPU peers cores lrate includeLocal =
     (if includeLocal \<and> 0 < lrate then [cpu_device ''local'' lrate 0] else [])
     @ map (\<lambda>p. case (case fit p m of Some ro \<Rightarrow> ro | None \<Rightarrow> coresPrior numCPU (cores p) lrate) of
           (rate, su) \<Rightarrow> cpu_device p rate su) peers"

definition devicesFor :: "pool \<Rightarrow> f64 \<Rightarrow> string list \<Rightarrow> string \<Rightarrow> bool \<Rightarrow> device list" where
  "devicesFor pm now peers fn includeLocal =
     devices (pm_rates pm) (pm_numCPU pm) [] (peerCores pm) (localRate pm fn) includeLocal
     @ map (\<lambda>p. case peerRate pm p fn of
           (rate, su) \<Rightarrow> cpu_device p rate (su + backlog (pm_book pm) (key pm p) now)) peers"

definition plan_opts :: "int \<Rightarrow> options" where
  "plan_opts n = \<lparr>op_Items = n, op_BytesPerItem = 0, op_WorkingSetBytes = 0, op_MinItems = 0\<rparr>"

definition planShares :: "pool \<Rightarrow> f64 \<Rightarrow> nat \<Rightarrow> string \<Rightarrow> string list \<Rightarrow> bool \<Rightarrow> share list" where
  "planShares pm now n fn peers includeLocal =
     pl_Shares (Compute (plan_opts (int n)) (devicesFor pm now peers fn includeLocal))"

subsection \<open>Picking peers\<close>

definition offloadPeers :: "pool \<Rightarrow> string list \<Rightarrow> string \<Rightarrow> string list \<times> bool" where
  "offloadPeers pm peers machine =
     (if machine = [] then (peers, False)
      else (filter (\<lambda>p. \<not> (case pm_machineFn pm of None \<Rightarrow> False | Some f \<Rightarrow> SameMachine (f p) machine)) peers,
            SameMachine (pm_selfMachine pm) machine))"

definition dropForwarder :: "pool \<Rightarrow> string list \<Rightarrow> string \<Rightarrow> string list" where
  "dropForwarder pm peers nodeID = (if nodeID = [] then peers else filter (\<lambda>p. key pm p \<noteq> nodeID) peers)"

definition sinkPeerLast :: "string list \<Rightarrow> string \<Rightarrow> string list" where
  "sinkPeerLast peers submitter =
     (if submitter = [] \<or> submitter \<notin> set (butlast peers) then peers
      else remove1 submitter peers @ [submitter])"

definition bestPeer :: "pool \<Rightarrow> string list option \<Rightarrow> string \<Rightarrow> string \<Rightarrow> string" where
  "bestPeer pm peers submitter offload =
     (case peers of
        None \<Rightarrow> []
      | Some ps \<Rightarrow>
          let ps = fst (offloadPeers pm ps offload)
          in case find (\<lambda>p. p \<noteq> submitter) ps of
               Some p \<Rightarrow> p
             | None \<Rightarrow> (case ps of [] \<Rightarrow> [] | p # _ \<Rightarrow> p))"

text \<open>The backup of a late part: the candidates in order, the best gain so far.\<close>

fun backup_scan :: "pool \<Rightarrow> f64 \<Rightarrow> f64 \<Rightarrow> (string \<times> f64 \<times> slot) option \<Rightarrow> (string \<times> slot) list
    \<Rightarrow> (string \<times> f64 \<times> slot) option" where
  "backup_scan pm expected elapsed best [] = best"
| "backup_scan pm expected elapsed best ((q, c) # cs) =
     backup_scan pm expected elapsed
       (if peerDead pm q \<or> max (sl_depth c) 1 \<le> int (held (pm_book pm) (sl_key c)) then best
        else let (ok, gain) = BackupWorth expected elapsed (sl_pred c) 0
        in if ok \<and> (case best of None \<Rightarrow> 0 | Some (_, g, _) \<Rightarrow> g) < gain then Some (q, gain, c) else best) cs"

text \<open>\<open>book\<close> is the book when the slot is taken: another caller may have filled it since. The
  result is the peer, the gain, the part's id and the book.\<close>

definition backupPeer :: "pool \<Rightarrow> string list \<Rightarrow> string \<Rightarrow> int \<Rightarrow> f64 \<Rightarrow> f64 \<Rightarrow> f64 \<Rightarrow> flightBook
    \<Rightarrow> (string \<times> f64 \<times> nat \<times> flightBook) option" where
  "backupPeer pm others fn n expected elapsed now book =
     (case backup_scan pm expected elapsed None (zip others (partSlots pm others fn n)) of
        None \<Rightarrow> None
      | Some (q, gain, c) \<Rightarrow> if q = [] then None
          else map_option (\<lambda>(i, b). (q, gain, i, b)) (tryAcquire c now book))"

definition finish_sec :: "pool \<Rightarrow> f64 \<Rightarrow> string \<Rightarrow> int \<Rightarrow> string \<Rightarrow> f64" where
  "finish_sec pm now fn n peer = backlog (pm_book pm) (key pm peer) now + expectedSec pm peer fn n"

fun soonest_scan :: "(nat \<Rightarrow> f64) \<Rightarrow> (nat \<times> f64) option \<Rightarrow> nat list \<Rightarrow> nat" where
  "soonest_scan sec best [] = (case best of None \<Rightarrow> 0 | Some (j, _) \<Rightarrow> j)"
| "soonest_scan sec best (j # js) =
     soonest_scan sec (if (case best of None \<Rightarrow> True | Some (_, s) \<Rightarrow> sec j < s * (9 / 10)) then Some (j, sec j) else best) js"

definition soonestPeer :: "pool \<Rightarrow> f64 \<Rightarrow> string list \<Rightarrow> nat \<Rightarrow> string \<Rightarrow> int \<Rightarrow> nat" where
  "soonestPeer pm now peers rot fn n =
     soonest_scan (\<lambda>j. finish_sec pm now fn n (peers ! j)) None
       (map (\<lambda>k. (rot + k) mod length peers) [0..<length peers])"

lemma soonest_scan_in: "soonest_scan sec best js \<in> {0} \<union> fst ` set_option best \<union> set js"
  by (induction js arbitrary: best) (fastforce split: option.splits if_splits)+

lemma soonestPeer_lt: "peers \<noteq> [] \<Longrightarrow> soonestPeer pm now peers rot fn n < length peers"
  using soonest_scan_in [of "\<lambda>j. finish_sec pm now fn n (peers ! j)" None
      "map (\<lambda>k. (rot + k) mod length peers) [0..<length peers]"]
  by (auto simp: soonestPeer_def)

subsection \<open>Cutting a chunk into parts\<close>

record chunk =
  ch_items :: "byte list list"
  ch_globals :: "byte list"
  ch_pickledFunc :: string
  ch_itemsZlib :: bool
  ch_noSplit :: bool
  ch_force :: bool
  ch_originLocal :: bool
  ch_requiredMem :: int
  ch_cacheKeys :: "string list"
  ch_itemKeys :: "string list"
  ch_offload :: string
  ch_fnFP :: string
  ch_oob :: bool
  ch_forwardedBy :: string

definition partMem :: "chunk \<Rightarrow> int" where
  "partMem ch =
     (if ch_requiredMem ch \<le> 0 \<or> ch_items ch = [] \<or> ch_itemsZlib ch \<or> ch_oob ch then ch_requiredMem ch
      else let big = foldl (\<lambda>big it. max big (int (length it))) 0 (ch_items ch)
      in min (ch_requiredMem ch) (2 * (int (length (ch_globals ch)) + int (length (ch_pickledFunc ch)) + big)))"

definition affinityKey :: "chunk \<Rightarrow> nat \<Rightarrow> string" where
  "affinityKey ch i =
     (if i < length (ch_cacheKeys ch) then ch_cacheKeys ch ! i
      else if i < length (ch_itemKeys ch) then ch_itemKeys ch ! i else [])"

definition affinityHash :: "string \<Rightarrow> 32 word" where
  "affinityHash s = foldl (\<lambda>h c. (h XOR of_nat (of_char c)) * 16777619) 2166136261 s"

text \<open>A part runs here when \<open>pt_local\<close>, that is when its \<open>runPath\<close> is set.\<close>

record part =
  pt_c :: chunk
  pt_local :: bool
  pt_peers :: "string list"
  pt_steal :: bool

definition rotate_to :: "string \<Rightarrow> string list \<Rightarrow> string list" where
  "rotate_to target peers =
     (if target \<in> set peers then dropWhile (\<lambda>p. p \<noteq> target) peers @ takeWhile (\<lambda>p. p \<noteq> target) peers
      else [target])"

text \<open>A key list shorter than the items ends in a panic in the code; here the slice is empty.\<close>

definition one_key :: "nat \<Rightarrow> string list \<Rightarrow> string list" where
  "one_key i keys = (if keys = [] then [] else take 1 (drop i keys))"

definition affinity_target :: "chunk \<Rightarrow> string list \<Rightarrow> nat \<Rightarrow> string" where
  "affinity_target ch peers i =
     (let stable = sort peers; k = affinityKey ch i
      in if k \<noteq> [] then stable ! unat (affinityHash k mod of_nat (length stable))
         else peers ! (i mod length peers))"

definition item_part :: "chunk \<Rightarrow> string list \<Rightarrow> nat \<Rightarrow> part" where
  "item_part ch peers i =
     (let sub = ch\<lparr>ch_items := [ch_items ch ! i], ch_cacheKeys := one_key i (ch_cacheKeys ch),
            ch_itemKeys := one_key i (ch_itemKeys ch)\<rparr>
      in if peers = [] then \<lparr>pt_c = sub, pt_local = True, pt_peers = [], pt_steal = False\<rparr>
         else \<lparr>pt_c = sub, pt_local = False, pt_peers = rotate_to (affinity_target ch peers i) peers,
            pt_steal = False\<rparr>)"

text \<open>The loop over the planned shares: the parts and the index after the last item dealt.\<close>

fun share_parts :: "chunk \<Rightarrow> string list \<Rightarrow> nat \<Rightarrow> share list \<Rightarrow> part list \<times> nat" where
  "share_parts ch peers idx [] = ([], idx)"
| "share_parts ch peers idx (sh # shares) =
     (if sh_Items sh = 0 \<or> length (ch_items ch) \<le> idx then share_parts ch peers idx shares
      else let e = min (idx + nat (sh_Items sh)) (length (ch_items ch));
               sub = ch\<lparr>ch_items := take (e - idx) (drop idx (ch_items ch))\<rparr>;
               q = dev_ID (sh_Device sh);
               p = (if q = localDeviceID
                    then \<lparr>pt_c = sub, pt_local = True, pt_peers = [], pt_steal = False\<rparr>
                    else \<lparr>pt_c = sub, pt_local = False, pt_peers = q # filter (\<lambda>r. r \<noteq> q) peers, pt_steal = True\<rparr>);
               (ps, idx') = share_parts ch peers e shares
           in (p # ps, idx'))"

definition add_leftover :: "byte list list \<Rightarrow> part list \<Rightarrow> part list" where
  "add_leftover rest parts =
     (if rest = [] \<or> parts = [] then parts
      else butlast parts @ [last parts\<lparr>pt_c := (pt_c (last parts))\<lparr>ch_items := ch_items (pt_c (last parts)) @ rest\<rparr>\<rparr>])"

definition spread :: "pool \<Rightarrow> f64 \<Rightarrow> chunk \<Rightarrow> string list \<Rightarrow> bool \<Rightarrow> part list" where
  "spread pm now ch peers offHere =
     (let (parts, idx) = share_parts ch peers 0
            (planShares pm now (length (ch_items ch)) (ch_fnFP ch) peers (\<not> ch_originLocal ch \<and> \<not> offHere))
      in if parts = [] \<and> offHere
         then [\<lparr>pt_c = ch, pt_local = False, pt_peers = peers, pt_steal = False\<rparr>]
         else add_leftover (drop idx (ch_items ch)) parts)"

text \<open>\<open>rot\<close> is the counter \<open>forceRotate\<close> after its increment.\<close>

definition split_parts :: "pool \<Rightarrow> f64 \<Rightarrow> nat \<Rightarrow> chunk \<Rightarrow> string list \<Rightarrow> bool \<Rightarrow> part list" where
  "split_parts pm now rot ch peers offHere =
     (let whole_here = [\<lparr>pt_c = ch, pt_local = True, pt_peers = [], pt_steal = False\<rparr>];
          n = length (ch_items ch); minSplit = (if ch_force ch then 2 else 8)
      in if ch_noSplit ch then map (item_part ch peers) [0..<n]
         else if peers = [] then whole_here
         else if n < minSplit then
           (if ch_force ch \<or> ch_originLocal ch \<or> offHere
            then let j = soonestPeer pm now peers rot (ch_fnFP ch) (int n)
              in [\<lparr>pt_c = ch, pt_local = False, pt_peers = drop j peers @ take j peers, pt_steal = True\<rparr>]
            else whole_here)
         else spread pm now ch peers offHere)"

text \<open>The peers a chunk may use: \<open>peers\<close> is what \<open>peerFn\<close> returned.\<close>

definition chunk_peers :: "pool \<Rightarrow> chunk \<Rightarrow> string list \<Rightarrow> string list \<times> bool" where
  "chunk_peers pm ch peers =
     (let (ps, offHere) = offloadPeers pm peers (ch_offload ch)
      in (dropForwarder pm ps (ch_forwardedBy ch), offHere))"

subsection \<open>No item is lost or doubled\<close>

abbreviation items_of :: "part list \<Rightarrow> byte list list" where
  "items_of parts \<equiv> concat (map (\<lambda>p. ch_items (pt_c p)) parts)"

lemma share_parts_items:
  "idx \<le> length (ch_items ch) \<Longrightarrow>
    items_of (fst (share_parts ch peers idx shares)) @ drop (snd (share_parts ch peers idx shares)) (ch_items ch)
      = drop idx (ch_items ch)"
proof (induction shares arbitrary: idx)
  case (Cons sh shares)
  define e where "e = min (idx + nat (sh_Items sh)) (length (ch_items ch))"
  have e: "idx \<le> e" "e \<le> length (ch_items ch)" using Cons.prems by (auto simp: e_def)
  have "take (e - idx) (drop idx (ch_items ch)) @ drop e (ch_items ch) = drop idx (ch_items ch)"
    using append_take_drop_id [of "e - idx" "drop idx (ch_items ch)"] e by simp
  then show ?case
    using Cons.IH [OF e(2)] Cons.IH [OF Cons.prems]
    by (auto simp: Let_def e_def [symmetric] split: prod.splits if_splits)
qed simp

lemma share_parts_nonempty:
  "idx < length (ch_items ch) \<Longrightarrow> sh \<in> set shares \<Longrightarrow> sh_Items sh \<noteq> 0 \<Longrightarrow> fst (share_parts ch peers idx shares) \<noteq> []"
  by (induction shares arbitrary: idx) (auto simp: Let_def split: prod.splits)

lemma share_parts_where:
  assumes "\<And>sh. sh \<in> set shares \<Longrightarrow> dev_ID (sh_Device sh) \<in> ids" "p \<in> set (fst (share_parts ch peers idx shares))"
  shows "if pt_local p then localDeviceID \<in> ids else set (pt_peers p) \<subseteq> ids \<union> set peers \<and> pt_peers p \<noteq> []
    \<and> (localDeviceID \<notin> set peers \<longrightarrow> localDeviceID \<notin> set (pt_peers p))"
  using assms
proof (induction shares arbitrary: idx)
  case (Cons sh shares)
  show ?case
  proof (cases "sh_Items sh = 0 \<or> length (ch_items ch) \<le> idx")
    case True
    then show ?thesis using Cons by simp
  next
    case False
    define e where "e = min (idx + nat (sh_Items sh)) (length (ch_items ch))"
    let ?ps = "fst (share_parts ch peers e shares)"
    have "p \<in> set ?ps \<or> (dev_ID (sh_Device sh) = localDeviceID \<and> pt_local p)
        \<or> (\<not> pt_local p \<and> dev_ID (sh_Device sh) \<noteq> localDeviceID \<and> pt_peers p = dev_ID (sh_Device sh) # filter (\<lambda>r. r \<noteq> dev_ID (sh_Device sh)) peers)"
      using Cons.prems(2) False by (auto simp: Let_def e_def [symmetric] split: prod.splits if_splits)
    moreover have "p \<in> set ?ps \<Longrightarrow> ?thesis" by (rule Cons.IH) (use Cons.prems(1) in auto)
    moreover have "dev_ID (sh_Device sh) \<in> ids" using Cons.prems(1) by simp
    ultimately show ?thesis by (auto simp: split: if_splits)
  qed
qed simp

lemma items_of_leftover:
  "parts \<noteq> [] \<Longrightarrow> items_of (add_leftover rest parts) = items_of parts @ rest"
  by (cases parts rule: rev_cases) (simp_all add: add_leftover_def)

lemma leftover_where:
  "p \<in> set (add_leftover rest parts) \<Longrightarrow> \<exists>q \<in> set parts. pt_local p = pt_local q \<and> pt_peers p = pt_peers q"
  by (cases parts rule: rev_cases) (auto simp: add_leftover_def split: if_splits)

lemma rotate_to_set:
  assumes "target \<in> set peers"
  shows "set (rotate_to target peers) = set peers"
proof -
  have "set (dropWhile P peers @ takeWhile P peers) = set (takeWhile P peers @ dropWhile P peers)" for P
    by (simp only: set_append Un_commute)
  then show ?thesis using assms by (simp add: rotate_to_def)
qed

lemma affinity_target_in:
  assumes "peers \<noteq> []" "length peers < 2 ^ 32"
  shows "affinity_target ch peers i \<in> set peers"
proof -
  have "unat (of_nat (length (sort peers)) :: 32 word) = length (sort peers)"
    using assms(2) by (simp add: unsigned_of_nat take_bit_nat_eq_self)
  then have "unat (affinityHash k mod of_nat (length (sort peers))) < length (sort peers)" for k
    using assms(1) by (simp add: unat_mod_distrib)
  then have "sort peers ! unat (affinityHash k mod of_nat (length (sort peers))) \<in> set (sort peers)" for k
    by (rule nth_mem)
  then show ?thesis using assms(1) by (simp add: affinity_target_def Let_def)
qed

lemma fit_pos:
  assumes "model_is es m" "fit k m = Some (rate, su)"
  shows "0 < rate"
proof -
  let ?w = "last_window (accepted k es)"
  have "list_all physical ?w"
    using accepted_physical [of k es] by (auto simp: list_all_iff last_window_def dest: in_set_dropD)
  moreover have "?w \<noteq> []" "fitLine ?w = Some (rate, su)"
    using assms(2) fit_window [OF assms(1), of k] by (auto split: if_splits)
  ultimately show ?thesis using fitLine_total [of ?w] by auto
qed

text \<open>A pool whose speeds were measured, on a machine with a core.\<close>

definition pool_ok :: "(string \<times> int \<times> f64) list \<Rightarrow> pool \<Rightarrow> bool" where
  "pool_ok es pm \<longleftrightarrow> model_is es (pm_rates pm) \<and> 0 < pm_numCPU pm"

lemma localRate_pos: "pool_ok es pm \<Longrightarrow> 0 < localRate pm fn"
  using fit_pos by (auto simp: pool_ok_def localRate_def split: option.splits)

lemma coresPrior_pos: "0 < numCPU \<Longrightarrow> 0 < fst (coresPrior numCPU c lrate)"
  by (simp add: coresPrior_def Let_def)

lemma peerRate_pos: "pool_ok es pm \<Longrightarrow> 0 < fst (peerRate pm peer fn)"
  using fit_pos by (auto simp: pool_ok_def peerRate_def prior_of_def coresPrior_pos split: option.splits prod.splits if_splits)

lemma cpu_device_ID [simp]: "dev_ID (cpu_device i rate su) = i"
  by (simp add: cpu_device_def)

lemma devicesFor_eligible:
  assumes "pool_ok es pm"
  shows "eligible (plan_opts n) (devicesFor pm now peers fn b) = devicesFor pm now peers fn b"
proof -
  have "0 < dev_Rate d" if "d \<in> set (devicesFor pm now peers fn b)" for d
    using that peerRate_pos [OF assms, of _ fn]
    by (auto simp: devicesFor_def devices_def cpu_device_def case_prod_beta split: if_splits)
  then have "d \<in> set (devicesFor pm now peers fn b) \<Longrightarrow> ineligible (plan_opts n) d = None" for d
    by (fastforce simp: ineligible_def plan_opts_def)
  then show ?thesis by (simp add: eligible_def)
qed

lemma devicesFor_ids:
  "dev_ID ` set (devicesFor pm now peers fn b) \<subseteq> (if b then {localDeviceID} else {}) \<union> set peers"
  by (auto simp: devicesFor_def devices_def localDeviceID_def split: prod.splits)

lemma planShares_facts:
  assumes "pool_ok es pm" "peers \<noteq> []" "0 < n"
  shows "\<exists>s \<in> set (planShares pm now n fn peers b). sh_Items s \<noteq> 0"
    and "s \<in> set (planShares pm now n fn peers b) \<Longrightarrow>
      dev_ID (sh_Device s) \<in> (if b then {localDeviceID} else {}) \<union> set peers \<and> 0 \<le> sh_Items s"
    and "sum_list (map sh_Items (planShares pm now n fn peers b)) = int n"
proof -
  let ?D = "devicesFor pm now peers fn b"
  have "?D \<noteq> []" using assms(2) by (simp add: devicesFor_def)
  then have *: "sum_list (map sh_Items (planShares pm now n fn peers b)) = int n"
    "s \<in> set (planShares pm now n fn peers b) \<Longrightarrow> 0 \<le> sh_Items s \<and> sh_Device s \<in> set ?D" for s
    using Compute_unfloored_shares [of "plan_opts (int n)" ?D] assms(3)
    by (simp_all add: planShares_def devicesFor_eligible [OF assms(1)]) (simp_all add: plan_opts_def)
  then show "s \<in> set (planShares pm now n fn peers b) \<Longrightarrow>
      dev_ID (sh_Device s) \<in> (if b then {localDeviceID} else {}) \<union> set peers \<and> 0 \<le> sh_Items s"
    using devicesFor_ids by blast
  show "sum_list (map sh_Items (planShares pm now n fn peers b)) = int n" by (rule *)
  have "sum_list (map sh_Items ss) = 0" if "\<forall>s \<in> set ss. sh_Items s = 0" for ss
    using that by (induction ss) auto
  with * assms(3) show "\<exists>s \<in> set (planShares pm now n fn peers b). sh_Items s \<noteq> 0" by fastforce
qed

lemma spread_items:
  assumes "pool_ok es pm" "peers \<noteq> []" "ch_items ch \<noteq> []"
  shows "items_of (spread pm now ch peers offHere) = ch_items ch"
proof -
  let ?sh = "planShares pm now (length (ch_items ch)) (ch_fnFP ch) peers (\<not> ch_originLocal ch \<and> \<not> offHere)"
  let ?r = "share_parts ch peers 0 ?sh"
  have "fst ?r \<noteq> []"
    using planShares_facts(1) [OF assms(1,2)] assms(3) share_parts_nonempty [of 0 ch] by (metis length_greater_0_conv)
  then show ?thesis
    using share_parts_items [of 0 ch peers ?sh] by (simp add: spread_def case_prod_beta items_of_leftover)
qed

lemma item_parts_items: "items_of (map (item_part ch peers) [0..<length (ch_items ch)]) = ch_items ch"
proof -
  have "concat (map (\<lambda>i. [xs ! i]) [0..<length xs]) = xs" for xs :: "byte list list"
    by (simp add: concat_map_singleton map_nth)
  then show ?thesis by (simp add: item_part_def comp_def Let_def if_distrib [of pt_c] if_distrib [of ch_items] cong: if_cong)
qed

lemma split_parts_items:
  assumes "pool_ok es pm"
  shows "items_of (split_parts pm now rot ch peers offHere) = ch_items ch"
proof -
  have "items_of (spread pm now ch peers offHere) = ch_items ch"
    if "peers \<noteq> []" "\<not> length (ch_items ch) < (if ch_force ch then 2 else 8)"
    using that by (intro spread_items [OF assms]) (auto split: if_splits)
  then show ?thesis by (simp add: split_parts_def item_parts_items Let_def del: map_map)
qed

text \<open>Where a part may run: here, or on one of the peers given.\<close>

definition placed :: "string list \<Rightarrow> bool \<Rightarrow> part \<Rightarrow> bool" where
  "placed peers offHere p \<longleftrightarrow>
     (if pt_local p then peers = [] \<or> \<not> offHere else pt_peers p \<noteq> [] \<and> set (pt_peers p) \<subseteq> set peers)"

lemma spread_placed:
  assumes "pool_ok es pm" "peers \<noteq> []" "ch_items ch \<noteq> []" "localDeviceID \<notin> set peers"
    and "p \<in> set (spread pm now ch peers offHere)"
  shows "placed peers offHere p"
proof -
  let ?b = "\<not> ch_originLocal ch \<and> \<not> offHere"
  let ?sh = "planShares pm now (length (ch_items ch)) (ch_fnFP ch) peers ?b"
  let ?r = "share_parts ch peers 0 ?sh"
  let ?ids = "(if ?b then {localDeviceID} else {}) \<union> set peers"
  have "fst ?r \<noteq> []"
    using planShares_facts(1) [OF assms(1,2)] assms(3) share_parts_nonempty [of 0 ch] by (metis length_greater_0_conv)
  then obtain q where q: "q \<in> set (fst ?r)" "pt_local p = pt_local q" "pt_peers p = pt_peers q"
    using assms(5) leftover_where by (fastforce simp: spread_def case_prod_beta)
  have "dev_ID (sh_Device sh) \<in> ?ids" if "sh \<in> set ?sh" for sh
    using planShares_facts(2) [OF assms(1,2) _ that] assms(3) by blast
  from share_parts_where [OF this q(1)] show ?thesis
    using assms(4) by (auto simp: placed_def q(2,3) split: if_splits)
qed

lemma split_parts_placed:
  assumes "pool_ok es pm" "localDeviceID \<notin> set peers" "length peers < 2 ^ 32"
    and "p \<in> set (split_parts pm now rot ch peers offHere)"
  shows "placed peers offHere p"
proof (cases "ch_noSplit ch \<or> peers = [] \<or> length (ch_items ch) < (if ch_force ch then 2 else 8)")
  case True
  have "rotate_to (affinity_target ch peers i) peers \<noteq> []" for i by (auto simp: rotate_to_def)
  moreover have "set (drop j peers @ take j peers) = set peers" for j
    unfolding set_append Un_commute [of "set (drop j peers)"] by (simp flip: set_append)
  ultimately show ?thesis
    using True assms(3,4) rotate_to_set [OF affinity_target_in [of peers ch]]
      soonestPeer_lt [of peers pm now rot "ch_fnFP ch" "int (length (ch_items ch))"]
    by (auto simp: split_parts_def placed_def item_part_def Let_def split: if_splits)
next
  case False
  then have "ch_items ch \<noteq> []" by (auto split: if_splits)
  then show ?thesis
    using False assms spread_placed [OF assms(1), of peers ch p now offHere] by (simp add: split_parts_def Let_def)
qed

subsection \<open>The results of a chunk\<close>

text \<open>What each part ends with, an error or its results, becomes the chunk's answer in part order.\<close>

datatype part_error = Cancelled | PartFailed

fun chunk_results :: "(part_error + 'r list) list \<Rightarrow> part_error + 'r list" where
  "chunk_results [] = Inr []"
| "chunk_results (Inl e # outs) = Inl e"
| "chunk_results (Inr r # outs) = (case chunk_results outs of Inl e \<Rightarrow> Inl e | Inr rs \<Rightarrow> Inr (r @ rs))"

lemma chunk_results_map: "chunk_results (map (Inr \<circ> g) ps) = Inr (concat (map g ps))"
  by (induction ps) simp_all

lemma chunk_results_error: "list_ex isl outs \<Longrightarrow> isl (chunk_results outs)"
  by (induction outs rule: chunk_results.induct) (auto split: sum.splits)

text \<open>The sub-batches of a chunk that is too large for this node's memory (\<open>runMicroChunks\<close>).\<close>

definition micro_count :: "int \<Rightarrow> chunk \<Rightarrow> nat" where
  "micro_count safe ch = min (nat (go_div (ch_requiredMem ch + safe - 1) safe)) (length (ch_items ch))"

definition sub_slice :: "nat \<Rightarrow> nat \<Rightarrow> 'a list \<Rightarrow> 'a list" where
  "sub_slice lo hi xs = take (hi - lo) (drop lo xs)"

definition micro_chunks :: "int \<Rightarrow> chunk \<Rightarrow> chunk list" where
  "micro_chunks safe ch =
     (let n = micro_count safe ch; total = length (ch_items ch);
          lo = (\<lambda>i. total * i div n); hi = (\<lambda>i. total * (i + 1) div n)
      in map (\<lambda>i. ch\<lparr>ch_items := sub_slice (lo i) (hi i) (ch_items ch),
              ch_cacheKeys := sub_slice (lo i) (hi i) (ch_cacheKeys ch),
              ch_itemKeys := sub_slice (lo i) (hi i) (ch_itemKeys ch)\<rparr>)
           (filter (\<lambda>i. lo i \<noteq> hi i) [0..<n]))"

lemma slices_concat:
  assumes "\<And>i. i < n \<Longrightarrow> b i \<le> b (Suc i)"
  shows "take (b 0) xs @ concat (map (\<lambda>i. sub_slice (b i) (b (Suc i)) xs) [0..<n]) = take (b n) xs"
  using assms
proof (induction n)
  case (Suc n)
  have "take (b n) xs @ sub_slice (b n) (b (Suc n)) xs = take (b n + (b (Suc n) - b n)) xs"
    by (simp add: sub_slice_def take_add)
  moreover have "take (b 0) xs @ concat (map (\<lambda>i. sub_slice (b i) (b (Suc i)) xs) [0..<n]) = take (b n) xs"
    using Suc by simp
  ultimately show ?case using Suc.prems [of n] by (simp flip: append_assoc)
qed simp

lemma concat_map_filter_Nil: "(\<And>x. \<not> P x \<Longrightarrow> f x = []) \<Longrightarrow> concat (map f (filter P xs)) = concat (map f xs)"
  by (induction xs) auto

lemma micro_chunks_items:
  assumes "0 < micro_count safe ch"
  shows "concat (map ch_items (micro_chunks safe ch)) = ch_items ch"
proof -
  let ?n = "micro_count safe ch" and ?xs = "ch_items ch"
  define b where "b i = length ?xs * i div ?n" for i
  have "b i \<le> b (Suc i)" for i by (simp add: b_def div_le_mono)
  then have "take (b 0) ?xs @ concat (map (\<lambda>i. sub_slice (b i) (b (Suc i)) ?xs) [0..<?n]) = take (b ?n) ?xs"
    by (rule slices_concat)
  then have "concat (map (\<lambda>i. sub_slice (b i) (b (Suc i)) ?xs) [0..<?n]) = ?xs"
    using assms by (simp add: b_def)
  moreover have "concat (map (\<lambda>i. sub_slice (b i) (b (Suc i)) ?xs) (filter (\<lambda>i. b i \<noteq> b (Suc i)) [0..<?n]))
      = concat (map (\<lambda>i. sub_slice (b i) (b (Suc i)) ?xs) [0..<?n])"
    by (rule concat_map_filter_Nil) (simp add: sub_slice_def)
  ultimately show ?thesis by (simp add: micro_chunks_def b_def Let_def comp_def)
qed


text \<open>Placement keeps its promises: no part of a chunk goes to the machine the run keeps work off
  or back to the node that forwarded it, every remote part has a peer to go to, and this machine,
  when it is the one kept off, takes no part as long as one other peer is left.\<close>

theorem placement_respects_offload:
  assumes "pool_ok es pm" "chunk_peers pm ch candidates = (peers, offHere)"
    and "localDeviceID \<notin> set candidates" "length candidates < 2 ^ 32"
    and "p \<in> set (split_parts pm now rot ch peers offHere)"
  shows "(if pt_local p then peers = [] \<or> \<not> offHere else pt_peers p \<noteq> [])
    \<and> (\<not> pt_local p \<and> q \<in> set (pt_peers p) \<longrightarrow>
        q \<in> set candidates
        \<and> (ch_forwardedBy ch \<noteq> [] \<longrightarrow> key pm q \<noteq> ch_forwardedBy ch)
        \<and> (\<forall>machine. pm_machineFn pm = Some machine \<longrightarrow> \<not> SameMachine (machine q) (ch_offload ch)))"
proof -
  have sub: "set peers \<subseteq> set candidates" and len: "length peers \<le> length candidates"
    using assms(2) by (auto simp: chunk_peers_def offloadPeers_def dropForwarder_def
        intro: length_filter_le le_trans [OF length_filter_le] split: if_splits)
  have "placed peers offHere p"
    using split_parts_placed [OF assms(1) _ _ assms(5)] sub len assms(3,4) by fastforce
  moreover have "q \<in> set peers \<Longrightarrow> (ch_forwardedBy ch \<noteq> [] \<longrightarrow> key pm q \<noteq> ch_forwardedBy ch)
      \<and> (\<forall>machine. pm_machineFn pm = Some machine \<longrightarrow> \<not> SameMachine (machine q) (ch_offload ch))"
    using assms(2) by (auto simp: chunk_peers_def offloadPeers_def dropForwarder_def SameMachine_def split: if_splits)
  ultimately show ?thesis using sub by (auto simp: placed_def split: if_splits)
qed

subsection \<open>One part's walk over its peers\<close>

text \<open>
  One turn of the loop in \<open>runChunk\<close>: whether the request was cancelled, the peers marked dead by
  now (by this part or another of the chunk), whether the time budget is spent, which candidate
  the gate gave a slot on (\<open>None\<close>: the request ended while waiting), how a peer's attempt ends
  (results, or an error and whether a copy here was already raced), and whether the request was
  cancelled during it.
\<close>

record 'r turn =
  tn_cancelled :: bool
  tn_dead :: "string list"
  tn_late :: bool
  tn_gate :: "nat option"
  tn_attempt :: "string \<Rightarrow> bool + 'r list"
  tn_cancelled_after :: bool

text \<open>The results if any, \<open>e \<noteq> nil\<close>, and \<open>raced\<close>, when the loop ends; \<open>None\<close> while it runs. The
  planned peer is met again after a stand-in failed (\<open>pi--\<close>). The receipts and speed
  observations the loop also writes, and the race inside one attempt, are left out.\<close>

fun walk :: "bool \<Rightarrow> string list \<Rightarrow> nat \<Rightarrow> bool \<Rightarrow> 'r turn list \<Rightarrow> ('r list option \<times> bool \<times> bool) option" where
  "walk steal peers i e [] = (if length peers \<le> i then Some (None, e, False) else None)"
| "walk steal peers i e (tn # turns) =
     (if length peers \<le> i \<or> tn_cancelled tn then Some (None, e, False)
      else if peers ! i \<in> set (tn_dead tn) then walk steal peers (Suc i) e turns
      else if tn_late tn then Some (None, e, False)
      else let cands = peers ! i # (if steal then filter (\<lambda>q. q \<notin> set (tn_dead tn)) (drop (Suc i) peers) else [])
      in case tn_gate tn of
           None \<Rightarrow> Some (None, True, False)
         | Some k \<Rightarrow>
             (case tn_attempt tn (cands ! k) of
                Inr r \<Rightarrow> Some (Some r, False, False)
              | Inl raced \<Rightarrow>
                  if tn_cancelled_after tn \<or> raced then Some (None, True, raced)
                  else walk steal peers (if k = 0 then Suc i else i) True turns))"

text \<open>\<open>here\<close> is how running the part on this node would end.\<close>

definition part_outcome :: "bool \<Rightarrow> 'r list option \<Rightarrow> 'r list option \<times> bool \<times> bool \<Rightarrow> part_error + 'r list" where
  "part_outcome cancelled here w =
     (case w of (r, e, raced) \<Rightarrow>
        let (r, e) = (if e \<and> \<not> cancelled \<and> \<not> raced
                      then (case here of None \<Rightarrow> (None, True) | Some x \<Rightarrow> (Some x, False)) else (r, e))
        in if cancelled then Inl Cancelled
           else if e then Inl PartFailed
           else Inr (case r of None \<Rightarrow> [] | Some x \<Rightarrow> x))"

text \<open>Turns in which nothing outside stops the part.\<close>

definition undisturbed :: "'r turn \<Rightarrow> bool" where
  "undisturbed tn \<longleftrightarrow> \<not> tn_cancelled tn \<and> \<not> tn_late tn \<and> tn_gate tn \<noteq> None"

lemma walk_error_stays:
  "walk steal peers i True turns = Some (r, e, raced) \<Longrightarrow> r \<noteq> None \<or> e"
  by (induction steal peers i True turns rule: walk.induct)
    (fastforce simp: Let_def split: if_splits option.splits sum.splits)+

lemma walk_dead:
  assumes "list_all undisturbed turns" "length peers - i \<le> length turns"
  shows "walk steal peers i False turns = Some (None, False, raced)
    \<longleftrightarrow> \<not> raced \<and> (\<forall>j < length peers - i. peers ! (i + j) \<in> set (tn_dead (turns ! j)))"
  using assms
proof (induction turns arbitrary: i)
  case (Cons tn turns)
  show ?case
  proof (cases "i < length peers")
    case True
    then have len: "length peers - i = Suc (length peers - Suc i)" by simp
    show ?thesis
    proof (cases "peers ! i \<in> set (tn_dead tn)")
      case True
      then show ?thesis
        using Cons \<open>i < length peers\<close> by (simp add: undisturbed_def len All_less_Suc2)
    next
      case False
      then have "walk steal peers i False (tn # turns) \<noteq> Some (None, False, raced)"
        using Cons.prems(1) \<open>i < length peers\<close> walk_error_stays [of steal peers _ turns None False raced]
        by (auto simp: undisturbed_def Let_def split: option.splits sum.splits if_splits)
      with False show ?thesis by (auto simp: len All_less_Suc2)
    qed
  qed auto
qed auto

text \<open>When a part comes back without an error and without having run: exactly when each of its
  peers is already marked dead, by another part of the chunk, at the turn it is looked at. Then no
  copy runs on this node either, the part's items have no results and the chunk is answered
  without them; in every other undisturbed case a part that no peer ran is run here.\<close>

theorem part_lost_iff_all_dead:
  assumes "list_all undisturbed turns" "length peers \<le> length turns"
    and "walk steal peers 0 False turns = Some w" "here = Some x"
  shows "(fst w = None \<and> part_outcome False here w = Inr [] \<and> \<not> fst (snd w)
      \<longleftrightarrow> (\<forall>j < length peers. peers ! j \<in> set (tn_dead (turns ! j))))
    \<and> (fst w = None \<and> fst (snd w) \<and> \<not> snd (snd w) \<longrightarrow> part_outcome False here w = Inr x)"
proof -
  obtain r e raced where w: "w = (r, e, raced)" by (cases w)
  have dead: "walk steal peers 0 False turns = Some (None, False, b)
      \<longleftrightarrow> \<not> b \<and> (\<forall>j < length peers. peers ! j \<in> set (tn_dead (turns ! j)))" for b
    using walk_dead [of turns peers 0] assms(1,2) by simp
  have "raced \<longrightarrow> \<not> (r = None \<and> \<not> e)" using dead [of raced] assms(3) by (auto simp: w)
  then show ?thesis
    using dead [of False] assms(3,4) by (auto simp: w part_outcome_def)
qed

definition dead_turn :: "byte turn" where
  "dead_turn = \<lparr>tn_cancelled = False, tn_dead = [''p''], tn_late = False, tn_gate = Some 0,
     tn_attempt = (\<lambda>_. Inr [1]), tn_cancelled_after = False\<rparr>"

theorem part_lost_iff_all_dead_witness:
  "walk False [''p''] 0 False [dead_turn] = Some (None, False, False)
   \<and> part_outcome False (Some [1 :: byte]) (None, False, False) = Inr []"
  using part_lost_iff_all_dead [of "[dead_turn]" "[''p'']" False "(None, False, False)" "Some [1]" "[1]"]
  by (simp add: dead_turn_def undisturbed_def)

subsection \<open>Evaluation at concrete inputs\<close>

definition ex_pool :: pool where
  "ex_pool = \<lparr>pm_rates = newRateModel, pm_book = empty_book, pm_nodeFn = None, pm_replyIDs = [],
     pm_coresFn = None, pm_priorFn = None, pm_machineFn = Some (\<lambda>p. if p = ''b'' then ''m'' else []),
     pm_selfID = ''me'', pm_selfMachine = ''m'', pm_numCPU = 4, pm_warm = [], pm_observes = False,
     pm_observed = [], pm_dead = []\<rparr>"

definition ex_chunk :: chunk where
  "ex_chunk = \<lparr>ch_items = map (\<lambda>i. [of_nat i]) [0..<9], ch_globals = [], ch_pickledFunc = [], ch_itemsZlib = False,
     ch_noSplit = False, ch_force = False, ch_originLocal = True, ch_requiredMem = 0, ch_cacheKeys = [],
     ch_itemKeys = [], ch_offload = ''m'', ch_fnFP = ''f'', ch_oob = False, ch_forwardedBy = []\<rparr>"

lemma ex_pool_ok: "pool_ok [] ex_pool"
  using observe_all_model [of "[]"] by (simp add: pool_ok_def ex_pool_def observe_all_def)


theorem placement_respects_offload_witness:
  "chunk_peers ex_pool ex_chunk [''a'', ''b''] = ([''a''], True)
   \<and> pt_peers (hd (split_parts ex_pool 0 0 (ex_chunk\<lparr>ch_noSplit := True\<rparr>) [''a''] True)) \<noteq> []"
proof -
  let ?ch = "ex_chunk\<lparr>ch_noSplit := True\<rparr>"
  have peers: "chunk_peers ex_pool ex_chunk [''a'', ''b''] = ([''a''], True)" "chunk_peers ex_pool ?ch [''a'', ''b''] = ([''a''], True)"
    by (simp_all add: chunk_peers_def offloadPeers_def dropForwarder_def SameMachine_def ex_pool_def ex_chunk_def)
  have "[0..<9] = 0 # [1..<9]" by (simp add: upt_conv_Cons)
  then have parts: "split_parts ex_pool 0 0 ?ch [''a''] True = item_part ?ch [''a''] 0 # map (item_part ?ch [''a'']) [1..<9]"
    by (simp add: split_parts_def Let_def) (simp add: ex_chunk_def)
  have "\<not> pt_local (item_part ?ch [''a''] 0)" by (simp add: item_part_def Let_def)
  then show ?thesis
    using placement_respects_offload [OF ex_pool_ok peers(2), of "item_part ?ch [''a''] 0" 0 0 "''a''"] peers(1)
    by (simp add: parts localDeviceID_def)
qed

text \<open>
  A part that was lost to another copy is recorded with its elapsed time, a lower bound on its
  real one, which is meant to make the peer look slower only. It need not: above the line a short
  part raises the fixed cost and flattens the slope, and the peer is predicted faster than before
  for every long part.
\<close>

lemma lost_part_can_look_faster:
  "let m = observe_all [(''p'', 10, 10), (''p'', 20, 20)] newRateModel;
       pm = ex_pool\<lparr>pm_rates := m\<rparr>; pm' = observeLost ''p'' [] 1 8 (expectedSec pm ''p'' [] 1) pm
   in expectedSec pm ''p'' [] 1 = 1 \<and> expectedSec pm ''p'' [] 100 = 100 \<and> expectedSec pm' ''p'' [] 100 < 70"
proof -
  define es :: "(string \<times> int \<times> f64) list" where "es = [(''p'', 10, 10), (''p'', 20, 20)]"
  define pm where "pm = ex_pool\<lparr>pm_rates := observe_all es newRateModel\<rparr>"
  have fit: "fit ''p'' (observe_all es newRateModel) = Some (1, 0)"
    using fit_window [OF observe_all_model [of es], of "''p''"]
    by (simp add: es_def accepted_def last_window_def obsWindow_def fitLine_def sums_of_eq Let_def)
  have k: "key pm ''p'' = ''p''" "key (pm\<lparr>pm_rates := m\<rparr>) ''p'' = ''p''" for m
    by (simp_all add: key_def pm_def ex_pool_def)
  have pm: "\<not> pm_observes pm" "pm_rates pm = observe_all es newRateModel" by (simp_all add: pm_def ex_pool_def)
  have exp: "expectedSec pm ''p'' [] n = of_int n" for n
    using fit by (simp add: expectedSec_def peerRate_def rateKey_def k) (simp add: pm_def)
  have lost: "observeLost ''p'' [] 1 8 1 pm = pm\<lparr>pm_rates := observe_all (es @ [(''p'', 1, 8)]) newRateModel\<rparr>"
    using pm by (simp add: observeLost_def observeStats_def observeRate_def k rateKey_def observe_all_def)
  have fit': "fit ''p'' (observe_all (es @ [(''p'', 1, 8)]) newRateModel) = Some (542 / 346, (38 - 346 / 542 * 31) / 3)"
    using fit_window [OF observe_all_model [of "es @ [(''p'', 1, 8)]"], of "''p''"]
    by (simp add: es_def accepted_def last_window_def obsWindow_def fitLine_def sums_of_eq Let_def)
  have "expectedSec (pm\<lparr>pm_rates := observe_all (es @ [(''p'', 1, 8)]) newRateModel\<rparr>) ''p'' [] 100 < 70"
    using fit' by (simp add: expectedSec_def peerRate_def rateKey_def k)
  then show ?thesis by (simp add: es_def [symmetric] pm_def [symmetric] exp lost Let_def)
qed

end
