(* ===== verification/PoolStats.thy ===== *)
theory PoolStats
  imports GoMap
begin

text \<open>
  The pool's speed statistics kept across runs, \<^verbatim>\<open>src/internal/daemonapi/poolstats.go\<close>: per
  node and function the items per second, its deviation and the fixed cost of a part, folded run
  by run, with a prior for a node that never ran the function. Times are seconds and \<open>unix\<close> drops
  the fraction; the hardware of a node is a callback; \<open>exp2\<close>, whose values are not rational, is a
  parameter. Saving the file and reading it back are not modelled.
\<close>

subsection \<open>Entries\<close>

definition poolStatsAlpha :: f64 where "poolStatsAlpha = 22 / 100"
definition poolStatsBeta :: f64 where "poolStatsBeta = 1 / 4"
definition poolStatsHalfLife :: f64 where "poolStatsHalfLife = 24"
definition poolStatsMaxKeys :: nat where "poolStatsMaxKeys = 1000"
definition poolStatsOverhead :: f64 where "poolStatsOverhead = 5 / 100"
definition poolStatsRunGap :: int where "poolStatsRunGap = 300"
definition poolStatsAnyFn :: string where "poolStatsAnyFn = ''*''"

record poolHW =
  hw_Model :: string
  hw_Cores :: int
  hw_MHz :: f64

definition score :: "poolHW \<Rightarrow> f64" where
  "score h = of_int (hw_Cores h) * hw_MHz h"

definition same_hw :: "poolHW \<Rightarrow> poolHW \<Rightarrow> bool" where
  "same_hw h k \<longleftrightarrow>
     (if hw_Model h \<noteq> hw_Model k \<or> hw_Cores h \<noteq> hw_Cores k then False
      else if hw_MHz h = 0 \<or> hw_MHz k = 0 then hw_MHz h = hw_MHz k
      else \<bar>hw_MHz h - hw_MHz k\<bar> \<le> 1 / 10 * max (hw_MHz h) (hw_MHz k))"

record poolStatEntry =
  pe_R :: f64
  pe_Dev :: f64
  pe_O :: f64
  pe_N :: int
  pe_TLast :: int
  pe_HW :: poolHW
  pe_RunR :: f64
  pe_RunO :: f64
  pe_RunN :: int
  pe_S :: f64

definition new_entry :: poolStatEntry where
  "new_entry = \<lparr>pe_R = 0, pe_Dev = 0, pe_O = 0, pe_N = 0, pe_TLast = 0,
     pe_HW = \<lparr>hw_Model = [], hw_Cores = 0, hw_MHz = 0\<rparr>, pe_RunR = 0, pe_RunO = 0, pe_RunN = 0, pe_S = 0\<rparr>"

definition unix :: "f64 \<Rightarrow> int" where "unix now = \<lfloor>now\<rfloor>"

definition live :: "f64 \<Rightarrow> poolStatEntry \<Rightarrow> bool" where
  "live now e \<longleftrightarrow> 0 < pe_RunN e \<and> unix now - pe_TLast e \<le> poolStatsRunGap"

definition fold_run :: "poolStatEntry \<Rightarrow> poolStatEntry" where
  "fold_run e =
     (if pe_RunN e = 0 then e
      else let e = (if pe_R e = 0 then e\<lparr>pe_R := pe_RunR e, pe_O := pe_RunO e\<rparr>
                    else e\<lparr>pe_R := 1 / 2 * pe_R e + 1 / 2 * pe_RunR e, pe_O := 1 / 2 * pe_O e + 1 / 2 * pe_RunO e\<rparr>)
           in e\<lparr>pe_RunR := 0, pe_RunO := 0, pe_RunN := 0\<rparr>)"

definition rate_now :: "f64 \<Rightarrow> poolStatEntry \<Rightarrow> f64" where
  "rate_now now e = (if live now e then pe_RunR e else pe_R e)"

subsection \<open>The store\<close>

type_synonym stats = "(string \<times> poolStatEntry) list"
type_synonym hw_of = "string \<Rightarrow> poolHW \<times> bool"

definition poolStatKey :: "string \<Rightarrow> string \<Rightarrow> string" where
  "poolStatKey machine fn = machine @ [CHR 0x00] @ fn"

definition splitPoolStatKey :: "string \<Rightarrow> string \<times> string" where
  "splitPoolStatKey k = (takeWhile (\<lambda>c. c \<noteq> CHR 0x00) k, drop 1 (dropWhile (\<lambda>c. c \<noteq> CHR 0x00) k))"

definition get_entry :: "string \<Rightarrow> string \<Rightarrow> poolHW \<Rightarrow> bool \<Rightarrow> stats \<Rightarrow> poolStatEntry option \<times> stats" where
  "get_entry machine fn cur curOK st =
     (let k = poolStatKey machine fn
      in case map_of st k of
           None \<Rightarrow> (None, st)
         | Some e \<Rightarrow> if curOK \<and> \<not> same_hw (pe_HW e) cur then (None, AList.delete k st) else (Some e, st))"

text \<open>The least recently used key; the first in the list's order among equals.\<close>

fun oldest_key :: "string \<times> int option \<Rightarrow> stats \<Rightarrow> string" where
  "oldest_key (k, t) [] = k"
| "oldest_key (k, t) ((k', e) # st) =
     oldest_key (if (case t of None \<Rightarrow> True | Some t \<Rightarrow> pe_TLast e < t) then (k', Some (pe_TLast e)) else (k, t)) st"

definition put_entry :: "string \<Rightarrow> string \<Rightarrow> poolStatEntry \<Rightarrow> stats \<Rightarrow> stats" where
  "put_entry machine fn e st =
     (let k = poolStatKey machine fn;
          st = (if map_of st k = None \<and> poolStatsMaxKeys \<le> length st
                then AList.delete (oldest_key ([], None) st) st else st)
      in AList.update k e st)"

definition speed :: "string \<Rightarrow> stats \<Rightarrow> f64" where
  "speed machine st =
     (case map_of st (poolStatKey machine poolStatsAnyFn) of
        Some e \<Rightarrow> if 0 < pe_S e then pe_S e else 1 | None \<Rightarrow> 1)"

text \<open>Whether another machine's entry can stand in for a cold one.\<close>

definition usable :: "string \<Rightarrow> string \<Rightarrow> f64 \<Rightarrow> hw_of \<Rightarrow> string \<times> poolStatEntry \<Rightarrow> bool" where
  "usable machine fn now hwOf ke =
     (case ke of (k, e) \<Rightarrow> case splitPoolStatKey k of (m, f) \<Rightarrow>
        f = fn \<and> m \<noteq> machine \<and> 0 < score (pe_HW e) \<and> 0 < rate_now now e
        \<and> (case hwOf m of (h, ok) \<Rightarrow> ok \<longrightarrow> same_hw (pe_HW e) h))"

fun latest_entry :: "(string \<times> poolStatEntry) option \<Rightarrow> stats \<Rightarrow> (string \<times> poolStatEntry) option" where
  "latest_entry best [] = best"
| "latest_entry best ((k, e) # st) =
     latest_entry (if (case best of None \<Rightarrow> True | Some (_, b) \<Rightarrow> pe_TLast b < pe_TLast e) then Some (k, e) else best) st"

definition hwPrior :: "string \<Rightarrow> string \<Rightarrow> poolHW \<Rightarrow> f64 \<Rightarrow> hw_of \<Rightarrow> stats \<Rightarrow> f64 option" where
  "hwPrior machine fn cur now hwOf st =
     (if score cur \<le> 0 then None
      else map_option (\<lambda>(k, e). rate_now now e * score cur / score (pe_HW e)
               * speed machine st / speed (fst (splitPoolStatKey k)) st)
             (latest_entry None (filter (usable machine fn now hwOf) st)))"

text \<open>\<open>None\<close> is \<open>ok = false\<close>. The entry is folded in place.\<close>

definition prior :: "(f64 \<Rightarrow> f64) \<Rightarrow> string \<Rightarrow> string \<Rightarrow> f64 \<Rightarrow> hw_of \<Rightarrow> stats \<Rightarrow> (f64 \<times> f64) option \<times> stats" where
  "prior exp2 machine fn now hwOf st =
     (let (cur, curOK) = hwOf machine;
          cold = hwPrior machine fn cur now hwOf st;
          (e, st) = get_entry machine fn cur curOK st
      in case e of
           None \<Rightarrow> (map_option (\<lambda>c. (c, poolStatsOverhead)) cold, st)
         | Some e \<Rightarrow>
             if live now e then (Some (pe_RunR e, pe_RunO e), st)
             else let e = fold_run e;
                      st = AList.update (poolStatKey machine fn) e st;
                      ov = (if pe_O e \<le> 0 then poolStatsOverhead else pe_O e)
                  in (case cold of
                        None \<Rightarrow> Some (pe_R e, ov)
                      | Some c \<Rightarrow>
                          let w = exp2 (- ((now - of_int (pe_TLast e)) / 3600) / poolStatsHalfLife)
                          in Some (w * pe_R e + (1 - w) * c, ov), st))"

subsection \<open>One observation\<close>

text \<open>A new run starts from the prior as one pseudo-observation.\<close>

definition start_run :: "f64 \<Rightarrow> f64 option \<Rightarrow> poolStatEntry \<Rightarrow> poolStatEntry" where
  "start_run now cold e =
     (if live now e then e
      else let e = fold_run e;
               e = e\<lparr>pe_RunR := pe_R e, pe_RunO := pe_O e\<rparr>
           in case cold of
                None \<Rightarrow> e
              | Some c \<Rightarrow> if pe_RunR e = 0 then e\<lparr>pe_RunR := c\<rparr> else e)"

definition mix :: "f64 \<Rightarrow> f64 \<Rightarrow> f64 \<Rightarrow> f64" where
  "mix a old x = (1 - a) * old + a * x"

definition learn :: "f64 \<Rightarrow> f64 \<Rightarrow> poolStatEntry \<Rightarrow> poolStatEntry" where
  "learn x ov e =
     (let seeded = 0 < pe_RunR e;
          e = (if pe_Dev e = 0 then e\<lparr>pe_Dev := x / 2\<rparr> else e);
          far = \<bar>x - pe_RunR e\<bar>
      in if \<not> seeded \<or> (pe_RunN e = 0 \<and> (2 * pe_RunR e < x \<or> x < pe_RunR e / 2))
         then e\<lparr>pe_RunR := x, pe_RunO := ov\<rparr>
         else if 3 \<le> pe_RunN e \<and> 3 * pe_Dev e < far
         then e\<lparr>pe_Dev := mix poolStatsBeta (pe_Dev e) far, pe_RunR := x,
                pe_RunO := mix poolStatsAlpha (pe_RunO e) ov\<rparr>
         else let a = max poolStatsAlpha (1 / of_int (pe_RunN e + 2))
              in e\<lparr>pe_Dev := mix poolStatsBeta (pe_Dev e) far, pe_RunR := mix a (pe_RunR e) x,
                   pe_RunO := mix a (pe_RunO e) ov\<rparr>)"

definition count_part :: "f64 \<Rightarrow> poolHW \<Rightarrow> bool \<Rightarrow> poolStatEntry \<Rightarrow> poolStatEntry" where
  "count_part now cur curOK e =
     (let e = e\<lparr>pe_RunN := pe_RunN e + 1, pe_N := pe_N e + 1, pe_TLast := unix now\<rparr>
      in if curOK then e\<lparr>pe_HW := cur\<rparr> else e)"

text \<open>The machine's speed index, on its entry for any function.\<close>

definition learn_speed :: "string \<Rightarrow> f64 \<Rightarrow> f64 \<Rightarrow> f64 \<Rightarrow> poolHW \<Rightarrow> bool \<Rightarrow> stats \<Rightarrow> stats" where
  "learn_speed machine x c now cur curOK st =
     (let ratio = x / (c / speed machine st);
          (se, st) = get_entry machine poolStatsAnyFn cur curOK st;
          (se, st) = (case se of
              Some se \<Rightarrow> (se, st)
            | None \<Rightarrow> (new_entry\<lparr>pe_S := 1\<rparr>, put_entry machine poolStatsAnyFn (new_entry\<lparr>pe_S := 1\<rparr>) st));
          se = se\<lparr>pe_S := mix poolStatsAlpha (pe_S se) ratio, pe_TLast := unix now\<rparr>;
          se = (if curOK then se\<lparr>pe_HW := cur\<rparr> else se)
      in AList.update (poolStatKey machine poolStatsAnyFn) se st)"

definition observe_part :: "string \<Rightarrow> string \<Rightarrow> int \<Rightarrow> f64 \<Rightarrow> f64 \<Rightarrow> f64 \<Rightarrow> hw_of \<Rightarrow> stats \<Rightarrow> stats" where
  "observe_part machine fn items computeSec elapsedSec now hwOf st =
     (if items \<le> 0 \<or> computeSec \<le> 0 then st
      else let x = of_int items / computeSec;
               ov = max 0 (elapsedSec - computeSec);
               (cur, curOK) = hwOf machine;
               cold = hwPrior machine fn cur now hwOf st;
               (e, st) = get_entry machine fn cur curOK st;
               (e, st) = (case e of Some e \<Rightarrow> (e, st) | None \<Rightarrow> (new_entry, put_entry machine fn new_entry st));
               e = count_part now cur curOK (learn x ov (start_run now cold e));
               st = AList.update (poolStatKey machine fn) e st
           in case cold of
                None \<Rightarrow> st
              | Some c \<Rightarrow> if 0 < c then learn_speed machine x c now cur curOK st else st)"

subsection \<open>Valid entries\<close>

definition entry_ok :: "int \<Rightarrow> string \<Rightarrow> poolStatEntry \<Rightarrow> bool" where
  "entry_ok t k e \<longleftrightarrow> 0 \<le> pe_R e \<and> 0 \<le> pe_O e \<and> 0 \<le> pe_Dev e \<and> 0 \<le> pe_RunR e \<and> 0 \<le> pe_RunO e
     \<and> 0 \<le> pe_RunN e \<and> 0 \<le> pe_S e \<and> pe_TLast e \<le> t
     \<and> (snd (splitPoolStatKey k) \<noteq> poolStatsAnyFn \<longrightarrow> (if pe_RunN e = 0 then 0 < pe_R e else 0 < pe_RunR e))"

definition stats_ok :: "int \<Rightarrow> stats \<Rightarrow> bool" where
  "stats_ok t st \<longleftrightarrow> keys_distinct st \<and> length st \<le> poolStatsMaxKeys \<and> list_all (\<lambda>(k, e). entry_ok t k e) st"

lemma stats_ok_later: "stats_ok t st \<Longrightarrow> t \<le> t' \<Longrightarrow> stats_ok t' st"
  by (auto simp: stats_ok_def list_all_iff entry_ok_def)

lemma stats_ok_look: "stats_ok t st \<Longrightarrow> map_of st k = Some e \<Longrightarrow> entry_ok t k e"
  using map_of_SomeD [of st k e] by (auto simp: stats_ok_def list_all_iff)

lemma length_delete: "length (AList.delete k st) \<le> length st"
  by (simp add: AList.delete_eq)

lemma length_update: "length (AList.update k e st) = (if map_of st k = None then Suc (length st) else length st)"
  by (induction st) auto

lemma set_update: "set (AList.update k e st) \<subseteq> insert (k, e) (set st)"
  by (induction st) auto

lemma set_delete: "set (AList.delete k st) \<subseteq> set st"
  by (auto simp: AList.delete_eq)

lemma stats_ok_delete: "stats_ok t st \<Longrightarrow> stats_ok t (AList.delete k st)"
  using length_delete [of k st] gm.wf_del [of st k] set_delete [of k st]
  by (auto simp: stats_ok_def list_all_iff)

lemma stats_ok_update:
  assumes "stats_ok t st" "entry_ok t k e" "map_of st k = None \<Longrightarrow> length st < poolStatsMaxKeys"
  shows "stats_ok t (AList.update k e st)"
  using assms gm.wf_put [of st k e] set_update [of k e st]
  by (auto simp: stats_ok_def list_all_iff length_update)

lemma oldest_key_in: "oldest_key kt st \<in> insert (fst kt) (fst ` set st)"
proof (induction kt st rule: oldest_key.induct)
  case (2 k t k' e st)
  then show ?case by (cases "case t of None \<Rightarrow> True | Some t \<Rightarrow> pe_TLast e < t") auto
qed simp

lemma oldest_key_found:
  assumes "st \<noteq> []"
  shows "oldest_key ([], None) st \<in> fst ` set st"
proof -
  obtain k e st' where "st = (k, e) # st'" using assms by (cases st) auto
  then show ?thesis using oldest_key_in [of "(k, Some (pe_TLast e))" st'] by simp
qed

lemma delete_shorter:
  assumes "k \<in> fst ` set st"
  shows "length (AList.delete k st) < length st"
proof -
  from assms obtain e where "(k, e) \<in> set st" by auto
  then show ?thesis unfolding AList.delete_eq by (intro length_filter_less) auto
qed

text \<open>Inserting an entry and then writing it is inserting what was written.\<close>

lemma update_put: "AList.update (poolStatKey m fn) e' (put_entry m fn e st) = put_entry m fn e' st"
  by (simp add: put_entry_def Let_def)

lemma stats_ok_put:
  assumes "stats_ok t st" "entry_ok t (poolStatKey m fn) e"
  shows "stats_ok t (put_entry m fn e st)"
proof (cases "map_of st (poolStatKey m fn) = None \<and> poolStatsMaxKeys \<le> length st")
  case True
  let ?st = "AList.delete (oldest_key ([], None) st) st"
  have "st \<noteq> []" using True by (auto simp: poolStatsMaxKeys_def)
  then have "length ?st < length st" by (intro delete_shorter oldest_key_found)
  then have "length ?st < poolStatsMaxKeys" using assms(1) by (simp add: stats_ok_def)
  then have "stats_ok t (AList.update (poolStatKey m fn) e ?st)"
    by (intro stats_ok_update stats_ok_delete assms)
  with True show ?thesis by (simp add: put_entry_def Let_def)
next
  case False
  then have "stats_ok t (AList.update (poolStatKey m fn) e st)"
    by (intro stats_ok_update assms) simp
  with False show ?thesis by (simp only: put_entry_def Let_def if_False)
qed

lemma get_entry_cases:
  obtains e where "get_entry m fn cur ok st = (Some e, st)" "map_of st (poolStatKey m fn) = Some e"
  | st' where "get_entry m fn cur ok st = (None, st')" "map_of st' (poolStatKey m fn) = None"
      "st' = st \<or> st' = AList.delete (poolStatKey m fn) st"
proof (cases "map_of st (poolStatKey m fn)")
  case None
  then show thesis using that(2) [of st] by (simp add: get_entry_def Let_def)
next
  case (Some e)
  show thesis
  proof (cases "ok \<and> \<not> same_hw (pe_HW e) cur")
    case True
    then show thesis
      using that(2) [of "AList.delete (poolStatKey m fn) st"] Some by (simp add: get_entry_def Let_def gm.look_del)
  next
    case False
    then show thesis using that(1) [of e] Some by (auto simp: get_entry_def Let_def)
  qed
qed

subsection \<open>Estimates stay positive\<close>

lemma mix_pos: "0 \<le> a \<Longrightarrow> a \<le> 1 \<Longrightarrow> 0 < old \<Longrightarrow> 0 < x \<Longrightarrow> 0 < mix a old x"
  by (cases "a = 1") (auto simp: mix_def intro: add_pos_nonneg)

lemma mix_nonneg: "0 \<le> a \<Longrightarrow> a \<le> 1 \<Longrightarrow> 0 \<le> old \<Longrightarrow> 0 \<le> x \<Longrightarrow> 0 \<le> mix a old x"
  by (simp add: mix_def)

lemma mix_between: "0 \<le> a \<Longrightarrow> a \<le> 1 \<Longrightarrow> min old x \<le> mix a old x \<and> mix a old x \<le> max old x"
  using mult_left_mono [of "min old x" old "1 - a"] mult_left_mono [of "min old x" x a]
    mult_left_mono [of old "max old x" "1 - a"] mult_left_mono [of x "max old x" a]
  by (simp add: mix_def algebra_simps)

lemma weight_bounds: "0 \<le> n \<Longrightarrow> 0 \<le> max poolStatsAlpha (1 / of_int (n + 2)) \<and> max poolStatsAlpha (1 / of_int (n + 2)) \<le> 1"
  by (simp add: poolStatsAlpha_def)

lemma gain_bounds: "0 \<le> poolStatsAlpha" "poolStatsAlpha \<le> 1" "0 \<le> poolStatsBeta" "poolStatsBeta \<le> 1"
  by (simp_all add: poolStatsAlpha_def poolStatsBeta_def)

lemma fold_run_ok: "entry_ok t k e \<Longrightarrow> entry_ok t k (fold_run e)"
  by (auto simp: entry_ok_def fold_run_def Let_def split: if_splits)

lemma speed_pos: "0 < speed m st"
  by (simp add: speed_def split: option.splits)

lemma latest_entry_in: "latest_entry best st = Some ke \<Longrightarrow> ke \<in> set_option best \<union> set st"
  by (induction st arbitrary: best) (fastforce split: option.splits if_splits)+

lemma hwPrior_pos:
  assumes "hwPrior m fn cur now hwOf st = Some c"
  shows "0 < c"
proof -
  obtain k e where sel: "latest_entry None (filter (usable m fn now hwOf) st) = Some (k, e)"
    and c: "c = rate_now now e * score cur / score (pe_HW e) * speed m st / speed (fst (splitPoolStatKey k)) st"
    and cur: "0 < score cur"
    using assms by (auto simp: hwPrior_def split: if_splits)
  have "usable m fn now hwOf (k, e)" using latest_entry_in [OF sel] by auto
  then have "0 < rate_now now e" "0 < score (pe_HW e)" by (auto simp: usable_def split: prod.splits)
  then show ?thesis using cur speed_pos [of m st] speed_pos [of "fst (splitPoolStatKey k)" st] by (simp add: c)
qed

lemma start_run_ok:
  assumes "entry_ok t k e \<or> e = new_entry" "t \<le> unix now" "\<And>c. cold = Some c \<Longrightarrow> 0 < c"
  shows "let e' = start_run now cold e in 0 \<le> pe_R e' \<and> 0 \<le> pe_O e' \<and> 0 \<le> pe_Dev e' \<and> 0 \<le> pe_RunR e' \<and> 0 \<le> pe_RunO e'
    \<and> 0 \<le> pe_RunN e' \<and> 0 \<le> pe_S e'"
proof -
  have e: "0 \<le> pe_R e \<and> 0 \<le> pe_O e \<and> 0 \<le> pe_Dev e \<and> 0 \<le> pe_RunR e \<and> 0 \<le> pe_RunO e \<and> 0 \<le> pe_RunN e \<and> 0 \<le> pe_S e"
    using assms(1) by (auto simp: entry_ok_def new_entry_def)
  then have f: "0 \<le> pe_R (fold_run e) \<and> 0 \<le> pe_O (fold_run e) \<and> 0 \<le> pe_Dev (fold_run e) \<and> 0 \<le> pe_RunN (fold_run e) \<and> 0 \<le> pe_S (fold_run e)"
    by (simp add: fold_run_def Let_def)
  show ?thesis
  proof (cases cold)
    case (Some c)
    then show ?thesis using e f assms(3) [OF Some] by (simp add: start_run_def Let_def)
  qed (use e f in \<open>simp add: start_run_def Let_def\<close>)
qed

lemma learn_ok:
  assumes "0 \<le> pe_R e \<and> 0 \<le> pe_O e \<and> 0 \<le> pe_Dev e \<and> 0 \<le> pe_RunR e \<and> 0 \<le> pe_RunO e \<and> 0 \<le> pe_RunN e \<and> 0 \<le> pe_S e"
    and "0 < x" "0 \<le> ov"
  shows "entry_ok (unix now) k (count_part now cur curOK (learn x ov e))"
proof -
  define e1 where "e1 = (if pe_Dev e = 0 then e\<lparr>pe_Dev := x / 2\<rparr> else e)"
  have e1: "0 \<le> pe_Dev e1" "pe_RunR e1 = pe_RunR e" "pe_RunO e1 = pe_RunO e" "pe_RunN e1 = pe_RunN e"
    "pe_R e1 = pe_R e" "pe_O e1 = pe_O e" "pe_S e1 = pe_S e"
    using assms by (simp_all add: e1_def)
  define e2 where "e2 = learn x ov e"
  have "0 < pe_RunR e2 \<and> 0 \<le> pe_RunO e2 \<and> 0 \<le> pe_Dev e2 \<and> pe_RunN e2 = pe_RunN e \<and> pe_R e2 = pe_R e \<and> pe_O e2 = pe_O e \<and> pe_S e2 = pe_S e"
    using assms e1 weight_bounds [of "pe_RunN e"] gain_bounds
    unfolding e2_def learn_def e1_def [symmetric] Let_def
    by (auto intro!: mix_pos mix_nonneg)
  then show ?thesis
    using assms unfolding e2_def [symmetric] by (auto simp: entry_ok_def count_part_def Let_def)
qed

lemma split_key: "CHR 0x00 \<notin> set m \<Longrightarrow> splitPoolStatKey (poolStatKey m fn) = (m, fn)"
proof -
  assume m: "CHR 0x00 \<notin> set m"
  have "takeWhile (\<lambda>c. c \<noteq> CHR 0x00) (m @ CHR 0x00 # fn) = m" "dropWhile (\<lambda>c. c \<noteq> CHR 0x00) (m @ CHR 0x00 # fn) = CHR 0x00 # fn"
    using m by (induction m) auto
  then show ?thesis by (simp add: splitPoolStatKey_def poolStatKey_def)
qed

text \<open>Getting an entry, or inserting a new one, and writing it back updated.\<close>

lemma get_put_ok:
  assumes "stats_ok t st" "t \<le> unix now"
    and "\<And>e0. entry_ok t (poolStatKey m fn) e0 \<Longrightarrow> entry_ok (unix now) (poolStatKey m fn) (f e0)"
    and "entry_ok (unix now) (poolStatKey m fn) (f n)"
    and "get_entry m fn cur curOK st = (e, st')"
    and "(case e of Some e \<Rightarrow> (e, st') | None \<Rightarrow> (n, put_entry m fn n st')) = (e', st'')"
  shows "stats_ok (unix now) (AList.update (poolStatKey m fn) (f e') st'')"
proof (cases rule: get_entry_cases [of m fn cur curOK st])
  case (1 a)
  then have "entry_ok t (poolStatKey m fn) a" using stats_ok_look [OF assms(1)] by simp
  then have "entry_ok (unix now) (poolStatKey m fn) (f a)" using assms(3) by blast
  moreover have "e' = a" "st'' = st" using 1 assms(5,6) by simp_all
  ultimately show ?thesis
    using stats_ok_update [OF stats_ok_later [OF assms(1,2)], of "poolStatKey m fn" "f a"] 1(2) by simp
next
  case (2 st1)
  then have "e' = n" "st'' = put_entry m fn n st1" using assms(5,6) by auto
  moreover have "stats_ok (unix now) st1"
    using 2(3) stats_ok_later [OF assms(1,2)] stats_ok_delete by blast
  ultimately show ?thesis using assms(4) by (simp add: update_put stats_ok_put)
qed

lemma learn_speed_ok:
  assumes "stats_ok (unix now) st" "0 < x" "0 < c" "CHR 0x00 \<notin> set machine"
  shows "stats_ok (unix now) (learn_speed machine x c now cur curOK st)"
proof -
  define ratio where "ratio = x / (c / speed machine st)"
  have ratio: "0 \<le> ratio" using assms speed_pos [of machine st] by (simp add: ratio_def)
  define f :: "poolStatEntry \<Rightarrow> poolStatEntry" where "f se = (let se = se\<lparr>pe_S := mix poolStatsAlpha (pe_S se) ratio, pe_TLast := unix now\<rparr>
    in if curOK then se\<lparr>pe_HW := cur\<rparr> else se)" for se
  let ?k = "poolStatKey machine poolStatsAnyFn" and ?n = "new_entry\<lparr>pe_S := 1\<rparr>"
  obtain e st' where get: "get_entry machine poolStatsAnyFn cur curOK st = (e, st')" by fastforce
  obtain e' st'' where put: "(case e of Some e \<Rightarrow> (e, st') | None \<Rightarrow> (?n, put_entry machine poolStatsAnyFn ?n st')) = (e', st'')"
    by fastforce
  have k: "snd (splitPoolStatKey ?k) = poolStatsAnyFn" by (simp add: split_key assms(4))
  have "stats_ok (unix now) (AList.update ?k (f e') st'')"
  proof (rule get_put_ok [OF assms(1) order.refl _ _ get put])
    show "entry_ok (unix now) ?k (f e0)" if "entry_ok (unix now) ?k e0" for e0
      using that ratio by (auto simp: entry_ok_def f_def k Let_def intro!: mix_nonneg gain_bounds)
    show "entry_ok (unix now) ?k (f ?n)"
      using ratio by (auto simp: entry_ok_def f_def k new_entry_def Let_def intro!: mix_nonneg gain_bounds)
  qed
  then show ?thesis using get put by (simp add: learn_speed_def f_def ratio_def Let_def)
qed

lemma observe_part_ok:
  assumes "stats_ok t st" "t \<le> unix now" "CHR 0x00 \<notin> set machine"
  shows "stats_ok (unix now) (observe_part machine fn items computeSec elapsedSec now hwOf st)"
proof (cases "items \<le> 0 \<or> computeSec \<le> 0")
  case True
  then show ?thesis using stats_ok_later [OF assms(1,2)] by (simp add: observe_part_def)
next
  case False
  define x where "x = of_int items / computeSec"
  define ov where "ov = max 0 (elapsedSec - computeSec)"
  have x: "0 < x" "0 \<le> ov" using False by (simp_all add: x_def ov_def)
  obtain cur curOK where hw: "hwOf machine = (cur, curOK)" by fastforce
  define cold where "cold = hwPrior machine fn cur now hwOf st"
  have cold: "0 < c" if "cold = Some c" for c using that hwPrior_pos by (simp add: cold_def)
  define f where "f e = count_part now cur curOK (learn x ov (start_run now cold e))" for e
  let ?k = "poolStatKey machine fn"
  obtain e st' where get: "get_entry machine fn cur curOK st = (e, st')" by fastforce
  obtain e' st'' where put: "(case e of Some e \<Rightarrow> (e, st') | None \<Rightarrow> (new_entry, put_entry machine fn new_entry st')) = (e', st'')"
    by fastforce
  have f: "entry_ok (unix now) ?k (f e0)" if "entry_ok t ?k e0 \<or> e0 = new_entry" for e0
    unfolding f_def using start_run_ok [OF that assms(2) cold] x by (intro learn_ok) (simp_all add: Let_def)
  have ok: "stats_ok (unix now) (AList.update ?k (f e') st'')"
    by (rule get_put_ok [OF assms(1,2) _ _ get put]) (use f in auto)
  have "observe_part machine fn items computeSec elapsedSec now hwOf st
      = (case cold of None \<Rightarrow> AList.update ?k (f e') st''
         | Some c \<Rightarrow> if 0 < c then learn_speed machine x c now cur curOK (AList.update ?k (f e') st'') else AList.update ?k (f e') st'')"
    using False get put hw by (simp add: observe_part_def f_def x_def ov_def cold_def Let_def split: option.split)
  then show ?thesis using ok learn_speed_ok [OF ok x(1) _ assms(3)] by (simp split: option.split)
qed

lemma prior_ok:
  assumes "stats_ok t st"
  shows "stats_ok t (snd (prior exp2 machine fn now hwOf st))"
proof -
  obtain cur curOK where hw: "hwOf machine = (cur, curOK)" by fastforce
  show ?thesis
  proof (cases rule: get_entry_cases [of machine fn cur curOK st])
    case (1 e)
    then have "entry_ok t (poolStatKey machine fn) (fold_run e)" using stats_ok_look [OF assms] fold_run_ok by blast
    then have "stats_ok t (AList.update (poolStatKey machine fn) (fold_run e) st)"
      by (intro stats_ok_update assms) (simp_all add: 1(2))
    then show ?thesis using assms by (simp add: prior_def hw 1(1) Let_def)
  next
    case (2 st')
    then show ?thesis using assms stats_ok_delete by (auto simp: prior_def hw Let_def)
  qed
qed

lemma prior_positive:
  assumes "stats_ok t st" "of_int t \<le> now" "\<And>y. y \<le> 0 \<Longrightarrow> 0 \<le> exp2 y \<and> exp2 y \<le> 1"
    and "CHR 0x00 \<notin> set machine" "fn \<noteq> poolStatsAnyFn"
    and "fst (prior exp2 machine fn now hwOf st) = Some (r, ov)"
  shows "0 < r \<and> 0 \<le> ov"
proof -
  obtain cur curOK where hw: "hwOf machine = (cur, curOK)" by fastforce
  define cold where "cold = hwPrior machine fn cur now hwOf st"
  have cold: "0 < c" if "cold = Some c" for c using that hwPrior_pos by (simp add: cold_def)
  show ?thesis
  proof (cases rule: get_entry_cases [of machine fn cur curOK st])
    case (2 st')
    then show ?thesis
      using assms(6) cold by (auto simp: prior_def hw cold_def [symmetric] poolStatsOverhead_def Let_def)
  next
    case (1 e)
    have e: "entry_ok t (poolStatKey machine fn) e" using stats_ok_look [OF assms(1) 1(2)] .
    have R: "0 < pe_R (fold_run e)" "pe_TLast (fold_run e) = pe_TLast e"
      using e assms(4,5) by (auto simp: entry_ok_def fold_run_def split_key Let_def)
    show ?thesis
    proof (cases "live now e")
      case True
      then show ?thesis
        using assms(4-6) e by (simp add: prior_def hw 1(1) Let_def) (auto simp: entry_ok_def split_key live_def)
    next
      case False
      define w where "w = exp2 (- ((now - of_int (pe_TLast e)) / 3600) / poolStatsHalfLife)"
      have "of_int (pe_TLast e) \<le> now" using e assms(2) by (auto simp: entry_ok_def intro: order_trans [OF of_int_le_iff [THEN iffD2]])
      then have w: "0 \<le> w" "w \<le> 1" using assms(3) by (simp_all add: w_def poolStatsHalfLife_def)
      have "0 < w * pe_R (fold_run e) + (1 - w) * c" if "0 < c" for c
        using mix_pos [of "1 - w" "pe_R (fold_run e)" c] w R(1) that by (simp add: mix_def)
      moreover define o' where "o' = (if pe_O (fold_run e) \<le> 0 then poolStatsOverhead else pe_O (fold_run e))"
      moreover have "fst (prior exp2 machine fn now hwOf st) = (case cold of None \<Rightarrow> Some (pe_R (fold_run e), o')
          | Some c \<Rightarrow> Some (w * pe_R (fold_run e) + (1 - w) * c, o'))"
        using False by (simp add: prior_def hw 1(1) cold_def w_def o'_def R(2) Let_def split: option.split)
      moreover have "0 \<le> o'" by (simp add: o'_def poolStatsOverhead_def)
      ultimately show ?thesis using assms(6) R(1) cold by (auto split: option.splits)
    qed
  qed
qed

subsection \<open>Every run\<close>

text \<open>The pool's calls, each at its time; the time of the last one is part of the state.\<close>

datatype stats_event =
    Observed string string int f64 f64 f64 hw_of
  | AskedPrior string string f64 hw_of

fun event_time :: "stats_event \<Rightarrow> f64" where
  "event_time (Observed m fn items c el now hwOf) = now"
| "event_time (AskedPrior m fn now hwOf) = now"

fun event_machine :: "stats_event \<Rightarrow> string" where
  "event_machine (Observed m fn items c el now hwOf) = m"
| "event_machine (AskedPrior m fn now hwOf) = m"

fun stats_step :: "(f64 \<Rightarrow> f64) \<Rightarrow> stats_event \<Rightarrow> int \<times> stats \<Rightarrow> int \<times> stats" where
  "stats_step exp2 (Observed m fn items c el now hwOf) (t, st) = (unix now, observe_part m fn items c el now hwOf st)"
| "stats_step exp2 (AskedPrior m fn now hwOf) (t, st) = (unix now, snd (prior exp2 m fn now hwOf st))"

text \<open>The clock does not go back, and a node id holds no NUL.\<close>

definition stats_event_ok :: "stats_event \<Rightarrow> int \<times> stats \<Rightarrow> bool" where
  "stats_event_ok e s \<longleftrightarrow> fst s \<le> unix (event_time e) \<and> CHR 0x00 \<notin> set (event_machine e)"

interpretation stats_machine: guarded_machine "stats_step exp2" stats_event_ok "\<lambda>(t, st). stats_ok t st" for exp2
proof
  fix s e assume inv: "case s of (t, st) \<Rightarrow> stats_ok t st" and ok: "stats_event_ok e s"
  obtain t st where s: "s = (t, st)" by (cases s)
  show "case stats_step exp2 e s of (t, st) \<Rightarrow> stats_ok t st"
    using inv ok observe_part_ok stats_ok_later prior_ok
    by (cases e) (auto simp: s stats_event_ok_def)
qed

text \<open>In every run of observations and questions, with the clock not going back, at most a
  thousand entries are kept, and whatever the parts took, however often the hardware changed or
  entries were evicted, every speed the store gives for a function is above zero and every fixed
  cost at least zero; so a measured node is never planned out for want of a speed.\<close>

theorem stats_always_usable:
  assumes "stats_machine.run_ok exp2 es (0, [])" "(t, st) = fold (stats_step exp2) es (0, [])"
    and "of_int t \<le> now" "CHR 0x00 \<notin> set machine" "fn \<noteq> poolStatsAnyFn"
    and "\<And>y. y \<le> 0 \<Longrightarrow> 0 \<le> exp2 y \<and> exp2 y \<le> 1"
    and "fst (prior exp2 machine fn now hwOf st) = Some (r, ov)"
  shows "length st \<le> poolStatsMaxKeys \<and> 0 < r \<and> 0 \<le> ov"
proof -
  have "stats_ok t st"
    using stats_machine.run_inv [of "(0, [])", OF _ assms(1)] assms(2) by (auto simp: stats_ok_def)
  moreover have "0 < r \<and> 0 \<le> ov"
    by (rule prior_positive [OF calculation assms(3) _ assms(4,5,7)]) (rule assms(6))
  ultimately show ?thesis by (simp add: stats_ok_def)
qed

text \<open>One observation moves the running estimate to between itself and the estimate before
  (the run so far, else the speed of earlier runs, else the prior), never past either; the
  first part of a run that is off by more than two, and a later one off by more than three
  deviations, replaces the estimate outright.\<close>

theorem estimate_between:
  assumes "0 \<le> pe_RunN e" "e0 = start_run now cold e" "0 < pe_RunR e0"
  shows "min (pe_RunR e0) x \<le> pe_RunR (learn x ov e0) \<and> pe_RunR (learn x ov e0) \<le> max (pe_RunR e0) x
    \<and> (pe_RunN e0 = 0 \<and> (2 * pe_RunR e0 < x \<or> x < pe_RunR e0 / 2) \<longrightarrow> pe_RunR (learn x ov e0) = x)
    \<and> (3 \<le> pe_RunN e0 \<and> pe_Dev e0 \<noteq> 0 \<and> 3 * pe_Dev e0 < \<bar>x - pe_RunR e0\<bar> \<longrightarrow> pe_RunR (learn x ov e0) = x)"
proof -
  have "0 \<le> pe_RunN e0"
    using assms(1) by (auto simp: assms(2) start_run_def fold_run_def Let_def split: option.splits)
  then show ?thesis
    using mix_between [of "max poolStatsAlpha (1 / of_int (pe_RunN e0 + 2))" "pe_RunR e0" x]
      weight_bounds [of "pe_RunN e0"] assms(3)
    by (auto simp: learn_def Let_def)
qed

definition ex_events :: "stats_event list" where
  "ex_events = [Observed ''n'' ''f'' 10 2 3 100 (\<lambda>_. (\<lparr>hw_Model = [], hw_Cores = 0, hw_MHz = 0\<rparr>, False)),
     Observed ''n'' ''f'' 10 1 1 110 (\<lambda>_. (\<lparr>hw_Model = [], hw_Cores = 0, hw_MHz = 0\<rparr>, False))]"

lemmas stats_eval = ex_events_def observe_part_def hwPrior_def score_def get_entry_def put_entry_def new_entry_def start_run_def
  live_def fold_run_def learn_def count_part_def unix_def mix_def poolStatsAlpha_def poolStatsBeta_def poolStatsRunGap_def
  poolStatsMaxKeys_def prior_def Let_def

theorem stats_always_usable_witness:
  "\<exists>r ov. fst (prior (\<lambda>_. 1) ''n'' ''f'' 120 (\<lambda>_. (\<lparr>hw_Model = [], hw_Cores = 0, hw_MHz = 0\<rparr>, False))
     (snd (fold (stats_step (\<lambda>_. 1)) ex_events (0, [])))) = Some (r, ov) \<and> 0 < r \<and> 0 \<le> ov"
proof -
  let ?hw = "\<lambda>_. (\<lparr>hw_Model = [], hw_Cores = 0, hw_MHz = 0\<rparr>, False)"
  let ?st = "snd (fold (stats_step (\<lambda>_. 1)) ex_events (0, []))"
  have run: "stats_machine.run_ok (\<lambda>_. 1) ex_events (0, [])" by (simp add: ex_events_def stats_event_ok_def unix_def)
  have st: "(110, ?st) = fold (stats_step (\<lambda>_. 1)) ex_events (0, [])" by (simp add: ex_events_def unix_def)
  have "fst (prior (\<lambda>_. 1) ''n'' ''f'' 120 ?hw ?st) = Some (20 / 3, 2 / 3)" by (simp add: stats_eval)
  then show ?thesis
    using stats_always_usable [OF run st, of 120 "''n''" "''f''" ?hw] by (fastforce simp: poolStatsAnyFn_def)
qed

theorem estimate_between_witness:
  "pe_RunR (learn 10 0 (new_entry\<lparr>pe_RunR := 8, pe_RunN := 1, pe_Dev := 1\<rparr>)) \<le> 10
   \<and> 8 \<le> pe_RunR (learn 10 0 (new_entry\<lparr>pe_RunR := 8, pe_RunN := 1, pe_Dev := 1\<rparr>))"
  using estimate_between [where e = "new_entry\<lparr>pe_RunR := 8, pe_RunN := 1, pe_Dev := 1\<rparr>"
      and ?e0.0 = "new_entry\<lparr>pe_RunR := 8, pe_RunN := 1, pe_Dev := 1\<rparr>" and now = 0 and cold = None, of 10 0]
  by (simp add: start_run_def live_def unix_def poolStatsRunGap_def new_entry_def)

end
