(* ===== verification/DdpPlace.thy ===== *)
theory DdpPlace
  imports Schedule "HOL-Library.Multiset"
begin

text \<open>
  Which nodes join a training ring, \<^verbatim>\<open>src/internal/ddpplace/ddpplace.go\<close>: the probe's scores, one
  device per slot, the scheduler's memory gate, the choice of the fastest prefix and the weights.
  The probe's HTTP request is a parameter. \<open>sort.Slice\<close> leaves the order of equals open; the model
  keeps them in the order given.
\<close>

subsection \<open>Data\<close>

record candidate =
  ca_NodeID :: string
  ca_Host :: string
  ca_Port :: int
  ca_Cores :: int
  ca_MemBytes :: int
  ca_HasGPU :: bool
  ca_Slots :: int

record choice =
  cc_Candidate :: candidate
  cc_Score :: f64
  cc_Weight :: f64
  cc_Slot :: nat

datatype place_reason = TooSlowToContribute | FromSchedule reject_reason | RingCapped int

record place_rejection =
  pr_Candidate :: candidate
  pr_Reason :: place_reason

record ring_plan =
  rp_Chosen :: "choice list"
  rp_Rejected :: "place_rejection list"
  rp_Measured :: bool

definition nominalStep :: int where "nominalStep = 100000"

record place_options =
  po_Max :: int
  po_WorkingSetBytes :: int
  po_ProportionalBatches :: bool
  po_KeepAll :: bool

record slotRef =
  sr_cand :: candidate
  sr_slot :: nat
  sr_score :: f64

subsection \<open>Slots\<close>

definition slotID :: "string \<Rightarrow> nat \<Rightarrow> string" where
  "slotID nodeID slot = (if slot = 0 then nodeID else nodeID @ ''#'' @ decimal slot)"

definition kindOf :: "candidate \<Rightarrow> kind" where
  "kindOf c = (if ca_HasGPU c then GPU else CPU)"

definition slots_of :: "candidate \<Rightarrow> nat" where
  "slots_of c = nat (max 1 (ca_Slots c))"

definition slot_refs :: "candidate list \<Rightarrow> f64 list \<Rightarrow> slotRef list" where
  "slot_refs cands scores = concat (map (\<lambda>(c, score).
     map (\<lambda>slot. \<lparr>sr_cand = c, sr_slot = slot, sr_score = score\<rparr>) [0..<slots_of c]) (zip cands scores))"

definition ref_id :: "slotRef \<Rightarrow> string" where
  "ref_id r = slotID (ca_NodeID (sr_cand r)) (sr_slot r)"

definition slot_device :: "slotRef \<Rightarrow> device" where
  "slot_device r = \<lparr>dev_ID = ref_id r, dev_Node = ca_Host (sr_cand r), dev_Kind = kindOf (sr_cand r),
     dev_Rate = sr_score r, dev_BytesPerSec = 0, dev_SetupSec = 0,
     dev_MemBytes = go_div (ca_MemBytes (sr_cand r)) (int (slots_of (sr_cand r)))\<rparr>"

text \<open>The map \<open>slotOf\<close>: a later slot of the same name overwrites an earlier one.\<close>

definition slotOf :: "slotRef list \<Rightarrow> string \<Rightarrow> slotRef option" where
  "slotOf refs i = map_of (rev (map (\<lambda>r. (ref_id r, r)) refs)) i"

subsection \<open>Scores\<close>

text \<open>\<open>probe c\<close> is the node's answer, \<open>None\<close> an error.\<close>

definition probeAll :: "(candidate \<Rightarrow> f64 option) \<Rightarrow> candidate list \<Rightarrow> f64 list \<times> bool" where
  "probeAll probe cands =
     (let ok = (\<lambda>c. case probe c of None \<Rightarrow> False | Some s \<Rightarrow> 0 < s);
          answers = map (\<lambda>c. the (probe c)) (filter ok cands)
      in if answers = [] then (map (\<lambda>c. if 0 < ca_Cores c then of_int (ca_Cores c) else 1) cands, False)
         else let mean = sum_list answers / of_nat (length answers)
           in (map (\<lambda>c. if ok c then the (probe c) else mean) cands, True))"

subsection \<open>The ring\<close>

text \<open>The prefix that is worth most when every rank waits for the slowest.\<close>

fun best_prefix :: "nat \<Rightarrow> nat \<Rightarrow> f64 \<Rightarrow> f64 list \<Rightarrow> nat" where
  "best_prefix k best bt [] = best"
| "best_prefix k best bt (slowest # rates) =
     (let throughput = of_nat k * slowest
      in if bt < throughput then best_prefix (Suc k) k throughput rates else best_prefix (Suc k) best bt rates)"

definition rank_items :: "place_options \<Rightarrow> f64 \<Rightarrow> nat \<Rightarrow> device \<Rightarrow> int" where
  "rank_items opts admittedRate best d =
     (if po_ProportionalBatches opts \<and> 0 < admittedRate
      then go_int (of_int nominalStep * dev_Rate d / admittedRate) else nominalStep div int best)"

definition admit :: "plan \<Rightarrow> place_options \<Rightarrow> plan" where
  "admit p opts =
     (let shares = sort_key (\<lambda>s. - dev_Rate (sh_Device s)) (pl_Shares p);
          best = (if po_KeepAll opts then length shares else best_prefix 1 0 0 (map (dev_Rate \<circ> sh_Device) shares));
          admittedRate = sum_list (map (dev_Rate \<circ> sh_Device) (take best shares))
      in p\<lparr>pl_Shares := map (\<lambda>s. s\<lparr>sh_Items := rank_items opts admittedRate best (sh_Device s)\<rparr>) (take best shares),
           pl_Rejected := pl_Rejected p
             @ map (\<lambda>(i, s). \<lparr>rj_Device = sh_Device s, rj_Reason = WouldSetThePace (i + 1) best\<rparr>)
                 (drop best (zip [0..<length shares] shares))\<rparr>)"

definition ref_of :: "slotRef list \<Rightarrow> device \<Rightarrow> slotRef" where
  "ref_of refs d = (case slotOf refs (dev_ID d) of Some r \<Rightarrow> r
     | None \<Rightarrow> \<lparr>sr_cand = \<lparr>ca_NodeID = [], ca_Host = [], ca_Port = 0, ca_Cores = 0, ca_MemBytes = 0, ca_HasGPU = False, ca_Slots = 0\<rparr>,
         sr_slot = 0, sr_score = 0\<rparr>)"

definition choice_of :: "slotRef list \<Rightarrow> share \<Rightarrow> choice" where
  "choice_of refs s =
     (let r = ref_of refs (sh_Device s)
      in \<lparr>cc_Candidate = sr_cand r, cc_Score = sr_score r,
          cc_Weight = of_int (sh_Items s) / of_int nominalStep, cc_Slot = sr_slot r\<rparr>)"

definition renormalise :: "choice list \<Rightarrow> choice list" where
  "renormalise chosen =
     (let total = sum_list (map cc_Weight chosen)
      in if 0 < total then map (\<lambda>c. c\<lparr>cc_Weight := cc_Weight c / total\<rparr>) chosen else chosen)"

definition Select :: "(candidate \<Rightarrow> f64 option) \<Rightarrow> candidate list \<Rightarrow> place_options \<Rightarrow> ring_plan" where
  "Select probe cands opts =
     (if cands = [] then \<lparr>rp_Chosen = [], rp_Rejected = [], rp_Measured = False\<rparr>
      else let (scores, measured) = probeAll probe cands;
               refs = slot_refs cands scores;
               sized = Compute \<lparr>op_Items = nominalStep, op_BytesPerItem = 0,
                 op_WorkingSetBytes = po_WorkingSetBytes opts, op_MinItems = 0\<rparr> (map slot_device refs);
               plan = admit sized opts;
               used = filter (\<lambda>s. 0 < sh_Items s) (pl_Shares plan);
               idle = filter (\<lambda>s. \<not> 0 < sh_Items s) (pl_Shares plan);
               chosen = sort_key (\<lambda>c. (- cc_Score c, cc_Slot c)) (map (choice_of refs) used);
               kept = (if 0 < po_Max opts then take (nat (po_Max opts)) chosen else chosen);
               cut = (if 0 < po_Max opts then drop (nat (po_Max opts)) chosen else [])
           in \<lparr>rp_Chosen = renormalise kept,
               rp_Rejected =
                 map (\<lambda>s. \<lparr>pr_Candidate = sr_cand (ref_of refs (sh_Device s)), pr_Reason = TooSlowToContribute\<rparr>) idle
                 @ map (\<lambda>r. \<lparr>pr_Candidate = sr_cand (ref_of refs (rj_Device r)), pr_Reason = FromSchedule (rj_Reason r)\<rparr>)
                     (pl_Rejected plan)
                 @ map (\<lambda>c. \<lparr>pr_Candidate = cc_Candidate c, pr_Reason = RingCapped (po_Max opts)\<rparr>) cut,
               rp_Measured = measured\<rparr>)"

subsection \<open>The prefix is the best ring\<close>

lemma best_prefix_spec:
  "(best_prefix k best bt rates = best \<and> (\<forall>j < length rates. of_nat (k + j) * rates ! j \<le> bt))
   \<or> (\<exists>i < length rates. best_prefix k best bt rates = k + i \<and> bt < of_nat (k + i) * rates ! i
       \<and> (\<forall>j < length rates. of_nat (k + j) * rates ! j \<le> of_nat (k + i) * rates ! i))"
proof (induction rates arbitrary: k best bt)
  case (Cons s rates)
  let ?v = "of_nat k * s"
  show ?case
  proof (cases "bt < ?v")
    case True
    from Cons.IH [of "Suc k" k ?v] show ?thesis
    proof (elim disjE)
      assume "best_prefix (Suc k) k ?v rates = k \<and> (\<forall>j < length rates. of_nat (Suc k + j) * rates ! j \<le> ?v)"
      with True show ?thesis by (intro disjI2 exI [of _ 0]) (auto simp: less_Suc_eq_0_disj add_ac)
    next
      assume "\<exists>i < length rates. best_prefix (Suc k) k ?v rates = Suc k + i \<and> ?v < of_nat (Suc k + i) * rates ! i
        \<and> (\<forall>j < length rates. of_nat (Suc k + j) * rates ! j \<le> of_nat (Suc k + i) * rates ! i)"
      then obtain i where "i < length rates" "best_prefix (Suc k) k ?v rates = Suc k + i" "?v < of_nat (Suc k + i) * rates ! i"
        "\<forall>j < length rates. of_nat (Suc k + j) * rates ! j \<le> of_nat (Suc k + i) * rates ! i" by blast
      with True show ?thesis by (intro disjI2 exI [of _ "Suc i"]) (auto simp: less_Suc_eq_0_disj add_ac)
    qed
  next
    case False
    with Cons.IH [of "Suc k" best bt] show ?thesis
    proof (elim disjE)
      assume "best_prefix (Suc k) best bt rates = best \<and> (\<forall>j < length rates. of_nat (Suc k + j) * rates ! j \<le> bt)"
      with False show ?thesis by (intro disjI1) (auto simp: less_Suc_eq_0_disj add_ac)
    next
      assume "\<exists>i < length rates. best_prefix (Suc k) best bt rates = Suc k + i \<and> bt < of_nat (Suc k + i) * rates ! i
        \<and> (\<forall>j < length rates. of_nat (Suc k + j) * rates ! j \<le> of_nat (Suc k + i) * rates ! i)"
      then obtain i where "i < length rates" "best_prefix (Suc k) best bt rates = Suc k + i" "bt < of_nat (Suc k + i) * rates ! i"
        "\<forall>j < length rates. of_nat (Suc k + j) * rates ! j \<le> of_nat (Suc k + i) * rates ! i" by blast
      with False show ?thesis by (intro disjI2 exI [of _ "Suc i"]) (auto simp: less_Suc_eq_0_disj add_ac)
    qed
  qed
qed simp

lemma falling_drop:
  assumes "sorted_wrt (\<ge>) (xs :: f64 list)" "m < length xs" "x \<in> set (drop m xs)"
  shows "x \<le> xs ! m"
proof -
  have "drop m xs = xs ! m # drop (Suc m) xs" using assms(2) by (simp add: Cons_nth_drop_Suc)
  moreover have "sorted_wrt (\<ge>) (drop m xs)" using assms(1) by (rule sorted_wrt_drop)
  ultimately show ?thesis using assms(3) by auto
qed

text \<open>Among any \<open>m\<close> entries of a falling list one is at most its \<open>m\<close>-th.\<close>

lemma falling_pigeonhole:
  assumes "sorted_wrt (\<ge>) (xs :: f64 list)" "S \<subseteq># mset xs" "S \<noteq> {#}"
  shows "\<exists>x \<in># S. x \<le> xs ! (size S - 1)"
proof (rule ccontr)
  let ?m = "size S - 1" and ?v = "xs ! (size S - 1)"
  assume "\<not> ?thesis"
  then have "filter_mset (\<lambda>x. ?v < x) S = S" by (intro filter_mset_eq_conv [THEN iffD2]) (auto simp: not_le)
  then have "S \<subseteq># filter_mset (\<lambda>x. ?v < x) (mset xs)" using multiset_filter_mono [OF assms(2)] by metis
  then have "S \<subseteq># mset (filter (\<lambda>x. ?v < x) xs)" unfolding mset_filter .
  from size_mset_mono [OF this] have "size S \<le> length (filter (\<lambda>x. ?v < x) xs)" unfolding size_mset .
  also have "filter (\<lambda>x. ?v < x) xs = filter (\<lambda>x. ?v < x) (take ?m xs) @ filter (\<lambda>x. ?v < x) (drop ?m xs)"
    by (simp flip: filter_append)
  also have "filter (\<lambda>x. ?v < x) (drop ?m xs) = []"
  proof -
    have m: "?m < length xs" using assms(2,3) size_mset_mono [OF assms(2)] by (cases S) auto
    have "x \<le> ?v" if "x \<in> set (drop ?m xs)" for x by (rule falling_drop [OF assms(1) m that])
    then show ?thesis by (auto simp: filter_empty_conv not_less)
  qed
  also have "length (filter (\<lambda>x. ?v < x) (take ?m xs) @ []) \<le> ?m"
    using length_filter_le [of "\<lambda>x. ?v < x" "take ?m xs"] by simp
  finally show False using assms(3) by (cases S) auto
qed

lemma sort_falling: "sorted_wrt (\<ge>) (map f (sort_key (\<lambda>s. - f s :: f64) xs))"
proof -
  have "sorted (map (\<lambda>s. - f s) (sort_key (\<lambda>s. - f s) xs))" by (rule sorted_sort_key)
  then show ?thesis by (simp add: sorted_wrt_map)
qed

lemma admit_shares:
  "\<exists>n. map sh_Device (pl_Shares (admit p opts)) = take n (map sh_Device (sort_key (\<lambda>s. - dev_Rate (sh_Device s)) (pl_Shares p)))
    \<and> (\<not> po_KeepAll opts \<longrightarrow> n = best_prefix 1 0 0 (map (dev_Rate \<circ> sh_Device) (sort_key (\<lambda>s. - dev_Rate (sh_Device s)) (pl_Shares p))))"
proof (cases "po_KeepAll opts")
  case True
  then show ?thesis by (intro exI [of _ "length (pl_Shares p)"]) (simp add: admit_def Let_def comp_def)
qed (auto simp: admit_def Let_def take_map comp_def)

text \<open>The ring admitted for equal batches is the best of all rings: whichever set of the
  offered devices is taken instead, with every rank waiting for its slowest member, it is worth
  no more than the admitted one, and the admitted one is not empty when a device was offered.\<close>

theorem admitted_ring_is_best:
  assumes "\<not> po_KeepAll opts" "S \<subseteq># mset (map sh_Device (pl_Shares p))" "S \<noteq> {#}"
    and "\<And>d. d \<in># S \<Longrightarrow> 0 < r \<and> r \<le> dev_Rate d" "c \<in> set (pl_Shares (admit p opts))"
  shows "of_nat (size S) * r \<le> of_nat (length (pl_Shares (admit p opts))) * dev_Rate (sh_Device c)
    \<and> pl_Shares (admit p opts) \<noteq> []"
proof -
  let ?shares = "sort_key (\<lambda>s. - dev_Rate (sh_Device s)) (pl_Shares p)"
  let ?rates = "map (dev_Rate \<circ> sh_Device) ?shares"
  let ?b = "best_prefix 1 0 0 ?rates"
  have falling: "sorted_wrt (\<ge>) ?rates" using sort_falling [of "dev_Rate \<circ> sh_Device" "pl_Shares p"] by (simp add: comp_def)
  have devs: "map sh_Device (pl_Shares (admit p opts)) = take ?b (map sh_Device ?shares)"
    using admit_shares [of p opts] assms(1) by auto
  have sub: "image_mset dev_Rate S \<subseteq># mset ?rates"
    using image_mset_subseteq_mono [OF assms(2), of dev_Rate] by (simp add: image_mset.compositionality comp_def)
  obtain d where d: "d \<in># S" "dev_Rate d \<le> ?rates ! (size S - 1)"
    using falling_pigeonhole [OF falling sub] assms(3) by auto
  have m: "size S - 1 < length ?rates" "0 < size S"
    using size_mset_mono [OF assms(2)] assms(3) by (cases S; simp)+
  have low: "of_nat (size S) * r \<le> of_nat (1 + (size S - 1)) * ?rates ! (size S - 1)"
    using assms(4) [OF d(1)] d(2) m(2) by (intro mult_mono) auto
  have "0 < of_nat (size S) * r" using assms(4) [OF d(1)] m(2) by simp
  with low have worth: "0 < of_nat (1 + (size S - 1)) * ?rates ! (size S - 1)" by linarith
  have "\<exists>i < length ?rates. ?b = 1 + i \<and> (\<forall>j < length ?rates. of_nat (1 + j) * ?rates ! j \<le> of_nat (1 + i) * ?rates ! i)"
    using best_prefix_spec [of 1 0 0 ?rates] m(1) worth by (meson leD)
  then obtain i where i: "i < length ?rates" "?b = 1 + i" "\<And>j. j < length ?rates \<Longrightarrow> of_nat (1 + j) * ?rates ! j \<le> of_nat (1 + i) * ?rates ! i"
    by blast
  have len: "length (pl_Shares (admit p opts)) = 1 + i"
    using arg_cong [OF devs, of length] i(1,2) by simp
  have "?rates ! i \<le> dev_Rate (sh_Device c)"
  proof -
    have "map sh_Device (pl_Shares (admit p opts)) = take (1 + i) (map sh_Device ?shares)" using devs unfolding i(2) .
    then have "map dev_Rate (map sh_Device (pl_Shares (admit p opts))) = take (Suc i) ?rates" by (simp add: take_map comp_def)
    then have "dev_Rate (sh_Device c) \<in> set (take (Suc i) ?rates)" using assms(5) by (metis image_eqI list.set_map)
    then obtain j where "j \<le> i" "dev_Rate (sh_Device c) = ?rates ! j"
      using i(1) by (auto simp: in_set_conv_nth less_Suc_eq_le simp del: nth_map)
    then show ?thesis using falling i(1) by (cases "j = i") (auto simp: sorted_wrt_iff_nth_less simp del: nth_map)
  qed
  then have "of_nat (1 + i) * ?rates ! i \<le> of_nat (1 + i) * dev_Rate (sh_Device c)" by (intro mult_left_mono) auto
  with i(3) [OF m(1)] low have "of_nat (size S) * r \<le> of_nat (1 + i) * dev_Rate (sh_Device c)" by linarith
  then show ?thesis using assms(5) unfolding len by auto
qed

subsection \<open>Slot names\<close>

lemma slotID_inj:
  assumes "CHR ''#'' \<notin> set a" "CHR ''#'' \<notin> set b" "slotID a i = slotID b j"
  shows "a = b \<and> i = j"
proof -
  have split: "takeWhile (\<lambda>c. c \<noteq> CHR ''#'') (slotID x k) = x
      \<and> dropWhile (\<lambda>c. c \<noteq> CHR ''#'') (slotID x k) = (if k = 0 then [] else CHR ''#'' # decimal k)"
    if "CHR ''#'' \<notin> set x" for x k
    using that by (induction x) (auto simp: slotID_def)
  have "a = b" using split [OF assms(1), of i] split [OF assms(2), of j] assms(3) by metis
  moreover have "(if i = 0 then [] else CHR ''#'' # decimal i) = (if j = 0 then [] else CHR ''#'' # decimal j)"
    using split [OF assms(1), of i] split [OF assms(2), of j] assms(3) by metis
  then have "i = j" by (metis list.inject list.simps(3) undecimal_decimal)
  ultimately show ?thesis by simp
qed

text \<open>Node ids are told apart and hold no \<open>#\<close>: they are key fingerprints.\<close>

definition ids_ok :: "candidate list \<Rightarrow> bool" where
  "ids_ok cands \<longleftrightarrow> distinct (map ca_NodeID cands) \<and> list_all (\<lambda>c. CHR ''#'' \<notin> set (ca_NodeID c)) cands"

lemma slot_refs_in:
  assumes "r \<in> set (slot_refs cands scores)"
  shows "sr_cand r \<in> set cands \<and> sr_slot r < slots_of (sr_cand r)"
proof -
  obtain c x where "(c, x) \<in> set (zip cands scores)" "r \<in> set (map (\<lambda>slot. \<lparr>sr_cand = c, sr_slot = slot, sr_score = x\<rparr>) [0..<slots_of c])"
    using assms by (auto simp: slot_refs_def)
  then show ?thesis using set_zip_leftD by fastforce
qed

lemma slot_refs_distinct:
  assumes "ids_ok cands"
  shows "distinct (map ref_id (slot_refs cands scores))"
  using assms
proof (induction cands arbitrary: scores)
  case (Cons c cands)
  show ?case
  proof (cases scores)
    case (Cons x xs)
    let ?own = "map (\<lambda>slot. \<lparr>sr_cand = c, sr_slot = slot, sr_score = x\<rparr>) [0..<slots_of c]"
    have refs: "slot_refs (c # cands) scores = ?own @ slot_refs cands xs"
      by (simp add: slot_refs_def Cons)
    have ok: "ids_ok cands" "CHR ''#'' \<notin> set (ca_NodeID c)" "ca_NodeID c \<notin> ca_NodeID ` set cands"
      using Cons.prems by (simp_all add: ids_ok_def)
    have "inj_on (slotID (ca_NodeID c)) A" for A using slotID_inj [OF ok(2,2)] by (auto intro: inj_onI)
    then have "distinct (map ref_id ?own)" by (simp add: comp_def ref_id_def distinct_map)
    moreover have "ref_id r \<noteq> ref_id r'" if "r \<in> set ?own" "r' \<in> set (slot_refs cands xs)" for r r'
    proof -
      have "sr_cand r' \<in> set cands" using slot_refs_in [OF that(2)] by simp
      then have "CHR ''#'' \<notin> set (ca_NodeID (sr_cand r'))" using ok(1) by (simp add: ids_ok_def list_all_iff)
      moreover have "ca_NodeID (sr_cand r') \<noteq> ca_NodeID c"
        using imageI [OF \<open>sr_cand r' \<in> set cands\<close>, of ca_NodeID] ok(3) by metis
      ultimately show ?thesis using that(1) slotID_inj [OF ok(2)] by (fastforce simp: ref_id_def)
    qed
    ultimately show ?thesis using Cons.IH [OF ok(1), of xs] unfolding refs by auto
  qed (simp add: slot_refs_def)
qed (simp add: slot_refs_def)

lemma ref_of_device:
  assumes "distinct (map ref_id refs)" "r \<in> set refs"
  shows "ref_of refs (slot_device r) = r"
proof -
  let ?t = "map (\<lambda>r. (ref_id r, r)) refs"
  have "distinct (map fst (rev ?t))" using assms(1) by (simp add: rev_map [symmetric] comp_def)
  moreover have "(ref_id r, r) \<in> set (rev ?t)" using assms(2) by auto
  ultimately have "map_of (rev ?t) (ref_id r) = Some r" by (rule map_of_is_SomeI)
  then show ?thesis by (simp add: ref_of_def slotOf_def slot_device_def)
qed

subsection \<open>The ring is well formed\<close>

definition sized_opts :: "place_options \<Rightarrow> options" where
  "sized_opts opts = \<lparr>op_Items = nominalStep, op_BytesPerItem = 0, op_WorkingSetBytes = po_WorkingSetBytes opts, op_MinItems = 0\<rparr>"

text \<open>The devices the plan uses: slots with memory for a rank, no slot twice.\<close>

lemma admitted_devices:
  fixes opts :: place_options
  assumes "distinct (map ref_id refs)"
  defines "devs \<equiv> map sh_Device (pl_Shares (admit (Compute (sized_opts opts) (map slot_device refs)) opts))"
  shows "distinct devs" and "d \<in> set devs \<Longrightarrow> \<exists>r \<in> set refs. d = slot_device r
    \<and> (0 < po_WorkingSetBytes opts \<longrightarrow> po_WorkingSetBytes opts \<le> dev_MemBytes d)"
proof -
  let ?sized = "Compute (sized_opts opts) (map slot_device refs)"
  let ?sort = "sort_key (\<lambda>s. - dev_Rate (sh_Device s)) (pl_Shares ?sized)"
  have pos: "0 < op_Items (sized_opts opts)" "op_MinItems (sized_opts opts) \<le> 1"
    by (simp_all add: sized_opts_def nominalStep_def)
  obtain P where P: "map sh_Device (pl_Shares ?sized) = filter P (eligible (sized_opts opts) (map slot_device refs))"
    using Compute_unfloored_devices [OF pos] by blast
  obtain n where n: "devs = take n (map sh_Device ?sort)" using admit_shares [of ?sized opts] by (auto simp: devs_def)
  have "inj_on slot_device (set refs)"
    using assms(1) by (auto simp: inj_on_def slot_device_def distinct_map)
  then have "distinct (map slot_device refs)" using assms(1) by (simp add: distinct_map)
  then have "distinct (map sh_Device (pl_Shares ?sized))" unfolding P by (simp add: eligible_def)
  moreover have "mset (map sh_Device ?sort) = mset (map sh_Device (pl_Shares ?sized))" by simp
  ultimately have "distinct (map sh_Device ?sort)" by (metis mset_eq_imp_distinct_iff)
  then show "distinct devs" unfolding n by (rule distinct_take)
  have "set (map sh_Device ?sort) = set (map sh_Device (pl_Shares ?sized))" by simp
  then have "set devs \<subseteq> set (map sh_Device (pl_Shares ?sized))" unfolding n using set_take_subset by metis
  then have "set devs \<subseteq> set (eligible (sized_opts opts) (map slot_device refs))" unfolding P by auto
  then show "d \<in> set devs \<Longrightarrow> \<exists>r \<in> set refs. d = slot_device r
    \<and> (0 < po_WorkingSetBytes opts \<longrightarrow> po_WorkingSetBytes opts \<le> dev_MemBytes d)"
    by (auto simp: eligible_def ineligible_def sized_opts_def not_less split: if_splits)
qed

lemma renormalise_sum:
  assumes "chosen \<noteq> []" "list_all (\<lambda>c. 0 < cc_Weight c) chosen"
  shows "sum_list (map cc_Weight (renormalise chosen)) = 1 \<and> list_all (\<lambda>c. 0 < cc_Weight c) (renormalise chosen)"
proof -
  let ?t = "sum_list (map cc_Weight chosen)"
  have "0 < ?t" using assms
  proof (induction chosen)
    case (Cons c cs)
    then show ?case by (cases cs) auto
  qed simp
  moreover have scaled: "sum_list (map (\<lambda>c. cc_Weight c / t) cs) = sum_list (map cc_Weight cs) / t" for t cs
    by (induction cs) (simp_all add: add_divide_distrib)
  moreover have "?t / ?t = 1" using calculation(1) by simp
  ultimately show ?thesis
    using assms(2) scaled [of ?t chosen] by (simp add: renormalise_def comp_def list_all_iff)
qed

definition rank_ok :: "candidate list \<Rightarrow> place_options \<Rightarrow> choice \<Rightarrow> bool" where
  "rank_ok cands opts c \<longleftrightarrow> cc_Candidate c \<in> set cands \<and> cc_Slot c < slots_of (cc_Candidate c)
     \<and> (0 < po_WorkingSetBytes opts \<longrightarrow>
         po_WorkingSetBytes opts \<le> go_div (ca_MemBytes (cc_Candidate c)) (int (slots_of (cc_Candidate c))))"

definition rank_slot :: "choice \<Rightarrow> string \<times> nat" where
  "rank_slot c = (ca_NodeID (cc_Candidate c), cc_Slot c)"

text \<open>What the shares of the admitted plan become, before the cap and the weights.\<close>

lemma choices_ok:
  assumes "ids_ok cands" "refs = slot_refs cands scores"
    and "S = pl_Shares (admit (Compute (sized_opts opts) (map slot_device refs)) opts)"
  shows "distinct (map rank_slot (map (choice_of refs) S))"
    and "s \<in> set S \<Longrightarrow> rank_ok cands opts (choice_of refs s)"
proof -
  have ids: "distinct (map ref_id refs)" unfolding assms(2) by (rule slot_refs_distinct [OF assms(1)])
  have share: "\<exists>r \<in> set refs. sh_Device s = slot_device r \<and> ref_of refs (sh_Device s) = r
      \<and> (0 < po_WorkingSetBytes opts \<longrightarrow> po_WorkingSetBytes opts \<le> dev_MemBytes (slot_device r))" if "s \<in> set S" for s
    using admitted_devices(2) [OF ids, of "sh_Device s" opts] that ref_of_device [OF ids] by (fastforce simp: assms(3))
  show "rank_ok cands opts (choice_of refs s)" if "s \<in> set S"
    using share [OF that] slot_refs_in [of _ cands scores]
    by (auto simp: rank_ok_def choice_of_def assms(2) slot_device_def Let_def)
  have "map (\<lambda>(n, i). slotID n i) (map rank_slot (map (choice_of refs) S)) = map dev_ID (map sh_Device S)"
  proof -
    have "(\<lambda>(n, i). slotID n i) (rank_slot (choice_of refs s)) = dev_ID (sh_Device s)" if s: "s \<in> set S" for s
    proof -
      obtain r where "sh_Device s = slot_device r" "ref_of refs (sh_Device s) = r" using share [OF s] by blast
      then show ?thesis by (simp add: rank_slot_def choice_of_def Let_def) (simp add: slot_device_def ref_id_def)
    qed
    then show ?thesis by simp
  qed
  moreover have "distinct (map dev_ID (map sh_Device S))"
  proof -
    have "d = d'" if dd: "d \<in> set (map sh_Device S)" "d' \<in> set (map sh_Device S)" "dev_ID d = dev_ID d'" for d d'
    proof -
      obtain r r' where r: "r \<in> set refs" "d = slot_device r" "r' \<in> set refs" "d' = slot_device r'"
        using dd(1,2) share by (metis (no_types, lifting) in_set_conv_decomp list.set_map imageE)
      then have "r = r'" using dd(3) ids by (auto simp: slot_device_def distinct_map inj_on_def)
      then show ?thesis using r by simp
    qed
    then have "inj_on dev_ID (set (map sh_Device S))" by (rule inj_onI)
    then show ?thesis
      using admitted_devices(1) [OF ids, of opts] unfolding assms(3) [symmetric] by (simp only: distinct_map simp_thms)
  qed
  ultimately show "distinct (map rank_slot (map (choice_of refs) S))"
    using distinct_map by metis
qed

lemma renormalise_mem: "c \<in> set (renormalise cs) \<Longrightarrow> \<exists>k \<in> set cs. cc_Candidate c = cc_Candidate k \<and> cc_Slot c = cc_Slot k"
  by (auto simp: renormalise_def Let_def split: if_splits)

lemma renormalise_slots: "map rank_slot (renormalise cs) = map rank_slot cs" "length (renormalise cs) = length cs"
  by (simp_all add: renormalise_def rank_slot_def comp_def Let_def)

lemma select_ring:
  assumes "ids_ok cands" "ring = rp_Chosen (Select probe cands opts)"
  shows "(ring \<noteq> [] \<longrightarrow> sum_list (map cc_Weight ring) = 1) \<and> list_all (\<lambda>c. 0 < cc_Weight c) ring
    \<and> (0 < po_Max opts \<longrightarrow> int (length ring) \<le> po_Max opts)
    \<and> distinct (map rank_slot ring) \<and> list_all (rank_ok cands opts) ring"
proof (cases "cands = []")
  case True
  then show ?thesis using assms(2) by (simp add: Select_def)
next
  case False
  obtain scores measured where scores: "probeAll probe cands = (scores, measured)" by fastforce
  define refs where "refs = slot_refs cands scores"
  define S where "S = pl_Shares (admit (Compute (sized_opts opts) (map slot_device refs)) opts)"
  define used where "used = filter (\<lambda>s. 0 < sh_Items s) S"
  define chosen where "chosen = sort_key (\<lambda>c. (- cc_Score c, cc_Slot c)) (map (choice_of refs) used)"
  define kept where "kept = (if 0 < po_Max opts then take (nat (po_Max opts)) chosen else chosen)"
  have ring: "ring = renormalise kept"
    unfolding kept_def chosen_def used_def S_def sized_opts_def refs_def
    using False by (simp add: assms(2) Select_def scores Let_def)
  note ok = choices_ok [OF assms(1) refs_def S_def]
  have "distinct (map rank_slot (map (choice_of refs) used))"
    using ok(1) by (simp add: used_def distinct_map_filter)
  moreover have "mset (map rank_slot chosen) = mset (map rank_slot (map (choice_of refs) used))"
    unfolding mset_map by (simp add: chosen_def)
  ultimately have "distinct (map rank_slot chosen)" using mset_eq_imp_distinct_iff by blast
  then have slots: "distinct (map rank_slot kept)" by (simp add: kept_def distinct_take flip: take_map)
  have sub: "set kept \<subseteq> choice_of refs ` set used" using set_take_subset [of "nat (po_Max opts)" chosen] by (auto simp: kept_def chosen_def)
  have pos: "list_all (\<lambda>c. 0 < cc_Weight c) kept"
    using sub by (auto simp: list_all_iff used_def choice_of_def nominalStep_def Let_def)
  have "rank_ok cands opts c" if "c \<in> set ring" for c
    using renormalise_mem that sub ok(2) by (fastforce simp: ring used_def rank_ok_def)
  then have "list_all (rank_ok cands opts) ring" by (simp add: list_all_iff)
  moreover have "kept = [] \<Longrightarrow> ring = []" by (simp add: ring renormalise_def)
  moreover have "0 < po_Max opts \<longrightarrow> int (length ring) \<le> po_Max opts" by (auto simp: ring renormalise_slots kept_def min_def)
  ultimately show ?thesis
    using renormalise_sum [OF _ pos] slots by (cases "kept = []") (simp_all add: renormalise_slots flip: ring, simp add: ring renormalise_slots)
qed


subsection \<open>Evaluation at concrete inputs\<close>

definition ex_cand :: "string \<Rightarrow> int \<Rightarrow> candidate" where
  "ex_cand i slots = \<lparr>ca_NodeID = i, ca_Host = i, ca_Port = 1, ca_Cores = 4, ca_MemBytes = 100, ca_HasGPU = True, ca_Slots = slots\<rparr>"

definition ex_place :: place_options where
  "ex_place = \<lparr>po_Max = 2, po_WorkingSetBytes = 60, po_ProportionalBatches = True, po_KeepAll = False\<rparr>"


definition ex_rank :: "f64 \<Rightarrow> share" where
  "ex_rank r = \<lparr>sh_Device = slot_device \<lparr>sr_cand = ex_cand ''a'' 1, sr_slot = 0, sr_score = r\<rparr>, sh_Items = 1\<rparr>"

definition ex_plan :: plan where
  "ex_plan = \<lparr>pl_Shares = [ex_rank 2, ex_rank 10, ex_rank 9], pl_Makespan = 0, pl_Alone = 0, pl_Rejected = []\<rparr>"

lemma ex_rank_rate [simp]: "dev_Rate (sh_Device (ex_rank r)) = r"
  by (simp add: ex_rank_def slot_device_def)

theorem admitted_ring_is_best_witness:
  "map (dev_Rate \<circ> sh_Device) (pl_Shares (admit ex_plan ex_place)) = [10, 9]
   \<and> 3 * 2 \<le> of_nat (length (pl_Shares (admit ex_plan ex_place))) * (9 :: f64)"
proof -
  have sort: "sort_key (\<lambda>s. - dev_Rate (sh_Device s)) (pl_Shares ex_plan) = [ex_rank 10, ex_rank 9, ex_rank 2]"
    by (simp add: ex_plan_def)
  have shares: "map sh_Device (pl_Shares (admit ex_plan ex_place)) = [sh_Device (ex_rank 10), sh_Device (ex_rank 9)]"
    by (simp add: admit_def sort ex_place_def Let_def)
  then obtain c where c: "c \<in> set (pl_Shares (admit ex_plan ex_place))" "sh_Device c = sh_Device (ex_rank 9)"
    by (metis image_iff list.set_intros list.set_map)
  have "of_nat (size (mset (map sh_Device (pl_Shares ex_plan)))) * 2
      \<le> of_nat (length (pl_Shares (admit ex_plan ex_place))) * dev_Rate (sh_Device c)"
    using admitted_ring_is_best [of ex_place "mset (map sh_Device (pl_Shares ex_plan))" ex_plan 2 c] c(1)
    by (fastforce simp: ex_plan_def ex_place_def)
  moreover have "map dev_Rate (map sh_Device (pl_Shares (admit ex_plan ex_place))) = [10, 9]" unfolding shares by simp
  ultimately show ?thesis by (simp add: c(2)) (simp add: ex_plan_def)
qed

end
