(* ===== verification/DdpRebalance.thy ===== *)
theory DdpRebalance
  imports GoMap
begin

text \<open>
  What a training ring decides from the times its ranks report,
  \<^verbatim>\<open>src/internal/daemonapi/ddprebalance.go\<close> and \<^verbatim>\<open>ddppacing.go\<close>: new shares, a rank
  not worth its exchange, one rank alone, DiLoCo. A map of reports is an association list in
  some order; the theorems do not depend on the order. The reasons given to the user are values
  of a datatype that holds the numbers the message shows.
\<close>

subsection \<open>Reports\<close>

record rankReport =
  rr_StepMillis :: f64
  rr_SyncMillis :: f64
  rr_Samples :: int

definition rate :: "rankReport \<Rightarrow> f64" where
  "rate r = (if rr_StepMillis r \<le> 0 \<or> rr_Samples r \<le> 0 then 0
     else of_int (rr_Samples r) / (rr_StepMillis r / 1000))"

datatype rebalance_why =
    NoWhy | Refitted "f64 list" | Freeloader int f64 f64 f64

record rebalance =
  rb_Weights :: "f64 list option"
  rb_Drop :: int
  rb_Why :: rebalance_why

definition rebalanceMinShift :: f64 where "rebalanceMinShift = 1 / 10"

subsection \<open>New shares, or a rank dropped\<close>

text \<open>What the loop over the reports gathers.\<close>

record tally =
  ty_rates :: "f64 list"
  ty_total :: f64
  ty_samples :: f64
  ty_syncSum :: f64
  ty_syncN :: nat

text \<open>One report; \<open>None\<close> where the loop returns without a decision.\<close>

definition tally_report :: "nat \<Rightarrow> int \<times> rankReport \<Rightarrow> tally \<Rightarrow> tally option" where
  "tally_report world e t =
     (case e of (rank, rep) \<Rightarrow>
        if rank < 0 \<or> int world \<le> rank then None
        else if rate rep \<le> 0 then None
        else Some \<lparr>ty_rates = (ty_rates t)[nat rank := rate rep], ty_total = ty_total t + rate rep,
               ty_samples = ty_samples t + of_int (rr_Samples rep),
               ty_syncSum = (if 0 < rr_SyncMillis rep then ty_syncSum t + rr_SyncMillis rep else ty_syncSum t),
               ty_syncN = (if 0 < rr_SyncMillis rep then Suc (ty_syncN t) else ty_syncN t)\<rparr>)"

fun tally_reports :: "nat \<Rightarrow> (int \<times> rankReport) list \<Rightarrow> tally \<Rightarrow> tally option" where
  "tally_reports world [] t = Some t"
| "tally_reports world (e # es) t =
     (case tally_report world e t of None \<Rightarrow> None | Some t' \<Rightarrow> tally_reports world es t')"

text \<open>The scan for the slowest rank, from rank \<open>i\<close> on.\<close>

fun slowest_scan :: "int \<Rightarrow> int \<Rightarrow> f64 \<Rightarrow> f64 list \<Rightarrow> int \<times> f64" where
  "slowest_scan i slowest slowRate [] = (slowest, slowRate)"
| "slowest_scan i slowest slowRate (r # rs) =
     (if slowest = -1 \<or> r < slowRate then slowest_scan (i + 1) i r rs
      else slowest_scan (i + 1) slowest slowRate rs)"

definition worstFreeloader :: "f64 list \<Rightarrow> f64 \<Rightarrow> f64 \<Rightarrow> f64 \<Rightarrow> nat \<Rightarrow> int \<times> rebalance_why" where
  "worstFreeloader rates totalRate stepSamples syncSec world =
     (if world \<le> 2 then (-1, NoWhy)
      else let (slowest, slowRate) = slowest_scan 0 (-1) 0 rates; remaining = totalRate - slowRate
        in if slowest \<le> 0 then (-1, NoWhy)
           else if remaining \<le> 0 then (-1, NoWhy)
           else if stepSamples \<le> 0 then (-1, NoWhy)
           else let added = stepSamples / remaining - stepSamples / totalRate;
                    saved = syncSec / (of_nat world - 1)
             in if saved \<le> added then (-1, NoWhy)
                else (slowest, Freeloader slowest (100 * slowRate / totalRate) (1000 * added) (1000 * saved)))"

definition shiftedEnough :: "f64 list \<Rightarrow> f64 list \<Rightarrow> bool" where
  "shiftedEnough current want \<longleftrightarrow>
     (if length current \<noteq> length want then True
      else \<exists>(w, c) \<in> set (zip want current). rebalanceMinShift \<le> \<bar>w - c\<bar>)"

definition no_rebalance :: rebalance where
  "no_rebalance = \<lparr>rb_Weights = None, rb_Drop = -1, rb_Why = NoWhy\<rparr>"

definition planRebalance :: "(int \<times> rankReport) list \<Rightarrow> f64 list \<Rightarrow> nat \<Rightarrow> rebalance" where
  "planRebalance reports current world =
     (if world < 2 \<or> length reports < world then no_rebalance
      else case tally_reports world reports
             \<lparr>ty_rates = replicate world 0, ty_total = 0, ty_samples = 0, ty_syncSum = 0, ty_syncN = 0\<rparr> of
          None \<Rightarrow> no_rebalance
        | Some t \<Rightarrow>
            if ty_total t \<le> 0 then no_rebalance
            else let want = map (\<lambda>r. r / ty_total t) (ty_rates t);
                     (drop, why) = (if 0 < ty_syncN t
                        then worstFreeloader (ty_rates t) (ty_total t) (ty_samples t)
                               (ty_syncSum t / of_nat (ty_syncN t) / 1000) world
                        else (-1, NoWhy))
              in if 0 \<le> drop then \<lparr>rb_Weights = None, rb_Drop = drop, rb_Why = why\<rparr>
                 else if \<not> shiftedEnough current want then no_rebalance
                 else \<lparr>rb_Weights = Some want, rb_Drop = -1, rb_Why = Refitted want\<rparr>)"

subsection \<open>One rank alone, or DiLoCo\<close>

definition ddpSoloMargin :: f64 where "ddpSoloMargin = 11 / 10"

definition maxFloat64 :: f64 where "maxFloat64 = (2 ^ 53 - 1) * 2 ^ 971"

text \<open>The number written out, so that it need not be multiplied out in an evaluation.\<close>

lemma maxFloat64_code [code]:
  "maxFloat64 = 179769313486231570814527423731704356798070567525844996598917476803157260780028538760589558632766878171540458953514382464234321326889464182768467546703537516986049910576551282076245490090389328944075868508455133942304583236903222948165808559332123348274797826204144723168738177180919299881250404026184124858368"
  unfolding maxFloat64_def by simp

text \<open>The loop of \<open>planSolo\<close>: fastest rank, its rate, the samples of a step, the split step;
  \<open>None\<close> when a rank is not measured.\<close>

fun solo_scan :: "f64 \<Rightarrow> (int \<times> rankReport) list \<Rightarrow> int \<times> f64 \<times> f64 \<times> f64 \<Rightarrow> (int \<times> f64 \<times> f64 \<times> f64) option" where
  "solo_scan h [] acc = Some acc"
| "solo_scan h ((rank, rep) # es) (fast, fastRate, samples, split) =
     (if rate rep \<le> 0 \<or> rr_SyncMillis rep \<le> 0 then None
      else let step = rr_StepMillis rep + rr_SyncMillis rep / h
        in solo_scan h es
             (if fastRate < rate rep then rank else fast, max fastRate (rate rep),
              samples + of_int (rr_Samples rep), min split step))"

definition planSolo :: "(int \<times> rankReport) list \<Rightarrow> int \<Rightarrow> int \<Rightarrow> int \<times> f64 \<times> f64" where
  "planSolo reports live syncEvery =
     (if live < 2 \<or> int (length reports) < live then (-1, 0, 0)
      else case solo_scan (of_int (max 1 syncEvery)) reports (-1, 0, 0, maxFloat64) of
          None \<Rightarrow> (-1, 0, 0)
        | Some (fast, fastRate, samples, split) \<Rightarrow>
            let solo = 1000 * samples / fastRate
            in if split \<le> solo * ddpSoloMargin then (-1, solo, split) else (fast, solo, split))"

definition dilocoRanks :: "(int \<times> int) list" where
  "dilocoRanks = [(2, 32), (3, 16), (4, 4)]"

definition dilocoEvery :: "int \<Rightarrow> int" where
  "dilocoEvery n = (case find (\<lambda>(upTo, every). n \<le> upTo) dilocoRanks of Some (upTo, every) \<Rightarrow> every | None \<Rightarrow> 0)"

definition planDiLoCo :: "(int \<times> rankReport) list \<Rightarrow> int \<Rightarrow> f64 \<Rightarrow> f64 \<Rightarrow> f64 \<times> bool" where
  "planDiLoCo reports live solo split =
     (let every = dilocoEvery live
      in if every = 0 \<or> live < 2 \<or> int (length reports) < live \<or> solo \<le> 0 \<or> split \<le> 0 then (0, False)
         else let fast = fold (\<lambda>(rank, rep) m. min m (rr_StepMillis rep + rr_SyncMillis rep / of_int every)) reports maxFloat64
           in (fast, fast * ddpSoloMargin < min split solo))"

subsection \<open>One rank setting the pace\<close>

definition pacedRatio :: f64 where "pacedRatio = 2"

text \<open>Slowest rank, its time, the fastest time and the sum.\<close>

definition pace_scan :: "(int \<times> f64) list \<Rightarrow> int \<times> f64 \<times> f64 \<times> f64" where
  "pace_scan steps = fold (\<lambda>(rank, ms) (slowRank, slow, fast, total).
     (if slow < ms then rank else slowRank, max slow ms, min fast ms, total + ms)) steps (-1, 0, maxFloat64, 0)"

text \<open>The numbers of the message: the rank, its time, the fastest, and the mean of the rest.\<close>

definition pacedBy :: "(int \<times> f64) list \<Rightarrow> nat \<Rightarrow> (int \<times> f64 \<times> f64 \<times> f64) option" where
  "pacedBy steps world =
     (if world < 2 \<or> length steps < world then None
      else let (slowRank, slow, fast, total) = pace_scan steps
        in if slow \<le> 0 \<or> fast \<le> 0 \<or> slow / fast < pacedRatio then None
           else Some (slowRank, slow, fast, (total - slow) / (of_nat (length steps) - 1)))"

subsection \<open>What the tally holds\<close>

definition reported :: "(int \<times> rankReport) list \<Rightarrow> nat \<Rightarrow> f64 list" where
  "reported reports world = map (\<lambda>i. case map_of reports (int i) of Some rep \<Rightarrow> rate rep | None \<Rightarrow> 0) [0..<world]"

definition step_samples :: "(int \<times> rankReport) list \<Rightarrow> f64" where
  "step_samples reports = (\<Sum>(rank, rep)\<leftarrow>reports. of_int (rr_Samples rep))"

definition synced :: "(int \<times> rankReport) list \<Rightarrow> f64 list" where
  "synced reports = filter (\<lambda>m. 0 < m) (map (rr_SyncMillis \<circ> snd) reports)"

text \<open>The mean exchange, in seconds.\<close>

definition sync_seconds :: "(int \<times> rankReport) list \<Rightarrow> f64" where
  "sync_seconds reports = sum_list (synced reports) / of_nat (length (synced reports)) / 1000"

lemma sum_list_replace:
  "i < length (xs :: f64 list) \<Longrightarrow> sum_list (xs[i := x]) = sum_list xs - xs ! i + x"
proof (induction xs arbitrary: i)
  case (Cons y ys)
  then show ?case by (cases i) auto
qed simp

lemma tally_reports_spec:
  assumes "tally_reports world es t = Some t'" "distinct (map fst es)" "length (ty_rates t) = world"
    "\<forall>(rank, rep) \<in> set es. ty_rates t ! nat rank = 0" "ty_total t = sum_list (ty_rates t)"
  shows "(\<forall>(rank, rep) \<in> set es. 0 \<le> rank \<and> rank < int world \<and> 0 < rate rep)
    \<and> length (ty_rates t') = world \<and> ty_total t' = sum_list (ty_rates t')
    \<and> (\<forall>i < world. ty_rates t' ! i = (case map_of es (int i) of Some rep \<Rightarrow> rate rep | None \<Rightarrow> ty_rates t ! i))
    \<and> ty_samples t' = ty_samples t + step_samples es
    \<and> ty_syncSum t' = ty_syncSum t + sum_list (synced es) \<and> ty_syncN t' = ty_syncN t + length (synced es)"
  using assms
proof (induction es arbitrary: t)
  case (Cons e es)
  obtain rank rep where e: "e = (rank, rep)" by fastforce
  from Cons.prems(1) obtain t1 where t1: "tally_report world e t = Some t1" and rest: "tally_reports world es t1 = Some t'"
    by (auto split: option.splits)
  then have ok: "0 \<le> rank" "rank < int world" "0 < rate rep"
    by (auto simp: tally_report_def e split: if_splits)
  then have v: "t1 = \<lparr>ty_rates = (ty_rates t)[nat rank := rate rep], ty_total = ty_total t + rate rep,
      ty_samples = ty_samples t + of_int (rr_Samples rep),
      ty_syncSum = (if 0 < rr_SyncMillis rep then ty_syncSum t + rr_SyncMillis rep else ty_syncSum t),
      ty_syncN = (if 0 < rr_SyncMillis rep then Suc (ty_syncN t) else ty_syncN t)\<rparr>"
    using t1 by (simp add: tally_report_def e)
  have i: "nat rank < length (ty_rates t)" using ok Cons.prems(3) by simp
  have fresh: "rank \<notin> fst ` set es" using Cons.prems(2) by (simp add: e)
  have zero: "ty_rates t ! nat rank = 0" using Cons.prems(4) by (simp add: e)
  have keep: "\<forall>(r, p) \<in> set es. ty_rates t1 ! nat r = 0"
  proof (safe)
    fix r p assume m: "(r, p) \<in> set es"
    show "ty_rates t1 ! nat r = 0"
    proof (cases "nat r = nat rank")
      case True
      have "tally_reports world es t1 \<noteq> None" using rest by simp
      have bad: "0 \<le> r" using rest m
      proof (induction es arbitrary: t1)
        case (Cons d ds)
        then show ?case by (auto simp: tally_report_def split: option.splits if_splits)
      qed simp
      with True ok(1) have "r = rank" by simp
      with m fresh show ?thesis by force
    next
      case False
      then show ?thesis using Cons.prems(4) m by (auto simp: v)
    qed
  qed
  have tot: "ty_total t1 = sum_list (ty_rates t1)"
    using sum_list_replace [OF i, of "rate rep"] zero Cons.prems(5) by (simp add: v)
  have "length (ty_rates t1) = world" "distinct (map fst es)" using Cons.prems(2,3) by (simp_all add: v)
  note IH = Cons.IH [OF rest this(2) this(1) keep tot]
  have "ty_rates t' ! j = (case map_of (e # es) (int j) of Some rep \<Rightarrow> rate rep | None \<Rightarrow> ty_rates t ! j)" if "j < world" for j
  proof (cases "int j = rank")
    case True
    then have "map_of es (int j) = None" using fresh by (simp add: map_of_eq_None_iff)
    moreover have "ty_rates t1 ! j = rate rep" using True i by (auto simp: v)
    ultimately show ?thesis using IH that True by (simp add: e)
  next
    case False
    then have "ty_rates t1 ! j = ty_rates t ! j" using ok(1) by (auto simp: v nth_list_update)
    then show ?thesis using IH that False by (simp add: e split: option.split)
  qed
  then show ?case using IH ok by (auto simp: v e step_samples_def synced_def)
qed (simp add: step_samples_def synced_def)

lemma slowest_scan_spec:
  "slowest_scan i s m rs = (j, x) \<Longrightarrow> 0 \<le> i \<Longrightarrow> s = -1 \<or> 0 \<le> s \<Longrightarrow>
    (s \<noteq> -1 \<longrightarrow> x \<le> m) \<and> (\<forall>r \<in> set rs. x \<le> r)
    \<and> ((j = s \<and> x = m) \<or> (\<exists>k < length rs. j = i + int k \<and> x = rs ! k))"
proof (induction rs arbitrary: i s m)
  case (Cons r rs)
  show ?case
  proof (cases "s = -1 \<or> r < m")
    case True
    have IH: "x \<le> r \<and> (\<forall>q \<in> set rs. x \<le> q) \<and> ((j = i \<and> x = r) \<or> (\<exists>k < length rs. j = (i + 1) + int k \<and> x = rs ! k))"
      using Cons.IH [of "i + 1" i r] Cons.prems True by auto
    then have "\<exists>k < length (r # rs). j = i + int k \<and> x = (r # rs) ! k"
    proof (elim conjE disjE exE)
      assume "j = i" "x = r"
      then show ?thesis by (intro exI [of _ 0]) simp
    next
      fix k assume "k < length rs" "j = i + 1 + int k" "x = rs ! k"
      then show ?thesis by (intro exI [of _ "Suc k"]) simp
    qed
    then show ?thesis using IH True by auto
  next
    case False
    have IH: "x \<le> m \<and> (\<forall>q \<in> set rs. x \<le> q) \<and> ((j = s \<and> x = m) \<or> (\<exists>k < length rs. j = (i + 1) + int k \<and> x = rs ! k))"
      using Cons.IH [of "i + 1" s m] Cons.prems False by auto
    then have "(j = s \<and> x = m) \<or> (\<exists>k < length (r # rs). j = i + int k \<and> x = (r # rs) ! k)"
    proof (elim conjE disjE exE)
      fix k assume "k < length rs" "j = i + 1 + int k" "x = rs ! k"
      then show ?thesis by (intro disjI2 exI [of _ "Suc k"]) simp
    qed simp
    then show ?thesis using IH False by auto
  qed
qed simp

text \<open>A decision is taken only when every rank has reported a rate.\<close>

definition all_measured :: "(int \<times> rankReport) list \<Rightarrow> nat \<Rightarrow> bool" where
  "all_measured reports world \<longleftrightarrow> fst ` set reports = {0..<int world} \<and> length reports = world
     \<and> (\<forall>(rank, rep) \<in> set reports. 0 < rate rep)"

lemma reported_pos:
  assumes "all_measured reports world" "i < world"
  shows "0 < reported reports world ! i"
proof -
  have "int i \<in> fst ` set reports" using assms by (simp add: all_measured_def)
  then obtain rep where m: "map_of reports (int i) = Some rep"
    by (metis map_of_eq_None_iff not_None_eq)
  then have "(int i, rep) \<in> set reports" by (rule map_of_SomeD)
  then have "0 < rate rep" using assms(1) by (auto simp: all_measured_def)
  then show ?thesis using assms(2) m by (simp add: reported_def)
qed

lemma length_reported [simp]: "length (reported reports world) = world"
  by (simp add: reported_def)

lemma tally_complete:
  assumes "tally_reports world reports \<lparr>ty_rates = replicate world 0, ty_total = 0, ty_samples = 0,
      ty_syncSum = 0, ty_syncN = 0\<rparr> = Some t"
    and "distinct (map fst reports)" "world \<le> length reports"
  shows "all_measured reports world" "ty_rates t = reported reports world"
    "ty_total t = sum_list (reported reports world)" "ty_samples t = step_samples reports"
    "ty_syncSum t = sum_list (synced reports)" "ty_syncN t = length (synced reports)"
proof -
  let ?t = "\<lparr>ty_rates = replicate world 0, ty_total = 0, ty_samples = 0, ty_syncSum = 0, ty_syncN = 0\<rparr>"
  have rng: "\<forall>(rank, rep) \<in> set reports. 0 \<le> rank \<and> rank < int world"
  proof -
    have "\<forall>(rank, rep) \<in> set es. 0 \<le> rank \<and> rank < int world"
      if "tally_reports world es u = Some t" for es u
      using that by (induction es arbitrary: u) (auto simp: tally_report_def split: option.splits if_splits)
    then show ?thesis using assms(1) by blast
  qed
  have z: "\<forall>(rank, rep) \<in> set reports. ty_rates ?t ! nat rank = 0" using rng by (auto simp: nth_replicate)
  have "length (ty_rates ?t) = world" "ty_total ?t = sum_list (ty_rates ?t)"
    by (simp_all add: sum_list_replicate)
  note spec = tally_reports_spec [OF assms(1,2) this(1) z this(2)]
  have sub: "fst ` set reports \<subseteq> {0..<int world}" using rng by auto
  have "card (fst ` set reports) = length reports"
    using assms(2) by (simp add: distinct_card flip: set_map)
  moreover have "card (fst ` set reports) \<le> world" using card_mono [OF _ sub] by simp
  ultimately have len: "length reports = world" and c: "card (fst ` set reports) = world" using assms(3) by simp_all
  have "fst ` set reports = {0..<int world}" by (rule card_subset_eq) (simp_all add: sub c)
  then show "all_measured reports world" using len spec by (auto simp: all_measured_def)
  show r: "ty_rates t = reported reports world"
    by (rule nth_equalityI) (use spec in \<open>simp_all add: reported_def split: option.split\<close>)
  show "ty_total t = sum_list (reported reports world)" "ty_samples t = step_samples reports"
    "ty_syncSum t = sum_list (synced reports)" "ty_syncN t = length (synced reports)"
    using spec by (simp_all add: r [symmetric])
qed

text \<open>The rank the ring is better off without, once all are measured.\<close>

definition freeloader :: "(int \<times> rankReport) list \<Rightarrow> nat \<Rightarrow> int \<times> rebalance_why" where
  "freeloader reports world =
     (if synced reports = [] then (-1, NoWhy)
      else worstFreeloader (reported reports world) (sum_list (reported reports world)) (step_samples reports)
             (sync_seconds reports) world)"

definition fair_shares :: "(int \<times> rankReport) list \<Rightarrow> nat \<Rightarrow> f64 list" where
  "fair_shares reports world = map (\<lambda>r. r / sum_list (reported reports world)) (reported reports world)"

lemma planRebalance_cases:
  assumes "distinct (map fst reports)"
  shows "(\<forall>current. planRebalance reports current world = no_rebalance)
    \<or> 2 \<le> world \<and> all_measured reports world \<and> 0 < sum_list (reported reports world)
       \<and> (\<forall>current. planRebalance reports current world =
           (case freeloader reports world of (j, why) \<Rightarrow>
              if 0 \<le> j then \<lparr>rb_Weights = None, rb_Drop = j, rb_Why = why\<rparr>
              else if \<not> shiftedEnough current (fair_shares reports world) then no_rebalance
              else \<lparr>rb_Weights = Some (fair_shares reports world), rb_Drop = -1,
                     rb_Why = Refitted (fair_shares reports world)\<rparr>))"
proof -
  let ?t = "\<lparr>ty_rates = replicate world 0, ty_total = 0, ty_samples = 0, ty_syncSum = 0, ty_syncN = 0\<rparr>"
  consider "world < 2 \<or> length reports < world" | "tally_reports world reports ?t = None"
    | t where "2 \<le> world" "world \<le> length reports" "tally_reports world reports ?t = Some t"
    by (cases "tally_reports world reports ?t"; cases "world < 2 \<or> length reports < world") auto
  then show ?thesis
  proof cases
    case 3
    note c = tally_complete [OF 3(3) assms 3(2)]
    show ?thesis
    proof (cases "sum_list (reported reports world) \<le> 0")
      case False
      have "planRebalance reports current world =
           (case freeloader reports world of (j, why) \<Rightarrow>
              if 0 \<le> j then \<lparr>rb_Weights = None, rb_Drop = j, rb_Why = why\<rparr>
              else if \<not> shiftedEnough current (fair_shares reports world) then no_rebalance
              else \<lparr>rb_Weights = Some (fair_shares reports world), rb_Drop = -1,
                     rb_Why = Refitted (fair_shares reports world)\<rparr>)" for current
        using 3 False
        by (simp add: planRebalance_def c freeloader_def fair_shares_def sync_seconds_def Let_def split: prod.split)
      then show ?thesis using 3(1) c(1) False by simp
    qed (use 3 in \<open>simp add: planRebalance_def c\<close>)
  qed (auto simp: planRebalance_def)
qed

lemma worstFreeloader_spec:
  assumes "worstFreeloader rates T W sync world = (j, why)" "0 \<le> j" "length rates = world"
  shows "2 < world \<and> 0 < j \<and> j < int world \<and> (\<forall>r \<in> set rates. rates ! nat j \<le> r) \<and> 0 < W
    \<and> rates ! nat j < T \<and> W / (T - rates ! nat j) - W / T < sync / (of_nat world - 1)"
proof -
  obtain k x where s: "slowest_scan 0 (-1) 0 rates = (k, x)" by fastforce
  have sp: "(\<forall>r \<in> set rates. x \<le> r) \<and> ((k = -1 \<and> x = 0) \<or> (\<exists>i < length rates. k = int i \<and> x = rates ! i))"
    using slowest_scan_spec [OF s] by auto
  have w: "2 < world" "0 < k" "0 < T - x" "0 < W" "W / (T - x) - W / T < sync / (of_nat world - 1)" "j = k"
    using assms(1,2) by (auto simp: worstFreeloader_def s Let_def not_le split: if_splits)
  with sp obtain i where "i < world" "k = int i" "x = rates ! i" using assms(3) by auto
  then show ?thesis using w sp by simp
qed

lemma sum_scaled: "(\<Sum>r\<leftarrow>rs. r / (c :: f64)) = sum_list rs / c"
  by (induction rs) (simp_all add: add_divide_distrib)

lemma shiftedEnough_self: "\<not> shiftedEnough ws ws"
  by (auto simp: shiftedEnough_def rebalanceMinShift_def set_zip)

lemma shiftedEnough_some:
  assumes "shiftedEnough current want" "length current = length want"
  shows "\<exists>i < length want. 1 / 10 \<le> \<bar>want ! i - current ! i\<bar>"
  using assms by (auto simp: shiftedEnough_def rebalanceMinShift_def set_zip)

subsection \<open>The decisions\<close>

text \<open>C35: A decision on the ring is taken only once every rank has reported a rate. A rank is dropped only
  from a ring of three or more; it is the slowest, never rank 0, and the step of the ranks left, with one rank's
  share of the exchange less, is shorter than the step now. New shares sum to one, are proportional to
  the measured rates, move some rank by at least a tenth, and settle: the same reports with the new
  shares in force change nothing.\<close>

theorem rebalance_pays:
  assumes "distinct (map fst reports)" "planRebalance reports current world = plan" "plan \<noteq> no_rebalance"
    "rates = reported reports world" "T = sum_list rates" "W = step_samples reports" "sync = sync_seconds reports"
  shows "2 \<le> world \<and> all_measured reports world \<and>
    (case rb_Weights plan of
       None \<Rightarrow> (let j = nat (rb_Drop plan) in
         2 < world \<and> 0 < rb_Drop plan \<and> j < world \<and> (\<forall>r \<in> set rates. rates ! j \<le> r)
         \<and> W / (T - rates ! j) + sync * (of_nat world - 2) / (of_nat world - 1) < W / T + sync)
     | Some ws \<Rightarrow> rb_Drop plan = -1 \<and> length ws = world \<and> sum_list ws = 1
         \<and> (\<forall>i < world. 0 < ws ! i \<and> ws ! i * T = rates ! i)
         \<and> (length current \<noteq> world \<or> (\<exists>i < world. 1 / 10 \<le> \<bar>ws ! i - current ! i\<bar>))
         \<and> planRebalance reports ws world = no_rebalance)"
proof -
  from planRebalance_cases [OF assms(1), of world] assms(2,3)
  have w: "2 \<le> world" "all_measured reports world" "0 < T"
    and plan: "planRebalance reports cur world = (case freeloader reports world of (j, why) \<Rightarrow>
              if 0 \<le> j then \<lparr>rb_Weights = None, rb_Drop = j, rb_Why = why\<rparr>
              else if \<not> shiftedEnough cur (fair_shares reports world) then no_rebalance
              else \<lparr>rb_Weights = Some (fair_shares reports world), rb_Drop = -1,
                     rb_Why = Refitted (fair_shares reports world)\<rparr>)" for cur
    by (auto simp: assms(4,5))
  have len: "length rates = world" by (simp add: assms(4))
  obtain j why where f: "freeloader reports world = (j, why)" by fastforce
  show ?thesis
  proof (cases "0 \<le> j")
    case True
    then have p: "plan = \<lparr>rb_Weights = None, rb_Drop = j, rb_Why = why\<rparr>"
      using plan [of current] f by (simp add: assms(2))
    have "worstFreeloader rates T W sync world = (j, why)"
      using f True by (simp add: freeloader_def assms(4-7) split: if_splits)
    note sp = worstFreeloader_spec [OF this True len]
    have "of_nat world - (1 :: f64) \<noteq> 0" using sp by simp
    then have "sync - sync / (of_nat world - 1) = sync * (of_nat world - 2) / (of_nat world - 1)"
      by (simp add: field_simps)
    moreover have "W / (T - rates ! nat j) + (sync - sync / (of_nat world - 1)) < W / T + sync"
      using sp by linarith
    ultimately show ?thesis using sp w by (auto simp: p Let_def)
  next
    case False
    let ?ws = "fair_shares reports world"
    have sh: "shiftedEnough current ?ws" and p: "plan = \<lparr>rb_Weights = Some ?ws, rb_Drop = -1, rb_Why = Refitted ?ws\<rparr>"
      using plan [of current] f False assms(2,3) by (auto split: if_splits)
    have ws: "?ws = map (\<lambda>r. r / T) rates" by (simp add: fair_shares_def assms(4,5))
    have settled: "planRebalance reports ?ws world = no_rebalance"
      using plan [of ?ws] f False by (simp add: shiftedEnough_self)
    have moved: "length current \<noteq> world \<or> (\<exists>i < world. 1 / 10 \<le> \<bar>?ws ! i - current ! i\<bar>)"
      using shiftedEnough_some [OF sh] len by (auto simp: ws)
    have "sum_list ?ws = 1" using w(3) assms(5) by (simp add: ws sum_scaled)
    moreover have "0 < ?ws ! i \<and> ?ws ! i * T = rates ! i" if "i < world" for i
      using reported_pos [OF w(2) that] w(3) that len by (simp add: ws assms(4))
    ultimately show ?thesis using w len settled moved by (simp add: p ws)
  qed
qed

definition three_ranks :: "f64 \<Rightarrow> (int \<times> rankReport) list" where
  "three_ranks ms = [(1, \<lparr>rr_StepMillis = 100, rr_SyncMillis = 60, rr_Samples = 32\<rparr>),
     (0, \<lparr>rr_StepMillis = 100, rr_SyncMillis = 60, rr_Samples = 32\<rparr>),
     (2, \<lparr>rr_StepMillis = ms, rr_SyncMillis = 60, rr_Samples = 32\<rparr>)]"

theorem rebalance_pays_witness:
  "rb_Drop (planRebalance (three_ranks 3200) [] 3) = 2
   \<and> rb_Weights (planRebalance (three_ranks 200) [] 3) = Some [2 / 5, 2 / 5, 1 / 5]
   \<and> planRebalance (three_ranks 200) [2 / 5, 2 / 5, 1 / 5] 3 = no_rebalance"
proof -
  have d: "distinct (map fst (three_ranks x))" for x by (simp add: three_ranks_def)
  have 1: "rb_Drop (planRebalance (three_ranks 3200) [] 3) = 2" by code_simp
  have 2: "rb_Weights (planRebalance (three_ranks 200) [] 3) = Some [2 / 5, 2 / 5, 1 / 5]" by code_simp
  then have "planRebalance (three_ranks 200) [] 3 \<noteq> no_rebalance" by (auto simp: no_rebalance_def)
  from rebalance_pays [OF d refl this refl refl refl refl] 1 2 show ?thesis by simp
qed

subsection \<open>One rank alone, or DiLoCo\<close>

definition split_time :: "int \<Rightarrow> int \<times> rankReport \<Rightarrow> f64" where
  "split_time every e = rr_StepMillis (snd e) + rr_SyncMillis (snd e) / of_int every"

lemma solo_scan_spec:
  assumes "solo_scan h es (f, r, s, m) = Some (f', r', s', m')"
  shows "(\<forall>e \<in> set es. 0 < rate (snd e) \<and> 0 < rr_SyncMillis (snd e) \<and> rate (snd e) \<le> r'
      \<and> m' \<le> rr_StepMillis (snd e) + rr_SyncMillis (snd e) / h)
    \<and> r \<le> r' \<and> m' \<le> m \<and> s' = s + step_samples es
    \<and> ((f' = f \<and> r' = r) \<or> (\<exists>rep. (f', rep) \<in> set es \<and> rate rep = r'))"
  using assms
proof (induction es arbitrary: f r s m)
  case (Cons e es)
  obtain rank rep where e: "e = (rank, rep)" by fastforce
  let ?step = "rr_StepMillis rep + rr_SyncMillis rep / h"
  have ok: "0 < rate rep" "0 < rr_SyncMillis rep"
    and rest: "solo_scan h es (if r < rate rep then rank else f, max r (rate rep), s + of_int (rr_Samples rep), min m ?step)
        = Some (f', r', s', m')"
    using Cons.prems by (simp_all add: e Let_def not_le split: if_splits)
  note IH = Cons.IH [OF rest]
  then have "max r (rate rep) \<le> r'" "m' \<le> min m ?step" by blast+
  then have "rate rep \<le> r'" "r \<le> r'" "m' \<le> m" "m' \<le> ?step" by simp_all
  moreover have "(f' = f \<and> r' = r) \<or> (\<exists>q. (f', q) \<in> set (e # es) \<and> rate q = r')"
    using IH by (cases "r < rate rep") (auto simp: e max_def)
  moreover have "s' = s + step_samples (e # es)" using IH by (simp add: e step_samples_def)
  ultimately show ?case using IH ok by (simp add: e)
qed (simp add: step_samples_def)

lemma fold_min_le:
  "fold (\<lambda>e m. min m (g e)) es (a :: f64) \<le> a \<and> (\<forall>e \<in> set es. fold (\<lambda>e m. min m (g e)) es a \<le> g e)
   \<and> (fold (\<lambda>e m. min m (g e)) es a = a \<or> (\<exists>e \<in> set es. fold (\<lambda>e m. min m (g e)) es a = g e))"
proof (induction es arbitrary: a)
  case (Cons e es)
  have "fold (\<lambda>e m. min m (g e)) (e # es) a = fold (\<lambda>e m. min m (g e)) es (min a (g e))" by simp
  then show ?case using Cons.IH [of "min a (g e)"] by (auto simp: min_def split: if_splits)
qed simp

lemma fast_split: "fold (\<lambda>(rank, rep) m. min m (rr_StepMillis rep + rr_SyncMillis rep / of_int every)) es a
    = fold (\<lambda>e m. min m (split_time every e)) es a"
  by (rule fold_cong) (auto simp: split_time_def)

lemma dilocoEvery_range: "dilocoEvery n \<noteq> 0 \<Longrightarrow> n \<le> 4 \<and> dilocoEvery n \<in> {32, 16, 4}"
  by (auto simp: dilocoEvery_def dilocoRanks_def split: if_splits)

text \<open>The ring is handed to one rank only when every rank is measured, and the whole step on that rank,
  which has the highest rate, with the margin of a tenth on top, is shorter than the step of the split as any rank
  reports it. DiLoCo is picked only for a ring of two to four and only when the step of some rank
  under it, again with the margin, beats both.\<close>

theorem switch_pays:
  assumes "planSolo reports live syncEvery = (keep, solo, split)" "planDiLoCo reports live bar split = (fast, ok)"
  shows "(0 \<le> keep \<and> (\<forall>e \<in> set reports. 0 \<le> fst e) \<longrightarrow>
      2 \<le> live \<and> live \<le> int (length reports)
      \<and> (\<exists>rep. (keep, rep) \<in> set reports \<and> solo = 1000 * step_samples reports / rate rep
           \<and> (\<forall>e \<in> set reports. 0 < rate (snd e) \<and> rate (snd e) \<le> rate rep
                \<and> solo * 11 / 10 < split_time (max 1 syncEvery) e)))
    \<and> (ok \<longrightarrow> 2 \<le> live \<and> live \<le> 4 \<and> live \<le> int (length reports)
        \<and> fast * 11 / 10 < bar \<and> fast * 11 / 10 < split
        \<and> (\<forall>e \<in> set reports. fast \<le> split_time (dilocoEvery live) e
             \<and> split \<le> split_time (max 1 syncEvery) e))"
proof (intro conjI impI)
  assume k: "0 \<le> keep \<and> (\<forall>e \<in> set reports. 0 \<le> fst e)"
  then have l: "2 \<le> live" "live \<le> int (length reports)"
    using assms(1) by (auto simp: planSolo_def split: if_splits)
  obtain f r s m where sc: "solo_scan (of_int (max 1 syncEvery)) reports (-1, 0, 0, maxFloat64) = Some (f, r, s, m)"
    using assms(1) k l by (cases "solo_scan (of_int (max 1 syncEvery)) reports (-1, 0, 0, maxFloat64)") (auto simp: planSolo_def)
  have v: "keep = f" "solo = 1000 * s / r" "split = m" "solo * ddpSoloMargin < split"
    using assms(1) k l by (auto simp: planSolo_def sc Let_def split: if_splits)
  note sp = solo_scan_spec [OF sc]
  then obtain rep where "(keep, rep) \<in> set reports" "rate rep = r" using k v by auto
  then show "2 \<le> live" "live \<le> int (length reports)"
    "\<exists>rep. (keep, rep) \<in> set reports \<and> solo = 1000 * step_samples reports / rate rep
           \<and> (\<forall>e \<in> set reports. 0 < rate (snd e) \<and> rate (snd e) \<le> rate rep
                \<and> solo * 11 / 10 < split_time (max 1 syncEvery) e)"
    using l sp v by (auto intro!: exI [of _ rep] simp: split_time_def ddpSoloMargin_def)
next
  assume ok: ok
  let ?fast = "fold (\<lambda>e m. min m (split_time (dilocoEvery live) e)) reports maxFloat64"
  have d: "dilocoEvery live \<noteq> 0" "2 \<le> live" "live \<le> int (length reports)" "0 < split"
      "fast = ?fast" "fast * ddpSoloMargin < min split bar"
    using assms(2) ok by (auto simp: planDiLoCo_def Let_def fast_split not_le split: if_splits)
  show "2 \<le> live" "live \<le> 4" "live \<le> int (length reports)" "fast * 11 / 10 < bar" "fast * 11 / 10 < split"
    using d dilocoEvery_range [OF d(1)] by (simp_all add: ddpSoloMargin_def)
  obtain f r s m where sc: "solo_scan (of_int (max 1 syncEvery)) reports (-1, 0, 0, maxFloat64) = Some (f, r, s, m)"
    using assms(1) d by (cases "solo_scan (of_int (max 1 syncEvery)) reports (-1, 0, 0, maxFloat64)") (auto simp: planSolo_def)
  have "split = m" using assms(1) d by (auto simp: planSolo_def sc Let_def split: if_splits)
  then show "\<forall>e \<in> set reports. fast \<le> split_time (dilocoEvery live) e \<and> split \<le> split_time (max 1 syncEvery) e"
    using solo_scan_spec [OF sc] fold_min_le [where g = "split_time (dilocoEvery live)" and es = reports and a = maxFloat64] d(5)
    by (simp add: split_time_def)
qed

definition gpu_and_cpu :: "(int \<times> rankReport) list" where
  "gpu_and_cpu = [(0, \<lparr>rr_StepMillis = 1000, rr_SyncMillis = 500, rr_Samples = 64\<rparr>),
     (1, \<lparr>rr_StepMillis = 100, rr_SyncMillis = 1400, rr_Samples = 64\<rparr>)]"

theorem switch_pays_witness:
  "planSolo gpu_and_cpu 2 1 = (1, 200, 1500) \<and> (200 :: f64) * 11 / 10 < split_time 1 (gpu_and_cpu ! 0)
   \<and> planDiLoCo gpu_and_cpu 2 200 1500 = (575 / 4, True)"
proof -
  have r: "rate (snd (gpu_and_cpu ! 0)) = 64" "rate (snd (gpu_and_cpu ! 1)) = 640"
    by (simp_all add: gpu_and_cpu_def rate_def)
  have m: "1500 \<le> maxFloat64" by (simp add: maxFloat64_def)
  have 1: "planSolo gpu_and_cpu 2 1 = (1, 200, 1500)"
    using r m by (simp add: planSolo_def gpu_and_cpu_def ddpSoloMargin_def Let_def min_def)
  have 2: "planDiLoCo gpu_and_cpu 2 200 1500 = (575 / 4, True)"
    using m by (simp add: planDiLoCo_def gpu_and_cpu_def ddpSoloMargin_def dilocoEvery_def dilocoRanks_def Let_def min_def)
  from switch_pays [OF 1 2] show ?thesis using 1 2 by (simp add: gpu_and_cpu_def)
qed

subsection \<open>One rank setting the pace\<close>

lemma pace_scan_spec:
  assumes "fold (\<lambda>(rank, ms) (slowRank, slow, fast, total).
     (if slow < ms then rank else slowRank, max slow ms, min fast ms, total + ms)) es (k, a :: f64, b, t) = (k', a', b', t')"
  shows "(\<forall>(rank, ms) \<in> set es. ms \<le> a' \<and> b' \<le> ms) \<and> a \<le> a' \<and> b' \<le> b \<and> t' = t + (\<Sum>(rank, ms)\<leftarrow>es. ms)
    \<and> ((k' = k \<and> a' = a) \<or> (k', a') \<in> set es)"
  using assms
proof (induction es arbitrary: k a b t)
  case (Cons e es)
  obtain rank ms where e: "e = (rank, ms)" by fastforce
  from Cons.prems have "fold (\<lambda>(rank, ms) (slowRank, slow, fast, total).
     (if slow < ms then rank else slowRank, max slow ms, min fast ms, total + ms)) es
       (if a < ms then rank else k, max a ms, min b ms, t + ms) = (k', a', b', t')" by (simp add: e)
  note IH = Cons.IH [OF this]
  then have "max a ms \<le> a'" "b' \<le> min b ms" by blast+
  then have "ms \<le> a'" "a \<le> a'" "b' \<le> ms" "b' \<le> b" by auto
  moreover have "(k' = k \<and> a' = a) \<or> (k', a') \<in> set (e # es)"
    using IH by (cases "a < ms") (auto simp: e max_def)
  ultimately show ?case using IH by (simp add: e)
qed simp

lemma pacedBy_straggler:
  assumes "pacedBy steps world = Some (slowRank, slow, fast, rest)"
  shows "2 \<le> world \<and> world \<le> length steps \<and> (slowRank, slow) \<in> set steps \<and> 2 * fast \<le> slow \<and> 0 < fast
    \<and> (\<forall>(rank, ms) \<in> set steps. fast \<le> ms \<and> ms \<le> slow)
    \<and> rest * (of_nat (length steps) - 1) + slow = (\<Sum>(rank, ms)\<leftarrow>steps. ms)"
proof -
  obtain k a b t where s: "pace_scan steps = (k, a, b, t)" by (cases "pace_scan steps") auto
  note sp = pace_scan_spec [OF s [unfolded pace_scan_def]]
  have w: "2 \<le> world" "world \<le> length steps" "0 < a" "0 < b" "2 \<le> a / b"
      "slowRank = k" "slow = a" "fast = b" "rest = (t - a) / (of_nat (length steps) - 1)"
    using assms by (auto simp: pacedBy_def s pacedRatio_def not_le not_less split: if_splits)
  have "of_nat (length steps) - (1 :: f64) \<noteq> 0" using w(1,2) by simp
  then have "rest * (of_nat (length steps) - 1) = t - a" by (simp add: w(9))
  moreover have "2 * b \<le> a" using w(4,5) by (simp add: le_divide_eq)
  ultimately show ?thesis using sp w by auto
qed

end
