(* ===== verification/DdpBoard.thy ===== *)
theory DdpBoard
  imports DdpReduce DdpRebalance "HOL-Library.Sublist"
begin

text \<open>
  The lead daemon's board for a training ring: \<^verbatim>\<open>src/internal/daemonapi/ddpboard.go\<close>, the
  ring's changes in \<^verbatim>\<open>ddpdown.go\<close> and \<^verbatim>\<open>ddpup.go\<close>, and the decisions of
  \<^verbatim>\<open>ddppacing.go\<close> and \<^verbatim>\<open>ddprebalance.go\<close> on it. Every function runs under the
  board's mutex and is one step. Rounds are pointed to by the map and by the handlers that wait, so
  they live in a store and are named by their address. Times are nanoseconds. A note is a datatype
  with one constructor for each JSON fragment the code builds. \<open>measured\<close>, which only says
  whether a line was logged, has no counterpart.
\<close>

subsection \<open>Data\<close>

type_synonym time = int
type_synonym addr = nat

record ddpManifest =
  mf_Names :: "string list"
  mf_Shapes :: "int list list"
  mf_DTypes :: "string list"
  mf_Device :: string
  mf_Host :: string

datatype manifest_diff =
    TensorCount nat nat
  | TensorDiffers nat "int list" "int list"

datatype ddp_fail =
    ContributionFailed int ddp_error
  | KindsDiffer int int string string
  | ModelsDiffer int int manifest_diff
  | AllSilent "int list"
  | FinishFailed ddp_error

text \<open>A round's answer: the int8 bytes with their scales, or the means before they are put at the wire width.\<close>

datatype reduced = Int8Mean "byte list" "f64 list" | WideMean ddpDType "f64 list"

record ddpEntry =
  en_blobs :: "(int \<times> byte list) list"
  en_fetched :: "int list"
  en_done :: bool
  en_world :: int
  en_created :: time
  en_acc :: "ddpAccumulator option"
  en_result :: "reduced option"
  en_kind :: string
  en_drift :: "f64 option"
  en_seen :: "int list"
  en_stepMillis :: "(int \<times> f64) list"
  en_err :: "ddp_fail option"
  en_partialAt :: time
  en_syncEvery :: int
  en_expected :: int
  en_partial :: int
  en_holdExpired :: bool
  en_held :: bool
  en_fingerprint :: "64 word"
  en_sameWork :: bool
  en_checked :: bool
  en_fingerprinted :: nat
  en_opening :: bool
  en_manifest :: "(ddpManifest \<times> int) option"
  en_shard :: int

record ddpJoin =
  jn_id :: nat
  jn_rank :: int
  jn_from :: int
  jn_oldWorld :: int
  jn_snap :: "byte list option"

text \<open>What \<open>ringFragment\<close> renders, and the notes built from it.\<close>

record ring_fragment =
  rf_weights :: "f64 list"
  rf_world :: nat
  rf_join :: "(int \<times> int) option"

datatype ring_note =
    NoteDown ring_fragment int string int
  | NoteMissed ring_fragment int "int list" int
  | NoteJoin ring_fragment int int
  | NoteRelease ring_fragment int f64 f64 int
  | NoteRefit "f64 list" rebalance_why
  | NoteDrop int rebalance_why
  | NoteDiLoCo int f64 f64 "f64 option"

record ddpRun =
  rn_reports :: "(int \<times> rankReport) list"
  rn_weights :: "f64 list"
  rn_round :: nat
  rn_dropped :: "int list"
  rn_seen :: time
  rn_lastSeq :: int
  rn_note :: "ring_note option"
  rn_noteSeq :: int
  rn_noteTold :: "int list"
  rn_world :: int
  rn_sharded :: bool
  rn_join :: "ddpJoin option"
  rn_loading :: "ddpJoin option"
  rn_aborted :: "ddp_fail option"
  rn_fixed :: bool
  rn_released :: bool
  rn_autoSync :: bool
  rn_diloco :: bool
  rn_syncEvery :: int
  rn_residual :: "(string \<times> f64 list) list"

record ddpBoard =
  bd_store :: "ddpEntry list"
  bd_entries :: "(string \<times> addr) list"
  bd_runs :: "(string \<times> ddpRun) list"
  bd_joins :: nat

definition newDDPBoard :: ddpBoard where
  "newDDPBoard = \<lparr>bd_store = [], bd_entries = [], bd_runs = [], bd_joins = 0\<rparr>"

definition new_run :: "time \<Rightarrow> ddpRun" where
  "new_run now = \<lparr>rn_reports = [], rn_weights = [], rn_round = 0, rn_dropped = [], rn_seen = now, rn_lastSeq = 0,
     rn_note = None, rn_noteSeq = 0, rn_noteTold = [], rn_world = 0, rn_sharded = False, rn_join = None,
     rn_loading = None, rn_aborted = None, rn_fixed = False, rn_released = False, rn_autoSync = False,
     rn_diloco = False, rn_syncEvery = 0, rn_residual = []\<rparr>"

definition get_run :: "string \<Rightarrow> ddpBoard \<Rightarrow> ddpRun option" where
  "get_run grp b = map_of (bd_runs b) grp"

definition put_run :: "string \<Rightarrow> ddpRun \<Rightarrow> ddpBoard \<Rightarrow> ddpBoard" where
  "put_run grp r b = b\<lparr>bd_runs := AList.update grp r (bd_runs b)\<rparr>"

definition run_of :: "time \<Rightarrow> string \<Rightarrow> ddpBoard \<Rightarrow> ddpRun" where
  "run_of now grp b = (case get_run grp b of Some r \<Rightarrow> r | None \<Rightarrow> new_run now)"

definition ent :: "ddpBoard \<Rightarrow> addr \<Rightarrow> ddpEntry" where
  "ent b a = bd_store b ! a"

definition put_ent :: "addr \<Rightarrow> ddpEntry \<Rightarrow> ddpBoard \<Rightarrow> ddpBoard" where
  "put_ent a e b = b\<lparr>bd_store := (bd_store b)[a := e]\<rparr>"

subsection \<open>Who counts\<close>

definition expectedCount :: "ddpEntry \<Rightarrow> int" where
  "expectedCount e = (if 0 < en_expected e \<and> en_expected e \<le> en_world e then en_expected e else en_world e)"

definition dropsIn :: "ddpRun \<Rightarrow> int \<Rightarrow> int" where
  "dropsIn r world = int (length (filter (\<lambda>k. k < world) (rn_dropped r)))"

definition dropsBelow :: "string \<Rightarrow> int \<Rightarrow> ddpBoard \<Rightarrow> int" where
  "dropsBelow grp world b = (case get_run grp b of None \<Rightarrow> 0 | Some r \<Rightarrow> dropsIn r world)"

definition dropped_in :: "string \<Rightarrow> ddpBoard \<Rightarrow> int list" where
  "dropped_in grp b = (case get_run grp b of None \<Rightarrow> [] | Some r \<Rightarrow> rn_dropped r)"

definition liveIn :: "ddpBoard \<Rightarrow> string \<Rightarrow> int list \<Rightarrow> int" where
  "liveIn b grp ranks = int (length (filter (\<lambda>k. k \<notin> set (dropped_in grp b)) ranks))"

definition observe_rank :: "time \<Rightarrow> string \<Rightarrow> int \<Rightarrow> rankReport \<Rightarrow> ddpBoard \<Rightarrow> ddpBoard" where
  "observe_rank now grp rank rep b =
     (let r = run_of now grp b
      in if rank \<in> set (rn_dropped r) then put_run grp r b
         else put_run grp (r\<lparr>rn_reports := AList.update rank rep (rn_reports r), rn_seen := now\<rparr>) b)"

definition lowestLive :: "ddpRun \<Rightarrow> int \<Rightarrow> int" where
  "lowestLive r n = (case find (\<lambda>k. k \<notin> set (rn_dropped r)) (map int [0..<nat n]) of Some k \<Rightarrow> k | None \<Rightarrow> -1)"

subsection \<open>Shares\<close>

definition sharesWithout :: "f64 list \<Rightarrow> int list \<Rightarrow> f64 list" where
  "sharesWithout weights dropped =
     (let out = map (\<lambda>i. if int i \<notin> set dropped \<and> 0 < weights ! i then weights ! i else 0) [0..<length weights];
          total = sum_list out
      in if total \<le> 0 then out else map (\<lambda>x. x / total) out)"

definition equal_shares :: "f64 list \<Rightarrow> int \<Rightarrow> f64 list" where
  "equal_shares weights world = (if int (length weights) \<noteq> world then replicate (nat world) 1 else weights)"

definition sharesWith :: "f64 list \<Rightarrow> int \<Rightarrow> int list \<Rightarrow> int \<Rightarrow> f64 list" where
  "sharesWith weights old dropped world =
     (let base = sharesWithout (equal_shares weights old) dropped;
          live = length (filter (\<lambda>i. 0 < base ! i \<and> int i \<notin> set dropped) [0..<length base]);
          out = replicate (nat world) 0
      in if live = 0 then out[nat (world - 1) := 1]
         else let scale = of_nat live / (of_nat live + 1)
           in (map (\<lambda>i. if i < length base then base ! i * scale else out ! i) [0..<nat world])
                [nat (world - 1) := 1 / (of_nat live + 1)])"

definition ringFragment :: "ddpRun \<Rightarrow> ring_fragment" where
  "ringFragment r = \<lparr>rf_weights = rn_weights r, rf_world = length (rn_weights r),
     rf_join = (case rn_join r of None \<Rightarrow> None | Some j \<Rightarrow> if jn_snap j = None then Some (jn_rank j, jn_from j) else None)\<rparr>"

subsection \<open>Notes\<close>

definition publish :: "int \<Rightarrow> ring_note \<Rightarrow> ddpRun \<Rightarrow> ddpRun" where
  "publish seq frag r = r\<lparr>rn_note := Some frag, rn_noteSeq := seq, rn_noteTold := []\<rparr>"

definition noteFor :: "string \<Rightarrow> int \<Rightarrow> int \<Rightarrow> ddpBoard \<Rightarrow> ring_note option \<times> ddpBoard" where
  "noteFor grp rank seq b =
     (case get_run grp b of None \<Rightarrow> (None, b)
      | Some r \<Rightarrow> if rn_note r = None \<or> seq < rn_noteSeq r \<or> rank \<in> set (rn_noteTold r) then (None, b)
          else (rn_note r, put_run grp (r\<lparr>rn_noteTold := List.insert rank (rn_noteTold r)\<rparr>) b))"

subsection \<open>Finishing a round, ending a run\<close>

definition mean_reply :: "f64 list option \<Rightarrow> ddpAccumulator \<Rightarrow> ddp_error + reduced \<times> f64 list option" where
  "mean_reply res a =
     (if ac_dtype a = ddpI8 then
        (case meanResidual res a of Inl err \<Rightarrow> Inl err | Inr (out, scales, left) \<Rightarrow> Inr (Int8Mean out scales, left))
      else if ac_count a = 0 then Inl NoRanks
      else case ac_dtype a of OtherDType _ \<Rightarrow> Inl UnsupportedDType
         | dtype \<Rightarrow> Inr (WideMean dtype (map (\<lambda>s. s * inv_weight a) (ac_sum a)), res))"

definition residual_key :: "ddpEntry \<Rightarrow> nat \<Rightarrow> string" where
  "residual_key e n = en_kind e @ ''/'' @ decimal n @ (if 0 < en_shard e then ''#'' @ decimal (nat (en_shard e)) else [])"

definition finishLocked :: "time \<Rightarrow> string \<Rightarrow> addr \<Rightarrow> ddpBoard \<Rightarrow> ddpBoard" where
  "finishLocked now grp a b =
     (let e = ent b a
      in case en_acc e of None \<Rightarrow> b
         | Some ac \<Rightarrow>
             (let i8 = (ac_dtype ac = ddpI8);
                  r = run_of now grp b;
                  n = length (ac_sum ac);
                  k = residual_key e n;
                  res = (if i8 then Some (case map_of (rn_residual r) k of Some v \<Rightarrow> v | None \<Rightarrow> replicate n 0) else None);
                  e1 = e\<lparr>en_drift := drift_squared ac, en_acc := None\<rparr>
              in case mean_reply res ac of
                   Inl err \<Rightarrow>
                     put_ent a (e1\<lparr>en_err := Some (FinishFailed err)\<rparr>)
                       (case res of None \<Rightarrow> b | Some v \<Rightarrow> put_run grp (r\<lparr>rn_residual := AList.update k v (rn_residual r)\<rparr>) b)
                 | Inr (out, left) \<Rightarrow>
                     put_ent a (e1\<lparr>en_result := Some out\<rparr>)
                       (case left of None \<Rightarrow> b | Some v \<Rightarrow> put_run grp (r\<lparr>rn_residual := AList.update k v (rn_residual r)\<rparr>) b)))"

definition abortLocked :: "time \<Rightarrow> string \<Rightarrow> ddp_fail \<Rightarrow> ddpBoard \<Rightarrow> ddpBoard" where
  "abortLocked now grp why b =
     (let r = run_of now grp b
      in if rn_aborted r \<noteq> None then put_run grp r b else put_run grp (r\<lparr>rn_aborted := Some why\<rparr>) b)"

text \<open>\<open>close(e.done)\<close>, once.\<close>

definition close_done :: "addr \<Rightarrow> ddpBoard \<Rightarrow> ddpBoard" where
  "close_done a b = put_ent a ((ent b a)\<lparr>en_done := True\<rparr>) b"

subsection \<open>A rank that is gone\<close>

definition notDone :: "ddpEntry \<Rightarrow> bool" where
  "notDone e \<longleftrightarrow> en_result e = None \<and> en_err e = None"

text \<open>One open round after a rank went down: it may now have everyone it will ever get.\<close>

definition settle_open :: "time \<Rightarrow> string \<Rightarrow> string \<times> addr \<Rightarrow> ddpBoard \<Rightarrow> ddpBoard" where
  "settle_open now grp ka b =
     (case ka of (key, a) \<Rightarrow>
        let e = ent b a
        in if \<not> prefix (grp @ ''/'') key \<or> \<not> notDone e then b
           else let expected = max 1 (en_world e - dropsBelow grp (en_world e) b);
                    b1 = put_ent a (e\<lparr>en_expected := expected\<rparr>) b;
                    ready = (case en_acc e of
                        Some ac \<Rightarrow> 0 < ac_count ac \<and> expected \<le> liveIn b1 grp (en_seen e)
                      | None \<Rightarrow> expected \<le> liveIn b1 grp (map fst (en_blobs e)));
                    b2 = (if ready \<and> en_acc e \<noteq> None then finishLocked now grp a b1 else b1);
                    e2 = ent b2 a
             in if \<not> ready then b1
                else close_done a
                  (put_ent a (if int (length (en_seen e2)) < en_world e2 \<and> en_seen e2 \<noteq> []
                     then e2\<lparr>en_partial := int (length (en_seen e2))\<rparr> else e2) b2))"

definition settle_all :: "time \<Rightarrow> string \<Rightarrow> ddpBoard \<Rightarrow> ddpBoard" where
  "settle_all now grp b = fold (settle_open now grp) (bd_entries b) b"

text \<open>What the rank's death does to a rank joining or being loaded.\<close>

definition leave_join :: "int \<Rightarrow> ddpRun \<Rightarrow> ddpRun" where
  "leave_join rank r =
     (let r1 = (case rn_loading r of Some j \<Rightarrow> if jn_rank j = rank then r\<lparr>rn_loading := None\<rparr> else r | None \<Rightarrow> r)
      in case rn_join r1 of None \<Rightarrow> r1
         | Some j \<Rightarrow> if jn_rank j = rank then r1\<lparr>rn_join := None\<rparr>
             else if jn_from j = rank then r1\<lparr>rn_join := Some (j\<lparr>jn_from := lowestLive r1 (jn_oldWorld j)\<rparr>)\<rparr>
             else r1)"

definition drop_rank :: "int \<Rightarrow> ddpRun \<Rightarrow> ddpRun" where
  "drop_rank rank r =
     (let d = List.insert rank (rn_dropped r)
      in r\<lparr>rn_dropped := d, rn_reports := AList.delete rank (rn_reports r),
           rn_weights := sharesWithout (equal_shares (rn_weights r) (rn_world r)) d\<rparr>)"

definition markRankDownLocked :: "time \<Rightarrow> string \<Rightarrow> int \<Rightarrow> int \<Rightarrow> string \<Rightarrow> ddpBoard \<Rightarrow> ddpBoard \<times> int" where
  "markRankDownLocked now grp rank world why b =
     (let r0 = run_of now grp b;
          r = (if rn_world r0 = 0 then r0\<lparr>rn_world := world\<rparr> else r0)
      in if rn_world r \<le> rank then
           let r1 = r\<lparr>rn_dropped := List.insert rank (rn_dropped r)\<rparr>
           in (put_run grp r1 b, rn_world r1 - dropsIn r1 (rn_world r1))
         else let left = rn_world r - dropsIn r (rn_world r)
           in if rank \<in> set (rn_dropped r) then (put_run grp r b, left)
              else let r1 = leave_join rank (drop_rank rank r);
                       why' = (if why = [] then ''its job ended'' else why);
                       r2 = publish (rn_lastSeq r1 + 1) (NoteDown (ringFragment r1) rank why' (left - 1)) r1
                in (settle_all now grp (put_run grp r2 b), left - 1))"

text \<open>The handler of a report that a rank is gone; \<open>None\<close> is a bad request.\<close>

definition handleDDPDown :: "time \<Rightarrow> string \<Rightarrow> int \<Rightarrow> int \<Rightarrow> string \<Rightarrow> ddpBoard \<Rightarrow> int option \<times> ddpBoard" where
  "handleDDPDown now grp rank world why b =
     (if grp = [] \<or> world < 2 \<or> rank < 0 \<or> world \<le> rank then (None, b)
      else case markRankDownLocked now grp rank world why b of (b', left) \<Rightarrow> (Some left, b'))"

text \<open>The ranks that never reached the opening round.\<close>

definition dropMissedStart :: "time \<Rightarrow> string \<Rightarrow> addr \<Rightarrow> ddpBoard \<Rightarrow> ddpBoard" where
  "dropMissedStart now grp a b =
     (let e = ent b a;
          missed = filter (\<lambda>rank. rank \<notin> set (en_seen e) \<and> rank \<notin> set (dropped_in grp b)) (map int [0..<nat (en_world e)]);
          b1 = fold (\<lambda>rank b. fst (markRankDownLocked now grp rank (en_world e) ''not ready when training started'' b)) missed
                 (put_run grp (run_of now grp b) b);
          r = run_of now grp b1
      in if missed = [] then b1
         else put_run grp (publish (rn_lastSeq r + 1)
           (NoteMissed (ringFragment r) (hd missed) missed (en_world e - dropsIn r (en_world e))) r) b1)"

subsection \<open>A rank that joins\<close>

record ddpJoinRequest =
  jq_Group :: string
  jq_Rank :: int
  jq_World :: int
  jq_Check :: bool

datatype join_refusal =
    NotSynced | RingStopped ddp_fail | FinishesOnOne | NotSharded | StillJoining int
  | AlreadyIn int int | StillStarting int | NobodyLeft

text \<open>Whether asking again is pointless.\<close>

fun final_refusal :: "join_refusal \<Rightarrow> bool" where
  "final_refusal (RingStopped _) = True"
| "final_refusal FinishesOnOne = True"
| "final_refusal NotSharded = True"
| "final_refusal NobodyLeft = True"
| "final_refusal _ = False"

definition join_ring :: "ddpJoinRequest \<Rightarrow> nat \<Rightarrow> ddpRun \<Rightarrow> ddpRun" where
  "join_ring req i r =
     (let old = rn_world r;
          d = fold (\<lambda>k d. List.insert k d) (map int [nat old..<nat (jq_Rank req)]) (rn_dropped r);
          r1 = r\<lparr>rn_dropped := d, rn_weights := sharesWith (rn_weights r) old d (jq_World req), rn_world := jq_World req,
                 rn_join := Some \<lparr>jn_id = i, jn_rank = jq_Rank req, jn_from = lowestLive r old, jn_oldWorld = old, jn_snap = None\<rparr>\<rparr>
      in publish (rn_lastSeq r1 + 1)
           (NoteJoin (ringFragment r1) (jq_Rank req) (jq_World req - dropsIn r1 (jq_World req))) r1)"

definition ddpJoin_step :: "ddpJoinRequest \<Rightarrow> ddpBoard \<Rightarrow> join_refusal option \<times> ddpBoard" where
  "ddpJoin_step req b =
     (case get_run (jq_Group req) b of None \<Rightarrow> (Some NotSynced, b)
      | Some r \<Rightarrow>
          if rn_lastSeq r = 0 then (Some NotSynced, b)
          else case rn_aborted r of Some why \<Rightarrow> (Some (RingStopped why), b)
          | None \<Rightarrow>
          if rn_released r then (Some FinishesOnOne, b)
          else if \<not> rn_sharded r then (Some NotSharded, b)
          else case rn_join r of Some j \<Rightarrow> (Some (StillJoining (jn_rank j)), b)
          | None \<Rightarrow>
          if jq_Rank req < rn_world r then (Some (AlreadyIn (jq_Rank req) (rn_world r)), b)
          else case find (\<lambda>k. k \<notin> set (rn_dropped r)) (map int [nat (rn_world r)..<nat (jq_Rank req)]) of
            Some k \<Rightarrow> (Some (StillStarting k), b)
          | None \<Rightarrow>
          if lowestLive r (rn_world r) < 0 then (Some NobodyLeft, b)
          else if jq_Check req then (None, b)
          else (None, put_run (jq_Group req) (join_ring req (bd_joins b) r) (b\<lparr>bd_joins := Suc (bd_joins b)\<rparr>)))"

text \<open>The handler: \<open>None\<close> is a bad request, otherwise the refusal, if any.\<close>

definition handleDDPJoin :: "ddpJoinRequest \<Rightarrow> ddpBoard \<Rightarrow> join_refusal option option \<times> ddpBoard" where
  "handleDDPJoin req b =
     (if jq_Group req = [] \<or> jq_Rank req < 1 \<or> jq_World req \<noteq> jq_Rank req + 1 then (None, b)
      else case ddpJoin_step req b of (refusal, b') \<Rightarrow> (Some refusal, b'))"

text \<open>The upload of the snapshot, its reading by the joiner, and the end of the join once the joiner has it all.\<close>

definition snapshot_put :: "string \<Rightarrow> int \<Rightarrow> byte list \<Rightarrow> ddpBoard \<Rightarrow> bool \<times> ddpBoard" where
  "snapshot_put grp join body b =
     (case get_run grp b of None \<Rightarrow> (False, b)
      | Some r \<Rightarrow> (case rn_join r of None \<Rightarrow> (False, b)
          | Some j \<Rightarrow> if jn_rank j \<noteq> join \<or> jn_snap j \<noteq> None then (False, b)
              else (True, put_run grp (r\<lparr>rn_join := Some (j\<lparr>jn_snap := Some body\<rparr>)\<rparr>) b)))"

definition snapshot_take :: "string \<Rightarrow> int \<Rightarrow> ddpBoard \<Rightarrow> ddpJoin option" where
  "snapshot_take grp rank b =
     (case get_run grp b of None \<Rightarrow> None
      | Some r \<Rightarrow> (case rn_join r of None \<Rightarrow> None | Some j \<Rightarrow> if jn_rank j = rank then Some j else None))"

definition snapshot_done :: "string \<Rightarrow> int \<Rightarrow> ddpJoin \<Rightarrow> ddpBoard \<Rightarrow> ddpBoard" where
  "snapshot_done grp rank joined b =
     (case get_run grp b of None \<Rightarrow> b
      | Some r \<Rightarrow> (case rn_join r of None \<Rightarrow> b
          | Some j \<Rightarrow> if jn_id j \<noteq> jn_id joined then b
              else put_run grp (r\<lparr>rn_noteTold := List.insert rank (rn_noteTold r), rn_join := None, rn_loading := Some j\<rparr>) b))"

subsection \<open>What the ring is told after a sync\<close>

definition soloFor :: "ddpRun \<Rightarrow> int \<Rightarrow> ring_note option \<times> ddpRun" where
  "soloFor r world =
     (if rn_released r \<or> rn_join r \<noteq> None \<or> rn_loading r \<noteq> None then (None, r)
      else let live = world - dropsIn r world;
               (keep, solo, split) = planSolo (rn_reports r) live (rn_syncEvery r);
               bar = (if rn_fixed r then maxFloat64 else solo);
               (fast, ok) = (if rn_autoSync r \<and> \<not> rn_diloco r then planDiLoCo (rn_reports r) live bar split else (0, False))
        in if ok then (Some (NoteDiLoCo (dilocoEvery live) fast split (if rn_fixed r then None else Some solo)), r\<lparr>rn_diloco := True\<rparr>)
           else if rn_fixed r then (None, r)
           else if keep < 0 \<or> \<not> rn_sharded r then (None, r)
           else let r1 = r\<lparr>rn_released := True, rn_weights := (replicate (nat world) 0)[nat keep := 1]\<rparr>
             in (Some (NoteRelease (ringFragment r1) keep solo split live), r1))"

definition rebalanceEvery :: nat where "rebalanceEvery = 20"

definition rebalance_run :: "ddpRun \<Rightarrow> int \<Rightarrow> ring_note option \<times> ddpRun" where
  "rebalance_run r0 world =
     (let r = r0\<lparr>rn_round := rn_round r0 + 1\<rparr>
      in if rn_released r \<or> rn_round r mod rebalanceEvery \<noteq> 0 then (None, r)
         else case soloFor r world of (Some frag, r1) \<Rightarrow> (Some frag, r1)
         | (None, r1) \<Rightarrow>
             let plan = planRebalance (rn_reports r1) (rn_weights r1) (nat world)
             in if 0 \<le> rb_Drop plan \<and> rn_fixed r1 then (None, r1)
                else if 0 \<le> rb_Drop plan \<and> rb_Drop plan \<notin> set (rn_dropped r1)
                then (Some (NoteDrop (rb_Drop plan) (rb_Why plan)), r1\<lparr>rn_dropped := List.insert (rb_Drop plan) (rn_dropped r1)\<rparr>)
                else case rb_Weights plan of None \<Rightarrow> (None, r1)
                  | Some ws \<Rightarrow> (Some (NoteRefit ws (rb_Why plan)), r1\<lparr>rn_weights := ws\<rparr>))"

definition rebalanceFor :: "string \<Rightarrow> int \<Rightarrow> ddpBoard \<Rightarrow> ring_note option \<times> ddpBoard" where
  "rebalanceFor grp world b =
     (case get_run grp b of None \<Rightarrow> (None, b)
      | Some r \<Rightarrow> (case rebalance_run r world of (frag, r1) \<Rightarrow> (frag, put_run grp r1 b)))"

end
