(* ===== verification/DdpSync.thy ===== *)
theory DdpSync
  imports DdpBoard
begin

text \<open>
  The exchange of gradients through the lead daemon, \<^verbatim>\<open>src/internal/daemonapi/ddpsync.go\<close> and
  \<^verbatim>\<open>ddprequest.go\<close>: a rank's post, the wait, the partial completion and the answer. The two
  stretches of \<open>handleDDPSync\<close> under the mutex are \<open>post\<close> and \<open>collect\<close>; between
  them the handler waits on the round's address for it to be done or for its deadline, which calls
  \<open>handoverHolds\<close> and \<open>completePartial\<close>. The decoding of a request body, the machine-local
  round (\<^verbatim>\<open>ddplocal.go\<close>) and the bytes of the answer are not modelled here.
\<close>

subsection \<open>Requests\<close>

record ddpMember =
  mb_Rank :: int
  mb_StepMillis :: f64
  mb_SyncMillis :: f64
  mb_Samples :: int

record ddpSyncRequest =
  rq_Group :: string
  rq_Seq :: int
  rq_Rank :: int
  rq_World :: int
  rq_DType :: ddpDType
  rq_Count :: int
  rq_Scale :: f64
  rq_Scales :: "f64 list"
  rq_Counts :: "int list"
  rq_Kind :: string
  rq_SyncEvery :: int
  rq_StepMillis :: f64
  rq_Samples :: int
  rq_SyncMillis :: f64
  rq_Sharded :: bool
  rq_StartWait :: f64
  rq_Manifest :: "ddpManifest option"
  rq_Fixed :: bool
  rq_SyncMode :: string
  rq_Shard :: int
  rq_Shards :: int
  rq_Local :: "int list"
  rq_Members :: "ddpMember list"

datatype ddpMode = ddpModeJSON | ddpModeFrames | ddpModeReduce

definition manifest_values :: "ddpManifest \<Rightarrow> int" where
  "manifest_values m = sum_list (map (\<lambda>sh. prod_list sh) (mf_Shapes m))"

text \<open>Tensor \<open>i\<close> is the same on both ranks. Two shapes print alike only when they are equal.\<close>

definition same_tensor :: "ddpManifest \<Rightarrow> ddpManifest \<Rightarrow> nat \<Rightarrow> bool" where
  "same_tensor a b i \<longleftrightarrow> mf_Shapes a ! i = mf_Shapes b ! i
     \<and> (length (mf_DTypes a) \<le> i \<or> length (mf_DTypes b) \<le> i \<or> mf_DTypes a ! i = mf_DTypes b ! i)"

definition manifestMismatch :: "ddpManifest \<Rightarrow> int \<Rightarrow> ddpManifest \<Rightarrow> int \<Rightarrow> ddp_fail option" where
  "manifestMismatch a ra b rb =
     (if length (mf_Shapes a) \<noteq> length (mf_Shapes b)
      then Some (ModelsDiffer ra rb (TensorCount (length (mf_Shapes a)) (length (mf_Shapes b))))
      else case find (\<lambda>i. \<not> same_tensor a b i) [0..<length (mf_Shapes a)] of
          None \<Rightarrow> None
        | Some i \<Rightarrow> Some (ModelsDiffer ra rb (TensorDiffers i (mf_Shapes a ! i) (mf_Shapes b ! i))))"

definition jsonInt :: "int \<Rightarrow> string" where
  "jsonInt v = (if v < 0 then ''-'' @ decimal (nat (- v)) else decimal (nat v))"

definition entry_key :: "ddpSyncRequest \<Rightarrow> string" where
  "entry_key req = rq_Group req @ ''/'' @ jsonInt (rq_Seq req)
     @ (if 0 < rq_Shard req then ''#'' @ decimal (nat (rq_Shard req)) else [])"

definition contributors :: "ddpSyncRequest \<Rightarrow> int list" where
  "contributors req = (if rq_Members req = [] then [rq_Rank req] else map mb_Rank (rq_Members req))"

definition reports_of :: "ddpSyncRequest \<Rightarrow> ddpMember list" where
  "reports_of req = (if rq_Members req = []
     then [\<lparr>mb_Rank = rq_Rank req, mb_StepMillis = rq_StepMillis req, mb_SyncMillis = rq_SyncMillis req, mb_Samples = rq_Samples req\<rparr>]
     else rq_Members req)"

definition is_lead :: "ddpSyncRequest \<Rightarrow> bool" where
  "is_lead req \<longleftrightarrow> rq_Shard req = 0"

definition is_opening :: "ddpSyncRequest \<Rightarrow> bool" where
  "is_opening req \<longleftrightarrow> is_lead req \<and> rq_Kind req = ''weights'' \<and> rq_Seq req = 1"

datatype bad_request =
    NeedsGroupWorldRank | NeedsShard | MemberOutside | NeedsCountAndDType | BadSegments ddp_error

text \<open>The checks before the board is touched; a machine-local request goes to its own handler.\<close>

definition check_request :: "ddpMode \<Rightarrow> ddpSyncRequest \<Rightarrow> bad_request option" where
  "check_request mode req =
     (if rq_Group req = [] \<or> rq_World req < 1 \<or> rq_Rank req < 0 \<or> rq_World req \<le> rq_Rank req then Some NeedsGroupWorldRank
      else if 0 < rq_Shards req \<and> (mode \<noteq> ddpModeReduce \<or> rq_Shard req < 0 \<or> rq_Shards req \<le> rq_Shard req \<or> rq_World req < rq_Shards req)
      then Some NeedsShard
      else if rq_Local req = [] \<and> (\<exists>m \<in> set (rq_Members req). mb_Rank m < 0 \<or> rq_World req \<le> mb_Rank m) then Some MemberOutside
      else None)"

subsection \<open>Times\<close>

definition seconds :: "int \<Rightarrow> time" where "seconds n = n * 1000000000"

definition ddpPartialAfter :: time where "ddpPartialAfter = seconds 45"

definition ddpHandoverHold :: time where "ddpHandoverHold = seconds 200"

definition ddpStartWait :: time where "ddpStartWait = seconds 300"

definition ddpStartWaitMax :: time where "ddpStartWaitMax = seconds 3600"

definition startWait :: "f64 \<Rightarrow> time" where
  "startWait secs = (if secs \<le> 0 then ddpStartWait else min (go_int (secs * of_int (seconds 1))) ddpStartWaitMax)"

subsection \<open>Opening a round\<close>

definition new_round :: "time \<Rightarrow> ddpSyncRequest \<Rightarrow> ddpAccumulator option \<Rightarrow> ddpEntry" where
  "new_round now req ac = \<lparr>en_blobs = [], en_fetched = [], en_done = False, en_world = rq_World req, en_created = now,
     en_acc = ac, en_result = None, en_kind = rq_Kind req, en_drift = None, en_seen = [], en_stepMillis = [],
     en_err = None, en_partialAt = now + (if is_opening req then startWait (rq_StartWait req) else ddpPartialAfter),
     en_syncEvery = 0, en_expected = 0, en_partial = 0, en_holdExpired = False, en_held = False,
     en_fingerprint = 0, en_sameWork = False, en_checked = False, en_fingerprinted = 0,
     en_opening = is_opening req, en_manifest = None, en_shard = rq_Shard req\<rparr>"

definition new_acc :: "ddpSyncRequest \<Rightarrow> bad_request + ddpAccumulator" where
  "new_acc req =
     (if rq_Count req \<le> 0 \<or> dtype_size (rq_DType req) = 0 then Inl NeedsCountAndDType
      else let ac = newDDPAccumulator (rq_DType req) (nat (rq_Count req))
        in if 1 < length (rq_Counts req)
           then (case withSegments (rq_Counts req) ac of Inl e \<Rightarrow> Inl (BadSegments e) | Inr ac' \<Rightarrow> Inr ac')
           else Inr ac)"

definition open_round :: "time \<Rightarrow> ddpMode \<Rightarrow> ddpSyncRequest \<Rightarrow> ddpBoard \<Rightarrow> bad_request + addr \<times> ddpBoard" where
  "open_round now mode req b =
     (case map_of (bd_entries b) (entry_key req) of Some a \<Rightarrow> Inr (a, b)
      | None \<Rightarrow>
          (let add = (\<lambda>ac. (length (bd_store b), b\<lparr>bd_store := bd_store b @ [new_round now req ac],
                bd_entries := AList.update (entry_key req) (length (bd_store b)) (bd_entries b)\<rparr>))
           in if mode \<noteq> ddpModeReduce then Inr (add None)
              else case new_acc req of Inl e \<Rightarrow> Inl e | Inr ac \<Rightarrow> Inr (add (Some ac))))"

subsection \<open>A post\<close>

text \<open>What the request that carries the ring's control does to the run.\<close>

definition lead_run :: "ddpSyncRequest \<Rightarrow> ddpRun \<Rightarrow> ddpRun" where
  "lead_run req r =
     r\<lparr>rn_world := max (rn_world r) (rq_World req),
       rn_sharded := rn_sharded r \<or> rq_Sharded req,
       rn_fixed := rn_fixed r \<or> rq_Fixed req,
       rn_autoSync := (rq_SyncMode req = ''auto''),
       rn_syncEvery := (if 0 < rq_SyncEvery req then rq_SyncEvery req else rn_syncEvery r),
       rn_loading := (case rn_loading r of Some j \<Rightarrow> if jn_rank j = rq_Rank req then None else Some j | None \<Rightarrow> None)\<rparr>"

definition lead_update :: "time \<Rightarrow> ddpSyncRequest \<Rightarrow> ddpBoard \<Rightarrow> ddpBoard" where
  "lead_update now req b =
     (let grp = rq_Group req; r = lead_run req (run_of now grp b)
      in if rq_Seq req \<le> rn_lastSeq r then put_run grp r b
         else let r1 = r\<lparr>rn_lastSeq := rq_Seq req, rn_seen := now\<rparr>;
                  (frag, b1) = rebalanceFor grp (rn_world r1) (put_run grp r1 b);
                  r2 = run_of now grp b1
           in case frag of Some f \<Rightarrow> if rn_join r2 = None then put_run grp (publish (rq_Seq req) f r2) b1 else b1
              | None \<Rightarrow> b1)"

definition note_report :: "time \<Rightarrow> ddpSyncRequest \<Rightarrow> addr \<Rightarrow> ddpMember \<Rightarrow> ddpBoard \<Rightarrow> ddpBoard" where
  "note_report now req a m b =
     (if \<not> is_lead req \<or> mb_StepMillis m \<le> 0 \<or> mb_Samples m < 0 then b
      else observe_rank now (rq_Group req) (mb_Rank m)
             \<lparr>rr_StepMillis = mb_StepMillis m, rr_SyncMillis = mb_SyncMillis m, rr_Samples = mb_Samples m\<rparr>
             (put_ent a ((ent b a)\<lparr>en_stepMillis := AList.update (mb_Rank m) (mb_StepMillis m) (en_stepMillis (ent b a))\<rparr>) b))"

definition fnv1a :: "byte list \<Rightarrow> 64 word" where
  "fnv1a bs = fold (\<lambda>c h. (h XOR ucast c) * 1099511628211) bs 14695981039346656037"

definition ddpFingerprintSeqs :: int where "ddpFingerprintSeqs = 3"

definition fingerprint :: "ddpSyncRequest \<Rightarrow> byte list \<Rightarrow> ddpEntry \<Rightarrow> ddpEntry" where
  "fingerprint req blob e =
     (if rq_Kind req = ''grads'' \<and> rq_Seq req \<le> ddpFingerprintSeqs then
        let h = fnv1a blob; e1 = e\<lparr>en_fingerprinted := Suc (en_fingerprinted e)\<rparr>
        in if en_seen e = [] then e1\<lparr>en_fingerprint := h, en_sameWork := True, en_checked := True\<rparr>
           else if h \<noteq> en_fingerprint e then e1\<lparr>en_sameWork := False\<rparr> else e1
      else e)"

definition scales_of :: "ddpSyncRequest \<Rightarrow> f64 list" where
  "scales_of req = (if rq_Scales req = [] then [rq_Scale req] else rq_Scales req)"

definition check_manifest :: "ddpSyncRequest \<Rightarrow> ddpEntry \<Rightarrow> ddpEntry" where
  "check_manifest req e =
     (case rq_Manifest req of None \<Rightarrow> e
      | Some m \<Rightarrow> if \<not> en_opening e \<or> rq_Rank req \<in> set (en_seen e) then e
          else case en_manifest e of None \<Rightarrow> e\<lparr>en_manifest := Some (m, rq_Rank req)\<rparr>
             | Some (m0, r0) \<Rightarrow> (case manifestMismatch m0 r0 m (rq_Rank req) of
                   None \<Rightarrow> e | Some why \<Rightarrow> e\<lparr>en_err := Some why\<rparr>))"

definition is_fresh :: "ddpSyncRequest \<Rightarrow> ddpEntry \<Rightarrow> bool" where
  "is_fresh req e \<longleftrightarrow> (\<forall>c \<in> set (contributors req). c \<notin> set (en_seen e))"

definition check_kind :: "ddpSyncRequest \<Rightarrow> ddpEntry \<Rightarrow> ddpEntry" where
  "check_kind req e =
     (if rq_Kind req \<noteq> [] \<and> en_kind e \<noteq> [] \<and> rq_Kind req \<noteq> en_kind e \<and> is_fresh req e \<and> en_err e = None
      then e\<lparr>en_err := Some (KindsDiffer (rq_Rank req) (rq_Seq req) (rq_Kind req) (en_kind e))\<rparr> else e)"

definition fold_contribution :: "ddpSyncRequest \<Rightarrow> byte list \<Rightarrow> ddpAccumulator \<Rightarrow> ddpEntry \<Rightarrow> ddpEntry" where
  "fold_contribution req blob ac e =
     (if \<not> is_fresh req e \<or> en_err e \<noteq> None then e
      else let e1 = fingerprint req blob e
        in case addSegmented blob (scales_of req) (of_int (rq_Samples req)) ac of
             Inl err \<Rightarrow> e1\<lparr>en_err := Some (ContributionFailed (rq_Rank req) err)\<rparr>
           | Inr ac' \<Rightarrow> e1\<lparr>en_acc := Some ac', en_seen := fold List.insert (contributors req) (en_seen e1)\<rparr>)"

definition deposit :: "time \<Rightarrow> ddpSyncRequest \<Rightarrow> byte list \<Rightarrow> addr \<Rightarrow> ddpBoard \<Rightarrow> bool \<times> ddpBoard" where
  "deposit now req blob a b =
     (let grp = rq_Group req; e = ent b a
      in if en_result e \<noteq> None \<or> en_err e \<noteq> None then (True, b)
         else case en_acc e of
           Some ac \<Rightarrow>
             (let e1 = fold_contribution req blob ac (check_kind req (check_manifest req e));
                  b1 = put_ent a e1 b;
                  complete = (en_err e1 \<noteq> None \<or> expectedCount e1 \<le> liveIn b1 grp (en_seen e1));
                  b2 = (if complete \<and> en_err e1 = None then finishLocked now grp a b1 else b1);
                  b3 = (case en_err (ent b2 a) of Some why \<Rightarrow> abortLocked now grp why b2 | None \<Rightarrow> b2)
              in (complete, b3))
         | None \<Rightarrow>
             (let e1 = e\<lparr>en_blobs := AList.update (rq_Rank req) blob (en_blobs e)\<rparr>
              in (expectedCount e1 \<le> liveIn b grp (map fst (en_blobs e1)), put_ent a e1 b)))"

datatype post_outcome =
    Bad bad_request | AbortedRun ddp_fail | MissedStart | WorldMismatch | LocalRound | Waits addr | Completes addr

definition enter_round :: "ddpSyncRequest \<Rightarrow> addr \<Rightarrow> ddpBoard \<Rightarrow> ddpBoard" where
  "enter_round req a b =
     put_ent a ((ent b a)\<lparr>en_expected := max 1 (en_world (ent b a) - dropsBelow (rq_Group req) (en_world (ent b a)) b)\<rparr>) b"

definition agree_every :: "ddpSyncRequest \<Rightarrow> addr \<Rightarrow> ddpBoard \<Rightarrow> ddpBoard" where
  "agree_every req a b = put_ent a ((ent b a)\<lparr>en_syncEvery := max (en_syncEvery (ent b a)) (rq_SyncEvery req)\<rparr>) b"

definition post :: "time \<Rightarrow> ddpMode \<Rightarrow> ddpSyncRequest \<Rightarrow> byte list \<Rightarrow> ddpBoard \<Rightarrow> post_outcome \<times> ddpBoard" where
  "post now mode req blob b =
     (case check_request mode req of Some why \<Rightarrow> (Bad why, b)
      | None \<Rightarrow>
      if rq_Local req \<noteq> [] then (LocalRound, b)
      else case (case get_run (rq_Group req) b of None \<Rightarrow> None | Some r \<Rightarrow> rn_aborted r) of
        Some why \<Rightarrow> (AbortedRun why, b)
      | None \<Rightarrow>
      if is_opening req \<and> rq_Rank req \<in> set (dropped_in (rq_Group req) b) then (MissedStart, b)
      else case open_round now mode req b of
        Inl why \<Rightarrow> (Bad why, b)
      | Inr (a, b0) \<Rightarrow>
      if en_world (ent b0 a) \<noteq> rq_World req then (WorldMismatch, b0)
      else let b1 = enter_round req a b0;
               b2 = (if is_lead req then lead_update now req b1 else b1);
               b3 = fold (note_report now req a) (reports_of req) (agree_every req a b2);
               (complete, b4) = deposit now req blob a b3
        in if complete then (Completes a, close_done a b4) else (Waits a, b4))"

subsection \<open>The deadline\<close>

text \<open>\<open>arrived\<close> of \<open>handoverHolds\<close>.\<close>

definition arrived :: "ddpEntry \<Rightarrow> int \<Rightarrow> bool" where
  "arrived e rank \<longleftrightarrow> rank \<in> set (en_seen e) \<or> rank \<in> fst ` set (en_blobs e)"

definition handover_busy :: "ddpEntry \<Rightarrow> ddpRun \<Rightarrow> bool" where
  "handover_busy e r =
     (case rn_join r of
        Some j \<Rightarrow> (\<not> arrived e (jn_from j) \<and> jn_from j \<notin> set (rn_dropped r))
          \<or> (jn_rank j < en_world e \<and> \<not> arrived e (jn_rank j) \<and> jn_rank j \<notin> set (rn_dropped r))
      | None \<Rightarrow> (case rn_loading r of None \<Rightarrow> False
          | Some j \<Rightarrow> jn_rank j < en_world e \<and> \<not> arrived e (jn_rank j) \<and> jn_rank j \<notin> set (rn_dropped r)))"

definition handoverHolds :: "time \<Rightarrow> string \<Rightarrow> string \<Rightarrow> ddpBoard \<Rightarrow> bool \<times> ddpBoard" where
  "handoverHolds now grp key b =
     (case (map_of (bd_entries b) key, get_run grp b) of
        (Some a, Some r) \<Rightarrow>
          (let e = ent b a
           in if \<not> notDone e \<or> \<not> handover_busy e r then (False, b)
              else if ddpHandoverHold < now - en_created e
              then (False, put_ent a (e\<lparr>en_held := True, en_holdExpired := True\<rparr>) b)
              else (True, put_ent a (e\<lparr>en_held := True\<rparr>) b))
      | _ \<Rightarrow> (False, b))"

definition silent_ranks :: "string \<Rightarrow> ddpEntry \<Rightarrow> ddpBoard \<Rightarrow> int list" where
  "silent_ranks grp e b =
     filter (\<lambda>k. k \<notin> set (en_seen e) \<and> k \<notin> set (dropped_in grp b)) (map int [0..<nat (en_world e)])"

text \<open>Only the rank that asks is left of a later round.\<close>

definition lone_rank :: "string \<Rightarrow> int \<Rightarrow> ddpEntry \<Rightarrow> ddpBoard \<Rightarrow> bool" where
  "lone_rank grp rank e b \<longleftrightarrow> \<not> en_opening e \<and> \<not> en_held e \<and> 2 \<le> expectedCount e
     \<and> liveIn b grp (en_seen e) = 1 \<and> rank \<in> set (en_seen e)"

definition completePartial :: "time \<Rightarrow> string \<Rightarrow> string \<Rightarrow> int \<Rightarrow> ddpBoard \<Rightarrow> bool \<times> ddpBoard" where
  "completePartial now grp key rank b =
     (case map_of (bd_entries b) key of None \<Rightarrow> (False, b)
      | Some a \<Rightarrow>
        (let e = ent b a
         in if \<not> notDone e then (True, b)
            else case en_acc e of None \<Rightarrow> (False, b)
            | Some ac \<Rightarrow>
              if ac_count ac = 0 then (False, b)
              else if lone_rank grp rank e b then
                let why = AllSilent (silent_ranks grp e b)
                in (True, close_done a (abortLocked now grp why (put_ent a (e\<lparr>en_err := Some why, en_acc := None\<rparr>) b)))
              else let b1 = finishLocked now grp a b;
                       b2 = close_done a (put_ent a ((ent b1 a)\<lparr>en_partial := ac_count ac\<rparr>) b1)
                in (True, if en_opening e \<and> en_err (ent b2 a) = None then dropMissedStart now grp a b2 else b2)))"

subsection \<open>The answer\<close>

record reduced_reply =
  rp_result :: "reduced option"
  rp_sync_every :: int
  rp_same_work :: bool
  rp_ranks :: int
  rp_drift :: "f64 option"
  rp_steps :: "(int \<times> f64) list"
  rp_note :: "ring_note option"

datatype sync_reply = AbortReply ddp_fail | ReducedReply reduced_reply | BlobsReply "byte list list"

text \<open>The notes for every rank the request stands for; the last found rides the answer.\<close>

definition take_notes :: "ddpSyncRequest \<Rightarrow> ddpBoard \<Rightarrow> ring_note option \<times> ddpBoard" where
  "take_notes req b =
     fold (\<lambda>c (f, b). case noteFor (rq_Group req) c (rq_Seq req) b of (None, b') \<Rightarrow> (f, b') | (Some g, b') \<Rightarrow> (Some g, b'))
       (if is_lead req then contributors req else []) (None, b)"

definition fetch :: "int list \<Rightarrow> addr \<Rightarrow> ddpBoard \<Rightarrow> ddpBoard" where
  "fetch ranks a b = put_ent a ((ent b a)\<lparr>en_fetched := fold List.insert ranks (en_fetched (ent b a))\<rparr>) b"

definition forget :: "ddpSyncRequest \<Rightarrow> ddpBoard \<Rightarrow> ddpBoard" where
  "forget req b = b\<lparr>bd_entries := AList.delete (entry_key req) (bd_entries b)\<rparr>"

definition collect :: "ddpSyncRequest \<Rightarrow> addr \<Rightarrow> ddpBoard \<Rightarrow> sync_reply \<times> ddpBoard" where
  "collect req a b =
     (let e = ent b a
      in if en_acc e \<noteq> None \<or> \<not> notDone e then
           let (frag, b1) = take_notes req (fetch (contributors req) a b);
               e1 = ent b1 a;
               b2 = (if expectedCount e1 \<le> int (length (en_fetched e1)) \<or> en_err e \<noteq> None then forget req b1 else b1)
           in case en_err e of Some why \<Rightarrow> (AbortReply why, b2)
              | None \<Rightarrow> (ReducedReply \<lparr>rp_result = en_result e, rp_sync_every = en_syncEvery e,
                   rp_same_work = (en_checked e \<and> en_sameWork e \<and> 1 < en_fingerprinted e),
                   rp_ranks = (if 0 < en_partial e then en_partial e else en_world e),
                   rp_drift = en_drift e, rp_steps = en_stepMillis e, rp_note = frag\<rparr>, b2)
         else let b1 = fetch [rq_Rank req] a b; e1 = ent b1 a
           in (BlobsReply (map (\<lambda>k. case map_of (en_blobs e) (int k) of Some v \<Rightarrow> v | None \<Rightarrow> []) [0..<nat (en_world e)]),
               if expectedCount e1 \<le> int (length (en_fetched e1)) then forget req b1 else b1))"

text \<open>\<open>handleDDPSyncStatus\<close>: who has arrived at a round.\<close>

definition sync_status :: "string \<Rightarrow> int \<Rightarrow> ddpBoard \<Rightarrow> int \<times> int list" where
  "sync_status grp seq b =
     (case map_of (bd_entries b) (grp @ ''/'' @ jsonInt seq) of None \<Rightarrow> (0, [])
      | Some a \<Rightarrow> (en_world (ent b a), sort (en_seen (ent b a) @ map fst (en_blobs (ent b a)))))"

subsection \<open>Forgetting what is old\<close>

definition sweep :: "time \<Rightarrow> int \<Rightarrow> ddpBoard \<Rightarrow> ddpBoard" where
  "sweep now maxAge b = b\<lparr>bd_entries := filter (\<lambda>(k, a). now - en_created (ent b a) \<le> maxAge) (bd_entries b),
     bd_runs := filter (\<lambda>(g, r). now - rn_seen r \<le> maxAge) (bd_runs b)\<rparr>"

subsection \<open>Runs of the board\<close>

datatype ddp_event =
    Post time ddpMode ddpSyncRequest "byte list"
  | Hold time string string
  | Deadline time string string int
  | Collect ddpSyncRequest addr
  | RankDown time string int int string
  | JoinRing ddpJoinRequest
  | SnapshotPut string int "byte list"
  | SnapshotDone string int ddpJoin
  | Sweep time int

fun ddp_step :: "ddp_event \<Rightarrow> ddpBoard \<Rightarrow> ddpBoard" where
  "ddp_step (Post now mode req blob) b = snd (post now mode req blob b)"
| "ddp_step (Hold now grp key) b = snd (handoverHolds now grp key b)"
| "ddp_step (Deadline now grp key rank) b = snd (completePartial now grp key rank b)"
| "ddp_step (Collect req a) b = snd (collect req a b)"
| "ddp_step (RankDown now grp rank world why) b = snd (handleDDPDown now grp rank world why b)"
| "ddp_step (JoinRing req) b = snd (handleDDPJoin req b)"
| "ddp_step (SnapshotPut grp join body) b = snd (snapshot_put grp join body b)"
| "ddp_step (SnapshotDone grp rank j) b = snapshot_done grp rank j b"
| "ddp_step (Sweep now maxAge) b = sweep now maxAge b"

end
