(* ===== verification/DdpRounds.thy ===== *)
theory DdpRounds
  imports DdpSync
begin

text \<open>
  What a round of the exchange promises. The contributions folded into a round are tracked by an
  invariant of the board that every operation keeps: each rank counts once, the answer is the mean of
  those contributions and of nothing else, and it does not change once it is there.
\<close>

subsection \<open>The invariant of a round\<close>

type_synonym posted = "int list \<times> contribution"

text \<open>The ranks a list of contributions stands for, and that no rank stands in two of them.\<close>

definition ranks_of :: "posted list \<Rightarrow> int set" where
  "ranks_of cs = (\<Union>c \<in> set cs. set (fst c))"

fun once_each :: "posted list \<Rightarrow> bool" where
  "once_each [] \<longleftrightarrow> True"
| "once_each (c # cs) \<longleftrightarrow> set (fst c) \<inter> ranks_of cs = {} \<and> once_each cs"

definition mean_of :: "posted list \<Rightarrow> ddpAccumulator \<Rightarrow> bool" where
  "mean_of cs ac \<longleftrightarrow> (\<exists>dtype n segs. (segs = [] \<or> sum_list segs = n) \<and> add_all (map snd cs) (fresh_acc dtype n segs) = Inr ac)"

definition entry_ok :: "posted set \<Rightarrow> ddpEntry \<Rightarrow> bool" where
  "entry_ok P e \<longleftrightarrow> 1 \<le> en_world e \<and> distinct (en_seen e) \<and> (\<forall>k \<in> set (en_seen e). 0 \<le> k \<and> k < en_world e) \<and>
     (\<exists>cs ac. set cs \<subseteq> P \<and> once_each cs \<and> ranks_of cs = set (en_seen e) \<and> mean_of cs ac
        \<and> (\<forall>ac'. en_acc e = Some ac' \<longrightarrow> ac' = ac \<and> en_result e = None)
        \<and> (\<forall>r. en_result e = Some r \<longrightarrow> en_err e = None \<and> en_drift e = drift_squared ac
             \<and> (\<exists>res left. mean_reply res ac = Inr (r, left))))"

text \<open>What no operation changes of a round that has its answer.\<close>

definition same_answer :: "ddpEntry \<Rightarrow> ddpEntry \<Rightarrow> bool" where
  "same_answer e e' \<longleftrightarrow> en_result e' = en_result e \<and> en_err e' = en_err e \<and> en_drift e' = en_drift e
     \<and> en_seen e' = en_seen e"

definition bev :: "(addr \<Rightarrow> posted set) \<Rightarrow> ddpBoard \<Rightarrow> ddpBoard \<Rightarrow> bool" where
  "bev P b b' \<longleftrightarrow> length (bd_store b') = length (bd_store b) \<and> set (bd_entries b') \<subseteq> set (bd_entries b)
     \<and> (\<forall>a < length (bd_store b). entry_ok (P a) (ent b a) \<longrightarrow> entry_ok (P a) (ent b' a)
          \<and> en_world (ent b' a) = en_world (ent b a) \<and> (\<not> notDone (ent b a) \<longrightarrow> same_answer (ent b a) (ent b' a)))"

lemma bev_refl [simp, intro]: "bev P b b"
  by (simp add: bev_def same_answer_def)

lemma same_answer_done: "same_answer e e' \<Longrightarrow> notDone e' = notDone e"
  by (simp add: same_answer_def notDone_def)

lemma same_answer_trans: "same_answer e e' \<Longrightarrow> same_answer e' e'' \<Longrightarrow> same_answer e e''"
  by (simp add: same_answer_def)

lemma bev_trans:
  assumes "bev P b b'" "bev P b' b''"
  shows "bev P b b''"
proof -
  have "entry_ok (P a) (ent b'' a) \<and> en_world (ent b'' a) = en_world (ent b a)
      \<and> (\<not> notDone (ent b a) \<longrightarrow> same_answer (ent b a) (ent b'' a))"
    if "a < length (bd_store b)" "entry_ok (P a) (ent b a)" for a
    using assms that same_answer_done same_answer_trans unfolding bev_def by metis
  then show ?thesis using assms by (simp add: bev_def) blast
qed

lemma bev_put_run [simp]: "bev P b (put_run g r b)"
  by (simp add: bev_def put_run_def ent_def same_answer_def)

lemma bev_fold: "(\<And>x b. x \<in> set xs \<Longrightarrow> bev P b (f x b)) \<Longrightarrow> bev P b (fold f xs b)"
proof (induction xs arbitrary: b)
  case (Cons x xs)
  have "bev P b (f x b)" "bev P (f x b) (fold f xs (f x b))" using Cons by auto
  then show ?case using bev_trans by simp
qed simp

text \<open>The fields the invariant reads.\<close>

definition same_core :: "ddpEntry \<Rightarrow> ddpEntry \<Rightarrow> bool" where
  "same_core e e' \<longleftrightarrow> same_answer e e' \<and> en_acc e' = en_acc e \<and> en_world e' = en_world e"

lemma same_core_ok: "same_core e e' \<Longrightarrow> entry_ok P e' = entry_ok P e"
  by (simp add: same_core_def same_answer_def entry_ok_def)

lemma ent_put [simp]: "a < length (bd_store b) \<Longrightarrow> ent (put_ent a e b) a = e"
  by (simp add: ent_def put_ent_def)

lemma ent_put_other [simp]: "a' \<noteq> a \<Longrightarrow> ent (put_ent a e b) a' = ent b a'"
  by (simp add: ent_def put_ent_def)

lemma put_ent_fields [simp]:
  "length (bd_store (put_ent a e b)) = length (bd_store b)" "bd_entries (put_ent a e b) = bd_entries b"
  "bd_runs (put_ent a e b) = bd_runs b" "get_run g (put_ent a e b) = get_run g b"
  by (simp_all add: put_ent_def get_run_def)

lemma put_ent_outside: "\<not> a < length (bd_store b) \<Longrightarrow> put_ent a e b = b"
  by (simp add: put_ent_def not_less list_update_beyond)

lemma bev_put:
  assumes "a < length (bd_store b) \<Longrightarrow> entry_ok (P a) (ent b a) \<Longrightarrow> entry_ok (P a) e
      \<and> en_world e = en_world (ent b a) \<and> (\<not> notDone (ent b a) \<longrightarrow> same_answer (ent b a) e)"
  shows "bev P b (put_ent a e b)"
proof (cases "a < length (bd_store b)")
  case True
  then show ?thesis using assms unfolding bev_def
    by (auto simp: same_answer_def nth_list_update ent_def put_ent_def)
qed (simp add: put_ent_outside)

lemma bev_put_core: "same_core (ent b a) e \<Longrightarrow> bev P b (put_ent a e b)"
  by (rule bev_put) (auto simp: same_core_ok, auto simp: same_core_def)

lemma bev_close [simp]: "bev P b (close_done a b)"
  unfolding close_done_def by (rule bev_put_core) (simp add: same_core_def same_answer_def)

lemma put_run_fields [simp]:
  "bd_store (put_run g r b) = bd_store b" "bd_entries (put_run g r b) = bd_entries b" "ent (put_run g r b) a = ent b a"
  by (simp_all add: put_run_def ent_def)

subsection \<open>Finishing\<close>

lemma entry_ok_finish:
  assumes "entry_ok P e" "en_acc e = Some ac"
  shows "entry_ok P (e\<lparr>en_drift := d, en_acc := None, en_err := er\<rparr>)"
    and "mean_reply res ac = Inr (out, left) \<Longrightarrow> en_err e = None \<Longrightarrow>
      entry_ok P (e\<lparr>en_drift := drift_squared ac, en_acc := None, en_result := Some out\<rparr>)"
proof -
  from assms obtain cs where cs: "set cs \<subseteq> P" "once_each cs" "ranks_of cs = set (en_seen e)" "mean_of cs ac" "en_result e = None"
    unfolding entry_ok_def by auto
  then show "entry_ok P (e\<lparr>en_drift := d, en_acc := None, en_err := er\<rparr>)"
    using assms(1) by (auto simp: entry_ok_def)
  show "entry_ok P (e\<lparr>en_drift := drift_squared ac, en_acc := None, en_result := Some out\<rparr>)"
    if "mean_reply res ac = Inr (out, left)" "en_err e = None"
    using assms(1) cs that by (auto simp: entry_ok_def)
qed

lemma finish_cases:
  obtains "en_acc (ent b a) = None" "finishLocked now grp a b = b"
  | ac err b1 where "en_acc (ent b a) = Some ac" "b1 = b \<or> (\<exists>v k. b1 = put_run grp ((run_of now grp b)\<lparr>rn_residual := AList.update k v (rn_residual (run_of now grp b))\<rparr>) b)"
      "finishLocked now grp a b = put_ent a ((ent b a)\<lparr>en_drift := drift_squared ac, en_acc := None, en_err := Some (FinishFailed err)\<rparr>) b1"
  | ac res out left b1 where "en_acc (ent b a) = Some ac" "mean_reply res ac = Inr (out, left)"
      "b1 = b \<or> (\<exists>v k. b1 = put_run grp ((run_of now grp b)\<lparr>rn_residual := AList.update k v (rn_residual (run_of now grp b))\<rparr>) b)"
      "finishLocked now grp a b = put_ent a ((ent b a)\<lparr>en_drift := drift_squared ac, en_acc := None, en_result := Some out\<rparr>) b1"
proof (cases "en_acc (ent b a)")
  case None
  then show thesis using that(1) by (simp add: finishLocked_def)
next
  case (Some ac)
  define r where "r = run_of now grp b"
  define k where "k = residual_key (ent b a) (length (ac_sum ac))"
  define res where "res = (if ac_dtype ac = ddpI8
     then Some (case map_of (rn_residual r) k of Some v \<Rightarrow> v | None \<Rightarrow> replicate (length (ac_sum ac)) 0) else None)"
  define upd where "upd = (\<lambda>v :: f64 list option. case v of None \<Rightarrow> b | Some v \<Rightarrow> put_run grp (r\<lparr>rn_residual := AList.update k v (rn_residual r)\<rparr>) b)"
  have f: "finishLocked now grp a b = (case mean_reply res ac of
      Inl err \<Rightarrow> put_ent a ((ent b a)\<lparr>en_drift := drift_squared ac, en_acc := None, en_err := Some (FinishFailed err)\<rparr>) (upd res)
    | Inr (out, left) \<Rightarrow> put_ent a ((ent b a)\<lparr>en_drift := drift_squared ac, en_acc := None, en_result := Some out\<rparr>) (upd left))"
    by (simp only: finishLocked_def Let_def Some option.case res_def r_def k_def upd_def)
  have u: "upd v = b \<or> (\<exists>v k. upd v' = put_run grp (r\<lparr>rn_residual := AList.update k v (rn_residual r)\<rparr>) b)" if "v' = v" for v v'
    using that by (cases v) (auto simp: upd_def)
  show thesis
  proof (cases "mean_reply res ac")
    case (Inl err)
    show thesis by (rule that(2) [of ac "upd res" err]) (use Some f Inl u [OF refl, of res] in \<open>simp_all add: r_def\<close>)
  next
    case (Inr x)
    obtain out left where x: "x = (out, left)" by fastforce
    show thesis by (rule that(3) [of ac res out left "upd left"]) (use Some f Inr x u [OF refl, of left] in \<open>simp_all add: r_def\<close>)
  qed
qed

lemma put_run_or_same: "b1 = b \<or> (\<exists>v k. b1 = put_run grp (f v k) b) \<Longrightarrow> bev P b b1 \<and> ent b1 a = ent b a"
  by auto

lemma bev_finish:
  assumes "notDone (ent b a)"
  shows "bev P b (finishLocked now grp a b)"
proof (cases rule: finish_cases [of b a now grp])
  case (2 ac err b1)
  from put_run_or_same [OF 2(2), of P a] have 1: "bev P b b1" and e: "ent b1 a = ent b a" by auto
  have "bev P b1 (finishLocked now grp a b)"
    unfolding 2(3) by (rule bev_put) (use assms 2(1) e entry_ok_finish(1) in simp)
  with 1 show ?thesis by (rule bev_trans)
next
  case (3 ac res out left b1)
  from put_run_or_same [OF 3(3), of P a] have 1: "bev P b b1" and e: "ent b1 a = ent b a" by auto
  have "bev P b1 (finishLocked now grp a b)"
    unfolding 3(4) by (rule bev_put) (use assms 3(1) e entry_ok_finish(2) [OF _ 3(1,2)] in \<open>simp add: notDone_def\<close>)
  with 1 show ?thesis by (rule bev_trans)
qed simp

lemma bev_abort [simp]: "bev P b (abortLocked now grp why b)"
  by (simp add: abortLocked_def Let_def)

definition now_expected :: "string \<Rightarrow> addr \<Rightarrow> ddpBoard \<Rightarrow> int" where
  "now_expected grp a b = max 1 (en_world (ent b a) - dropsBelow grp (en_world (ent b a)) b)"

lemma liveIn_put [simp]: "liveIn (put_ent a e b) grp ks = liveIn b grp ks"
  by (simp add: liveIn_def dropped_in_def)

text \<open>One open round: left alone, told what it now expects, or closed.\<close>

lemma settle_open_cases:
  obtains "settle_open now grp ka b = b"
  | a where "settle_open now grp ka b = put_ent a ((ent b a)\<lparr>en_expected := now_expected grp a b\<rparr>) b"
  | a b1 e where "b1 = put_ent a ((ent b a)\<lparr>en_expected := now_expected grp a b\<rparr>) b" "same_core (ent b1 a) e"
      "en_acc (ent b a) = None" "settle_open now grp ka b = close_done a (put_ent a e b1)"
  | a b1 b2 e where "b1 = put_ent a ((ent b a)\<lparr>en_expected := now_expected grp a b\<rparr>) b" "notDone (ent b a)"
      "now_expected grp a b \<le> liveIn b grp (en_seen (ent b a))" "b2 = finishLocked now grp a b1" "same_core (ent b2 a) e"
      "settle_open now grp ka b = close_done a (put_ent a e b2)"
proof -
  obtain key a where ka: "ka = (key, a)" by fastforce
  show thesis
  proof (cases "\<not> prefix (grp @ ''/'') key \<or> \<not> notDone (ent b a)")
    case True
    then show thesis by (intro that(1)) (auto simp: settle_open_def ka Let_def)
  next
    case False
    define b1 where "b1 = put_ent a ((ent b a)\<lparr>en_expected := now_expected grp a b\<rparr>) b"
    define ready where "ready = (case en_acc (ent b a) of
        Some ac \<Rightarrow> 0 < ac_count ac \<and> now_expected grp a b \<le> liveIn b1 grp (en_seen (ent b a))
      | None \<Rightarrow> now_expected grp a b \<le> liveIn b1 grp (map fst (en_blobs (ent b a))))"
    define b2 where "b2 = (if ready \<and> en_acc (ent b a) \<noteq> None then finishLocked now grp a b1 else b1)"
    define e where "e = (if int (length (en_seen (ent b2 a))) < en_world (ent b2 a) \<and> en_seen (ent b2 a) \<noteq> []
        then (ent b2 a)\<lparr>en_partial := int (length (en_seen (ent b2 a)))\<rparr> else ent b2 a)"
    have eq: "settle_open now grp ka b = (if \<not> ready then b1 else close_done a (put_ent a e b2))"
      unfolding settle_open_def ka prod.case Let_def if_not_P [OF False] e_def b2_def ready_def b1_def now_expected_def by (rule refl)
    have c: "same_core (ent b2 a) e" by (simp add: e_def same_core_def same_answer_def)
    consider "\<not> ready" | "ready" "en_acc (ent b a) = None" | ac where "ready" "en_acc (ent b a) = Some ac" by (cases "en_acc (ent b a)") auto
    then show thesis
    proof cases
      case 1
      then show thesis using that(2) [of a] eq by (simp add: b1_def)
    next
      case 2
      then show thesis using that(3) [of b1 a e] eq c by (simp add: b1_def b2_def)
    next
      case 3
      then have "now_expected grp a b \<le> liveIn b grp (en_seen (ent b a))" by (simp add: ready_def b1_def)
      then show thesis using that(4) [of b1 a b2 e] 3 eq c False by (simp add: b1_def b2_def)
    qed
  qed
qed

lemma bev_settle_open [simp]: "bev P b (settle_open now grp ka b)"
proof -
  have 1: "bev P b (put_ent a ((ent b a)\<lparr>en_expected := x\<rparr>) b)" for a x
    by (rule bev_put_core) (simp add: same_core_def same_answer_def)
  have nd: "notDone (ent (put_ent a ((ent b a)\<lparr>en_expected := x\<rparr>) b) a) = notDone (ent b a)" for a x
    by (cases "a < length (bd_store b)") (simp_all add: notDone_def put_ent_outside)
  show ?thesis
  proof (cases rule: settle_open_cases [of now grp ka b])
    case (3 a b1 e)
    have "bev P b1 (put_ent a e b1)" by (rule bev_put_core) (rule 3(2))
    then show ?thesis unfolding 3(4) using 1 3(1) bev_trans bev_close by metis
  next
    case (4 a b1 b2 e)
    have "bev P b1 b2" using 4(1,2,4) nd by (simp add: bev_finish)
    moreover have "bev P b2 (put_ent a e b2)" by (rule bev_put_core) (rule 4(5))
    ultimately show ?thesis unfolding 4(6) using 1 4(1) bev_trans bev_close by metis
  qed (simp_all add: 1)
qed

lemma bev_settle_all [simp]: "bev P b (settle_all now grp b)"
  unfolding settle_all_def by (rule bev_fold) simp

lemma bev_mark_down [simp]: "bev P b (fst (markRankDownLocked now grp rank world why b))"
proof -
  have "bev P b (settle_all now grp (put_run grp r b))" for r
    by (rule bev_trans [of P b "put_run grp r b"]) simp_all
  then show ?thesis by (simp add: markRankDownLocked_def Let_def)
qed

lemma bev_missed_start [simp]: "bev P b (dropMissedStart now grp a b)"
proof -
  define b0 where "b0 = put_run grp (run_of now grp b) b"
  define b1 where "b1 = fold (\<lambda>rank b. fst (markRankDownLocked now grp rank (en_world (ent b0 a)) ''not ready when training started'' b))
     (filter (\<lambda>rank. rank \<notin> set (en_seen (ent b a)) \<and> rank \<notin> set (dropped_in grp b)) (map int [0..<nat (en_world (ent b a))])) b0"
  have "bev P b b0" by (simp add: b0_def)
  moreover have "bev P b0 b1" unfolding b1_def by (rule bev_fold) simp
  ultimately have "bev P b b1" by (rule bev_trans)
  then show ?thesis
    using bev_trans [OF \<open>bev P b b1\<close>, of "put_run grp _ b1"]
    by (simp add: dropMissedStart_def Let_def b1_def b0_def)
qed

subsection \<open>A contribution\<close>

definition contribution_of :: "ddpSyncRequest \<Rightarrow> byte list \<Rightarrow> posted" where
  "contribution_of req blob = (contributors req, (blob, scales_of req, of_int (rq_Samples req)))"

lemma add_all_snoc:
  "add_all cs ac0 = Inr ac \<Longrightarrow> addSegmented p sc w ac = Inr ac' \<Longrightarrow> add_all (cs @ [(p, sc, w)]) ac0 = Inr ac'"
  by (induction cs arbitrary: ac0) (auto split: sum.splits)

lemma ranks_of_snoc [simp]: "ranks_of (cs @ [c]) = ranks_of cs \<union> set (fst c)"
  by (auto simp: ranks_of_def)

lemma once_each_snoc: "once_each (cs @ [c]) \<longleftrightarrow> once_each cs \<and> set (fst c) \<inter> ranks_of cs = {}"
  by (induction cs) (auto simp: ranks_of_def)

lemma fold_insert_seen:
  "set (fold List.insert ks xs) = set ks \<union> set xs" "distinct xs \<Longrightarrow> distinct (fold List.insert ks xs)"
  by (induction ks arbitrary: xs) (auto simp: distinct_insert)

lemma fingerprint_fields [simp]:
  "en_acc (fingerprint req blob e) = en_acc e" "en_result (fingerprint req blob e) = en_result e"
  "en_seen (fingerprint req blob e) = en_seen e" "en_world (fingerprint req blob e) = en_world e"
  "en_err (fingerprint req blob e) = en_err e" "en_drift (fingerprint req blob e) = en_drift e"
  "en_expected (fingerprint req blob e) = en_expected e"
  by (simp_all add: fingerprint_def Let_def)

lemma fingerprint_ok [simp]: "entry_ok P (fingerprint req blob e) = entry_ok P e"
  by (simp add: entry_ok_def)

lemma checks_fields [simp]:
  "en_acc (check_kind req (check_manifest req e)) = en_acc e" "en_result (check_kind req (check_manifest req e)) = en_result e"
  "en_seen (check_kind req (check_manifest req e)) = en_seen e" "en_world (check_kind req (check_manifest req e)) = en_world e"
  "en_drift (check_kind req (check_manifest req e)) = en_drift e"
  "en_expected (check_kind req (check_manifest req e)) = en_expected e"
  by (simp_all add: check_kind_def check_manifest_def split: option.split)

lemma checks_ok [simp]: "en_result e = None \<Longrightarrow> entry_ok P (check_kind req (check_manifest req e)) = entry_ok P e"
  by (simp add: entry_ok_def)

lemma err_ok [simp]: "en_result e = None \<Longrightarrow> entry_ok P (e\<lparr>en_err := w\<rparr>) = entry_ok P e"
  by (simp add: entry_ok_def)

lemma fold_contribution_ok:
  assumes "entry_ok P e" "en_acc e = Some ac" "contribution_of req blob \<in> P"
    "\<forall>c \<in> set (contributors req). 0 \<le> c \<and> c < en_world e"
  shows "entry_ok P (fold_contribution req blob ac e)"
proof (cases "is_fresh req e \<and> en_err e = None")
  case True
  from assms(1,2) obtain cs where cs: "set cs \<subseteq> P" "once_each cs" "ranks_of cs = set (en_seen e)" "mean_of cs ac" "en_result e = None"
    unfolding entry_ok_def by auto
  show ?thesis
  proof (cases "addSegmented blob (scales_of req) (of_int (rq_Samples req)) ac")
    case (Inl err)
    then show ?thesis using True assms(1) cs(5) by (simp add: fold_contribution_def)
  next
    case (Inr ac')
    let ?c = "contribution_of req blob"
    let ?e = "(fingerprint req blob e)\<lparr>en_acc := Some ac', en_seen := fold List.insert (contributors req) (en_seen e)\<rparr>"
    have eq: "fold_contribution req blob ac e = ?e" using True Inr by (simp add: fold_contribution_def)
    from cs(4) Inr have m: "mean_of (cs @ [?c]) ac'"
      by (auto simp: mean_of_def contribution_of_def intro: add_all_snoc)
    have "set (fst ?c) \<inter> ranks_of cs = {}"
      using True cs(3) by (auto simp: is_fresh_def contribution_of_def)
    then have o: "once_each (cs @ [?c])" using cs(2) by (simp add: once_each_snoc)
    have r: "ranks_of (cs @ [?c]) = set (en_seen ?e)"
      using cs(3) by (auto simp: contribution_of_def fold_insert_seen)
    have p: "set (cs @ [?c]) \<subseteq> P" using cs(1) assms(3) by simp
    have "\<exists>cs ac. set cs \<subseteq> P \<and> once_each cs \<and> ranks_of cs = set (en_seen ?e) \<and> mean_of cs ac
        \<and> (\<forall>ac'. en_acc ?e = Some ac' \<longrightarrow> ac' = ac \<and> en_result ?e = None)
        \<and> (\<forall>r. en_result ?e = Some r \<longrightarrow> en_err ?e = None \<and> en_drift ?e = drift_squared ac
             \<and> (\<exists>res left. mean_reply res ac = Inr (r, left)))"
      by (rule exI [of _ "cs @ [?c]"], rule exI [of _ ac']) (use p o r m cs(5) in simp)
    moreover have "distinct (en_seen ?e)" "\<forall>k \<in> set (en_seen ?e). 0 \<le> k \<and> k < en_world ?e" "1 \<le> en_world ?e"
      using assms(1,4) by (auto simp: entry_ok_def fold_insert_seen)
    ultimately show ?thesis unfolding eq entry_ok_def by blast
  qed
qed (use assms(1) in \<open>auto simp: fold_contribution_def\<close>)

lemma fold_contribution_fields [simp]:
  "en_world (fold_contribution req blob ac e) = en_world e" "en_result (fold_contribution req blob ac e) = en_result e"
  "en_expected (fold_contribution req blob ac e) = en_expected e"
  by (auto simp: fold_contribution_def Let_def split: sum.split)

lemma bev_deposit:
  assumes "contribution_of req blob \<in> P a" "\<forall>c \<in> set (contributors req). 0 \<le> c \<and> c < en_world (ent b a)"
  shows "bev P b (snd (deposit now req blob a b))"
proof (cases "notDone (ent b a)")
  case nd: True
  show ?thesis
  proof (cases "en_acc (ent b a)")
    case None
    then show ?thesis using nd
      by (simp add: deposit_def notDone_def Let_def) (rule bev_put_core, simp add: same_core_def same_answer_def)
  next
    case (Some ac)
    define e1 where "e1 = fold_contribution req blob ac (check_kind req (check_manifest req (ent b a)))"
    define b1 where "b1 = put_ent a e1 b"
    define complete where "complete \<longleftrightarrow> en_err e1 \<noteq> None \<or> expectedCount e1 \<le> liveIn b1 (rq_Group req) (en_seen e1)"
    define b2 where "b2 = (if complete \<and> en_err e1 = None then finishLocked now (rq_Group req) a b1 else b1)"
    define b3 where "b3 = (case en_err (ent b2 a) of Some why \<Rightarrow> abortLocked now (rq_Group req) why b2 | None \<Rightarrow> b2)"
    have eq: "deposit now req blob a b = (complete, b3)"
      using nd by (simp only: deposit_def Let_def notDone_def Some option.case e1_def b1_def complete_def b2_def b3_def
          simp_thms if_False)
    have 1: "bev P b b1" unfolding b1_def
    proof (rule bev_put)
      assume ok: "entry_ok (P a) (ent b a)"
      have "entry_ok (P a) e1" unfolding e1_def
        by (rule fold_contribution_ok) (use ok Some assms nd in \<open>simp_all add: notDone_def\<close>)
      then show "entry_ok (P a) e1 \<and> en_world e1 = en_world (ent b a) \<and> (\<not> notDone (ent b a) \<longrightarrow> same_answer (ent b a) e1)"
        using nd by (simp add: e1_def)
    qed
    have 2: "bev P b1 b2"
    proof (cases "complete \<and> en_err e1 = None \<and> a < length (bd_store b)")
      case True
      then have "notDone (ent b1 a)" using nd by (simp add: b1_def notDone_def e1_def)
      then show ?thesis by (simp add: b2_def bev_finish)
    next
      case False
      then show ?thesis using nd
        by (cases "a < length (bd_store b)") (auto simp: b2_def b1_def put_ent_outside bev_finish)
    qed
    have 3: "bev P b2 b3" by (simp add: b3_def split: option.split)
    show ?thesis unfolding eq using bev_trans [OF bev_trans [OF 1 2] 3] by simp
  qed
qed (simp add: deposit_def notDone_def)

subsection \<open>The other operations\<close>

lemma bev_observe [simp]: "bev P b (observe_rank now grp rank rep b)"
  by (simp add: observe_rank_def Let_def)

lemma bev_note_report [simp]: "bev P b (note_report now req a m b)"
proof (cases "\<not> is_lead req \<or> mb_StepMillis m \<le> 0 \<or> mb_Samples m < 0")
  case False
  have "bev P b (put_ent a ((ent b a)\<lparr>en_stepMillis := AList.update (mb_Rank m) (mb_StepMillis m) (en_stepMillis (ent b a))\<rparr>) b)"
    by (rule bev_put_core) (simp add: same_core_def same_answer_def)
  then show ?thesis unfolding note_report_def if_not_P [OF False] by (rule bev_trans) simp
qed (simp add: note_report_def)

lemma bev_rebalance [simp]: "bev P b (snd (rebalanceFor grp world b))"
  by (simp add: rebalanceFor_def split: option.split prod.split)

lemma bev_lead_update [simp]: "bev P b (lead_update now req b)"
proof -
  define b0 where "b0 = put_run (rq_Group req) ((lead_run req (run_of now (rq_Group req) b))\<lparr>rn_lastSeq := rq_Seq req, rn_seen := now\<rparr>) b"
  define w where "w = rn_world (lead_run req (run_of now (rq_Group req) b))"
  have "bev P b b0" by (simp add: b0_def)
  moreover have "bev P b0 (snd (rebalanceFor (rq_Group req) w b0))" by simp
  ultimately have 1: "bev P b (snd (rebalanceFor (rq_Group req) w b0))" by (rule bev_trans)
  have 2: "bev P b (put_run (rq_Group req) r (snd (rebalanceFor (rq_Group req) w b0)))" for r
    by (rule bev_trans [OF 1]) simp
  obtain frag b1 where f: "rebalanceFor (rq_Group req) w b0 = (frag, b1)" by fastforce
  show ?thesis
    using 1 2 unfolding lead_update_def Let_def
    by (simp add: b0_def [symmetric] w_def [symmetric] f split: option.split)
qed

lemma bev_enter [simp]: "bev P b (enter_round req a b)"
  unfolding enter_round_def by (rule bev_put_core) (simp add: same_core_def same_answer_def)

lemma bev_agree [simp]: "bev P b (agree_every req a b)"
  unfolding agree_every_def by (rule bev_put_core) (simp add: same_core_def same_answer_def)

lemma bev_fetch [simp]: "bev P b (fetch ks a b)"
  unfolding fetch_def by (rule bev_put_core) (simp add: same_core_def same_answer_def)

lemma bev_forget [simp]: "bev P b (forget req b)"
  by (auto simp: bev_def forget_def ent_def same_answer_def AList.delete_eq)

lemma bev_noteFor [simp]: "bev P b (snd (noteFor grp rank seq b))"
  by (simp add: noteFor_def split: option.split)

lemma bev_take_notes [simp]: "bev P b (snd (take_notes req b))"
proof -
  have "bev P b (snd (fold (\<lambda>c (f, b). case noteFor (rq_Group req) c (rq_Seq req) b of (None, b') \<Rightarrow> (f, b') | (Some g, b') \<Rightarrow> (Some g, b')) ks (f, b)))"
    for ks f
  proof (induction ks arbitrary: f b)
    case (Cons k ks)
    obtain n b' where n: "noteFor (rq_Group req) k (rq_Seq req) b = (n, b')" by fastforce
    have "bev P b b'" using bev_noteFor [of P b "rq_Group req" k "rq_Seq req"] by (simp add: n)
    then show ?case using Cons.IH [of b'] bev_trans by (cases n) (auto simp: n)
  qed simp
  then show ?thesis unfolding take_notes_def .
qed

lemma bev_collect [simp]: "bev P b (snd (collect req a b))"
proof -
  have f: "bev P b (forget req b')" if "bev P b b'" for b' using that by (rule bev_trans) simp
  obtain frag b1 where t: "take_notes req (fetch (contributors req) a b) = (frag, b1)" by fastforce
  have "bev P (fetch (contributors req) a b) b1" using bev_take_notes [of P "fetch (contributors req) a b" req] by (simp add: t)
  then have 1: "bev P b b1" using bev_trans [OF bev_fetch] by blast
  show ?thesis using f [OF 1] 1 f [OF bev_fetch]
    by (auto simp: collect_def Let_def t split: option.split)
qed

lemma bev_holds [simp]: "bev P b (snd (handoverHolds now grp key b))"
proof -
  have "bev P b (put_ent a ((ent b a)\<lparr>en_held := h, en_holdExpired := x\<rparr>) b)" "bev P b (put_ent a ((ent b a)\<lparr>en_held := h\<rparr>) b)" for a h x
    by (rule bev_put_core, simp add: same_core_def same_answer_def)+
  then show ?thesis by (simp add: handoverHolds_def Let_def split: option.split)
qed

lemma bev_partial [simp]: "bev P b (snd (completePartial now grp key rank b))"
proof (cases "map_of (bd_entries b) key")
  case (Some a)
  let ?e = "ent b a"
  show ?thesis
  proof (cases "notDone ?e \<and> (\<exists>ac. en_acc ?e = Some ac \<and> ac_count ac \<noteq> 0)")
    case True
    then obtain ac where nd: "notDone ?e" and ac: "en_acc ?e = Some ac" "ac_count ac \<noteq> 0" by blast
    show ?thesis
    proof (cases "lone_rank grp rank ?e b")
      case lone: True
      let ?why = "AllSilent (silent_ranks grp ?e b)"
      let ?b1 = "put_ent a (?e\<lparr>en_err := Some ?why, en_acc := None\<rparr>) b"
      have 1: "bev P b ?b1"
      proof (rule bev_put)
        assume "entry_ok (P a) ?e"
        then have "entry_ok (P a) (?e\<lparr>en_drift := en_drift ?e, en_acc := None, en_err := Some ?why\<rparr>)"
          by (rule entry_ok_finish(1) [OF _ ac(1)])
        then show "entry_ok (P a) (?e\<lparr>en_err := Some ?why, en_acc := None\<rparr>)
          \<and> en_world (?e\<lparr>en_err := Some ?why, en_acc := None\<rparr>) = en_world ?e
          \<and> (\<not> notDone ?e \<longrightarrow> same_answer ?e (?e\<lparr>en_err := Some ?why, en_acc := None\<rparr>))"
          using nd by (simp add: entry_ok_def)
      qed
      have "bev P b (abortLocked now grp ?why ?b1)" by (rule bev_trans [OF 1]) simp
      then have "bev P b (close_done a (abortLocked now grp ?why ?b1))" by (rule bev_trans) simp
      then show ?thesis using Some nd ac lone by (simp add: completePartial_def Let_def)
    next
      case lone: False
      define b1 where "b1 = finishLocked now grp a b"
      define b2 where "b2 = close_done a (put_ent a ((ent b1 a)\<lparr>en_partial := ac_count ac\<rparr>) b1)"
      have 1: "bev P b b1" using nd by (simp add: b1_def bev_finish)
      have "bev P b1 (put_ent a ((ent b1 a)\<lparr>en_partial := ac_count ac\<rparr>) b1)"
        by (rule bev_put_core) (simp add: same_core_def same_answer_def)
      then have 2: "bev P b b2" unfolding b2_def using bev_trans [OF bev_trans [OF 1]] bev_close by blast
      have 3: "bev P b (dropMissedStart now grp a b2)" by (rule bev_trans [OF 2]) simp
      have "snd (completePartial now grp key rank b) = (if en_opening ?e \<and> en_err (ent b2 a) = None then dropMissedStart now grp a b2 else b2)"
        using Some nd ac lone by (simp add: completePartial_def Let_def b1_def b2_def)
      then show ?thesis using 2 3 by simp
    qed
  next
    case False
    then show ?thesis using Some
      by (cases "en_acc ?e") (auto simp: completePartial_def Let_def)
  qed
qed (simp add: completePartial_def)

lemma bev_join [simp]: "bev P b (snd (ddpJoin_step req b))"
proof -
  have "bev P b (put_run g r (b\<lparr>bd_joins := n\<rparr>))" for g r n
    by (simp add: bev_def put_run_def ent_def same_answer_def)
  then show ?thesis by (simp add: ddpJoin_step_def split: option.split)
qed

lemma bev_handle_join [simp]: "bev P b (snd (handleDDPJoin req b))"
  using bev_join [of P b req] by (simp add: handleDDPJoin_def case_prod_beta)

lemma bev_snapshots [simp]:
  "bev P b (snd (snapshot_put grp join body b))" "bev P b (snapshot_done grp rank j b)"
  by (simp_all add: snapshot_put_def snapshot_done_def split: option.split)

lemma bev_sweep [simp]: "bev P b (sweep now maxAge b)"
  by (auto simp: bev_def sweep_def ent_def same_answer_def)

lemma bev_down [simp]: "bev P b (snd (handleDDPDown now grp rank world why b))"
  using bev_mark_down [of P b now grp rank world why]
  by (simp add: handleDDPDown_def case_prod_beta)

subsection \<open>Steps of the board\<close>

definition posts_at :: "ddp_event list \<Rightarrow> string \<Rightarrow> posted set" where
  "posts_at es key = {c. \<exists>now mode req blob. Post now mode req blob \<in> set es \<and> entry_key req = key \<and> c = contribution_of req blob}"

text \<open>Every address belongs to the key it was made for.\<close>

definition rounds_ok :: "ddp_event list \<Rightarrow> (addr \<Rightarrow> string) \<Rightarrow> ddpBoard \<Rightarrow> bool" where
  "rounds_ok es key_of b \<longleftrightarrow> (\<forall>(key, a) \<in> set (bd_entries b). a < length (bd_store b) \<and> key_of a = key)
     \<and> (\<forall>a < length (bd_store b). entry_ok (posts_at es (key_of a)) (ent b a))"

lemma entry_ok_mono: "entry_ok P e \<Longrightarrow> P \<subseteq> Q \<Longrightarrow> entry_ok Q e"
  unfolding entry_ok_def by blast

lemma posts_at_mono: "set es \<subseteq> set fs \<Longrightarrow> posts_at es key \<subseteq> posts_at fs key"
  unfolding posts_at_def by blast

lemma rounds_ok_mono: "rounds_ok es key_of b \<Longrightarrow> set es \<subseteq> set fs \<Longrightarrow> rounds_ok fs key_of b"
  unfolding rounds_ok_def using posts_at_mono entry_ok_mono by metis

lemma rounds_ok_bev:
  "rounds_ok es key_of b \<Longrightarrow> bev (\<lambda>a. posts_at es (key_of a)) b b' \<Longrightarrow> rounds_ok es key_of b'"
  unfolding rounds_ok_def bev_def by auto

definition new_ok :: "ddpAccumulator \<Rightarrow> bool" where
  "new_ok ac \<longleftrightarrow> mean_of [] ac"

lemma sum_list_nats: "\<forall>c \<in> set cs. 0 < c \<Longrightarrow> int (sum_list (map nat cs)) = sum_list cs"
  by (induction cs) auto

lemma new_acc_ok:
  assumes "new_acc req = Inr ac"
  shows "new_ok ac"
proof (cases "1 < length (rq_Counts req)")
  case False
  then have "ac = fresh_acc (rq_DType req) (nat (rq_Count req)) []"
    using assms by (simp add: new_acc_def Let_def fresh_acc_def newDDPAccumulator_def split: if_splits)
  then show ?thesis by (auto simp: new_ok_def mean_of_def)
next
  case True
  let ?a = "newDDPAccumulator (rq_DType req) (nat (rq_Count req))"
  have "withSegments (rq_Counts req) ?a = Inr ac"
    using assms True by (auto simp: new_acc_def Let_def split: if_splits sum.splits)
  then have ac: "ac = fresh_acc (rq_DType req) (nat (rq_Count req)) (map nat (rq_Counts req))"
    and s: "sum_list (rq_Counts req) = int (nat (rq_Count req))" and p: "find (\<lambda>c. c \<le> 0) (rq_Counts req) = None"
    by (auto simp: withSegments_def fresh_acc_def newDDPAccumulator_def split: option.splits if_splits)
  have "\<forall>c \<in> set (rq_Counts req). 0 < c" using p by (auto simp: find_None_iff not_le)
  from sum_list_nats [OF this] s have "sum_list (map nat (rq_Counts req)) = nat (rq_Count req)" by linarith
  then show ?thesis unfolding new_ok_def mean_of_def ac by force
qed

lemma new_round_ok:
  assumes "1 \<le> rq_World req" "\<And>a. ac = Some a \<Longrightarrow> new_ok a"
  shows "entry_ok P (new_round now req ac)"
proof -
  have "mean_of [] (fresh_acc ddpF32 0 [])" by (auto simp: mean_of_def)
  then obtain a where "mean_of [] a" "ac = Some a \<or> ac = None"
    using assms(2) by (cases ac) (auto simp: new_ok_def)
  then show ?thesis using assms(1)
    by (auto simp: entry_ok_def new_round_def ranks_of_def intro!: exI [of _ "[] :: posted list"])
qed

lemma open_round_ok:
  assumes "rounds_ok es key_of b" "open_round now mode req b = Inr (a, b0)" "1 \<le> rq_World req"
  obtains key_of' where "rounds_ok es key_of' b0" "a < length (bd_store b0)" "key_of' a = entry_key req"
    "length (bd_store b) \<le> length (bd_store b0)" "\<And>i. i < length (bd_store b) \<Longrightarrow> ent b0 i = ent b i"
    "bd_runs b0 = bd_runs b" "\<And>i. i < length (bd_store b) \<Longrightarrow> key_of' i = key_of i"
    "\<And>i. i < length (bd_store b0) \<Longrightarrow> \<not> i < length (bd_store b) \<Longrightarrow> en_result (ent b0 i) = None"
proof (cases "map_of (bd_entries b) (entry_key req)")
  case (Some a')
  then have "a' = a" "b0 = b" using assms(2) by (simp_all add: open_round_def)
  moreover have "(entry_key req, a') \<in> set (bd_entries b)" using Some by (rule map_of_SomeD)
  ultimately show thesis using that [of key_of] assms(1) by (auto simp: rounds_ok_def)
next
  case None
  define n where "n = length (bd_store b)"
  obtain ac where a: "a = n" and fresh: "\<And>x. ac = Some x \<Longrightarrow> new_ok x"
    and b0: "b0 = b\<lparr>bd_store := bd_store b @ [new_round now req ac], bd_entries := AList.update (entry_key req) n (bd_entries b)\<rparr>"
  proof (cases "mode = ddpModeReduce")
    case True
    then obtain x where x: "new_acc req = Inr x" using assms(2) None by (cases "new_acc req") (auto simp: open_round_def Let_def)
    have "a = n \<and> b0 = b\<lparr>bd_store := bd_store b @ [new_round now req (Some x)], bd_entries := AList.update (entry_key req) n (bd_entries b)\<rparr>"
      using assms(2) None True x by (auto simp: open_round_def n_def Let_def)
    then show thesis using that [of "Some x"] new_acc_ok [OF x] by auto
  next
    case False
    then have "a = n \<and> b0 = b\<lparr>bd_store := bd_store b @ [new_round now req None], bd_entries := AList.update (entry_key req) n (bd_entries b)\<rparr>"
      using assms(2) None by (auto simp: open_round_def n_def Let_def)
    then show thesis using that [of None] by auto
  qed
  let ?k = "key_of(n := entry_key req)"
  have old: "ent b0 i = ent b i" if "i < n" for i using that by (simp add: b0 ent_def nth_append n_def)
  have new: "ent b0 n = new_round now req ac" by (simp add: b0 ent_def nth_append n_def)
  have "set (bd_entries b0) \<subseteq> insert (entry_key req, n) (set (bd_entries b))"
    using set_update_sub by (simp add: b0)
  then have keys: "\<forall>(key, i) \<in> set (bd_entries b0). i < Suc n \<and> ?k i = key"
    using assms(1) unfolding rounds_ok_def n_def by fastforce
  have ents: "entry_ok (posts_at es (?k i)) (ent b0 i)" if "i < Suc n" for i
    using that assms(1,3) old new new_round_ok [OF assms(3) fresh]
    by (cases "i = n") (auto simp: rounds_ok_def n_def)
  have "rounds_ok es ?k b0" using keys ents by (auto simp: rounds_ok_def b0 n_def)
  then show thesis by (rule that) (auto simp: a b0 n_def old [unfolded n_def b0] ent_def nth_append less_Suc_eq new_round_def)
qed

lemma check_request_ranges:
  assumes "check_request mode req = None" "rq_Local req = []"
  shows "1 \<le> rq_World req" "\<forall>c \<in> set (contributors req). 0 \<le> c \<and> c < rq_World req"
  using assms by (auto simp: check_request_def contributors_def split: if_splits)

text \<open>A post that reaches a round, in the steps of the handler.\<close>

definition after_open :: "time \<Rightarrow> ddpSyncRequest \<Rightarrow> addr \<Rightarrow> ddpBoard \<Rightarrow> ddpBoard" where
  "after_open now req a b0 =
     (let b1 = enter_round req a b0; b2 = (if is_lead req then lead_update now req b1 else b1)
      in fold (note_report now req a) (reports_of req) (agree_every req a b2))"

lemma post_cases:
  obtains "snd (post now mode req blob b) = b" "\<And>a. fst (post now mode req blob b) \<noteq> Waits a \<and> fst (post now mode req blob b) \<noteq> Completes a"
  | a b0 where "check_request mode req = None" "rq_Local req = []" "open_round now mode req b = Inr (a, b0)"
      "en_world (ent b0 a) \<noteq> rq_World req" "post now mode req blob b = (WorldMismatch, b0)"
  | a b0 complete b4 where "check_request mode req = None" "rq_Local req = []" "open_round now mode req b = Inr (a, b0)"
      "en_world (ent b0 a) = rq_World req" "(case get_run (rq_Group req) b of None \<Rightarrow> None | Some r \<Rightarrow> rn_aborted r) = None"
      "deposit now req blob a (after_open now req a b0) = (complete, b4)"
      "post now mode req blob b = (if complete then (Completes a, close_done a b4) else (Waits a, b4))"
proof -
  let ?ab = "case get_run (rq_Group req) b of None \<Rightarrow> None | Some r \<Rightarrow> rn_aborted r"
  consider "check_request mode req \<noteq> None" | "check_request mode req = None" "rq_Local req \<noteq> []"
    | "check_request mode req = None" "rq_Local req = []" "?ab \<noteq> None"
    | "check_request mode req = None" "rq_Local req = []" "?ab = None" "is_opening req \<and> rq_Rank req \<in> set (dropped_in (rq_Group req) b)"
    | "check_request mode req = None" "rq_Local req = []" "?ab = None" "\<not> (is_opening req \<and> rq_Rank req \<in> set (dropped_in (rq_Group req) b))"
    by blast
  then show thesis
  proof cases
    case 5
    show thesis
    proof (cases "open_round now mode req b")
      case (Inl e)
      then show thesis using 5 by (intro that(1)) (auto simp: post_def)
    next
      case (Inr x)
      obtain a b0 where x: "x = (a, b0)" by fastforce
      obtain complete b4 where d: "deposit now req blob a (after_open now req a b0) = (complete, b4)" by fastforce
      show thesis
      proof (cases "en_world (ent b0 a) = rq_World req")
        case True
        have "post now mode req blob b = (if complete then (Completes a, close_done a b4) else (Waits a, b4))"
          using 5 Inr True d by (auto simp: post_def x after_open_def Let_def)
        then show thesis using that(3) 5 Inr True d by (simp add: x)
      next
        case False
        have "post now mode req blob b = (WorldMismatch, b0)"
          using 5 Inr False by (auto simp: post_def x)
        then show thesis using that(2) 5 Inr False by (simp add: x)
      qed
    qed
  qed (auto intro!: that(1) simp: post_def split: option.splits)
qed

lemma bev_after_open [simp]: "bev P b (after_open now req a b)"
proof -
  have 1: "bev P b (if is_lead req then lead_update now req (enter_round req a b) else enter_round req a b)"
    using bev_trans [OF bev_enter bev_lead_update] by auto
  have 2: "bev P b (agree_every req a (if is_lead req then lead_update now req (enter_round req a b) else enter_round req a b))"
    by (rule bev_trans [OF 1]) simp
  show ?thesis unfolding after_open_def Let_def by (rule bev_trans [OF 2 bev_fold]) simp
qed

text \<open>The board before a step and after it.\<close>

definition answers_kept :: "ddpBoard \<Rightarrow> ddpBoard \<Rightarrow> bool" where
  "answers_kept b b' \<longleftrightarrow> length (bd_store b) \<le> length (bd_store b')
     \<and> (\<forall>a < length (bd_store b). \<not> notDone (ent b a) \<longrightarrow> same_answer (ent b a) (ent b' a))"

lemma bev_kept: "rounds_ok es key_of b \<Longrightarrow> bev (\<lambda>a. posts_at es (key_of a)) b b' \<Longrightarrow> answers_kept b b'"
  by (auto simp: rounds_ok_def bev_def answers_kept_def)

lemma post_step_ok:
  assumes "rounds_ok es key_of b" "Post now mode req blob \<in> set es"
  shows "\<exists>key_of'. rounds_ok es key_of' (snd (post now mode req blob b)) \<and> answers_kept b (snd (post now mode req blob b))
    \<and> (\<forall>a < length (bd_store b). key_of' a = key_of a)"
proof (cases rule: post_cases [of now mode req blob b])
  case 1
  then show ?thesis using assms(1) bev_kept [OF assms(1) bev_refl] by auto
next
  case (2 a b0)
  from open_round_ok [OF assms(1) 2(3) check_request_ranges(1) [OF 2(1,2)]] obtain key_of' where
    "rounds_ok es key_of' b0" "length (bd_store b) \<le> length (bd_store b0)"
    "\<And>i. i < length (bd_store b) \<Longrightarrow> ent b0 i = ent b i" "\<And>i. i < length (bd_store b) \<Longrightarrow> key_of' i = key_of i" by metis
  then show ?thesis using 2(5) by (auto simp: answers_kept_def same_answer_def)
next
  case (3 a b0 complete b4)
  from open_round_ok [OF assms(1) 3(3) check_request_ranges(1) [OF 3(1,2)]] obtain key_of' where
    k: "rounds_ok es key_of' b0" "a < length (bd_store b0)" "key_of' a = entry_key req" "length (bd_store b) \<le> length (bd_store b0)"
    "\<And>i. i < length (bd_store b) \<Longrightarrow> ent b0 i = ent b i" "\<And>i. i < length (bd_store b) \<Longrightarrow> key_of' i = key_of i" by metis
  let ?P = "\<lambda>a. posts_at es (key_of' a)" and ?b3 = "after_open now req a b0"
  have 1: "bev ?P b0 ?b3" by simp
  then have w: "en_world (ent ?b3 a) = rq_World req"
    using k(1,2) 3(4) by (auto simp: bev_def rounds_ok_def)
  have "contribution_of req blob \<in> ?P a" using assms(2) by (auto simp: k(3) posts_at_def)
  then have "bev ?P ?b3 b4"
    using bev_deposit [of req blob ?P a ?b3 now] check_request_ranges(2) [OF 3(1,2)] 3(6) w by simp
  then have 2: "bev ?P b0 b4" using 1 bev_trans by blast
  then have 3: "bev ?P b0 (snd (post now mode req blob b))" using 3(7) bev_trans [OF 2 bev_close] by auto
  have "answers_kept b0 (snd (post now mode req blob b))" by (rule bev_kept [OF k(1) 3])
  then have "answers_kept b (snd (post now mode req blob b))"
    using k(4,5) unfolding answers_kept_def by (metis (no_types, lifting) le_trans order_less_le_trans)
  then show ?thesis using rounds_ok_bev [OF k(1) 3] k(6) by blast
qed

lemma ddp_step_ok:
  assumes "rounds_ok es key_of b" "ev \<in> set es"
  shows "\<exists>key_of'. rounds_ok es key_of' (ddp_step ev b) \<and> answers_kept b (ddp_step ev b)
    \<and> (\<forall>a < length (bd_store b). key_of' a = key_of a)"
proof -
  have easy: ?thesis if "bev (\<lambda>a. posts_at es (key_of a)) b (ddp_step ev b)"
    using rounds_ok_bev [OF assms(1) that] bev_kept [OF assms(1) that] by blast
  show ?thesis
  proof (cases "\<exists>now mode req blob. ev = Post now mode req blob")
    case True
    then show ?thesis using post_step_ok [OF assms(1)] assms(2) by auto
  next
    case False
    then have "bev (\<lambda>a. posts_at es (key_of a)) b (ddp_step ev b)" by (cases ev) auto
    then show ?thesis by (rule easy)
  qed
qed

lemma ddp_run_ok:
  assumes "rounds_ok es key_of b" "set fs \<subseteq> set es"
  shows "\<exists>key_of'. rounds_ok es key_of' (fold ddp_step fs b) \<and> answers_kept b (fold ddp_step fs b)
    \<and> (\<forall>a < length (bd_store b). key_of' a = key_of a)"
  using assms
proof (induction fs arbitrary: b key_of)
  case Nil
  then show ?case using bev_kept [OF _ bev_refl] by auto
next
  case (Cons ev fs)
  then obtain k1 where 1: "rounds_ok es k1 (ddp_step ev b)" "answers_kept b (ddp_step ev b)"
      "\<forall>a < length (bd_store b). k1 a = key_of a"
    using ddp_step_ok [of es key_of b ev] by auto
  from Cons.IH [OF this(1)] Cons.prems(2) obtain k2 where
    2: "rounds_ok es k2 (fold ddp_step fs (ddp_step ev b))" "answers_kept (ddp_step ev b) (fold ddp_step fs (ddp_step ev b))"
      "\<forall>a < length (bd_store (ddp_step ev b)). k2 a = k1 a" by auto
  have "answers_kept b (fold ddp_step fs (ddp_step ev b))"
    using 1(2) 2(2) same_answer_done same_answer_trans unfolding answers_kept_def
    by (metis (no_types, lifting) le_trans order_less_le_trans)
  then show ?case using 1 2 by (intro exI [of _ k2]) (auto simp: answers_kept_def)
qed

lemma rounds_ok_new: "rounds_ok es key_of newDDPBoard"
  by (simp add: rounds_ok_def newDDPBoard_def)

subsection \<open>One answer\<close>


definition grad_post :: "int \<Rightarrow> byte \<Rightarrow> ddp_event" where
  "grad_post rank v = Post 0 ddpModeReduce
     \<lparr>rq_Group = ''g'', rq_Seq = 2, rq_Rank = rank, rq_World = 2, rq_DType = ddpI8, rq_Count = 1, rq_Scale = 1,
      rq_Scales = [], rq_Counts = [], rq_Kind = ''grads'', rq_SyncEvery = 1, rq_StepMillis = 100, rq_Samples = 8,
      rq_SyncMillis = 10, rq_Sharded = True, rq_StartWait = 0, rq_Manifest = None, rq_Fixed = False,
      rq_SyncMode = ''exact'', rq_Shard = 0, rq_Shards = 0, rq_Local = [], rq_Members = []\<rparr> [v]"

definition grad_req :: ddpSyncRequest where
  "grad_req = (case grad_post 0 0 of Post now mode req blob \<Rightarrow> req)"


subsection \<open>How a run may change\<close>

definition run_ok :: "ddpRun \<Rightarrow> bool" where
  "run_ok r \<longleftrightarrow> distinct (rn_dropped r) \<and> (\<forall>k \<in> set (rn_dropped r). 0 \<le> k)"

definition run_le :: "ddpRun \<Rightarrow> ddpRun \<Rightarrow> bool" where
  "run_le r r' \<longleftrightarrow> (run_ok r \<longrightarrow> run_ok r') \<and> (rn_aborted r \<noteq> None \<longrightarrow> rn_aborted r' = rn_aborted r)
     \<and> set (rn_dropped r) \<subseteq> set (rn_dropped r') \<and> rn_world r \<le> rn_world r' \<and> (rn_released r \<longrightarrow> rn_released r')"

definition runs_le :: "ddpBoard \<Rightarrow> ddpBoard \<Rightarrow> bool" where
  "runs_le b b' \<longleftrightarrow> (keys_distinct (bd_runs b) \<longrightarrow> keys_distinct (bd_runs b')) \<and> (\<forall>g. case get_run g b of None \<Rightarrow> (\<forall>r'. get_run g b' = Some r' \<longrightarrow> run_ok r')
     | Some r \<Rightarrow> (\<exists>r'. get_run g b' = Some r' \<and> run_le r r'))"

lemma run_le_refl [simp, intro]: "run_le r r"
  by (simp add: run_le_def)

lemma run_le_trans: "run_le r r' \<Longrightarrow> run_le r' r'' \<Longrightarrow> run_le r r''"
  by (auto simp: run_le_def)

text \<open>A change that leaves alone the fields \<open>run_le\<close> reads.\<close>

lemma run_le_quiet:
  "rn_dropped r' = rn_dropped r \<Longrightarrow> rn_aborted r' = rn_aborted r \<Longrightarrow> rn_world r' = rn_world r \<Longrightarrow>
    rn_released r' = rn_released r \<Longrightarrow> run_le r r'"
  by (simp add: run_le_def run_ok_def)

lemma runs_le_refl [simp, intro]: "runs_le b b"
  by (auto simp: runs_le_def split: option.split)

lemma runs_le_trans: "runs_le b b' \<Longrightarrow> runs_le b' b'' \<Longrightarrow> runs_le b b''"
proof -
  assume 1: "runs_le b b'" and 2: "runs_le b' b''"
  show "runs_le b b''" unfolding runs_le_def
  proof (intro conjI allI)
    show "keys_distinct (bd_runs b) \<longrightarrow> keys_distinct (bd_runs b'')" using 1 2 by (simp add: runs_le_def)
  next
    fix g
    from 1 2 have c: "case get_run g b of None \<Rightarrow> (\<forall>r'. get_run g b' = Some r' \<longrightarrow> run_ok r')
       | Some r \<Rightarrow> (\<exists>r'. get_run g b' = Some r' \<and> run_le r r')"
      "case get_run g b' of None \<Rightarrow> (\<forall>r'. get_run g b'' = Some r' \<longrightarrow> run_ok r')
       | Some r \<Rightarrow> (\<exists>r'. get_run g b'' = Some r' \<and> run_le r r')"
      by (simp_all add: runs_le_def)
    show "case get_run g b of None \<Rightarrow> (\<forall>r'. get_run g b'' = Some r' \<longrightarrow> run_ok r')
       | Some r \<Rightarrow> (\<exists>r'. get_run g b'' = Some r' \<and> run_le r r')"
    proof (cases "get_run g b")
      case None
      then show ?thesis using c by (cases "get_run g b'") (auto simp: run_le_def)
    next
      case (Some r)
      then show ?thesis using c run_le_trans by auto
    qed
  qed
qed

lemma get_put_run [simp]: "get_run g' (put_run g r b) = (if g' = g then Some r else get_run g' b)"
  by (simp add: get_run_def put_run_def go_map_simps)

lemma new_run_ok: "run_ok (new_run now)"
  by (simp add: run_ok_def new_run_def)

lemma runs_le_put: "run_le (run_of now g b) r \<Longrightarrow> runs_le b (put_run g r b)"
  using new_run_ok [of now] gm.wf_put [of "bd_runs b" g r]
  by (auto simp: runs_le_def run_of_def run_le_def put_run_def get_run_def go_map_simps split: option.split option.splits)

lemma runs_le_fold: "(\<And>x b. x \<in> set xs \<Longrightarrow> runs_le b (f x b)) \<Longrightarrow> runs_le b (fold f xs b)"
proof (induction xs arbitrary: b)
  case (Cons x xs)
  have "runs_le b (f x b)" "runs_le (f x b) (fold f xs (f x b))" using Cons by auto
  then show ?case using runs_le_trans by simp
qed simp

lemma runs_le_same: "bd_runs b' = bd_runs b \<Longrightarrow> runs_le b b'"
  by (auto simp: runs_le_def get_run_def split: option.split)

lemma run_of_put [simp]: "run_of now g (put_run g r b) = r"
  by (simp add: run_of_def)

lemma runs_fields [simp]:
  "bd_runs (enter_round req a b) = bd_runs b" "bd_runs (agree_every req a b) = bd_runs b"
  "bd_runs (fetch ks a b) = bd_runs b" "bd_runs (forget req b) = bd_runs b" "bd_runs (close_done a b) = bd_runs b"
  by (simp_all add: enter_round_def agree_every_def fetch_def forget_def close_done_def)

text \<open>A step that, besides, drops nobody.\<close>

definition calm :: "ddpBoard \<Rightarrow> ddpBoard \<Rightarrow> bool" where
  "calm b b' \<longleftrightarrow> runs_le b b' \<and> (\<forall>g. dropped_in g b' = dropped_in g b)"

lemma calm_refl [simp]: "calm b b"
  by (simp add: calm_def)

lemma calm_trans: "calm b b' \<Longrightarrow> calm b' b'' \<Longrightarrow> calm b b''"
  unfolding calm_def using runs_le_trans by auto

lemma dropped_run_of: "rn_dropped (run_of now g b) = dropped_in g b"
  by (simp add: run_of_def dropped_in_def new_run_def split: option.split)

lemma calm_put: "run_le (run_of now g b) r \<Longrightarrow> rn_dropped r = dropped_in g b \<Longrightarrow> calm b (put_run g r b)"
  using runs_le_put [of now g b r] by (auto simp: calm_def dropped_in_def)

lemma calm_runs: "bd_runs b' = bd_runs b \<Longrightarrow> calm b b'"
  using runs_le_same [of b' b] by (simp add: calm_def dropped_in_def get_run_def)

lemma calm_put_ent: "calm b b' \<Longrightarrow> calm b (put_ent a e b')"
  by (rule calm_trans [OF _ calm_runs]) simp_all

lemma calm_close: "calm b b' \<Longrightarrow> calm b (close_done a b')"
  by (rule calm_trans [OF _ calm_runs]) simp_all

lemma calm_finish [simp]: "calm b (finishLocked now grp a b)"
proof -
  have *: "calm b (put_ent a e b1)"
    if "b1 = b \<or> (\<exists>v k. b1 = put_run grp ((run_of now grp b)\<lparr>rn_residual := AList.update k v (rn_residual (run_of now grp b))\<rparr>) b)" for b1 e
  proof -
    have "calm b b1" using that
      by (elim disjE exE) (auto intro!: calm_put [of now] run_le_quiet simp: dropped_run_of)
    then show ?thesis by (rule calm_put_ent)
  qed
  show ?thesis
  proof (cases rule: finish_cases [of b a now grp])
    case (2 ac err b1)
    show ?thesis unfolding 2(3) by (rule *) (rule 2(2))
  next
    case (3 ac res out left b1)
    show ?thesis unfolding 3(4) by (rule *) (rule 3(3))
  qed simp
qed

lemma calm_abort [simp]: "calm b (abortLocked now grp why b)"
proof -
  have "calm b (put_run grp (run_of now grp b) b)" by (rule calm_put [of now]) (simp_all add: dropped_run_of)
  moreover have "calm b (put_run grp ((run_of now grp b)\<lparr>rn_aborted := Some why\<rparr>) b)" if "rn_aborted (run_of now grp b) = None"
    by (rule calm_put [of now]) (use that in \<open>simp_all add: dropped_run_of run_le_def run_ok_def\<close>)
  ultimately show ?thesis by (auto simp: abortLocked_def Let_def)
qed

lemma calm_settle_open [simp]: "calm b (settle_open now grp ka b)"
proof (cases rule: settle_open_cases [of now grp ka b])
  case (3 a b1 e)
  have "calm b b1" unfolding 3(1) by (rule calm_put_ent) simp
  then show ?thesis unfolding 3(4) by (intro calm_close calm_put_ent)
next
  case (4 a b1 b2 e)
  have "calm b b1" unfolding 4(1) by (rule calm_put_ent) simp
  then have "calm b b2" unfolding 4(4) by (rule calm_trans) simp
  then show ?thesis unfolding 4(6) by (intro calm_close calm_put_ent)
qed (auto intro: calm_put_ent)

lemma calm_fold: "(\<And>x b. x \<in> set xs \<Longrightarrow> calm b (f x b)) \<Longrightarrow> calm b (fold f xs b)"
proof (induction xs arbitrary: b)
  case (Cons x xs)
  have "calm b (f x b)" "calm (f x b) (fold f xs (f x b))" using Cons by auto
  then show ?case using calm_trans by simp
qed simp

lemma calm_settle_all [simp]: "calm b (settle_all now grp b)"
  unfolding settle_all_def by (rule calm_fold) simp

lemma calm_observe [simp]: "calm b (observe_rank now grp rank rep b)"
proof -
  have "calm b (put_run grp (run_of now grp b) b)" by (rule calm_put [of now]) (simp_all add: dropped_run_of)
  moreover have "calm b (put_run grp ((run_of now grp b)\<lparr>rn_reports := v, rn_seen := now\<rparr>) b)" for v
    by (rule calm_put [of now]) (auto intro: run_le_quiet simp: dropped_run_of)
  ultimately show ?thesis by (simp add: observe_rank_def Let_def)
qed

lemma calm_note_report [simp]: "calm b (note_report now req a m b)"
  unfolding note_report_def using calm_trans [OF calm_put_ent [OF calm_refl] calm_observe] by auto

text \<open>The changes that drop ranks.\<close>

lemma runs_le_calm: "calm b b' \<Longrightarrow> runs_le b b'"
  by (simp add: calm_def)

lemma run_le_insert:
  assumes "0 \<le> k" "rn_dropped r' = List.insert k (rn_dropped r)" "rn_aborted r' = rn_aborted r"
    "rn_world r \<le> rn_world r'" "rn_released r \<longrightarrow> rn_released r'"
  shows "run_le r r'"
  using assms by (auto simp: run_le_def run_ok_def distinct_insert)

lemma soloFor_le: "run_le r (snd (soloFor r world))"
proof -
  obtain keep solo split where p: "planSolo (rn_reports r) (world - dropsIn r world) (rn_syncEvery r) = (keep, solo, split)"
    by (cases "planSolo (rn_reports r) (world - dropsIn r world) (rn_syncEvery r)") auto
  obtain fast ok where f: "(if rn_autoSync r \<and> \<not> rn_diloco r then planDiLoCo (rn_reports r) (world - dropsIn r world)
      (if rn_fixed r then maxFloat64 else solo) split else (0, False)) = (fast, ok)" by fastforce
  show ?thesis
    by (auto simp: soloFor_def Let_def p f run_le_def run_ok_def)
qed

lemma rebalance_run_le: "run_le r (snd (rebalance_run r world))"
proof -
  define r0 where "r0 = r\<lparr>rn_round := rn_round r + 1\<rparr>"
  have 0: "run_le r r0" unfolding r0_def by (rule run_le_quiet) simp_all
  obtain frag r1 where s: "soloFor r0 world = (frag, r1)" by fastforce
  have 1: "run_le r r1" using run_le_trans [OF 0 soloFor_le [of r0 world]] unfolding s by simp
  define plan where "plan = planRebalance (rn_reports r1) (rn_weights r1) (nat world)"
  have 2: "run_le r (r1\<lparr>rn_dropped := List.insert (rb_Drop plan) (rn_dropped r1)\<rparr>)" if "0 \<le> rb_Drop plan"
    by (rule run_le_trans [OF 1 run_le_insert [OF that]]) simp_all
  have 3: "run_le r (r1\<lparr>rn_weights := ws\<rparr>)" for ws
    by (rule run_le_trans [OF 1 run_le_quiet]) simp_all
  have "rebalance_run r world = (if rn_released r0 \<or> rn_round r0 mod rebalanceEvery \<noteq> 0 then (None, r0)
      else case frag of Some f \<Rightarrow> (Some f, r1) | None \<Rightarrow>
        if 0 \<le> rb_Drop plan \<and> rn_fixed r1 then (None, r1)
        else if 0 \<le> rb_Drop plan \<and> rb_Drop plan \<notin> set (rn_dropped r1)
        then (Some (NoteDrop (rb_Drop plan) (rb_Why plan)), r1\<lparr>rn_dropped := List.insert (rb_Drop plan) (rn_dropped r1)\<rparr>)
        else case rb_Weights plan of None \<Rightarrow> (None, r1) | Some ws \<Rightarrow> (Some (NoteRefit ws (rb_Why plan)), r1\<lparr>rn_weights := ws\<rparr>))"
    unfolding rebalance_run_def Let_def r0_def [symmetric] s prod.case plan_def by (rule refl)
  then show ?thesis using 0 1 2 3 by (auto split: option.split)
qed

lemma runs_le_rebalance: "runs_le b (snd (rebalanceFor grp world b))"
proof (cases "get_run grp b")
  case (Some r)
  obtain frag r1 where r: "rebalance_run r world = (frag, r1)" by fastforce
  have "run_le (run_of now grp b) r1" for now using rebalance_run_le [of r world] by (simp add: r run_of_def Some)
  then show ?thesis using runs_le_put by (simp add: rebalanceFor_def Some r)
qed (simp add: rebalanceFor_def)

lemma runs_le_put2: "runs_le b b' \<Longrightarrow> run_le (run_of now g b') r \<Longrightarrow> runs_le b (put_run g r b')"
  using runs_le_trans runs_le_put by blast

lemma publish_le [simp]: "run_le r (publish seq frag r)"
  by (rule run_le_quiet) (simp_all add: publish_def)

lemma runs_le_lead_update: "runs_le b (lead_update now req b)"
proof -
  let ?g = "rq_Group req"
  let ?r = "lead_run req (run_of now ?g b)"
  let ?r1 = "?r\<lparr>rn_lastSeq := rq_Seq req, rn_seen := now\<rparr>"
  have l: "run_le (run_of now ?g b) ?r" "run_le (run_of now ?g b) ?r1"
    by (simp_all add: lead_run_def run_le_def run_ok_def)
  have 1: "runs_le b (put_run ?g ?r b)" "runs_le b (put_run ?g ?r1 b)"
    by (rule runs_le_put, rule l)+
  obtain frag b1 where f: "rebalanceFor ?g (rn_world ?r1) (put_run ?g ?r1 b) = (frag, b1)" by fastforce
  have 2: "runs_le b b1"
    using runs_le_trans [OF 1(2) runs_le_rebalance [of "put_run ?g ?r1 b" ?g "rn_world ?r1"]] unfolding f by simp
  have 3: "runs_le b (put_run ?g (publish (rq_Seq req) n (run_of now ?g b1)) b1)" for n
    by (rule runs_le_put2 [OF 2, of now]) simp
  show ?thesis
  proof (cases "rq_Seq req \<le> rn_lastSeq ?r")
    case True
    then show ?thesis using 1(1) by (simp add: lead_update_def Let_def)
  next
    case False
    then have "lead_update now req b = (case frag of Some n \<Rightarrow>
        if rn_join (run_of now ?g b1) = None then put_run ?g (publish (rq_Seq req) n (run_of now ?g b1)) b1 else b1 | None \<Rightarrow> b1)"
      using f by (simp add: lead_update_def Let_def)
    then show ?thesis using 2 3 by (simp split: option.split)
  qed
qed

lemma run_le_drop_rank: "0 \<le> rank \<Longrightarrow> run_le r (drop_rank rank r)"
  by (rule run_le_insert [of rank]) (simp_all add: drop_rank_def Let_def)

lemma run_le_leave_join: "run_le r (leave_join rank r)"
  by (rule run_le_quiet) (simp_all add: leave_join_def Let_def split: option.split)

lemma runs_le_mark_down:
  assumes "0 \<le> rank" "0 \<le> world"
  shows "runs_le b (fst (markRankDownLocked now grp rank world why b))"
proof -
  define r where "r = (let r0 = run_of now grp b in if rn_world r0 = 0 then r0\<lparr>rn_world := world\<rparr> else r0)"
  have 0: "run_le (run_of now grp b) r" using assms(2) by (simp add: r_def Let_def run_le_def run_ok_def)
  have 1: "run_le (run_of now grp b) (r\<lparr>rn_dropped := List.insert rank (rn_dropped r)\<rparr>)"
    by (rule run_le_trans [OF 0 run_le_insert [OF assms(1)]]) simp_all
  have 2: "run_le (run_of now grp b) (publish seq n (leave_join rank (drop_rank rank r)))" for seq n
    using run_le_trans [OF run_le_trans [OF run_le_trans [OF 0 run_le_drop_rank [OF assms(1)]] run_le_leave_join] publish_le] .
  have 3: "runs_le b (settle_all now grp (put_run grp (publish seq n (leave_join rank (drop_rank rank r))) b))" for seq n
    using runs_le_trans [OF runs_le_put [OF 2] runs_le_calm [OF calm_settle_all]] .
  have "fst (markRankDownLocked now grp rank world why b) = (if rn_world r \<le> rank
       then put_run grp (r\<lparr>rn_dropped := List.insert rank (rn_dropped r)\<rparr>) b
       else if rank \<in> set (rn_dropped r) then put_run grp r b
       else settle_all now grp (put_run grp (publish (rn_lastSeq (leave_join rank (drop_rank rank r)) + 1)
          (NoteDown (ringFragment (leave_join rank (drop_rank rank r))) rank (if why = [] then ''its job ended'' else why)
             (rn_world r - dropsIn r (rn_world r) - 1)) (leave_join rank (drop_rank rank r))) b))"
    by (simp add: markRankDownLocked_def Let_def r_def)
  then show ?thesis using 3 runs_le_put [OF 0] runs_le_put [OF 1] by simp
qed

lemma runs_le_missed_start: "runs_le b (dropMissedStart now grp a b)"
proof -
  define missed where "missed = filter (\<lambda>rank. rank \<notin> set (en_seen (ent b a)) \<and> rank \<notin> set (dropped_in grp b)) (map int [0..<nat (en_world (ent b a))])"
  define b1 where "b1 = fold (\<lambda>rank b'. fst (markRankDownLocked now grp rank (en_world (ent b a)) ''not ready when training started'' b')) missed
     (put_run grp (run_of now grp b) b)"
  have "runs_le b (put_run grp (run_of now grp b) b)" by (rule runs_le_put [of now]) simp
  moreover have "runs_le (put_run grp (run_of now grp b) b) b1"
    unfolding b1_def by (rule runs_le_fold, rule runs_le_mark_down) (auto simp: missed_def)
  ultimately have 1: "runs_le b b1" by (rule runs_le_trans)
  have "dropMissedStart now grp a b = (if missed = [] then b1 else
      put_run grp (publish (rn_lastSeq (run_of now grp b1) + 1)
        (NoteMissed (ringFragment (run_of now grp b1)) (hd missed) missed
          (en_world (ent b a) - dropsIn (run_of now grp b1) (en_world (ent b a)))) (run_of now grp b1)) b1)"
    unfolding dropMissedStart_def Let_def missed_def [symmetric] b1_def [symmetric] by (rule refl)
  then show ?thesis using 1 runs_le_put2 [OF 1 publish_le] by simp
qed

lemma calm_deposit: "calm b (snd (deposit now req blob a b))"
proof (cases "notDone (ent b a)")
  case True
  have f: "calm b (finishLocked now grp a (put_ent a e b))" "calm b (abortLocked now grp why (finishLocked now grp a (put_ent a e b)))"
      "calm b (abortLocked now grp why (put_ent a e b))" for grp e why
    using calm_trans [OF calm_put_ent [OF calm_refl]] calm_finish calm_abort calm_trans by metis+
  show ?thesis using True
    by (auto simp: deposit_def notDone_def Let_def intro!: f calm_put_ent split: option.split)
qed (simp add: deposit_def notDone_def)

lemma runs_le_join: "runs_le b (snd (handleDDPJoin req b))"
proof (cases "jq_Group req = [] \<or> jq_Rank req < 1 \<or> jq_World req \<noteq> jq_Rank req + 1")
  case False
  have "snd (ddpJoin_step req b) = b \<or> (\<exists>r. get_run (jq_Group req) b = Some r \<and> rn_world r \<le> jq_Rank req
      \<and> snd (ddpJoin_step req b) = put_run (jq_Group req) (join_ring req (bd_joins b) r) (b\<lparr>bd_joins := Suc (bd_joins b)\<rparr>))"
  proof (cases "get_run (jq_Group req) b")
    case (Some r)
    then have "snd (ddpJoin_step req b) = b \<or> rn_world r \<le> jq_Rank req
        \<and> snd (ddpJoin_step req b) = put_run (jq_Group req) (join_ring req (bd_joins b) r) (b\<lparr>bd_joins := Suc (bd_joins b)\<rparr>)"
      by (simp add: ddpJoin_step_def split: option.split)
    then show ?thesis using Some by blast
  qed (simp add: ddpJoin_step_def)
  then show ?thesis
  proof (elim disjE exE conjE)
    fix r
    assume r: "get_run (jq_Group req) b = Some r" "rn_world r \<le> jq_Rank req"
      and eq: "snd (ddpJoin_step req b) = put_run (jq_Group req) (join_ring req (bd_joins b) r) (b\<lparr>bd_joins := Suc (bd_joins b)\<rparr>)"
    let ?b = "b\<lparr>bd_joins := Suc (bd_joins b)\<rparr>"
    let ?d = "fold (\<lambda>k d. List.insert k d) (map int [nat (rn_world r)..<nat (jq_Rank req)]) (rn_dropped r)"
    have d: "set ?d = set (map int [nat (rn_world r)..<nat (jq_Rank req)]) \<union> set (rn_dropped r)" "distinct (rn_dropped r) \<Longrightarrow> distinct ?d"
      by (rule fold_insert_seen(1)) (erule fold_insert_seen(2))
    have f: "rn_dropped (join_ring req i r) = ?d" "rn_aborted (join_ring req i r) = rn_aborted r" "rn_world (join_ring req i r) = jq_World req"
        "rn_released (join_ring req i r) = rn_released r" for i
      by (simp_all add: join_ring_def Let_def publish_def)
    have w: "rn_world r \<le> jq_World req" using r(2) False by simp
    have "distinct ?d \<and> (\<forall>k \<in> set ?d. 0 \<le> k)" if "run_ok r"
    proof
      show "distinct ?d" using that d(2) by (simp add: run_ok_def)
      show "\<forall>k \<in> set ?d. 0 \<le> k" unfolding d(1) using that by (auto simp: run_ok_def)
    qed
    moreover have "set (rn_dropped r) \<subseteq> set ?d" unfolding d(1) by blast
    ultimately have le: "run_le r (join_ring req (bd_joins b) r)"
      using w unfolding run_le_def f run_ok_def by blast
    have "run_of now (jq_Group req) ?b = r" for now using r(1) by (simp add: run_of_def get_run_def)
    then have "runs_le ?b (put_run (jq_Group req) (join_ring req (bd_joins b) r) ?b)" using runs_le_put le by metis
    moreover have "runs_le b ?b" by (rule runs_le_same) simp
    ultimately have "runs_le b (snd (ddpJoin_step req b))" unfolding eq by (rule runs_le_trans [rotated])
    then show ?thesis using False by (simp add: handleDDPJoin_def case_prod_beta)
  qed (use False in \<open>simp add: handleDDPJoin_def case_prod_beta\<close>)
qed (simp add: handleDDPJoin_def)

lemma run_of_some: "get_run g b = Some r \<Longrightarrow> run_of now g b = r"
  by (simp add: run_of_def)

lemma runs_le_put_quiet:
  "get_run g b = Some r \<Longrightarrow> rn_dropped r' = rn_dropped r \<Longrightarrow> rn_aborted r' = rn_aborted r \<Longrightarrow> rn_world r' = rn_world r \<Longrightarrow>
    rn_released r' = rn_released r \<Longrightarrow> runs_le b (put_run g r' b)"
  by (rule runs_le_put) (auto intro: run_le_quiet simp: run_of_some)

lemma runs_le_others:
  "runs_le b (snd (snapshot_put grp join body b))" "runs_le b (snapshot_done grp rank j b)"
  "runs_le b (snd (noteFor grp rank seq b))"
  by (auto simp: snapshot_put_def snapshot_done_def noteFor_def intro!: runs_le_put_quiet split: option.split)

lemma runs_le_holds: "runs_le b (snd (handoverHolds now grp key b))"
  by (rule runs_le_same) (simp add: handoverHolds_def Let_def split: option.split)

lemma runs_le_take_notes: "runs_le b (snd (take_notes req b))"
proof -
  have "runs_le b (snd (fold (\<lambda>c (f, b). case noteFor (rq_Group req) c (rq_Seq req) b of (None, b') \<Rightarrow> (f, b') | (Some g, b') \<Rightarrow> (Some g, b')) ks (f, b)))"
    for ks f
  proof (induction ks arbitrary: f b)
    case (Cons k ks)
    obtain n b' where n: "noteFor (rq_Group req) k (rq_Seq req) b = (n, b')" by fastforce
    have "runs_le b b'" using runs_le_others(3) [of b "rq_Group req" k "rq_Seq req"] by (simp add: n)
    then show ?case using Cons.IH [of b'] runs_le_trans by (cases n) (auto simp: n)
  qed simp
  then show ?thesis unfolding take_notes_def .
qed

lemma runs_le_collect: "runs_le b (snd (collect req a b))"
proof -
  have f: "runs_le b (fetch ks a b)" for ks by (rule runs_le_same) simp
  have g: "runs_le b (forget req b')" if "runs_le b b'" for b' by (rule runs_le_trans [OF that runs_le_same]) simp
  obtain frag b1 where t: "take_notes req (fetch (contributors req) a b) = (frag, b1)" by fastforce
  have 1: "runs_le b b1" using runs_le_trans [OF f runs_le_take_notes [of "fetch (contributors req) a b" req]] by (simp add: t)
  show ?thesis using f g [OF 1] 1 g [OF f]
    by (auto simp: collect_def Let_def t split: option.split)
qed

lemma runs_le_partial: "runs_le b (snd (completePartial now grp key rank b))"
proof -
  have 1: "runs_le b (close_done a (abortLocked now grp why (put_ent a e b)))" for a why e
    by (rule runs_le_calm, intro calm_close calm_trans [OF calm_put_ent [OF calm_refl] calm_abort])
  have 2: "runs_le b (close_done a (put_ent a e (finishLocked now grp a b)))" for a e
    by (rule runs_le_calm, intro calm_close calm_put_ent) simp
  have 3: "runs_le b (dropMissedStart now grp a (close_done a (put_ent a e (finishLocked now grp a b))))" for a e
    by (rule runs_le_trans [OF 2 runs_le_missed_start])
  show ?thesis
    by (auto simp: completePartial_def Let_def intro: 1 2 3 split: option.split)
qed

lemma runs_le_after_open: "runs_le b (after_open now req a b)"
proof -
  have e: "runs_le b (enter_round req a b)" by (rule runs_le_same) simp
  have 1: "runs_le b (if is_lead req then lead_update now req (enter_round req a b) else enter_round req a b)"
    using e runs_le_trans [OF e runs_le_lead_update] by simp
  have 2: "runs_le b (agree_every req a (if is_lead req then lead_update now req (enter_round req a b) else enter_round req a b))"
    by (rule runs_le_trans [OF 1 runs_le_same]) simp
  show ?thesis unfolding after_open_def Let_def
    by (rule runs_le_trans [OF 2 runs_le_fold]) (simp add: runs_le_calm)
qed

lemma open_round_runs: "open_round now mode req b = Inr (a, b0) \<Longrightarrow> bd_runs b0 = bd_runs b"
  by (auto simp: open_round_def Let_def split: option.splits if_splits sum.splits)

lemma runs_le_post: "runs_le b (snd (post now mode req blob b))"
proof (cases rule: post_cases [of now mode req blob b])
  case (2 a b0)
  then show ?thesis using runs_le_same [OF open_round_runs [OF 2(3)]] by simp
next
  case (3 a b0 complete b4)
  have "runs_le b b0" by (rule runs_le_same) (rule open_round_runs [OF 3(3)])
  moreover have "runs_le (after_open now req a b0) b4"
    using runs_le_calm [OF calm_deposit [of "after_open now req a b0" now req blob a]] by (simp add: 3(6))
  ultimately have "runs_le b b4" using runs_le_after_open runs_le_trans by blast
  moreover have "runs_le b4 (close_done a b4)" by (rule runs_le_same) simp
  ultimately show ?thesis using 3(7) runs_le_trans by auto
qed simp

text \<open>Every step but the sweep, which forgets old runs, keeps what a run has decided.\<close>

lemma ddp_step_runs:
  assumes "\<And>now maxAge. ev \<noteq> Sweep now maxAge"
  shows "runs_le b (ddp_step ev b)"
proof (cases ev)
  case (RankDown now grp rank world why)
  show ?thesis
  proof (cases "grp = [] \<or> world < 2 \<or> rank < 0 \<or> world \<le> rank")
    case False
    then have "runs_le b (fst (markRankDownLocked now grp rank world why b))" by (intro runs_le_mark_down) auto
    then show ?thesis using False by (simp add: RankDown handleDDPDown_def case_prod_beta)
  qed (simp add: RankDown handleDDPDown_def)
next
  case (Sweep now maxAge)
  then show ?thesis using assms by blast
qed (simp_all add: runs_le_post runs_le_partial runs_le_collect runs_le_holds runs_le_join runs_le_others)

definition board_runs_ok :: "ddpBoard \<Rightarrow> bool" where
  "board_runs_ok b \<longleftrightarrow> keys_distinct (bd_runs b) \<and> (\<forall>g r. get_run g b = Some r \<longrightarrow> run_ok r)"

lemma runs_leD:
  assumes "runs_le b b'"
  shows "get_run g b = Some r \<Longrightarrow> \<exists>r'. get_run g b' = Some r' \<and> run_le r r'"
    and "get_run g b = None \<Longrightarrow> get_run g b' = Some r' \<Longrightarrow> run_ok r'"
  using spec [OF conjunct2 [OF assms [unfolded runs_le_def]], of g] by simp_all

lemma runs_le_dropped:
  assumes "runs_le b b'"
  shows "set (dropped_in g b) \<subseteq> set (dropped_in g b')"
proof (cases "get_run g b")
  case (Some r)
  from runs_leD(1) [OF assms Some] obtain r' where "get_run g b' = Some r'" "run_le r r'" by blast
  then show ?thesis using Some by (simp add: dropped_in_def run_le_def)
qed (simp add: dropped_in_def)

lemma board_runs_step:
  assumes "board_runs_ok b" "runs_le b b'"
  shows "board_runs_ok b'"
proof -
  have "run_ok r'" if r': "get_run g b' = Some r'" for g r'
  proof (cases "get_run g b")
    case None
    then show ?thesis using runs_leD(2) [OF assms(2)] r' by blast
  next
    case (Some r)
    from runs_leD(1) [OF assms(2) Some] obtain r2 where "get_run g b' = Some r2" "run_le r r2" by blast
    moreover have "run_ok r" using assms(1) Some by (simp add: board_runs_ok_def)
    ultimately show ?thesis using r' by (simp add: run_le_def)
  qed
  then show ?thesis using assms by (simp add: board_runs_ok_def runs_le_def)
qed

lemma board_runs_sweep: "board_runs_ok b \<Longrightarrow> board_runs_ok (sweep now maxAge b)"
  by (auto simp: board_runs_ok_def sweep_def get_run_def keys_distinct_filter map_of_filter_table split: option.splits if_splits)

lemma board_runs_run: "board_runs_ok b \<Longrightarrow> board_runs_ok (fold ddp_step es b)"
proof (induction es arbitrary: b)
  case (Cons ev es)
  have "board_runs_ok (ddp_step ev b)"
  proof (cases "\<exists>now maxAge. ev = Sweep now maxAge")
    case True
    then show ?thesis using Cons.prems board_runs_sweep by auto
  next
    case False
    then show ?thesis using board_runs_step [OF Cons.prems ddp_step_runs] by blast
  qed
  then show ?case using Cons.IH by simp
qed simp

lemma board_runs_new: "board_runs_ok newDDPBoard"
  by (simp add: board_runs_ok_def newDDPBoard_def get_run_def)

subsection \<open>A round closes with everyone who is left\<close>

definition all_live_in :: "string \<Rightarrow> addr \<Rightarrow> ddpBoard \<Rightarrow> bool" where
  "all_live_in grp a b \<longleftrightarrow>
     (\<forall>k. 0 \<le> k \<and> k < en_world (ent b a) \<and> k \<notin> set (dropped_in grp b) \<longrightarrow> k \<in> set (en_seen (ent b a)))"

lemma enough_live:
  assumes "distinct seen" "\<forall>k \<in> set seen. 0 \<le> k \<and> k < w" "distinct d0" "\<forall>k \<in> set d0. 0 \<le> k" "set d0 \<subseteq> set d"
    and "max 1 (w - int (length (filter (\<lambda>k. k < w) d0))) \<le> int (length (filter (\<lambda>k. k \<notin> set d) seen))" "0 \<le> k" "k < w" "k \<notin> set d"
  shows "k \<in> set seen"
proof -
  let ?live = "{0..<w} - set d" and ?in = "set (filter (\<lambda>k. k \<notin> set d) seen)"
  have sub: "?in \<subseteq> ?live" using assms(2) by auto
  have "int (card ({0..<w} - set d0)) = w - int (length (filter (\<lambda>k. k < w) d0))"
  proof -
    have f: "set (filter (\<lambda>k. k < w) d0) \<subseteq> {0..<w}" using assms(4) by auto
    have "{0..<w} - set d0 = {0..<w} - set (filter (\<lambda>k. k < w) d0)" by auto
    then have "card ({0..<w} - set d0) = card {0..<w} - card (set (filter (\<lambda>k. k < w) d0))"
      using f by (simp add: card_Diff_subset)
    moreover have "card (set (filter (\<lambda>k. k < w) d0)) = length (filter (\<lambda>k. k < w) d0)"
      by (rule distinct_card) (rule distinct_filter [OF assms(3)])
    moreover have "card (set (filter (\<lambda>k. k < w) d0)) \<le> card {0..<w}" using f by (intro card_mono) auto
    ultimately show ?thesis using assms(7,8) by simp
  qed
  moreover have "card ?live \<le> card ({0..<w} - set d0)" using assms(5) by (intro card_mono) auto
  moreover have "card ?in = length (filter (\<lambda>k. k \<notin> set d) seen)"
    by (rule distinct_card) (rule distinct_filter [OF assms(1)])
  ultimately have "card ?live \<le> card ?in" using assms(6) by linarith
  then have "?in = ?live" using card_seteq [OF _ sub] by simp
  moreover have "k \<in> ?live" using assms(7-9) by simp
  ultimately have "k \<in> ?in" by blast
  then show ?thesis by simp
qed

text \<open>The operations leave every other round alone.\<close>

lemma finish_other: "a' \<noteq> a \<Longrightarrow> ent (finishLocked now grp a b) a' = ent b a'"
proof (cases rule: finish_cases [of b a now grp])
  case (2 ac err b1)
  then show "a' \<noteq> a \<Longrightarrow> ?thesis" by auto
next
  case (3 ac res out left b1)
  then show "a' \<noteq> a \<Longrightarrow> ?thesis" by auto
qed simp

lemma close_fields [simp]:
  "a' \<noteq> a \<Longrightarrow> ent (close_done a b) a' = ent b a'" "en_result (ent (close_done a b) a') = en_result (ent b a')"
  "en_seen (ent (close_done a b) a') = en_seen (ent b a')" "en_world (ent (close_done a b) a') = en_world (ent b a')"
  by (cases "a < length (bd_store b)"; cases "a' = a"; simp add: close_done_def put_ent_outside)+

lemma dropped_fields [simp]:
  "dropped_in g (close_done a b) = dropped_in g b" "dropped_in g (put_ent a e b) = dropped_in g b"
  by (simp_all add: dropped_in_def get_run_def)

lemma finish_keeps:
  "en_seen (ent (finishLocked now grp a b) a') = en_seen (ent b a') \<and> en_world (ent (finishLocked now grp a b) a') = en_world (ent b a')"
proof (cases "a' = a \<and> a < length (bd_store b)")
  case True
  show ?thesis
  proof (cases rule: finish_cases [of b a now grp])
    case (2 ac err b1)
    then show ?thesis using True by (auto simp: 2(3))
  next
    case (3 ac res out left b1)
    then show ?thesis using True by (auto simp: 3(4))
  qed simp
next
  case False
  show ?thesis
  proof (cases rule: finish_cases [of b a now grp])
    case (2 ac err b1)
    then show ?thesis using False by (cases "a' = a") (auto simp: 2(3) put_ent_outside)
  next
    case (3 ac res out left b1)
    then show ?thesis using False by (cases "a' = a") (auto simp: 3(4) put_ent_outside)
  qed simp
qed

lemma dropsBelow_dropped: "dropsBelow grp w b = int (length (filter (\<lambda>k. k < w) (dropped_in grp b)))"
  by (simp add: dropsBelow_def dropped_in_def dropsIn_def split: option.split)

lemma dropped_ok: "board_runs_ok b \<Longrightarrow> distinct (dropped_in g b) \<and> (\<forall>k \<in> set (dropped_in g b). 0 \<le> k)"
  by (auto simp: board_runs_ok_def dropped_in_def run_ok_def split: option.split)

lemma live_if_expected:
  assumes "entry_ok P (ent b a)" "board_runs_ok b0" "set (dropped_in grp b0) \<subseteq> set (dropped_in grp b)"
    and "max 1 (en_world (ent b a) - dropsBelow grp (en_world (ent b a)) b0) \<le> liveIn b grp (en_seen (ent b a))"
  shows "all_live_in grp a b"
  unfolding all_live_in_def
proof (intro allI impI)
  fix k assume "0 \<le> k \<and> k < en_world (ent b a) \<and> k \<notin> set (dropped_in grp b)"
  then show "k \<in> set (en_seen (ent b a))"
    using enough_live [of "en_seen (ent b a)" "en_world (ent b a)" "dropped_in grp b0" "dropped_in grp b" k]
      assms dropped_ok [OF assms(2), of grp]
    by (simp add: entry_ok_def dropsBelow_dropped liveIn_def)
qed

text \<open>A rank marked down: a round that closes through it has every rank left.\<close>

lemma all_live_same:
  "en_world (ent b' a) = en_world (ent b a) \<Longrightarrow> en_seen (ent b' a) = en_seen (ent b a) \<Longrightarrow>
    dropped_in grp b' = dropped_in grp b \<Longrightarrow> all_live_in grp a b' = all_live_in grp a b"
  by (simp add: all_live_in_def)

lemma settle_open_closes:
  assumes "board_runs_ok b" "entry_ok P (ent b a)" "a < length (bd_store b)" "en_result (ent b a) = None"
    "en_result (ent (settle_open now grp ka b) a) \<noteq> None"
  shows "all_live_in grp a (settle_open now grp ka b)"
proof (cases rule: settle_open_cases [of now grp ka b])
  case (2 a1)
  then show ?thesis using assms(3-5) by (cases "a = a1") auto
next
  case (3 a1 b1 e)
  have "en_result (ent (put_ent a1 e b1) a) = None"
    using 3(2) assms(3,4) by (cases "a = a1") (auto simp: 3(1) same_core_def same_answer_def)
  then show ?thesis using assms(5) 3(4) by simp
next
  case (4 a1 b1 b2 e)
  have len: "length (bd_store b2) = length (bd_store b)"
    using bev_finish [of b1 a1 "\<lambda>_. {}" now grp] 4(1,2,4) assms(3)
    by (cases "a1 < length (bd_store b)") (auto simp: bev_def notDone_def put_ent_outside)
  show ?thesis
  proof (cases "a = a1")
    case False
    then have "en_result (ent (put_ent a1 e b2) a) = None" using assms(4) by (simp add: 4(1,4) finish_other)
    then show ?thesis using assms(5) 4(6) by simp
  next
    case True
    have "en_seen (ent b2 a) = en_seen (ent b a)" "en_world (ent b2 a) = en_world (ent b a)"
      using finish_keeps [of now grp a1 b1 a] assms(3) True by (simp_all add: 4(1,4))
    then have k: "en_seen (ent (settle_open now grp ka b) a) = en_seen (ent b a)"
        "en_world (ent (settle_open now grp ka b) a) = en_world (ent b a)"
      using 4(5,6) True assms(3) len by (simp_all add: same_core_def same_answer_def)
    have "all_live_in grp a b"
      by (rule live_if_expected [OF assms(2,1)]) (use 4(3) True in \<open>simp_all add: now_expected_def\<close>)
    moreover have "dropped_in grp (settle_open now grp ka b) = dropped_in grp b"
      using calm_settle_open [of b now grp ka] by (simp add: calm_def)
    ultimately show ?thesis using all_live_same k by blast
  qed
qed (use assms in simp)

lemma settle_open_keeps:
  assumes "entry_ok P (ent b a)" "a < length (bd_store b)" "en_result (ent b a) \<noteq> None"
  shows "en_seen (ent (settle_open now grp ka b) a) = en_seen (ent b a)
    \<and> en_world (ent (settle_open now grp ka b) a) = en_world (ent b a) \<and> en_result (ent (settle_open now grp ka b) a) \<noteq> None"
  using bev_settle_open [of "\<lambda>_. P" b now grp ka] assms by (auto simp: bev_def same_answer_def notDone_def)

lemma settle_fold_closes:
  assumes "board_runs_ok b" "entry_ok P (ent b a)" "a < length (bd_store b)" "en_result (ent b a) \<noteq> None \<longrightarrow> all_live_in grp a b"
    "en_result (ent (fold (settle_open now grp) kas b) a) \<noteq> None"
  shows "all_live_in grp a (fold (settle_open now grp) kas b)"
  using assms
proof (induction kas arbitrary: b)
  case (Cons ka kas)
  let ?b = "settle_open now grp ka b"
  have bev: "bev (\<lambda>_. P) b ?b" by simp
  have c: "calm b ?b" by simp
  have ok: "entry_ok P (ent ?b a)" "a < length (bd_store ?b)" using bev Cons.prems(2,3) by (auto simp: bev_def)
  have "en_result (ent ?b a) \<noteq> None \<longrightarrow> all_live_in grp a ?b"
  proof (cases "en_result (ent b a) = None")
    case True
    then show ?thesis using settle_open_closes [OF Cons.prems(1-3)] by blast
  next
    case False
    then have "all_live_in grp a b" using Cons.prems(4) by blast
    moreover have "dropped_in grp ?b = dropped_in grp b" using c by (simp add: calm_def)
    ultimately show ?thesis using all_live_same settle_open_keeps [OF Cons.prems(2,3) False, of now grp ka] by blast
  qed
  then show ?case
    using Cons.IH [OF board_runs_step [OF Cons.prems(1) runs_le_calm [OF c]] ok] Cons.prems(5) by simp
qed simp

lemma down_closes:
  assumes "board_runs_ok b" "entry_ok P (ent b a)" "a < length (bd_store b)" "en_result (ent b a) = None"
    "0 \<le> rank" "0 \<le> world" "en_result (ent (fst (markRankDownLocked now grp rank world why b)) a) \<noteq> None"
  shows "all_live_in grp a (fst (markRankDownLocked now grp rank world why b))"
proof -
  have p: "en_result (ent (put_run grp r b) a) = None" for r using assms(4) by simp
  obtain r where eq: "fst (markRankDownLocked now grp rank world why b) = settle_all now grp (put_run grp r b)"
      and le: "run_le (run_of now grp b) r"
  proof -
    define r0 where "r0 = (let r0 = run_of now grp b in if rn_world r0 = 0 then r0\<lparr>rn_world := world\<rparr> else r0)"
    have 0: "run_le (run_of now grp b) r0" using assms(6) by (simp add: r0_def Let_def run_le_def run_ok_def)
    define r1 where "r1 = leave_join rank (drop_rank rank r0)"
    have 1: "run_le (run_of now grp b) (publish seq n r1)" for seq n
      unfolding r1_def
      using run_le_trans [OF run_le_trans [OF run_le_trans [OF 0 run_le_drop_rank [OF assms(5)]] run_le_leave_join] publish_le] .
    have "fst (markRankDownLocked now grp rank world why b) = (if rn_world r0 \<le> rank
       then put_run grp (r0\<lparr>rn_dropped := List.insert rank (rn_dropped r0)\<rparr>) b
       else if rank \<in> set (rn_dropped r0) then put_run grp r0 b
       else settle_all now grp (put_run grp (publish (rn_lastSeq r1 + 1)
          (NoteDown (ringFragment r1) rank (if why = [] then ''its job ended'' else why)
             (rn_world r0 - dropsIn r0 (rn_world r0) - 1)) r1) b))"
      by (simp add: markRankDownLocked_def Let_def r0_def r1_def)
    then show thesis using that [OF _ 1] assms(4,7) by (auto split: if_splits)
  qed
  let ?b = "put_run grp r b"
  have "board_runs_ok ?b" by (rule board_runs_step [OF assms(1) runs_le_put [OF le]])
  moreover have "entry_ok P (ent ?b a)" "a < length (bd_store ?b)" using assms(2,3) by simp_all
  ultimately show ?thesis
    unfolding eq settle_all_def
    by (rule settle_fold_closes) (use p assms(7) in \<open>simp_all add: eq settle_all_def\<close>)
qed

text \<open>A post: what the steps before the deposit leave of a round.\<close>

lemma lead_update_ent: "ent (lead_update now req b) a = ent b a"
proof -
  let ?g = "rq_Group req" and ?r = "lead_run req (run_of now (rq_Group req) b)"
  let ?b0 = "put_run ?g (?r\<lparr>rn_lastSeq := rq_Seq req, rn_seen := now\<rparr>) b"
  obtain frag b1 where f: "rebalanceFor ?g (rn_world ?r) ?b0 = (frag, b1)" by fastforce
  have "ent (snd (rebalanceFor g w c)) a = ent c a" for g w c
    by (simp add: rebalanceFor_def split: option.split prod.split)
  from this [of ?g "rn_world ?r" ?b0] have "ent b1 a = ent b a" by (simp add: f)
  then show ?thesis using f by (simp add: lead_update_def Let_def split: option.split)
qed

lemma note_report_ent:
  "ent (note_report now req a m b) a' = ent b a' \<or> a' = a \<and> (\<exists>v. ent (note_report now req a m b) a' = (ent b a)\<lparr>en_stepMillis := v\<rparr>)"
proof -
  have obs: "ent (observe_rank now g k rep b) a' = ent b a'" for g k rep b by (simp add: observe_rank_def Let_def)
  show ?thesis
  proof (cases "\<not> is_lead req \<or> mb_StepMillis m \<le> 0 \<or> mb_Samples m < 0")
    case False
    let ?e = "(ent b a)\<lparr>en_stepMillis := AList.update (mb_Rank m) (mb_StepMillis m) (en_stepMillis (ent b a))\<rparr>"
    have "ent (note_report now req a m b) a' = ent (put_ent a ?e b) a'"
      unfolding note_report_def if_not_P [OF False] by (rule obs)
    moreover have "ent (put_ent a ?e b) a' = ent b a' \<or> a' = a \<and> ent (put_ent a ?e b) a' = ?e"
      by (cases "a' = a"; cases "a < length (bd_store b)") (simp_all add: put_ent_outside)
    ultimately show ?thesis by metis
  qed (simp add: note_report_def)
qed

definition same_round :: "ddpEntry \<Rightarrow> ddpEntry \<Rightarrow> bool" where
  "same_round e e' \<longleftrightarrow> same_core e e' \<and> en_expected e' = en_expected e"

lemma note_reports_round: "same_round (ent b a') (ent (fold (note_report now req a) ms b) a')"
proof (induction ms arbitrary: b)
  case (Cons m ms)
  have "same_round (ent b a') (ent (note_report now req a m b) a')"
    using note_report_ent [of now req a m b a'] by (auto simp: same_round_def same_core_def same_answer_def)
  with Cons [of "note_report now req a m b"] show ?case
    by (auto simp: same_round_def same_core_def intro: same_answer_trans)
qed (simp add: same_round_def same_core_def same_answer_def)

lemma after_open_round:
  assumes "a' < length (bd_store b)"
  shows "same_core (ent b a') (ent (after_open now req a b) a')"
    and "a' = a \<Longrightarrow> en_expected (ent (after_open now req a b) a) = now_expected (rq_Group req) a b"
proof -
  let ?b1 = "enter_round req a b" and ?b2 = "if is_lead req then lead_update now req (enter_round req a b) else enter_round req a b"
  have 1: "ent ?b2 a' = ent ?b1 a'" by (simp add: lead_update_ent)
  have len: "length (bd_store ?b2) = length (bd_store b)"
    using bev_lead_update [of "\<lambda>_. {}" ?b1 now req] bev_enter [of "\<lambda>_. {}" b req a] by (simp add: bev_def)
  have 2: "same_core (ent b a') (ent (agree_every req a ?b2) a') \<and> (a' = a \<longrightarrow> en_expected (ent (agree_every req a ?b2) a) = now_expected (rq_Group req) a b)"
    using assms len 1
    by (cases "a' = a") (auto simp: agree_every_def enter_round_def same_core_def same_answer_def now_expected_def)
  have "same_round (ent (agree_every req a ?b2) a') (ent (after_open now req a b) a')"
    unfolding after_open_def Let_def by (rule note_reports_round)
  then show "same_core (ent b a') (ent (after_open now req a b) a')"
    and "a' = a \<Longrightarrow> en_expected (ent (after_open now req a b) a) = now_expected (rq_Group req) a b"
    using 2 by (auto simp: same_round_def same_core_def intro: same_answer_trans)
qed

lemma abort_ent [simp]: "ent (abortLocked now grp why b) a = ent b a"
  by (simp add: abortLocked_def Let_def)

lemma deposit_closes:
  assumes "a' < length (bd_store b)" "en_result (ent b a') = None" "en_result (ent (snd (deposit now req blob a b)) a') \<noteq> None"
  shows "a' = a \<and> expectedCount (ent b a) \<le> liveIn b (rq_Group req) (en_seen (ent (snd (deposit now req blob a b)) a))"
proof (cases "notDone (ent b a)")
  case nd: True
  show ?thesis
  proof (cases "en_acc (ent b a)")
    case None
    then show ?thesis using nd assms by (cases "a' = a") (auto simp: deposit_def notDone_def Let_def)
  next
    case (Some ac)
    define e1 where "e1 = fold_contribution req blob ac (check_kind req (check_manifest req (ent b a)))"
    define b1 where "b1 = put_ent a e1 b"
    define complete where "complete \<longleftrightarrow> en_err e1 \<noteq> None \<or> expectedCount e1 \<le> liveIn b1 (rq_Group req) (en_seen e1)"
    define b2 where "b2 = (if complete \<and> en_err e1 = None then finishLocked now (rq_Group req) a b1 else b1)"
    have eq: "deposit now req blob a b = (complete, case en_err (ent b2 a) of Some why \<Rightarrow> abortLocked now (rq_Group req) why b2 | None \<Rightarrow> b2)"
      using nd by (simp only: deposit_def Let_def notDone_def Some option.case e1_def b1_def complete_def b2_def
          simp_thms if_False)
    have r: "ent (snd (deposit now req blob a b)) x = ent b2 x" for x
      unfolding eq by (simp split: option.split)
    have a: "a' = a"
    proof (rule ccontr)
      assume "a' \<noteq> a"
      then have "ent b2 a' = ent b a'" by (simp add: b2_def b1_def finish_other)
      then show False using assms(2,3) r by simp
    qed
    have e: "en_result e1 = None" using assms(2) a by (simp add: e1_def)
    have c: "complete \<and> en_err e1 = None"
      using assms(1,3) r e a by (auto simp: b2_def b1_def split: if_splits)
    have "en_seen (ent b2 a) = en_seen e1" using finish_keeps [of now "rq_Group req" a b1 a] assms(1) a c by (simp add: b2_def b1_def)
    moreover have "expectedCount e1 = expectedCount (ent b a)" by (simp add: e1_def expectedCount_def)
    moreover have "expectedCount e1 \<le> liveIn b (rq_Group req) (en_seen e1)"
      using c by (auto simp: complete_def b1_def)
    ultimately show ?thesis using a r by simp
  qed
qed (use assms in \<open>simp add: deposit_def notDone_def\<close>)

lemma post_closes:
  assumes "board_runs_ok b" "rounds_ok es key_of b" "Post now mode req blob \<in> set es"
    and "a < length (bd_store (snd (post now mode req blob b)))" "a < length (bd_store b) \<Longrightarrow> en_result (ent b a) = None"
    and "en_result (ent (snd (post now mode req blob b)) a) \<noteq> None"
  shows "all_live_in (rq_Group req) a (snd (post now mode req blob b))"
proof (cases rule: post_cases [of now mode req blob b])
  case 1
  then show ?thesis using assms(4-6) by simp
next
  case (2 a1 b0)
  from open_round_ok [OF assms(2) 2(3) check_request_ranges(1) [OF 2(1,2)]] have
    "\<And>i. i < length (bd_store b) \<Longrightarrow> ent b0 i = ent b i"
    "\<And>i. i < length (bd_store b0) \<Longrightarrow> \<not> i < length (bd_store b) \<Longrightarrow> en_result (ent b0 i) = None" by metis+
  then have "en_result (ent b0 a) = None" using assms(4,5) 2(5) by (cases "a < length (bd_store b)") auto
  then show ?thesis using 2(5) assms(6) by simp
next
  case (3 a1 b0 complete b4)
  let ?g = "rq_Group req" and ?b3 = "after_open now req a1 b0" and ?b' = "snd (post now mode req blob b)"
  from open_round_ok [OF assms(2) 3(3) check_request_ranges(1) [OF 3(1,2)]] obtain k' where
    k: "rounds_ok es k' b0" "a1 < length (bd_store b0)" "k' a1 = entry_key req"
    "\<And>i. i < length (bd_store b) \<Longrightarrow> ent b0 i = ent b i" "bd_runs b0 = bd_runs b"
    "\<And>i. i < length (bd_store b0) \<Longrightarrow> \<not> i < length (bd_store b) \<Longrightarrow> en_result (ent b0 i) = None" by metis
  let ?P = "\<lambda>a. posts_at es (k' a)"
  have bev3: "bev ?P b0 ?b3" by simp
  have ok3: "rounds_ok es k' ?b3" by (rule rounds_ok_bev [OF k(1) bev3])
  have w: "en_world (ent ?b3 a1) = rq_World req"
    using after_open_round(1) [OF k(2), of now req a1] 3(4) by (simp add: same_core_def)
  have "contribution_of req blob \<in> ?P a1" using assms(3) by (auto simp: k(3) posts_at_def)
  then have bev4: "bev ?P ?b3 b4"
    using bev_deposit [of req blob ?P a1 ?b3 now] check_request_ranges(2) [OF 3(1,2)] 3(6) w by simp
  have len: "length (bd_store b4) = length (bd_store b0)" "length (bd_store ?b3) = length (bd_store b0)"
    using bev3 bev4 by (simp_all add: bev_def)
  have post: "ent ?b' x = ent b4 x \<or> x = a1" "en_result (ent ?b' x) = en_result (ent b4 x)"
      "en_seen (ent ?b' x) = en_seen (ent b4 x)" "en_world (ent ?b' x) = en_world (ent b4 x)"
      "dropped_in g ?b' = dropped_in g b4" "length (bd_store ?b') = length (bd_store b4)" for x g
    using 3(7) by (auto simp: close_done_def [of a1 b4, THEN arg_cong, of "\<lambda>b. length (bd_store b)"])
  have a: "a < length (bd_store b0)" using assms(4) post(6) len by simp
  have "en_result (ent b0 a) = None" using k(4,6) assms(5) a by (cases "a < length (bd_store b)") auto
  then have r3: "en_result (ent ?b3 a) = None"
    using after_open_round(1) [OF a, of now req a1] by (simp add: same_core_def same_answer_def)
  have "en_result (ent b4 a) \<noteq> None" using assms(6) post(2) by simp
  with deposit_closes [OF _ r3, of now req blob a1] 3(6) a len have
    aa: "a = a1" and ex: "expectedCount (ent ?b3 a1) \<le> liveIn ?b3 ?g (en_seen (ent b4 a1))" by simp_all
  have calm: "calm ?b3 b4" using calm_deposit [of ?b3 now req blob a1] by (simp add: 3(6))
  have runs0: "board_runs_ok b0" using assms(1) k(5) by (simp add: board_runs_ok_def get_run_def)
  have e3: "en_expected (ent ?b3 a1) = now_expected ?g a1 b0" by (rule after_open_round(2) [OF k(2) refl])
  have ok4: "entry_ok (?P a1) (ent b4 a1)" "en_world (ent b4 a1) = en_world (ent ?b3 a1)"
    using bev4 ok3 k(2) len by (auto simp: bev_def rounds_ok_def)
  have wpos: "1 \<le> rq_World req" by (rule check_request_ranges(1) [OF 3(1,2)])
  have "0 \<le> dropsBelow ?g (rq_World req) b0" by (simp add: dropsBelow_dropped)
  then have "expectedCount (ent ?b3 a1) = max 1 (en_world (ent b4 a1) - dropsBelow ?g (en_world (ent b4 a1)) b0)"
    using e3 w wpos ok4(2) 3(4) by (simp add: expectedCount_def now_expected_def max_def)
  then have "max 1 (en_world (ent b4 a1) - dropsBelow ?g (en_world (ent b4 a1)) b0) \<le> liveIn b4 ?g (en_seen (ent b4 a1))"
    using ex calm by (simp add: calm_def liveIn_def)
  moreover have "set (dropped_in ?g b0) \<subseteq> set (dropped_in ?g b4)"
  proof -
    have "runs_le b0 ?b3" by (rule runs_le_after_open)
    then have "set (dropped_in ?g b0) \<subseteq> set (dropped_in ?g ?b3)"
      by (rule runs_le_dropped)
    then show ?thesis using calm by (simp add: calm_def)
  qed
  ultimately have "all_live_in ?g a1 b4" by (intro live_if_expected [OF ok4(1) runs0])
  then show ?thesis using post(3-5) aa by (simp add: all_live_in_def)
qed

text \<open>The steps that make no answer.\<close>

lemma fetch_result [simp]: "en_result (ent (fetch ks a b) x) = en_result (ent b x)"
  by (cases "a < length (bd_store b)"; cases "x = a") (simp_all add: fetch_def put_ent_outside)

lemma forget_ent [simp]: "ent (forget req b) x = ent b x"
  by (simp add: forget_def ent_def)

lemma take_notes_ent: "ent (snd (take_notes req b)) x = ent b x"
proof -
  have n: "ent (snd (noteFor g k q b)) x = ent b x" for g k q b by (simp add: noteFor_def split: option.split)
  have "ent (snd (fold (\<lambda>c (f, b). case noteFor (rq_Group req) c (rq_Seq req) b of (None, b') \<Rightarrow> (f, b') | (Some g, b') \<Rightarrow> (Some g, b')) ks (f, b))) x = ent b x"
    for ks f
  proof (induction ks arbitrary: f b)
    case (Cons k ks)
    obtain m b' where m: "noteFor (rq_Group req) k (rq_Seq req) b = (m, b')" by fastforce
    have "ent b' x = ent b x" using n [of "rq_Group req" k "rq_Seq req" b] by (simp add: m)
    then show ?case by (cases m) (simp_all add: m Cons.IH)
  qed simp
  then show ?thesis unfolding take_notes_def .
qed

lemma collect_result: "en_result (ent (snd (collect req a b)) x) = en_result (ent b x)"
proof -
  obtain frag b1 where t: "take_notes req (fetch (contributors req) a b) = (frag, b1)" by fastforce
  have "en_result (ent b1 x) = en_result (ent b x)"
    using take_notes_ent [of req "fetch (contributors req) a b" x] by (simp add: t)
  then show ?thesis by (simp add: collect_def Let_def t split: option.split)
qed

lemma holds_result: "en_result (ent (snd (handoverHolds now grp key b)) x) = en_result (ent b x)"
proof -
  have "en_result (ent (put_ent a ((ent b a)\<lparr>en_held := True, en_holdExpired := True\<rparr>) b) x) = en_result (ent b x)"
    "en_result (ent (put_ent a ((ent b a)\<lparr>en_held := True\<rparr>) b) x) = en_result (ent b x)" for a
    by (cases "a < length (bd_store b)"; cases "x = a"; simp add: put_ent_outside)+
  then show ?thesis by (simp add: handoverHolds_def Let_def split: option.split)
qed

lemma join_ent: "ent (snd (handleDDPJoin req b)) x = ent b x"
proof -
  have "ent (put_run g r (b\<lparr>bd_joins := n\<rparr>)) x = ent b x" for g r n by (simp add: ent_def put_run_def)
  then have "ent (snd (ddpJoin_step req b)) x = ent b x"
    by (simp add: ddpJoin_step_def split: option.split)
  then show ?thesis by (simp add: handleDDPJoin_def case_prod_beta)
qed

lemma snapshot_ents:
  "ent (snd (snapshot_put grp join body b)) x = ent b x" "ent (snapshot_done grp rank j b) x = ent b x"
  by (simp_all add: snapshot_put_def snapshot_done_def split: option.split)

fun event_group :: "ddp_event \<Rightarrow> string" where
  "event_group (Post now mode req blob) = rq_Group req"
| "event_group (RankDown now grp rank world why) = grp"
| "event_group _ = []"

text \<open>C6: A round that gets its answer from a post or from the news that a rank is gone, and not from its
  deadline, has the contribution of every rank of the ring that is not dropped; no other step makes an answer.\<close>

theorem round_closes_with_all_left:
  assumes "b = fold ddp_step es newDDPBoard" "\<And>now grp key rank. ev \<noteq> Deadline now grp key rank"
    and "a < length (bd_store (ddp_step ev b))" "a < length (bd_store b) \<Longrightarrow> en_result (ent b a) = None"
    and "en_result (ent (ddp_step ev b) a) = Some r"
  shows "((\<exists>now mode req blob. ev = Post now mode req blob) \<or> (\<exists>now grp rank world why. ev = RankDown now grp rank world why))
    \<and> (\<forall>k. 0 \<le> k \<and> k < en_world (ent (ddp_step ev b) a) \<and> k \<notin> set (dropped_in (event_group ev) (ddp_step ev b))
          \<longrightarrow> k \<in> set (en_seen (ent (ddp_step ev b) a)))"
proof -
  have runs: "board_runs_ok b" using board_runs_run [OF board_runs_new] assms(1) by simp
  obtain key_of where ok: "rounds_ok (es @ [ev]) key_of b"
    using ddp_run_ok [OF rounds_ok_new, of es "es @ [ev]"] assms(1) by auto
  have new: "(\<exists>now mode req blob. ev = Post now mode req blob) \<or> a < length (bd_store b)"
  proof (cases "\<exists>now mode req blob. ev = Post now mode req blob")
    case False
    then have "bev (\<lambda>_. {}) b (ddp_step ev b)" by (cases ev) auto
    then show ?thesis using assms(3) by (simp add: bev_def)
  qed simp
  have which: "(\<exists>now mode req blob. ev = Post now mode req blob) \<or> (\<exists>now grp rank world why. ev = RankDown now grp rank world why)"
  proof (rule ccontr)
    assume n: "\<not> ?thesis"
    have "en_result (ent (ddp_step ev b) a) = en_result (ent b a)"
    proof (cases ev)
      case (Deadline now grp key rank)
      then show ?thesis using assms(2) by blast
    next
      case (Sweep now maxAge)
      then show ?thesis by (simp add: sweep_def ent_def)
    qed (use n in \<open>simp_all add: collect_result holds_result join_ent snapshot_ents\<close>)
    then show False using n new assms(4,5) by simp
  qed
  have "all_live_in (event_group ev) a (ddp_step ev b)"
    using which
  proof (elim disjE exE)
    fix now mode req blob assume ev: "ev = Post now mode req blob"
    show ?thesis
      using post_closes [OF runs ok, of now mode req blob a] assms(3-5) by (simp add: ev)
  next
    fix now grp rank world why assume ev: "ev = RankDown now grp rank world why"
    have len: "a < length (bd_store b)" using new by (simp add: ev)
    then have e: "entry_ok (posts_at (es @ [ev]) (key_of a)) (ent b a)" "en_result (ent b a) = None"
      using ok assms(4) by (simp_all add: rounds_ok_def)
    have q: "grp \<noteq> [] \<and> 2 \<le> world \<and> 0 \<le> rank \<and> rank < world"
      using assms(5) e(2) by (auto simp: ev handleDDPDown_def split: if_splits)
    then have s: "ddp_step ev b = fst (markRankDownLocked now grp rank world why b)"
      by (simp add: ev handleDDPDown_def case_prod_beta)
    show ?thesis unfolding s using q assms(5) down_closes [OF runs e(1) len e(2), of rank world now grp why]
      by (simp add: s [symmetric]) (simp add: s ev)
  qed
  with which show ?thesis by (simp add: all_live_in_def)
qed

theorem round_closes_with_all_left_witness:
  "1 \<in> set (en_seen (ent (ddp_step (grad_post 1 20) (fold ddp_step [grad_post 0 10] newDDPBoard)) 0))"
proof -
  have e: "grad_post 1 20 \<noteq> Deadline now grp key rank" for now grp key rank by (simp add: grad_post_def)
  have 1: "0 < length (bd_store (ddp_step (grad_post 1 20) (fold ddp_step [grad_post 0 10] newDDPBoard)))" by code_simp
  have 2: "en_result (ent (fold ddp_step [grad_post 0 10] newDDPBoard) 0) = None" by code_simp
  have 3: "en_result (ent (ddp_step (grad_post 1 20) (fold ddp_step [grad_post 0 10] newDDPBoard)) 0) = Some (Int8Mean [127] [15 / 127])"
    by code_simp
  have 4: "1 < en_world (ent (ddp_step (grad_post 1 20) (fold ddp_step [grad_post 0 10] newDDPBoard)) 0)" by code_simp
  have 5: "dropped_in (event_group (grad_post 1 20)) (ddp_step (grad_post 1 20) (fold ddp_step [grad_post 0 10] newDDPBoard)) = []"
    by code_simp
  show ?thesis
    using round_closes_with_all_left [OF refl e 1 2 3] 4 by (simp add: 5 del: fold.simps)
qed

subsection \<open>A failed round ends the ring\<close>

definition aborted_in :: "string \<Rightarrow> ddpBoard \<Rightarrow> ddp_fail option" where
  "aborted_in g b = (case get_run g b of None \<Rightarrow> None | Some r \<Rightarrow> rn_aborted r)"

lemma aborted_run_of: "rn_aborted (run_of now g b) = aborted_in g b"
  by (simp add: run_of_def aborted_in_def new_run_def split: option.split)

lemma aborted_put [simp]: "aborted_in g (put_run g r b) = rn_aborted r"
  by (simp add: aborted_in_def)

lemma aborted_ent [simp]:
  "aborted_in g (put_ent a e b) = aborted_in g b" "aborted_in g (close_done a b) = aborted_in g b"
  "aborted_in g (enter_round req a b) = aborted_in g b" "aborted_in g (agree_every req a b) = aborted_in g b"
  by (simp_all add: aborted_in_def get_run_def)

lemma aborted_solo: "rn_aborted (snd (soloFor r world)) = rn_aborted r"
proof -
  obtain keep solo split where p: "planSolo (rn_reports r) (world - dropsIn r world) (rn_syncEvery r) = (keep, solo, split)"
    by (cases "planSolo (rn_reports r) (world - dropsIn r world) (rn_syncEvery r)") auto
  obtain fast ok where f: "(if rn_autoSync r \<and> \<not> rn_diloco r then planDiLoCo (rn_reports r) (world - dropsIn r world)
      (if rn_fixed r then maxFloat64 else solo) split else (0, False)) = (fast, ok)" by fastforce
  show ?thesis by (auto simp: soloFor_def Let_def p f)
qed

lemma aborted_rebalance_run: "rn_aborted (snd (rebalance_run r world)) = rn_aborted r"
proof -
  define r0 where "r0 = r\<lparr>rn_round := rn_round r + 1\<rparr>"
  obtain frag r1 where s: "soloFor r0 world = (frag, r1)" by fastforce
  have 1: "rn_aborted r0 = rn_aborted r" "rn_aborted r1 = rn_aborted r"
    using aborted_solo [of r0 world] unfolding s by (simp_all add: r0_def)
  show ?thesis
    unfolding rebalance_run_def Let_def r0_def [symmetric] s prod.case using 1 by (auto split: option.split)
qed

lemma aborted_rebalance [simp]: "aborted_in g (snd (rebalanceFor g world b)) = aborted_in g b"
proof (cases "get_run g b")
  case (Some r)
  obtain frag r1 where r: "rebalance_run r world = (frag, r1)" by fastforce
  then show ?thesis using aborted_rebalance_run [of r world]
    by (simp add: rebalanceFor_def Some) (simp add: aborted_in_def Some)
qed (simp add: rebalanceFor_def)

lemma aborted_lead_update: "aborted_in (rq_Group req) (lead_update now req b) = aborted_in (rq_Group req) b"
proof -
  let ?g = "rq_Group req" and ?r = "lead_run req (run_of now (rq_Group req) b)"
  let ?b0 = "put_run ?g (?r\<lparr>rn_lastSeq := rq_Seq req, rn_seen := now\<rparr>) b"
  have r: "rn_aborted ?r = aborted_in ?g b" by (simp add: lead_run_def aborted_run_of)
  obtain frag b1 where f: "rebalanceFor ?g (rn_world ?r) ?b0 = (frag, b1)" by fastforce
  have b1: "aborted_in ?g b1 = aborted_in ?g b"
    using aborted_rebalance [of ?g "rn_world ?r" ?b0] r unfolding f by simp
  then show ?thesis using f r
    by (simp add: lead_update_def Let_def publish_def aborted_run_of split: option.split)
qed

lemma aborted_note_report: "aborted_in (rq_Group req) (note_report now req a m b) = aborted_in (rq_Group req) b"
  by (simp add: note_report_def observe_rank_def Let_def aborted_run_of)

lemma aborted_after_open: "aborted_in (rq_Group req) (after_open now req a b) = aborted_in (rq_Group req) b"
proof -
  have "aborted_in (rq_Group req) (fold (note_report now req a) ms b) = aborted_in (rq_Group req) b" for ms b
    by (induction ms arbitrary: b) (simp_all add: aborted_note_report)
  then show ?thesis by (simp add: after_open_def Let_def aborted_lead_update)
qed

lemma aborted_finish: "aborted_in g (finishLocked now g a b) = aborted_in g b"
proof (cases rule: finish_cases [of b a now g])
  case (2 ac err b1)
  then show ?thesis by (auto simp: 2(3) aborted_run_of)
next
  case (3 ac res out left b1)
  then show ?thesis by (auto simp: 3(4) aborted_run_of)
qed simp

lemma aborted_abort: "aborted_in g b = None \<Longrightarrow> aborted_in g (abortLocked now g why b) = Some why"
  by (simp add: abortLocked_def Let_def aborted_run_of)

text \<open>A deposit that leaves an error on a round that had none ends the run with that error.\<close>

lemma deposit_aborts:
  assumes "notDone (ent b a)" "aborted_in (rq_Group req) b = None" "a < length (bd_store b)"
    "en_err (ent (snd (deposit now req blob a b)) a) = Some why"
  shows "aborted_in (rq_Group req) (snd (deposit now req blob a b)) = Some why"
proof (cases "en_acc (ent b a)")
  case None
  then show ?thesis using assms by (simp add: deposit_def notDone_def Let_def)
next
  case (Some ac)
  define e1 where "e1 = fold_contribution req blob ac (check_kind req (check_manifest req (ent b a)))"
  define b1 where "b1 = put_ent a e1 b"
  define complete where "complete \<longleftrightarrow> en_err e1 \<noteq> None \<or> expectedCount e1 \<le> liveIn b1 (rq_Group req) (en_seen e1)"
  define b2 where "b2 = (if complete \<and> en_err e1 = None then finishLocked now (rq_Group req) a b1 else b1)"
  have eq: "deposit now req blob a b = (complete, case en_err (ent b2 a) of Some why \<Rightarrow> abortLocked now (rq_Group req) why b2 | None \<Rightarrow> b2)"
    using assms(1) by (simp only: deposit_def Let_def notDone_def Some option.case e1_def b1_def complete_def b2_def
        simp_thms if_False)
  have "ent (snd (deposit now req blob a b)) a = ent b2 a" unfolding eq by (simp split: option.split)
  then have w: "en_err (ent b2 a) = Some why" using assms(4) by simp
  have "aborted_in (rq_Group req) b2 = None" using assms(2) by (simp add: b2_def b1_def aborted_finish)
  then show ?thesis unfolding eq using w by (simp add: aborted_abort)
qed

lemma aborted_kept:
  assumes "aborted_in g b = Some why" "\<forall>ev \<in> set fs. \<forall>now maxAge. ev \<noteq> Sweep now maxAge"
  shows "aborted_in g (fold ddp_step fs b) = Some why"
  using assms
proof (induction fs arbitrary: b)
  case (Cons ev fs)
  have "runs_le b (ddp_step ev b)" by (rule ddp_step_runs) (use Cons.prems(2) in simp)
  moreover obtain r where r: "get_run g b = Some r" "rn_aborted r = Some why"
    using Cons.prems(1) by (auto simp: aborted_in_def split: option.splits)
  ultimately obtain r' where "get_run g (ddp_step ev b) = Some r'" "run_le r r'" using runs_leD(1) by blast
  then have "aborted_in g (ddp_step ev b) = Some why" using r by (simp add: aborted_in_def run_le_def)
  then show ?case using Cons by simp
qed simp

text \<open>C7: A post that leaves an error on its round (a payload that does not fit, another kind of sync, another
  model) ends the ring: until the run is swept away, every later well formed post of the group, by any
  rank and for any round, is refused with that error and changes nothing, and every rank that waited on the round takes
  the same refusal home.\<close>

theorem failed_round_ends_the_ring:
  assumes "b = fold ddp_step es newDDPBoard" "post now mode req blob b = (Completes a, b')"
    and "en_err (ent b' a) = Some why" "a < length (bd_store b) \<Longrightarrow> notDone (ent b a)"
    and "\<forall>ev \<in> set fs. \<forall>now maxAge. ev \<noteq> Sweep now maxAge"
    and "rq_Group req' = rq_Group req" "check_request mode' req' = None" "rq_Local req' = []"
  shows "post now' mode' req' blob' (fold ddp_step fs b') = (AbortedRun why, fold ddp_step fs b')
    \<and> fst (collect req' a (fold ddp_step fs b')) = AbortReply why"
proof -
  let ?g = "rq_Group req" and ?ev = "Post now mode req blob"
  let ?all = "es @ ?ev # fs"
  obtain key_of where ok: "rounds_ok ?all key_of b"
    using ddp_run_ok [OF rounds_ok_new, of es ?all] assms(1) by auto
  show ?thesis
  proof (cases rule: post_cases [of now mode req blob b])
    case (3 a1 b0 complete b4)
    then have b': "b' = close_done a b4" and a1: "a1 = a" using assms(2) by (auto split: if_splits)
    from open_round_ok [OF ok 3(3) check_request_ranges(1) [OF 3(1,2)]] obtain k' where
      k: "rounds_ok ?all k' b0" "a1 < length (bd_store b0)" "k' a1 = entry_key req"
      "\<And>i. i < length (bd_store b) \<Longrightarrow> ent b0 i = ent b i" "bd_runs b0 = bd_runs b" by metis
    have nd0: "notDone (ent b0 a)"
    proof (cases "a < length (bd_store b)")
      case True
      then show ?thesis using assms(4) k(4) by simp
    next
      case False
      then show ?thesis using 3(3) a1 k(2)
        by (auto simp: open_round_def Let_def ent_def nth_append notDone_def new_round_def dest: map_of_SomeD
            split: option.splits if_splits sum.splits)
    qed
    let ?b3 = "after_open now req a b0"
    have s: "same_core (ent b0 a) (ent ?b3 a)" using after_open_round(1) k(2) a1 by simp
    then have nd: "notDone (ent ?b3 a)" using nd0 same_answer_done by (auto simp: same_core_def)
    have len: "length (bd_store ?b3) = length (bd_store b0)" using bev_after_open [of "\<lambda>_. {}" b0 now req a] by (simp add: bev_def)
    have "aborted_in ?g b = None" using 3(5) by (simp add: aborted_in_def)
    then have "aborted_in ?g b0 = None" using k(5) by (simp add: aborted_in_def get_run_def)
    then have ab: "aborted_in ?g ?b3 = None" by (simp add: aborted_after_open)
    have "en_err (ent (close_done a b4) a) = en_err (ent b4 a)"
      by (cases "a < length (bd_store b4)") (simp_all add: close_done_def put_ent_outside)
    then have w: "en_err (ent b4 a) = Some why" using assms(3) b' by simp
    have "aborted_in ?g b4 = Some why"
      using deposit_aborts [OF nd ab, of now blob why] 3(6) a1 k(2) len w by simp
    then have "aborted_in ?g (fold ddp_step fs b') = Some why"
      using aborted_kept [OF _ assms(5)] b' by simp
    then have p: "post now' mode' req' blob' (fold ddp_step fs b') = (AbortedRun why, fold ddp_step fs b')"
      using assms(6-8) by (simp add: post_def aborted_in_def)
    have "\<exists>key. rounds_ok ?all key b' \<and> a < length (bd_store b')"
    proof -
      obtain key where "rounds_ok ?all key (snd (post now mode req blob b))" "answers_kept b (snd (post now mode req blob b))"
        using post_step_ok [OF ok, of now mode req blob] by auto
      moreover have "length (bd_store b4) = length (bd_store ?b3)"
      proof -
        have "bev (\<lambda>i. posts_at ?all (k' i)) ?b3 (snd (deposit now req blob a ?b3))"
        proof (rule bev_deposit)
          show "contribution_of req blob \<in> posts_at ?all (k' a)" using k(3) a1 by (auto simp: posts_at_def)
          show "\<forall>c \<in> set (contributors req). 0 \<le> c \<and> c < en_world (ent ?b3 a)"
            using check_request_ranges(2) [OF 3(1,2)] s 3(4) a1 by (simp add: same_core_def)
        qed
        then show ?thesis using 3(6) a1 by (simp add: bev_def)
      qed
      ultimately show ?thesis using assms(2) k(2) a1 len b' by (auto simp: close_done_def)
    qed
    then obtain key where key: "rounds_ok ?all key b'" "a < length (bd_store b')" by blast
    have "answers_kept b' (fold ddp_step fs b')" using ddp_run_ok [OF key(1), of fs] by auto
    then have "en_err (ent (fold ddp_step fs b') a) = Some why"
      using key(2) assms(3) by (auto simp: answers_kept_def notDone_def same_answer_def)
    then have "fst (collect req' a (fold ddp_step fs b')) = AbortReply why"
      by (simp add: collect_def Let_def notDone_def split: prod.split)
    with p show ?thesis by blast
  qed (use assms(2) in auto)
qed

theorem failed_round_ends_the_ring_witness:
  "fst (post 7 ddpModeReduce grad_req [30] (fold ddp_step [RankDown 6 ''g'' 1 2 []]
      (snd (post 5 ddpModeReduce (grad_req\<lparr>rq_Rank := 1\<rparr>) [1, 2] (fold ddp_step [grad_post 0 10] newDDPBoard)))))
    = AbortedRun (ContributionFailed 1 (PayloadSize 2 1))"
proof -
  let ?b = "fold ddp_step [grad_post 0 10] newDDPBoard" and ?req = "grad_req\<lparr>rq_Rank := 1\<rparr>"
  have 1: "post 5 ddpModeReduce ?req [1, 2] ?b = (Completes 0, snd (post 5 ddpModeReduce ?req [1, 2] ?b))"
    by (rule prod_eqI) (code_simp, simp)
  have 2: "en_err (ent (snd (post 5 ddpModeReduce ?req [1, 2] ?b)) 0) = Some (ContributionFailed 1 (PayloadSize 2 1))"
    by code_simp
  have 3: "notDone (ent ?b 0)" by code_simp
  have 4: "rq_Group grad_req = rq_Group ?req" "check_request ddpModeReduce grad_req = None" "rq_Local grad_req = []"
    by code_simp+
  have 5: "\<forall>ev \<in> set [RankDown 6 ''g'' 1 2 []]. \<forall>now maxAge. ev \<noteq> Sweep now maxAge" by simp
  show ?thesis
    using failed_round_ends_the_ring [OF refl 1 2 3 5 4, of 7 "[30]"] by (simp del: fold.simps)
qed

end
