(* ===== verification/DdpRing.thy ===== *)
theory DdpRing
  imports DdpRounds
begin

text \<open>
  How a training ring changes: a rank that is gone leaves its share to the others, a rank that joins
  takes an average one, and the note that says so. Two concrete runs show where a later decision
  undoes the change.
\<close>

subsection \<open>Shares\<close>

definition live_weight :: "f64 list \<Rightarrow> int list \<Rightarrow> nat \<Rightarrow> f64" where
  "live_weight ws dropped i = (if int i \<notin> set dropped \<and> 0 < ws ! i then ws ! i else 0)"

lemma sharesWithout_eq:
  "sharesWithout ws dropped = (let out = map (live_weight ws dropped) [0..<length ws]
     in if sum_list out \<le> 0 then out else map (\<lambda>x. x / sum_list out) out)"
proof -
  have "live_weight ws dropped = (\<lambda>i. if int i \<notin> set dropped \<and> 0 < ws ! i then ws ! i else 0)"
    by (simp add: live_weight_def fun_eq_iff)
  then show ?thesis by (simp only: sharesWithout_def Let_def)
qed

lemma length_sharesWithout [simp]: "length (sharesWithout ws dropped) = length ws"
  by (simp add: sharesWithout_eq Let_def)

lemma live_weight_nonneg: "0 \<le> live_weight ws dropped i"
  by (simp add: live_weight_def)

lemma live_sum_pos:
  assumes "i < length ws" "int i \<notin> set dropped" "0 < ws ! i"
  shows "0 < sum_list (map (live_weight ws dropped) [0..<length ws])"
proof -
  have "live_weight ws dropped i \<le> sum_list (map (live_weight ws dropped) [0..<length ws])"
    by (rule member_le_sum_list) (use assms(1) live_weight_nonneg in auto)
  then show ?thesis using assms by (simp add: live_weight_def)
qed

lemma sharesWithout_nth:
  assumes "i < length ws"
  shows "sharesWithout ws dropped ! i =
    (let T = sum_list (map (live_weight ws dropped) [0..<length ws])
     in if T \<le> 0 then live_weight ws dropped i else live_weight ws dropped i / T)"
  using assms by (simp add: sharesWithout_eq Let_def)

lemma sharesWithout_spec:
  assumes "i < length ws" "int i \<notin> set dropped" "0 < ws ! i"
  shows "sum_list (sharesWithout ws dropped) = 1"
    and "\<exists>T > 0. \<forall>j < length ws. sharesWithout ws dropped ! j = live_weight ws dropped j / T"
proof -
  let ?T = "sum_list (map (live_weight ws dropped) [0..<length ws])"
  have T: "0 < ?T" by (rule live_sum_pos) (rule assms)+
  then show "sum_list (sharesWithout ws dropped) = 1"
    using sum_scaled [of ?T "map (live_weight ws dropped) [0..<length ws]"]
    by (simp add: sharesWithout_eq Let_def del: map_map)
  show "\<exists>T > 0. \<forall>j < length ws. sharesWithout ws dropped ! j = live_weight ws dropped j / T"
    using T by (intro exI [of _ ?T]) (simp add: sharesWithout_nth Let_def)
qed

lemma length_equal_shares [simp]: "length (equal_shares ws w) = nat w"
  by (auto simp: equal_shares_def)

subsection \<open>Only residuals change when rounds settle\<close>

definition run_frame :: "string \<Rightarrow> ddpBoard \<Rightarrow> ddpBoard \<Rightarrow> bool" where
  "run_frame g b b' \<longleftrightarrow> (\<forall>r. get_run g b = Some r \<longrightarrow> (\<exists>v. get_run g b' = Some (r\<lparr>rn_residual := v\<rparr>)))"

lemma run_frame_refl: "bd_runs b' = bd_runs b \<Longrightarrow> run_frame g b b'"
  unfolding run_frame_def
proof (intro allI impI)
  fix r assume "bd_runs b' = bd_runs b" "get_run g b = Some r"
  then have "get_run g b' = Some (r\<lparr>rn_residual := rn_residual r\<rparr>)" by (simp add: get_run_def)
  then show "\<exists>v. get_run g b' = Some (r\<lparr>rn_residual := v\<rparr>)" by blast
qed

lemma run_frame_trans:
  assumes "run_frame g b b'" "run_frame g b' b''"
  shows "run_frame g b b''"
  unfolding run_frame_def
proof (intro allI impI)
  fix r assume "get_run g b = Some r"
  then obtain v where "get_run g b' = Some (r\<lparr>rn_residual := v\<rparr>)" using assms(1) by (auto simp: run_frame_def)
  then obtain w where "get_run g b'' = Some (r\<lparr>rn_residual := v\<rparr>\<lparr>rn_residual := w\<rparr>)" using assms(2) unfolding run_frame_def by blast
  then show "\<exists>v. get_run g b'' = Some (r\<lparr>rn_residual := v\<rparr>)" by auto
qed

lemma run_frame_finish: "run_frame g b (finishLocked now g a b)"
proof -
  have *: "run_frame g b (put_ent a e b1)"
    if "b1 = b \<or> (\<exists>v k. b1 = put_run g ((run_of now g b)\<lparr>rn_residual := AList.update k v (rn_residual (run_of now g b))\<rparr>) b)" for b1 e
  proof (rule run_frame_trans [of g b b1])
    show "run_frame g b b1" using that
    proof (elim disjE exE)
      assume "b1 = b"
      then show ?thesis by (simp add: run_frame_refl)
    next
      fix v k assume "b1 = put_run g ((run_of now g b)\<lparr>rn_residual := AList.update k v (rn_residual (run_of now g b))\<rparr>) b"
      then show ?thesis by (auto simp: run_frame_def run_of_def)
    qed
  qed (simp add: run_frame_refl)
  show ?thesis
  proof (cases rule: finish_cases [of b a now g])
    case 1
    then show ?thesis by (simp add: run_frame_refl)
  next
    case (2 ac err b1)
    show ?thesis unfolding 2(3) by (rule *) (rule 2(2))
  next
    case (3 ac res out left b1)
    show ?thesis unfolding 3(4) by (rule *) (rule 3(3))
  qed
qed

lemma run_frame_settle_open: "run_frame g b (settle_open now g ka b)"
proof (cases rule: settle_open_cases [of now g ka b])
  case (3 a b1 e)
  show ?thesis unfolding 3(4) by (rule run_frame_refl) (simp add: 3(1))
next
  case (4 a b1 b2 e)
  have "run_frame g b b1" by (rule run_frame_refl) (simp add: 4(1))
  then have "run_frame g b b2" unfolding 4(4) by (rule run_frame_trans) (rule run_frame_finish)
  then show ?thesis unfolding 4(6) by (rule run_frame_trans) (rule run_frame_refl, simp)
qed (simp_all add: run_frame_refl)

lemma run_frame_settle: "run_frame g b (settle_all now g b)"
proof -
  have "run_frame g b (fold (settle_open now g) kas b)" for kas
  proof (induction kas arbitrary: b)
    case (Cons ka kas)
    from run_frame_trans [OF run_frame_settle_open Cons.IH] show ?case by simp
  qed (simp add: run_frame_refl)
  then show ?thesis by (simp add: settle_all_def)
qed

lemma leave_join_fields [simp]:
  "rn_weights (leave_join rank r) = rn_weights r" "rn_lastSeq (leave_join rank r) = rn_lastSeq r"
  "rn_dropped (leave_join rank r) = rn_dropped r" "rn_world (leave_join rank r) = rn_world r"
  "rn_reports (leave_join rank r) = rn_reports r"
  by (simp_all add: leave_join_def Let_def split: option.split)

lemma dropsIn_insert:
  "rank \<notin> set (rn_dropped r) \<Longrightarrow> rank < w \<Longrightarrow> rn_dropped r' = List.insert rank (rn_dropped r) \<Longrightarrow> dropsIn r' w = dropsIn r w + 1"
  by (simp add: dropsIn_def)

text \<open>When a rank of the ring is reported gone, its share and those of all dropped ranks become zero and
  the others keep their proportions, summing to one as long as somebody with a share is left; its
  report is forgotten, the ranks left are counted, and a note with exactly these shares is set
  for everybody from the next sync on. Reporting it again changes nothing.\<close>

theorem down_moves_share:
  assumes "get_run grp b = Some r" "rn_world r \<noteq> 0" "0 \<le> rank" "rank < rn_world r" "rank \<notin> set (rn_dropped r)"
    and "markRankDownLocked now grp rank world why b = (b', left)" "ws = equal_shares (rn_weights r) (rn_world r)"
  shows "\<exists>r'. get_run grp b' = Some r' \<and> set (rn_dropped r') = insert rank (set (rn_dropped r))
    \<and> length (rn_weights r') = nat (rn_world r)
    \<and> (\<forall>i < nat (rn_world r). int i \<in> set (rn_dropped r') \<longrightarrow> rn_weights r' ! i = 0)
    \<and> ((\<exists>i < nat (rn_world r). int i \<notin> set (rn_dropped r') \<and> 0 < ws ! i) \<longrightarrow>
        sum_list (rn_weights r') = 1
        \<and> (\<exists>T > 0. \<forall>i < nat (rn_world r). int i \<notin> set (rn_dropped r') \<and> 0 \<le> ws ! i \<longrightarrow> rn_weights r' ! i = ws ! i / T))
    \<and> map_of (rn_reports r') rank = None \<and> left = rn_world r - dropsIn r' (rn_world r)
    \<and> (\<exists>frag w. rn_note r' = Some (NoteDown frag rank w left) \<and> rf_weights frag = rn_weights r')
    \<and> rn_noteSeq r' = rn_lastSeq r + 1 \<and> rn_noteTold r' = []
    \<and> markRankDownLocked now' grp rank world' why' b' = (put_run grp r' b', left)"
proof -
  define r1 where "r1 = leave_join rank (drop_rank rank r)"
  define frag where "frag = ringFragment r1"
  define w where "w = (if why = [] then ''its job ended'' else why)"
  define r2 where "r2 = publish (rn_lastSeq r1 + 1) (NoteDown frag rank w (rn_world r - dropsIn r (rn_world r) - 1)) r1"
  have eq: "markRankDownLocked now grp rank world why b = (settle_all now grp (put_run grp r2 b), rn_world r - dropsIn r (rn_world r) - 1)"
    using assms(1-5) by (simp add: markRankDownLocked_def Let_def run_of_some r2_def r1_def frag_def w_def)
  have "get_run grp (put_run grp r2 b) = Some r2" by simp
  then obtain v where r': "get_run grp b' = Some (r2\<lparr>rn_residual := v\<rparr>)"
    using run_frame_settle [of grp "put_run grp r2 b" now] assms(6) eq unfolding run_frame_def by auto
  let ?r = "r2\<lparr>rn_residual := v\<rparr>"
  have d: "rn_dropped ?r = List.insert rank (rn_dropped r)" "rn_world ?r = rn_world r"
    by (simp_all add: r2_def r1_def publish_def drop_rank_def Let_def)
  have wt: "rn_weights ?r = sharesWithout ws (rn_dropped ?r)" "rn_weights r1 = rn_weights ?r"
    by (simp_all add: d) (simp_all add: r2_def r1_def publish_def drop_rank_def Let_def assms(7))
  have len: "length ws = nat (rn_world r)" using assms(3,4,7) by simp
  have left: "left = rn_world r - dropsIn ?r (rn_world r)"
    using assms(6) eq dropsIn_insert [OF assms(5,4) d(1)] by simp
  have 1: "rn_weights ?r ! i = 0" if "i < nat (rn_world r)" "int i \<in> set (rn_dropped ?r)" for i
    using that len by (simp add: wt(1) sharesWithout_nth live_weight_def Let_def)
  have 2: "sum_list (rn_weights ?r) = 1
      \<and> (\<exists>T > 0. \<forall>i < nat (rn_world r). int i \<notin> set (rn_dropped ?r) \<and> 0 \<le> ws ! i \<longrightarrow> rn_weights ?r ! i = ws ! i / T)"
    if i: "i < nat (rn_world r)" "int i \<notin> set (rn_dropped ?r)" "0 < ws ! i" for i
  proof -
    have i': "i < length ws" using i(1) len by simp
    obtain T where "0 < T" "\<forall>j < length ws. sharesWithout ws (rn_dropped ?r) ! j = live_weight ws (rn_dropped ?r) j / T"
      using sharesWithout_spec(2) [OF i' i(2,3)] by blast
    then have "\<exists>T > 0. \<forall>i < nat (rn_world r). int i \<notin> set (rn_dropped ?r) \<and> 0 \<le> ws ! i \<longrightarrow> rn_weights ?r ! i = ws ! i / T"
      using len unfolding wt(1) by (intro exI [of _ T]) (auto simp: live_weight_def)
    then show ?thesis using sharesWithout_spec(1) [OF i' i(2,3)] unfolding wt(1) by blast
  qed
  have 3: "map_of (rn_reports ?r) rank = None"
    by (simp add: r2_def r1_def publish_def drop_rank_def Let_def go_map_simps)
  have l0: "left = rn_world r - dropsIn r (rn_world r) - 1" using assms(6) eq by simp
  have f: "rf_weights frag = rn_weights r1" by (simp add: frag_def ringFragment_def)
  have 4: "rn_note ?r = Some (NoteDown frag rank w left)" "rf_weights frag = rn_weights ?r"
    unfolding wt(2) [symmetric] by (simp add: r2_def publish_def l0) (rule f)
  have 5: "rn_noteSeq ?r = rn_lastSeq r + 1" "rn_noteTold ?r = []"
    by (simp_all add: r2_def publish_def r1_def drop_rank_def Let_def)
  have 6: "markRankDownLocked now' grp rank world' why' b' = (put_run grp ?r b', left)"
    using assms(2,4) d left by (simp add: markRankDownLocked_def Let_def run_of_some [OF r'])
  have 7: "set (rn_dropped ?r) = insert rank (set (rn_dropped r))" by (simp add: d(1))
  have 8: "length (rn_weights ?r) = nat (rn_world r)" by (simp add: wt(1) len)
  have 9: "(\<exists>i < nat (rn_world r). int i \<notin> set (rn_dropped ?r) \<and> 0 < ws ! i) \<longrightarrow>
        sum_list (rn_weights ?r) = 1
        \<and> (\<exists>T > 0. \<forall>i < nat (rn_world r). int i \<notin> set (rn_dropped ?r) \<and> 0 \<le> ws ! i \<longrightarrow> rn_weights ?r ! i = ws ! i / T)"
    using 2 by blast
  have 10: "\<exists>frag w. rn_note ?r = Some (NoteDown frag rank w left) \<and> rf_weights frag = rn_weights ?r"
    using 4 by blast
  have 11: "\<forall>i < nat (rn_world r). int i \<in> set (rn_dropped ?r) \<longrightarrow> rn_weights ?r ! i = 0" using 1 by blast
  show ?thesis
    by (intro exI [of _ ?r] conjI) (rule r' 7 8 11 9 3 left 10 5 6)+
qed

definition three_run :: ddpRun where
  "three_run = (new_run 0)\<lparr>rn_world := 3, rn_weights := [1 / 2, 1 / 4, 1 / 4], rn_lastSeq := 39\<rparr>"

theorem down_moves_share_witness:
  "\<exists>r'. get_run ''g'' (fst (markRankDownLocked 5 ''g'' 1 3 [] (put_run ''g'' three_run newDDPBoard))) = Some r'
    \<and> sum_list (rn_weights r') = 1 \<and> rn_weights r' ! 1 = 0 \<and> rn_noteSeq r' = 40"
proof -
  let ?b = "put_run ''g'' three_run newDDPBoard"
  have r: "get_run ''g'' ?b = Some three_run" by simp
  have c: "rn_world three_run \<noteq> 0" "(0 :: int) \<le> 1" "1 < rn_world three_run" "1 \<notin> set (rn_dropped three_run)"
    by (simp_all add: three_run_def new_run_def)
  obtain b' left where m: "markRankDownLocked 5 ''g'' 1 3 [] ?b = (b', left)" by fastforce
  have ws: "equal_shares (rn_weights three_run) (rn_world three_run) = [1 / 2, 1 / 4, 1 / 4]"
    and w: "rn_world three_run = 3" "rn_dropped three_run = []" "rn_lastSeq three_run = 39"
    by (simp_all add: three_run_def new_run_def equal_shares_def)
  let ?W = "rn_world three_run" and ?ws = "equal_shares (rn_weights three_run) (rn_world three_run)"
  from down_moves_share [OF r c m refl, of 0 0 "[]"] show ?thesis
  proof (elim exE conjE)
    fix r' assume r': "get_run ''g'' b' = Some r'" "set (rn_dropped r') = insert 1 (set (rn_dropped three_run))"
      "rn_noteSeq r' = rn_lastSeq three_run + 1" "\<forall>i < nat ?W. int i \<in> set (rn_dropped r') \<longrightarrow> rn_weights r' ! i = 0"
      "(\<exists>i < nat ?W. int i \<notin> set (rn_dropped r') \<and> 0 < ?ws ! i) \<longrightarrow> sum_list (rn_weights r') = 1
        \<and> (\<exists>T > 0. \<forall>i < nat ?W. int i \<notin> set (rn_dropped r') \<and> 0 \<le> ?ws ! i \<longrightarrow> rn_weights r' ! i = ?ws ! i / T)"
    have "0 < nat ?W \<and> int 0 \<notin> set (rn_dropped r') \<and> 0 < ?ws ! 0" by (simp add: r'(2) ws [unfolded w] w)
    then have "sum_list (rn_weights r') = 1" using r'(5) by blast
    moreover have "rn_weights r' ! 1 = 0" using spec [OF r'(4), of 1] by (simp add: r'(2) w)
    ultimately show ?thesis using r'(1,3) m w by auto
  qed
qed

subsection \<open>A rank that joins\<close>

definition sharing :: "f64 list \<Rightarrow> nat" where
  "sharing base = length (filter (\<lambda>x. 0 < x) base)"

lemma length_filter_nth: "length (filter (\<lambda>i. P (xs ! i)) [0..<length xs]) = length (filter P xs)"
proof -
  have "length (filter P (map ((!) xs) [0..<length xs])) = length (filter (P \<circ> (!) xs) [0..<length xs])"
    by (simp add: filter_map)
  then show ?thesis by (simp add: map_nth o_def)
qed

lemma sharesWithout_pos:
  assumes "i < length ws" "0 < sharesWithout ws d ! i"
  shows "int i \<notin> set d" "0 < ws ! i"
proof -
  let ?T = "sum_list (map (live_weight ws d) [0..<length ws])"
  have "0 < live_weight ws d i"
    using assms by (cases "?T \<le> 0") (simp_all add: sharesWithout_nth Let_def zero_less_divide_iff not_le)
  then show "int i \<notin> set d" "0 < ws ! i" by (simp_all add: live_weight_def split: if_splits)
qed

lemma sharesWithout_nonneg: "i < length ws \<Longrightarrow> 0 \<le> sharesWithout ws d ! i"
  by (simp add: sharesWithout_nth Let_def live_weight_nonneg)

lemma sharing_sum:
  assumes "0 < sharing (sharesWithout ws d)"
  shows "sum_list (sharesWithout ws d) = 1"
proof -
  from assms have "filter (\<lambda>x. 0 < x) (sharesWithout ws d) \<noteq> []" by (simp add: sharing_def)
  then obtain x where "x \<in> set (sharesWithout ws d)" "0 < x" by (auto simp: filter_empty_conv)
  then obtain i where "i < length ws" "0 < sharesWithout ws d ! i" by (auto simp: in_set_conv_nth)
  then show ?thesis using sharesWithout_spec(1) [of i ws d] sharesWithout_pos [of i ws d] by simp
qed

lemma sharesWith_eq:
  assumes "old \<le> rank" "0 \<le> rank" "base = sharesWithout (equal_shares ws old) d" "n = sharing base"
  shows "sharesWith ws old d (rank + 1) = map (\<lambda>x. x * of_nat n / (of_nat n + 1)) base
    @ replicate (nat rank - nat old) 0 @ [1 / (of_nat n + 1)]"
proof -
  have len: "length base = nat old" by (simp add: assms(3))
  have pos: "0 < base ! i \<longrightarrow> int i \<notin> set d" if "i < length base" for i
    using sharesWithout_pos(1) [of i "equal_shares ws old" d] that by (simp add: assms(3))
  have "length (filter (\<lambda>i. 0 < base ! i \<and> int i \<notin> set d) [0..<length base])
      = length (filter (\<lambda>i. 0 < base ! i) [0..<length base])"
    by (rule arg_cong [of _ _ length], rule filter_cong) (use pos in auto)
  then have live: "length (filter (\<lambda>i. 0 < base ! i \<and> int i \<notin> set d) [0..<length base]) = n"
    by (simp add: length_filter_nth assms(4) sharing_def)
  have nat: "nat (rank + 1) = Suc (nat rank)" "nat (rank + 1 - 1) = nat rank" "nat old \<le> nat rank" using assms(1,2) by auto
  show ?thesis
  proof (cases "n = 0")
    case True
    then have "sharesWith ws old d (rank + 1) = (replicate (Suc (nat rank)) 0)[nat rank := 1]"
      using live assms(3) nat by (simp add: sharesWith_def Let_def del: replicate_Suc)
    then show ?thesis using True len nat
      by (intro nth_equalityI) (auto simp: nth_append nth_list_update less_Suc_eq simp del: replicate_Suc)
  next
    case False
    have "sharesWith ws old d (rank + 1) = (map (\<lambda>i. if i < length base then base ! i * (of_nat n / (of_nat n + 1))
        else replicate (Suc (nat rank)) 0 ! i) [0..<Suc (nat rank)])[nat rank := 1 / (of_nat n + 1)]"
      unfolding sharesWith_def Let_def assms(3) [symmetric] live nat if_not_P [OF False] by (rule refl)
    then show ?thesis using len nat
      by (intro nth_equalityI) (auto simp: nth_append nth_list_update less_Suc_eq simp del: upt_Suc replicate_Suc)
  qed
qed

text \<open>A rank that is let in gets the share of an average rank, one over the number of ranks with a share
  plus itself; the others keep their proportions and all sum to one; skipped indices have none. A refusal
  changes nothing, and asking only whether it could join never does.\<close>

theorem join_takes_average_share:
  assumes "handleDDPJoin req b = (answer, b')"
  shows "(answer \<noteq> Some None \<or> jq_Check req \<longrightarrow> b' = b)
    \<and> (answer = Some None \<and> \<not> jq_Check req \<longrightarrow>
        (\<exists>r r' base n. get_run (jq_Group req) b = Some r \<and> get_run (jq_Group req) b' = Some r'
          \<and> rn_aborted r = None \<and> \<not> rn_released r \<and> rn_sharded r \<and> rn_world r \<le> jq_Rank req
          \<and> rn_world r' = jq_Rank req + 1
          \<and> base = sharesWithout (equal_shares (rn_weights r) (rn_world r)) (rn_dropped r') \<and> n = sharing base
          \<and> rn_weights r' = map (\<lambda>x. x * of_nat n / (of_nat n + 1)) base
               @ replicate (nat (jq_Rank req) - nat (rn_world r)) 0 @ [1 / (of_nat n + 1)]
          \<and> sum_list (rn_weights r') = 1))"
proof (cases "jq_Group req = [] \<or> jq_Rank req < 1 \<or> jq_World req \<noteq> jq_Rank req + 1")
  case True
  then show ?thesis using assms by (auto simp: handleDDPJoin_def)
next
  case False
  obtain refusal b1 where j: "ddpJoin_step req b = (refusal, b1)" by fastforce
  then have a: "answer = Some refusal" "b' = b1" using assms False by (simp_all add: handleDDPJoin_def)
  have same: "refusal \<noteq> None \<or> jq_Check req \<longrightarrow> b1 = b"
  proof (cases "get_run (jq_Group req) b")
    case (Some r)
    then show ?thesis using j by (auto simp: ddpJoin_step_def split: option.splits if_splits)
  qed (use j in \<open>auto simp: ddpJoin_step_def\<close>)
  show ?thesis
  proof (cases "refusal = None \<and> \<not> jq_Check req")
    case False
    then show ?thesis using same a by auto
  next
    case ok: True
    then obtain r where r: "get_run (jq_Group req) b = Some r" using j
      by (cases "get_run (jq_Group req) b") (auto simp: ddpJoin_step_def)
    let ?r' = "join_ring req (bd_joins b) r"
    have c: "rn_aborted r = None" "\<not> rn_released r" "rn_sharded r" "\<not> jq_Rank req < rn_world r"
        "b1 = put_run (jq_Group req) ?r' (b\<lparr>bd_joins := Suc (bd_joins b)\<rparr>)"
      using j ok r by (auto simp: ddpJoin_step_def split: option.splits if_splits)
    define base where "base = sharesWithout (equal_shares (rn_weights r) (rn_world r)) (rn_dropped ?r')"
    define n where "n = sharing base"
    have w: "jq_World req = jq_Rank req + 1" "0 \<le> jq_Rank req" "rn_world r \<le> jq_Rank req" using False c(4) by auto
    have f: "rn_weights ?r' = sharesWith (rn_weights r) (rn_world r) (rn_dropped ?r') (jq_Rank req + 1)"
        "rn_world ?r' = jq_Rank req + 1"
      using w(1) by (simp_all add: join_ring_def Let_def publish_def)
    have e: "rn_weights ?r' = map (\<lambda>x. x * of_nat n / (of_nat n + 1)) base
        @ replicate (nat (jq_Rank req) - nat (rn_world r)) 0 @ [1 / (of_nat n + 1)]"
      unfolding f(1) by (rule sharesWith_eq [OF w(3,2) base_def n_def])
    have "sum_list (map (\<lambda>x. x * of_nat n / (of_nat n + 1)) base) = of_nat n / (of_nat n + 1 :: f64)"
    proof (cases "n = 0")
      case True
      then show ?thesis by (simp add: sum_list_0)
    next
      case False
      then have "sum_list base = 1" using sharing_sum unfolding n_def base_def by blast
      moreover have "sum_list (map (\<lambda>x. x * of_nat n / (of_nat n + 1)) base) = sum_list base * (of_nat n / (of_nat n + 1 :: f64))"
        by (induction base) (simp_all add: distrib_right add_divide_distrib)
      ultimately show ?thesis by simp
    qed
    then have s: "sum_list (rn_weights ?r') = 1"
      by (simp add: e sum_list_replicate add_divide_distrib [symmetric] add_nonneg_eq_0_iff)
    have "get_run (jq_Group req) b' = Some ?r'" using c(5) a by simp
    then show ?thesis using ok a same r c(1-3) w(3) f(2) base_def n_def e s by auto
  qed
qed

theorem join_takes_average_share_witness:
  "fst (handleDDPJoin \<lparr>jq_Group = ''g'', jq_Rank = 4, jq_World = 5, jq_Check = False\<rparr>
     (put_run ''g'' (three_run\<lparr>rn_sharded := True, rn_dropped := [3]\<rparr>) newDDPBoard)) = Some None
   \<and> (\<exists>r'. get_run ''g'' (snd (handleDDPJoin \<lparr>jq_Group = ''g'', jq_Rank = 4, jq_World = 5, jq_Check = False\<rparr>
     (put_run ''g'' (three_run\<lparr>rn_sharded := True, rn_dropped := [3]\<rparr>) newDDPBoard))) = Some r' \<and> sum_list (rn_weights r') = 1)"
proof -
  let ?req = "\<lparr>jq_Group = ''g'', jq_Rank = 4, jq_World = 5, jq_Check = False\<rparr>"
  let ?b = "put_run ''g'' (three_run\<lparr>rn_sharded := True, rn_dropped := [3]\<rparr>) newDDPBoard"
  obtain answer b' where h: "handleDDPJoin ?req ?b = (answer, b')" by fastforce
  have "fst (handleDDPJoin ?req ?b) = Some None" by code_simp
  then have a: "answer = Some None" by (simp add: h)
  from join_takes_average_share [OF h] a show ?thesis by (auto simp: h)
qed

subsection \<open>Where a later decision undoes the change\<close>

text \<open>A switch to DiLoCo at the very sync that would carry the news of a lost rank replaces the note before
  anyone has it, and carries no shares.\<close>

definition equal_report :: rankReport where
  "equal_report = \<lparr>rr_StepMillis = 100, rr_SyncMillis = 60, rr_Samples = 32\<rparr>"

definition lost_news :: ddpBoard where
  "lost_news = lead_update 9 (grad_req\<lparr>rq_Seq := 40, rq_World := 3, rq_SyncMode := ''auto''\<rparr>)
     (fst (markRankDownLocked 5 ''g'' 2 3 []
        (put_run ''g'' (three_run\<lparr>rn_round := 19, rn_reports := [(0, equal_report), (1, equal_report), (2, equal_report)]\<rparr>) newDDPBoard)))"

lemma diloco_note_replaces_the_news:
  "case get_run ''g'' lost_news of None \<Rightarrow> False
   | Some r \<Rightarrow> rn_note r = Some (NoteDiLoCo 32 (815 / 8) 160 (Some 200)) \<and> rn_noteTold r = [] \<and> rn_dropped r = [2]"
  by code_simp

text \<open>A rank dropped because it did not pay its way keeps its last report, so a later refit gives it a share.\<close>

lemma refit_gives_dropped_rank_a_share:
  "case fst (rebalance_run (three_run\<lparr>rn_round := 19, rn_weights := [], rn_dropped := [2],
       rn_reports := [(0, equal_report\<lparr>rr_SyncMillis := 1\<rparr>), (1, equal_report\<lparr>rr_SyncMillis := 1\<rparr>),
         (2, \<lparr>rr_StepMillis = 3200, rr_SyncMillis = 1, rr_Samples = 32\<rparr>)]\<rparr>) 3)
   of Some (NoteRefit ws why) \<Rightarrow> 0 < ws ! 2 | _ \<Rightarrow> False"
  by code_simp

text \<open>A rank that comes late to a finished round and proposes a longer interval takes another interval
  home than the ranks before it.\<close>

definition reply_every :: "sync_reply \<Rightarrow> int" where
  "reply_every r = (case r of ReducedReply x \<Rightarrow> rp_sync_every x | _ \<Rightarrow> 0)"

definition late_rank :: ddp_event where
  "late_rank = Post 60 ddpModeReduce (grad_req\<lparr>rq_Rank := 2, rq_World := 3, rq_SyncEvery := 8\<rparr>) [30]"

definition early_ranks :: "ddp_event list" where
  "early_ranks = [Post 0 ddpModeReduce (grad_req\<lparr>rq_World := 3\<rparr>) [10], Post 0 ddpModeReduce (grad_req\<lparr>rq_World := 3, rq_Rank := 1\<rparr>) [20],
     Deadline 50 ''g'' ''g/2'' 0]"

lemma late_rank_changes_interval:
  "reply_every (fst (collect (grad_req\<lparr>rq_World := 3\<rparr>) 0 (fold ddp_step early_ranks newDDPBoard))) = 1
   \<and> reply_every (fst (collect (grad_req\<lparr>rq_World := 3, rq_Rank := 2\<rparr>) 0 (fold ddp_step (early_ranks @ [late_rank]) newDDPBoard))) = 8"
  by code_simp

end
