(* ===== verification/Rendezvous.thy ===== *)
theory Rendezvous
  imports GoMap "HOL-Library.List_Lexorder" "HOL-Library.Char_ord"
begin

text \<open>
  The introducer, \<^verbatim>\<open>src/internal/rendezvous/rendezvous.go\<close>: a UDP address book that tells the
  members of a cluster where the others register from and forwards one datagram to a member
  somebody wants to reach. A datagram is what \<open>json.Unmarshal\<close> makes of it (\<open>None\<close> when it does
  not parse) with the clock reading of its handling in nanoseconds and its source; SHA-256 is a
  parameter of \<open>ClusterID\<close>. An address is the \<open>net.UDPAddr\<close> whose text the code stores and
  compares.
\<close>

subsection \<open>Addresses\<close>

datatype ip = V4 "32 word" | V6 "128 word"

record udp_addr =
  ua_IP :: ip
  ua_Zone :: string
  ua_Port :: "16 word"

text \<open>\<open>Unmap\<close> of \<open>netip\<close>: an IPv4 address written as IPv6 is that IPv4 address.\<close>

fun Unmap :: "ip \<Rightarrow> ip" where
  "Unmap (V4 w) = V4 w"
| "Unmap (V6 w) = (if drop_bit 32 w = 0xffff then V4 (ucast w) else V6 w)"

fun IsLoopback :: "ip \<Rightarrow> bool" where
  "IsLoopback (V4 w) \<longleftrightarrow> drop_bit 24 w = 127"
| "IsLoopback (V6 w) \<longleftrightarrow> w = 1"

definition isLoopback :: "udp_addr \<Rightarrow> bool" where
  "isLoopback a \<longleftrightarrow> IsLoopback (Unmap (ua_IP a))"

text \<open>The empty address text is \<open>None\<close>.\<close>

definition visibleAddr :: "udp_addr \<Rightarrow> udp_addr \<Rightarrow> udp_addr option" where
  "visibleAddr addr dest = (if \<not> isLoopback addr \<or> isLoopback dest then Some addr else None)"

text \<open>The host part of an address text, the key of the rate limit.\<close>

definition host_of :: "udp_addr \<Rightarrow> ip \<times> string" where
  "host_of a = (Unmap (ua_IP a), ua_Zone a)"

subsection \<open>Messages and state\<close>

record rv_request =
  rq_Op :: string
  rq_Cluster :: string
  rq_Node :: string
  rq_Candidates :: "string list"
  rq_Peer :: string
  rq_Nonce :: string

record rv_peer =
  pe_Node :: string
  pe_Addr :: "udp_addr option"
  pe_Candidates :: "string list"
  pe_AgeSec :: int

record rv_response =
  rp_You :: "udp_addr option"
  rp_Peers :: "rv_peer list"
  rp_Error :: string
  rp_Op :: string
  rp_From :: string
  rp_Nonce :: string
  rp_Candidates :: "string list"

record rv_forward =
  fw_To :: udp_addr
  fw_Body :: rv_response

record rv_entry =
  rv_addr :: udp_addr
  rv_seen :: int
  rv_candidates :: "string list"

record bucket =
  bk_tokens :: f64
  bk_last :: int

type_synonym members = "(string \<times> rv_entry) list"

record rv_server =
  rs_only :: string
  rs_clusters :: "(string \<times> members) list"
  rs_ttl :: int
  rs_rate :: "((ip \<times> string) \<times> bucket) list"

fun hex_char :: "nat \<Rightarrow> char" where
  "hex_char n = (if n < 10 then char_of (48 + n) else char_of (87 + n))"

fun hex_string :: "byte list \<Rightarrow> string" where
  "hex_string [] = []"
| "hex_string (b # bs) = hex_char (unat b div 16) # hex_char (unat b mod 16) # hex_string bs"

definition ClusterID :: "(string \<Rightarrow> byte list) \<Rightarrow> string \<Rightarrow> string" where
  "ClusterID sha256 token =
     (if token = [] then ''public''
      else hex_string (take 8 (sha256 (''pipedpeer-rendezvous'' @ char_of (0 :: nat) # token))))"

definition second :: int where "second = 1000000000"
definition minute :: int where "minute = 60 * second"

definition Seconds :: "int \<Rightarrow> f64" where
  "Seconds d = of_int d / of_int second"

definition NewServer :: "int \<Rightarrow> rv_server" where
  "NewServer ttl = \<lparr>rs_only = [], rs_clusters = [], rs_ttl = (if ttl \<le> 0 then 2 * minute else ttl), rs_rate = []\<rparr>"

definition NewClusterServer :: "int \<Rightarrow> string \<Rightarrow> rv_server" where
  "NewClusterServer ttl cluster = (NewServer ttl)\<lparr>rs_only := cluster\<rparr>"

subsection \<open>The rate limit\<close>

definition connectPerSec :: f64 where "connectPerSec = 4"
definition connectBurst :: f64 where "connectBurst = 8"

definition refill :: "int \<Rightarrow> bucket \<Rightarrow> bucket" where
  "refill now b = \<lparr>bk_tokens = min connectBurst (bk_tokens b + Seconds (now - bk_last b) * connectPerSec), bk_last = now\<rparr>"

definition drop_quiet :: "int \<Rightarrow> ((ip \<times> string) \<times> bucket) list \<Rightarrow> ((ip \<times> string) \<times> bucket) list" where
  "drop_quiet now rate =
     (if 4096 < length rate then filter (\<lambda>(k, v). \<not> minute < now - bk_last v) rate else rate)"

definition bucket_of :: "int \<Rightarrow> (ip \<times> string) \<Rightarrow> rv_server \<Rightarrow> bucket" where
  "bucket_of now h s =
     (case map_of (rs_rate s) h of None \<Rightarrow> \<lparr>bk_tokens = connectBurst, bk_last = now\<rparr> | Some b \<Rightarrow> b)"

definition allow :: "int \<Rightarrow> udp_addr \<Rightarrow> rv_server \<Rightarrow> bool \<times> rv_server" where
  "allow now src s =
     (let h = host_of src; b = refill now (bucket_of now h s);
          rate = drop_quiet now (AList.update h b (rs_rate s))
      in if bk_tokens b < 1 then (False, s\<lparr>rs_rate := rate\<rparr>)
         else (True, s\<lparr>rs_rate := AList.update h (b\<lparr>bk_tokens := bk_tokens b - 1\<rparr>) rate\<rparr>))"

subsection \<open>Register and connect\<close>

definition members_of :: "string \<Rightarrow> rv_server \<Rightarrow> members" where
  "members_of cluster s = (case map_of (rs_clusters s) cluster of None \<Rightarrow> [] | Some c \<Rightarrow> c)"

definition expired :: "int \<Rightarrow> rv_server \<Rightarrow> rv_entry \<Rightarrow> bool" where
  "expired now s e \<longleftrightarrow> rs_ttl s < now - rv_seen e"

definition peer_info :: "int \<Rightarrow> udp_addr \<Rightarrow> string \<times> rv_entry \<Rightarrow> rv_peer" where
  "peer_info now src p =
     \<lparr>pe_Node = fst p, pe_Addr = visibleAddr (rv_addr (snd p)) src, pe_Candidates = rv_candidates (snd p),
      pe_AgeSec = go_int (Seconds (now - rv_seen (snd p)))\<rparr>"

text \<open>The order of \<open>sort.Slice\<close> is unique: the nodes of a cluster are distinct.\<close>

definition register_node :: "int \<Rightarrow> rv_request \<Rightarrow> udp_addr \<Rightarrow> rv_server \<Rightarrow> rv_response \<times> rv_server" where
  "register_node now req src s =
     (let c = AList.update (rq_Node req) \<lparr>rv_addr = src, rv_seen = now, rv_candidates = rq_Candidates req\<rparr>
                (members_of (rq_Cluster req) s);
          c = filter (\<lambda>(n, e). n = rq_Node req \<or> \<not> expired now s e) c;
          peers = map (peer_info now src) (filter (\<lambda>(n, e). n \<noteq> rq_Node req) c)
      in (\<lparr>rp_You = Some src, rp_Peers = sort_key pe_Node peers, rp_Error = [], rp_Op = [], rp_From = [],
           rp_Nonce = [], rp_Candidates = []\<rparr>,
          s\<lparr>rs_clusters := AList.update (rq_Cluster req) c (rs_clusters s)\<rparr>))"

definition rv_connect :: "int \<Rightarrow> rv_request \<Rightarrow> udp_addr \<Rightarrow> rv_server \<Rightarrow> rv_forward option \<times> rv_server" where
  "rv_connect now req src s =
     (if rq_Peer req = [] \<or> rq_Peer req = rq_Node req then (None, s)
      else let (allowed, s) = allow now src s; c = members_of (rq_Cluster req) s
      in if \<not> allowed then (None, s)
      else case map_of c (rq_Peer req) of
          None \<Rightarrow> (None, s)
        | Some target \<Rightarrow>
            if expired now s target then (None, s)
            else (Some \<lparr>fw_To = rv_addr target,
                    fw_Body = \<lparr>rp_You = Some (rv_addr target), rp_Peers = [], rp_Error = [], rp_Op = ''punch'',
                      rp_From = rq_Node req, rp_Nonce = rq_Nonce req,
                      rp_Candidates = (case map_of c (rq_Node req) of None \<Rightarrow> [] | Some mine \<Rightarrow> rv_candidates mine)\<rparr>\<rparr>, s))"

text \<open>What the server answers: nothing, a reply to the source, or a datagram to a third address.\<close>

datatype rv_answer = Silent | Reply rv_response | Forwarded rv_forward

definition handle :: "int \<Rightarrow> rv_request option \<Rightarrow> udp_addr \<Rightarrow> rv_server \<Rightarrow> rv_answer \<times> rv_server" where
  "handle now payload src s =
     (case payload of
        None \<Rightarrow> (Silent, s)
      | Some req \<Rightarrow>
          if rq_Cluster req = [] \<or> rq_Node req = [] then (Silent, s)
          else if rs_only s \<noteq> [] \<and> rq_Cluster req \<noteq> rs_only s then (Silent, s)
          else if rq_Op req = ''connect'' then
            (case rv_connect now req src s of
               (None, s) \<Rightarrow> (Silent, s) | (Some f, s) \<Rightarrow> (Forwarded f, s))
          else if rq_Op req \<noteq> ''register'' then (Silent, s)
          else case register_node now req src s of (r, s) \<Rightarrow> (Reply r, s))"

subsection \<open>The client's side\<close>

text \<open>One try of \<open>RegisterWith\<close>: the write or the read fails, the datagram does not parse, or a response.\<close>

datatype register_try = WriteFailed | ReadFailed | NotJSON | Got rv_response

datatype register_error = ServerSaid string | NoAnswer

fun register_tries :: "nat \<Rightarrow> register_try list \<Rightarrow> register_error + udp_addr \<times> rv_peer list" where
  "register_tries (Suc n) (Got resp # tries) =
     (if rp_Op resp = ''punch'' then register_tries n tries
      else if rp_Error resp \<noteq> [] then Inl (ServerSaid (rp_Error resp))
      else case rp_You resp of
          None \<Rightarrow> register_tries n tries
        | Some you \<Rightarrow> Inr (you, rp_Peers resp))"
| "register_tries (Suc n) (_ # tries) = register_tries n tries"
| "register_tries _ _ = Inl NoAnswer"

definition RegisterWith :: "register_try list \<Rightarrow> register_error + udp_addr \<times> rv_peer list" where
  "RegisterWith tries = register_tries 3 tries"

record punch =
  pu_From :: string
  pu_Nonce :: string
  pu_Candidates :: "string list"
  pu_You :: "udp_addr option"

definition ParsePunch :: "rv_response option \<Rightarrow> punch option" where
  "ParsePunch payload =
     (case payload of
        None \<Rightarrow> None
      | Some resp \<Rightarrow>
          if rp_Op resp \<noteq> ''punch'' \<or> rp_From resp = [] then None
          else Some \<lparr>pu_From = rp_From resp, pu_Nonce = rp_Nonce resp, pu_Candidates = rp_Candidates resp,
                     pu_You = rp_You resp\<rparr>)"

definition ParseRegister :: "rv_response option \<Rightarrow> (udp_addr \<times> rv_peer list) option" where
  "ParseRegister payload =
     (case payload of
        None \<Rightarrow> None
      | Some resp \<Rightarrow>
          if rp_Op resp \<noteq> [] then None
          else case rp_You resp of None \<Rightarrow> None | Some you \<Rightarrow> Some (you, rp_Peers resp))"

definition RegisterPacket :: "string \<Rightarrow> string \<Rightarrow> string list \<Rightarrow> rv_request" where
  "RegisterPacket cluster node candidates =
     \<lparr>rq_Op = ''register'', rq_Cluster = cluster, rq_Node = node, rq_Candidates = candidates, rq_Peer = [], rq_Nonce = []\<rparr>"

definition RequestPunch :: "string \<Rightarrow> string \<Rightarrow> string \<Rightarrow> string \<Rightarrow> rv_request" where
  "RequestPunch cluster node peer nonce =
     \<lparr>rq_Op = ''connect'', rq_Cluster = cluster, rq_Node = node, rq_Candidates = [], rq_Peer = peer, rq_Nonce = nonce\<rparr>"


subsection \<open>Runs\<close>

record datagram =
  dg_now :: int
  dg_payload :: "rv_request option"
  dg_from :: udp_addr

definition rv_step :: "datagram \<Rightarrow> rv_server \<Rightarrow> rv_server" where
  "rv_step d s = snd (handle (dg_now d) (dg_payload d) (dg_from d) s)"

definition answer :: "datagram \<Rightarrow> rv_server \<Rightarrow> rv_answer" where
  "answer d s = fst (handle (dg_now d) (dg_payload d) (dg_from d) s)"

fun is_forward :: "rv_answer \<Rightarrow> bool" where
  "is_forward (Forwarded f) \<longleftrightarrow> True"
| "is_forward _ \<longleftrightarrow> False"

text \<open>How many datagrams a source host made the server send to somebody else.\<close>

fun forwards_for :: "(ip \<times> string) \<Rightarrow> datagram list \<Rightarrow> rv_server \<Rightarrow> nat" where
  "forwards_for h [] s = 0"
| "forwards_for h (d # ds) s =
     (if host_of (dg_from d) = h \<and> is_forward (answer d s) then 1 else 0) + forwards_for h ds (rv_step d s)"

text \<open>The clock of the datagrams does not run backwards.\<close>

definition in_time :: "datagram list \<Rightarrow> bool" where
  "in_time ds \<longleftrightarrow> sorted (map dg_now ds)"

lemma handle_cases:
  obtains (silent) "answer d s = Silent" "rv_step d s = s"
  | (connect) req where "dg_payload d = Some req" "rq_Op req = ''connect''"
      "rv_step d s = snd (rv_connect (dg_now d) req (dg_from d) s)"
      "answer d s = (case fst (rv_connect (dg_now d) req (dg_from d) s) of None \<Rightarrow> Silent | Some f \<Rightarrow> Forwarded f)"
  | (register) req where "dg_payload d = Some req" "rq_Op req = ''register''" "rq_Cluster req \<noteq> []" "rq_Node req \<noteq> []"
      "rs_only s \<noteq> [] \<longrightarrow> rq_Cluster req = rs_only s"
      "rv_step d s = snd (register_node (dg_now d) req (dg_from d) s)"
      "answer d s = Reply (fst (register_node (dg_now d) req (dg_from d) s))"
proof (cases "dg_payload d")
  case None
  then show ?thesis by (intro silent) (simp_all add: answer_def rv_step_def handle_def)
next
  case (Some req)
  note S = Some
  show ?thesis
  proof (cases "rq_Cluster req = [] \<or> rq_Node req = [] \<or> (rs_only s \<noteq> [] \<and> rq_Cluster req \<noteq> rs_only s)")
    case True
    then show ?thesis using S by (intro silent) (auto simp: answer_def rv_step_def handle_def)
  next
    case False
    consider "rq_Op req = ''connect''" | "rq_Op req = ''register''" | "rq_Op req \<noteq> ''connect''" "rq_Op req \<noteq> ''register''"
      by blast
    then show ?thesis
    proof cases
      case 1
      then show ?thesis using S False
        by (intro connect [of req])
          (auto simp: answer_def rv_step_def handle_def split: prod.split option.split)
    next
      case 2
      then show ?thesis using S False
        by (intro register [of req]) (auto simp: answer_def rv_step_def handle_def split: prod.split)
    next
      case 3
      then show ?thesis using S False by (intro silent) (simp_all add: answer_def rv_step_def handle_def)
    qed
  qed
qed

subsection \<open>The rate limit holds over every window\<close>

text \<open>What a host may still spend at a time, a bucket that was dropped counting as full.\<close>

definition credit :: "int \<Rightarrow> (ip \<times> string) \<Rightarrow> rv_server \<Rightarrow> f64" where
  "credit t h s = bk_tokens (refill t (bucket_of t h s))"

definition rates_ok :: "int \<Rightarrow> ((ip \<times> string) \<times> bucket) list \<Rightarrow> bool" where
  "rates_ok t rate \<longleftrightarrow> keys_distinct rate
     \<and> (\<forall>(h, b) \<in> set rate. 0 \<le> bk_tokens b \<and> bk_tokens b \<le> connectBurst \<and> bk_last b \<le> t)"

lemma Seconds_nonneg: "0 \<le> d \<Longrightarrow> 0 \<le> Seconds d"
  by (simp add: Seconds_def second_def)

lemma Seconds_0: "Seconds 0 = 0"
  by (simp add: Seconds_def)

lemma Seconds_add: "Seconds (a + b) = Seconds a + Seconds b"
  by (simp add: Seconds_def add_divide_distrib)

lemma Seconds_minute: "minute < d \<Longrightarrow> 60 \<le> Seconds d"
  by (simp add: Seconds_def second_def minute_def field_simps)

lemma rates_ok_later: "rates_ok t rate \<Longrightarrow> t \<le> t' \<Longrightarrow> rates_ok t' rate"
  by (fastforce simp: rates_ok_def)

lemma rates_ok_drop: "rates_ok t rate \<Longrightarrow> rates_ok t (drop_quiet now rate)"
  by (auto simp: rates_ok_def drop_quiet_def keys_distinct_filter)

lemma rates_ok_put:
  assumes "rates_ok t rate" "0 \<le> bk_tokens b" "bk_tokens b \<le> connectBurst" "bk_last b \<le> t"
  shows "rates_ok t (AList.update h b rate)"
  using assms set_update_sub [of h b rate] gm.wf_put [of rate h b]
  by (auto simp: rates_ok_def)

lemma bucket_ok:
  assumes "rates_ok t (rs_rate s)"
  shows "0 \<le> bk_tokens (bucket_of t h s) \<and> bk_tokens (bucket_of t h s) \<le> connectBurst \<and> bk_last (bucket_of t h s) \<le> t"
  using assms by (auto simp: bucket_of_def rates_ok_def connectBurst_def dest!: map_of_SomeD split: option.splits)

lemma refill_ok:
  assumes "0 \<le> bk_tokens b" "bk_last b \<le> t"
  shows "0 \<le> bk_tokens (refill t b)" "bk_tokens (refill t b) \<le> connectBurst" "bk_last (refill t b) = t"
  using assms Seconds_nonneg [of "t - bk_last b"] by (auto simp: refill_def connectBurst_def connectPerSec_def)

lemma credit_bounds:
  assumes "rates_ok t (rs_rate s)"
  shows "0 \<le> credit t h s" "credit t h s \<le> connectBurst"
  using bucket_ok [OF assms, of h] refill_ok [of "bucket_of t h s" t] by (simp_all add: credit_def)

text \<open>While nothing arrives a host gains at most four a second.\<close>

lemma credit_later:
  assumes "rates_ok t (rs_rate s)" "t \<le> t'"
  shows "credit t' h s \<le> credit t h s + 4 * Seconds (t' - t)"
proof (cases "map_of (rs_rate s) h")
  case None
  then show ?thesis using assms Seconds_nonneg [of "t' - t"]
    by (simp add: credit_def bucket_of_def refill_def Seconds_0)
next
  case (Some b)
  have "Seconds (t' - bk_last b) = Seconds (t' - t) + Seconds (t - bk_last b)"
    using Seconds_add [of "t' - t" "t - bk_last b"] by simp
  then show ?thesis using Some Seconds_nonneg [of "t' - t"] assms(2)
    by (simp add: credit_def bucket_of_def refill_def connectPerSec_def min_def algebra_simps)
qed

text \<open>Dropping a bucket that was quiet for a minute gives its host nothing: it was full.\<close>

lemma bucket_drop_quiet:
  assumes ok: "rates_ok t rate" and s': "rs_rate s' = drop_quiet t rate" and s: "rs_rate s = rate"
  shows "credit t h s' = credit t h s"
proof (cases "4096 < length rate")
  case True
  have d: "keys_distinct rate" using ok by (simp add: rates_ok_def)
  show ?thesis
  proof (cases "map_of rate h")
    case None
    then show ?thesis using True d s s'
      by (simp add: credit_def bucket_of_def drop_quiet_def map_of_filter_table)
  next
    case (Some b)
    have b: "0 \<le> bk_tokens b" "bk_last b \<le> t" using map_of_SomeD [OF Some] ok by (auto simp: rates_ok_def)
    show ?thesis
    proof (cases "minute < t - bk_last b")
      case False
      then show ?thesis using True d s s' Some
        by (simp add: credit_def bucket_of_def drop_quiet_def map_of_filter_table)
    next
      case quiet: True
      have "60 \<le> Seconds (t - bk_last b)" by (rule Seconds_minute [OF quiet])
      then have "bk_tokens (refill t b) = connectBurst" using b
        by (simp add: refill_def connectBurst_def connectPerSec_def)
      moreover have "bk_tokens (refill t \<lparr>bk_tokens = connectBurst, bk_last = t\<rparr>) = connectBurst"
        by (simp add: refill_def connectBurst_def connectPerSec_def Seconds_def)
      ultimately show ?thesis using True d s s' Some quiet
        by (simp add: credit_def bucket_of_def drop_quiet_def map_of_filter_table)
    qed
  qed
qed (simp add: credit_def bucket_of_def drop_quiet_def s s')


lemma drop_quiet_keeps:
  "map_of rate h = Some b \<Longrightarrow> bk_last b = t \<Longrightarrow> keys_distinct rate \<Longrightarrow> map_of (drop_quiet t rate) h = Some b"
  by (simp add: drop_quiet_def map_of_filter_table minute_def second_def)

lemma refill_again: "bk_last b = t \<Longrightarrow> bk_tokens b \<le> connectBurst \<Longrightarrow> refill t b = b"
  by (simp add: refill_def Seconds_0)

text \<open>One call of \<open>allow\<close>: the source pays one when it is let through, nobody else notices.\<close>

lemma allow_credit:
  assumes ok: "rates_ok t (rs_rate s)"
  shows "rates_ok t (rs_rate (snd (allow t src s)))
    \<and> credit t h (snd (allow t src s)) = credit t h s - (if host_of src = h \<and> fst (allow t src s) then 1 else 0)"
proof -
  define g where "g = host_of src"
  define b where "b = refill t (bucket_of t g s)"
  define rate where "rate = AList.update g b (rs_rate s)"
  define b' where "b' = (if bk_tokens b < 1 then b else b\<lparr>bk_tokens := bk_tokens b - 1\<rparr>)"
  define s1 where "s1 = s\<lparr>rs_rate := rate\<rparr>"
  define s2 where "s2 = s\<lparr>rs_rate := drop_quiet t rate\<rparr>"
  define s3 where "s3 = s\<lparr>rs_rate := AList.update g b' (drop_quiet t rate)\<rparr>"
  have fst: "fst (allow t src s) = (1 \<le> bk_tokens b)"
    by (simp add: allow_def Let_def g_def b_def not_less [symmetric])
  have b: "0 \<le> bk_tokens b" "bk_tokens b \<le> connectBurst" "bk_last b = t"
    using bucket_ok [OF ok, of g] refill_ok [of "bucket_of t g s" t] by (simp_all add: b_def)
  have b': "0 \<le> bk_tokens b'" "bk_tokens b' \<le> connectBurst" "bk_last b' = t"
    using b by (simp_all add: b'_def)
  have ok1: "rates_ok t rate" unfolding rate_def by (rule rates_ok_put [OF ok]) (simp_all add: b)
  have ok2: "rates_ok t (drop_quiet t rate)" by (rule rates_ok_drop [OF ok1])
  have ok3: "rates_ok t (rs_rate s3)" unfolding s3_def
    using rates_ok_put [OF ok2] b' by simp
  have after: "snd (allow t src s) = (if bk_tokens b < 1 then s2 else s3)"
    by (simp add: allow_def Let_def s2_def s3_def rate_def b'_def b_def g_def)
  have kept: "map_of (drop_quiet t rate) g = Some b"
    by (rule drop_quiet_keeps) (use b ok1 in \<open>simp_all add: rate_def go_map_simps rates_ok_def\<close>)
  have same: "credit t k (snd (allow t src s)) = credit t k s3" for k
    using kept by (simp add: after s2_def s3_def b'_def credit_def bucket_of_def go_map_simps)
  have ok': "rates_ok t (rs_rate (snd (allow t src s)))"
    using ok2 ok3 by (simp add: after s2_def)
  have c2: "credit t h s2 = credit t h s1"
    by (rule bucket_drop_quiet [OF ok1]) (simp_all add: s1_def s2_def)
  have c1: "credit t h s1 = credit t h s"
    using b refill_again [of b t] by (auto simp: credit_def s1_def rate_def bucket_of_def go_map_simps b_def)
  have "credit t h s3 = credit t h s - (if g = h \<and> 1 \<le> bk_tokens b then 1 else 0)"
  proof (cases "g = h")
    case True
    have "refill t b' = b'" using b' by (intro refill_again)
    then have "credit t h s3 = bk_tokens b'" using True
      by (simp add: credit_def s3_def bucket_of_def go_map_simps)
    moreover have "credit t h s = bk_tokens b" using True by (simp add: credit_def b_def)
    ultimately show ?thesis using True by (simp add: b'_def)
  next
    case False
    then have "credit t h s3 = credit t h s2"
      by (simp add: credit_def s3_def s2_def bucket_of_def go_map_simps)
    then show ?thesis using False c1 c2 by simp
  qed
  then show ?thesis using ok' fst same by (simp add: g_def)
qed

lemma connect_rate:
  "(rs_rate (snd (rv_connect t req src s)) = rs_rate s \<and> fst (rv_connect t req src s) = None)
   \<or> (rs_rate (snd (rv_connect t req src s)) = rs_rate (snd (allow t src s))
      \<and> (fst (rv_connect t req src s) \<noteq> None \<longrightarrow> fst (allow t src s)))"
  by (auto simp: rv_connect_def Let_def split: prod.splits option.splits)

lemma credit_cong: "rs_rate s = rs_rate s' \<Longrightarrow> credit t h s = credit t h s'"
  by (simp add: credit_def bucket_of_def)

lemma register_rate: "rs_rate (snd (register_node t req src s)) = rs_rate s"
  by (simp add: register_node_def Let_def)

lemma step_credit:
  assumes ok: "rates_ok (dg_now d) (rs_rate s)"
  shows "rates_ok (dg_now d) (rs_rate (rv_step d s))
    \<and> credit (dg_now d) h (rv_step d s)
      \<le> credit (dg_now d) h s - (if host_of (dg_from d) = h \<and> is_forward (answer d s) then 1 else 0)"
proof (cases rule: handle_cases [of d s])
  case silent
  then show ?thesis using ok by simp
next
  case (connect req)
  from connect_rate [of "dg_now d" req "dg_from d" s] show ?thesis
  proof (elim disjE conjE)
    assume "rs_rate (snd (rv_connect (dg_now d) req (dg_from d) s)) = rs_rate s"
      "fst (rv_connect (dg_now d) req (dg_from d) s) = None"
    then show ?thesis using ok connect(3,4) credit_cong [of "rv_step d s" s] by simp
  next
    let ?a = "allow (dg_now d) (dg_from d) s" and ?c = "rv_connect (dg_now d) req (dg_from d) s"
    assume r: "rs_rate (snd ?c) = rs_rate (snd ?a)" and f: "fst ?c \<noteq> None \<longrightarrow> fst ?a"
    have "is_forward (answer d s) \<longrightarrow> fst ?a" using f connect(4) by (auto split: option.splits)
    then show ?thesis
      using allow_credit [OF ok, of "dg_from d" h] r connect(3) credit_cong [of "rv_step d s" "snd ?a"] by auto
  qed
next
  case (register req)
  then show ?thesis using ok credit_cong [of "rv_step d s" s] by (simp add: register_rate)
qed

lemma forwards_bounded:
  assumes "rates_ok t (rs_rate s)" "in_time ds" "\<forall>d \<in> set ds. t \<le> dg_now d \<and> dg_now d \<le> t'" "t \<le> t'"
  shows "of_nat (forwards_for h ds s) \<le> credit t h s + 4 * Seconds (t' - t)"
  using assms
proof (induction ds arbitrary: t s)
  case Nil
  then show ?case using credit_bounds(1) [of t s h] Seconds_nonneg [of "t' - t"] by simp
next
  case (Cons d ds)
  let ?n = "dg_now d" and ?c = "if host_of (dg_from d) = h \<and> is_forward (answer d s) then 1 else 0 :: f64"
  have ok: "rates_ok ?n (rs_rate s)" using Cons.prems(1,3) by (auto intro: rates_ok_later)
  have "of_nat (forwards_for h ds (rv_step d s)) \<le> credit ?n h (rv_step d s) + 4 * Seconds (t' - ?n)"
    using Cons.prems by (intro Cons.IH) (simp_all add: step_credit [OF ok] in_time_def)
  moreover have "credit ?n h (rv_step d s) \<le> credit ?n h s - ?c" using step_credit [OF ok, of h] by simp
  moreover have "credit ?n h s \<le> credit t h s + 4 * Seconds (?n - t)"
    by (rule credit_later [OF Cons.prems(1)]) (use Cons.prems(3) in simp)
  moreover have "Seconds (t' - t) = Seconds (t' - ?n) + Seconds (?n - t)"
    using Seconds_add [of "t' - ?n" "?n - t"] by simp
  moreover have "of_nat (forwards_for h (d # ds) s) = ?c + of_nat (forwards_for h ds (rv_step d s))" by simp
  ultimately show ?case by linarith
qed


lemma rates_ok_run:
  "rates_ok t (rs_rate s) \<Longrightarrow> in_time ds \<Longrightarrow> \<forall>d \<in> set ds. t \<le> dg_now d \<Longrightarrow>
    \<forall>d \<in> set ds. dg_now d \<le> t' \<Longrightarrow> t \<le> t' \<Longrightarrow> rates_ok t' (rs_rate (fold rv_step ds s))"
proof (induction ds arbitrary: t s)
  case Nil
  then show ?case by (simp add: rates_ok_later)
next
  case (Cons d ds)
  have ok: "rates_ok (dg_now d) (rs_rate s)" using Cons.prems(1,3) by (auto intro: rates_ok_later)
  show ?case using Cons.prems step_credit [OF ok] by (simp add: in_time_def Cons.IH [of "dg_now d"])
qed

lemma rates_ok_new: "rates_ok t (rs_rate (NewClusterServer ttl only))"
  by (simp add: rates_ok_def NewClusterServer_def NewServer_def)

text \<open>C10: However many datagrams a host sends and whatever is in them, the introducer sends at
  most 8 + 4 T datagrams to third parties on its behalf in any T seconds of its life; dropping the
  buckets of quiet sources gives nobody more.\<close>

theorem punches_are_rate_limited:
  assumes "in_time (before @ ds)" "\<forall>d \<in> set ds. t0 \<le> dg_now d \<and> dg_now d \<le> t1" "t0 \<le> t1"
    and "\<forall>d \<in> set before. dg_now d \<le> t0"
  shows "of_nat (forwards_for h ds (fold rv_step before (NewClusterServer ttl only))) \<le> 8 + 4 * Seconds (t1 - t0)"
proof -
  let ?s = "fold rv_step before (NewClusterServer ttl only)"
  obtain t where t: "\<forall>d \<in> set before. t \<le> dg_now d" "t \<le> t0"
    using assms(1,4) by (cases before) (auto simp: in_time_def)
  have ok: "rates_ok t0 (rs_rate ?s)"
    by (rule rates_ok_run [OF rates_ok_new [of t]]) (use assms t in \<open>simp_all add: in_time_def sorted_append\<close>)
  have "of_nat (forwards_for h ds ?s) \<le> credit t0 h ?s + 4 * Seconds (t1 - t0)"
    by (rule forwards_bounded [OF ok]) (use assms in \<open>simp_all add: in_time_def sorted_append\<close>)
  then show ?thesis using credit_bounds(2) [OF ok, of h] by (simp add: connectBurst_def)
qed


subsection \<open>The book holds the latest registrations\<close>

text \<open>The registration a datagram makes for a node of a cluster, and the last one of a history.\<close>

definition registration :: "string \<Rightarrow> datagram \<Rightarrow> string \<Rightarrow> string \<Rightarrow> rv_entry option" where
  "registration only d cluster node =
     (case dg_payload d of
        None \<Rightarrow> None
      | Some req \<Rightarrow>
          if rq_Op req = ''register'' \<and> rq_Cluster req = cluster \<and> rq_Node req = node \<and> cluster \<noteq> [] \<and> node \<noteq> []
            \<and> (only = [] \<or> cluster = only)
          then Some \<lparr>rv_addr = dg_from d, rv_seen = dg_now d, rv_candidates = rq_Candidates req\<rparr> else None)"

definition last_registration :: "string \<Rightarrow> datagram list \<Rightarrow> string \<Rightarrow> string \<Rightarrow> rv_entry option" where
  "last_registration only ds cluster node =
     fold (\<lambda>d e. case registration only d cluster node of None \<Rightarrow> e | Some e' \<Rightarrow> Some e') ds None"

lemma last_registration_Nil [simp]: "last_registration only [] cluster node = None"
  by (simp add: last_registration_def)

lemma last_registration_snoc:
  "last_registration only (ds @ [d]) cluster node =
     (case registration only d cluster node of None \<Rightarrow> last_registration only ds cluster node | Some e \<Rightarrow> Some e)"
  by (simp add: last_registration_def split: option.split)

text \<open>The abstraction: what the server holds was registered last, what it does not hold is too old.\<close>

definition book_shows :: "int \<Rightarrow> int \<Rightarrow> string \<Rightarrow> datagram list \<Rightarrow> rv_server \<Rightarrow> bool" where
  "book_shows t ttl only ds s \<longleftrightarrow> rs_only s = only \<and> rs_ttl s = ttl
     \<and> (\<forall>cl. keys_distinct (members_of cl s))
     \<and> (\<forall>cl n e. map_of (members_of cl s) n = Some e \<longrightarrow> last_registration only ds cl n = Some e)
     \<and> (\<forall>cl n e. last_registration only ds cl n = Some e \<longrightarrow> t - rv_seen e \<le> ttl \<longrightarrow> map_of (members_of cl s) n = Some e)"

lemma book_showsI:
  assumes "rs_only s = only" "rs_ttl s = ttl" "\<And>cl. keys_distinct (members_of cl s)"
    and "\<And>cl n e. map_of (members_of cl s) n = Some e \<Longrightarrow> last_registration only ds cl n = Some e"
    and "\<And>cl n e. last_registration only ds cl n = Some e \<Longrightarrow> t - rv_seen e \<le> ttl \<Longrightarrow> map_of (members_of cl s) n = Some e"
  shows "book_shows t ttl only ds s"
  unfolding book_shows_def using assms by blast

lemma book_showsD:
  assumes "book_shows t ttl only ds s"
  shows "rs_only s = only" "rs_ttl s = ttl" "keys_distinct (members_of cl s)"
    and "map_of (members_of cl s) n = Some e \<Longrightarrow> last_registration only ds cl n = Some e"
    and "last_registration only ds cl n = Some e \<Longrightarrow> t - rv_seen e \<le> ttl \<Longrightarrow> map_of (members_of cl s) n = Some e"
proof -
  note A = assms [unfolded book_shows_def]
  show "rs_only s = only" by (rule A [THEN conjunct1])
  show "rs_ttl s = ttl" by (rule A [THEN conjunct2, THEN conjunct1])
  show "keys_distinct (members_of cl s)" by (rule A [THEN conjunct2, THEN conjunct2, THEN conjunct1, rule_format])
  show "last_registration only ds cl n = Some e" if "map_of (members_of cl s) n = Some e"
    by (rule A [THEN conjunct2, THEN conjunct2, THEN conjunct2, THEN conjunct1, rule_format, OF that])
  show "map_of (members_of cl s) n = Some e" if "last_registration only ds cl n = Some e" "t - rv_seen e \<le> ttl"
    by (rule A [THEN conjunct2, THEN conjunct2, THEN conjunct2, THEN conjunct2, rule_format, OF that])
qed

lemma connect_frame:
  "rs_clusters (snd (rv_connect t req src s)) = rs_clusters s \<and> rs_only (snd (rv_connect t req src s)) = rs_only s
   \<and> rs_ttl (snd (rv_connect t req src s)) = rs_ttl s"
  by (auto simp: rv_connect_def allow_def Let_def split: option.splits)

lemma book_shows_same:
  assumes "book_shows t ttl only ds s" "t \<le> t'" "rs_clusters s' = rs_clusters s" "rs_only s' = rs_only s"
    "rs_ttl s' = rs_ttl s" "\<And>cl n. last_registration only ds' cl n = last_registration only ds cl n"
  shows "book_shows t' ttl only ds' s'"
proof -
  have m: "members_of cl s' = members_of cl s" for cl using assms(3) by (simp add: members_of_def)
  note D = book_showsD [OF assms(1)]
  show ?thesis
  proof (rule book_showsI, goal_cases)
    case 1
    show ?case using assms(4) D(1) by simp
  next
    case 2
    show ?case using assms(5) D(2) by simp
  next
    case (3 cl)
    show ?case unfolding m by (rule D(3))
  next
    case (4 cl n e)
    then show ?case unfolding m assms(6) by (rule D(4))
  next
    case (5 cl n e)
    then have "last_registration only ds cl n = Some e" "t - rv_seen e \<le> ttl" using assms(2,6) by simp_all
    then show ?case unfolding m by (rule D(5))
  qed
qed

lemma register_members:
  assumes "keys_distinct (members_of (rq_Cluster req) s)"
  shows "map_of (members_of cl (snd (register_node t req src s))) n =
     (if cl = rq_Cluster req then
        (if n = rq_Node req then Some \<lparr>rv_addr = src, rv_seen = t, rv_candidates = rq_Candidates req\<rparr>
         else case map_of (members_of cl s) n of None \<Rightarrow> None | Some e \<Rightarrow> if expired t s e then None else Some e)
      else map_of (members_of cl s) n)"
  using gm.wf_put [OF assms]
  by (auto simp: register_node_def Let_def members_of_def go_map_simps map_of_filter_table split: option.splits)

lemma register_distinct:
  assumes "\<And>cl. keys_distinct (members_of cl s)"
  shows "keys_distinct (members_of cl (snd (register_node t req src s)))"
  using assms [of cl] gm.wf_put [OF assms [of "rq_Cluster req"]]
  by (auto simp: register_node_def Let_def members_of_def go_map_simps keys_distinct_filter split: option.splits)

lemma register_frame:
  "rs_only (snd (register_node t req src s)) = rs_only s" "rs_ttl (snd (register_node t req src s)) = rs_ttl s"
  by (simp_all add: register_node_def Let_def)

lemma registration_None:
  "dg_payload d = Some req \<Longrightarrow> rq_Op req \<noteq> ''register'' \<Longrightarrow> registration only d cl n = None"
  by (simp add: registration_def)

lemma silent_registration:
  assumes "answer d s = Silent" "rs_only s = only"
  shows "registration only d cl n = None"
  using assms by (cases "dg_payload d") (auto simp: answer_def handle_def registration_def split: if_splits prod.splits)

lemma book_step:
  assumes book: "book_shows t ttl only ds s" and le: "t \<le> dg_now d"
  shows "book_shows (dg_now d) ttl only (ds @ [d]) (rv_step d s)"
proof (cases rule: handle_cases [of d s])
  case silent
  have "rs_only s = only" using book by (simp add: book_shows_def)
  then have "last_registration only (ds @ [d]) cl n = last_registration only ds cl n" for cl n
    by (simp add: last_registration_snoc silent_registration [OF silent(1)])
  then show ?thesis using book_shows_same [OF book le, of s] silent(2) by simp
next
  case (connect req)
  have "last_registration only (ds @ [d]) cl n = last_registration only ds cl n" for cl n
    using connect(1,2) by (simp add: last_registration_snoc registration_None)
  then show ?thesis using book_shows_same [OF book le, of "rv_step d s"] connect(3) connect_frame by simp
next
  case (register req)
  let ?e = "\<lparr>rv_addr = dg_from d, rv_seen = dg_now d, rv_candidates = rq_Candidates req\<rparr>"
  have o: "rs_only s = only" "rs_ttl s = ttl" and dist: "\<And>cl. keys_distinct (members_of cl s)"
    using book by (simp_all add: book_shows_def)
  have l: "last_registration only (ds @ [d]) cl n =
      (if cl = rq_Cluster req \<and> n = rq_Node req then Some ?e else last_registration only ds cl n)" for cl n
    using register(1-5) o by (auto simp: last_registration_snoc registration_def)
  note D = book_showsD [OF book] and m = register_members [OF dist]
  show ?thesis
  proof (rule book_showsI, goal_cases)
    case (4 cl n e)
    then show ?case using D(4) [of cl n e] register(6) by (simp add: m l split: if_splits option.splits)
  next
    case (5 cl n e)
    show ?case
    proof (cases "cl = rq_Cluster req \<and> n = rq_Node req")
      case True
      then show ?thesis using 5 register(6) by (simp add: m l)
    next
      case False
      then have "map_of (members_of cl s) n = Some e"
        using 5 le by (intro D(5)) (auto simp: l)
      then show ?thesis using 5 False register(6) o by (auto simp: m expired_def)
    qed
  qed (use o register(6) register_frame register_distinct [OF dist] in simp_all)
qed

lemma book_run:
  "in_time ds \<Longrightarrow> \<forall>d \<in> set ds. dg_now d \<le> t \<Longrightarrow>
    book_shows t (rs_ttl (NewServer ttl)) only ds (fold rv_step ds (NewClusterServer ttl only))"
proof (induction ds arbitrary: t rule: rev_induct)
  case Nil
  show ?case by (simp add: book_shows_def NewClusterServer_def NewServer_def members_of_def)
next
  case (snoc d ds)
  have "book_shows (dg_now d) (rs_ttl (NewServer ttl)) only ds (fold rv_step ds (NewClusterServer ttl only))"
    using snoc.prems(1) by (intro snoc.IH) (simp_all add: in_time_def sorted_append)
  from book_step [OF this order_refl]
  have "book_shows (dg_now d) (rs_ttl (NewServer ttl)) only (ds @ [d])
      (fold rv_step (ds @ [d]) (NewClusterServer ttl only))" by simp
  from book_shows_same [OF this, of t] show ?case using snoc.prems(2) by simp
qed


lemma map_of_distinct_iff:
  "keys_distinct t \<Longrightarrow> (k, v) \<in> set t \<longleftrightarrow> map_of t k = Some v"
  by (simp add: keys_distinct_def)

lemma sorted_distinct_strict:
  "sorted xs \<Longrightarrow> distinct xs \<Longrightarrow> sorted_wrt (<) (xs :: 'a :: linorder list)"
  by (simp add: strict_sorted_iff)

lemma map_sort_key: "map f (sort_key f xs) = sort (map f xs)"
proof (rule properties_for_sort [symmetric])
  show "mset (map f (sort_key f xs)) = mset (map f xs)" unfolding mset_map by simp
qed simp

lemma register_reply:
  assumes dist: "keys_distinct (members_of (rq_Cluster req) s)"
    and rp_def: "rp = fst (register_node t req src s)"
  shows "sorted_wrt (<) (map pe_Node (rp_Peers rp))"
    and "p \<in> set (rp_Peers rp) \<longleftrightarrow>
      (\<exists>m x. m \<noteq> rq_Node req \<and> map_of (members_of (rq_Cluster req) s) m = Some x \<and> \<not> expired t s x
        \<and> p = peer_info t src (m, x))"
proof -
  let ?c = "AList.update (rq_Node req) \<lparr>rv_addr = src, rv_seen = t, rv_candidates = rq_Candidates req\<rparr>
      (members_of (rq_Cluster req) s)"
  let ?f = "filter (\<lambda>(n, e). n \<noteq> rq_Node req) (filter (\<lambda>(n, e). n = rq_Node req \<or> \<not> expired t s e) ?c)"
  have rp: "rp_Peers rp = sort_key pe_Node (map (peer_info t src) ?f)"
    by (simp add: rp_def register_node_def Let_def)
  have d: "keys_distinct ?c" by (rule gm.wf_put [OF dist])
  then have df: "keys_distinct ?f" by (intro keys_distinct_filter)
  have "map pe_Node (map (peer_info t src) fs) = map fst fs" for fs by (simp add: peer_info_def comp_def)
  then have "distinct (map pe_Node (map (peer_info t src) ?f))" using df by (simp only: keys_distinct_def)
  then show "sorted_wrt (<) (map pe_Node (rp_Peers rp))"
    unfolding rp map_sort_key by (intro sorted_distinct_strict) simp_all
  have "(m, x) \<in> set ?f \<longleftrightarrow> m \<noteq> rq_Node req \<and> map_of (members_of (rq_Cluster req) s) m = Some x \<and> \<not> expired t s x" for m x
    using map_of_distinct_iff [OF d, of m x] by (auto simp: go_map_simps split: if_splits)
  then show "p \<in> set (rp_Peers rp) \<longleftrightarrow>
      (\<exists>m x. m \<noteq> rq_Node req \<and> map_of (members_of (rq_Cluster req) s) m = Some x \<and> \<not> expired t s x
        \<and> p = peer_info t src (m, x))"
    unfolding rp set_sort set_map image_iff by (metis surj_pair)
qed

lemma register_answers:
  assumes "registration (rs_only s) d cl n = Some e"
  obtains req where "dg_payload d = Some req" "rq_Cluster req = cl" "rq_Node req = n"
    "answer d s = Reply (fst (register_node (dg_now d) req (dg_from d) s))"
proof -
  from assms obtain req where "dg_payload d = Some req" "rq_Op req = ''register''" "rq_Cluster req = cl" "rq_Node req = n"
    "cl \<noteq> []" "n \<noteq> []" "rs_only s = [] \<or> cl = rs_only s"
    by (auto simp: registration_def split: option.splits if_splits)
  then show ?thesis
    by (intro that [of req]) (auto simp: answer_def handle_def split: prod.split)
qed

text \<open>C8: The address book refines the history of the datagrams: the reply to a registration is the
  caller's own address and, sorted by node, exactly the other nodes of its cluster whose last
  registration is not older than the lifetime, each with the address and the candidates of that
  registration (a loopback address only towards a loopback caller); the client reads it as a
  registration reply and never as a punch.\<close>

theorem book_shows_latest_registrations:
  assumes "in_time (ds @ [d])" and "registration only d cl n = Some e"
  shows "\<exists>rp. answer d (fold rv_step ds (NewClusterServer ttl only)) = Reply rp
    \<and> sorted_wrt (<) (map pe_Node (rp_Peers rp))
    \<and> (\<forall>p. p \<in> set (rp_Peers rp) \<longleftrightarrow>
        (\<exists>m x. m \<noteq> n \<and> last_registration only ds cl m = Some x \<and> dg_now d - rv_seen x \<le> rs_ttl (NewServer ttl)
          \<and> p = peer_info (dg_now d) (dg_from d) (m, x)))
    \<and> ParseRegister (Some rp) = Some (dg_from d, rp_Peers rp) \<and> ParsePunch (Some rp) = None"
proof -
  let ?s = "fold rv_step ds (NewClusterServer ttl only)"
  have book: "book_shows (dg_now d) (rs_ttl (NewServer ttl)) only ds ?s"
    by (rule book_run) (use assms(1) in \<open>simp_all add: in_time_def sorted_append\<close>)
  note D = book_showsD [OF book]
  from assms(2) D(1) obtain req where req: "dg_payload d = Some req" "rq_Cluster req = cl" "rq_Node req = n"
    "answer d ?s = Reply (fst (register_node (dg_now d) req (dg_from d) ?s))"
    by (metis register_answers)
  let ?rp = "fst (register_node (dg_now d) req (dg_from d) ?s)"
  have look: "map_of (members_of cl ?s) m = Some x \<and> \<not> expired (dg_now d) ?s x \<longleftrightarrow>
      last_registration only ds cl m = Some x \<and> dg_now d - rv_seen x \<le> rs_ttl (NewServer ttl)" for m x
    using D(2) D(4) [of cl m x] D(5) [of cl m x] by (auto simp: expired_def)
  have "ParseRegister (Some ?rp) = Some (dg_from d, rp_Peers ?rp)" "ParsePunch (Some ?rp) = None"
    by (simp_all add: register_node_def Let_def ParseRegister_def ParsePunch_def)
  moreover have "sorted_wrt (<) (map pe_Node (rp_Peers ?rp))"
    by (rule register_reply(1) [OF D(3) refl])
  moreover have "p \<in> set (rp_Peers ?rp) \<longleftrightarrow>
      (\<exists>m x. m \<noteq> n \<and> last_registration only ds cl m = Some x \<and> dg_now d - rv_seen x \<le> rs_ttl (NewServer ttl)
          \<and> p = peer_info (dg_now d) (dg_from d) (m, x))" for p
    unfolding register_reply(2) [OF D(3) refl] req(2,3) using look by blast
  ultimately show ?thesis using req(4) by blast
qed

text \<open>C9: A datagram is forwarded only by a connect of a member to a node of the same cluster whose
  registration is alive: it goes to the address that node registered from, names the caller and
  carries only candidates the caller itself registered, and the target reads it as a punch.\<close>

theorem punch_goes_to_a_live_member:
  assumes "in_time (ds @ [d])" and "answer d (fold rv_step ds (NewClusterServer ttl only)) = Forwarded f"
  shows "\<exists>req x. dg_payload d = Some req \<and> rq_Op req = ''connect'' \<and> rq_Peer req \<noteq> rq_Node req
    \<and> last_registration only ds (rq_Cluster req) (rq_Peer req) = Some x \<and> dg_now d - rv_seen x \<le> rs_ttl (NewServer ttl)
    \<and> fw_To f = rv_addr x \<and> (only = [] \<or> rq_Cluster req = only)
    \<and> ParsePunch (Some (fw_Body f)) = Some \<lparr>pu_From = rq_Node req, pu_Nonce = rq_Nonce req,
         pu_Candidates = rp_Candidates (fw_Body f), pu_You = Some (rv_addr x)\<rparr>
    \<and> (rp_Candidates (fw_Body f) = []
        \<or> (\<exists>y. last_registration only ds (rq_Cluster req) (rq_Node req) = Some y \<and> rp_Candidates (fw_Body f) = rv_candidates y))"
proof -
  let ?s = "fold rv_step ds (NewClusterServer ttl only)"
  have book: "book_shows (dg_now d) (rs_ttl (NewServer ttl)) only ds ?s"
    by (rule book_run) (use assms(1) in \<open>simp_all add: in_time_def sorted_append\<close>)
  note D = book_showsD [OF book]
  from assms(2) D(1) obtain req where req: "dg_payload d = Some req" "rq_Op req = ''connect''" "rq_Node req \<noteq> []"
      "only = [] \<or> rq_Cluster req = only" "fst (rv_connect (dg_now d) req (dg_from d) ?s) = Some f"
    by (auto simp: answer_def handle_def split: option.splits if_splits prod.splits)
  have m: "members_of cl (snd (allow t src s)) = members_of cl s" and ttl: "rs_ttl (snd (allow t src s)) = rs_ttl s"
    for cl t src s by (simp_all add: allow_def members_of_def Let_def)
  let ?c = "members_of (rq_Cluster req) ?s"
  from req(5) obtain x where x: "map_of ?c (rq_Peer req) = Some x" "\<not> expired (dg_now d) ?s x" "rq_Peer req \<noteq> rq_Node req"
    and f: "fw_To f = rv_addr x" "rp_Op (fw_Body f) = ''punch''" "rp_From (fw_Body f) = rq_Node req"
      "rp_Nonce (fw_Body f) = rq_Nonce req" "rp_You (fw_Body f) = Some (rv_addr x)"
      "rp_Candidates (fw_Body f) = (case map_of ?c (rq_Node req) of None \<Rightarrow> [] | Some y \<Rightarrow> rv_candidates y)"
    by (auto simp: rv_connect_def Let_def m ttl expired_def case_prod_beta split: option.splits if_splits)
  have "rp_Candidates (fw_Body f) = []
      \<or> (\<exists>y. last_registration only ds (rq_Cluster req) (rq_Node req) = Some y \<and> rp_Candidates (fw_Body f) = rv_candidates y)"
    using f(6) D(4) [of "rq_Cluster req" "rq_Node req"] by (auto split: option.splits)
  moreover have "ParsePunch (Some (fw_Body f)) = Some \<lparr>pu_From = rq_Node req, pu_Nonce = rq_Nonce req,
         pu_Candidates = rp_Candidates (fw_Body f), pu_You = Some (rv_addr x)\<rparr>"
    using f req(3) by (simp add: ParsePunch_def)
  moreover have "last_registration only ds (rq_Cluster req) (rq_Peer req) = Some x" by (rule D(4) [OF x(1)])
  moreover have "dg_now d - rv_seen x \<le> rs_ttl (NewServer ttl)" using x(2) D(2) by (simp add: expired_def)
  ultimately show ?thesis using req x(3) f(1) by blast
qed


subsection \<open>A small cluster\<close>

definition ex_at :: "nat \<Rightarrow> udp_addr" where
  "ex_at n = \<lparr>ua_IP = V4 (0xcb007100 + of_nat n), ua_Zone = [], ua_Port = 4242\<rparr>"

definition ex_register :: "int \<Rightarrow> nat \<Rightarrow> string \<Rightarrow> datagram" where
  "ex_register t n node = \<lparr>dg_now = t, dg_payload = Some (RegisterPacket ''c'' node [''lan:'' @ node]), dg_from = ex_at n\<rparr>"

definition ex_connect :: "int \<Rightarrow> nat \<Rightarrow> string \<Rightarrow> string \<Rightarrow> datagram" where
  "ex_connect t n node peer = \<lparr>dg_now = t, dg_payload = Some (RequestPunch ''c'' node peer ''1''), dg_from = ex_at n\<rparr>"

definition ex_members :: "datagram list" where
  "ex_members = [ex_register 0 1 ''a'', ex_register 0 2 ''b'']"

lemmas ex_rendezvous = ex_members_def ex_register_def ex_connect_def ex_at_def RegisterPacket_def RequestPunch_def in_time_def

lemma punches_are_rate_limited_witness:
  "in_time (ex_members @ replicate 9 (ex_connect 0 2 ''b'' ''a''))
   \<and> (of_nat (forwards_for (V4 0xcb007102, []) (replicate 9 (ex_connect 0 2 ''b'' ''a''))
       (fold rv_step ex_members (NewClusterServer minute ''c''))) :: f64) \<le> 8 + 4 * Seconds (0 - 0)"
proof
  show "in_time (ex_members @ replicate 9 (ex_connect 0 2 ''b'' ''a''))" by code_simp
  then show "of_nat (forwards_for (V4 0xcb007102, []) (replicate 9 (ex_connect 0 2 ''b'' ''a''))
       (fold rv_step ex_members (NewClusterServer minute ''c''))) \<le> 8 + 4 * Seconds (0 - 0)"
    by (rule punches_are_rate_limited) (simp_all add: ex_rendezvous)
qed

text \<open>The bound is met: of nine connects at once eight are forwarded.\<close>

lemma burst_is_forwarded:
  "forwards_for (V4 0xcb007102, []) (replicate 9 (ex_connect 0 2 ''b'' ''a''))
     (fold rv_step ex_members (NewClusterServer minute ''c'')) = 8"
  by code_simp

lemma book_shows_latest_registrations_witness:
  "\<exists>rp. answer (ex_register second 3 ''d'') (fold rv_step ex_members (NewClusterServer minute ''c'')) = Reply rp
    \<and> map pe_Node (rp_Peers rp) = [''a'', ''b''] \<and> ParsePunch (Some rp) = None"
proof -
  have "registration ''c'' (ex_register second 3 ''d'') ''c'' ''d''
      = Some \<lparr>rv_addr = ex_at 3, rv_seen = second, rv_candidates = [''lan:d'']\<rparr>"
    by code_simp
  moreover have "in_time (ex_members @ [ex_register second 3 ''d''])" by code_simp
  ultimately obtain rp where rp:
    "answer (ex_register second 3 ''d'') (fold rv_step ex_members (NewClusterServer minute ''c'')) = Reply rp"
    "ParsePunch (Some rp) = None"
    using book_shows_latest_registrations by blast
  have "(case answer (ex_register second 3 ''d'') (fold rv_step ex_members (NewClusterServer minute ''c'')) of
      Reply rp \<Rightarrow> map pe_Node (rp_Peers rp) | _ \<Rightarrow> []) = [''a'', ''b'']" by code_simp
  then have "map pe_Node (rp_Peers rp) = [''a'', ''b'']" by (simp only: rp(1) rv_answer.case)
  with rp show ?thesis by (intro exI [of _ rp] conjI)
qed

lemma punch_goes_to_a_live_member_witness:
  "\<exists>f x. answer (ex_connect second 2 ''b'' ''a'') (fold rv_step ex_members (NewClusterServer minute ''c'')) = Forwarded f
    \<and> last_registration ''c'' ex_members ''c'' ''a'' = Some x \<and> fw_To f = rv_addr x"
proof -
  have "is_forward (answer (ex_connect second 2 ''b'' ''a'') (fold rv_step ex_members (NewClusterServer minute ''c'')))"
    by code_simp
  then obtain f where f: "answer (ex_connect second 2 ''b'' ''a'')
      (fold rv_step ex_members (NewClusterServer minute ''c'')) = Forwarded f"
    by (metis is_forward.elims(2))
  have "in_time (ex_members @ [ex_connect second 2 ''b'' ''a''])" by code_simp
  from punch_goes_to_a_live_member [OF this f] obtain req x
    where "dg_payload (ex_connect second 2 ''b'' ''a'') = Some req"
      "last_registration ''c'' ex_members (rq_Cluster req) (rq_Peer req) = Some x" "fw_To f = rv_addr x" by blast
  moreover from this(1) have "rq_Cluster req = ''c''" "rq_Peer req = ''a''"
    by (auto simp: ex_connect_def RequestPunch_def)
  ultimately show ?thesis using f by metis
qed

text \<open>
  Expired nodes are only dropped when a node of the same cluster registers, so the entries of a
  cluster nobody registers with again are kept for ever.
\<close>

lemma other_clusters_are_kept:
  assumes "dg_payload d = Some req" "rq_Cluster req \<noteq> cl"
  shows "members_of cl (rv_step d s) = members_of cl s"
  using assms connect_frame [of "dg_now d" req "dg_from d" s]
  by (cases rule: handle_cases [of d s])
    (simp_all add: members_of_def register_node_def Let_def go_map_simps)

end
