(* ===== verification/GoStrings.thy ===== *)
theory GoStrings
  imports Prelude
begin

text \<open>
  What the components use of Go's \<open>strings\<close> and \<open>strconv\<close> packages. A Go string is a list of
  bytes, a HOL string a list of characters with the same codes; \<open>TrimSpace\<close> and \<open>ToLower\<close> are
  their ASCII part.
\<close>

subsection \<open>Searching and cutting\<close>

definition HasPrefix :: "string \<Rightarrow> string \<Rightarrow> bool" where
  "HasPrefix s p \<longleftrightarrow> take (length p) s = p"

definition HasSuffix :: "string \<Rightarrow> string \<Rightarrow> bool" where
  "HasSuffix s p \<longleftrightarrow> HasPrefix (rev s) (rev p)"

fun Contains :: "string \<Rightarrow> string \<Rightarrow> bool" where
  "Contains [] p \<longleftrightarrow> p = []"
| "Contains (c # s) p \<longleftrightarrow> HasPrefix (c # s) p \<or> Contains s p"

text \<open>\<open>Cut\<close> at the first separator of one byte; \<open>None\<close> when there is none.\<close>

fun Cut :: "char \<Rightarrow> string \<Rightarrow> (string \<times> string) option" where
  "Cut sep [] = None"
| "Cut sep (c # s) =
     (if c = sep then Some ([], s)
      else case Cut sep s of None \<Rightarrow> None | Some (a, b) \<Rightarrow> Some (c # a, b))"

text \<open>\<open>Split\<close> at every separator of one byte.\<close>

fun Split :: "char \<Rightarrow> string \<Rightarrow> string list" where
  "Split sep [] = [[]]"
| "Split sep (c # s) =
     (if c = sep then [] # Split sep s
      else case Split sep s of [] \<Rightarrow> [[c]] | w # ws \<Rightarrow> (c # w) # ws)"

fun Join :: "string \<Rightarrow> string list \<Rightarrow> string" where
  "Join sep [] = []"
| "Join sep [w] = w"
| "Join sep (w # ws) = w @ sep @ Join sep ws"

lemma Cut_Some: "Cut sep s = Some (a, b) \<Longrightarrow> s = a @ sep # b \<and> sep \<notin> set a"
  by (induction s arbitrary: a) (auto split: if_splits option.splits)

lemma Cut_None: "Cut sep s = None \<longleftrightarrow> sep \<notin> set s"
  by (induction s) (auto split: option.splits)

lemma Split_not_Nil [simp]: "Split sep s \<noteq> []"
  by (cases s) (auto split: list.split)

lemma Join_Split: "Join [sep] (Split sep s) = s"
proof (induction s)
  case (Cons c s)
  obtain w ws where w: "Split sep s = w # ws" by (cases "Split sep s") (simp_all only: Split_not_Nil)
  then show ?case using Cons by (cases ws) auto
qed simp

lemma Split_parts: "w \<in> set (Split sep s) \<Longrightarrow> sep \<notin> set w"
proof (induction s arbitrary: w)
  case (Cons c s)
  then show ?case by (cases "Split sep s") (auto split: if_splits)
qed simp

definition is_space :: "char \<Rightarrow> bool" where
  "is_space c \<longleftrightarrow> c = CHR 0x20 \<or> (9 \<le> (of_char c :: nat) \<and> (of_char c :: nat) \<le> 13)"

definition TrimSpace :: "string \<Rightarrow> string" where
  "TrimSpace s = rev (dropWhile is_space (rev (dropWhile is_space s)))"

definition lower_char :: "char \<Rightarrow> char" where
  "lower_char c = (if 65 \<le> (of_char c :: nat) \<and> (of_char c :: nat) \<le> 90 then char_of (of_char c + 32 :: nat) else c)"

definition ToLower :: "string \<Rightarrow> string" where
  "ToLower s = map lower_char s"

subsection \<open>Numbers\<close>

definition is_digit :: "char \<Rightarrow> bool" where
  "is_digit c \<longleftrightarrow> 48 \<le> (of_char c :: nat) \<and> (of_char c :: nat) \<le> 57"

text \<open>A sign and the rest.\<close>

fun split_sign :: "string \<Rightarrow> bool \<times> string" where
  "split_sign [] = (False, [])"
| "split_sign (c # s) = (if c = CHR ''-'' then (True, s) else if c = CHR ''+'' then (False, s) else (False, c # s))"

definition signed_value :: "bool \<Rightarrow> string \<Rightarrow> int" where
  "signed_value neg digits = (if neg then - int (undecimal digits) else int (undecimal digits))"

text \<open>\<open>strconv.Atoi\<close>: an optional sign and decimal digits, within int64.\<close>

definition Atoi :: "string \<Rightarrow> int option" where
  "Atoi s =
     (let (neg, ds) = split_sign s; n = signed_value neg ds
      in if ds = [] \<or> \<not> list_all is_digit ds then None
         else if n < int64_min \<or> - int64_min \<le> n then None else Some n)"

definition pow10 :: "int \<Rightarrow> f64" where
  "pow10 e = (if 0 \<le> e then 10 ^ nat e else 1 / 10 ^ nat (- e))"

text \<open>
  \<open>strconv.ParseFloat\<close> of a decimal numeral, with its exact value. The forms without a rational
  value (infinities, NaN) and hexadecimal floats are not numerals here.
\<close>

definition ParseFloat :: "string \<Rightarrow> f64 option" where
  "ParseFloat s =
     (let (neg, s) = split_sign s;
          ip = takeWhile is_digit s; s = dropWhile is_digit s;
          (fp, s) = (case s of c # r \<Rightarrow> if c = CHR ''.'' then (takeWhile is_digit r, dropWhile is_digit r) else ([], s)
                      | [] \<Rightarrow> ([], s));
          ex = (case s of [] \<Rightarrow> Some 0 | c # r \<Rightarrow> if c = CHR ''e'' \<or> c = CHR ''E'' then Atoi r else None)
      in if ip = [] \<and> fp = [] then None
         else case ex of None \<Rightarrow> None
           | Some e \<Rightarrow> Some ((if neg then -1 else 1) * of_nat (undecimal (ip @ fp)) * pow10 (e - int (length fp))))"

lemma is_digit_char_of: "d < 10 \<Longrightarrow> is_digit (char_of (48 + d :: nat))"
  by (simp add: is_digit_def)

lemma is_digit_decimal: "list_all is_digit (decimal n)"
proof (induction n rule: decimal.induct)
  case (1 n)
  then show ?case by (subst decimal.simps) (simp add: is_digit_char_of)
qed

lemma decimal_not_Nil: "decimal n \<noteq> []"
  by (subst decimal.simps) simp

lemma Atoi_decimal:
  assumes "int n < - int64_min"
  shows "Atoi (decimal n) = Some (int n)"
proof -
  obtain c ds where d: "decimal n = c # ds" using decimal_not_Nil [of n] by (auto simp: neq_Nil_conv)
  have "is_digit c" using is_digit_decimal [of n] by (simp add: d)
  then have "split_sign (decimal n) = (False, decimal n)" by (auto simp: d is_digit_def)
  then show ?thesis using assms is_digit_decimal [of n]
    by (simp add: Atoi_def decimal_not_Nil signed_value_def undecimal_decimal int64_min_def)
qed

end
