(* ===== verification/FindNode.thy ===== *)
theory FindNode
  imports Lease GoStrings "HOL-Library.List_Lexorder" "HOL-Library.Char_ord"
begin

text \<open>
  The choice of a node for a job: \<^verbatim>\<open>src/internal/coordinator/find.go\<close> and \<^verbatim>\<open>nodes.go\<close>, the state of
  \<^verbatim>\<open>coordinator.go\<close> and the node record of \<^verbatim>\<open>registry/registry.go\<close>. What the local daemon, the
  network and a round-robin counter answer is an argument of \<open>FindNode\<close>; the text of the messages is
  replaced by a reason with the figures it shows.
\<close>

subsection \<open>Nodes\<close>

text \<open>The fields of a node record and of its load that placing reads.\<close>

record gpu_info =
  gi_MemoryTotalBytes :: int
  gi_MemoryFreeBytes :: int

record load_info =
  ld_CPUPercent :: f64
  ld_MemPercent :: f64
  ld_ActiveJobs :: int
  ld_AvailableMemBytes :: int
  ld_ReservedMemBytes :: int
  ld_MemCeilingBytes :: int
  ld_TotalCPUs :: int
  ld_GPUModel :: string
  ld_GPUMemBytes :: int
  ld_GPUMemUsedBytes :: int
  ld_GPUUtilPercent :: f64
  ld_GPUs :: "gpu_info list"

record node_record =
  nr_NodeID :: string
  nr_SSHEndpoint :: string
  nr_DaemonPort :: int
  nr_Capabilities :: "(string \<times> string) list"
  nr_Load :: load_info
  nr_HealthScore :: f64
  nr_State :: string

definition no_load :: load_info where
  "no_load = \<lparr>ld_CPUPercent = 0, ld_MemPercent = 0, ld_ActiveJobs = 0, ld_AvailableMemBytes = 0,
     ld_ReservedMemBytes = 0, ld_MemCeilingBytes = 0, ld_TotalCPUs = 0, ld_GPUModel = [], ld_GPUMemBytes = 0,
     ld_GPUMemUsedBytes = 0, ld_GPUUtilPercent = 0, ld_GPUs = []\<rparr>"

text \<open>The zero \<open>NodeRecord\<close>, what a decision without a node carries.\<close>

definition no_node :: node_record where
  "no_node = \<lparr>nr_NodeID = [], nr_SSHEndpoint = [], nr_DaemonPort = 0, nr_Capabilities = [], nr_Load = no_load,
     nr_HealthScore = 0, nr_State = []\<rparr>"

text \<open>Reading a missing key of a Go map of strings gives the empty string.\<close>

definition capability :: "node_record \<Rightarrow> string \<Rightarrow> string" where
  "capability n key = (case map_of (nr_Capabilities n) key of None \<Rightarrow> [] | Some v \<Rightarrow> v)"

definition RoleCapability :: string where "RoleCapability = ''role''"
definition MachineCapability :: string where "MachineCapability = ''machine''"

datatype node_source = SourceDiscovery | SourceSelf | SourceExplicit | SourceManual

datatype turn_down_reason =
    ClosureRefusedBefore string | TakesNoJob string | ArchDiffers string string | NoGPU
  | FewCores int f64 | LittleVRAM int int | LittleMemory int int

text \<open>\<open>Rejected\<close> and \<open>RejectReason\<close> are one field.\<close>

record scored_node =
  sn_Node :: node_record
  sn_Score :: f64
  sn_Source :: node_source
  sn_Reject :: "turn_down_reason option"

record decision =
  pd_ChosenNode :: node_record
  pd_Source :: node_source
  pd_Candidates :: "scored_node list"

text \<open>
  The coordinator of one run. \<open>co_selfHealth\<close> is what the once-only read of the local daemon's
  health gave: its memory ceiling and its role.
\<close>

record coordinator =
  co_NodeID :: string
  co_Arch :: string
  co_Hostname :: string
  co_selfSSH :: string
  co_selfDaemon :: int
  co_selfLoad :: load_info
  co_jobName :: string
  co_requiredMemBytes :: int
  co_requiredCores :: int
  co_requiredGPUMem :: int
  co_retryInterval :: int
  co_placementWindow :: int
  co_execBackoffBase :: int
  co_noSelf :: bool
  co_excludeMachine :: string
  co_requireGPU :: bool
  co_preferGPU :: bool
  co_strategy :: string
  co_rrCounter :: nat
  co_refused :: "(string \<times> string) list"
  co_tried :: "(string \<times> nat) list"
  co_selfHealth :: "(int \<times> string) option"

subsection \<open>Figures of a node\<close>

definition GiB :: int where "GiB = 1073741824"

definition capInt :: "node_record \<Rightarrow> string \<Rightarrow> int" where
  "capInt n key = (case Atoi (capability n key) of None \<Rightarrow> 0 | Some v \<Rightarrow> v)"

definition capFloat :: "node_record \<Rightarrow> string \<Rightarrow> f64" where
  "capFloat n key = (case ParseFloat (capability n key) of None \<Rightarrow> 0 | Some v \<Rightarrow> v)"

definition minFloat :: "f64 \<Rightarrow> f64 \<Rightarrow> f64" where
  "minFloat a b = (if a < b then a else b)"

definition normalized :: "f64 \<Rightarrow> f64 \<Rightarrow> f64" where
  "normalized v saturate = (if v \<le> 0 then 1 / 2 else minFloat (v / saturate) 1)"

definition totalCores :: "node_record \<Rightarrow> int" where
  "totalCores n = (let c = capInt n ''cpu_cores'' in if 0 < c then c else ld_TotalCPUs (nr_Load n))"

definition freeCores :: "node_record \<Rightarrow> f64" where
  "freeCores n =
     (if totalCores n \<le> 0 then 0
      else let free = of_int (totalCores n) * (1 - ld_CPUPercent (nr_Load n) / 100) in if free < 0 then 0 else free)"

definition hasGPU :: "node_record \<Rightarrow> bool" where
  "hasGPU n \<longleftrightarrow> (capability n ''gpu'' \<noteq> [] \<and> capability n ''gpu'' \<noteq> ''none'')
     \<or> ld_GPUModel (nr_Load n) \<noteq> [] \<or> ld_GPUs (nr_Load n) \<noteq> []"

definition bestFreeVRAM :: "node_record \<Rightarrow> int" where
  "bestFreeVRAM n =
     (let ld = nr_Load n;
          best = foldl (\<lambda>best g. if best < gi_MemoryFreeBytes g then gi_MemoryFreeBytes g else best) 0 (ld_GPUs ld);
          best = (if best = 0 \<and> 0 < ld_GPUMemBytes ld then ld_GPUMemBytes ld - ld_GPUMemUsedBytes ld else best)
      in if best < 0 then 0 else best)"

definition maxVRAM :: "node_record \<Rightarrow> int" where
  "maxVRAM n = foldl (\<lambda>best g. max best (gi_MemoryTotalBytes g)) (ld_GPUMemBytes (nr_Load n)) (ld_GPUs (nr_Load n))"

subsection \<open>Scores\<close>

definition scoreNode :: "node_record \<Rightarrow> f64" where
  "scoreNode n =
     (let ld = nr_Load n;
          score = 1 - ld_CPUPercent ld / 200 - ld_MemPercent ld / 200 - of_int (ld_ActiveJobs ld) * (5 / 100);
          cores = normalized (of_int (totalCores n)) 32;
          mhz = normalized (capFloat n ''cpu_mhz'') 4000;
          freeRAM = normalized (of_int (ld_AvailableMemBytes ld) / of_int GiB) 32;
          freeCoreRatio = (if 0 < totalCores n then freeCores n / of_int (totalCores n) else 1 / 2);
          score = score + (cores - 1 / 2) * (10 / 100) + (mhz - 1 / 2) * (6 / 100) + (freeRAM - 1 / 2) * (10 / 100)
            + (freeCoreRatio - 1 / 2) * (10 / 100);
          score = score * nr_HealthScore n
      in if score < 0 then 0 else score)"

definition scoreGPUNode :: "node_record \<Rightarrow> f64" where
  "scoreGPUNode n =
     (if \<not> hasGPU n then 0
      else let ld = nr_Load n; vram = of_int (ld_GPUMemBytes ld);
          score = (if 0 < ld_GPUMemBytes ld then minFloat (vram / of_int GiB / 32) 1 * (3 / 10) else 0);
          score = (if 1 < length (ld_GPUs ld) then score + of_nat (length (ld_GPUs ld) - 1) * (1 / 10) else score);
          score = (if 0 < bestFreeVRAM n \<and> 0 < ld_GPUMemBytes ld
                   then score + minFloat (of_int (bestFreeVRAM n) / vram) 1 * (2 / 10) else score);
          cc = capFloat n ''gpu_compute_cap'';
          score = (if 0 < cc then score + minFloat (cc / 9) 1 * (2 / 10) else score);
          score = score - ld_GPUUtilPercent ld / 100 * (1 / 10);
          score = (if 8 / 10 < score then 8 / 10 else score)
      in if score < 0 then 0 else score)"

subsection \<open>Candidates\<close>

text \<open>A node as \<^verbatim>\<open>/v1/nodes\<close> of the local daemon serves it, and what its \<^verbatim>\<open>/health\<close> says.\<close>

record stored_node =
  st_Node :: node_record
  st_Source :: string

datatype self_reply = NoSelfReply | SelfReply "(string \<times> string) list" "load_info option"

record find_env =
  fe_nodes :: "stored_node list option"
  fe_self :: self_reply
  fe_discovered :: "node_record list"
  fe_roundRobin :: "nat option"

definition queryDaemonNodes :: "coordinator \<Rightarrow> stored_node list option \<Rightarrow> stored_node list" where
  "queryDaemonNodes c reply =
     (if co_selfDaemon c \<le> 0 then [] else case reply of None \<Rightarrow> [] | Some nodes \<Rightarrow> nodes)"

definition nodeSource :: "string \<Rightarrow> node_source" where
  "nodeSource s =
     (if s = [] then SourceDiscovery else if Contains s ''self'' then SourceSelf
      else if Contains s ''manual'' then SourceManual else SourceDiscovery)"

definition selfCeiling :: "self_reply \<Rightarrow> coordinator \<Rightarrow> coordinator" where
  "selfCeiling reply c =
     (case co_selfHealth c of
        Some _ \<Rightarrow> c
      | None \<Rightarrow>
          c\<lparr>co_selfHealth := Some
              (if co_selfDaemon c \<le> 0 then (0, [])
               else case reply of
                   NoSelfReply \<Rightarrow> (0, [])
                 | SelfReply caps load \<Rightarrow>
                     (case load of None \<Rightarrow> 0 | Some ld \<Rightarrow> ld_MemCeilingBytes ld,
                      case map_of caps RoleCapability of None \<Rightarrow> [] | Some r \<Rightarrow> r))\<rparr>)"

definition self_ceiling_role :: "coordinator \<Rightarrow> int \<times> string" where
  "self_ceiling_role c = (case co_selfHealth c of None \<Rightarrow> (0, []) | Some p \<Rightarrow> p)"

definition buildSelfNode :: "coordinator \<Rightarrow> node_record" where
  "buildSelfNode c =
     (let (ceiling, role) = self_ceiling_role c;
          caps = [(''arch'', co_Arch c), (''hostname'', co_Hostname c)];
          caps = (if role \<noteq> [] then (RoleCapability, role) # caps else caps)
      in \<lparr>nr_NodeID = co_NodeID c, nr_SSHEndpoint = co_selfSSH c, nr_DaemonPort = co_selfDaemon c,
          nr_Capabilities = caps, nr_Load = (co_selfLoad c)\<lparr>ld_MemCeilingBytes := ceiling\<rparr>, nr_HealthScore = 1,
          nr_State = ''healthy''\<rparr>)"

fun source_priority :: "node_source \<Rightarrow> nat" where
  "source_priority SourceSelf = 3"
| "source_priority SourceManual = 2"
| "source_priority SourceDiscovery = 1"
| "source_priority SourceExplicit = 0"

fun mergeNode :: "scored_node list \<Rightarrow> scored_node \<Rightarrow> scored_node list" where
  "mergeNode [] new = [new]"
| "mergeNode (s # ss) new =
     (if nr_NodeID (sn_Node s) = nr_NodeID (sn_Node new)
      then (if source_priority (sn_Source s) < source_priority (sn_Source new) then new else s) # ss
      else s # mergeNode ss new)"

definition new_candidate :: "node_record \<Rightarrow> node_source \<Rightarrow> scored_node" where
  "new_candidate n src = \<lparr>sn_Node = n, sn_Score = 0, sn_Source = src, sn_Reject = None\<rparr>"

definition gather :: "find_env \<Rightarrow> coordinator \<Rightarrow> scored_node list" where
  "gather e c =
     (let cands = foldl (\<lambda>cs n. mergeNode cs (new_candidate (st_Node n) (nodeSource (st_Source n)))) []
            (filter (\<lambda>n. nr_State (st_Node n) = ''healthy'') (queryDaemonNodes c (fe_nodes e)));
          cands = foldl (\<lambda>cs n. mergeNode cs (new_candidate n SourceDiscovery)) cands (fe_discovered e)
      in if \<not> co_noSelf c then mergeNode cands (new_candidate (buildSelfNode c) SourceSelf) else cands)"

definition excluded :: "coordinator \<Rightarrow> node_record \<Rightarrow> bool" where
  "excluded c n \<longleftrightarrow> (co_noSelf c \<and> nr_NodeID n = co_NodeID c)
     \<or> SameMachine (capability n MachineCapability) (co_excludeMachine c)"

definition exclude :: "coordinator \<Rightarrow> scored_node list \<Rightarrow> scored_node list" where
  "exclude c cands =
     (if (co_noSelf c \<and> co_NodeID c \<noteq> []) \<or> co_excludeMachine c \<noteq> []
      then filter (\<lambda>s. \<not> excluded c (sn_Node s)) cands else cands)"

subsection \<open>Rejections\<close>

text \<open>A filter turns down a candidate that no earlier one did.\<close>

definition turn_down :: "(node_record \<Rightarrow> turn_down_reason option) \<Rightarrow> scored_node list \<Rightarrow> scored_node list" where
  "turn_down f = map (\<lambda>s. if sn_Reject s \<noteq> None then s else s\<lparr>sn_Reject := f (sn_Node s)\<rparr>)"

definition refused_before :: "coordinator \<Rightarrow> node_record \<Rightarrow> turn_down_reason option" where
  "refused_before c n = map_option ClosureRefusedBefore (map_of (co_refused c) (nr_NodeID n))"

definition has_role :: "node_record \<Rightarrow> turn_down_reason option" where
  "has_role n = (let role = capability n RoleCapability in if role \<noteq> [] then Some (TakesNoJob role) else None)"

definition arch_mismatch :: "coordinator \<Rightarrow> node_record \<Rightarrow> turn_down_reason option" where
  "arch_mismatch c n =
     (let a = capability n ''arch'' in if a \<noteq> [] \<and> a \<noteq> co_Arch c then Some (ArchDiffers (co_Arch c) a) else None)"

definition lacks_gpu :: "coordinator \<Rightarrow> node_record \<Rightarrow> turn_down_reason option" where
  "lacks_gpu c n = (if co_requireGPU c \<and> \<not> hasGPU n then Some NoGPU else None)"

definition short_of :: "coordinator \<Rightarrow> node_record \<Rightarrow> turn_down_reason option" where
  "short_of c n =
     (let free = freeCores n; avail = ld_AvailableMemBytes (nr_Load n)
      in if 0 < co_requiredCores c \<and> 0 < free \<and> free < of_int (co_requiredCores c)
         then Some (FewCores (co_requiredCores c) free)
         else if 0 < co_requiredGPUMem c \<and> ld_GPUs (nr_Load n) \<noteq> [] \<and> bestFreeVRAM n < co_requiredGPUMem c
         then Some (LittleVRAM (co_requiredGPUMem c) (bestFreeVRAM n))
         else if 0 < co_requiredMemBytes c \<and> 0 < avail \<and> avail < co_requiredMemBytes c
         then Some (LittleMemory (co_requiredMemBytes c) avail)
         else None)"

text \<open>An idle node that only lacks memory takes a job that fits nowhere: the need is an estimate.\<close>

fun is_little_memory :: "turn_down_reason option \<Rightarrow> bool" where
  "is_little_memory (Some (LittleMemory need avail)) \<longleftrightarrow> True"
| "is_little_memory _ \<longleftrightarrow> False"

definition idle_short :: "scored_node \<Rightarrow> bool" where
  "idle_short s \<longleftrightarrow> is_little_memory (sn_Reject s) \<and> ld_ActiveJobs (nr_Load (sn_Node s)) = 0"

definition admit_idle :: "coordinator \<Rightarrow> scored_node list \<Rightarrow> scored_node list" where
  "admit_idle c cands =
     (if list_ex idle_short cands \<and> \<not> list_ex (\<lambda>s. sn_Reject s = None) cands
      then map (\<lambda>s. if idle_short s \<and> Admit (co_requiredMemBytes c) (ld_AvailableMemBytes (nr_Load (sn_Node s))) True
                    then s\<lparr>sn_Reject := None\<rparr> else s) cands
      else cands)"

definition filtered :: "find_env \<Rightarrow> coordinator \<Rightarrow> scored_node list" where
  "filtered e c =
     admit_idle c (turn_down (short_of c) (turn_down (lacks_gpu c) (turn_down (arch_mismatch c)
       (turn_down has_role (turn_down (refused_before c) (exclude c (gather e c)))))))"

subsection \<open>The choice\<close>

definition score_candidate :: "coordinator \<Rightarrow> scored_node \<Rightarrow> scored_node" where
  "score_candidate c s =
     (if sn_Reject s \<noteq> None then s
      else s\<lparr>sn_Score := scoreNode (sn_Node s)
               + (if co_preferGPU c \<or> co_requireGPU c then scoreGPUNode (sn_Node s) else 0)\<rparr>)"

text \<open>\<open>sort.Slice\<close> by falling score, taken stable.\<close>

definition by_score :: "scored_node list \<Rightarrow> scored_node list" where
  "by_score = sort_key (\<lambda>s. - sn_Score s)"

definition chose :: "scored_node option \<Rightarrow> scored_node list \<Rightarrow> decision" where
  "chose s cands =
     (case s of
        None \<Rightarrow> \<lparr>pd_ChosenNode = no_node, pd_Source = SourceSelf, pd_Candidates = cands\<rparr>
      | Some s \<Rightarrow> \<lparr>pd_ChosenNode = sn_Node s, pd_Source = sn_Source s, pd_Candidates = cands\<rparr>)"

definition open_candidates :: "scored_node list \<Rightarrow> scored_node list" where
  "open_candidates = filter (\<lambda>s. sn_Reject s = None)"

definition choose_round_robin :: "nat option \<Rightarrow> scored_node list \<Rightarrow> coordinator \<Rightarrow> decision \<times> coordinator" where
  "choose_round_robin counter cands c =
     (let eligible = sort_key (\<lambda>s. nr_NodeID (sn_Node s)) (open_candidates cands); n = length eligible
      in if n = 0 then (chose None cands, c)
         else case counter of
             Some k \<Rightarrow> (chose (Some (eligible ! (k mod n))) cands, c)
           | None \<Rightarrow> (chose (Some (eligible ! (co_rrCounter c mod n))) cands, c\<lparr>co_rrCounter := co_rrCounter c + 1\<rparr>))"

definition choose_smart :: "scored_node list \<Rightarrow> coordinator \<Rightarrow> decision" where
  "choose_smart cands c =
     (let cands = by_score (map (score_candidate c) cands)
      in chose (find (\<lambda>s. sn_Reject s = None) cands) cands)"

definition FindNode :: "find_env \<Rightarrow> coordinator \<Rightarrow> decision \<times> coordinator" where
  "FindNode e c =
     (let c = (if co_noSelf c then c else selfCeiling (fe_self e) c); cands = filtered e c
      in if co_strategy c = ''round-robin'' then choose_round_robin (fe_roundRobin e) cands c
         else (choose_smart cands c, c))"

subsection \<open>Jobs that fit nowhere\<close>

definition isRefused :: "coordinator \<Rightarrow> string \<Rightarrow> bool" where
  "isRefused c nodeID \<longleftrightarrow> map_of (co_refused c) nodeID \<noteq> None"

datatype never_why = TurnedDown turn_down_reason | HasNoGPU | CeilingTooLow int | VRAMTooSmall int

fun is_arch_reason :: "turn_down_reason option \<Rightarrow> bool" where
  "is_arch_reason (Some (ArchDiffers a b)) \<longleftrightarrow> True"
| "is_arch_reason _ \<longleftrightarrow> False"

definition too_small :: "coordinator \<Rightarrow> node_record \<Rightarrow> never_why option" where
  "too_small c n =
     (let ceiling = ld_MemCeilingBytes (nr_Load n)
      in if co_requireGPU c \<and> \<not> hasGPU n then Some HasNoGPU
         else if 0 < co_requiredMemBytes c \<and> 0 < ceiling \<and> ceiling < co_requiredMemBytes c
         then Some (CeilingTooLow ceiling)
         else if 0 < co_requiredGPUMem c \<and> 0 < maxVRAM n \<and> maxVRAM n < co_requiredGPUMem c
         then Some (VRAMTooSmall (maxVRAM n)) else None)"

definition never_holds :: "coordinator \<Rightarrow> scored_node \<Rightarrow> never_why option" where
  "never_holds c s =
     (let n = sn_Node s
      in case sn_Reject s of
          Some r \<Rightarrow>
            if is_arch_reason (Some r) \<or> isRefused c (nr_NodeID n) \<or> capability n RoleCapability \<noteq> []
            then Some (TurnedDown r) else too_small c n
        | None \<Rightarrow> too_small c n)"

text \<open>Why each node can never hold the job, or \<open>None\<close> when one might.\<close>

definition neverFits :: "coordinator \<Rightarrow> decision \<Rightarrow> never_why list option" where
  "neverFits c d =
     (if pd_Candidates d = [] then None else those (map (never_holds c) (pd_Candidates d)))"


subsection \<open>What the choice guarantees\<close>

lemma turn_down_nodes: "map sn_Node (turn_down f cands) = map sn_Node cands"
  by (simp add: turn_down_def)

lemma in_exclude:
  assumes "s \<in> set (exclude c cands)"
  shows "s \<in> set cands \<and> (co_NodeID c \<noteq> [] \<longrightarrow> \<not> excluded c (sn_Node s))"
  using assms by (auto simp: exclude_def excluded_def SameMachine_def split: if_splits)

text \<open>
  What a candidate that stays open meets: nothing refuses it, and its load is not short, unless
  every candidate was turned down and this one is idle with only its memory short.
\<close>

definition open_ok :: "coordinator \<Rightarrow> node_record \<Rightarrow> bool" where
  "open_ok c n \<longleftrightarrow> refused_before c n = None \<and> has_role n = None \<and> arch_mismatch c n = None \<and> lacks_gpu c n = None
     \<and> (short_of c n = None
        \<or> (is_little_memory (short_of c n) \<and> ld_ActiveJobs (nr_Load n) = 0 \<and> 0 < ld_AvailableMemBytes (nr_Load n)))"


text \<open>The filters one after the other are one filter with the first reason.\<close>

definition or_else :: "(node_record \<Rightarrow> turn_down_reason option) \<Rightarrow> (node_record \<Rightarrow> turn_down_reason option) \<Rightarrow>
    node_record \<Rightarrow> turn_down_reason option" where
  "or_else f g n = (case f n of None \<Rightarrow> g n | Some r \<Rightarrow> Some r)"

lemma turn_down_twice: "turn_down g (turn_down f cands) = turn_down (or_else f g) cands"
  by (auto simp: turn_down_def or_else_def split: option.split)

definition reason :: "coordinator \<Rightarrow> node_record \<Rightarrow> turn_down_reason option" where
  "reason c = or_else (or_else (or_else (or_else (refused_before c) has_role) (arch_mismatch c)) (lacks_gpu c)) (short_of c)"

lemma filtered_eq: "filtered e c = admit_idle c (turn_down (reason c) (exclude c (gather e c)))"
  by (simp add: filtered_def turn_down_twice reason_def)

definition fresh :: "scored_node list \<Rightarrow> bool" where
  "fresh cands \<longleftrightarrow> (\<forall>s \<in> set cands. sn_Reject s = None)"

lemma fresh_merge: "fresh cands \<Longrightarrow> sn_Reject s = None \<Longrightarrow> fresh (mergeNode cands s)"
  by (induction cands) (auto simp: fresh_def)

lemma fresh_fold: "fresh cands \<Longrightarrow> (\<And>x. sn_Reject (f x) = None) \<Longrightarrow> fresh (foldl (\<lambda>cs x. mergeNode cs (f x)) cands xs)"
  by (induction xs arbitrary: cands) (auto intro: fresh_merge)

lemma fresh_gather: "fresh (gather e c)"
proof -
  have "fresh []" by (simp add: fresh_def)
  then show ?thesis unfolding gather_def Let_def
    by (auto intro!: fresh_merge fresh_fold simp: new_candidate_def)
qed

lemma turn_down_fresh:
  assumes "fresh cands" "s \<in> set (turn_down f cands)"
  shows "sn_Reject s = f (sn_Node s) \<and> sn_Node s \<in> sn_Node ` set cands"
  using assms by (auto simp: turn_down_def fresh_def)

lemma little_memory_reason:
  assumes "is_little_memory (reason c n)"
  shows "refused_before c n = None \<and> has_role n = None \<and> arch_mismatch c n = None \<and> lacks_gpu c n = None
    \<and> is_little_memory (short_of c n)"
  using assms
  by (auto simp: reason_def or_else_def refused_before_def has_role_def arch_mismatch_def lacks_gpu_def Let_def
      split: option.splits if_splits)

lemma reason_None:
  "reason c n = None \<Longrightarrow> refused_before c n = None \<and> has_role n = None \<and> arch_mismatch c n = None
    \<and> lacks_gpu c n = None \<and> short_of c n = None"
  by (auto simp: reason_def or_else_def split: option.splits)

lemma short_available: "is_little_memory (short_of c n) \<Longrightarrow> 0 < ld_AvailableMemBytes (nr_Load n)"
  by (auto simp: short_of_def Let_def split: if_splits)

lemma filtered_open:
  assumes "s \<in> set (filtered e c)" "sn_Reject s = None"
  shows "open_ok c (sn_Node s) \<and> sn_Node s \<in> sn_Node ` set (exclude c (gather e c))"
proof -
  let ?ex = "exclude c (gather e c)" and ?td = "turn_down (reason c) (exclude c (gather e c))"
  have fr: "fresh ?ex" using fresh_gather [of e c] by (auto simp: fresh_def exclude_def)
  from assms(1) obtain t where t: "t \<in> set ?td" "sn_Node s = sn_Node t" "s = t \<or> idle_short t"
    unfolding filtered_eq by (auto simp: admit_idle_def split: if_splits)
  note T = turn_down_fresh [OF fr t(1)]
  from t(3) have "open_ok c (sn_Node t)"
  proof
    assume "s = t"
    then show ?thesis using T assms(2) reason_None [of c "sn_Node t"] by (simp add: open_ok_def)
  next
    assume "idle_short t"
    then show ?thesis using T little_memory_reason [of c "sn_Node t"] short_available [of c "sn_Node t"]
      by (simp add: open_ok_def idle_short_def)
  qed
  then show ?thesis using T t(2) by simp
qed

text \<open>The score of an open candidate, as the smart strategy computes it.\<close>

definition score_of :: "coordinator \<Rightarrow> node_record \<Rightarrow> f64" where
  "score_of c n = scoreNode n + (if co_preferGPU c \<or> co_requireGPU c then scoreGPUNode n else 0)"

lemma find_sorted:
  assumes "find P xs = Some y" "sorted (map f xs)" "x \<in> set xs" "P x"
  shows "(f y :: f64) \<le> f x"
  using assms by (induction xs) (auto split: if_splits)

lemma find_in: "find P xs = Some y \<Longrightarrow> y \<in> set xs \<and> P y"
  by (induction xs) (auto split: if_splits)

lemma find_ex: "x \<in> set xs \<Longrightarrow> P x \<Longrightarrow> \<exists>y. find P xs = Some y"
  by (induction xs) auto

lemma choose_smart_spec:
  assumes "\<exists>s \<in> set (pd_Candidates (choose_smart cands c)). sn_Reject s = None"
  shows "\<exists>s \<in> set (pd_Candidates (choose_smart cands c)). sn_Reject s = None
      \<and> pd_ChosenNode (choose_smart cands c) = sn_Node s
      \<and> (\<forall>t \<in> set (pd_Candidates (choose_smart cands c)). sn_Reject t = None \<longrightarrow> score_of c (sn_Node t) \<le> score_of c (sn_Node s))"
proof -
  let ?cs = "by_score (map (score_candidate c) cands)"
  have cs: "pd_Candidates (choose_smart cands c) = ?cs"
    by (simp add: choose_smart_def Let_def chose_def split: option.split)
  from assms find_ex [where xs = ?cs and P = "\<lambda>s. sn_Reject s = None"]
  obtain s where s: "find (\<lambda>s. sn_Reject s = None) ?cs = Some s" unfolding cs by blast
  have score: "sn_Score t = score_of c (sn_Node t)" if "t \<in> set ?cs" "sn_Reject t = None" for t
    using that by (auto simp: by_score_def score_candidate_def score_of_def split: if_splits)
  have srt: "sorted (map (\<lambda>s. - sn_Score s) ?cs)" by (simp add: by_score_def)
  have "score_of c (sn_Node t) \<le> score_of c (sn_Node s)" if "t \<in> set ?cs" "sn_Reject t = None" for t
    using find_sorted [OF s srt that] score [OF that] score [of s] find_in [OF s] by simp
  then show ?thesis unfolding cs using find_in [OF s]
    by (intro bexI [of _ s]) (simp_all add: choose_smart_def Let_def chose_def s)
qed

lemma choose_round_robin_spec:
  assumes "\<exists>s \<in> set cands. sn_Reject s = None"
  shows "\<exists>s \<in> set cands. sn_Reject s = None \<and> pd_ChosenNode (fst (choose_round_robin counter cands c)) = sn_Node s"
proof -
  define el where "el = sort_key (\<lambda>s. nr_NodeID (sn_Node s)) (open_candidates cands)"
  have set_el: "set el = set (open_candidates cands)" by (simp add: el_def)
  from assms have "open_candidates cands \<noteq> []" by (auto simp: open_candidates_def filter_empty_conv)
  then have "length el \<noteq> 0" by (simp add: el_def)
  then have "el ! (k mod length el) \<in> set el" for k by (intro nth_mem) simp
  then have in_cands: "el ! (k mod length el) \<in> set cands \<and> sn_Reject (el ! (k mod length el)) = None" for k
    unfolding set_el by (simp add: open_candidates_def)
  have "\<exists>k. pd_ChosenNode (fst (choose_round_robin counter cands c)) = sn_Node (el ! (k mod length el))"
    using \<open>length el \<noteq> 0\<close>
    by (cases counter) (auto simp: choose_round_robin_def Let_def chose_def el_def [symmetric])
  then show ?thesis using in_cands by blast
qed

lemma choose_round_robin_candidates: "pd_Candidates (fst (choose_round_robin counter cands c)) = cands"
  by (auto simp: choose_round_robin_def Let_def chose_def split: option.split)

definition asked_self :: "find_env \<Rightarrow> coordinator \<Rightarrow> coordinator" where
  "asked_self e c = (if co_noSelf c then c else selfCeiling (fe_self e) c)"

lemma asked_self_same:
  "open_ok (asked_self e c) = open_ok c" "score_of (asked_self e c) = score_of c"
  "co_NodeID (asked_self e c) = co_NodeID c" "excluded (asked_self e c) = excluded c"
  "co_strategy (asked_self e c) = co_strategy c"
proof -
  have h: "asked_self e c = c\<lparr>co_selfHealth := co_selfHealth (asked_self e c)\<rparr>"
    by (simp add: asked_self_def selfCeiling_def split: option.split)
  have "refused_before (asked_self e c) = refused_before c" "arch_mismatch (asked_self e c) = arch_mismatch c"
    "lacks_gpu (asked_self e c) = lacks_gpu c" "short_of (asked_self e c) = short_of c"
    by (subst h, rule ext, simp add: refused_before_def arch_mismatch_def lacks_gpu_def short_of_def Let_def)+
  then show "open_ok (asked_self e c) = open_ok c" by (intro ext) (simp add: open_ok_def)
  show "score_of (asked_self e c) = score_of c" by (subst h, rule ext) (simp add: score_of_def)
  show "excluded (asked_self e c) = excluded c" by (subst h, rule ext) (simp add: excluded_def)
  show "co_NodeID (asked_self e c) = co_NodeID c" "co_strategy (asked_self e c) = co_strategy c"
    by (subst h, simp)+
qed

lemma smart_open:
  assumes "t \<in> set (pd_Candidates (choose_smart cands c))" "sn_Reject t = None"
  shows "\<exists>s \<in> set cands. sn_Reject s = None \<and> sn_Node t = sn_Node s"
proof -
  have "pd_Candidates (choose_smart cands c) = by_score (map (score_candidate c) cands)"
    by (simp add: choose_smart_def Let_def chose_def split: option.split)
  then show ?thesis using assms by (auto simp: by_score_def score_candidate_def split: if_splits)
qed

text \<open>What \<open>FindNode\<close> changes in the coordinator, and where its candidates come from.\<close>

lemma FindNode_frame: "\<exists>h k. snd (FindNode e c) = c\<lparr>co_selfHealth := h, co_rrCounter := k\<rparr>"
proof -
  have h: "asked_self e c = c\<lparr>co_selfHealth := co_selfHealth (asked_self e c)\<rparr>"
    by (simp add: asked_self_def selfCeiling_def split: option.split)
  have "\<exists>k. snd (FindNode e c) = (asked_self e c)\<lparr>co_rrCounter := k\<rparr>"
  proof -
    have same: "\<exists>k. c' = c'\<lparr>co_rrCounter := k\<rparr>" for c' :: coordinator
      by (rule exI [of _ "co_rrCounter c'"]) simp
    have "\<exists>k. snd (choose_round_robin cnt cands c') = c'\<lparr>co_rrCounter := k\<rparr>" for cnt cands c'
      by (auto simp: choose_round_robin_def Let_def split: option.split intro: same)
    then show ?thesis by (auto simp: FindNode_def asked_self_def [symmetric] Let_def intro: same)
  qed
  then obtain k where "snd (FindNode e c) = (asked_self e c)\<lparr>co_rrCounter := k\<rparr>" by blast
  then show ?thesis by (subst (asm) h) blast
qed

definition nodes_of :: "find_env \<Rightarrow> node_record list" where
  "nodes_of e = (case fe_nodes e of None \<Rightarrow> [] | Some ns \<Rightarrow> map st_Node ns) @ fe_discovered e"

lemma mergeNode_nodes: "sn_Node ` set (mergeNode cands s) \<subseteq> insert (sn_Node s) (sn_Node ` set cands)"
  by (induction cands) auto

lemma fold_merge_nodes:
  "(\<And>x. sn_Node (f x) = g x) \<Longrightarrow>
    sn_Node ` set (foldl (\<lambda>cs x. mergeNode cs (f x)) cands xs) \<subseteq> sn_Node ` set cands \<union> g ` set xs"
proof (induction xs arbitrary: cands)
  case (Cons x xs)
  have "sn_Node ` set (foldl (\<lambda>cs x. mergeNode cs (f x)) (mergeNode cands (f x)) xs)
      \<subseteq> sn_Node ` set (mergeNode cands (f x)) \<union> g ` set xs" by (rule Cons.IH [OF Cons.prems])
  moreover have "sn_Node ` set (mergeNode cands (f x)) \<subseteq> insert (g x) (sn_Node ` set cands)"
    using mergeNode_nodes [of cands "f x"] by (simp add: Cons.prems)
  moreover have "g ` set (x # xs) = insert (g x) (g ` set xs)" by simp
  ultimately show ?case unfolding foldl_Cons by blast
qed simp

lemma gather_nodes:
  "sn_Node ` set (gather e c) \<subseteq> insert (buildSelfNode c) (set (nodes_of e))"
proof -
  let ?h = "filter (\<lambda>n. nr_State (st_Node n) = ''healthy'') (queryDaemonNodes c (fe_nodes e))"
  let ?a = "foldl (\<lambda>cs n. mergeNode cs (new_candidate (st_Node n) (nodeSource (st_Source n)))) [] ?h"
  let ?b = "foldl (\<lambda>cs n. mergeNode cs (new_candidate n SourceDiscovery)) ?a (fe_discovered e)"
  have A: "sn_Node ` set ?a \<subseteq> st_Node ` set ?h"
    by (rule order_trans [OF fold_merge_nodes [where g = st_Node]]) (simp_all add: new_candidate_def)
  have B: "sn_Node ` set ?b \<subseteq> sn_Node ` set ?a \<union> set (fe_discovered e)"
    by (rule order_trans [OF fold_merge_nodes [where g = "\<lambda>n. n"]]) (simp_all add: new_candidate_def)
  have C: "st_Node ` set ?h \<subseteq> set (nodes_of e)"
    by (auto simp: nodes_of_def queryDaemonNodes_def split: option.splits if_splits)
  have D: "set (fe_discovered e) \<subseteq> set (nodes_of e)" by (auto simp: nodes_of_def)
  have b: "sn_Node ` set ?b \<subseteq> set (nodes_of e)"
    by (rule order_trans [OF B Un_least [OF order_trans [OF A C] D]])
  show ?thesis
  proof (cases "co_noSelf c")
    case True
    then show ?thesis using b by (auto simp: gather_def Let_def)
  next
    case False
    then have "gather e c = mergeNode ?b (new_candidate (buildSelfNode c) SourceSelf)" by (simp add: gather_def Let_def)
    then show ?thesis using mergeNode_nodes [of ?b "new_candidate (buildSelfNode c) SourceSelf"] b
      by (auto simp: new_candidate_def)
  qed
qed

lemma exclude_sub: "set (exclude c cands) \<subseteq> set cands"
  by (auto simp: exclude_def)

text \<open>A node that may be tried: it is known, and it has not refused the closure.\<close>

definition may_try :: "find_env \<Rightarrow> coordinator \<Rightarrow> node_record \<Rightarrow> bool" where
  "may_try e c n \<longleftrightarrow> n \<in> insert (buildSelfNode (asked_self e c)) (set (nodes_of e)) \<and> map_of (co_refused c) (nr_NodeID n) = None"

lemma filtered_may_try:
  assumes "s \<in> set (filtered e (asked_self e c))" "sn_Reject s = None"
  shows "may_try e c (sn_Node s)"
proof -
  have "open_ok c (sn_Node s)" "sn_Node s \<in> sn_Node ` set (exclude (asked_self e c) (gather e (asked_self e c)))"
    using filtered_open [OF assms] by (simp_all add: asked_self_same)
  moreover have "sn_Node ` set (exclude (asked_self e c) (gather e (asked_self e c)))
      \<subseteq> insert (buildSelfNode (asked_self e c)) (set (nodes_of e))"
    using gather_nodes [of e "asked_self e c"] exclude_sub by fastforce
  ultimately show ?thesis by (auto simp: may_try_def open_ok_def refused_before_def)
qed

lemma candidate_may_try:
  assumes "s \<in> set (pd_Candidates (fst (FindNode e c)))" "sn_Reject s = None"
  shows "may_try e c (sn_Node s)"
proof (cases "co_strategy c = ''round-robin''")
  case True
  then have "s \<in> set (filtered e (asked_self e c))"
    using assms(1) by (simp add: FindNode_def asked_self_def [symmetric] asked_self_same Let_def choose_round_robin_candidates)
  then show ?thesis using assms(2) by (rule filtered_may_try)
next
  case False
  then have "s \<in> set (pd_Candidates (choose_smart (filtered e (asked_self e c)) (asked_self e c)))"
    using assms(1) by (simp add: FindNode_def asked_self_def [symmetric] asked_self_same Let_def)
  from smart_open [OF this assms(2)] obtain s' where "s' \<in> set (filtered e (asked_self e c))" "sn_Reject s' = None"
    "sn_Node s = sn_Node s'" by blast
  then show ?thesis using filtered_may_try [of s' e c] by simp
qed

lemma round_robin_may_try:
  assumes "co_strategy c = ''round-robin''" "nr_NodeID (pd_ChosenNode (fst (FindNode e c))) \<noteq> []"
  shows "may_try e c (pd_ChosenNode (fst (FindNode e c)))"
proof -
  let ?cands = "filtered e (asked_self e c)"
  have F: "fst (FindNode e c) = fst (choose_round_robin (fe_roundRobin e) ?cands (asked_self e c))"
    using assms(1) by (simp add: FindNode_def asked_self_def [symmetric] asked_self_same Let_def)
  have "\<exists>s \<in> set ?cands. sn_Reject s = None"
  proof (rule ccontr)
    assume "\<not> (\<exists>s \<in> set ?cands. sn_Reject s = None)"
    then have "open_candidates ?cands = []" by (auto simp: open_candidates_def)
    then show False using assms(2) unfolding F by (simp add: choose_round_robin_def Let_def chose_def no_node_def)
  qed
  from choose_round_robin_spec [OF this] filtered_may_try show ?thesis unfolding F by metis
qed



subsection \<open>A small cluster\<close>

definition ex_peer :: "string \<Rightarrow> int \<Rightarrow> string \<Rightarrow> node_record" where
  "ex_peer nodeID cpus arch = no_node\<lparr>nr_NodeID := nodeID, nr_SSHEndpoint := ''u@'' @ nodeID @ '':22'', nr_DaemonPort := 4242,
     nr_Capabilities := [(''arch'', arch)], nr_Load := no_load\<lparr>ld_TotalCPUs := cpus\<rparr>, nr_HealthScore := 1,
     nr_State := ''healthy''\<rparr>"

definition ex_peers :: find_env where
  "ex_peers = \<lparr>fe_nodes = Some [\<lparr>st_Node = ex_peer ''a'' 4 ''amd64'', st_Source = ''lan''\<rparr>,
       \<lparr>st_Node = ex_peer ''b'' 8 ''amd64'', st_Source = ''lan''\<rparr>, \<lparr>st_Node = ex_peer ''p'' 16 ''arm64'', st_Source = ''manual''\<rparr>],
     fe_self = NoSelfReply, fe_discovered = [], fe_roundRobin = None\<rparr>"

definition ex_finder :: coordinator where
  "ex_finder = \<lparr>co_NodeID = ''me'', co_Arch = ''amd64'', co_Hostname = ''me'', co_selfSSH = ''root@localhost:22'',
     co_selfDaemon = 4242, co_selfLoad = no_load, co_jobName = ''job'', co_requiredMemBytes = 0, co_requiredCores = 2,
     co_requiredGPUMem = 0, co_retryInterval = 0, co_placementWindow = 0, co_execBackoffBase = 0, co_noSelf = True,
     co_excludeMachine = [], co_requireGPU = False, co_preferGPU = False, co_strategy = ''smart'', co_rrCounter = 0,
     co_refused = [], co_tried = [], co_selfHealth = None\<rparr>"


end
