(* ===== verification/Coordinator.thy ===== *)
theory Coordinator
  imports FindNode
begin

text \<open>
  Placing and running a job: \<^verbatim>\<open>src/internal/coordinator/place.go\<close> and \<^verbatim>\<open>execute.go\<close>. What the
  coordinator does to the outside is a log of events, each with the answer it got; the outside (the
  daemons, the executor, the clock, the caller's context) is a record of functions from the log so
  far to the next answer, so it may react to anything that was done. The two retry loops are partial
  functions: a run that never ends has the value \<open>None\<close>. Status messages are left out.
\<close>

subsection \<open>Events\<close>

record health_reply =
  he_NodeID :: string
  he_AvailableMem :: int
  he_ActiveJobs :: int
  he_ReservedMem :: int
  he_Capabilities :: "(string \<times> string) list"
  he_Load :: "load_info option"

text \<open>\<open>requestLease\<close>: no connection, an answer that does not decode, a refusal, or a lease.\<close>

datatype lease_reply = NoConnection | BadAnswer | LeaseRejected string | LeaseGranted string int

datatype commit_reply = CommitOK | CommitNo

text \<open>What the executor returns, sorted by the tests of \<open>ExecuteWithRetry\<close> in their order.\<close>

datatype exec_result = ExecOK | ExecDetached | ExecRefused string | ExecPermanent string | ExecFailed string

datatype event =
    AskedNodes
  | AskedHealth string int "health_reply option"
  | AskedLease string int accept_request lease_reply
  | Notified string
  | AskedCommit string int string commit_reply
  | RenewalsOn string int string
  | Executed string int string exec_result
  | RenewalsOff string int string
  | CompletedLease string int string string
  | ReportedFailed string
  | Waited int

type_synonym events = "event list"

record outside =
  os_find :: "events \<Rightarrow> find_env"
  os_health :: "events \<Rightarrow> string \<Rightarrow> int \<Rightarrow> health_reply option"
  os_lease :: "events \<Rightarrow> string \<Rightarrow> int \<Rightarrow> accept_request \<Rightarrow> lease_reply"
  os_commit :: "events \<Rightarrow> string \<Rightarrow> int \<Rightarrow> string \<Rightarrow> commit_reply"
  os_exec :: "events \<Rightarrow> string \<Rightarrow> int \<Rightarrow> string \<Rightarrow> exec_result"
  os_now :: "events \<Rightarrow> int"
  os_cancelled :: "events \<Rightarrow> bool"

subsection \<open>Placing\<close>

record lease_result =
  lr_Decision :: decision
  lr_LeaseID :: string
  lr_NodeID :: string
  lr_Endpoint :: string
  lr_DaemonPort :: int
  lr_GPUIndex :: int

datatype coord_error =
    TaskCancelled | PlacementCancelled
  | NoNodeTook int "(string \<times> turn_down_reason) list"
  | NeverFits "never_why list"
  | PermanentFailure string
  | GaveUp nat "string list" string

definition extractHost :: "string \<Rightarrow> string" where
  "extractHost endpoint =
     (let s = (case Cut CHR ''@'' endpoint of None \<Rightarrow> endpoint | Some (_, b) \<Rightarrow> b)
      in case Cut CHR '':'' s of None \<Rightarrow> s | Some (a, _) \<Rightarrow> a)"

definition resolveEndpointForNode :: "coordinator \<Rightarrow> node_record \<Rightarrow> string" where
  "resolveEndpointForNode c n = (if nr_NodeID n = co_NodeID c then co_selfSSH c else nr_SSHEndpoint n)"

definition nodeName :: "node_record \<Rightarrow> string" where
  "nodeName n = (let h = capability n ''hostname'' in if h \<noteq> [] then h else take 8 (nr_NodeID n))"

definition rejectionLine :: "decision \<Rightarrow> (string \<times> turn_down_reason) list" where
  "rejectionLine d = concat (map (\<lambda>s. case sn_Reject s of None \<Rightarrow> [] | Some r \<Rightarrow> [(nodeName (sn_Node s), r)]) (pd_Candidates d))"

text \<open>The node as its own \<^verbatim>\<open>/health\<close> describes it.\<close>

definition apply_health :: "health_reply option \<Rightarrow> node_record \<Rightarrow> node_record" where
  "apply_health h n =
     (case h of
        None \<Rightarrow> n
      | Some h \<Rightarrow>
          if he_NodeID h = [] then n
          else let n = n\<lparr>nr_NodeID := he_NodeID h\<rparr>;
                   n = (case he_Load h of None \<Rightarrow> n | Some ld \<Rightarrow> n\<lparr>nr_Load := ld\<rparr>);
                   n = (if he_Capabilities h \<noteq> [] then n\<lparr>nr_Capabilities := he_Capabilities h\<rparr> else n)
               in n\<lparr>nr_Load := (nr_Load n)\<lparr>ld_AvailableMemBytes := he_AvailableMem h, ld_ActiveJobs := he_ActiveJobs h,
                       ld_ReservedMemBytes := he_ReservedMem h\<rparr>, nr_HealthScore := 8 / 10\<rparr>)"

definition lease_request :: "coordinator \<Rightarrow> node_record \<Rightarrow> accept_request" where
  "lease_request c n =
     \<lparr>ar_TargetID = nr_NodeID n, ar_JobName = co_jobName c, ar_SubmitterNode = co_NodeID c,
      ar_RequiredMemBytes = co_requiredMemBytes c, ar_RequiredCores = co_requiredCores c,
      ar_RequireGPU = ((co_requireGPU c \<or> co_preferGPU c) \<and> hasGPU n), ar_RequiredGPUMem = co_requiredGPUMem c\<rparr>"

text \<open>The node as it is after the try (the code updates it in place), the grant, and the log.\<close>

definition tryCandidate ::
  "outside \<Rightarrow> coordinator \<Rightarrow> node_record \<Rightarrow> events \<Rightarrow> node_record \<times> (string \<times> int) option \<times> events" where
  "tryCandidate os c n tr =
     (if nr_NodeID n = [] then (n, None, tr)
      else let host = extractHost (nr_SSHEndpoint n);
               h = os_health os tr host (nr_DaemonPort n);
               tr = tr @ [AskedHealth host (nr_DaemonPort n) h];
               n = apply_health h n;
               host = extractHost (resolveEndpointForNode c n);
               req = lease_request c n;
               r = os_lease os tr host (nr_DaemonPort n) req;
               tr = tr @ [AskedLease host (nr_DaemonPort n) req r]
           in case r of LeaseGranted l gpu \<Rightarrow> (n, Some (l, gpu), tr) | _ \<Rightarrow> (n, None, tr))"

definition lease_result_of :: "coordinator \<Rightarrow> decision \<Rightarrow> node_record \<Rightarrow> string \<times> int \<Rightarrow> lease_result" where
  "lease_result_of c d n g =
     \<lparr>lr_Decision = d, lr_LeaseID = fst g, lr_NodeID = nr_NodeID n, lr_Endpoint = resolveEndpointForNode c n,
      lr_DaemonPort = nr_DaemonPort n, lr_GPUIndex = snd g\<rparr>"

text \<open>The candidates one after the other, by index; a try updates its candidate in the decision.\<close>

fun try_all :: "outside \<Rightarrow> coordinator \<Rightarrow> nat list \<Rightarrow> decision \<Rightarrow> events \<Rightarrow> lease_result option \<times> decision \<times> events" where
  "try_all os c [] d tr = (None, d, tr)"
| "try_all os c (i # is) d tr =
     (case tryCandidate os c (sn_Node (pd_Candidates d ! i)) tr of
        (n, g, tr) \<Rightarrow>
          let d = d\<lparr>pd_Candidates := (pd_Candidates d)[i := (pd_Candidates d ! i)\<lparr>sn_Node := n\<rparr>]\<rparr>
          in case g of Some g \<Rightarrow> (Some (lease_result_of c d n g), d, tr) | None \<Rightarrow> try_all os c is d tr)"

definition tried :: "coordinator \<Rightarrow> string \<Rightarrow> nat" where
  "tried c nodeID = (case map_of (co_tried c) nodeID of None \<Rightarrow> 0 | Some k \<Rightarrow> k)"

text \<open>The order of the smart strategy: GPU nodes first when a GPU is wanted, untried nodes first of all.\<close>

definition try_order :: "coordinator \<Rightarrow> scored_node list \<Rightarrow> nat list" where
  "try_order c cands =
     (let by_falling_score = sort_key (\<lambda>i. - sn_Score (cands ! i));
          open_ones = filter (\<lambda>i. sn_Reject (cands ! i) = None) [0..<length cands];
          gpuGroup = by_falling_score (filter (\<lambda>i. hasGPU (sn_Node (cands ! i))) open_ones);
          cpuGroup = by_falling_score (filter (\<lambda>i. \<not> hasGPU (sn_Node (cands ! i))) open_ones);
          order = (if co_requireGPU c then gpuGroup
                   else if co_preferGPU c then gpuGroup @ cpuGroup
                   else by_falling_score (gpuGroup @ cpuGroup))
      in sort_key (\<lambda>i. tried c (nr_NodeID (sn_Node (cands ! i)))) order)"

datatype round_result = Placed lease_result | Hopeless "never_why list" | NoRoom

text \<open>One look at the cluster and one try of every node in order.\<close>

definition place_round :: "outside \<Rightarrow> coordinator \<Rightarrow> events \<Rightarrow> round_result \<times> decision \<times> coordinator \<times> events" where
  "place_round os c tr =
     (let (d, c) = FindNode (os_find os tr) c; tr = tr @ [AskedNodes]
      in case neverFits c d of
          Some why \<Rightarrow> (Hopeless why, d, c, tr)
        | None \<Rightarrow>
            if co_strategy c = ''round-robin'' then
              (if nr_NodeID (pd_ChosenNode d) \<noteq> [] then
                 (case tryCandidate os c (pd_ChosenNode d) tr of
                    (n, g, tr) \<Rightarrow>
                      let d = d\<lparr>pd_ChosenNode := n\<rparr>
                      in case g of Some g \<Rightarrow> (Placed (lease_result_of c d n g), d, c, tr) | None \<Rightarrow> (NoRoom, d, c, tr))
               else (NoRoom, d, c, tr))
            else (case try_all os c (try_order c (pd_Candidates d)) d tr of
                (Some r, d, tr) \<Rightarrow> (Placed r, d, c, tr) | (None, d, tr) \<Rightarrow> (NoRoom, d, c, tr)))"

definition sec :: int where "sec = 1000000000"

definition DefaultPlacementWindow :: int where "DefaultPlacementWindow = 600 * sec"

definition retry_interval :: "coordinator \<Rightarrow> int" where
  "retry_interval c = (if co_retryInterval c = 0 then 30 * sec else co_retryInterval c)"

definition placement_window :: "coordinator \<Rightarrow> int" where
  "placement_window c = (if co_placementWindow c = 0 then DefaultPlacementWindow else co_placementWindow c)"

text \<open>\<open>prev\<close> is the decision of the round before, \<open>None\<close> in the first.\<close>

partial_function (option) place_loop ::
  "outside \<Rightarrow> int \<Rightarrow> decision option \<Rightarrow> coordinator \<Rightarrow> events \<Rightarrow> ((coord_error + lease_result) \<times> coordinator \<times> events) option" where
  "place_loop os deadline prev c tr =
     (case prev of
        None \<Rightarrow>
          (case place_round os c tr of
             (r, d, c, tr) \<Rightarrow>
               (case r of Placed res \<Rightarrow> Some (Inr res, c, tr)
                | Hopeless why \<Rightarrow> Some (Inl (NeverFits why), c, tr)
                | NoRoom \<Rightarrow> place_loop os deadline (Some d) c tr))
      | Some d0 \<Rightarrow>
          (let left = deadline - os_now os tr
           in if left \<le> 0 then Some (Inl (NoNodeTook (placement_window c) (rejectionLine d0)), c, tr)
              else let tr = tr @ [Waited (min (retry_interval c) left)]
              in if os_cancelled os tr then Some (Inl PlacementCancelled, c, tr)
              else case place_round os c tr of
                  (r, d, c, tr) \<Rightarrow>
                    (case r of Placed res \<Rightarrow> Some (Inr res, c, tr)
                     | Hopeless why \<Rightarrow> Some (Inl (NeverFits why), c, tr)
                     | NoRoom \<Rightarrow> place_loop os deadline (Some d) c tr)))"

definition PlaceWithRetry ::
  "outside \<Rightarrow> coordinator \<Rightarrow> events \<Rightarrow> ((coord_error + lease_result) \<times> coordinator \<times> events) option" where
  "PlaceWithRetry os c tr = place_loop os (os_now os tr + placement_window c) None c tr"

subsection \<open>Running\<close>

definition MaxExecAttempts :: nat where "MaxExecAttempts = 3"
definition DefaultExecBackoffBase :: int where "DefaultExecBackoffBase = 2 * sec"

fun double_below :: "int \<Rightarrow> nat \<Rightarrow> int \<Rightarrow> int" where
  "double_below m 0 d = d"
| "double_below m (Suc n) d = (if d < m then double_below m n (2 * d) else d)"

definition execRetryBackoff :: "int \<Rightarrow> nat \<Rightarrow> int" where
  "execRetryBackoff base consecutiveFailures =
     (let m = 120 * sec; base = (if base \<le> 0 then DefaultExecBackoffBase else base)
      in min (double_below m (consecutiveFailures - 1) base) m)"

definition placedName :: "lease_result \<Rightarrow> string" where
  "placedName r =
     (case find (\<lambda>s. nr_NodeID (sn_Node s) = lr_NodeID r) (pd_Candidates (lr_Decision r)) of
        Some s \<Rightarrow> nodeName (sn_Node s)
      | None \<Rightarrow> if nr_NodeID (pd_ChosenNode (lr_Decision r)) = lr_NodeID r
          then nodeName (pd_ChosenNode (lr_Decision r)) else take 8 (lr_NodeID r))"

text \<open>The report goes to the local daemon, when there is one.\<close>

definition reportNodeFailed :: "coordinator \<Rightarrow> string \<Rightarrow> events \<Rightarrow> events" where
  "reportNodeFailed c nodeID tr = (if co_selfDaemon c \<le> 0 \<or> nodeID = [] then tr else tr @ [ReportedFailed nodeID])"

text \<open>How one attempt after its placement ends, and the coordinator and the log then.\<close>

datatype attempt =
    Finished lease_result | Detached lease_result | Stopped coord_error
  | Uncommitted | RefusedBy string | FailedOn string string

definition attempt_on :: "outside \<Rightarrow> coordinator \<Rightarrow> lease_result \<Rightarrow> events \<Rightarrow> attempt \<times> coordinator \<times> events" where
  "attempt_on os c r tr =
     (let h = extractHost (lr_Endpoint r); p = lr_DaemonPort r; l = lr_LeaseID r;
          tr = tr @ [Notified l];
          ok = os_commit os tr h p l;
          tr = tr @ [AskedCommit h p l ok]
      in if ok = CommitNo then (Uncommitted, c, tr)
      else let tr = tr @ [RenewalsOn h p l];
               x = os_exec os tr h p (lr_NodeID r);
               tr = tr @ [Executed h p (lr_NodeID r) x, RenewalsOff h p l]
      in if x = ExecOK then (Finished r, c, tr @ [CompletedLease h p l ''succeeded''])
      else if x = ExecDetached then (Detached r, c, tr)
      else if os_cancelled os tr then (Stopped TaskCancelled, c, tr @ [CompletedLease h p l ''cancelled''])
      else let tr = reportNodeFailed c (lr_NodeID r) (tr @ [CompletedLease h p l ''failed''])
      in case x of
          ExecRefused why \<Rightarrow>
            (RefusedBy (lr_NodeID r), c\<lparr>co_refused := AList.update (lr_NodeID r) why (co_refused c)\<rparr>, tr)
        | ExecPermanent why \<Rightarrow> (Stopped (PermanentFailure why), c, tr)
        | ExecFailed why \<Rightarrow>
            (FailedOn (placedName r) why,
             c\<lparr>co_tried := AList.update (lr_NodeID r) (tried c (lr_NodeID r) + 1) (co_tried c)\<rparr>, tr))"

datatype outcome = RunOK lease_result | RunDetached lease_result | RunError coord_error

partial_function (option) exec_loop ::
  "outside \<Rightarrow> string list \<Rightarrow> coordinator \<Rightarrow> events \<Rightarrow> (outcome \<times> coordinator \<times> events) option" where
  "exec_loop os failedOn c tr =
     (if os_cancelled os tr then Some (RunError TaskCancelled, c, tr)
      else Option.bind (PlaceWithRetry os c tr) (\<lambda>(p, c, tr).
        case p of
          Inl e \<Rightarrow> Some (RunError e, c, tr)
        | Inr r \<Rightarrow>
            (case attempt_on os c r tr of
               (a, c, tr) \<Rightarrow>
                 (case a of
                    Finished r \<Rightarrow> Some (RunOK r, c, tr)
                  | Detached r \<Rightarrow> Some (RunDetached r, c, tr)
                  | Stopped e \<Rightarrow> Some (RunError e, c, tr)
                  | Uncommitted \<Rightarrow> exec_loop os failedOn c tr
                  | RefusedBy node \<Rightarrow> exec_loop os failedOn c tr
                  | FailedOn name why \<Rightarrow>
                      (let failedOn = failedOn @ [name]
                       in if MaxExecAttempts \<le> length failedOn
                          then Some (RunError (GaveUp (length failedOn) failedOn why), c, tr)
                          else let tr = tr @ [Waited (execRetryBackoff (co_execBackoffBase c) (length failedOn))]
                          in if os_cancelled os tr then Some (RunError TaskCancelled, c, tr)
                          else exec_loop os failedOn c tr)))))"

declare place_loop.simps [code] exec_loop.simps [code]

definition ExecuteWithRetry :: "outside \<Rightarrow> coordinator \<Rightarrow> (outcome \<times> coordinator \<times> events) option" where
  "ExecuteWithRetry os c = exec_loop os [] c []"


subsection \<open>The protocol of a lease\<close>

text \<open>
  Where a run stands with a lease. A lease that was granted is announced and committed; once
  committed it is renewed while its job runs and then completed, with the status the execution
  earned. Anything else at that moment breaks the protocol. A job the caller detached from keeps
  its lease: the node releases it.
\<close>

datatype phase =
    Idle | Granted string int string | Told string int string | Held string int string
  | Renewing string int string | Ran string int string exec_result | Owing string int string exec_result

definition earned :: "exec_result \<Rightarrow> string \<Rightarrow> bool" where
  "earned x status \<longleftrightarrow> x \<noteq> ExecDetached
     \<and> (if x = ExecOK then status = ''succeeded'' else status = ''failed'' \<or> status = ''cancelled'')"

definition from_idle :: "event \<Rightarrow> phase option" where
  "from_idle e =
     (case e of
        AskedNodes \<Rightarrow> Some Idle | AskedHealth h p r \<Rightarrow> Some Idle | ReportedFailed n \<Rightarrow> Some Idle | Waited d \<Rightarrow> Some Idle
      | AskedLease h p req r \<Rightarrow> (case r of LeaseGranted l g \<Rightarrow> Some (Granted h p l) | _ \<Rightarrow> Some Idle)
      | _ \<Rightarrow> None)"

definition lease_phase :: "phase \<Rightarrow> event \<Rightarrow> phase option" where
  "lease_phase ph e =
     (case ph of
        Idle \<Rightarrow> from_idle e
      | Granted h p l \<Rightarrow> if e = Notified l then Some (Told h p l) else None
      | Told h p l \<Rightarrow> if e = AskedCommit h p l CommitOK then Some (Held h p l)
                     else if e = AskedCommit h p l CommitNo then Some Idle else None
      | Held h p l \<Rightarrow> if e = RenewalsOn h p l then Some (Renewing h p l) else None
      | Renewing h p l \<Rightarrow>
          (case e of Executed h' p' n x \<Rightarrow> if h' = h \<and> p' = p then Some (Ran h p l x) else None | _ \<Rightarrow> None)
      | Ran h p l x \<Rightarrow> if e = RenewalsOff h p l then Some (Owing h p l x) else None
      | Owing h p l x \<Rightarrow>
          (case e of
             CompletedLease h' p' l' st \<Rightarrow> if h' = h \<and> p' = p \<and> l' = l \<and> earned x st then Some Idle else None
           | _ \<Rightarrow> None))"

lemma lease_phase_simps [simp]:
  "lease_phase Idle e = from_idle e"
  "lease_phase (Granted h p l) (Notified l) = Some (Told h p l)"
  "lease_phase (Told h p l) (AskedCommit h p l r) = Some (if r = CommitOK then Held h p l else Idle)"
  "lease_phase (Held h p l) (RenewalsOn h p l) = Some (Renewing h p l)"
  "lease_phase (Renewing h p l) (Executed h p n x) = Some (Ran h p l x)"
  "lease_phase (Ran h p l x) (RenewalsOff h p l) = Some (Owing h p l x)"
  "lease_phase (Owing h p l x) (CompletedLease h p l st) = (if earned x st then Some Idle else None)"
  by (simp_all add: lease_phase_def) (cases r; simp)

lemma from_idle_simps [simp]:
  "from_idle AskedNodes = Some Idle" "from_idle (AskedHealth h p hr) = Some Idle"
  "from_idle (ReportedFailed n) = Some Idle" "from_idle (Waited d) = Some Idle"
  "from_idle (AskedLease h p req r) = (case r of LeaseGranted l g \<Rightarrow> Some (Granted h p l) | _ \<Rightarrow> Some Idle)"
  by (simp_all add: from_idle_def)

fun follows :: "phase \<Rightarrow> events \<Rightarrow> phase option" where
  "follows ph [] = Some ph"
| "follows ph (e # es) = (case lease_phase ph e of None \<Rightarrow> None | Some ph \<Rightarrow> follows ph es)"

lemma follows_append: "follows ph (es @ fs) = (case follows ph es of None \<Rightarrow> None | Some ph \<Rightarrow> follows ph fs)"
  by (induction es arbitrary: ph) (auto split: option.split)

definition granted :: "lease_result \<Rightarrow> phase" where
  "granted r = Granted (extractHost (lr_Endpoint r)) (lr_DaemonPort r) (lr_LeaseID r)"

text \<open>What a run of placing adds to the log.\<close>

definition adds :: "events \<Rightarrow> events \<Rightarrow> phase \<Rightarrow> bool" where
  "adds tr tr' ph \<longleftrightarrow> (\<exists>es. tr' = tr @ es \<and> follows Idle es = Some ph)"

lemma adds_refl [simp]: "adds tr tr Idle"
  by (simp add: adds_def)

lemma adds_trans: "adds tr tr' Idle \<Longrightarrow> adds tr' tr'' ph \<Longrightarrow> adds tr tr'' ph"
  by (force simp: adds_def follows_append)

lemma adds_idle_event: "adds tr tr' Idle \<Longrightarrow> lease_phase Idle e = Some ph \<Longrightarrow> adds tr (tr' @ [e]) ph"
  by (force simp: adds_def follows_append)

lemma tryCandidate_adds:
  assumes "tryCandidate os c n tr = (n', g, tr')"
  shows "adds tr tr' (case g of None \<Rightarrow> Idle | Some g \<Rightarrow> granted (lease_result_of c d n' g))"
proof (cases "nr_NodeID n = []")
  case True
  then show ?thesis using assms by (auto simp: tryCandidate_def)
next
  case False
  let ?h = "extractHost (nr_SSHEndpoint n)"
  let ?hr = "os_health os tr ?h (nr_DaemonPort n)"
  let ?n = "apply_health ?hr n"
  let ?t1 = "tr @ [AskedHealth ?h (nr_DaemonPort n) ?hr]"
  let ?h' = "extractHost (resolveEndpointForNode c ?n)"
  let ?r = "os_lease os ?t1 ?h' (nr_DaemonPort ?n) (lease_request c ?n)"
  have t': "tr' = ?t1 @ [AskedLease ?h' (nr_DaemonPort ?n) (lease_request c ?n) ?r]" "n' = ?n"
    "g = (case ?r of LeaseGranted l gpu \<Rightarrow> Some (l, gpu) | _ \<Rightarrow> None)"
    using assms False by (auto simp: tryCandidate_def Let_def split: lease_reply.splits)
  have "adds tr ?t1 Idle" by (rule adds_idle_event) simp_all
  then show ?thesis unfolding t'
    by (rule adds_idle_event) (cases ?r; simp add: granted_def lease_result_of_def)
qed

lemma try_all_adds:
  "try_all os c is d tr = (r, d', tr') \<Longrightarrow> adds tr tr' (case r of None \<Rightarrow> Idle | Some r \<Rightarrow> granted r)"
proof (induction "is" arbitrary: d tr)
  case (Cons i "is")
  obtain n g t where t: "tryCandidate os c (sn_Node (pd_Candidates d ! i)) tr = (n, g, t)" by (metis prod_cases3)
  show ?case
  proof (cases g)
    case None
    have "adds tr t Idle" using tryCandidate_adds [OF t] None by simp
    moreover have "adds t tr' (case r of None \<Rightarrow> Idle | Some r \<Rightarrow> granted r)"
      using Cons.prems by (intro Cons.IH [of "d\<lparr>pd_Candidates := (pd_Candidates d)[i := (pd_Candidates d ! i)\<lparr>sn_Node := n\<rparr>]\<rparr>"])
        (simp add: t None)
    ultimately show ?thesis by (rule adds_trans)
  next
    case (Some g')
    then show ?thesis using tryCandidate_adds [OF t] Cons.prems by (auto simp: t Let_def)
  qed
qed simp

lemma place_round_adds:
  assumes "place_round os c tr = (r, d, c', tr')"
  shows "adds tr tr' (case r of Placed r \<Rightarrow> granted r | _ \<Rightarrow> Idle)"
proof -
  obtain d0 c0 where F: "FindNode (os_find os tr) c = (d0, c0)" by (metis surj_pair)
  have a0: "adds tr (tr @ [AskedNodes]) Idle" by (rule adds_idle_event) simp_all
  consider (hopeless) why where "neverFits c0 d0 = Some why"
    | (robin) "neverFits c0 d0 = None" "co_strategy c0 = ''round-robin''" "nr_NodeID (pd_ChosenNode d0) \<noteq> []"
    | (nobody) "neverFits c0 d0 = None" "co_strategy c0 = ''round-robin''" "nr_NodeID (pd_ChosenNode d0) = []"
    | (smart) "neverFits c0 d0 = None" "co_strategy c0 \<noteq> ''round-robin''" by fastforce
  then show ?thesis
  proof cases
    case hopeless
    then show ?thesis using assms a0 by (auto simp: place_round_def F Let_def)
  next
    case robin
    obtain n g t where t: "tryCandidate os c0 (pd_ChosenNode d0) (tr @ [AskedNodes]) = (n, g, t)" by (metis prod_cases3)
    from adds_trans [OF a0 tryCandidate_adds [OF t]] show ?thesis using assms robin
      by (cases g) (auto simp: place_round_def F Let_def t)
  next
    case nobody
    then show ?thesis using assms a0 by (auto simp: place_round_def F Let_def)
  next
    case smart
    obtain g d1 t where t: "try_all os c0 (try_order c0 (pd_Candidates d0)) d0 (tr @ [AskedNodes]) = (g, d1, t)"
      by (metis prod_cases3)
    from adds_trans [OF a0 try_all_adds [OF t]] show ?thesis using assms smart
      by (cases g) (auto simp: place_round_def F Let_def t)
  qed
qed

definition placed_phase :: "coord_error + lease_result \<Rightarrow> phase" where
  "placed_phase p = (case p of Inl e \<Rightarrow> Idle | Inr r \<Rightarrow> granted r)"

lemma place_loop_adds:
  assumes "place_loop os deadline prev c tr = Some y"
  shows "adds tr (snd (snd y)) (placed_phase (fst y))"
  using assms
proof (induction rule: place_loop.raw_induct [rotated, consumes 1, case_names step])
  case (step loop os deadline prev c tr y)
  have round: "adds tr (snd (snd y)) (placed_phase (fst y))"
    if "adds tr t Idle" and "(case place_round os c t of (r, d, c, tr) \<Rightarrow>
          (case r of Placed res \<Rightarrow> Some (Inr res, c, tr) | Hopeless why \<Rightarrow> Some (Inl (NeverFits why), c, tr)
           | NoRoom \<Rightarrow> loop os deadline (Some d) c tr)) = Some y" for t
  proof -
    obtain r d c' t' where R: "place_round os c t = (r, d, c', t')" by (metis prod_cases4)
    have "adds tr t' (case r of Placed r \<Rightarrow> granted r | _ \<Rightarrow> Idle)"
      by (rule adds_trans [OF that(1) place_round_adds [OF R]])
    then show ?thesis using that(2) step(1) [of os deadline "Some d" c' t' y]
      by (cases r) (auto simp: R placed_phase_def intro: adds_trans)
  qed
  show ?case
  proof (cases prev)
    case None
    then show ?thesis using step(2) by (intro round [of tr]) simp_all
  next
    case (Some d0)
    let ?t = "tr @ [Waited (min (retry_interval c) (deadline - os_now os tr))]"
    have "adds tr ?t Idle" by (rule adds_idle_event) simp_all
    then show ?thesis using step(2) Some round [of ?t]
      by (auto simp: Let_def placed_phase_def split: if_splits)
  qed
qed


lemma PlaceWithRetry_adds:
  "PlaceWithRetry os c tr = Some (p, c', tr') \<Longrightarrow> adds tr tr' (placed_phase p)"
  unfolding PlaceWithRetry_def by (drule place_loop_adds) simp

text \<open>What an attempt leaves behind: nothing owed, or the lease of the job the caller left.\<close>

definition attempt_phase :: "attempt \<Rightarrow> phase" where
  "attempt_phase a =
     (case a of Detached r \<Rightarrow> Owing (extractHost (lr_Endpoint r)) (lr_DaemonPort r) (lr_LeaseID r) ExecDetached | _ \<Rightarrow> Idle)"

definition follows_from :: "phase \<Rightarrow> events \<Rightarrow> events \<Rightarrow> phase \<Rightarrow> bool" where
  "follows_from ph tr tr' ph' \<longleftrightarrow> (\<exists>es. tr' = tr @ es \<and> follows ph es = Some ph')"

lemma follows_from_refl: "follows_from ph tr tr ph"
  by (simp add: follows_from_def)

lemma follows_from_event:
  "follows_from ph tr tr' ph' \<Longrightarrow> lease_phase ph' e = Some ph'' \<Longrightarrow> follows_from ph tr (tr' @ [e]) ph''"
  by (force simp: follows_from_def follows_append)

lemma follows_from_report:
  "follows_from ph tr tr' Idle \<Longrightarrow> follows_from ph tr (reportNodeFailed c n tr') Idle"
  unfolding reportNodeFailed_def by (auto intro: follows_from_event)

lemma attempt_follows:
  assumes "attempt_on os c r tr = (a, c', tr')"
  shows "follows_from (granted r) tr tr' (attempt_phase a)"
proof -
  let ?h = "extractHost (lr_Endpoint r)" and ?p = "lr_DaemonPort r" and ?l = "lr_LeaseID r"
  let ?t1 = "tr @ [Notified ?l]"
  let ?ok = "os_commit os ?t1 ?h ?p ?l"
  let ?t2 = "?t1 @ [AskedCommit ?h ?p ?l ?ok]"
  have f2: "follows_from (granted r) tr ?t2 (if ?ok = CommitOK then Held ?h ?p ?l else Idle)"
    by (intro follows_from_event [where ph' = "Told ?h ?p ?l"] follows_from_event [where ph' = "granted r"] follows_from_refl)
      (simp_all add: granted_def)
  show ?thesis
  proof (cases ?ok)
    case CommitNo
    then show ?thesis using f2 assms by (auto simp: attempt_on_def Let_def attempt_phase_def)
  next
    case CommitOK
    let ?t3 = "?t2 @ [RenewalsOn ?h ?p ?l]"
    let ?x = "os_exec os ?t3 ?h ?p (lr_NodeID r)"
    let ?t5 = "(?t3 @ [Executed ?h ?p (lr_NodeID r) ?x]) @ [RenewalsOff ?h ?p ?l]"
    have "follows_from (granted r) tr ?t2 (Held ?h ?p ?l)" using f2 CommitOK by simp
    then have "follows_from (granted r) tr ?t3 (Renewing ?h ?p ?l)" by (rule follows_from_event) simp
    then have "follows_from (granted r) tr (?t3 @ [Executed ?h ?p (lr_NodeID r) ?x]) (Ran ?h ?p ?l ?x)"
      by (rule follows_from_event) simp
    then have f5: "follows_from (granted r) tr ?t5 (Owing ?h ?p ?l ?x)" by (rule follows_from_event) simp
    have f6: "follows_from (granted r) tr (?t5 @ [CompletedLease ?h ?p ?l st]) Idle" if st: "earned ?x st" for st
      using f5 by (rule follows_from_event) (simp only: lease_phase_simps st if_True)
    note R = follows_from_report [OF f6, of _ c "lr_NodeID r"]
    show ?thesis
      using assms CommitOK f5 f6 [of "''succeeded''"] f6 [of "''cancelled''"] R [of "''failed''"]
      by (auto simp: attempt_on_def Let_def attempt_phase_def earned_def split: if_splits exec_result.splits)
  qed
qed

lemma adds_follows: "adds tr tr' ph \<Longrightarrow> follows_from ph tr' tr'' ph' \<Longrightarrow> adds tr tr'' ph'"
  by (force simp: adds_def follows_from_def follows_append)

definition outcome_phase :: "outcome \<Rightarrow> phase" where
  "outcome_phase out =
     (case out of RunDetached r \<Rightarrow> Owing (extractHost (lr_Endpoint r)) (lr_DaemonPort r) (lr_LeaseID r) ExecDetached | _ \<Rightarrow> Idle)"

lemma exec_loop_adds:
  assumes "exec_loop os failedOn c tr = Some y"
  shows "adds tr (snd (snd y)) (outcome_phase (fst y))"
  using assms
proof (induction rule: exec_loop.raw_induct [rotated, consumes 1, case_names step])
  case (step loop os failedOn c tr y)
  show ?case
  proof (cases "os_cancelled os tr")
    case True
    then show ?thesis using step(2) by (auto simp: outcome_phase_def)
  next
    case False
    obtain p c1 t1 where P: "PlaceWithRetry os c tr = Some (p, c1, t1)"
      using step(2) False by (auto simp: bind_eq_Some_conv)
    have a1: "adds tr t1 (placed_phase p)" by (rule PlaceWithRetry_adds [OF P])
    show ?thesis
    proof (cases p)
      case (Inl e)
      then show ?thesis using step(2) False a1 by (auto simp: P outcome_phase_def placed_phase_def)
    next
      case (Inr r)
      obtain a c2 t2 where A: "attempt_on os c1 r t1 = (a, c2, t2)" by (metis prod_cases3)
      have a2: "adds tr t2 (attempt_phase a)"
        using a1 attempt_follows [OF A] by (auto simp: Inr placed_phase_def intro: adds_follows)
      have again: "adds tr (snd (snd y)) (outcome_phase (fst y))"
        if "adds tr t Idle" "loop os f c2 t = Some y" for f t
        by (rule adds_trans [OF that(1) step(1) [OF that(2)]])
      show ?thesis
      proof (cases a)
        case (FailedOn name why)
        let ?f = "failedOn @ [name]"
        let ?t = "t2 @ [Waited (execRetryBackoff (co_execBackoffBase c2) (length ?f))]"
        have "adds tr ?t Idle" using a2 FailedOn by (intro adds_idle_event) (simp_all add: attempt_phase_def)
        then show ?thesis using step(2) False a2 again [of ?t ?f]
          by (auto simp: P Inr A FailedOn Let_def outcome_phase_def attempt_phase_def split: if_splits)
      qed (use step(2) False a2 again [of t2 failedOn] in
          \<open>auto simp: P Inr A outcome_phase_def attempt_phase_def\<close>)
    qed
  qed
qed



subsection \<open>Every run ends\<close>

text \<open>
  The outside as it is documented to be: the clock never runs backwards and a wait takes at least
  its time; every node listed, and this machine's own, has an id among \<open>ids\<close> and says the same id
  on its own \<^verbatim>\<open>/health\<close>.
\<close>

fun waits :: "event \<Rightarrow> int" where
  "waits (Waited d) = max 0 d"
| "waits _ = 0"

definition clock_runs :: "outside \<Rightarrow> bool" where
  "clock_runs os \<longleftrightarrow> (\<forall>tr e. os_now os tr + waits e \<le> os_now os (tr @ [e]))"

definition says_its_id :: "outside \<Rightarrow> string \<Rightarrow> int \<Rightarrow> string \<Rightarrow> bool" where
  "says_its_id os endpoint port nodeID \<longleftrightarrow>
     (\<forall>tr h. os_health os tr (extractHost endpoint) port = Some h \<longrightarrow> he_NodeID h = [] \<or> he_NodeID h = nodeID)"

definition stable_ids :: "outside \<Rightarrow> coordinator \<Rightarrow> string set \<Rightarrow> bool" where
  "stable_ids os c ids \<longleftrightarrow> finite ids \<and> co_NodeID c \<in> ids \<and> says_its_id os (co_selfSSH c) (co_selfDaemon c) (co_NodeID c)
     \<and> (\<forall>tr. \<forall>n \<in> set (nodes_of (os_find os tr)). nr_NodeID n \<in> ids
          \<and> says_its_id os (nr_SSHEndpoint n) (nr_DaemonPort n) (nr_NodeID n))"

text \<open>The parts of the coordinator that placing leaves alone.\<close>

definition same_job :: "coordinator \<Rightarrow> coordinator \<Rightarrow> bool" where
  "same_job c c' \<longleftrightarrow> co_NodeID c' = co_NodeID c \<and> co_selfSSH c' = co_selfSSH c \<and> co_selfDaemon c' = co_selfDaemon c
     \<and> co_retryInterval c' = co_retryInterval c \<and> co_placementWindow c' = co_placementWindow c"

lemma same_job_refl [simp]: "same_job c c"
  by (simp add: same_job_def)

lemma same_job_trans: "same_job c c' \<Longrightarrow> same_job c' c'' \<Longrightarrow> same_job c c''"
  by (simp add: same_job_def)

lemma same_job_stable: "same_job c c' \<Longrightarrow> stable_ids os c ids \<Longrightarrow> stable_ids os c' ids"
  by (simp add: same_job_def stable_ids_def)

definition placing_frame :: "coordinator \<Rightarrow> coordinator \<Rightarrow> bool" where
  "placing_frame c c' \<longleftrightarrow> same_job c c' \<and> co_refused c' = co_refused c \<and> co_tried c' = co_tried c"

lemma placing_frame_trans: "placing_frame c c' \<Longrightarrow> placing_frame c' c'' \<Longrightarrow> placing_frame c c''"
  by (auto simp: placing_frame_def intro: same_job_trans)

lemma FindNode_placing_frame: "placing_frame c (snd (FindNode e c))"
proof -
  obtain h k where "snd (FindNode e c) = c\<lparr>co_selfHealth := h, co_rrCounter := k\<rparr>" using FindNode_frame by blast
  then show ?thesis by (simp add: placing_frame_def same_job_def)
qed

lemma apply_health_id:
  assumes "says_its_id os (nr_SSHEndpoint n) (nr_DaemonPort n) (nr_NodeID n)"
  shows "nr_NodeID (apply_health (os_health os tr (extractHost (nr_SSHEndpoint n)) (nr_DaemonPort n)) n) = nr_NodeID n"
  using assms by (auto simp: says_its_id_def apply_health_def Let_def split: option.splits)

lemma tryCandidate_id:
  assumes "tryCandidate os c n tr = (n', g, tr')" "says_its_id os (nr_SSHEndpoint n) (nr_DaemonPort n) (nr_NodeID n)"
  shows "nr_NodeID n' = nr_NodeID n"
  using assms(1) apply_health_id [OF assms(2), of tr]
  by (auto simp: tryCandidate_def Let_def split: if_splits lease_reply.splits)

text \<open>Who was placed: the first of the order that granted a lease.\<close>

lemma try_all_Some:
  assumes "try_all os c is d tr = (Some r, d', tr')" "distinct is"
  shows "\<exists>pre i post d1 tr1 n g. is = pre @ i # post \<and> try_all os c pre d tr = (None, d1, tr1)
    \<and> tryCandidate os c (sn_Node (pd_Candidates d ! i)) tr1 = (n, Some g, tr') \<and> r = lease_result_of c d' n g"
  using assms
proof (induction "is" arbitrary: d tr)
  case (Cons j js)
  obtain n g t where t: "tryCandidate os c (sn_Node (pd_Candidates d ! j)) tr = (n, g, t)" by (metis prod_cases3)
  let ?d = "d\<lparr>pd_Candidates := (pd_Candidates d)[j := (pd_Candidates d ! j)\<lparr>sn_Node := n\<rparr>]\<rparr>"
  show ?case
  proof (cases g)
    case (Some g')
    then have "try_all os c [] d tr = (None, d, tr) \<and> tryCandidate os c (sn_Node (pd_Candidates d ! j)) tr = (n, Some g', tr')
        \<and> r = lease_result_of c d' n g'"
      using Cons.prems(1) t by (auto simp: Let_def)
    then show ?thesis by (metis append_Nil)
  next
    case None
    with Cons.prems have "try_all os c js ?d t = (Some r, d', tr')" "distinct js" by (simp_all add: t Let_def)
    from Cons.IH [OF this] obtain pre i post d1 tr1 n' g' where
      I: "js = pre @ i # post" "try_all os c pre ?d t = (None, d1, tr1)"
        "tryCandidate os c (sn_Node (pd_Candidates ?d ! i)) tr1 = (n', Some g', tr')" "r = lease_result_of c d' n' g'" by blast
    have "i \<noteq> j" using Cons.prems(2) I(1) by auto
    then have "pd_Candidates ?d ! i = pd_Candidates d ! i" by simp
    moreover have "try_all os c (j # pre) d tr = (None, d1, tr1)" using I(2) None by (simp add: t Let_def)
    ultimately show ?thesis using I(1,3,4)
      by (intro exI [of _ "j # pre"] exI [of _ i] exI [of _ post] exI [of _ d1] exI [of _ tr1] exI [of _ n'] exI [of _ g'] conjI)
        simp_all
  qed
qed simp

lemma try_order_distinct: "distinct (try_order c cands)"
  by (auto simp: try_order_def Let_def distinct_sort)

lemma try_order_open: "i \<in> set (try_order c cands) \<Longrightarrow> i < length cands \<and> sn_Reject (cands ! i) = None"
  by (auto simp: try_order_def Let_def split: if_splits)

lemma may_try_id:
  assumes "may_try (os_find os tr) c n" "stable_ids os c ids"
  shows "nr_NodeID n \<in> ids \<and> says_its_id os (nr_SSHEndpoint n) (nr_DaemonPort n) (nr_NodeID n)
    \<and> map_of (co_refused c) (nr_NodeID n) = None"
proof -
  have "nr_SSHEndpoint (buildSelfNode c') = co_selfSSH c'" "nr_DaemonPort (buildSelfNode c') = co_selfDaemon c'"
    "nr_NodeID (buildSelfNode c') = co_NodeID c'" for c'
    by (simp_all add: buildSelfNode_def Let_def split: prod.split)
  moreover have "co_selfSSH (asked_self e c) = co_selfSSH c" "co_selfDaemon (asked_self e c) = co_selfDaemon c"
    "co_NodeID (asked_self e c) = co_NodeID c" for e
    by (simp_all add: asked_self_def selfCeiling_def split: option.split)
  ultimately show ?thesis using assms by (auto simp: may_try_def stable_ids_def)
qed

lemma place_round_placed:
  assumes "place_round os c tr = (r, d, c', tr')"
  shows "placing_frame c c'"
    and "stable_ids os c ids \<Longrightarrow> r = Placed res \<Longrightarrow> lr_NodeID res \<in> ids \<and> map_of (co_refused c) (lr_NodeID res) = None"
proof -
  obtain d0 c0 where F: "FindNode (os_find os tr) c = (d0, c0)" by (metis surj_pair)
  have c': "c' = c0" using assms
    by (auto simp: place_round_def F Let_def split: option.splits if_splits prod.splits)
  then show "placing_frame c c'" using FindNode_placing_frame [of c "os_find os tr"] by (simp add: F)
  assume st: "stable_ids os c ids" and r: "r = Placed res"
  have strat: "co_strategy c0 = co_strategy c"
    using FindNode_frame [of "os_find os tr" c] by (auto simp: F)
  have placed: "lr_NodeID res \<in> ids \<and> map_of (co_refused c) (lr_NodeID res) = None"
    if m: "may_try (os_find os tr) c n" and T: "tryCandidate os c0 n t = (n', Some g, tr')" and e: "res = lease_result_of c0 d' n' g"
    for n n' g t d'
  proof -
    note I = may_try_id [OF m st]
    then have "nr_NodeID n' = nr_NodeID n" using tryCandidate_id [OF T] by blast
    then show ?thesis using I e by (simp add: lease_result_of_def)
  qed
  show "lr_NodeID res \<in> ids \<and> map_of (co_refused c) (lr_NodeID res) = None"
  proof (cases "co_strategy c = ''round-robin''")
    case True
    obtain n g t where T: "tryCandidate os c0 (pd_ChosenNode d0) (tr @ [AskedNodes]) = (n, g, t)" by (metis prod_cases3)
    from assms r True strat obtain g' d' where g: "g = Some g'" "t = tr'" "res = lease_result_of c0 d' n g'"
      and id: "nr_NodeID (pd_ChosenNode d0) \<noteq> []"
      by (auto simp: place_round_def F Let_def T split: option.splits if_splits)
    have "may_try (os_find os tr) c (pd_ChosenNode d0)"
      using round_robin_may_try [OF True, of "os_find os tr"] id by (simp add: F)
    from placed [OF this] T g show ?thesis by simp
  next
    case False
    obtain x d1 t where A: "try_all os c0 (try_order c0 (pd_Candidates d0)) d0 (tr @ [AskedNodes]) = (x, d1, t)" by (metis prod_cases3)
    from assms r False strat have x: "x = Some res" "t = tr'"
      by (auto simp: place_round_def F Let_def A split: option.splits)
    from try_all_Some [OF A [unfolded x] try_order_distinct] obtain i t1 n g where
      i: "i \<in> set (try_order c0 (pd_Candidates d0))" "tryCandidate os c0 (sn_Node (pd_Candidates d0 ! i)) t1 = (n, Some g, tr')"
        "res = lease_result_of c0 d1 n g" by (metis in_set_conv_decomp)
    from try_order_open [OF i(1)] have "pd_Candidates d0 ! i \<in> set (pd_Candidates (fst (FindNode (os_find os tr) c)))"
      "sn_Reject (pd_Candidates d0 ! i) = None" by (simp_all add: F)
    from placed [OF candidate_may_try [OF this] i(2,3)] show ?thesis .
  qed
qed


lemma clock_adds:
  assumes "clock_runs os" "adds tr tr' ph"
  shows "os_now os tr \<le> os_now os tr'"
proof -
  have step: "os_now os tr \<le> os_now os (tr @ [e])" for tr e
  proof -
    have "0 \<le> waits e" by (cases e) simp_all
    moreover have "os_now os tr + waits e \<le> os_now os (tr @ [e])" using assms(1) by (simp add: clock_runs_def)
    ultimately show ?thesis by simp
  qed
  have "os_now os tr \<le> os_now os (tr @ es)" for es
    by (induction es rule: rev_induct) (simp, metis append_assoc order_trans step)
  then show ?thesis using assms(2) by (auto simp: adds_def)
qed

text \<open>Placing ends: every round but the first follows a wait, and the window closes.\<close>

lemma place_loop_again:
  assumes clock: "clock_runs os" and pos: "0 \<le> co_retryInterval c"
  shows "\<exists>y. place_loop os deadline (Some d) c tr = Some y"
  using pos
proof (induction "nat (deadline - os_now os tr)" arbitrary: d c tr rule: less_induct)
  case less
  let ?left = "deadline - os_now os tr"
  let ?t = "tr @ [Waited (min (retry_interval c) ?left)]"
  show ?case
  proof (cases "?left \<le> 0 \<or> os_cancelled os ?t")
    case True
    then show ?thesis by (subst place_loop.simps) (auto simp: Let_def)
  next
    case False
    have "0 < retry_interval c" using less.prems by (simp add: retry_interval_def sec_def)
    then have "0 < min (retry_interval c) ?left" using False by simp
    moreover have "os_now os tr + waits (Waited (min (retry_interval c) ?left)) \<le> os_now os ?t"
      using clock by (simp only: clock_runs_def)
    ultimately have now: "os_now os tr < os_now os ?t" by (simp only: waits.simps)
    obtain r d' c' t' where R: "place_round os c ?t = (r, d', c', t')" by (metis prod_cases4)
    have "os_now os ?t \<le> os_now os t'" by (rule clock_adds [OF clock place_round_adds [OF R]])
    then have "nat (deadline - os_now os t') < nat ?left" using now False by auto
    moreover have "co_retryInterval c' = co_retryInterval c"
      using place_round_placed(1) [OF R] by (simp add: placing_frame_def same_job_def)
    ultimately have IH: "\<exists>y. place_loop os deadline (Some d') c' t' = Some y" using less by simp
    have "place_loop os deadline (Some d) c tr =
        (case r of Placed res \<Rightarrow> Some (Inr res, c', t') | Hopeless why \<Rightarrow> Some (Inl (NeverFits why), c', t')
         | NoRoom \<Rightarrow> place_loop os deadline (Some d') c' t')"
      using False by (subst place_loop.simps) (simp add: Let_def R)
    then show ?thesis using IH by (cases r) auto
  qed
qed

lemma place_returns:
  assumes "clock_runs os" "0 \<le> co_retryInterval c"
  shows "\<exists>p c' tr'. PlaceWithRetry os c tr = Some (p, c', tr')"
proof -
  let ?dl = "os_now os tr + placement_window c"
  obtain r d c' t where R: "place_round os c tr = (r, d, c', t)" by (metis prod_cases4)
  have "0 \<le> co_retryInterval c'"
    using assms(2) place_round_placed(1) [OF R] by (simp add: placing_frame_def same_job_def)
  from place_loop_again [OF assms(1) this] obtain y where "place_loop os ?dl (Some d) c' t = Some y" by blast
  moreover have "PlaceWithRetry os c tr =
      (case r of Placed res \<Rightarrow> Some (Inr res, c', t) | Hopeless why \<Rightarrow> Some (Inl (NeverFits why), c', t)
       | NoRoom \<Rightarrow> place_loop os ?dl (Some d) c' t)"
    unfolding PlaceWithRetry_def by (subst place_loop.simps) (simp add: R)
  ultimately show ?thesis by (cases r; cases y) auto
qed

lemma place_loop_result:
  assumes "place_loop os deadline prev c tr = Some y"
  shows "placing_frame c (fst (snd y))
    \<and> (\<forall>r. stable_ids os c ids \<longrightarrow> fst y = Inr r \<longrightarrow> lr_NodeID r \<in> ids \<and> map_of (co_refused c) (lr_NodeID r) = None)"
  using assms
proof (induction rule: place_loop.raw_induct [rotated, consumes 1, case_names step])
  case (step loop os deadline prev c tr y)
  let ?P = "\<lambda>c y. placing_frame c (fst (snd y))
    \<and> (\<forall>r. stable_ids os c ids \<longrightarrow> fst y = Inr r \<longrightarrow> lr_NodeID r \<in> ids \<and> map_of (co_refused c) (lr_NodeID r) = None)"
  have round: "?P c y"
    if "(case place_round os c t of (r, d, c, tr) \<Rightarrow>
          (case r of Placed res \<Rightarrow> Some (Inr res, c, tr) | Hopeless why \<Rightarrow> Some (Inl (NeverFits why), c, tr)
           | NoRoom \<Rightarrow> loop os deadline (Some d) c tr)) = Some y" for t
  proof -
    obtain r d c' t' where R: "place_round os c t = (r, d, c', t')" by (metis prod_cases4)
    note F = place_round_placed(1) [OF R] and I = place_round_placed(2) [OF R]
    show ?thesis
    proof (cases r)
      case (Placed res)
      then show ?thesis using that F I [of ids res] by (auto simp: R)
    next
      case (Hopeless why)
      then show ?thesis using that F by (auto simp: R)
    next
      case NoRoom
      then have "loop os deadline (Some d) c' t' = Some y" using that by (simp add: R)
      from step(1) [OF this] F show ?thesis
        by (auto simp: placing_frame_def intro: same_job_trans same_job_stable)
    qed
  qed
  show ?case
  proof (cases prev)
    case None
    then show ?thesis using step(2) by (intro round [of tr]) simp_all
  next
    case (Some d0)
    then show ?thesis using step(2) round [of "tr @ [Waited (min (retry_interval c) (deadline - os_now os tr))]"]
      by (auto simp: Let_def placing_frame_def split: if_splits)
  qed
qed

lemma PlaceWithRetry_result:
  assumes "PlaceWithRetry os c tr = Some (p, c', tr')"
  shows "placing_frame c c'"
    and "stable_ids os c ids \<Longrightarrow> p = Inr r \<Longrightarrow> lr_NodeID r \<in> ids \<and> map_of (co_refused c) (lr_NodeID r) = None"
  using place_loop_result [OF assms [unfolded PlaceWithRetry_def], of ids] by auto

subsection \<open>The executions of a run\<close>

fun runs_of :: "events \<Rightarrow> (string \<times> exec_result) list" where
  "runs_of [] = []"
| "runs_of (Executed h p n x # es) = (n, x) # runs_of es"
| "runs_of (_ # es) = runs_of es"

lemma runs_of_append [simp]: "runs_of (es @ fs) = runs_of es @ runs_of fs"
  by (induction es rule: runs_of.induct) simp_all

lemma tryCandidate_runs: "tryCandidate os c n tr = (n', g, tr') \<Longrightarrow> runs_of tr' = runs_of tr"
  by (auto simp: tryCandidate_def Let_def split: if_splits lease_reply.splits)

lemma try_all_runs: "try_all os c is d tr = (r, d', tr') \<Longrightarrow> runs_of tr' = runs_of tr"
proof (induction "is" arbitrary: d tr)
  case (Cons i "is")
  obtain n g t where t: "tryCandidate os c (sn_Node (pd_Candidates d ! i)) tr = (n, g, t)" by (metis prod_cases3)
  show ?case
  proof (cases g)
    case None
    with Cons.prems have "try_all os c is (d\<lparr>pd_Candidates := (pd_Candidates d)[i := (pd_Candidates d ! i)\<lparr>sn_Node := n\<rparr>]\<rparr>) t
        = (r, d', tr')" by (simp add: t Let_def)
    from Cons.IH [OF this] tryCandidate_runs [OF t] show ?thesis by simp
  next
    case (Some g')
    then show ?thesis using Cons.prems tryCandidate_runs [OF t] by (auto simp: t Let_def)
  qed
qed simp

lemma place_round_runs:
  assumes "place_round os c tr = (r, d, c', tr')"
  shows "runs_of tr' = runs_of tr"
proof -
  obtain d0 c0 where F: "FindNode (os_find os tr) c = (d0, c0)" by (metis surj_pair)
  obtain n g t where T: "tryCandidate os c0 (pd_ChosenNode d0) (tr @ [AskedNodes]) = (n, g, t)" by (metis prod_cases3)
  obtain x d1 u where A: "try_all os c0 (try_order c0 (pd_Candidates d0)) d0 (tr @ [AskedNodes]) = (x, d1, u)" by (metis prod_cases3)
  show ?thesis using assms tryCandidate_runs [OF T] try_all_runs [OF A]
    by (auto simp: place_round_def F T A Let_def split: option.splits if_splits)
qed

lemma place_loop_runs:
  assumes "place_loop os deadline prev c tr = Some y"
  shows "runs_of (snd (snd y)) = runs_of tr"
  using assms
proof (induction rule: place_loop.raw_induct [rotated, consumes 1, case_names step])
  case (step loop os deadline prev c tr y)
  have round: "runs_of (snd (snd y)) = runs_of tr"
    if "runs_of t = runs_of tr" and "(case place_round os c t of (r, d, c, tr) \<Rightarrow>
          (case r of Placed res \<Rightarrow> Some (Inr res, c, tr) | Hopeless why \<Rightarrow> Some (Inl (NeverFits why), c, tr)
           | NoRoom \<Rightarrow> loop os deadline (Some d) c tr)) = Some y" for t
  proof -
    obtain r d c' t' where R: "place_round os c t = (r, d, c', t')" by (metis prod_cases4)
    show ?thesis using that place_round_runs [OF R] step(1) [of os deadline "Some d" c' t' y]
      by (cases r) (auto simp: R)
  qed
  show ?case
  proof (cases prev)
    case None
    then show ?thesis using step(2) by (intro round [of tr]) simp_all
  next
    case (Some d0)
    then show ?thesis using step(2) round [of "tr @ [Waited (min (retry_interval c) (deadline - os_now os tr))]"]
      by (auto simp: Let_def split: if_splits)
  qed
qed

lemma PlaceWithRetry_runs: "PlaceWithRetry os c tr = Some (p, c', tr') \<Longrightarrow> runs_of tr' = runs_of tr"
  unfolding PlaceWithRetry_def by (drule place_loop_runs) simp


text \<open>One attempt runs at most one job, on the node that was placed.\<close>

lemma attempt_result:
  assumes "attempt_on os c r tr = (a, c', tr')"
  shows "same_job c c'"
    and "case a of
        Uncommitted \<Rightarrow> runs_of tr' = runs_of tr \<and> co_refused c' = co_refused c
          \<and> (\<exists>tr. os_commit os tr (extractHost (lr_Endpoint r)) (lr_DaemonPort r) (lr_LeaseID r) = CommitNo)
      | RefusedBy n \<Rightarrow> n = lr_NodeID r \<and> (\<exists>why. runs_of tr' = runs_of tr @ [(n, ExecRefused why)]
          \<and> co_refused c' = AList.update n why (co_refused c))
      | FailedOn name why \<Rightarrow> runs_of tr' = runs_of tr @ [(lr_NodeID r, ExecFailed why)] \<and> co_refused c' = co_refused c
      | _ \<Rightarrow> (\<exists>x. runs_of tr' = runs_of tr @ [(lr_NodeID r, x)] 
          \<and> (\<forall>q. a = Finished q \<longrightarrow> q = r \<and> x = ExecOK) \<and> (\<forall>q. a = Detached q \<longrightarrow> q = r \<and> x = ExecDetached)
          \<and> (\<forall>why. a = Stopped (PermanentFailure why) \<longrightarrow> x = ExecPermanent why)
          \<and> (\<forall>n ns why. a \<noteq> Stopped (GaveUp n ns why)))"
proof -
  let ?h = "extractHost (lr_Endpoint r)" and ?p = "lr_DaemonPort r" and ?l = "lr_LeaseID r"
  have rep: "runs_of (reportNodeFailed k n t) = runs_of t" for k n t by (simp add: reportNodeFailed_def)
  show "same_job c c'"
    using assms by (auto simp: attempt_on_def Let_def same_job_def split: if_splits exec_result.splits)
  show "case a of
        Uncommitted \<Rightarrow> runs_of tr' = runs_of tr \<and> co_refused c' = co_refused c
          \<and> (\<exists>tr. os_commit os tr (extractHost (lr_Endpoint r)) (lr_DaemonPort r) (lr_LeaseID r) = CommitNo)
      | RefusedBy n \<Rightarrow> n = lr_NodeID r \<and> (\<exists>why. runs_of tr' = runs_of tr @ [(n, ExecRefused why)]
          \<and> co_refused c' = AList.update n why (co_refused c))
      | FailedOn name why \<Rightarrow> runs_of tr' = runs_of tr @ [(lr_NodeID r, ExecFailed why)] \<and> co_refused c' = co_refused c
      | _ \<Rightarrow> (\<exists>x. runs_of tr' = runs_of tr @ [(lr_NodeID r, x)] 
          \<and> (\<forall>q. a = Finished q \<longrightarrow> q = r \<and> x = ExecOK) \<and> (\<forall>q. a = Detached q \<longrightarrow> q = r \<and> x = ExecDetached)
          \<and> (\<forall>why. a = Stopped (PermanentFailure why) \<longrightarrow> x = ExecPermanent why)
          \<and> (\<forall>n ns why. a \<noteq> Stopped (GaveUp n ns why)))"
    using assms by (auto simp: attempt_on_def Let_def rep split: if_splits exec_result.splits)
qed

fun is_refusal :: "exec_result \<Rightarrow> bool" where
  "is_refusal (ExecRefused why) \<longleftrightarrow> True"
| "is_refusal _ \<longleftrightarrow> False"

text \<open>No node in \<open>R\<close>, nor one that refused meanwhile, is asked to run the job.\<close>

fun refused_once :: "string set \<Rightarrow> (string \<times> exec_result) list \<Rightarrow> bool" where
  "refused_once R [] \<longleftrightarrow> True"
| "refused_once R ((n, x) # rs) \<longleftrightarrow> n \<notin> R \<and> refused_once (if is_refusal x then insert n R else R) rs"

definition refused_nodes :: "coordinator \<Rightarrow> string set" where
  "refused_nodes c = dom (map_of (co_refused c))"

lemma refused_nodes_update: "co_refused c' = AList.update n why (co_refused c) \<Longrightarrow> refused_nodes c' = insert n (refused_nodes c)"
  by (auto simp: refused_nodes_def go_map_simps split: if_splits)

text \<open>The outcome of a run is the outcome of its last execution.\<close>

definition agrees :: "outcome \<Rightarrow> (string \<times> exec_result) list \<Rightarrow> bool" where
  "agrees out rs =
     (case out of
        RunOK r \<Rightarrow> rs \<noteq> [] \<and> last rs = (lr_NodeID r, ExecOK)
      | RunDetached r \<Rightarrow> rs \<noteq> [] \<and> last rs = (lr_NodeID r, ExecDetached)
      | RunError e \<Rightarrow>
          (case e of
             PermanentFailure why \<Rightarrow> rs \<noteq> [] \<and> snd (last rs) = ExecPermanent why
           | GaveUp n names why \<Rightarrow> n = MaxExecAttempts \<and> length names = n \<and> rs \<noteq> [] \<and> snd (last rs) = ExecFailed why
           | _ \<Rightarrow> True))"

lemma placing_error: "place_loop os deadline prev c tr = Some y \<Longrightarrow> fst y = Inl e \<Longrightarrow> agrees (RunError e) rs"
proof (induction rule: place_loop.raw_induct [rotated, consumes 1, case_names step])
  case (step loop os deadline prev c tr y)
  have round: "agrees (RunError e) rs"
    if "(case place_round os c t of (r, d, c, tr) \<Rightarrow>
          (case r of Placed res \<Rightarrow> Some (Inr res, c, tr) | Hopeless why \<Rightarrow> Some (Inl (NeverFits why), c, tr)
           | NoRoom \<Rightarrow> loop os deadline (Some d) c tr)) = Some y" for t
  proof -
    obtain r d c' t' where R: "place_round os c t = (r, d, c', t')" by (metis prod_cases4)
    show ?thesis using that step(3) step(1) [of os deadline "Some d" c' t' y]
      by (cases r) (auto simp: R agrees_def)
  qed
  show ?case
  proof (cases prev)
    case None
    then show ?thesis using step(2) by (intro round [of tr]) simp_all
  next
    case (Some d0)
    then show ?thesis using step(2,3) round [of "tr @ [Waited (min (retry_interval c) (deadline - os_now os tr))]"]
      by (auto simp: Let_def agrees_def split: if_splits)
  qed
qed

lemma exec_loop_runs:
  assumes "exec_loop os failedOn c tr = Some y"
  shows "stable_ids os c ids \<longrightarrow> length failedOn < MaxExecAttempts \<longrightarrow>
    (\<exists>rs. runs_of (snd (snd y)) = runs_of tr @ rs \<and> refused_once (refused_nodes c) rs \<and> fst ` set rs \<subseteq> ids
      \<and> length rs + length failedOn \<le> card (ids - refused_nodes c) + MaxExecAttempts
      \<and> agrees (fst y) (runs_of (snd (snd y))))"
  using assms
proof (induction rule: exec_loop.raw_induct [rotated, consumes 1, case_names step])
  case (step loop os failedOn c tr y)
  show ?case
  proof (intro impI)
    assume st: "stable_ids os c ids" and few: "length failedOn < MaxExecAttempts"
    let ?goal = "\<exists>rs. runs_of (snd (snd y)) = runs_of tr @ rs \<and> refused_once (refused_nodes c) rs \<and> fst ` set rs \<subseteq> ids
      \<and> length rs + length failedOn \<le> card (ids - refused_nodes c) + MaxExecAttempts \<and> agrees (fst y) (runs_of (snd (snd y)))"
    have none: ?goal if "runs_of (snd (snd y)) = runs_of tr" "agrees (fst y) (runs_of (snd (snd y)))"
      using that few by (intro exI [of _ "[]"]) simp
    show ?goal
    proof (cases "os_cancelled os tr")
      case True
      then show ?thesis using step(2) by (intro none) (auto simp: agrees_def)
    next
      case False
      obtain p c1 t1 where P: "PlaceWithRetry os c tr = Some (p, c1, t1)"
        using step(2) False by (auto simp: bind_eq_Some_conv)
      note r1 = PlaceWithRetry_runs [OF P] and f1 = PlaceWithRetry_result(1) [OF P]
      show ?thesis
      proof (cases p)
        case (Inl e)
        moreover from placing_error [OF P [unfolded PlaceWithRetry_def], of e] Inl
        have "agrees (RunError e) (runs_of (snd (snd y)))" by simp
        ultimately show ?thesis using step(2) False r1 by (intro none) (auto simp: P)
      next
        case (Inr r)
        from PlaceWithRetry_result(2) [OF P st Inr] have id: "lr_NodeID r \<in> ids" "lr_NodeID r \<notin> refused_nodes c"
          by (auto simp: refused_nodes_def)
        have fin: "finite ids" using st by (simp add: stable_ids_def)
        obtain a c2 t2 where A: "attempt_on os c1 r t1 = (a, c2, t2)" by (metis prod_cases3)
        note A1 = attempt_result(1) [OF A] and A2 = attempt_result(2) [OF A]
        have st2: "stable_ids os c2 ids"
          using st f1 A1 by (auto simp: placing_frame_def intro: same_job_stable)
        have one: ?goal if "runs_of (snd (snd y)) = runs_of tr @ [(lr_NodeID r, x)]"
            "agrees (fst y) (runs_of (snd (snd y)))" for x
          using that id few by (intro exI [of _ "[(lr_NodeID r, x)]"]) simp
        have loop_again: "\<exists>rs. runs_of (snd (snd y)) = runs_of t @ rs \<and> refused_once (refused_nodes c2) rs
            \<and> fst ` set rs \<subseteq> ids \<and> length rs + length f \<le> card (ids - refused_nodes c2) + MaxExecAttempts
            \<and> agrees (fst y) (runs_of (snd (snd y)))"
          if "loop os f c2 t = Some y" "length f < MaxExecAttempts" for f t
          using step(1) [OF that(1)] st2 that(2) by simp
        have rc: "refused_nodes c1 = refused_nodes c" using f1 by (simp add: placing_frame_def refused_nodes_def)
        show ?thesis
        proof (cases a)
          case (Finished q)
          then show ?thesis using step(2) False A2 r1 one by (auto simp: P Inr A agrees_def split: coord_error.splits)
        next
          case (Detached q)
          then show ?thesis using step(2) False A2 r1 one by (auto simp: P Inr A agrees_def split: coord_error.splits)
        next
          case (Stopped e)
          then show ?thesis using step(2) False A2 r1 one by (auto simp: P Inr A agrees_def split: coord_error.splits)
        next
          case Uncommitted
          then have "loop os failedOn c2 t2 = Some y" using step(2) False by (auto simp: P Inr A)
          from loop_again [OF this few] show ?thesis
            using Uncommitted A2 r1 rc by (auto simp: refused_nodes_def)
        next
          case (RefusedBy n)
          then obtain why where n: "n = lr_NodeID r" "runs_of t2 = runs_of tr @ [(n, ExecRefused why)]"
            "refused_nodes c2 = insert n (refused_nodes c)" using A2 r1 rc refused_nodes_update by auto
          have "loop os failedOn c2 t2 = Some y" using step(2) False RefusedBy by (auto simp: P Inr A)
          from loop_again [OF this few] obtain rs where rs: "runs_of (snd (snd y)) = runs_of t2 @ rs"
            "refused_once (refused_nodes c2) rs" "fst ` set rs \<subseteq> ids"
            "length rs + length failedOn \<le> card (ids - refused_nodes c2) + MaxExecAttempts"
            "agrees (fst y) (runs_of (snd (snd y)))" by blast
          have "card (ids - refused_nodes c) = Suc (card (ids - refused_nodes c2))"
            using card_Diff1_less [of "ids - refused_nodes c" n] id n fin
            by (simp add: card_Suc_Diff1 Diff_insert [symmetric] flip: Diff_insert2)
          then show ?thesis using rs n id by (intro exI [of _ "(n, ExecRefused why) # rs"]) auto
        next
          case (FailedOn name why)
          let ?f = "failedOn @ [name]"
          let ?t = "t2 @ [Waited (execRetryBackoff (co_execBackoffBase c2) (length ?f))]"
          have n: "runs_of t2 = runs_of tr @ [(lr_NodeID r, ExecFailed why)]" "refused_nodes c2 = refused_nodes c"
            using A2 r1 rc FailedOn by (auto simp: refused_nodes_def)
          show ?thesis
          proof (cases "MaxExecAttempts \<le> length ?f \<or> os_cancelled os ?t")
            case True
            then have "runs_of (snd (snd y)) = runs_of t2
                \<and> (fst y = RunError TaskCancelled \<or> fst y = RunError (GaveUp (length ?f) ?f why) \<and> MaxExecAttempts \<le> length ?f)"
              using step(2) False FailedOn by (auto simp: P Inr A Let_def split: if_splits)
            then show ?thesis using n one [of "ExecFailed why"] few by (auto simp: agrees_def)
          next
            case go: False
            then have "loop os ?f c2 ?t = Some y" using step(2) False FailedOn by (auto simp: P Inr A Let_def)
            from loop_again [OF this] go obtain rs where rs: "runs_of (snd (snd y)) = runs_of t2 @ rs"
              "refused_once (refused_nodes c2) rs" "fst ` set rs \<subseteq> ids"
              "length rs + length ?f \<le> card (ids - refused_nodes c2) + MaxExecAttempts"
              "agrees (fst y) (runs_of (snd (snd y)))" by auto
            then show ?thesis using n id by (intro exI [of _ "(lr_NodeID r, ExecFailed why) # rs"]) auto
          qed
        qed
      qed
    qed
  qed
qed


text \<open>Where every node has one id and says it, a run never asks a node to run the job again after
  that node refused its closure, makes at most three executions more than there are nodes that
  have not refused it, all of them on known nodes, and reports what its last execution returned: success or
  detachment on that node, a permanent failure, or after three failures the last of them.\<close>

theorem refused_nodes_are_left_out:
  assumes "ExecuteWithRetry os c = Some (out, c', tr)" and "stable_ids os c ids"
  shows "refused_once (refused_nodes c) (runs_of tr) \<and> fst ` set (runs_of tr) \<subseteq> ids
    \<and> length (runs_of tr) \<le> card (ids - refused_nodes c) + MaxExecAttempts \<and> agrees out (runs_of tr)"
  using exec_loop_runs [OF assms(1) [unfolded ExecuteWithRetry_def], of ids] assms(2)
  by (auto simp: MaxExecAttempts_def)

lemma exec_loop_returns:
  assumes "clock_runs os" "\<And>tr h p l. os_commit os tr h p l = CommitOK"
  shows "stable_ids os c ids \<Longrightarrow> 0 \<le> co_retryInterval c \<Longrightarrow> length failedOn < MaxExecAttempts \<Longrightarrow>
    \<exists>out c' tr'. exec_loop os failedOn c tr = Some (out, c', tr')"
proof (induction "card (ids - refused_nodes c) + (MaxExecAttempts - length failedOn)" arbitrary: failedOn c tr rule: less_induct)
  case less
  show ?case
  proof (cases "os_cancelled os tr")
    case True
    then show ?thesis by (subst exec_loop.simps) simp
  next
    case False
    from place_returns [OF assms(1) less.prems(2)] obtain p c1 t1 where P: "PlaceWithRetry os c tr = Some (p, c1, t1)" by blast
    note f1 = PlaceWithRetry_result(1) [OF P]
    show ?thesis
    proof (cases p)
      case (Inl e)
      then show ?thesis using False P by (subst exec_loop.simps) simp
    next
      case (Inr r)
      obtain a c2 t2 where A: "attempt_on os c1 r t1 = (a, c2, t2)" by (metis prod_cases3)
      note A1 = attempt_result(1) [OF A] and A2 = attempt_result(2) [OF A]
      from PlaceWithRetry_result(2) [OF P less.prems(1) Inr]
      have id: "lr_NodeID r \<in> ids - refused_nodes c" by (auto simp: refused_nodes_def)
      have fin: "finite (ids - refused_nodes c)" using less.prems(1) by (simp add: stable_ids_def)
      have rc: "refused_nodes c1 = refused_nodes c" using f1 by (simp add: placing_frame_def refused_nodes_def)
      have nxt: "stable_ids os c2 ids" "0 \<le> co_retryInterval c2"
        using less.prems f1 A1 by (auto simp: placing_frame_def same_job_def stable_ids_def)
      have eq: "exec_loop os failedOn c tr = (case a of
            Finished r \<Rightarrow> Some (RunOK r, c2, t2) | Detached r \<Rightarrow> Some (RunDetached r, c2, t2)
          | Stopped e \<Rightarrow> Some (RunError e, c2, t2)
          | Uncommitted \<Rightarrow> exec_loop os failedOn c2 t2 | RefusedBy node \<Rightarrow> exec_loop os failedOn c2 t2
          | FailedOn name why \<Rightarrow>
              (let failedOn = failedOn @ [name]
               in if MaxExecAttempts \<le> length failedOn
                  then Some (RunError (GaveUp (length failedOn) failedOn why), c2, t2)
                  else let tr = t2 @ [Waited (execRetryBackoff (co_execBackoffBase c2) (length failedOn))]
                  in if os_cancelled os tr then Some (RunError TaskCancelled, c2, tr)
                  else exec_loop os failedOn c2 tr))"
        using False by (subst exec_loop.simps) (simp add: P Inr A)
      show ?thesis
      proof (cases a)
        case Uncommitted
        then show ?thesis using A2 assms(2) by auto
      next
        case (RefusedBy n)
        then have "refused_nodes c2 = insert (lr_NodeID r) (refused_nodes c)"
          using A2 rc refused_nodes_update by auto
        then have "ids - refused_nodes c2 = (ids - refused_nodes c) - {lr_NodeID r}" by auto
        then have "card (ids - refused_nodes c2) < card (ids - refused_nodes c)"
          using card_Diff1_less [OF fin id] by simp
        then have "\<exists>out c' tr'. exec_loop os failedOn c2 t2 = Some (out, c', tr')"
          using less.hyps nxt less.prems(3) by simp
        then show ?thesis using RefusedBy by (simp add: eq)
      next
        case (FailedOn name why)
        then have "refused_nodes c2 = refused_nodes c" using A2 rc by (simp add: refused_nodes_def)
        then have "\<exists>out c' tr'. exec_loop os (failedOn @ [name]) c2 t = Some (out, c', tr')"
          if "length (failedOn @ [name]) < MaxExecAttempts" for t
          using less.hyps [of c2 "failedOn @ [name]"] nxt that by simp
        then show ?thesis using FailedOn by (auto simp: eq Let_def)
      qed (auto simp: eq)
    qed
  qed
qed

text \<open>C22: A run always ends when the clock runs, the ids are stable and commits are accepted: placing
  gives up when its window closes, three failures end the run, and each refusal leaves one node
  fewer.\<close>

theorem run_ends:
  assumes "clock_runs os" and "stable_ids os c ids" and "0 \<le> co_retryInterval c"
    and "\<And>tr h p l. os_commit os tr h p l = CommitOK"
  shows "\<exists>out c' tr. ExecuteWithRetry os c = Some (out, c', tr)"
  unfolding ExecuteWithRetry_def
  by (rule exec_loop_returns [OF assms(1,4,2,3)]) (simp add: MaxExecAttempts_def)

text \<open>
  The assumption on commits is needed: nothing counts a commit that is refused, so while nodes go on
  granting leases and refusing their commits, a run that is not cancelled never ends.
\<close>

lemma refused_commits_never_end:
  assumes "\<And>tr h p l. os_commit os tr h p l = CommitNo" "\<And>tr. \<not> os_cancelled os tr"
    and "\<And>c tr e c' tr'. PlaceWithRetry os c tr \<noteq> Some (Inl e, c', tr')"
  shows "ExecuteWithRetry os c = None"
proof -
  have "exec_loop os f c tr = Some y \<Longrightarrow>
    (\<forall>tr h p l. os_commit os tr h p l = CommitNo) \<and> (\<forall>tr. \<not> os_cancelled os tr)
    \<and> (\<forall>c tr e c' tr'. PlaceWithRetry os c tr \<noteq> Some (Inl e, c', tr')) \<longrightarrow> False" for f tr y
  proof (induction rule: exec_loop.raw_induct [rotated, consumes 1, case_names step])
    case (step loop os f c tr y)
    show ?case
    proof (intro impI)
      assume H: "(\<forall>tr h p l. os_commit os tr h p l = CommitNo) \<and> (\<forall>tr. \<not> os_cancelled os tr)
        \<and> (\<forall>c tr e c' tr'. PlaceWithRetry os c tr \<noteq> Some (Inl e, c', tr'))"
      from step(2) H obtain p c1 t1 where P: "PlaceWithRetry os c tr = Some (p, c1, t1)" by (auto simp: bind_eq_Some_conv)
      with H obtain r where r: "p = Inr r" by (cases p) auto
      have "fst (attempt_on os c1 r t1) = Uncommitted" using H by (simp add: attempt_on_def Let_def)
      then obtain c2 t2 where "attempt_on os c1 r t1 = (Uncommitted, c2, t2)" by (metis fst_conv prod_cases3)
      then have "loop os f c2 t2 = Some y" using step(2) H by (simp add: P r)
      from step(1) [OF this] H show False by blast
    qed
  qed
  then show ?thesis using assms unfolding ExecuteWithRetry_def by (metis not_None_eq)
qed

subsection \<open>The order of the tries\<close>

lemma set_try_order:
  "set (try_order c cands) =
     {i. i < length cands \<and> sn_Reject (cands ! i) = None \<and> (co_requireGPU c \<longrightarrow> hasGPU (sn_Node (cands ! i)))}"
  by (auto simp: try_order_def Let_def)

lemma try_order_tried:
  "sorted (map (\<lambda>i. tried c (nr_NodeID (sn_Node (cands ! i)))) (try_order c cands))"
  by (simp add: try_order_def Let_def)

text \<open>When a round of placing under the smart strategy gives the job to a node, every open node
  that has run it fewer times (under a required GPU, every such node with one) was asked before in
  the same round and granted no lease: a retry goes to a node not yet tried whenever one takes it.\<close>

theorem untried_nodes_are_asked_first:
  assumes "place_round os c tr = (Placed r, d, c', tr')" and "co_strategy c \<noteq> ''round-robin''"
  shows "\<exists>pre i post d1 tr1 n g. try_order c' (pd_Candidates (fst (FindNode (os_find os tr) c))) = pre @ i # post
    \<and> try_all os c' pre (fst (FindNode (os_find os tr) c)) (tr @ [AskedNodes]) = (None, d1, tr1)
    \<and> tryCandidate os c' (sn_Node (pd_Candidates (fst (FindNode (os_find os tr) c)) ! i)) tr1 = (n, Some g, tr')
    \<and> lr_NodeID r = nr_NodeID n
    \<and> (\<forall>j < length (pd_Candidates (fst (FindNode (os_find os tr) c))).
        (let s = pd_Candidates (fst (FindNode (os_find os tr) c)) ! j
         in sn_Reject s = None \<and> (co_requireGPU c' \<longrightarrow> hasGPU (sn_Node s))
           \<and> tried c' (nr_NodeID (sn_Node s))
              < tried c' (nr_NodeID (sn_Node (pd_Candidates (fst (FindNode (os_find os tr) c)) ! i))))
        \<longrightarrow> j \<in> set pre)"
proof -
  obtain d0 c0 where F: "FindNode (os_find os tr) c = (d0, c0)" by (metis surj_pair)
  let ?ord = "try_order c0 (pd_Candidates d0)"
  obtain x d1 t where A: "try_all os c0 ?ord d0 (tr @ [AskedNodes]) = (x, d1, t)" by (metis prod_cases3)
  have strat: "co_strategy c0 = co_strategy c" using FindNode_frame [of "os_find os tr" c] by (auto simp: F)
  from assms have x: "x = Some r" "t = tr'" "c' = c0"
    by (auto simp: place_round_def F Let_def A strat split: option.splits)
  from try_all_Some [OF A [unfolded x] try_order_distinct] obtain pre i post d2 tr1 n g where
    I: "?ord = pre @ i # post" "try_all os c0 pre d0 (tr @ [AskedNodes]) = (None, d2, tr1)"
      "tryCandidate os c0 (sn_Node (pd_Candidates d0 ! i)) tr1 = (n, Some g, tr')" "r = lease_result_of c0 d1 n g" by blast
  let ?k = "\<lambda>i. tried c0 (nr_NodeID (sn_Node (pd_Candidates d0 ! i)))"
  have "sorted (map ?k (pre @ i # post))" using try_order_tried [of c0 "pd_Candidates d0"] by (simp only: I(1))
  then have later: "?k i \<le> ?k j" if "j \<in> set (i # post)" for j using that by (auto simp: sorted_append)
  have "j \<in> set pre" if "j < length (pd_Candidates d0)" "sn_Reject (pd_Candidates d0 ! j) = None"
    "co_requireGPU c0 \<longrightarrow> hasGPU (sn_Node (pd_Candidates d0 ! j))" "?k j < ?k i" for j
  proof -
    have "j \<in> set ?ord" using that(1-3) by (simp add: set_try_order)
    then show ?thesis using later [of j] that(4) by (auto simp: I(1))
  qed
  then show ?thesis using I
    by (intro exI [of _ pre] exI [of _ i] exI [of _ post] exI [of _ d2] exI [of _ tr1] exI [of _ n] exI [of _ g])
      (simp add: F x(3) lease_result_of_def Let_def)
qed


subsection \<open>A cluster of two\<close>

text \<open>Node \<open>b\<close> has more cores, so it is asked first; it refuses the closure, and \<open>a\<close> fails once.\<close>

definition ex_node :: "string \<Rightarrow> int \<Rightarrow> node_record" where
  "ex_node nodeID cpus = no_node\<lparr>nr_NodeID := nodeID, nr_SSHEndpoint := ''u@'' @ nodeID @ '':22'', nr_DaemonPort := 4242,
     nr_Load := no_load\<lparr>ld_TotalCPUs := cpus\<rparr>, nr_HealthScore := 1, nr_State := ''healthy''\<rparr>"

definition ex_find :: find_env where
  "ex_find = \<lparr>fe_nodes = Some [\<lparr>st_Node = ex_node ''a'' 4, st_Source = ''lan''\<rparr>, \<lparr>st_Node = ex_node ''b'' 8, st_Source = ''lan''\<rparr>],
     fe_self = NoSelfReply, fe_discovered = [], fe_roundRobin = None\<rparr>"

definition ex_exec :: "events \<Rightarrow> string \<Rightarrow> exec_result" where
  "ex_exec tr n = (if n = ''b'' then ExecRefused ''no trusted key''
     else if length (runs_of tr) < 2 then ExecFailed ''disk full'' else ExecOK)"

definition ex_outside :: outside where
  "ex_outside = \<lparr>os_find = (\<lambda>tr. ex_find), os_health = (\<lambda>tr h p. None), os_lease = (\<lambda>tr h p req. LeaseGranted (''lease-'' @ h) (-1)),
     os_commit = (\<lambda>tr h p l. CommitOK), os_exec = (\<lambda>tr h p n. ex_exec tr n),
     os_now = (\<lambda>tr. sum_list (map waits tr)), os_cancelled = (\<lambda>tr. False)\<rparr>"

definition ex_coord :: coordinator where
  "ex_coord = \<lparr>co_NodeID = ''me'', co_Arch = ''amd64'', co_Hostname = ''me'', co_selfSSH = ''root@localhost:22'',
     co_selfDaemon = 4242, co_selfLoad = no_load, co_jobName = ''job'', co_requiredMemBytes = 0, co_requiredCores = 0,
     co_requiredGPUMem = 0, co_retryInterval = 0, co_placementWindow = 0, co_execBackoffBase = 0, co_noSelf = True,
     co_excludeMachine = [], co_requireGPU = False, co_preferGPU = False, co_strategy = ''smart'', co_rrCounter = 0,
     co_refused = [], co_tried = [], co_selfHealth = None\<rparr>"

definition ex_ids :: "string set" where "ex_ids = {''me'', ''a'', ''b''}"

lemma placed_run: "map_option (\<lambda>(out, c, tr). runs_of tr) (ExecuteWithRetry ex_outside ex_coord)
    = Some [(''b'', ExecRefused ''no trusted key''), (''a'', ExecFailed ''disk full''), (''a'', ExecOK)]"
  by code_simp

lemma ex_stable: "stable_ids ex_outside ex_coord ex_ids"
  by (simp add: stable_ids_def ex_ids_def ex_outside_def ex_coord_def says_its_id_def nodes_of_def ex_find_def ex_node_def)

lemma ex_clock: "clock_runs ex_outside"
  by (simp add: clock_runs_def ex_outside_def)


lemma refused_nodes_are_left_out_witness:
  "\<exists>out c' tr. ExecuteWithRetry ex_outside ex_coord = Some (out, c', tr) \<and> length (runs_of tr) = 3
    \<and> refused_once (refused_nodes ex_coord) (runs_of tr)"
proof -
  from placed_run obtain out c' tr where E: "ExecuteWithRetry ex_outside ex_coord = Some (out, c', tr)"
    and "length (runs_of tr) = 3" by auto
  with refused_nodes_are_left_out [OF E ex_stable] show ?thesis by blast
qed

lemma run_ends_witness: "\<exists>out c' tr. ExecuteWithRetry ex_outside ex_coord = Some (out, c', tr)"
  by (rule run_ends [OF ex_clock ex_stable]) (simp_all add: ex_coord_def ex_outside_def)

definition ex_round :: "round_result \<times> decision \<times> coordinator \<times> events" where
  "ex_round = place_round ex_outside (ex_coord\<lparr>co_tried := [(''b'', 1)]\<rparr>) []"

lemma untried_nodes_are_asked_first_witness:
  "\<exists>r d c' tr' n. place_round ex_outside (ex_coord\<lparr>co_tried := [(''b'', 1)]\<rparr>) [] = (Placed r, d, c', tr')
    \<and> lr_NodeID r = ''a'' \<and> lr_NodeID r = nr_NodeID (n :: node_record)"
proof -
  have F: "(case fst ex_round of Placed r \<Rightarrow> lr_NodeID r = ''a'' | _ \<Rightarrow> False)" by code_simp
  obtain x d c' tr' where X: "ex_round = (x, d, c', tr')" by (metis prod_cases4)
  have "(case x of Placed r \<Rightarrow> lr_NodeID r = ''a'' | _ \<Rightarrow> False)" by (rule F [unfolded X fst_conv])
  then obtain r where r: "x = Placed r" and a: "lr_NodeID r = ''a''" by (cases x) auto
  have E: "place_round ex_outside (ex_coord\<lparr>co_tried := [(''b'', 1)]\<rparr>) [] = (Placed r, d, c', tr')"
    using X unfolding ex_round_def r .
  have "co_strategy (ex_coord\<lparr>co_tried := [(''b'', 1)]\<rparr>) \<noteq> ''round-robin''" by (simp add: ex_coord_def)
  from untried_nodes_are_asked_first [OF E this] have "\<exists>n :: node_record. lr_NodeID r = nr_NodeID n"
    by (elim exE conjE) (intro exI, assumption)
  with a E show ?thesis by blast
qed

end
