(* ===== verification/JobLog.thy ===== *)
theory JobLog
  imports GoMap
begin

text \<open>
  The record of a job's output and the clients that watch it: \<^verbatim>\<open>src/internal/daemonapi/joblog.go\<close>, the
  attach handler of \<^verbatim>\<open>attach.go\<close> and the writer of \<^verbatim>\<open>execrun.go\<close> that feeds the log. A log's methods hold its
  mutex, so each is one step; an attacher is the handler's loop, one step per channel or socket operation,
  and the steps of several attachers and of the job interleave. The file is its list of lines: what did not
  parse back is \<open>Unreadable\<close> with its length. JSON encoding enters through the length of a
  line; every call of the file system that can fail has its answer in the event.
\<close>

subsection \<open>Frames and files\<close>

record output_message =
  om_O :: string
  om_E :: string
  om_Error :: string
  om_Done :: bool
  om_ExitCode :: int
  om_OOMKilled :: bool
  om_MemLimitBytes :: int
  om_PeakMemBytes :: int
  om_Cancelled :: bool
  om_Timing :: "(int \<times> int \<times> int) option"
  om_Receipt :: string

definition no_message :: output_message where
  "no_message = \<lparr>om_O = [], om_E = [], om_Error = [], om_Done = False, om_ExitCode = 0, om_OOMKilled = False,
     om_MemLimitBytes = 0, om_PeakMemBytes = 0, om_Cancelled = False, om_Timing = None, om_Receipt = []\<rparr>"

record storedOutput =
  so_Seq :: int
  so_Msg :: output_message

datatype line = Line storedOutput | Unreadable int

text \<open>\<open>lf_torn\<close> is the length of an unfinished last line, 0 when there is none.\<close>

record log_file =
  lf_lines :: "line list"
  lf_torn :: int

text \<open>The length of a record's JSON text, \<open>humanize.IBytes\<close>, and the cap, which is a variable of the package.\<close>

record log_cfg =
  cf_bytes :: "storedOutput \<Rightarrow> int"
  cf_IBytes :: "int \<Rightarrow> string"
  cf_jobOutputCap :: int

definition jobOutputCap :: int where "jobOutputCap = 50 * 2 ^ 20"
definition attachBuffer :: nat where "attachBuffer = 256"
definition max_line :: int where "max_line = 64 * 1024 * 1024"

fun line_bytes :: "log_cfg \<Rightarrow> line \<Rightarrow> int" where
  "line_bytes cf (Line r) = cf_bytes cf r"
| "line_bytes cf (Unreadable n) = n"

definition file_size :: "log_cfg \<Rightarrow> log_file \<Rightarrow> int" where
  "file_size cf f = sum_list (map (\<lambda>x. line_bytes cf x + 1) (lf_lines f)) + lf_torn f"

fun parsed :: "line list \<Rightarrow> storedOutput list" where
  "parsed [] = []"
| "parsed (Line r # xs) = r # parsed xs"
| "parsed (Unreadable n # xs) = parsed xs"

text \<open>The scanner stops at the first line longer than its buffer; an unfinished last line does not parse.\<close>

definition readStoredOutput :: "log_cfg \<Rightarrow> bool \<Rightarrow> log_file option \<Rightarrow> int \<Rightarrow> storedOutput list" where
  "readStoredOutput cf opened file after =
     (if \<not> opened then []
      else case file of None \<Rightarrow> []
        | Some f \<Rightarrow> filter (\<lambda>m. after < so_Seq m)
            (parsed (takeWhile (\<lambda>x. line_bytes cf x < max_line) (lf_lines f))))"

subsection \<open>The log\<close>

record chan =
  ch_buf :: "storedOutput list"
  ch_closed :: bool

record jobOutputLog =
  jl_file :: "log_file option"
  jl_f :: bool
  jl_seq :: int
  jl_size :: int
  jl_done :: bool
  jl_final :: "output_message option"
  jl_subs :: "nat list"
  jl_chans :: "chan list"
  jl_warned :: bool
  jl_shared :: bool
  jl_cancelFn :: bool

text \<open>
  \<open>jl_file\<close> is what stands at \<open>l.path\<close>, \<open>jl_f\<close> whether \<open>l.f\<close> is open, \<open>jl_shared\<close> whether \<open>jobLogs\<close>
  holds the log. Channels are named by their place in \<open>jl_chans\<close>; a write of a file reports how many
  bytes it left when it fails.
\<close>

datatype write_result = Written | WriteFailed int

record io_answers =
  io_open :: bool
  io_write :: write_result
  io_read :: bool
  io_tmp :: bool
  io_rename :: bool
  io_reopen :: bool

definition warnOnce :: "jobOutputLog \<Rightarrow> jobOutputLog" where
  "warnOnce l = l\<lparr>jl_warned := True\<rparr>"

definition cut_short_text :: string where
  "cut_short_text = ''job output ended without a result (the daemon restarted while the job ran?)''"

definition note_message :: "log_cfg \<Rightarrow> int \<Rightarrow> output_message" where
  "note_message cf dropped = no_message\<lparr>om_E := ''[pipedpeer] output trimmed: the first '' @ cf_IBytes cf dropped
     @ '' were dropped to keep this log under '' @ cf_IBytes cf (cf_jobOutputCap cf) @ [CHR 0x0A]\<rparr>"

text \<open>The loop of \<open>trim\<close> that counts back from the newest record.\<close>

fun cut_loop :: "log_cfg \<Rightarrow> storedOutput list \<Rightarrow> nat \<Rightarrow> int \<Rightarrow> nat \<times> int" where
  "cut_loop cf recs 0 kept = (0, kept)"
| "cut_loop cf recs (Suc k) kept =
     (let n = cf_bytes cf (recs ! k) + 1
      in if kept + n > go_div (cf_jobOutputCap cf) 2 then (Suc k, kept) else cut_loop cf recs k (kept + n))"

text \<open>\<open>None\<close>: the index of the first record kept is out of range and the code panics.\<close>

definition trim :: "log_cfg \<Rightarrow> io_answers \<Rightarrow> jobOutputLog \<Rightarrow> jobOutputLog option" where
  "trim cf io l =
     (let recs = readStoredOutput cf (io_read io) (jl_file l) 0;
          (k, kept) = cut_loop cf recs (length recs) 0
      in if k = 0 then Some l
         else if length recs \<le> k then None
         else
           let noted = \<lparr>so_Seq = so_Seq (recs ! k) - 1, so_Msg = note_message cf (jl_size l - kept)\<rparr>;
               f = \<lparr>lf_lines = map Line (noted # drop k recs), lf_torn = 0\<rparr>
           in if \<not> io_tmp io \<or> \<not> io_rename io then Some (warnOnce l)
              else
                let l1 = l\<lparr>jl_file := Some f\<rparr>;
                    l2 = (if io_reopen io then l1\<lparr>jl_f := True\<rparr> else warnOnce (l1\<lparr>jl_f := False\<rparr>))
                in Some (l2\<lparr>jl_size := file_size cf f\<rparr>))"

text \<open>A record written behind an unfinished line becomes part of that line.\<close>

definition put_line :: "log_cfg \<Rightarrow> storedOutput \<Rightarrow> log_file \<Rightarrow> log_file" where
  "put_line cf r f =
     (if lf_torn f = 0 then f\<lparr>lf_lines := lf_lines f @ [Line r]\<rparr>
      else \<lparr>lf_lines = lf_lines f @ [Unreadable (lf_torn f + cf_bytes cf r)], lf_torn = 0\<rparr>)"

definition the_file :: "log_file option \<Rightarrow> log_file" where
  "the_file file = (case file of None \<Rightarrow> \<lparr>lf_lines = [], lf_torn = 0\<rparr> | Some f \<Rightarrow> f)"

definition open_log :: "io_answers \<Rightarrow> jobOutputLog \<Rightarrow> jobOutputLog" where
  "open_log io l =
     (if jl_f l then l
      else if io_open io then l\<lparr>jl_f := True, jl_file := Some (the_file (jl_file l))\<rparr>
      else warnOnce l)"

definition write_line :: "log_cfg \<Rightarrow> io_answers \<Rightarrow> storedOutput \<Rightarrow> jobOutputLog \<Rightarrow> jobOutputLog option" where
  "write_line cf io r l =
     (if \<not> jl_f l then Some l
      else case io_write io of
          WriteFailed n \<Rightarrow> Some (warnOnce (l\<lparr>jl_file := Some ((the_file (jl_file l))\<lparr>lf_torn := lf_torn (the_file (jl_file l)) + n\<rparr>)\<rparr>))
        | Written \<Rightarrow>
            let l1 = l\<lparr>jl_file := Some (put_line cf r (the_file (jl_file l))), jl_size := jl_size l + cf_bytes cf r + 1\<rparr>
            in if cf_jobOutputCap cf < jl_size l1 then trim cf io l1 else Some l1)"

definition room :: "chan \<Rightarrow> bool" where
  "room c \<longleftrightarrow> length (ch_buf c) < attachBuffer"

definition offer :: "storedOutput \<Rightarrow> chan \<Rightarrow> chan" where
  "offer r c = (if room c then c\<lparr>ch_buf := ch_buf c @ [r]\<rparr> else c\<lparr>ch_closed := True\<rparr>)"

definition on_subs :: "(chan \<Rightarrow> chan) \<Rightarrow> jobOutputLog \<Rightarrow> chan list" where
  "on_subs g l = map (\<lambda>i. if i \<in> set (jl_subs l) then g (jl_chans l ! i) else jl_chans l ! i) [0..<length (jl_chans l)]"

definition fan_out :: "storedOutput \<Rightarrow> jobOutputLog \<Rightarrow> jobOutputLog" where
  "fan_out r l = l\<lparr>jl_chans := on_subs (offer r) l, jl_subs := filter (\<lambda>i. room (jl_chans l ! i)) (jl_subs l)\<rparr>"

definition write_frame :: "log_cfg \<Rightarrow> io_answers \<Rightarrow> output_message \<Rightarrow> jobOutputLog \<Rightarrow> jobOutputLog option" where
  "write_frame cf io m l =
     (let l1 = l\<lparr>jl_seq := jl_seq l + 1\<rparr>; r = \<lparr>so_Seq = jl_seq l1, so_Msg = m\<rparr>
      in map_option (fan_out r) (write_line cf io r (open_log io l1)))"

definition Append :: "log_cfg \<Rightarrow> io_answers \<Rightarrow> output_message \<Rightarrow> jobOutputLog \<Rightarrow> jobOutputLog option" where
  "Append cf io m l = (if jl_done l then Some l else write_frame cf io m l)"

definition end_log :: "output_message \<Rightarrow> jobOutputLog \<Rightarrow> jobOutputLog" where
  "end_log m l = l\<lparr>jl_done := True, jl_final := Some m, jl_f := False,
     jl_chans := on_subs (\<lambda>c. c\<lparr>ch_closed := True\<rparr>) l, jl_subs := [],
     jl_shared := jl_shared l \<and> jl_warned l\<rparr>"

definition Finish :: "log_cfg \<Rightarrow> io_answers \<Rightarrow> output_message \<Rightarrow> jobOutputLog \<Rightarrow> jobOutputLog option" where
  "Finish cf io m l =
     (if jl_done l then Some l
      else let final = m\<lparr>om_Done := True\<rparr> in map_option (end_log final) (write_frame cf io final l))"

definition follow :: "log_cfg \<Rightarrow> bool \<Rightarrow> int \<Rightarrow> jobOutputLog \<Rightarrow> storedOutput list \<times> nat option \<times> jobOutputLog" where
  "follow cf opened after l =
     (let past = readStoredOutput cf opened (jl_file l) after
      in if jl_done l then (past, None, l)
         else (past, Some (length (jl_chans l)),
               l\<lparr>jl_chans := jl_chans l @ [\<lparr>ch_buf = [], ch_closed = False\<rparr>], jl_subs := length (jl_chans l) # jl_subs l\<rparr>))"

definition unsubscribe :: "nat \<Rightarrow> jobOutputLog \<Rightarrow> jobOutputLog" where
  "unsubscribe c l =
     (if c \<in> set (jl_subs l)
      then l\<lparr>jl_chans := (jl_chans l)[c := (jl_chans l ! c)\<lparr>ch_closed := True\<rparr>], jl_subs := removeAll c (jl_subs l)\<rparr>
      else l)"

definition finalFrame :: "jobOutputLog \<Rightarrow> output_message option" where
  "finalFrame l = jl_final l"

definition SetCancel :: "jobOutputLog \<Rightarrow> jobOutputLog" where
  "SetCancel l = l\<lparr>jl_cancelFn := True\<rparr>"

text \<open>Whether there was a process to stop; what the registered function does belongs to the job.\<close>

definition cancel :: "jobOutputLog \<Rightarrow> bool" where
  "cancel l = jl_cancelFn l"

text \<open>Opening a log: the one in \<open>jobLogs\<close>, or a new one that continues the file's numbering.\<close>

definition empty_log :: "log_file option \<Rightarrow> jobOutputLog" where
  "empty_log file = \<lparr>jl_file = file, jl_f = False, jl_seq = 0, jl_size = 0, jl_done = False, jl_final = None,
     jl_subs = [], jl_chans = [], jl_warned = False, jl_shared = True, jl_cancelFn = False\<rparr>"

definition resume :: "storedOutput \<Rightarrow> jobOutputLog \<Rightarrow> jobOutputLog" where
  "resume m l =
     (let l1 = l\<lparr>jl_seq := so_Seq m\<rparr>
      in if om_Done (so_Msg m) then l1\<lparr>jl_done := True, jl_final := Some (so_Msg m)\<rparr> else l1)"

definition jobOutput :: "log_cfg \<Rightarrow> bool \<Rightarrow> jobOutputLog option \<Rightarrow> log_file option \<Rightarrow> jobOutputLog" where
  "jobOutput cf opened entry file =
     (case entry of Some l \<Rightarrow> l
      | None \<Rightarrow>
          let l = (empty_log file)\<lparr>jl_size := (case file of None \<Rightarrow> 0 | Some f \<Rightarrow> file_size cf f)\<rparr>;
              l1 = fold resume (readStoredOutput cf opened file 0) l
          in l1\<lparr>jl_shared := \<not> jl_done l1\<rparr>)"

definition jobFinalFrame :: "log_cfg \<Rightarrow> bool \<Rightarrow> jobOutputLog option \<Rightarrow> log_file option \<Rightarrow> output_message option" where
  "jobFinalFrame cf opened entry file =
     (case entry of Some l \<Rightarrow> finalFrame l
      | None \<Rightarrow>
          let recs = readStoredOutput cf opened file 0
          in if recs \<noteq> [] \<and> om_Done (so_Msg (last recs)) then Some (so_Msg (last recs)) else None)"

text \<open>The writer of an execution hands every frame to the log before the client's socket sees it.\<close>

definition record_frame :: "log_cfg \<Rightarrow> io_answers \<Rightarrow> output_message \<Rightarrow> jobOutputLog \<Rightarrow> jobOutputLog option" where
  "record_frame cf io m l = (if om_Done m then Finish cf io m l else Append cf io m l)"

subsection \<open>An attacher\<close>

datatype attach_end = SentDone | ClientGone | CutShort

text \<open>
  Where the handler's loop stands: before \<open>follow\<close>, sending what the file held, in the select on its
  channel, or after the loop.
\<close>

datatype attach_phase = AtFollow | AtPast "storedOutput list" "nat option" | AtLive nat | AtLost | AtEnd attach_end

record attacher =
  at_phase :: attach_phase
  at_last :: int
  at_ended :: bool
  at_sent :: "storedOutput list"

definition new_attacher :: attacher where
  "new_attacher = \<lparr>at_phase = AtFollow, at_last = 0, at_ended = False, at_sent = []\<rparr>"

text \<open>The frames a client got, in order.\<close>

definition wire :: "attacher \<Rightarrow> output_message list" where
  "wire a = map so_Msg (at_sent a)
     @ (if at_phase a = AtEnd CutShort then [no_message\<lparr>om_Done := True, om_ExitCode := -1, om_Error := cut_short_text\<rparr>] else [])"

definition drop_chan :: "nat option \<Rightarrow> jobOutputLog \<Rightarrow> jobOutputLog" where
  "drop_chan c l = (case c of None \<Rightarrow> l | Some i \<Rightarrow> unsubscribe i l)"

text \<open>One frame on the socket: the client is gone, or it has the frame, which may be the last one.\<close>

definition send_one ::
  "bool \<Rightarrow> storedOutput \<Rightarrow> nat option \<Rightarrow> attach_phase \<Rightarrow> jobOutputLog \<times> attacher \<Rightarrow> jobOutputLog \<times> attacher" where
  "send_one ok m c cont = (\<lambda>(l, a).
     if \<not> ok then (drop_chan c l, a\<lparr>at_phase := AtEnd ClientGone\<rparr>)
     else
       let a1 = a\<lparr>at_last := so_Seq m, at_sent := at_sent a @ [m]\<rparr>
       in if om_Done (so_Msg m) then (drop_chan c l, a1\<lparr>at_phase := AtEnd SentDone\<rparr>)
          else (l, a1\<lparr>at_phase := cont\<rparr>))"

text \<open>
  The steps: \<open>Go\<close> with the answers of the file and of the socket, the client's leaving, the ticker with
  whether the job's record says it ended.
\<close>

datatype act = Go bool bool | Leave | Tick bool

fun attach_step :: "log_cfg \<Rightarrow> act \<Rightarrow> jobOutputLog \<times> attacher \<Rightarrow> jobOutputLog \<times> attacher" where
  "attach_step cf (Go opened ok) (l, a) =
     (case at_phase a of
        AtFollow \<Rightarrow> (case follow cf opened (at_last a) l of (past, c, l1) \<Rightarrow> (l1, a\<lparr>at_phase := AtPast past c\<rparr>))
      | AtPast [] None \<Rightarrow> (l, a\<lparr>at_phase := AtLost\<rparr>)
      | AtPast [] (Some c) \<Rightarrow> (l, a\<lparr>at_phase := AtLive c\<rparr>)
      | AtPast (m # ms) c \<Rightarrow> send_one ok m c (AtPast ms c) (l, a)
      | AtLive c \<Rightarrow>
          (case ch_buf (jl_chans l ! c) of
             [] \<Rightarrow> if ch_closed (jl_chans l ! c) then (l, a\<lparr>at_phase := AtFollow\<rparr>) else (l, a)
           | m # ms \<Rightarrow>
               let l1 = l\<lparr>jl_chans := (jl_chans l)[c := (jl_chans l ! c)\<lparr>ch_buf := ms\<rparr>]\<rparr>
               in if so_Seq m \<le> at_last a then (l1, a) else send_one ok m (Some c) (AtLive c) (l1, a))
      | AtLost \<Rightarrow> (l, a\<lparr>at_phase := AtEnd (if ok then CutShort else ClientGone)\<rparr>)
      | AtEnd e \<Rightarrow> (l, a))"
| "attach_step cf Leave (l, a) =
     (case at_phase a of AtLive c \<Rightarrow> (unsubscribe c l, a\<lparr>at_phase := AtEnd ClientGone\<rparr>) | _ \<Rightarrow> (l, a))"
| "attach_step cf (Tick ended) (l, a) =
     (case at_phase a of
        AtLive c \<Rightarrow>
          if \<not> ended then (l, a)
          else if \<not> at_ended a then (l, a\<lparr>at_ended := True\<rparr>)
          else (unsubscribe c l, a\<lparr>at_phase := AtLost\<rparr>)
      | _ \<Rightarrow> (l, a))"

subsection \<open>A job and its attachers\<close>

record watched =
  wa_log :: jobOutputLog
  wa_att :: "attacher list"

datatype log_event = EFrame io_answers output_message | EFinish io_answers output_message | EAttach | EAct nat act

definition watch_step :: "log_cfg \<Rightarrow> log_event \<Rightarrow> watched \<Rightarrow> watched option" where
  "watch_step cf e w =
     (case e of
        EFrame io m \<Rightarrow> map_option (\<lambda>l. w\<lparr>wa_log := l\<rparr>) (record_frame cf io m (wa_log w))
      | EFinish io m \<Rightarrow> map_option (\<lambda>l. w\<lparr>wa_log := l\<rparr>) (Finish cf io m (wa_log w))
      | EAttach \<Rightarrow> Some (w\<lparr>wa_att := wa_att w @ [new_attacher]\<rparr>)
      | EAct i x \<Rightarrow>
          if i < length (wa_att w)
          then case attach_step cf x (wa_log w, wa_att w ! i) of (l, a) \<Rightarrow> Some \<lparr>wa_log = l, wa_att = (wa_att w)[i := a]\<rparr>
          else Some w)"

fun watch_run :: "log_cfg \<Rightarrow> log_event list \<Rightarrow> watched \<Rightarrow> watched option" where
  "watch_run cf [] w = Some w"
| "watch_run cf (e # es) w = (case watch_step cf e w of None \<Rightarrow> None | Some w' \<Rightarrow> watch_run cf es w')"

definition quiet :: watched where
  "quiet = \<lparr>wa_log = empty_log None, wa_att = []\<rparr>"

subsection \<open>What a client is to see\<close>

text \<open>The frames of a job: up to and with the first done frame.\<close>

fun recorded :: "log_event list \<Rightarrow> output_message list" where
  "recorded [] = []"
| "recorded (EFrame io m # es) = (if om_Done m then [m] else m # recorded es)"
| "recorded (EFinish io m # es) = [m\<lparr>om_Done := True\<rparr>]"
| "recorded (EAttach # es) = recorded es"
| "recorded (EAct i x # es) = recorded es"

definition is_note :: "log_cfg \<Rightarrow> output_message \<Rightarrow> bool" where
  "is_note cf m \<longleftrightarrow> (\<exists>d. m = note_message cf d)"

text \<open>
  \<open>replays cf H p rs q\<close>: the records lead from frame \<open>p\<close> of the history to frame \<open>q\<close>, each
  record being the frame after the one before it, or a note that stands for the frames up to its number.
\<close>

fun replays :: "log_cfg \<Rightarrow> output_message list \<Rightarrow> nat \<Rightarrow> storedOutput list \<Rightarrow> nat \<Rightarrow> bool" where
  "replays cf H p [] q \<longleftrightarrow> p = q"
| "replays cf H p (r # rs) q \<longleftrightarrow> p < nat (so_Seq r) \<and> nat (so_Seq r) \<le> length H
     \<and> (nat (so_Seq r) = Suc p \<and> so_Msg r = H ! p \<or> is_note cf (so_Msg r) \<and> nat (so_Seq r) < length H)
     \<and> replays cf H (nat (so_Seq r)) rs q"

definition frame :: "output_message list \<Rightarrow> nat \<Rightarrow> storedOutput" where
  "frame H i = \<lparr>so_Seq = int (Suc i), so_Msg = H ! i\<rparr>"

definition frames :: "output_message list \<Rightarrow> nat \<Rightarrow> nat \<Rightarrow> storedOutput list" where
  "frames H a b = map (frame H) [a..<b]"

lemma frame_sel [simp]: "so_Seq (frame H i) = int (Suc i)" "so_Msg (frame H i) = H ! i"
  by (simp_all add: frame_def)

lemma frames_same [simp]: "frames H a a = []" by (simp add: frames_def)

lemma frames_Cons: "a < b \<Longrightarrow> frames H a b = frame H a # frames H (Suc a) b"
  by (simp add: frames_def upt_conv_Cons)

lemma frames_eq_Cons: "frames H a b = m # ms \<Longrightarrow> a < b \<and> m = frame H a \<and> ms = frames H (Suc a) b"
  by (cases "a < b") (simp_all add: frames_Cons, simp add: frames_def)

lemma frames_eq_Nil: "a \<le> b \<Longrightarrow> frames H a b = [] \<Longrightarrow> a = b"
  by (auto simp: frames_def)

lemma frame_mono: "i < length H \<Longrightarrow> frame (H @ K) i = frame H i"
  by (simp add: frame_def nth_append)

lemma frames_mono: "b \<le> length H \<Longrightarrow> frames (H @ K) a b = frames H a b"
  by (simp add: frames_def frame_mono)

lemma frames_snoc: "a \<le> length H \<Longrightarrow> frames (H @ [m]) a (Suc (length H)) = frames H a (length H) @ [frame (H @ [m]) (length H)]"
  by (simp add: frames_def frame_mono)

lemma set_frames: "r \<in> set (frames H a b) \<Longrightarrow> b \<le> length H \<Longrightarrow> so_Msg r \<in> set H"
  by (auto simp: frames_def)

lemma length_frames [simp]: "length (frames H a b) = b - a" by (simp add: frames_def)

lemma drop_frames: "a + k \<le> b \<Longrightarrow> drop k (frames H a b) = frames H (a + k) b"
  by (simp add: frames_def drop_map)

lemma nth_frames: "a + k < b \<Longrightarrow> frames H a b ! k = frame H (a + k)"
  by (simp add: frames_def)

lemma filter_frames: "n \<le> a \<Longrightarrow> a \<le> b \<Longrightarrow> filter (\<lambda>m. int a < so_Seq m) (frames H n b) = frames H a b"
proof (induction "b - n" arbitrary: n)
  case 0
  then show ?case by (simp add: frames_def)
next
  case (Suc d)
  then have split: "frames H n b = frame H n # frames H (Suc n) b" by (intro frames_Cons) simp
  show ?case
  proof (cases "n = a")
    case True
    have "filter (\<lambda>m. int a < so_Seq m) (frames H a b) = frames H a b"
      by (intro filter_True) (auto simp: frames_def)
    then show ?thesis using True by simp
  next
    case False
    then show ?thesis using Suc by (simp add: split)
  qed
qed

lemma filter_all_frames: "filter (\<lambda>m. 0 < so_Seq m) (frames H n b) = frames H n b"
  by (intro filter_True) (auto simp: frames_def)

lemma replays_append: "replays cf H p (rs @ ss) q \<longleftrightarrow> (\<exists>m. replays cf H p rs m \<and> replays cf H m ss q)"
  by (induction rs arbitrary: p) auto

lemma replays_le: "replays cf H p rs q \<Longrightarrow> p \<le> q"
  by (induction rs arbitrary: p) (auto dest!: less_imp_le dest: order_trans)

lemma replays_bound: "replays cf H p rs q \<Longrightarrow> p \<le> length H \<Longrightarrow> q \<le> length H"
  by (induction rs arbitrary: p) auto

lemma replays_frames: "a \<le> b \<Longrightarrow> b \<le> length H \<Longrightarrow> replays cf H a (frames H a b) b"
proof (induction "b - a" arbitrary: a)
  case 0
  then show ?case by simp
next
  case (Suc d)
  then have "frames H a b = frame H a # frames H (Suc a) b" by (intro frames_Cons) simp
  moreover have "replays cf H (Suc a) (frames H (Suc a) b) b" using Suc by (intro Suc.hyps) simp_all
  ultimately show ?case using Suc by (simp add: nat_add_distrib)
qed

lemma replays_mono: "replays cf H p rs q \<Longrightarrow> replays cf (H @ K) p rs q"
  by (induction rs arbitrary: p) (auto simp: nth_append)

lemma replays_snoc:
  assumes "replays cf H p rs q" "replays cf H q [r] q'"
  shows "replays cf H p (rs @ [r]) q'"
  using assms unfolding replays_append by blast

text \<open>Only the last frame of a history ends it.\<close>

definition hist_ok :: "output_message list \<Rightarrow> bool" where
  "hist_ok H \<longleftrightarrow> list_all (\<lambda>m. \<not> om_Done m) (butlast H)"

lemma note_not_done [simp]: "\<not> om_Done (note_message cf d)"
  by (simp add: note_message_def no_message_def)

lemma replays_done:
  assumes "replays cf H p (r # rs) q" "hist_ok H" "om_Done (so_Msg r)"
  shows "nat (so_Seq r) = length H \<and> rs = [] \<and> q = length H \<and> so_Msg r = last H \<and> H \<noteq> []"
proof -
  have step: "nat (so_Seq r) = Suc p" "so_Msg r = H ! p" "Suc p \<le> length H"
    using assms by (auto simp: is_note_def)
  have "p = length H - 1"
  proof (rule ccontr)
    assume "p \<noteq> length H - 1"
    then have "p < length (butlast H)" using step(3) by simp
    then have "\<not> om_Done (butlast H ! p)" using assms(2) by (auto simp: hist_ok_def list_all_length)
    then show False using assms(3) step \<open>p < length (butlast H)\<close> by (simp add: nth_butlast)
  qed
  then have eq: "Suc p = length H" using step(3) by simp
  then have "H \<noteq> []" by auto
  moreover have "rs = []"
  proof (cases rs)
    case (Cons r' rs')
    then show ?thesis using assms(1) step(1) eq by auto
  qed simp
  moreover have "q = length H" using assms(1) \<open>rs = []\<close> step(1) eq by simp
  moreover have "H ! p = last H" using eq \<open>H \<noteq> []\<close> \<open>p = length H - 1\<close> by (simp add: last_conv_nth)
  ultimately show ?thesis using step eq by simp
qed

subsection \<open>The file\<close>

text \<open>
  No line is too long for its reader, and every record is at most half the cap, notes included. Answers of
  the file system are all good.
\<close>

definition small :: "log_cfg \<Rightarrow> output_message \<Rightarrow> bool" where
  "small cf m \<longleftrightarrow> (\<forall>i. cf_bytes cf \<lparr>so_Seq = i, so_Msg = m\<rparr> < cf_jobOutputCap cf div 2)"

definition cfg_ok :: "log_cfg \<Rightarrow> bool" where
  "cfg_ok cf \<longleftrightarrow> 0 < cf_jobOutputCap cf \<and> cf_jobOutputCap cf div 2 \<le> max_line \<and> (\<forall>d. small cf (note_message cf d))"

definition io_fine :: "io_answers \<Rightarrow> bool" where
  "io_fine io \<longleftrightarrow> io_open io \<and> io_write io = Written \<and> io_read io \<and> io_tmp io \<and> io_rename io \<and> io_reopen io"

fun event_fine :: "log_cfg \<Rightarrow> log_event \<Rightarrow> bool" where
  "event_fine cf (EFrame io m) \<longleftrightarrow> io_fine io \<and> small cf m"
| "event_fine cf (EFinish io m) \<longleftrightarrow> io_fine io \<and> small cf (m\<lparr>om_Done := True\<rparr>)"
| "event_fine cf (EAct i (Go opened ok)) \<longleftrightarrow> opened"
| "event_fine cf _ \<longleftrightarrow> True"

text \<open>The records of a file: the frames from some number on, behind a note unless that is the first.\<close>

definition records_ok :: "log_cfg \<Rightarrow> output_message list \<Rightarrow> storedOutput list \<Rightarrow> bool" where
  "records_ok cf H recs \<longleftrightarrow> recs = frames H 0 (length H)
     \<or> (\<exists>n d. 0 < n \<and> n < length H \<and> recs = \<lparr>so_Seq = int n, so_Msg = note_message cf d\<rparr> # frames H n (length H))"

definition recs_size :: "log_cfg \<Rightarrow> storedOutput list \<Rightarrow> int" where
  "recs_size cf recs = sum_list (map (\<lambda>r. cf_bytes cf r + 1) recs)"

definition file_ok :: "log_cfg \<Rightarrow> output_message list \<Rightarrow> jobOutputLog \<Rightarrow> bool" where
  "file_ok cf H l \<longleftrightarrow> (\<exists>recs. records_ok cf H recs \<and> the_file (jl_file l) = \<lparr>lf_lines = map Line recs, lf_torn = 0\<rparr>
     \<and> jl_size l = recs_size cf recs \<and> jl_size l \<le> cf_jobOutputCap cf)"

lemma recs_size_simps [simp]:
  "recs_size cf [] = 0" "recs_size cf (r # rs) = cf_bytes cf r + 1 + recs_size cf rs"
  "recs_size cf (rs @ ss) = recs_size cf rs + recs_size cf ss"
  by (simp_all add: recs_size_def)

lemma file_size_recs: "file_size cf \<lparr>lf_lines = map Line recs, lf_torn = 0\<rparr> = recs_size cf recs"
  by (simp add: file_size_def recs_size_def o_def)

lemma parsed_Line [simp]: "parsed (map Line recs) = recs"
  by (induction recs) simp_all

lemma small_record: "small cf (so_Msg r) \<Longrightarrow> cf_bytes cf r < cf_jobOutputCap cf div 2"
proof -
  assume "small cf (so_Msg r)"
  then have "cf_bytes cf \<lparr>so_Seq = so_Seq r, so_Msg = so_Msg r\<rparr> < cf_jobOutputCap cf div 2"
    unfolding small_def by (rule spec)
  then show ?thesis by (cases r) simp
qed

lemma records_small:
  assumes "records_ok cf H recs" "cfg_ok cf" "list_all (small cf) H" "r \<in> set recs"
  shows "cf_bytes cf r < cf_jobOutputCap cf div 2"
proof (rule small_record)
  have H: "m \<in> set H \<Longrightarrow> small cf m" for m using assms(3) by (simp add: list_all_iff)
  show "small cf (so_Msg r)"
    using assms(1) unfolding records_ok_def
  proof (elim disjE exE conjE)
    assume "recs = frames H 0 (length H)"
    then show ?thesis using assms(4) set_frames [of r H 0 "length H"] H by blast
  next
    fix n d assume recs: "recs = \<lparr>so_Seq = int n, so_Msg = note_message cf d\<rparr> # frames H n (length H)"
    show ?thesis
    proof (cases "r \<in> set (frames H n (length H))")
      case True
      then show ?thesis using set_frames [of r H n "length H"] H by blast
    next
      case False
      then have "so_Msg r = note_message cf d" using recs assms(4) by simp
      then show ?thesis using assms(2) by (simp add: cfg_ok_def)
    qed
  qed
qed

lemma read_records:
  assumes "the_file fl = \<lparr>lf_lines = map Line recs, lf_torn = 0\<rparr>"
    and "\<And>r. r \<in> set recs \<Longrightarrow> cf_bytes cf r < max_line"
  shows "readStoredOutput cf True fl a = filter (\<lambda>m. a < so_Seq m) recs"
proof -
  have all: "takeWhile (\<lambda>x. line_bytes cf x < max_line) (map Line recs) = map Line recs"
    using assms(2) by (intro takeWhile_eq_all_conv [THEN iffD2]) auto
  show ?thesis
  proof (cases fl)
    case None
    then have "recs = []" using assms(1) by (simp add: the_file_def)
    then show ?thesis using None by (simp add: readStoredOutput_def)
  next
    case (Some f)
    then have "lf_lines f = map Line recs" using assms(1) by (simp add: the_file_def)
    then show ?thesis
      by (simp only: readStoredOutput_def Some option.case all parsed_Line not_True_eq_False if_False)
  qed
qed

lemma records_positive: "records_ok cf H recs \<Longrightarrow> filter (\<lambda>m. 0 < so_Seq m) recs = recs"
  unfolding records_ok_def by (elim disjE exE conjE) (simp_all add: filter_all_frames)

text \<open>What an attacher reads leads from where it stands to the newest frame.\<close>

lemma past_replays:
  assumes "records_ok cf H recs" "a \<le> length H"
  shows "replays cf H a (filter (\<lambda>m. int a < so_Seq m) recs) (length H)"
  using assms(1) unfolding records_ok_def
proof (elim disjE exE conjE)
  assume "recs = frames H 0 (length H)"
  then show ?thesis using assms(2) by (simp add: filter_frames replays_frames)
next
  fix n d assume n: "0 < n" "n < length H" "recs = \<lparr>so_Seq = int n, so_Msg = note_message cf d\<rparr> # frames H n (length H)"
  show ?thesis
  proof (cases "a < n")
    case True
    have "filter (\<lambda>m. int a < so_Seq m) (frames H n (length H)) = frames H n (length H)"
      using True by (intro filter_True) (auto simp: frames_def)
    then show ?thesis using True n by (simp add: replays_frames is_note_def) blast
  next
    case False
    then show ?thesis using n assms(2) by (simp add: filter_frames replays_frames)
  qed
qed

subsection \<open>Trimming\<close>

lemma cut_loop_le: "fst (cut_loop cf recs k kept) \<le> k"
  by (induction k arbitrary: kept) (auto simp: Let_def intro: le_SucI)

lemma cut_loop_kept:
  "k \<le> length recs \<Longrightarrow> kept = recs_size cf (drop k recs) \<Longrightarrow> kept \<le> c \<Longrightarrow> go_div (cf_jobOutputCap cf) 2 \<le> c \<Longrightarrow>
    cut_loop cf recs k kept = (k', kept') \<Longrightarrow> kept' = recs_size cf (drop k' recs) \<and> kept' \<le> c"
proof (induction k arbitrary: kept)
  case (Suc k)
  have drop: "recs_size cf (drop k recs) = cf_bytes cf (recs ! k) + 1 + kept"
    using Suc.prems(1,2) by (simp add: Cons_nth_drop_Suc [symmetric])
  show ?case
  proof (cases "go_div (cf_jobOutputCap cf) 2 < kept + (cf_bytes cf (recs ! k) + 1)")
    case True
    then show ?thesis using Suc.prems by (auto simp: Let_def)
  next
    case False
    then have "cut_loop cf recs k (kept + (cf_bytes cf (recs ! k) + 1)) = (k', kept')"
      using Suc.prems(5) by (simp add: Let_def)
    moreover have "kept + (cf_bytes cf (recs ! k) + 1) \<le> c" using False Suc.prems(4) by simp
    ultimately show ?thesis using Suc.prems(1,4) drop by (intro Suc.IH) simp_all
  qed
qed simp

lemma cut_loop_less:
  assumes "recs \<noteq> []" "cf_bytes cf (last recs) < go_div (cf_jobOutputCap cf) 2"
  shows "fst (cut_loop cf recs (length recs) 0) < length recs"
proof -
  obtain k where k: "length recs = Suc k" using assms(1) by (cases recs) simp_all
  then have "recs ! k = last recs" using assms(1) by (simp add: last_conv_nth)
  then have "cut_loop cf recs (length recs) 0 = cut_loop cf recs k (cf_bytes cf (last recs) + 1)"
    using assms(2) by (simp add: k Let_def)
  then show ?thesis using cut_loop_le [of cf recs k] k by (simp add: less_Suc_eq_le)
qed

definition same_watchers :: "jobOutputLog \<Rightarrow> jobOutputLog \<Rightarrow> bool" where
  "same_watchers l l' \<longleftrightarrow> jl_seq l' = jl_seq l \<and> jl_done l' = jl_done l \<and> jl_subs l' = jl_subs l \<and> jl_chans l' = jl_chans l"

lemma div_half: "0 < c \<Longrightarrow> go_div c 2 = c div 2" by (simp add: go_div_nonneg)

lemma records_last_small:
  assumes "records_ok cf H recs" "cfg_ok cf" "list_all (small cf) H" "recs \<noteq> []"
  shows "cf_bytes cf (last recs) < go_div (cf_jobOutputCap cf) 2"
proof -
  have "cf_bytes cf (last recs) < cf_jobOutputCap cf div 2"
    using assms by (intro records_small [OF assms(1-3)]) simp
  then show ?thesis using assms(2) by (simp add: div_half cfg_ok_def)
qed

lemma records_read:
  assumes "records_ok cf H recs" "cfg_ok cf" "list_all (small cf) H"
    and "the_file fl = \<lparr>lf_lines = map Line recs, lf_torn = 0\<rparr>"
  shows "readStoredOutput cf True fl a = filter (\<lambda>m. a < so_Seq m) recs"
proof (rule read_records [OF assms(4)])
  fix r assume "r \<in> set recs"
  then have "cf_bytes cf r < cf_jobOutputCap cf div 2" by (rule records_small [OF assms(1-3)])
  then show "cf_bytes cf r < max_line" using assms(2) by (simp add: cfg_ok_def)
qed

lemma records_cut:
  assumes "records_ok cf H recs" "0 < k" "k < length recs"
  shows "records_ok cf H (\<lparr>so_Seq = so_Seq (recs ! k) - 1, so_Msg = note_message cf d\<rparr> # drop k recs)"
  using assms(1) unfolding records_ok_def
proof (elim disjE exE conjE)
  assume "recs = frames H 0 (length H)"
  moreover from this have "k < length H" using assms(3) by simp
  moreover from calculation have "recs ! k = frame H k" "drop k recs = frames H k (length H)"
    by (simp_all add: nth_frames drop_frames)
  ultimately have "\<lparr>so_Seq = so_Seq (recs ! k) - 1, so_Msg = note_message cf d\<rparr> # drop k recs
      = \<lparr>so_Seq = int k, so_Msg = note_message cf d\<rparr> # frames H k (length H)" by simp
  then show "\<lparr>so_Seq = so_Seq (recs ! k) - 1, so_Msg = note_message cf d\<rparr> # drop k recs = frames H 0 (length H) \<or>
    (\<exists>n da. 0 < n \<and> n < length H \<and> \<lparr>so_Seq = so_Seq (recs ! k) - 1, so_Msg = note_message cf d\<rparr> # drop k recs
       = \<lparr>so_Seq = int n, so_Msg = note_message cf da\<rparr> # frames H n (length H))"
    using assms(2) \<open>k < length H\<close> by (intro disjI2 exI conjI) assumption+
next
  fix n d0 assume n: "0 < n" "n < length H" "recs = \<lparr>so_Seq = int n, so_Msg = note_message cf d0\<rparr> # frames H n (length H)"
  obtain j where j: "k = Suc j" using assms(2) by (cases k) simp_all
  have "n + j < length H" using n(3) assms(3) j by simp
  then have "recs ! k = frame H (n + j)" "drop k recs = frames H (n + j) (length H)"
    using n(3) j by (simp_all add: nth_frames drop_frames)
  then have "\<lparr>so_Seq = so_Seq (recs ! k) - 1, so_Msg = note_message cf d\<rparr> # drop k recs
      = \<lparr>so_Seq = int (n + j), so_Msg = note_message cf d\<rparr> # frames H (n + j) (length H)" by simp
  moreover have "0 < n + j" using n(1) by simp
  ultimately show "\<lparr>so_Seq = so_Seq (recs ! k) - 1, so_Msg = note_message cf d\<rparr> # drop k recs = frames H 0 (length H) \<or>
    (\<exists>n da. 0 < n \<and> n < length H \<and> \<lparr>so_Seq = so_Seq (recs ! k) - 1, so_Msg = note_message cf d\<rparr> # drop k recs
       = \<lparr>so_Seq = int n, so_Msg = note_message cf da\<rparr> # frames H n (length H))"
    using \<open>n + j < length H\<close> by (intro disjI2 exI conjI) assumption+
qed

text \<open>Trimming does not panic and brings the file under the cap.\<close>

lemma trim_ok:
  assumes "records_ok cf H recs" "recs \<noteq> []" "cfg_ok cf" "list_all (small cf) H" "io_fine io"
    and fl: "the_file (jl_file l) = \<lparr>lf_lines = map Line recs, lf_torn = 0\<rparr>"
    and size: "jl_size l = recs_size cf recs" and "jl_f l"
  shows "\<exists>l'. trim cf io l = Some l' \<and> file_ok cf H l' \<and> jl_f l' \<and> same_watchers l l'"
proof -
  obtain k kept where kk: "cut_loop cf recs (length recs) 0 = (k, kept)" by fastforce
  have read: "readStoredOutput cf True (jl_file l) 0 = recs"
    using records_read [OF assms(1,3,4) fl, of 0] records_positive [OF assms(1)] by simp
  have k: "k < length recs"
    using cut_loop_less [OF assms(2) records_last_small [OF assms(1,3,4,2)]] kk by simp
  have cap: "0 < cf_jobOutputCap cf" "go_div (cf_jobOutputCap cf) 2 = cf_jobOutputCap cf div 2"
    using assms(3) by (simp_all add: cfg_ok_def div_half)
  have kept: "kept = recs_size cf (drop k recs) \<and> kept \<le> cf_jobOutputCap cf div 2"
    using cap by (intro cut_loop_kept [OF _ _ _ _ kk]) simp_all
  show ?thesis
  proof (cases "k = 0")
    case True
    then have "trim cf io l = Some l" using kk assms(5) by (simp add: trim_def read io_fine_def)
    moreover have "cf_jobOutputCap cf div 2 \<le> cf_jobOutputCap cf" using cap(1) by simp
    then have "jl_size l \<le> cf_jobOutputCap cf" using kept True size by simp
    ultimately show ?thesis using assms(1,8) fl size by (auto simp: file_ok_def same_watchers_def)
  next
    case False
    define recs' where "recs' = \<lparr>so_Seq = so_Seq (recs ! k) - 1, so_Msg = note_message cf (jl_size l - kept)\<rparr> # drop k recs"
    define l' where "l' = l\<lparr>jl_file := Some \<lparr>lf_lines = map Line recs', lf_torn = 0\<rparr>, jl_f := True, jl_size := recs_size cf recs'\<rparr>"
    have step: "trim cf io l = Some l'"
      using kk k False assms(5)
      by (simp add: trim_def read l'_def recs'_def io_fine_def Let_def file_size_recs [symmetric])
    have ok: "records_ok cf H recs'"
      unfolding recs'_def using assms(1) False k by (intro records_cut) simp_all
    have "cf_bytes cf (hd recs') < cf_jobOutputCap cf div 2"
      using records_small [OF ok assms(3,4)] by (simp add: recs'_def)
    moreover have "2 * (cf_jobOutputCap cf div 2) \<le> cf_jobOutputCap cf" by presburger
    ultimately have "recs_size cf recs' \<le> cf_jobOutputCap cf" using kept by (simp add: recs'_def)
    then show ?thesis using step ok by (auto simp: l'_def file_ok_def same_watchers_def the_file_def)
  qed
qed

subsection \<open>Writing\<close>

lemma open_log_ok:
  "io_fine io \<Longrightarrow> jl_f (open_log io l) \<and> the_file (jl_file (open_log io l)) = the_file (jl_file l)
     \<and> jl_size (open_log io l) = jl_size l \<and> same_watchers l (open_log io l)"
  by (simp add: open_log_def io_fine_def the_file_def same_watchers_def)

lemma records_snoc:
  assumes "records_ok cf H recs"
  shows "records_ok cf (H @ [m]) (recs @ [frame (H @ [m]) (length H)])"
  using assms unfolding records_ok_def
proof (elim disjE exE conjE)
  assume "recs = frames H 0 (length H)"
  then show "recs @ [frame (H @ [m]) (length H)] = frames (H @ [m]) 0 (length (H @ [m])) \<or>
    (\<exists>n d. 0 < n \<and> n < length (H @ [m]) \<and> recs @ [frame (H @ [m]) (length H)]
      = \<lparr>so_Seq = int n, so_Msg = note_message cf d\<rparr> # frames (H @ [m]) n (length (H @ [m])))"
    by (simp add: frames_snoc)
next
  fix n d assume n: "0 < n" "n < length H" "recs = \<lparr>so_Seq = int n, so_Msg = note_message cf d\<rparr> # frames H n (length H)"
  then have "recs @ [frame (H @ [m]) (length H)]
      = \<lparr>so_Seq = int n, so_Msg = note_message cf d\<rparr> # frames (H @ [m]) n (length (H @ [m]))"
    by (simp add: frames_snoc)
  moreover have "n < length (H @ [m])" using n(2) by simp
  ultimately show "recs @ [frame (H @ [m]) (length H)] = frames (H @ [m]) 0 (length (H @ [m])) \<or>
    (\<exists>n d. 0 < n \<and> n < length (H @ [m]) \<and> recs @ [frame (H @ [m]) (length H)]
      = \<lparr>so_Seq = int n, so_Msg = note_message cf d\<rparr> # frames (H @ [m]) n (length (H @ [m])))"
    using n(1) by (intro disjI2 exI conjI) assumption+
qed

lemma write_line_ok:
  assumes "file_ok cf H l" "cfg_ok cf" "list_all (small cf) (H @ [m])" "io_fine io" "jl_f l"
  shows "\<exists>l'. write_line cf io (frame (H @ [m]) (length H)) l = Some l' \<and> file_ok cf (H @ [m]) l' \<and> jl_f l' \<and> same_watchers l l'"
proof -
  obtain recs where recs: "records_ok cf H recs" "the_file (jl_file l) = \<lparr>lf_lines = map Line recs, lf_torn = 0\<rparr>"
    "jl_size l = recs_size cf recs" "jl_size l \<le> cf_jobOutputCap cf"
    using assms(1) unfolding file_ok_def by (elim exE conjE)
  let ?r = "frame (H @ [m]) (length H)"
  define l1 where "l1 = l\<lparr>jl_file := Some (put_line cf ?r (the_file (jl_file l))), jl_size := jl_size l + cf_bytes cf ?r + 1\<rparr>"
  have ok: "records_ok cf (H @ [m]) (recs @ [?r])" by (rule records_snoc [OF recs(1)])
  have fl: "the_file (jl_file l1) = \<lparr>lf_lines = map Line (recs @ [?r]), lf_torn = 0\<rparr>"
    by (simp add: l1_def the_file_def recs(2) [unfolded the_file_def] put_line_def)
  have size: "jl_size l1 = recs_size cf (recs @ [?r])" by (simp add: l1_def recs(3))
  have same: "same_watchers l l1" "jl_f l1" using assms(5) by (simp_all add: l1_def same_watchers_def)
  have eq: "write_line cf io ?r l = (if cf_jobOutputCap cf < jl_size l1 then trim cf io l1 else Some l1)"
    using assms(4,5) by (simp add: write_line_def io_fine_def l1_def Let_def)
  show ?thesis
  proof (cases "cf_jobOutputCap cf < jl_size l1")
    case True
    obtain l' where l': "trim cf io l1 = Some l'" "file_ok cf (H @ [m]) l'" "jl_f l'" "same_watchers l1 l'"
      using trim_ok [OF ok _ assms(2,3,4) fl size same(2)] by auto
    then show ?thesis using same(1) True by (simp add: eq same_watchers_def)
  next
    case False
    then have "file_ok cf (H @ [m]) l1" 
      unfolding file_ok_def by (intro exI [of _ "recs @ [?r]"] conjI ok fl size) simp
    then show ?thesis using False same by (simp add: eq)
  qed
qed

subsection \<open>The invariant\<close>

definition subs_ok :: "jobOutputLog \<Rightarrow> bool" where
  "subs_ok l \<longleftrightarrow> set (jl_subs l) \<subseteq> {..<length (jl_chans l)}
     \<and> (\<forall>i < length (jl_chans l). i \<in> set (jl_subs l) \<longleftrightarrow> \<not> ch_closed (jl_chans l ! i))"

definition log_ok :: "log_cfg \<Rightarrow> output_message list \<Rightarrow> jobOutputLog \<Rightarrow> bool" where
  "log_ok cf H l \<longleftrightarrow> hist_ok H \<and> list_all (small cf) H \<and> file_ok cf H l \<and> subs_ok l \<and> jl_seq l = int (length H)
     \<and> (jl_done l \<longleftrightarrow> H \<noteq> [] \<and> om_Done (last H)) \<and> (jl_done l \<longrightarrow> jl_subs l = [])"

text \<open>
  A channel holds a stretch of the history from \<open>e\<close> on, up to the newest frame while it is subscribed.
\<close>

definition chan_run :: "output_message list \<Rightarrow> jobOutputLog \<Rightarrow> nat \<Rightarrow> nat \<Rightarrow> bool" where
  "chan_run H l e c \<longleftrightarrow> c < length (jl_chans l) \<and> (\<exists>k. e \<le> k \<and> k \<le> length H \<and> ch_buf (jl_chans l ! c) = frames H e k
     \<and> (c \<in> set (jl_subs l) \<longrightarrow> k = length H))"

definition waits :: "output_message list \<Rightarrow> jobOutputLog \<Rightarrow> nat \<Rightarrow> bool" where
  "waits H l p \<longleftrightarrow> p \<le> length H \<and> (jl_done l \<longrightarrow> p < length H)"

fun phase_ok :: "log_cfg \<Rightarrow> output_message list \<Rightarrow> jobOutputLog \<Rightarrow> nat \<Rightarrow> attach_phase \<Rightarrow> bool" where
  "phase_ok cf H l p AtFollow \<longleftrightarrow> waits H l p"
| "phase_ok cf H l p (AtPast past c) \<longleftrightarrow> waits H l p \<and> (\<exists>e. replays cf H p past e \<and>
     (case c of None \<Rightarrow> jl_done l \<and> e = length H | Some i \<Rightarrow> chan_run H l e i))"
| "phase_ok cf H l p (AtLive i) \<longleftrightarrow> waits H l p \<and> chan_run H l p i"
| "phase_ok cf H l p AtLost \<longleftrightarrow> p \<le> length H"
| "phase_ok cf H l p (AtEnd x) \<longleftrightarrow> p \<le> length H \<and> (x = SentDone \<longrightarrow> jl_done l \<and> p = length H)"

definition att_ok :: "log_cfg \<Rightarrow> output_message list \<Rightarrow> jobOutputLog \<Rightarrow> attacher \<Rightarrow> bool" where
  "att_ok cf H l a \<longleftrightarrow> 0 \<le> at_last a \<and> replays cf H 0 (at_sent a) (nat (at_last a)) \<and> phase_ok cf H l (nat (at_last a)) (at_phase a)
     \<and> (at_phase a = AtEnd SentDone \<longrightarrow> at_sent a \<noteq> [] \<and> so_Msg (last (at_sent a)) = last H)"

fun chan_of :: "attach_phase \<Rightarrow> nat option" where
  "chan_of (AtPast past c) = c"
| "chan_of (AtLive c) = Some c"
| "chan_of AtFollow = None"
| "chan_of AtLost = None"
| "chan_of (AtEnd x) = None"

text \<open>An attacher depends on the log only through its own channel.\<close>

definition agree_on :: "nat option \<Rightarrow> jobOutputLog \<Rightarrow> jobOutputLog \<Rightarrow> bool" where
  "agree_on c l l' \<longleftrightarrow> jl_done l' = jl_done l \<and> (\<forall>i. c = Some i \<longrightarrow> i < length (jl_chans l) \<longrightarrow>
     i < length (jl_chans l') \<and> ch_buf (jl_chans l' ! i) = ch_buf (jl_chans l ! i) \<and> (i \<in> set (jl_subs l') \<longrightarrow> i \<in> set (jl_subs l)))"

lemma chan_run_agree: "agree_on (Some i) l l' \<Longrightarrow> chan_run H l e i \<Longrightarrow> chan_run H l' e i"
  by (auto simp: agree_on_def chan_run_def)

lemma agree_done: "agree_on c l l' \<Longrightarrow> jl_done l' = jl_done l" by (simp add: agree_on_def)

lemma phase_ok_agree: "agree_on (chan_of ph) l l' \<Longrightarrow> phase_ok cf H l p ph \<Longrightarrow> phase_ok cf H l' p ph"
proof (cases ph)
  case (AtPast past c)
  assume *: "agree_on (chan_of ph) l l'" "phase_ok cf H l p ph"
  then obtain e where "waits H l p" "replays cf H p past e"
    "case c of None \<Rightarrow> jl_done l \<and> e = length H | Some i \<Rightarrow> chan_run H l e i" using AtPast by auto
  then show ?thesis using AtPast * chan_run_agree agree_done [OF *(1)] by (cases c) (auto simp: waits_def)
next
  case (AtLive c)
  assume *: "agree_on (chan_of ph) l l'" "phase_ok cf H l p ph"
  then show ?thesis using AtLive chan_run_agree agree_done [OF *(1)] by (auto simp: waits_def)
qed (auto simp: waits_def agree_on_def)

lemma att_ok_agree: "agree_on (chan_of (at_phase a)) l l' \<Longrightarrow> att_ok cf H l a \<Longrightarrow> att_ok cf H l' a"
  by (simp add: att_ok_def phase_ok_agree)

subsection \<open>The job writes\<close>

lemma length_on_subs [simp]: "length (on_subs g l) = length (jl_chans l)" by (simp add: on_subs_def)

lemma nth_on_subs: "i < length (jl_chans l) \<Longrightarrow>
  on_subs g l ! i = (if i \<in> set (jl_subs l) then g (jl_chans l ! i) else jl_chans l ! i)"
  by (simp add: on_subs_def)

lemma chan_run_fan_out:
  assumes "chan_run H l e c"
  shows "chan_run (H @ [m]) (fan_out (frame (H @ [m]) (length H)) l) e c"
proof -
  obtain k where k: "e \<le> k" "k \<le> length H" "ch_buf (jl_chans l ! c) = frames H e k" "c \<in> set (jl_subs l) \<longrightarrow> k = length H"
    and c: "c < length (jl_chans l)" using assms unfolding chan_run_def by (elim conjE exE)
  let ?l = "fan_out (frame (H @ [m]) (length H)) l"
  have chans: "jl_chans ?l ! c = (if c \<in> set (jl_subs l) then offer (frame (H @ [m]) (length H)) (jl_chans l ! c) else jl_chans l ! c)"
    using c by (simp add: fan_out_def nth_on_subs)
  have len: "length (jl_chans ?l) = length (jl_chans l)" by (simp add: fan_out_def)
  have subs: "c \<in> set (jl_subs ?l) \<longleftrightarrow> c \<in> set (jl_subs l) \<and> room (jl_chans l ! c)" by (simp add: fan_out_def)
  show ?thesis
  proof (cases "c \<in> set (jl_subs ?l)")
    case True
    then have "ch_buf (jl_chans ?l ! c) = frames (H @ [m]) e (Suc (length H))"
      using subs chans k by (simp add: offer_def frames_snoc)
    then show ?thesis using c len k(1,2)
      unfolding chan_run_def by (intro conjI exI [of _ "Suc (length H)"]) simp_all
  next
    case False
    then have "ch_buf (jl_chans ?l ! c) = frames (H @ [m]) e k"
      using subs chans k by (auto simp: offer_def frames_mono)
    then show ?thesis using c len k(1,2) False
      unfolding chan_run_def by (intro conjI exI [of _ k]) simp_all
  qed
qed

lemma subs_ok_fan_out: "subs_ok l \<Longrightarrow> subs_ok (fan_out r l)"
  unfolding subs_ok_def
  by (auto simp: fan_out_def nth_on_subs offer_def)

lemma phase_ok_fan_out:
  assumes "phase_ok cf H l p ph" "\<not> jl_done l"
  shows "phase_ok cf (H @ [m]) (fan_out (frame (H @ [m]) (length H)) l) p ph"
proof -
  have nd: "\<not> jl_done (fan_out (frame (H @ [m]) (length H)) l)" using assms(2) by (simp add: fan_out_def)
  show ?thesis
  proof (cases ph)
    case (AtPast past c)
    then obtain e where e: "waits H l p" "replays cf H p past e"
      "case c of None \<Rightarrow> jl_done l \<and> e = length H | Some i \<Rightarrow> chan_run H l e i" using assms(1) by auto
    then obtain i where i: "c = Some i" "chan_run H l e i" using assms(2) by (cases c) simp_all
    then show ?thesis using AtPast e nd replays_mono [OF e(2)] chan_run_fan_out [OF i(2)]
      by (auto simp: waits_def)
  next
    case (AtLive i)
    then show ?thesis using assms(1) nd chan_run_fan_out by (auto simp: waits_def)
  qed (use assms nd in \<open>auto simp: waits_def\<close>)
qed

lemma att_ok_fan_out:
  assumes "att_ok cf H l a" "\<not> jl_done l"
  shows "att_ok cf (H @ [m]) (fan_out (frame (H @ [m]) (length H)) l) a"
proof -
  have "at_phase a \<noteq> AtEnd SentDone" using assms by (auto simp: att_ok_def)
  then show ?thesis using assms phase_ok_fan_out replays_mono by (auto simp: att_ok_def)
qed

lemma write_frame_ok:
  assumes ok: "log_ok cf H l" and nd: "\<not> jl_done l" and io: "io_fine io" and cfg: "cfg_ok cf" and m: "small cf m"
  shows "\<exists>l'. write_frame cf io m l = Some (fan_out (frame (H @ [m]) (length H)) l') \<and> file_ok cf (H @ [m]) l'
     \<and> jl_seq l' = int (length (H @ [m])) \<and> jl_done l' = jl_done l \<and> jl_subs l' = jl_subs l \<and> jl_chans l' = jl_chans l"
proof -
  let ?l1 = "l\<lparr>jl_seq := jl_seq l + 1\<rparr>"
  let ?r = "frame (H @ [m]) (length H)"
  have seq: "jl_seq l = int (length H)" using ok by (simp add: log_ok_def)
  have opened: "jl_f (open_log io ?l1)" "same_watchers ?l1 (open_log io ?l1)"
    "the_file (jl_file (open_log io ?l1)) = the_file (jl_file l)" "jl_size (open_log io ?l1) = jl_size l"
    using open_log_ok [OF io, of ?l1] by simp_all
  have fine: "file_ok cf H (open_log io ?l1)" using ok opened(3,4) by (simp add: log_ok_def file_ok_def)
  have "list_all (small cf) (H @ [m])" using ok m by (simp add: log_ok_def)
  then obtain l' where l': "write_line cf io ?r (open_log io ?l1) = Some l'" "file_ok cf (H @ [m]) l'"
    "same_watchers (open_log io ?l1) l'"
    using write_line_ok [OF fine cfg _ io opened(1), of m] by blast
  have "write_frame cf io m l = Some (fan_out ?r l')"
    using l'(1) seq by (simp add: write_frame_def Let_def frame_def add.commute)
  then show ?thesis using l'(2,3) opened(2) seq by (auto simp: same_watchers_def)
qed

lemma file_ok_cong: "jl_file l' = jl_file l \<Longrightarrow> jl_size l' = jl_size l \<Longrightarrow> file_ok cf H l' = file_ok cf H l"
  by (simp add: file_ok_def)

lemma fan_out_sel [simp]:
  "jl_file (fan_out r l) = jl_file l" "jl_size (fan_out r l) = jl_size l" "jl_seq (fan_out r l) = jl_seq l"
  "jl_done (fan_out r l) = jl_done l"
  by (simp_all add: fan_out_def)

lemma log_ok_write:
  assumes ok: "log_ok cf H l" and nd: "\<not> jl_done l" and m: "small cf m" "\<not> om_Done m"
    and l': "file_ok cf (H @ [m]) l'" "jl_seq l' = int (length (H @ [m]))" "jl_done l' = jl_done l"
      "jl_subs l' = jl_subs l" "jl_chans l' = jl_chans l"
  shows "log_ok cf (H @ [m]) (fan_out (frame (H @ [m]) (length H)) l')"
proof -
  have H: "list_all (\<lambda>x. \<not> om_Done x) H"
  proof (cases H rule: rev_cases)
    case (snoc K x)
    then show ?thesis using ok nd by (simp add: log_ok_def hist_ok_def)
  qed simp
  have "subs_ok l'" using ok l'(4,5) by (simp add: log_ok_def subs_ok_def)
  then have "subs_ok (fan_out (frame (H @ [m]) (length H)) l')" by (rule subs_ok_fan_out)
  moreover have "file_ok cf (H @ [m]) (fan_out (frame (H @ [m]) (length H)) l')"
    using l'(1) by (simp add: file_ok_def)
  ultimately show ?thesis using ok nd m H l' by (simp add: log_ok_def hist_ok_def)
qed

text \<open>The end of a job closes every channel and leaves what is in them.\<close>

lemma end_log_sel [simp]:
  "jl_file (end_log m l) = jl_file l" "jl_size (end_log m l) = jl_size l" "jl_seq (end_log m l) = jl_seq l"
  "jl_done (end_log m l)" "jl_subs (end_log m l) = []" "length (jl_chans (end_log m l)) = length (jl_chans l)"
  by (simp_all add: end_log_def)

lemma end_log_buf: "c < length (jl_chans l) \<Longrightarrow> ch_buf (jl_chans (end_log m l) ! c) = ch_buf (jl_chans l ! c)"
  by (simp add: end_log_def nth_on_subs)

lemma end_log_closed: "subs_ok l \<Longrightarrow> c < length (jl_chans l) \<Longrightarrow> ch_closed (jl_chans (end_log m l) ! c)"
  by (auto simp: end_log_def nth_on_subs subs_ok_def)

lemma chan_run_end: "chan_run H l e c \<Longrightarrow> chan_run H (end_log m l) e c"
  unfolding chan_run_def by (auto simp: end_log_buf)

lemma phase_ok_end:
  assumes "phase_ok cf (H @ [m]) l p ph" "\<not> jl_done l" "p \<le> length H"
  shows "phase_ok cf (H @ [m]) (end_log m l) p ph"
proof (cases ph)
  case (AtPast past c)
  then show ?thesis using assms by (cases c) (auto simp: waits_def chan_run_end)
next
  case (AtLive c)
  then show ?thesis using assms by (auto simp: waits_def chan_run_end)
qed (use assms in \<open>auto simp: waits_def\<close>)

lemma phase_ok_le: "phase_ok cf H l p ph \<Longrightarrow> p \<le> length H"
  by (cases ph) (auto simp: waits_def)

lemma att_ok_finish:
  assumes "att_ok cf H l a" "\<not> jl_done l"
    and l': "jl_done l' = jl_done l" "jl_subs l' = jl_subs l" "jl_chans l' = jl_chans l"
  shows "att_ok cf (H @ [m]) (fan_out (frame (H @ [m]) (length H)) l') a"
    and "att_ok cf (H @ [m]) (end_log m (fan_out (frame (H @ [m]) (length H)) l')) a"
proof -
  have "att_ok cf H l' a" using l' by (intro att_ok_agree [OF _ assms(1)]) (simp add: agree_on_def)
  moreover from this show 1: "att_ok cf (H @ [m]) (fan_out (frame (H @ [m]) (length H)) l') a"
    using assms(2) l'(1) by (intro att_ok_fan_out) simp_all
  ultimately have "nat (at_last a) \<le> length H" using phase_ok_le by (auto simp: att_ok_def)
  moreover have "at_phase a \<noteq> AtEnd SentDone" using assms by (auto simp: att_ok_def)
  ultimately show "att_ok cf (H @ [m]) (end_log m (fan_out (frame (H @ [m]) (length H)) l')) a"
    using 1 assms(2) l'(1) by (auto simp: att_ok_def intro: phase_ok_end)
qed

lemma Append_ok:
  assumes "log_ok cf H l" "list_all (att_ok cf H l) as" "io_fine io" "cfg_ok cf" "small cf m" "\<not> om_Done m" "\<not> jl_done l"
  shows "\<exists>l'. Append cf io m l = Some l' \<and> log_ok cf (H @ [m]) l' \<and> list_all (att_ok cf (H @ [m]) l') as"
proof -
  obtain l1 where l1: "write_frame cf io m l = Some (fan_out (frame (H @ [m]) (length H)) l1)" "file_ok cf (H @ [m]) l1"
    "jl_seq l1 = int (length (H @ [m]))" "jl_done l1 = jl_done l" "jl_subs l1 = jl_subs l" "jl_chans l1 = jl_chans l"
    using write_frame_ok [OF assms(1,7,3,4,5)] by blast
  have "log_ok cf (H @ [m]) (fan_out (frame (H @ [m]) (length H)) l1)" by (rule log_ok_write [OF assms(1,7,5,6) l1(2-6)])
  moreover have "list_all (att_ok cf (H @ [m]) (fan_out (frame (H @ [m]) (length H)) l1)) as"
    using assms(2,7) att_ok_finish(1) [OF _ _ l1(4-6)] by (simp add: list_all_iff)
  ultimately show ?thesis using l1(1) assms(7) by (simp add: Append_def)
qed

lemma Finish_ok:
  assumes "log_ok cf H l" "list_all (att_ok cf H l) as" "io_fine io" "cfg_ok cf" "small cf (m\<lparr>om_Done := True\<rparr>)" "\<not> jl_done l"
  shows "\<exists>l'. Finish cf io m l = Some l' \<and> log_ok cf (H @ [m\<lparr>om_Done := True\<rparr>]) l' \<and> list_all (att_ok cf (H @ [m\<lparr>om_Done := True\<rparr>]) l') as"
proof -
  let ?m = "m\<lparr>om_Done := True\<rparr>"
  obtain l1 where l1: "write_frame cf io ?m l = Some (fan_out (frame (H @ [?m]) (length H)) l1)" "file_ok cf (H @ [?m]) l1"
    "jl_seq l1 = int (length (H @ [?m]))" "jl_done l1 = jl_done l" "jl_subs l1 = jl_subs l" "jl_chans l1 = jl_chans l"
    using write_frame_ok [OF assms(1,6,3,4,5)] by blast
  let ?l = "end_log ?m (fan_out (frame (H @ [?m]) (length H)) l1)"
  have "list_all (\<lambda>x. \<not> om_Done x) H"
  proof (cases H rule: rev_cases)
    case (snoc K x)
    then show ?thesis using assms(1,6) by (simp add: log_ok_def hist_ok_def)
  qed simp
  moreover have "subs_ok ?l"
  proof -
    have "subs_ok l1" using assms(1) l1(5,6) by (simp add: log_ok_def subs_ok_def)
    then have "subs_ok (fan_out (frame (H @ [?m]) (length H)) l1)" by (rule subs_ok_fan_out)
    then show ?thesis using end_log_closed by (auto simp: subs_ok_def)
  qed
  moreover have "file_ok cf (H @ [?m]) ?l" using l1(2) by (simp add: file_ok_def)
  ultimately have "log_ok cf (H @ [?m]) ?l" using assms(1,5) l1(3) by (simp add: log_ok_def hist_ok_def)
  moreover have "list_all (att_ok cf (H @ [?m]) ?l) as"
    using assms(2,6) att_ok_finish(2) [OF _ _ l1(4-6)] by (simp add: list_all_iff)
  moreover have "Finish cf io m l = Some ?l" using l1(1) assms(6) by (simp add: Finish_def Let_def)
  ultimately show ?thesis by blast
qed

subsection \<open>An attacher moves\<close>

lemma buf_of_closed [simp]: "ch_buf (xs[c := (xs ! c)\<lparr>ch_closed := b\<rparr>] ! i) = ch_buf (xs ! i)"
  by (cases "c < length xs") (auto simp: nth_list_update list_update_beyond)

lemma closed_of_buf [simp]: "ch_closed (xs[c := (xs ! c)\<lparr>ch_buf := ms\<rparr>] ! i) = ch_closed (xs ! i)"
  by (cases "c < length xs") (auto simp: nth_list_update list_update_beyond)

lemma unsubscribe_agree: "agree_on c' l (unsubscribe c l)"
  by (auto simp: agree_on_def unsubscribe_def)

lemma unsubscribe_sel [simp]:
  "jl_file (unsubscribe c l) = jl_file l" "jl_size (unsubscribe c l) = jl_size l" "jl_seq (unsubscribe c l) = jl_seq l"
  "jl_done (unsubscribe c l) = jl_done l"
  by (simp_all add: unsubscribe_def)

lemma log_ok_unsubscribe: "log_ok cf H l \<Longrightarrow> log_ok cf H (unsubscribe c l)"
proof -
  assume ok: "log_ok cf H l"
  then have "subs_ok (unsubscribe c l)"
    unfolding subs_ok_def log_ok_def unsubscribe_def by (auto simp: nth_list_update subset_eq)
  moreover have "jl_done l \<longrightarrow> jl_subs (unsubscribe c l) = []" using ok by (simp add: log_ok_def unsubscribe_def)
  ultimately show ?thesis using ok by (simp add: log_ok_def file_ok_def)
qed

lemma agree_refl [simp]: "agree_on c l l" by (simp add: agree_on_def)

lemma drop_chan_ok: "log_ok cf H l \<Longrightarrow> log_ok cf H (drop_chan c l) \<and> jl_done (drop_chan c l) = jl_done l \<and> agree_on c' l (drop_chan c l)"
  by (cases c) (simp_all add: drop_chan_def log_ok_unsubscribe unsubscribe_agree)

lemma replays_Cons_waits:
  assumes "replays cf H p (m # ms) q" "log_ok cf H l" "\<not> om_Done (so_Msg m)"
  shows "waits H l (nat (so_Seq m))"
proof -
  have "nat (so_Seq m) < length H" if "jl_done l"
  proof (rule ccontr)
    assume "\<not> nat (so_Seq m) < length H"
    then have "Suc p = length H" "so_Msg m = H ! p" using assms(1) by auto
    then have "so_Msg m = last H" by (cases H rule: rev_cases) (simp_all add: nth_append)
    then show False using that assms(2,3) by (simp add: log_ok_def)
  qed
  then show ?thesis using assms(1) by (simp add: waits_def)
qed

lemma send_one_ok:
  assumes ok: "log_ok cf H l" and sent: "replays cf H 0 (at_sent a) (nat (at_last a))" "0 \<le> at_last a" "nat (at_last a) \<le> length H"
    and m: "replays cf H (nat (at_last a)) (m # ms) q"
    and cont: "waits H l (nat (so_Seq m)) \<Longrightarrow> phase_ok cf H l (nat (so_Seq m)) ph" "ph \<noteq> AtEnd SentDone"
    and step: "send_one good m c ph (l, a) = (l', a')"
  shows "log_ok cf H l' \<and> att_ok cf H l' a' \<and> (\<forall>c'. agree_on c' l l') \<and> chan_of (at_phase a') \<in> {None, chan_of ph}"
proof -
  have one: "replays cf H (nat (at_last a)) [m] (nat (so_Seq m))" using m by simp
  then have more: "replays cf H 0 (at_sent a @ [m]) (nat (so_Seq m))" using sent(1) by (rule replays_snoc [rotated])
  have pos: "0 \<le> so_Seq m" using m by auto
  consider (gone) "\<not> good" | (last_one) "good" "om_Done (so_Msg m)" | (more) "good" "\<not> om_Done (so_Msg m)" by blast
  then show ?thesis
  proof cases
    case gone
    then have eq: "l' = drop_chan c l" "a' = a\<lparr>at_phase := AtEnd ClientGone\<rparr>" using step by (simp_all add: send_one_def)
    then show ?thesis using sent drop_chan_ok [OF ok] by (simp add: att_ok_def)
  next
    case last_one
    then have eq: "l' = drop_chan c l" "a' = a\<lparr>at_last := so_Seq m, at_sent := at_sent a @ [m], at_phase := AtEnd SentDone\<rparr>"
      using step by (simp_all add: send_one_def)
    have fin: "nat (so_Seq m) = length H" "so_Msg m = last H" "H \<noteq> []"
      using replays_done [OF m _ last_one(2)] ok by (simp_all add: log_ok_def)
    then have "jl_done l" using ok last_one(2) by (simp add: log_ok_def)
    then show ?thesis using eq fin more pos drop_chan_ok [OF ok] by (simp add: att_ok_def)
  next
    case more
    then have eq: "l' = l" "a' = a\<lparr>at_last := so_Seq m, at_sent := at_sent a @ [m], at_phase := ph\<rparr>"
      using step by (simp_all add: send_one_def)
    have "phase_ok cf H l (nat (so_Seq m)) ph" using replays_Cons_waits [OF m ok more(2)] by (rule cont(1))
    then show ?thesis using eq ok pos cont(2) \<open>replays cf H 0 (at_sent a @ [m]) (nat (so_Seq m))\<close> by (simp add: att_ok_def)
  qed
qed

text \<open>What a step of one attacher leaves of the others.\<close>

definition moved :: "log_cfg \<Rightarrow> output_message list \<Rightarrow> jobOutputLog \<Rightarrow> attacher \<Rightarrow> jobOutputLog \<times> attacher \<Rightarrow> bool" where
  "moved cf H l a s \<longleftrightarrow> log_ok cf H (fst s) \<and> att_ok cf H (fst s) (snd s)
     \<and> (\<forall>c. c \<noteq> chan_of (at_phase a) \<longrightarrow> agree_on c l (fst s))
     \<and> chan_of (at_phase (snd s)) \<in> {None, chan_of (at_phase a), Some (length (jl_chans l))}"

lemma follow_ok:
  assumes "log_ok cf H l" "cfg_ok cf" "waits H l p" "follow cf True (int p) l = (past, c, l1)"
  shows "log_ok cf H l1 \<and> phase_ok cf H l1 p (AtPast past c) \<and> (\<forall>c'. agree_on c' l l1) \<and> c \<in> {None, Some (length (jl_chans l))}"
proof -
  obtain recs where recs: "records_ok cf H recs" "the_file (jl_file l) = \<lparr>lf_lines = map Line recs, lf_torn = 0\<rparr>"
    using assms(1) unfolding log_ok_def file_ok_def by (elim exE conjE)
  have "readStoredOutput cf True (jl_file l) (int p) = filter (\<lambda>m. int p < so_Seq m) recs"
    using assms(1) by (intro records_read [OF recs(1) assms(2) _ recs(2)]) (simp add: log_ok_def)
  then have past: "past = filter (\<lambda>m. int p < so_Seq m) recs" using assms(4) by (simp add: follow_def Let_def split: if_splits)
  have lead: "replays cf H p past (length H)"
    unfolding past using recs(1) assms(3) by (intro past_replays) (simp_all add: waits_def)
  show ?thesis
  proof (cases "jl_done l")
    case True
    then have "c = None" "l1 = l" using assms(4) by (simp_all add: follow_def Let_def)
    then show ?thesis using assms(1,3) lead True by auto
  next
    case False
    then have c: "c = Some (length (jl_chans l))"
      and l1: "l1 = l\<lparr>jl_chans := jl_chans l @ [\<lparr>ch_buf = [], ch_closed = False\<rparr>], jl_subs := length (jl_chans l) # jl_subs l\<rparr>"
      using assms(4) by (simp_all add: follow_def Let_def)
    have "subs_ok l1" using assms(1) by (auto simp: l1 log_ok_def subs_ok_def nth_append less_Suc_eq)
    then have "log_ok cf H l1" using assms(1) False by (simp add: l1 log_ok_def file_ok_def)
    moreover have "chan_run H l1 (length H) (length (jl_chans l))" by (simp add: l1 chan_run_def)
    then have "phase_ok cf H l1 p (AtPast past c)"
      using lead c assms(3) by (auto simp: waits_def l1)
    moreover have "agree_on c' l l1" for c' by (auto simp: agree_on_def l1 nth_append)
    ultimately show ?thesis using c by simp
  qed
qed

lemma pop_ok:
  assumes "log_ok cf H l" "chan_run H l p c" "ch_buf (jl_chans l ! c) = m # ms"
  defines "l1 \<equiv> l\<lparr>jl_chans := (jl_chans l)[c := (jl_chans l ! c)\<lparr>ch_buf := ms\<rparr>]\<rparr>"
  shows "log_ok cf H l1 \<and> m = frame H p \<and> p < length H \<and> chan_run H l1 (Suc p) c \<and> (\<forall>c'. c' \<noteq> Some c \<longrightarrow> agree_on c' l l1)"
proof -
  obtain k where k: "p \<le> k" "k \<le> length H" "m # ms = frames H p k" "c \<in> set (jl_subs l) \<longrightarrow> k = length H" "c < length (jl_chans l)"
    using assms(2,3) unfolding chan_run_def by auto
  have m: "p < k" "m = frame H p" "ms = frames H (Suc p) k" using frames_eq_Cons [OF k(3) [symmetric]] by simp_all
  have "subs_ok l1" using assms(1) by (simp add: l1_def log_ok_def subs_ok_def)
  then have "log_ok cf H l1" using assms(1) by (simp add: l1_def log_ok_def file_ok_def)
  moreover have "chan_run H l1 (Suc p) c"
    unfolding chan_run_def using k m by (intro conjI exI [of _ k]) (simp_all add: l1_def)
  moreover have "\<forall>c'. c' \<noteq> Some c \<longrightarrow> agree_on c' l l1" by (auto simp: agree_on_def l1_def)
  ultimately show ?thesis using m k(2) by simp
qed

lemma attach_go_ok:
  assumes "log_ok cf H l" "att_ok cf H l a" "cfg_ok cf"
  shows "moved cf H l a (attach_step cf (Go True good) (l, a))"
proof -
  let ?p = "nat (at_last a)"
  have a: "replays cf H 0 (at_sent a) ?p" "0 \<le> at_last a" "phase_ok cf H l ?p (at_phase a)"
    using assms(2) by (simp_all add: att_ok_def)
  have le: "?p \<le> length H" using phase_ok_le [OF a(3)] .
  show ?thesis
  proof (cases "at_phase a")
    case AtFollow
    obtain past c l1 where f: "follow cf True (at_last a) l = (past, c, l1)" by (cases "follow cf True (at_last a) l") auto
    then have "follow cf True (int ?p) l = (past, c, l1)" using a(2) by simp
    then have "log_ok cf H l1 \<and> phase_ok cf H l1 ?p (AtPast past c) \<and> (\<forall>c'. agree_on c' l l1) \<and> c \<in> {None, Some (length (jl_chans l))}"
      using a(3) AtFollow by (intro follow_ok [OF assms(1,3)]) simp_all
    then show ?thesis using a AtFollow f by (auto simp: moved_def att_ok_def)
  next
    case (AtPast past c)
    then obtain e where e: "waits H l ?p" "replays cf H ?p past e"
      "case c of None \<Rightarrow> jl_done l \<and> e = length H | Some i \<Rightarrow> chan_run H l e i" using a(3) by auto
    show ?thesis
    proof (cases past)
      case Nil
      then show ?thesis using AtPast a assms(1) e le by (cases c) (auto simp: moved_def att_ok_def)
    next
      case (Cons m ms)
      obtain l' a' where step: "send_one good m c (AtPast ms c) (l, a) = (l', a')" by fastforce
      have "phase_ok cf H l (nat (so_Seq m)) (AtPast ms c)" if "waits H l (nat (so_Seq m))"
        using that e Cons by auto
      then have "log_ok cf H l' \<and> att_ok cf H l' a' \<and> (\<forall>c'. agree_on c' l l') \<and> chan_of (at_phase a') \<in> {None, chan_of (AtPast ms c)}"
        using e Cons by (intro send_one_ok [OF assms(1) a(1,2) le _ _ _ step, of ms e]) simp_all
      then show ?thesis using AtPast Cons step by (auto simp: moved_def)
    qed
  next
    case (AtLive c)
    then have live: "waits H l ?p" "chan_run H l ?p c" using a(3) by simp_all
    show ?thesis
    proof (cases "ch_buf (jl_chans l ! c)")
      case Nil
      then show ?thesis using AtLive a assms live by (auto simp: moved_def att_ok_def)
    next
      case (Cons m ms)
      define l1 where "l1 = l\<lparr>jl_chans := (jl_chans l)[c := (jl_chans l ! c)\<lparr>ch_buf := ms\<rparr>]\<rparr>"
      have pop: "log_ok cf H l1" "m = frame H ?p" "?p < length H" "chan_run H l1 (Suc ?p) c" "\<forall>c'. c' \<noteq> Some c \<longrightarrow> agree_on c' l l1"
        using pop_ok [OF assms(1) live(2) Cons] unfolding l1_def by simp_all
      obtain l' a' where step: "send_one good m (Some c) (AtLive c) (l1, a) = (l', a')" by fastforce
      have seq: "so_Seq m = at_last a + 1" using pop(2) a(2) by simp
      have "replays cf H ?p [frame H ?p] (Suc ?p)" using replays_frames [of ?p "Suc ?p" H cf] pop(3) by (simp add: frames_Cons)
      then have lead: "replays cf H ?p [m] (Suc ?p)" by (simp only: pop(2))
      have "phase_ok cf H l1 (nat (so_Seq m)) (AtLive c)" if "waits H l1 (nat (so_Seq m))"
        using that pop(4) seq a(2) by (simp add: nat_add_distrib)
      then have *: "log_ok cf H l' \<and> att_ok cf H l' a' \<and> (\<forall>c'. agree_on c' l1 l') \<and> chan_of (at_phase a') \<in> {None, chan_of (AtLive c)}"
        by (intro send_one_ok [OF pop(1) a(1,2) le lead _ _ step]) simp_all
      have "agree_on c' l l'" if "c' \<noteq> Some c" for c'
      proof -
        have "agree_on c' l l1" "agree_on c' l1 l'" using pop(5) that * by simp_all
        then show ?thesis by (auto simp: agree_on_def)
      qed
      moreover have "attach_step cf (Go True good) (l, a) = (l', a')"
        using AtLive Cons seq step by (simp add: l1_def Let_def)
      ultimately show ?thesis using * AtLive by (auto simp: moved_def)
    qed
  qed (use assms a le in \<open>auto simp: moved_def att_ok_def\<close>)
qed

lemma attach_step_ok:
  assumes "log_ok cf H l" "att_ok cf H l a" "cfg_ok cf" "event_fine cf (EAct i x)"
  shows "moved cf H l a (attach_step cf x (l, a))"
proof -
  have le: "nat (at_last a) \<le> length H" using assms(2) phase_ok_le by (auto simp: att_ok_def)
  show ?thesis
  proof (cases x)
    case (Go opened good)
    then show ?thesis using attach_go_ok [OF assms(1-3)] assms(4) by simp
  next
    case Leave
    then show ?thesis using assms(1,2) le
      by (cases "at_phase a") (auto simp: moved_def att_ok_def log_ok_unsubscribe unsubscribe_agree)
  next
    case (Tick ended)
    have "moved cf H l a (l, a)" using assms(1,2) by (simp add: moved_def)
    then show ?thesis using Tick assms(1,2) le
      by (cases "at_phase a") (auto simp: moved_def att_ok_def log_ok_unsubscribe unsubscribe_agree)
  qed
qed

subsection \<open>The job and its attachers\<close>

definition apart :: "attacher list \<Rightarrow> bool" where
  "apart as \<longleftrightarrow> (\<forall>i < length as. \<forall>j < length as. \<forall>c. i \<noteq> j \<longrightarrow> chan_of (at_phase (as ! i)) = Some c \<longrightarrow> chan_of (at_phase (as ! j)) \<noteq> Some c)"

lemma apartD: "apart as \<Longrightarrow> i < length as \<Longrightarrow> j < length as \<Longrightarrow> i \<noteq> j \<Longrightarrow> chan_of (at_phase (as ! i)) = Some c
    \<Longrightarrow> chan_of (at_phase (as ! j)) \<noteq> Some c"
  unfolding apart_def by blast

lemma apart_snoc:
  assumes "apart as" "chan_of (at_phase a) = None"
  shows "apart (as @ [a])"
  unfolding apart_def
proof (intro allI impI)
  fix i j c
  assume *: "i < length (as @ [a])" "j < length (as @ [a])" "i \<noteq> j" "chan_of (at_phase ((as @ [a]) ! i)) = Some c"
  then have i: "i < length as" using assms(2) by (cases "i < length as") (simp_all add: nth_append)
  show "chan_of (at_phase ((as @ [a]) ! j)) \<noteq> Some c"
  proof (cases "j < length as")
    case True
    then have "(as @ [a]) ! i = as ! i" "(as @ [a]) ! j = as ! j" using i by (simp_all add: nth_append)
    then show ?thesis using apartD [OF assms(1) i True *(3), of c] *(4) by simp
  next
    case False
    then show ?thesis using assms(2) *(2) by (simp add: nth_append)
  qed
qed

lemma att_ok_chan: "att_ok cf H l a \<Longrightarrow> chan_of (at_phase a) = Some c \<Longrightarrow> c < length (jl_chans l)"
  by (cases "at_phase a") (auto simp: att_ok_def chan_run_def)

text \<open>What the history gains by an event: nothing once the done frame is in it.\<close>

fun frame_of :: "log_event \<Rightarrow> output_message list" where
  "frame_of (EFrame io m) = [m]"
| "frame_of (EFinish io m) = [m\<lparr>om_Done := True\<rparr>]"
| "frame_of EAttach = []"
| "frame_of (EAct i x) = []"

definition history_after :: "output_message list \<Rightarrow> log_event \<Rightarrow> output_message list" where
  "history_after H e = (if H \<noteq> [] \<and> om_Done (last H) then H else H @ frame_of e)"

lemma history_closed: "H \<noteq> [] \<Longrightarrow> om_Done (last H) \<Longrightarrow> fold (\<lambda>e h. history_after h e) es H = H"
  by (induction es) (simp_all add: history_after_def)

lemma history_recorded:
  "\<not> (H \<noteq> [] \<and> om_Done (last H)) \<Longrightarrow> fold (\<lambda>e h. history_after h e) es H = H @ recorded es"
proof (induction es arbitrary: H rule: recorded.induct)
  case (2 io m es)
  then have step: "history_after H (EFrame io m) = H @ [m]" by (auto simp: history_after_def)
  show ?case
  proof (cases "om_Done m")
    case True
    then show ?thesis using history_closed [of "H @ [m]" es] by (simp add: step)
  next
    case False
    then show ?thesis using 2 by (simp add: step)
  qed
next
  case (3 io m es)
  then have step: "history_after H (EFinish io m) = H @ [m\<lparr>om_Done := True\<rparr>]" by (auto simp: history_after_def)
  show ?case using history_closed [of "H @ [m\<lparr>om_Done := True\<rparr>]" es] by (simp add: step)
qed (auto simp: history_after_def)

definition watch_ok :: "log_cfg \<Rightarrow> output_message list \<Rightarrow> watched \<Rightarrow> bool" where
  "watch_ok cf H w \<longleftrightarrow> log_ok cf H (wa_log w) \<and> list_all (att_ok cf H (wa_log w)) (wa_att w) \<and> apart (wa_att w)"

lemma moved_done: "moved cf H l a s \<Longrightarrow> jl_done (fst s) = jl_done l"
proof -
  assume *: "moved cf H l a s"
  obtain c where "c \<noteq> chan_of (at_phase a)" by (cases "chan_of (at_phase a)") auto
  then have "agree_on c l (fst s)" using * unfolding moved_def by (elim conjE) (rule mp, rule spec)
  then show ?thesis by (rule agree_done)
qed

lemma act_ok:
  assumes w: "watch_ok cf H w" and i: "i < length (wa_att w)" and s: "moved cf H (wa_log w) (wa_att w ! i) (l, a)"
  shows "watch_ok cf H \<lparr>wa_log = l, wa_att = (wa_att w)[i := a]\<rparr>"
proof -
  have own: "log_ok cf H l" "att_ok cf H l a" using s by (simp_all add: moved_def)
  have each: "att_ok cf H (wa_log w) (wa_att w ! j)" if "j < length (wa_att w)" for j
    using w that by (simp add: watch_ok_def list_all_length)
  have away: "agree_on (chan_of (at_phase (wa_att w ! j))) (wa_log w) l" if "j < length (wa_att w)" "j \<noteq> i" for j
  proof (cases "chan_of (at_phase (wa_att w ! j))")
    case None
    then show ?thesis using moved_done [OF s] by (simp add: agree_on_def)
  next
    case (Some c)
    then have "chan_of (at_phase (wa_att w ! i)) \<noteq> Some c"
      using w that i by (auto simp: watch_ok_def apart_def)
    then show ?thesis using s Some by (simp add: moved_def)
  qed
  have others: "att_ok cf H l (wa_att w ! j)" if "j < length (wa_att w)" "j \<noteq> i" for j
    using away [OF that] each [OF that(1)] by (rule att_ok_agree)
  have "list_all (att_ok cf H l) ((wa_att w)[i := a])"
    using own(2) others i by (simp add: list_all_length nth_list_update)
  moreover have "apart ((wa_att w)[i := a])"
    unfolding apart_def
  proof (intro allI impI)
    fix j k c
    assume *: "j < length ((wa_att w)[i := a])" "k < length ((wa_att w)[i := a])" "j \<noteq> k"
      "chan_of (at_phase ((wa_att w)[i := a] ! j)) = Some c"
    have fresh: "chan_of (at_phase a) \<in> {None, chan_of (at_phase (wa_att w ! i)), Some (length (jl_chans (wa_log w)))}"
      using s by (simp add: moved_def)
    have low: "chan_of (at_phase (wa_att w ! m)) \<noteq> Some (length (jl_chans (wa_log w)))" if "m < length (wa_att w)" for m
      using att_ok_chan [OF each [OF that]] by blast
    have old: "chan_of (at_phase (wa_att w ! m)) = Some c \<Longrightarrow> chan_of (at_phase (wa_att w ! n)) \<noteq> Some c"
      if "m < length (wa_att w)" "n < length (wa_att w)" "m \<noteq> n" for m n c
      using w that by (simp add: watch_ok_def apart_def)
    have a_new: "chan_of (at_phase (wa_att w ! m)) \<noteq> chan_of (at_phase a)" if "m < length (wa_att w)" "m \<noteq> i" "chan_of (at_phase a) = Some c" for m c
    proof
      assume eq: "chan_of (at_phase (wa_att w ! m)) = chan_of (at_phase a)"
      then have "chan_of (at_phase (wa_att w ! i)) = Some c" using fresh low [OF that(1)] that(3) by auto
      then show False using old [OF i that(1) that(2) [symmetric]] eq that(3) by simp
    qed
    consider "j = i" | "k = i" | "j \<noteq> i" "k \<noteq> i" by blast
    then show "chan_of (at_phase ((wa_att w)[i := a] ! k)) \<noteq> Some c"
    proof cases
      case 1
      then show ?thesis using * a_new [of k c] by auto
    next
      case 2
      then show ?thesis using * a_new [of j c] i by auto
    next
      case 3
      then show ?thesis using * old by auto
    qed
  qed
  ultimately show ?thesis using own(1) by (simp add: watch_ok_def)
qed

lemma history_live: "log_ok cf H l \<Longrightarrow> \<not> jl_done l \<Longrightarrow> history_after H e = H @ frame_of e"
  by (auto simp: log_ok_def history_after_def)

lemma history_done: "log_ok cf H l \<Longrightarrow> jl_done l \<Longrightarrow> history_after H e = H"
  by (auto simp: log_ok_def history_after_def)

lemma history_same: "frame_of e = [] \<Longrightarrow> history_after H e = H" by (simp add: history_after_def)

lemma written_ok:
  assumes w: "watch_ok cf H w" and fm: "frame_of e = [m]"
    and dead: "jl_done (wa_log w) \<Longrightarrow> f (wa_log w) = Some (wa_log w)"
    and live: "\<not> jl_done (wa_log w) \<Longrightarrow> \<exists>l. f (wa_log w) = Some l \<and> log_ok cf (H @ [m]) l \<and> list_all (att_ok cf (H @ [m]) l) (wa_att w)"
  shows "\<exists>w'. map_option (\<lambda>l. w\<lparr>wa_log := l\<rparr>) (f (wa_log w)) = Some w' \<and> watch_ok cf (history_after H e) w'"
proof (cases "jl_done (wa_log w)")
  case True
  then show ?thesis using w dead history_done [of cf H "wa_log w" e] by (simp add: watch_ok_def)
next
  case False
  then show ?thesis using w fm live history_live [of cf H "wa_log w" e] by (auto simp: watch_ok_def)
qed

lemma watch_step_ok:
  assumes w: "watch_ok cf H w" and cfg: "cfg_ok cf" and e: "event_fine cf e"
  shows "\<exists>w'. watch_step cf e w = Some w' \<and> watch_ok cf (history_after H e) w'"
proof (cases e)
  case (EFrame io m)
  have "\<exists>w'. map_option (\<lambda>l. w\<lparr>wa_log := l\<rparr>) (record_frame cf io m (wa_log w)) = Some w' \<and> watch_ok cf (history_after H e) w'"
  proof (rule written_ok [OF w, of e m])
    show "frame_of e = [m]" using EFrame by simp
    show "jl_done (wa_log w) \<Longrightarrow> record_frame cf io m (wa_log w) = Some (wa_log w)"
      by (simp add: record_frame_def Append_def Finish_def)
    assume nd: "\<not> jl_done (wa_log w)"
    have same: "m\<lparr>om_Done := True\<rparr> = m" if "om_Done m" using that by (cases m) simp
    show "\<exists>l. record_frame cf io m (wa_log w) = Some l \<and> log_ok cf (H @ [m]) l \<and> list_all (att_ok cf (H @ [m]) l) (wa_att w)"
    proof (cases "om_Done m")
      case True
      then show ?thesis using nd w e cfg EFrame Finish_ok [of cf H "wa_log w" "wa_att w" io m, unfolded same [OF True]]
        by (simp add: watch_ok_def record_frame_def)
    next
      case False
      then show ?thesis using nd w e cfg EFrame Append_ok [of cf H "wa_log w" "wa_att w" io m]
        by (simp add: watch_ok_def record_frame_def)
    qed
  qed
  then show ?thesis using EFrame by (simp add: watch_step_def)
next
  case (EFinish io m)
  have "\<exists>w'. map_option (\<lambda>l. w\<lparr>wa_log := l\<rparr>) (Finish cf io m (wa_log w)) = Some w' \<and> watch_ok cf (history_after H e) w'"
  proof (rule written_ok [OF w, of e "m\<lparr>om_Done := True\<rparr>"])
    show "frame_of e = [m\<lparr>om_Done := True\<rparr>]" using EFinish by simp
    show "jl_done (wa_log w) \<Longrightarrow> Finish cf io m (wa_log w) = Some (wa_log w)" by (simp add: Finish_def)
    assume "\<not> jl_done (wa_log w)"
    then show "\<exists>l. Finish cf io m (wa_log w) = Some l \<and> log_ok cf (H @ [m\<lparr>om_Done := True\<rparr>]) l
        \<and> list_all (att_ok cf (H @ [m\<lparr>om_Done := True\<rparr>]) l) (wa_att w)"
      using w e cfg EFinish Finish_ok [of cf H "wa_log w" "wa_att w" io m] by (simp add: watch_ok_def)
  qed
  then show ?thesis using EFinish by (simp add: watch_step_def)
next
  case EAttach
  have "att_ok cf H (wa_log w) new_attacher"
    using w by (auto simp: att_ok_def new_attacher_def waits_def watch_ok_def log_ok_def)
  moreover have "apart (wa_att w @ [new_attacher])"
    using w by (intro apart_snoc) (simp_all add: watch_ok_def new_attacher_def)
  ultimately show ?thesis using w EAttach by (simp add: watch_step_def watch_ok_def history_same)
next
  case (EAct i x)
  show ?thesis
  proof (cases "i < length (wa_att w)")
    case True
    obtain l a where step: "attach_step cf x (wa_log w, wa_att w ! i) = (l, a)" by fastforce
    have "moved cf H (wa_log w) (wa_att w ! i) (l, a)"
      using attach_step_ok [of cf H "wa_log w" "wa_att w ! i" i x] w cfg e EAct True step
      by (simp add: watch_ok_def list_all_length)
    then have "watch_ok cf H \<lparr>wa_log = l, wa_att = (wa_att w)[i := a]\<rparr>" by (rule act_ok [OF w True])
    then show ?thesis using EAct True step by (simp add: watch_step_def history_same)
  next
    case False
    then show ?thesis using EAct w by (simp add: watch_step_def history_same)
  qed
qed

lemma watch_run_ok:
  "watch_ok cf H w \<Longrightarrow> cfg_ok cf \<Longrightarrow> list_all (event_fine cf) es \<Longrightarrow>
    \<exists>w'. watch_run cf es w = Some w' \<and> watch_ok cf (fold (\<lambda>e h. history_after h e) es H) w'"
proof (induction es arbitrary: H w)
  case (Cons e es)
  then obtain w1 where w1: "watch_step cf e w = Some w1" "watch_ok cf (history_after H e) w1"
    using watch_step_ok [of cf H w e] by auto
  then show ?case using Cons.IH [OF w1(2) Cons.prems(2)] Cons.prems(3) by simp
qed simp

lemma quiet_ok: "cfg_ok cf \<Longrightarrow> watch_ok cf [] quiet"
  by (simp add: watch_ok_def quiet_def log_ok_def hist_ok_def empty_log_def file_ok_def records_ok_def the_file_def
      subs_ok_def apart_def cfg_ok_def)

lemma run_from_quiet:
  assumes "cfg_ok cf" "list_all (event_fine cf) es"
  shows "\<exists>w. watch_run cf es quiet = Some w \<and> watch_ok cf (recorded es) w"
  using watch_run_ok [OF quiet_ok [OF assms(1)] assms] history_recorded [of "[]" es] by simp

subsection \<open>The client gets there\<close>

definition ready :: "log_cfg \<Rightarrow> output_message list \<Rightarrow> jobOutputLog \<times> attacher \<Rightarrow> bool" where
  "ready cf H s \<longleftrightarrow> log_ok cf H (fst s) \<and> att_ok cf H (fst s) (snd s) \<and> jl_done (fst s)"

definition goes :: "log_cfg \<Rightarrow> jobOutputLog \<times> attacher \<Rightarrow> jobOutputLog \<times> attacher" where
  "goes cf = attach_step cf (Go True True)"

definition arrives :: "log_cfg \<Rightarrow> jobOutputLog \<times> attacher \<Rightarrow> bool" where
  "arrives cf s \<longleftrightarrow> (\<exists>k. at_phase (snd ((goes cf ^^ k) s)) = AtEnd SentDone)"

lemma ready_goes: "cfg_ok cf \<Longrightarrow> ready cf H s \<Longrightarrow> ready cf H (goes cf s)"
proof -
  assume "cfg_ok cf" "ready cf H s"
  moreover obtain l a where "s = (l, a)" by fastforce
  ultimately have "moved cf H l a (goes cf s)" "jl_done l"
    using attach_go_ok [of cf H l a True] by (simp_all add: ready_def goes_def)
  then show ?thesis using moved_done [of cf H l a "goes cf s"] by (simp add: ready_def moved_def)
qed

lemma ready_iterate: "cfg_ok cf \<Longrightarrow> ready cf H s \<Longrightarrow> ready cf H ((goes cf ^^ k) s)"
  by (induction k) (simp_all add: ready_goes)

lemma arrives_now: "at_phase (snd s) = AtEnd SentDone \<Longrightarrow> arrives cf s"
  unfolding arrives_def by (intro exI [of _ 0]) simp

lemma arrives_step: "arrives cf (goes cf s) \<Longrightarrow> arrives cf s"
proof -
  assume "arrives cf (goes cf s)"
  then obtain k where "at_phase (snd ((goes cf ^^ k) (goes cf s))) = AtEnd SentDone" unfolding arrives_def by (elim exE)
  then have "at_phase (snd ((goes cf ^^ Suc k) s)) = AtEnd SentDone" by (simp only: funpow_Suc_right o_def)
  then show ?thesis unfolding arrives_def by (rule exI)
qed

lemma past_arrives:
  "cfg_ok cf \<Longrightarrow> ready cf H s \<Longrightarrow> at_phase (snd s) = AtPast past None \<Longrightarrow> arrives cf s"
proof (induction past arbitrary: s)
  case Nil
  then have False by (auto simp: ready_def att_ok_def waits_def)
  then show ?case ..
next
  case (Cons m ms)
  have next_phase: "at_phase (snd (goes cf s)) = (if om_Done (so_Msg m) then AtEnd SentDone else AtPast ms None)"
    using Cons.prems(3) by (cases s) (simp add: goes_def send_one_def Let_def)
  show ?case
  proof (rule arrives_step, cases "om_Done (so_Msg m)")
    case True
    then show "arrives cf (goes cf s)" using next_phase by (intro arrives_now) simp
  next
    case False
    then show "arrives cf (goes cf s)" using next_phase by (intro Cons.IH Cons.prems(1) ready_goes Cons.prems) simp
  qed
qed

lemma follow_arrives: "cfg_ok cf \<Longrightarrow> ready cf H s \<Longrightarrow> at_phase (snd s) = AtFollow \<Longrightarrow> arrives cf s"
proof (rule arrives_step)
  assume *: "cfg_ok cf" "ready cf H s" "at_phase (snd s) = AtFollow"
  then obtain past where "at_phase (snd (goes cf s)) = AtPast past None"
    by (cases s) (simp add: goes_def follow_def Let_def ready_def)
  then show "arrives cf (goes cf s)" using * by (intro past_arrives [of cf H] ready_goes) simp_all
qed

lemma live_arrives:
  "cfg_ok cf \<Longrightarrow> ready cf H s \<Longrightarrow> at_phase (snd s) = AtLive c \<Longrightarrow> ch_buf (jl_chans (fst s) ! c) = buf \<Longrightarrow> arrives cf s"
proof (induction buf arbitrary: s)
  case Nil
  obtain l a where s: "s = (l, a)" by fastforce
  have "c < length (jl_chans l)" "jl_subs l = []" "subs_ok l"
    using Nil.prems(2,3) s by (auto simp: ready_def att_ok_def chan_run_def log_ok_def)
  then have "ch_closed (jl_chans l ! c)" by (simp add: subs_ok_def)
  then have "at_phase (snd (goes cf s)) = AtFollow" using Nil.prems(3,4) s by (simp add: goes_def)
  then show ?case using Nil.prems(1,2) by (intro arrives_step [OF follow_arrives [of cf H]] ready_goes)
next
  case (Cons m ms)
  obtain l a where s: "s = (l, a)" by fastforce
  have c: "c < length (jl_chans l)" using Cons.prems(2,3) s by (auto simp: ready_def att_ok_def chan_run_def)
  have next_phase: "at_phase (snd (goes cf s)) \<in> {AtEnd SentDone, AtLive c}"
    using Cons.prems(3,4) s by (simp add: goes_def send_one_def Let_def)
  show ?case
  proof (rule arrives_step, cases "at_phase (snd (goes cf s)) = AtEnd SentDone")
    case True
    then show "arrives cf (goes cf s)" by (rule arrives_now)
  next
    case False
    then have live: "at_phase (snd (goes cf s)) = AtLive c" using next_phase by simp
    then have "ch_buf (jl_chans (fst (goes cf s)) ! c) = ms"
      using Cons.prems(3,4) s c by (auto simp: goes_def send_one_def Let_def split: if_splits)
    then show "arrives cf (goes cf s)" using live by (intro Cons.IH Cons.prems(1) ready_goes Cons.prems) simp_all
  qed
qed

lemma start_arrives:
  "cfg_ok cf \<Longrightarrow> ready cf H s \<Longrightarrow> at_phase (snd s) = AtPast past (Some c) \<Longrightarrow> arrives cf s"
proof (induction past arbitrary: s)
  case Nil
  then have "at_phase (snd (goes cf s)) = AtLive c" by (cases s) (simp add: goes_def)
  then show ?case using Nil.prems(1,2) by (intro arrives_step [OF live_arrives [of cf H]] ready_goes) simp_all
next
  case (Cons m ms)
  have next_phase: "at_phase (snd (goes cf s)) = (if om_Done (so_Msg m) then AtEnd SentDone else AtPast ms (Some c))"
    using Cons.prems(3) by (cases s) (simp add: goes_def send_one_def Let_def)
  show ?case
  proof (rule arrives_step, cases "om_Done (so_Msg m)")
    case True
    then show "arrives cf (goes cf s)" using next_phase by (intro arrives_now) simp
  next
    case False
    then show "arrives cf (goes cf s)" using next_phase by (intro Cons.IH Cons.prems(1) ready_goes Cons.prems) simp
  qed
qed

definition in_loop :: "attach_phase \<Rightarrow> bool" where
  "in_loop ph \<longleftrightarrow> ph \<noteq> AtLost \<and> (\<forall>x. ph \<noteq> AtEnd x)"

lemma loop_arrives: "cfg_ok cf \<Longrightarrow> ready cf H s \<Longrightarrow> in_loop (at_phase (snd s)) \<Longrightarrow> arrives cf s"
proof (cases "at_phase (snd s)")
  case (AtPast past c)
  assume "cfg_ok cf" "ready cf H s"
  then show ?thesis using AtPast by (cases c) (auto intro: past_arrives start_arrives)
qed (auto intro: follow_arrives live_arrives simp: in_loop_def)

lemma run_act:
  "i < length (wa_att w) \<Longrightarrow> watch_run cf (replicate k (EAct i (Go True True))) w
     = Some \<lparr>wa_log = fst ((goes cf ^^ k) (wa_log w, wa_att w ! i)),
         wa_att = (wa_att w)[i := snd ((goes cf ^^ k) (wa_log w, wa_att w ! i))]\<rparr>"
proof (induction k arbitrary: w)
  case (Suc k)
  obtain l a where step: "goes cf (wa_log w, wa_att w ! i) = (l, a)" by fastforce
  then have "watch_step cf (EAct i (Go True True)) w = Some \<lparr>wa_log = l, wa_att = (wa_att w)[i := a]\<rparr>"
    using Suc.prems by (simp add: watch_step_def goes_def)
  then show ?case using Suc.IH [of "\<lparr>wa_log = l, wa_att = (wa_att w)[i := a]\<rparr>"] Suc.prems step
    by (simp add: funpow_swap1)
qed simp

subsection \<open>The properties\<close>

text \<open>C23: Whatever the job writes and however the steps of any number of attachers interleave with it, what an
  attacher has been sent is the job's output from the first frame on, every frame once and in order, where a note
  may stand for a stretch of the oldest frames; an attacher that fell behind and caught up from the file, or
  came when the file had been trimmed, included.\<close>

theorem attach_sends_every_frame_once:
  assumes "cfg_ok cf" "list_all (event_fine cf) es" "watch_run cf es quiet = Some w" "a \<in> set (wa_att w)"
  shows "replays cf (recorded es) 0 (at_sent a) (nat (at_last a))"
proof -
  have "watch_ok cf (recorded es) w" using run_from_quiet [OF assms(1,2)] assms(3) by simp
  then show ?thesis using assms(4) by (auto simp: watch_ok_def att_ok_def list_all_iff)
qed



subsection \<open>A run\<close>

definition demo_cfg :: log_cfg where
  "demo_cfg = \<lparr>cf_bytes = (\<lambda>_. 9), cf_IBytes = (\<lambda>_. ''some''), cf_jobOutputCap = 40\<rparr>"

definition good_io :: io_answers where
  "good_io = \<lparr>io_open = True, io_write = Written, io_read = True, io_tmp = True, io_rename = True, io_reopen = True\<rparr>"

definition said :: "string \<Rightarrow> output_message" where
  "said s = no_message\<lparr>om_O := s\<rparr>"

text \<open>One client watches from the start, one comes when the first three frames have been trimmed.\<close>

definition demo_run :: "log_event list" where
  "demo_run = [EAttach, EAct 0 (Go True True), EAct 0 (Go True True), EFrame good_io (said ''a''), EFrame good_io (said ''b''),
     EAct 0 (Go True True), EFrame good_io (said ''c''), EFrame good_io (said ''d''), EFrame good_io (said ''e''),
     EAttach, EAct 1 (Go True True), EAct 1 (Go True True), EFinish good_io (said ''f'')]"

lemma demo_cfg_ok: "cfg_ok demo_cfg" by (simp add: cfg_ok_def small_def demo_cfg_def max_line_def)

lemma demo_run_fine: "list_all (event_fine demo_cfg) demo_run"
  by (simp add: demo_run_def io_fine_def good_io_def small_def demo_cfg_def)

lemma demo_sent:
  "map_option (\<lambda>w. (jl_done (wa_log w), map (\<lambda>a. map so_Seq (at_sent a)) (wa_att w))) (watch_run demo_cfg demo_run quiet)
     = Some (True, [[1], [3]])"
  by code_simp

theorem attach_sends_every_frame_once_witness:
  "\<exists>w. watch_run demo_cfg demo_run quiet = Some w \<and> map so_Seq (at_sent (wa_att w ! 1)) = [3]
     \<and> replays demo_cfg (recorded demo_run) 0 (at_sent (wa_att w ! 1)) (nat (at_last (wa_att w ! 1)))"
proof -
  obtain w where w: "watch_run demo_cfg demo_run quiet = Some w" "map (\<lambda>a. map so_Seq (at_sent a)) (wa_att w) = [[1], [3]]"
    using demo_sent by auto
  then obtain a0 a1 where two: "wa_att w = [a0, a1]" "map so_Seq (at_sent a1) = [3]" by (auto simp: map_eq_Cons_conv)
  then have "replays demo_cfg (recorded demo_run) 0 (at_sent a1) (nat (at_last a1))"
    by (intro attach_sends_every_frame_once [OF demo_cfg_ok demo_run_fine w(1)]) simp
  then show ?thesis using w(1) two by simp
qed



text \<open>
  The ticker ends an attacher that is behind: when the job's record says it ended, two ticks taken while
  frames wait in the channel report the output as cut short, although the result is recorded and on its way.
\<close>

lemma ticks_cut_a_recorded_result:
  "map_option (\<lambda>w. (jl_final (wa_log w), at_phase (wa_att w ! 0), map om_Error (wire (wa_att w ! 0)),
       map so_Msg (ch_buf (jl_chans (wa_log w) ! 0))))
     (watch_run demo_cfg [EAttach, EAct 0 (Go True True), EAct 0 (Go True True), EFrame good_io (said ''a''),
        EFinish good_io (said ''b''), EAct 0 (Tick True), EAct 0 (Tick True), EAct 0 (Go True True)] quiet)
   = Some (Some (said ''b''\<lparr>om_Done := True\<rparr>), AtEnd CutShort, [cut_short_text], [said ''a'', said ''b''\<lparr>om_Done := True\<rparr>])"
  by code_simp

text \<open>A record longer than half the cap makes \<open>trim\<close> index past its records.\<close>

lemma trim_panics_on_a_long_record:
  "watch_run (demo_cfg\<lparr>cf_jobOutputCap := 5\<rparr>) [EFrame good_io (said ''a'')] quiet = None"
  by code_simp

end
