(* ===== verification/JobClient.thy ===== *)
theory JobClient
  imports JobLog
begin

text \<open>
  The submitter's side of a job's output: \<open>streamJob\<close> of \<^verbatim>\<open>src/internal/daemonctl/execution.go\<close>,
  \<open>applyFrame\<close>, \<open>FetchOutput\<close> and \<open>ReplayOutput\<close> of \<^verbatim>\<open>replay.go\<close>. A socket is the list of what its
  reads return, each with whether the run was cancelled or detached by then; a failed write to the terminal is
  only warned about and has no counterpart.
\<close>

subsection \<open>Outcomes\<close>

datatype job_error = RemoteError string | JobCancelled int | RanOutOfMemory int | RemoteExitError int
  | ErrDetached | CancelUnconfirmed | ErrConnectionLost

record stream_result =
  re_PeakBytes :: int
  re_Stdout :: string
  re_Stderr :: string
  re_Timing :: "(int \<times> int \<times> int) option"
  re_Receipt :: string

definition no_result :: stream_result where
  "no_result = \<lparr>re_PeakBytes = 0, re_Stdout = [], re_Stderr = [], re_Timing = None, re_Receipt = []\<rparr>"

text \<open>What a terminal shows: standard output and standard error.\<close>

type_synonym terminal = "string \<times> string"

datatype frame_outcome = GoesOn | Ends "job_error option"

definition applyFrame :: "output_message \<Rightarrow> bool \<Rightarrow> stream_result \<times> terminal \<Rightarrow> frame_outcome \<times> stream_result \<times> terminal" where
  "applyFrame out cancelSent = (\<lambda>(res, so, se).
     if om_Error out \<noteq> [] then (Ends (Some (RemoteError (om_Error out))), res, so, se)
     else
       let t = (so @ om_O out, se @ om_E out)
       in if \<not> om_Done out then (GoesOn, res, t)
          else
            let res1 = (if 0 < om_PeakMemBytes out then res\<lparr>re_PeakBytes := om_PeakMemBytes out\<rparr> else res);
                res2 = res1\<lparr>re_Timing := om_Timing out, re_Receipt := om_Receipt out\<rparr>
            in (Ends (if om_Cancelled out \<or> cancelSent \<and> om_ExitCode out \<noteq> 0 then Some (JobCancelled (om_ExitCode out))
                 else if om_OOMKilled out then Some (RanOutOfMemory (om_MemLimitBytes out))
                 else if om_ExitCode out \<noteq> 0 then Some (RemoteExitError (om_ExitCode out))
                 else None), res2, t))"

subsection \<open>Following a job\<close>

text \<open>\<open>BadFrame\<close> is a message that does not decode, \<open>ReadError normal\<close> a read that fails, by a normal close or not.\<close>

datatype socket_read = GotFrame output_message | BadFrame | ReadError bool

record read_event =
  rd_what :: socket_read
  rd_cancelled :: bool
  rd_detached :: bool

text \<open>\<open>None\<close>: the reads given do not end the stream.\<close>

fun stream_loop :: "read_event list \<Rightarrow> stream_result \<times> terminal \<Rightarrow> (job_error option \<times> stream_result \<times> terminal) option" where
  "stream_loop [] s = None"
| "stream_loop (r # rs) s =
     (case rd_what r of
        BadFrame \<Rightarrow> stream_loop rs s
      | ReadError normal \<Rightarrow>
          Some (if rd_detached r then Some ErrDetached
                else if rd_cancelled r then Some CancelUnconfirmed
                else if normal then None
                else Some ErrConnectionLost, s)
      | GotFrame out \<Rightarrow>
          (case applyFrame out (rd_cancelled r) s of
             (GoesOn, s1) \<Rightarrow> stream_loop rs s1
           | (Ends e, s1) \<Rightarrow> Some (e, s1)))"

text \<open>\<open>result()\<close> keeps what was printed beside the figures of the done frame.\<close>

definition streamJob :: "read_event list \<Rightarrow> (job_error option \<times> stream_result \<times> terminal) option" where
  "streamJob rs = map_option (\<lambda>(e, res, so, se). (e, res\<lparr>re_Stdout := so, re_Stderr := se\<rparr>, so, se))
     (stream_loop rs (no_result, [], []))"

subsection \<open>Fetching the record and replaying it\<close>

datatype fetch_error = EndedEarly | UnreadableFrame | WriteError

text \<open>
  A saved line is the message as the daemon sent it; \<open>wr n\<close> says whether the file takes the next
  line behind \<open>n\<close> others. The count of bytes is left out.
\<close>

fun fetch_loop :: "(nat \<Rightarrow> bool) \<Rightarrow> socket_read list \<Rightarrow> output_message list \<Rightarrow> (fetch_error option \<times> output_message list) option" where
  "fetch_loop wr [] saved = None"
| "fetch_loop wr (ReadError normal # rs) saved = Some (Some EndedEarly, saved)"
| "fetch_loop wr (BadFrame # rs) saved = Some (Some UnreadableFrame, saved)"
| "fetch_loop wr (GotFrame out # rs) saved =
     (if \<not> wr (length saved) then Some (Some WriteError, saved)
      else if om_Done out then Some (None, saved @ [out])
      else fetch_loop wr rs (saved @ [out]))"

definition FetchOutput :: "(nat \<Rightarrow> bool) \<Rightarrow> socket_read list \<Rightarrow> (fetch_error option \<times> output_message list) option" where
  "FetchOutput wr rs = fetch_loop wr rs []"

text \<open>
  A line of the saved file decodes (\<open>Some\<close>) or is skipped. The answer is the job's outcome with what was
  printed; the last component says that the file ended without the job's result.
\<close>

fun replay_loop :: "output_message option list \<Rightarrow> stream_result \<times> terminal \<Rightarrow> job_error option \<times> (stream_result \<times> terminal) \<times> bool" where
  "replay_loop [] s = (None, s, True)"
| "replay_loop (None # ls) s = replay_loop ls s"
| "replay_loop (Some out # ls) s =
     (case applyFrame out False s of
        (GoesOn, s1) \<Rightarrow> replay_loop ls s1
      | (Ends e, s1) \<Rightarrow> (e, s1, False))"

definition ReplayOutput :: "output_message option list \<Rightarrow> job_error option \<times> (stream_result \<times> terminal) \<times> bool" where
  "ReplayOutput ls = replay_loop ls (no_result, [], [])"

subsection \<open>A replay shows what the stream showed\<close>

definition undisturbed :: "socket_read \<Rightarrow> read_event" where
  "undisturbed x = \<lparr>rd_what = x, rd_cancelled = False, rd_detached = False\<rparr>"

lemma undisturbed_sel [simp]:
  "rd_what (undisturbed x) = x" "\<not> rd_cancelled (undisturbed x)" "\<not> rd_detached (undisturbed x)"
  by (simp_all add: undisturbed_def)

lemma applyFrame_goes_on: "applyFrame out b s = (GoesOn, s1) \<Longrightarrow> om_Error out = [] \<and> \<not> om_Done out"
  by (cases s) (simp add: applyFrame_def Let_def split: if_splits)

lemma applyFrame_done: "applyFrame out b s = (GoesOn, s1) \<Longrightarrow> om_Done out \<Longrightarrow> False"
  using applyFrame_goes_on by blast

lemma fetch_loop_prefix: "fetch_loop wr rs saved = Some (None, ls) \<Longrightarrow> \<exists>new. ls = saved @ new"
proof (induction wr rs saved rule: fetch_loop.induct)
  case (4 wr out rs saved)
  then show ?case by (fastforce split: if_splits)
qed simp_all

lemma fetched_replays:
  "fetch_loop wr rs saved = Some (None, saved @ new) \<Longrightarrow>
    \<exists>e s'. stream_loop (map undisturbed rs) s = Some (e, s') \<and> replay_loop (map Some new) s = (e, s', False)"
proof (induction wr rs saved arbitrary: new s rule: fetch_loop.induct)
  case (4 wr out rs saved)
  obtain o1 s1 where step: "applyFrame out False s = (o1, s1)" by (cases "applyFrame out False s")
  show ?case
  proof (cases "om_Done out")
    case True
    then have "new = [out]" using "4.prems" by (simp split: if_splits)
    then show ?thesis using step True applyFrame_done [of out False s s1] by (cases o1; cases s1) auto
  next
    case False
    then have more: "wr (length saved)" "fetch_loop wr rs (saved @ [out]) = Some (None, saved @ new)"
      using "4.prems" by (simp_all split: if_splits)
    then obtain new' where new': "new = out # new'" using fetch_loop_prefix [OF more(2)] by auto
    then show ?thesis using "4.IH" [of new' s1] more False step by (cases o1; cases s1) auto
  qed
qed simp_all

text \<open>
  Replaying the saved record of a job shows and reports what a client that followed the job to its end was
  shown, whether the job succeeded or not.
\<close>

theorem replay_shows_what_attach_showed:
  assumes "FetchOutput wr rs = Some (None, saved)"
  shows "\<exists>e res t. streamJob (map undisturbed rs) = Some (e, res\<lparr>re_Stdout := fst t, re_Stderr := snd t\<rparr>, t)
    \<and> ReplayOutput (map Some saved) = (e, (res, t), False)"
proof -
  have "fetch_loop wr rs [] = Some (None, [] @ saved)" using assms by (simp add: FetchOutput_def)
  from fetched_replays [OF this, of "(no_result, [], [])"]
  obtain e s where s: "stream_loop (map undisturbed rs) (no_result, [], []) = Some (e, s)"
    "replay_loop (map Some saved) (no_result, [], []) = (e, s, False)" by blast
  obtain res so se where "s = (res, so, se)" by (cases s)
  then show ?thesis using s by (auto simp: streamJob_def ReplayOutput_def)
qed

text \<open>A job that was killed for its memory is reported as such, not as a signal.\<close>

lemma oom_is_named:
  "om_Done out \<Longrightarrow> om_Error out = [] \<Longrightarrow> \<not> om_Cancelled out \<Longrightarrow> om_OOMKilled out \<Longrightarrow>
    fst (applyFrame out False s) = Ends (Some (RanOutOfMemory (om_MemLimitBytes out)))"
  by (cases s) (simp add: applyFrame_def Let_def)

end
