(* ===== verification/MapSet.thy ===== *)
theory MapSet
  imports GoStrings
begin

text \<open>
  The fan-out of a script over shards, \<^verbatim>\<open>src/internal/app/mapset.go\<close>: which tasks a data source gives,
  how a record file is cut into shards, and the run of the tasks. A CSV file is what its reader yields record by
  record, a text file its bytes; globbing, absolute paths and the making of files answer through parameters. The
  goroutines of \<open>RunMap\<close> share one options value, so their assignments are single steps that interleave.
\<close>

subsection \<open>Tasks\<close>

record MapTask =
  mt_Args :: "string list"
  mt_Envs :: "string list"
  mt_ShardID :: nat

definition no_task :: MapTask where
  "no_task = \<lparr>mt_Args = [], mt_Envs = [], mt_ShardID = 0\<rparr>"

record MapSpec =
  ms_Inputs :: "string list"
  ms_ArgsFile :: string
  ms_SplitSource :: string
  ms_Split :: string
  ms_NodeCount :: int
  ms_ShardDir :: string

datatype map_error = OnlyOneSource | BadPattern string | NoFiles | CannotOpen string | LineTooLong | NoTaskLines
  | BadSplit string | BadRows string | BadParts string | TooManyShards int | NoScratch | UnknownFormat string
  | EmptyFile | BadRecord | CannotCreate nat | CannotWrite nat

datatype splitMode = splitByRows | splitByParts

definition max_shards :: int where "max_shards = 512"

text \<open>\<open>Atoi\<close> of \<open>strconv\<close> takes a sign, so the bound is checked on the value.\<close>

definition parseSplit :: "string \<Rightarrow> int \<Rightarrow> map_error + splitMode \<times> int" where
  "parseSplit spec0 nodeCount =
     (let spec = TrimSpace spec0
      in if spec = [] then Inr (splitByParts, 1)
         else case Cut CHR '':'' spec of
             None \<Rightarrow> Inl (BadSplit spec)
           | Some (kind, val) \<Rightarrow>
               if kind = ''rows''
               then (case Atoi val of None \<Rightarrow> Inl (BadRows val) | Some n \<Rightarrow> if n \<le> 0 then Inl (BadRows val) else Inr (splitByRows, n))
               else if kind = ''parts''
               then (if val = ''auto'' then Inr (splitByParts, min max_shards (max 1 (2 * nodeCount)))
                     else case Atoi val of
                         None \<Rightarrow> Inl (BadParts val)
                       | Some n \<Rightarrow> if n \<le> 0 then Inl (BadParts val) else if max_shards < n then Inl (TooManyShards n)
                           else Inr (splitByParts, n))
               else Inl (BadSplit spec))"

definition shardRows :: "splitMode \<Rightarrow> int \<Rightarrow> int \<Rightarrow> int" where
  "shardRows mode n all = (if mode = splitByRows then n else go_div (all + n - 1) n)"

definition shard_size :: "splitMode \<Rightarrow> int \<Rightarrow> nat \<Rightarrow> nat" where
  "shard_size mode n all = (let s = shardRows mode n (int all) in nat (if s = 0 then 1 else s))"

subsection \<open>Shards\<close>

definition pad3 :: "nat \<Rightarrow> string" where
  "pad3 n = replicate (3 - length (decimal n)) CHR ''0'' @ decimal n"

definition join_path :: "string \<Rightarrow> string \<Rightarrow> string" where
  "join_path dir name = (if dir = [] then name else dir @ ''/'' @ name)"

definition shard_name :: "string \<Rightarrow> string \<Rightarrow> nat \<Rightarrow> string" where
  "shard_name dir ext part = join_path dir (''shard-'' @ pad3 part @ ext)"

text \<open>Whether the file of a part can be made, and whether it takes what is written.\<close>

record shard_io =
  si_create :: "nat \<Rightarrow> bool"
  si_flush :: "nat \<Rightarrow> bool"

text \<open>
  The loop over the parts: a file for each part until one stays empty, which is removed again. The result is
  the part numbers left with their rows.
\<close>

function shard_loop :: "shard_io \<Rightarrow> nat \<Rightarrow> nat \<Rightarrow> 'a list \<Rightarrow> map_error + (nat \<times> 'a list) list" where
  "shard_loop io sz part recs =
     (if \<not> si_create io part then Inl (CannotCreate part)
      else if \<not> si_flush io part then Inl (CannotWrite part)
      else if take sz recs = [] then Inr []
      else map_sum id (Cons (part, take sz recs)) (shard_loop io sz (Suc part) (drop sz recs)))"
  by pat_completeness auto
termination by (relation "measure (\<lambda>(io, sz, part, recs). length recs)") auto

declare shard_loop.simps [simp del]

type_synonym row = "string list"

text \<open>A reader yields records, or \<open>None\<close> for one it cannot parse; the first is the header.\<close>

definition splitCSV ::
  "shard_io \<Rightarrow> string \<Rightarrow> splitMode \<Rightarrow> int \<Rightarrow> row option list option \<Rightarrow> map_error + (MapTask list \<times> (string \<times> row list) list)" where
  "splitCSV io dir mode n file =
     (case file of None \<Rightarrow> Inl (CannotOpen ''csv'')
      | Some [] \<Rightarrow> Inl EmptyFile
      | Some (None # rs) \<Rightarrow> Inl BadRecord
      | Some (Some header # rs) \<Rightarrow>
          if None \<in> set rs then Inl BadRecord
          else map_sum id
            (\<lambda>parts. (map (\<lambda>(part, rows). no_task\<lparr>mt_Args := [shard_name dir ''.csv'' part], mt_ShardID := part\<rparr>) parts,
                      map (\<lambda>(part, rows). (shard_name dir ''.csv'' part, header # rows)) parts))
            (shard_loop io (shard_size mode n (length rs)) 0 (map the rs)))"

text \<open>The lines a scanner yields: a carriage return before the newline goes, a line of 64 KiB is an error.\<close>

definition max_token :: nat where "max_token = 64 * 1024"

definition dropCR :: "string \<Rightarrow> string" where
  "dropCR s = (if s \<noteq> [] \<and> last s = CHR 0x0D then butlast s else s)"

definition raw_lines :: "string \<Rightarrow> string list" where
  "raw_lines s = (let ls = Split CHR 0x0A s in if last ls = [] then butlast ls else ls)"

definition scan_lines :: "string \<Rightarrow> string list option" where
  "scan_lines s = (if list_all (\<lambda>l. length l < max_token) (raw_lines s) then Some (map dropCR (raw_lines s)) else None)"

definition splitLines ::
  "(nat \<Rightarrow> bool) \<Rightarrow> string \<Rightarrow> splitMode \<Rightarrow> int \<Rightarrow> string option \<Rightarrow> map_error + (MapTask list \<times> (string \<times> string list) list)" where
  "splitLines create dir mode n file =
     (case file of None \<Rightarrow> Inl (CannotOpen ''lines'')
      | Some s \<Rightarrow>
          case scan_lines s of None \<Rightarrow> Inl LineTooLong
          | Some ls \<Rightarrow>
              map_sum id
                (\<lambda>parts. (map (\<lambda>(part, rows). no_task\<lparr>mt_Args := [shard_name dir ''.txt'' part], mt_ShardID := part\<rparr>) parts,
                          map (\<lambda>(part, rows). (shard_name dir ''.txt'' part, rows)) parts))
                (shard_loop \<lparr>si_create = create, si_flush = (\<lambda>_. True)\<rparr> (shard_size mode n (length ls)) 0 ls))"

subsection \<open>Which tasks\<close>

text \<open>\<open>filepath.Ext\<close>: from the last dot of the last element.\<close>

definition Ext :: "string \<Rightarrow> string" where
  "Ext path =
     (let b = takeWhile (\<lambda>c. c \<noteq> CHR ''/'') (rev path)
      in if CHR ''.'' \<in> set b then CHR ''.'' # rev (takeWhile (\<lambda>c. c \<noteq> CHR ''.'') b) else [])"

text \<open>What the file system answers.\<close>

record map_world =
  mw_Glob :: "string \<Rightarrow> string list option"
  mw_Abs :: "string \<Rightarrow> string option"
  mw_text :: "string \<Rightarrow> string option"
  mw_csv :: "string \<Rightarrow> row option list option"
  mw_Scratch :: "string option"
  mw_io :: shard_io

text \<open>What the split writes, beside the tasks: text shards or CSV shards.\<close>

datatype shard_files = NoShards | TextShards "(string \<times> string list) list" | CSVShards "(string \<times> row list) list"

fun glob_all :: "(string \<Rightarrow> string list option) \<Rightarrow> string list \<Rightarrow> map_error + string list" where
  "glob_all glob [] = Inr []"
| "glob_all glob (p # ps) =
     (case glob p of None \<Rightarrow> Inl (BadPattern p) | Some fs \<Rightarrow> map_sum id (\<lambda>r. fs @ r) (glob_all glob ps))"

definition tasksFromInputs :: "map_world \<Rightarrow> string list \<Rightarrow> map_error + MapTask list" where
  "tasksFromInputs w patterns =
     (case glob_all (mw_Glob w) patterns of
        Inl e \<Rightarrow> Inl e
      | Inr [] \<Rightarrow> Inl NoFiles
      | Inr fs \<Rightarrow> Inr (map (\<lambda>(i, f). no_task\<lparr>mt_Args := [case mw_Abs w f of None \<Rightarrow> f | Some a \<Rightarrow> a], mt_ShardID := i\<rparr>) (enumerate 0 fs)))"

definition task_line :: "string \<Rightarrow> bool" where
  "task_line l \<longleftrightarrow> l \<noteq> [] \<and> \<not> HasPrefix l ''#''"

definition tasksFromArgsFile :: "map_world \<Rightarrow> string \<Rightarrow> map_error + MapTask list" where
  "tasksFromArgsFile w path =
     (case mw_text w path of None \<Rightarrow> Inl (CannotOpen path)
      | Some s \<Rightarrow>
          case scan_lines s of None \<Rightarrow> Inl LineTooLong
          | Some ls \<Rightarrow>
              let ts = filter task_line (map TrimSpace ls)
              in if ts = [] then Inl NoTaskLines
                 else Inr (map (\<lambda>(i, l). no_task\<lparr>mt_Args := [l], mt_ShardID := i\<rparr>) (enumerate 0 ts)))"

definition tasksFromSplit :: "map_world \<Rightarrow> MapSpec \<Rightarrow> map_error + MapTask list \<times> string \<times> shard_files" where
  "tasksFromSplit w spec =
     (case parseSplit (ms_Split spec) (ms_NodeCount spec) of
        Inl e \<Rightarrow> Inl e
      | Inr (mode, n) \<Rightarrow>
          case (if ms_ShardDir spec = [] then mw_Scratch w else Some (ms_ShardDir spec)) of
            None \<Rightarrow> Inl NoScratch
          | Some dir \<Rightarrow>
              let ext = ToLower (Ext (ms_SplitSource spec))
              in if ext = ''.csv''
                 then map_sum id (\<lambda>(ts, fs). (ts, dir, CSVShards fs)) (splitCSV (mw_io w) dir mode n (mw_csv w (ms_SplitSource spec)))
                 else if ext \<in> {''.jsonl'', ''.ndjson'', ''.txt''}
                 then map_sum id (\<lambda>(ts, fs). (ts, dir, TextShards fs))
                        (splitLines (si_create (mw_io w)) dir mode n (mw_text w (ms_SplitSource spec)))
                 else Inl (UnknownFormat ext))"

definition ResolveMapTasks :: "map_world \<Rightarrow> MapSpec \<Rightarrow> map_error + MapTask list \<times> string \<times> shard_files" where
  "ResolveMapTasks w spec =
     (let explicit = (if ms_Inputs spec \<noteq> [] then 1 else 0) + (if ms_ArgsFile spec \<noteq> [] then 1 else 0)
            + (if ms_SplitSource spec \<noteq> [] then 1 else 0 :: nat)
      in if 1 < explicit then Inl OnlyOneSource
         else if ms_Inputs spec \<noteq> [] then map_sum id (\<lambda>ts. (ts, [], NoShards)) (tasksFromInputs w (ms_Inputs spec))
         else if ms_ArgsFile spec \<noteq> [] then map_sum id (\<lambda>ts. (ts, [], NoShards)) (tasksFromArgsFile w (ms_ArgsFile spec))
         else if ms_SplitSource spec \<noteq> [] then tasksFromSplit w spec
         else Inr ([no_task], [], NoShards))"

definition ShardEnvs :: "nat \<Rightarrow> nat \<Rightarrow> string list" where
  "ShardEnvs shardID numShards =
     [''PIPEDPEER_SHARD_ID='' @ decimal shardID, ''PIPEDPEER_NUM_SHARDS='' @ decimal numShards]"

subsection \<open>The run\<close>

text \<open>The options a task changes; there is one value, which every goroutine assigns to.\<close>

record map_options =
  op_ResultsDir :: string
  op_JobSet :: string
  op_ScriptArgs :: "string list"
  op_Envs :: "string list"

datatype worker = Waiting | Acquired nat | Running map_options | Finished bool

record map_state =
  mp_base :: map_options
  mp_slots :: nat
  mp_workers :: "worker list"

definition Base :: "string \<Rightarrow> string" where
  "Base path = (let b = rev (dropWhile (\<lambda>c. c = CHR ''/'') (rev path))
     in if path = [] then ''.'' else if b = [] then ''/'' else rev (takeWhile (\<lambda>c. c \<noteq> CHR ''/'') (rev b)))"

text \<open>The assignments of a goroutine, in the order of the code.\<close>

definition assign :: "MapTask list \<Rightarrow> string \<Rightarrow> MapTask \<Rightarrow> nat \<Rightarrow> map_options \<Rightarrow> map_options" where
  "assign tasks resultsDir t pc base =
     (if pc = 0 then base\<lparr>op_ResultsDir := join_path resultsDir (''task-'' @ decimal (mt_ShardID t))\<rparr>
      else if pc = 1 then base\<lparr>op_JobSet := Base resultsDir\<rparr>
      else if pc = 2 then base\<lparr>op_ScriptArgs := mt_Args t\<rparr>
      else if pc = 3 then base\<lparr>op_Envs := op_Envs base @ ShardEnvs (mt_ShardID t) (length tasks)\<rparr>
      else base\<lparr>op_Envs := op_Envs base @ mt_Envs t\<rparr>)"

text \<open>
  One step of goroutine \<open>i\<close>: it takes a slot, makes its assignments, starts its run on the options it finds, and
  ends, which frees the slot. \<open>ok\<close> is the run's result when it ends here.
\<close>

definition map_step :: "MapTask list \<Rightarrow> string \<Rightarrow> nat \<times> bool \<Rightarrow> map_state \<Rightarrow> map_state" where
  "map_step tasks resultsDir = (\<lambda>(i, ok) s.
     if length tasks \<le> i then s
     else case mp_workers s ! i of
         Waiting \<Rightarrow>
           if mp_slots s = 0 then s
           else s\<lparr>mp_slots := mp_slots s - 1, mp_workers := (mp_workers s)[i := Acquired 0]\<rparr>
       | Acquired pc \<Rightarrow>
           if pc < 5
           then s\<lparr>mp_base := assign tasks resultsDir (tasks ! i) pc (mp_base s), mp_workers := (mp_workers s)[i := Acquired (Suc pc)]\<rparr>
           else s\<lparr>mp_workers := (mp_workers s)[i := Running (mp_base s)]\<rparr>
       | Running b \<Rightarrow> s\<lparr>mp_slots := mp_slots s + 1, mp_workers := (mp_workers s)[i := Finished ok]\<rparr>
       | Finished r \<Rightarrow> s)"

definition map_start :: "MapTask list \<Rightarrow> map_options \<Rightarrow> int \<Rightarrow> map_state" where
  "map_start tasks base concurrency =
     \<lparr>mp_base = base,
      mp_slots = (if concurrency \<le> 0 then (if tasks = [] then 1 else length tasks) else nat concurrency),
      mp_workers = replicate (length tasks) Waiting\<rparr>"

datatype map_outcome = MapOK | ReduceResult bool | TasksFailed nat

definition map_failed :: "map_state \<Rightarrow> nat" where
  "map_failed s = length (filter (\<lambda>w. w = Finished False) (mp_workers s))"

text \<open>The end of \<open>RunMap\<close>, once every goroutine has finished; the reduce script's result is an argument.\<close>

definition map_outcome_of :: "bool option \<Rightarrow> map_state \<Rightarrow> map_outcome option" where
  "map_outcome_of reduce s =
     (if list_all (\<lambda>w. \<exists>r \<in> {True, False}. w = Finished r) (mp_workers s)
      then Some (case reduce of Some r \<Rightarrow> ReduceResult r
        | None \<Rightarrow> if 0 < map_failed s then TasksFailed (map_failed s) else MapOK)
      else None)"

definition RunMap :: "MapTask list \<Rightarrow> map_options \<Rightarrow> int \<Rightarrow> string \<Rightarrow> bool option \<Rightarrow> (nat \<times> bool) list \<Rightarrow> map_outcome option" where
  "RunMap tasks base concurrency resultsDir reduce schedule =
     map_outcome_of reduce (fold (map_step tasks resultsDir) schedule (map_start tasks base concurrency))"

definition shortNode :: "string \<Rightarrow> string" where "shortNode i = take 8 i"

subsection \<open>Every row in exactly one shard\<close>

definition cuts :: "nat \<Rightarrow> nat \<Rightarrow> 'a list \<Rightarrow> (nat \<times> 'a list) list \<Rightarrow> bool" where
  "cuts sz part recs parts \<longleftrightarrow> concat (map snd parts) = recs \<and> map fst parts = [part..<part + length parts]
     \<and> list_all (\<lambda>p. snd p \<noteq> [] \<and> length (snd p) \<le> sz) parts \<and> list_all (\<lambda>p. length (snd p) = sz) (butlast parts)"

lemma cuts_Cons:
  assumes "cuts sz (Suc part) (drop sz recs) parts" "take sz recs \<noteq> []"
  shows "cuts sz part recs ((part, take sz recs) # parts)"
proof -
  have "length (take sz recs) = sz" if "parts \<noteq> []"
  proof -
    obtain p ps where "parts = p # ps" using \<open>parts \<noteq> []\<close> by (cases parts) simp_all
    then have "drop sz recs \<noteq> []" using assms(1) by (auto simp: cuts_def)
    then show ?thesis by simp
  qed
  moreover have "map fst ((part, take sz recs) # parts) = [part..<part + length ((part, take sz recs) # parts)]"
    using assms(1) by (simp add: cuts_def upt_conv_Cons del: upt_Suc)
  ultimately show ?thesis using assms by (auto simp: cuts_def)
qed

lemma shard_loop_cuts: "0 < sz \<Longrightarrow> shard_loop io sz part recs = Inr parts \<Longrightarrow> cuts sz part recs parts"
proof (induction io sz part recs arbitrary: parts rule: shard_loop.induct)
  case (1 io sz part recs)
  have io: "si_create io part" "si_flush io part"
    using "1.prems"(2) by (auto simp: shard_loop.simps [of io sz part recs] split: if_splits)
  show ?case
  proof (cases "take sz recs = []")
    case True
    then have "recs = []" "parts = []"
      using "1.prems" io shard_loop.simps [of io sz part recs] by simp_all
    then show ?thesis by (simp add: cuts_def)
  next
    case False
    then obtain rest where rest: "shard_loop io sz (Suc part) (drop sz recs) = Inr rest" "parts = (part, take sz recs) # rest"
      using "1.prems"(2) io
      by (cases "shard_loop io sz (Suc part) (drop sz recs)") (auto simp: shard_loop.simps [of io sz part recs])
    have "cuts sz (Suc part) (drop sz recs) rest" using "1.IH" io False "1.prems"(1) rest(1) by simp
    then show ?thesis unfolding rest(2) by (rule cuts_Cons [OF _ False])
  qed
qed

lemma shard_loop_succeeds:
  "si_create io = (\<lambda>_. True) \<Longrightarrow> si_flush io = (\<lambda>_. True) \<Longrightarrow> \<exists>parts. shard_loop io sz part recs = Inr parts"
proof (induction io sz part recs rule: shard_loop.induct)
  case (1 io sz part recs)
  show ?case
  proof (cases "take sz recs = []")
    case True
    then show ?thesis using "1.prems" by (simp add: shard_loop.simps [of io sz part recs])
  next
    case False
    then obtain rest where "shard_loop io sz (Suc part) (drop sz recs) = Inr rest" using 1 by auto
    then show ?thesis using "1.prems" False by (simp add: shard_loop.simps [of io sz part recs])
  qed
qed

lemma cuts_count: "cuts sz part recs parts \<Longrightarrow> parts \<noteq> [] \<Longrightarrow> (length parts - 1) * sz < length recs"
proof -
  assume c: "cuts sz part recs parts" and "parts \<noteq> []"
  then obtain ps p where parts: "parts = ps @ [p]" by (cases parts rule: rev_cases) simp_all
  have "length (concat (map snd ps)) = length ps * sz"
    using c parts by (simp add: cuts_def length_concat o_def list_all_iff sum_list_triv cong: map_cong)
  moreover have "0 < length (snd p)" using c parts by (simp add: cuts_def)
  moreover have "recs = concat (map snd ps) @ snd p" using c parts by (auto simp: cuts_def)
  ultimately show ?thesis using parts by simp
qed

lemma shard_size_pos: "0 < n \<Longrightarrow> 0 < shard_size mode n all"
proof -
  assume n: "0 < n"
  then have "0 \<le> go_div (int all + n - 1) n" by (simp add: go_div_nonneg pos_imp_zdiv_nonneg_iff)
  then show ?thesis using n by (simp add: shard_size_def shardRows_def Let_def)
qed

lemma parts_cover: "0 < n \<Longrightarrow> int all \<le> n * int (shard_size splitByParts n all)"
proof -
  assume n: "0 < n"
  define q where "q = (int all + n - 1) div n"
  have "int all + n - 1 = n * q + (int all + n - 1) mod n" by (simp add: q_def)
  moreover have "(int all + n - 1) mod n < n" using n by simp
  ultimately have lower: "int all \<le> n * q" by linarith
  have "0 \<le> q" using n by (simp add: q_def pos_imp_zdiv_nonneg_iff)
  moreover have "int (shard_size splitByParts n all) = (if q = 0 then 1 else q)"
    using n \<open>0 \<le> q\<close> by (simp add: shard_size_def shardRows_def Let_def go_div_nonneg q_def)
  ultimately show ?thesis using lower n by auto
qed

lemma parts_at_most:
  assumes "0 < n" "cuts (shard_size splitByParts n (length recs)) part recs parts"
  shows "int (length parts) \<le> n"
proof (cases "parts = []")
  case False
  let ?s = "shard_size splitByParts n (length recs)"
  have less: "int ((length parts - 1) * ?s) < n * int ?s"
    using cuts_count [OF assms(2) False] parts_cover [OF assms(1), of "length recs"] by linarith
  have "int (length parts - 1) < n"
  proof (rule ccontr)
    assume "\<not> int (length parts - 1) < n"
    then have "n * int ?s \<le> int (length parts - 1) * int ?s" by (intro mult_right_mono) simp_all
    then show False using less by simp
  qed
  then show ?thesis using False by (cases parts) simp_all
qed (use assms(1) in simp)

lemma parseSplit_positive: "parseSplit spec nodes = Inr (mode, n) \<Longrightarrow> 0 < n \<and> (mode = splitByParts \<longrightarrow> n \<le> max_shards)"
  by (auto simp: parseSplit_def Let_def max_shards_def split: if_splits option.splits)


definition all_made :: shard_io where
  "all_made = \<lparr>si_create = (\<lambda>_. True), si_flush = (\<lambda>_. True)\<rparr>"


text \<open>Five rows in four parts make three shards, so a task that reads \<open>PIPEDPEER_NUM_SHARDS\<close> sees 3.\<close>

lemma four_parts_make_three:
  "map_sum id (map snd) (shard_loop all_made (shard_size splitByParts 4 5) 0 [1, 2, 3, 4, 5 :: int]) = Inr [[1, 2], [3, 4], [5]]"
  by (simp add: shard_size_def shardRows_def go_div_def Let_def shard_loop.simps all_made_def numeral_2_eq_2)

text \<open>
  Two goroutines that assign before either runs: both run with the arguments and the results directory of the
  second task, and the first task's shard identity precedes the second's. With one slot the environments
  still pile up.
\<close>

definition two_tasks :: "MapTask list" where
  "two_tasks = [no_task\<lparr>mt_Args := [''a'']\<rparr>, no_task\<lparr>mt_Args := [''b''], mt_ShardID := 1\<rparr>]"

definition plain_options :: map_options where
  "plain_options = \<lparr>op_ResultsDir = [], op_JobSet = [], op_ScriptArgs = [], op_Envs = []\<rparr>"

definition ran_with :: "map_state \<Rightarrow> (string list \<times> string \<times> string list) option list" where
  "ran_with s = map (\<lambda>w. case w of Running b \<Rightarrow> Some (op_ScriptArgs b, op_ResultsDir b, op_Envs b) | _ \<Rightarrow> None) (mp_workers s)"

lemma tasks_run_with_each_others_arguments:
  "ran_with (fold (map_step two_tasks ''r'') (replicate 6 (0, True) @ replicate 6 (1, True) @ [(0, True), (1, True)])
     (map_start two_tasks plain_options 2))
   = (let envs = ShardEnvs 0 2 @ ShardEnvs 1 2
      in [Some ([''b''], ''r/task-1'', envs), Some ([''b''], ''r/task-1'', envs)])"
  by code_simp

lemma shard_envs_pile_up:
  "ran_with (fold (map_step two_tasks ''r'') (replicate 8 (0, True) @ replicate 7 (1, True)) (map_start two_tasks plain_options 1))
   = [None, Some ([''b''], ''r/task-1'', ShardEnvs 0 2 @ ShardEnvs 1 2)]"
  by code_simp

end
