(* ===== verification/History.thy ===== *)
theory History
  imports GoStrings "HOL-Library.List_Lexorder" "HOL-Library.Char_ord"
begin

text \<open>
  The records a submitter keeps of its runs: \<^verbatim>\<open>src/internal/jobhistory/history.go\<close>, \<^verbatim>\<open>states.go\<close>, the span of
  \<^verbatim>\<open>timeline.go\<close>, the sums of \<^verbatim>\<open>receipt.go\<close>, and the merge of \<^verbatim>\<open>clusterstats/stats.go\<close>. The directory is its
  list of entries in order of name, as \<open>ReadDir\<close> returns them; a record that does not parse is \<open>None\<close>. Time
  stamps are texts, as stored; how a time is printed and parsed is a parameter.
\<close>

subsection \<open>States\<close>

definition StateQueued :: string where "StateQueued = ''queued''"
definition StateReserved :: string where "StateReserved = ''reserved''"
definition StateRunning :: string where "StateRunning = ''running''"
definition StateSucceeded :: string where "StateSucceeded = ''succeeded''"
definition StateFailed :: string where "StateFailed = ''failed''"
definition StateCancelled :: string where "StateCancelled = ''cancelled''"
definition StateExpired :: string where "StateExpired = ''expired''"

lemmas state_names = StateQueued_def StateReserved_def StateRunning_def StateSucceeded_def StateFailed_def
  StateCancelled_def StateExpired_def

definition AllStates :: "string list" where
  "AllStates = [StateQueued, StateReserved, StateRunning, StateSucceeded, StateFailed, StateCancelled, StateExpired]"

definition validTransitions :: "(string \<times> string list) list" where
  "validTransitions =
     [(StateQueued, [StateReserved, StateCancelled]),
      (StateReserved, [StateRunning, StateExpired, StateCancelled]),
      (StateRunning, [StateSucceeded, StateFailed, StateCancelled]),
      (StateSucceeded, []), (StateFailed, []), (StateCancelled, []), (StateExpired, [])]"

definition IsTerminal :: "string \<Rightarrow> bool" where
  "IsTerminal s \<longleftrightarrow> s = StateSucceeded \<or> s = StateFailed \<or> s = StateCancelled \<or> s = StateExpired"

datatype transition_error = UnknownState string | InvalidTransition string string

definition ValidateTransition :: "string \<Rightarrow> string \<Rightarrow> transition_error option" where
  "ValidateTransition old new =
     (case map_of validTransitions old of
        None \<Rightarrow> Some (UnknownState old)
      | Some targets \<Rightarrow> if new \<in> set targets then None else Some (InvalidTransition old new))"

text \<open>A run passes at most three transitions.\<close>

definition stage_of :: "string \<Rightarrow> nat" where
  "stage_of s = (if s = StateQueued then 0 else if s = StateReserved then 1 else if s = StateRunning then 2 else 3)"

lemma transition_table:
  "list_all (\<lambda>(s, ts). s \<in> set AllStates \<and> (IsTerminal s \<longrightarrow> ts = [])
     \<and> list_all (\<lambda>t. t \<in> set AllStates \<and> stage_of s < stage_of t \<and> stage_of t \<le> 3) ts) validTransitions"
  by code_simp

lemma transition_ok:
  assumes "ValidateTransition s t = None"
  shows "s \<in> set AllStates \<and> t \<in> set AllStates \<and> \<not> IsTerminal s \<and> stage_of s < stage_of t \<and> stage_of t \<le> 3"
proof -
  obtain ts where ts: "map_of validTransitions s = Some ts" "t \<in> set ts"
    using assms by (auto simp: ValidateTransition_def split: option.splits if_splits)
  then have "(s, ts) \<in> set validTransitions" by (intro map_of_SomeD)
  then show ?thesis using transition_table ts(2) by (fastforce simp: list_all_iff)
qed

lemma terminal_is_final: "IsTerminal s \<Longrightarrow> ValidateTransition s t \<noteq> None"
  using transition_ok by blast

subsection \<open>Records\<close>

record stage =
  sg_Name :: string
  sg_Where :: string
  sg_At :: string
  sg_Ms :: int

text \<open>The fields of a record that this code reads or sets.\<close>

record run_record =
  ru_ID :: string
  ru_Status :: string
  ru_Error :: string
  ru_StartedAt :: string
  ru_FinishedAt :: string
  ru_DurationMs :: int
  ru_ScriptPath :: string
  ru_Args :: "string list"
  ru_Remote :: string
  ru_TargetID :: string
  ru_Detached :: bool
  ru_Isolate :: bool
  ru_JobName :: string
  ru_JobSet :: string
  ru_RunName :: string
  ru_PeakMemBytes :: int
  ru_Stage :: string
  ru_Stages :: "stage list"

definition no_record :: run_record where
  "no_record = \<lparr>ru_ID = [], ru_Status = [], ru_Error = [], ru_StartedAt = [], ru_FinishedAt = [], ru_DurationMs = 0,
     ru_ScriptPath = [], ru_Args = [], ru_Remote = [], ru_TargetID = [], ru_Detached = False, ru_Isolate = False,
     ru_JobName = [], ru_JobSet = [], ru_RunName = [], ru_PeakMemBytes = 0, ru_Stage = [], ru_Stages = []\<rparr>"

record dir_entry =
  de_Name :: string
  de_IsDir :: bool
  de_HasMeta :: bool
  de_Record :: "run_record option"
  de_ModTime :: int

text \<open>\<open>None\<close>: the directory cannot be read; \<open>Some []\<close> also stands for one that does not exist.\<close>

type_synonym history = "dir_entry list"

definition ReadRecord :: "history \<Rightarrow> string \<Rightarrow> run_record option" where
  "ReadRecord h i = Option.bind (find (\<lambda>e. de_Name e = i) h) de_Record"

text \<open>Storing a record replaces the one in the directory, or makes the directory where its name belongs.\<close>

fun put_entry :: "dir_entry \<Rightarrow> history \<Rightarrow> history" where
  "put_entry x [] = [x]"
| "put_entry x (e # h) = (if de_Name x = de_Name e then x # h else if de_Name x < de_Name e then x # e # h else e # put_entry x h)"

definition SaveRecord :: "int \<Rightarrow> string \<Rightarrow> run_record \<Rightarrow> history \<Rightarrow> history" where
  "SaveRecord now i r = put_entry \<lparr>de_Name = i, de_IsDir = True, de_HasMeta = True, de_Record = Some r, de_ModTime = now\<rparr>"

definition NewRecord ::
  "(int \<Rightarrow> string) \<Rightarrow> int \<Rightarrow> string \<Rightarrow> string \<Rightarrow> string \<Rightarrow> bool \<Rightarrow> bool \<Rightarrow> history \<Rightarrow> run_record \<times> history" where
  "NewRecord fmt now scriptPath remote targetID detached isolate h =
     (let i = decimal (nat now);
          r = no_record\<lparr>ru_ID := i, ru_Status := StateRunning, ru_StartedAt := fmt now, ru_ScriptPath := scriptPath,
                ru_Remote := remote, ru_TargetID := targetID, ru_Detached := detached, ru_Isolate := isolate\<rparr>
      in (r, SaveRecord now i r h))"

definition UpdateStage :: "int \<Rightarrow> string \<Rightarrow> string \<Rightarrow> history \<Rightarrow> history" where
  "UpdateStage now i st h = (case ReadRecord h i of None \<Rightarrow> h | Some r \<Rightarrow> SaveRecord now i (r\<lparr>ru_Stage := st\<rparr>) h)"

definition Transition :: "string \<Rightarrow> run_record \<Rightarrow> transition_error + run_record" where
  "Transition to r = (case ValidateTransition (ru_Status r) to of Some e \<Rightarrow> Inl e | None \<Rightarrow> Inr (r\<lparr>ru_Status := to\<rparr>))"

datatype run_error = NoError | ContextCanceled string | OtherError string

definition FinalizeAt ::
  "(int \<Rightarrow> string) \<Rightarrow> (string \<Rightarrow> int option) \<Rightarrow> int \<Rightarrow> string \<Rightarrow> run_record \<Rightarrow> run_error \<Rightarrow> int \<Rightarrow> history \<Rightarrow> history" where
  "FinalizeAt fmt parse now i r e finished h =
     (let r1 = r\<lparr>ru_FinishedAt := fmt finished\<rparr>;
          r2 = (case parse (ru_StartedAt r) of None \<Rightarrow> r1 | Some start \<Rightarrow> r1\<lparr>ru_DurationMs := go_div (finished - start) 1000000\<rparr>);
          r3 = (case e of ContextCanceled t \<Rightarrow> r2\<lparr>ru_Status := StateCancelled, ru_Error := t\<rparr>
                | OtherError t \<Rightarrow> r2\<lparr>ru_Status := StateFailed, ru_Error := t\<rparr>
                | NoError \<Rightarrow> r2\<lparr>ru_Status := StateSucceeded\<rparr>);
          r4 = (case ReadRecord h i of None \<Rightarrow> r3 | Some old \<Rightarrow> if ru_Stage old \<noteq> [] then r3\<lparr>ru_Stage := ru_Stage old\<rparr> else r3)
      in SaveRecord now i r4 h)"

definition Finalize ::
  "(int \<Rightarrow> string) \<Rightarrow> (string \<Rightarrow> int option) \<Rightarrow> int \<Rightarrow> string \<Rightarrow> run_record \<Rightarrow> run_error \<Rightarrow> history \<Rightarrow> history" where
  "Finalize fmt parse now i r e = FinalizeAt fmt parse now i r e now"

subsection \<open>Finding runs\<close>

definition ShortID :: "string \<Rightarrow> string" where
  "ShortID i = (if 8 < length i then drop (length i - 8) i else i)"

datatype resolve_error = IDRequired | NotFound string | Ambiguous string nat | Unreadable string

definition Resolve :: "history \<Rightarrow> string \<Rightarrow> resolve_error + run_record" where
  "Resolve h i =
     (if i = [] then Inl IDRequired
      else case ReadRecord h i of Some r \<Rightarrow> Inr r
        | None \<Rightarrow>
            (case filter (\<lambda>e. de_IsDir e \<and> (HasPrefix (de_Name e) i \<or> HasSuffix (de_Name e) i)) h of
               [] \<Rightarrow> Inl (NotFound i)
             | [e] \<Rightarrow> (case ReadRecord h (de_Name e) of None \<Rightarrow> Inl (Unreadable (de_Name e)) | Some r \<Rightarrow> Inr r)
             | es \<Rightarrow> Inl (Ambiguous i (length es))))"

record JobSummary =
  js_ID :: string
  js_Status :: string
  js_Stage :: string
  js_Detached :: bool
  js_JobName :: string
  js_JobSet :: string
  js_TargetID :: string
  js_ScriptPath :: string
  js_Remote :: string
  js_RunName :: string
  js_StartedAt :: string
  js_DurationMs :: int

definition summary_of :: "run_record \<Rightarrow> JobSummary" where
  "summary_of r = \<lparr>js_ID = ru_ID r, js_Status = ru_Status r, js_Stage = ru_Stage r, js_Detached = ru_Detached r,
     js_JobName = ru_JobName r, js_JobSet = ru_JobSet r, js_TargetID = ru_TargetID r, js_ScriptPath = ru_ScriptPath r,
     js_Remote = ru_Remote r, js_RunName = ru_RunName r, js_StartedAt = ru_StartedAt r, js_DurationMs = ru_DurationMs r\<rparr>"

definition records_in :: "history \<Rightarrow> run_record list" where
  "records_in h = List.map_filter (\<lambda>e. if de_IsDir e then ReadRecord h (de_Name e) else None) h"

text \<open>Texts are compared byte by byte, the larger first.\<close>

definition newest_first :: "('a \<Rightarrow> string) \<Rightarrow> 'a list \<Rightarrow> 'a list" where
  "newest_first stamp xs = rev (sort_key stamp (rev xs))"

definition at_most :: "int \<Rightarrow> 'a list \<Rightarrow> 'a list" where
  "at_most limit xs = (if 0 < limit \<and> limit < int (length xs) then take (nat limit) xs else xs)"

definition ListRuns :: "int \<Rightarrow> history \<Rightarrow> JobSummary list" where
  "ListRuns limit h = at_most limit (newest_first js_StartedAt (map summary_of (records_in h)))"

text \<open>The scan of \<open>QueryRuns\<close> goes over the names backwards, so the newest id comes first.\<close>

definition QueryRuns :: "history \<Rightarrow> string \<Rightarrow> nat \<Rightarrow> run_record list" where
  "QueryRuns h scriptPath limit =
     take limit (filter (\<lambda>r. ru_ScriptPath r = scriptPath \<and> 0 < ru_PeakMemBytes r)
       (List.map_filter (\<lambda>e. if de_IsDir e then ReadRecord h (de_Name e) else None) (rev h)))"

definition QueryPeakMem :: "history \<Rightarrow> string \<Rightarrow> nat \<Rightarrow> int list" where
  "QueryPeakMem h scriptPath limit = map ru_PeakMemBytes (QueryRuns h scriptPath limit)"

definition stale :: "int \<Rightarrow> dir_entry \<Rightarrow> bool" where
  "stale cutoff e \<longleftrightarrow> de_IsDir e \<and> de_HasMeta e \<and> de_ModTime e < cutoff"

definition Prune :: "int \<Rightarrow> int \<Rightarrow> history \<Rightarrow> history \<times> nat" where
  "Prune now olderThan h = (filter (\<lambda>e. \<not> stale (now - olderThan) e) h, length (filter (stale (now - olderThan)) h))"

subsection \<open>The timeline of a run\<close>

text \<open>Times in nanoseconds; a stage whose start does not parse is skipped.\<close>

definition span_step :: "(string \<Rightarrow> int option) \<Rightarrow> stage \<Rightarrow> (int \<times> int) option \<Rightarrow> (int \<times> int) option" where
  "span_step parse s acc =
     (case parse (sg_At s) of
        None \<Rightarrow> acc
      | Some begun \<Rightarrow>
          let fin = begun + sg_Ms s * 1000000
          in case acc of None \<Rightarrow> Some (begun, fin)
             | Some (a, b) \<Rightarrow> Some (if begun < a then begun else a, if b < fin then fin else b))"

definition span :: "(string \<Rightarrow> int option) \<Rightarrow> stage list \<Rightarrow> (int \<times> int) option" where
  "span parse stages = fold (span_step parse) stages None"

definition Total :: "(string \<Rightarrow> int option) \<Rightarrow> stage list \<Rightarrow> int" where
  "Total parse stages = (case span parse stages of None \<Rightarrow> 0 | Some (a, b) \<Rightarrow> b - a)"

subsection \<open>Receipts\<close>

record receipt_part =
  rp_Items :: int
  rp_Peers :: "(string \<times> int) list"

record receipt =
  rc_RemoteItems :: int
  rc_LocalItems :: int
  rc_Unshippable :: int
  rc_MappedItems :: int
  rc_RemoteUsed :: int
  rc_Parts :: "receipt_part list"

definition receipt_total :: "receipt \<Rightarrow> int" where
  "receipt_total r = (if 0 < rc_MappedItems r then rc_MappedItems r else rc_RemoteItems r + rc_LocalItems r)"

definition FromElsewhere :: "receipt \<Rightarrow> int" where
  "FromElsewhere r = (if 0 < rc_MappedItems r then min (rc_RemoteUsed r) (rc_MappedItems r) else rc_RemoteItems r)"

definition Raced :: "receipt \<Rightarrow> int" where
  "Raced r = (if rc_MappedItems r = 0 then 0 else max 0 (rc_RemoteItems r + rc_LocalItems r - rc_MappedItems r))"

definition peerItems :: "receipt \<Rightarrow> string \<Rightarrow> int" where
  "peerItems r peer = sum_list (map (\<lambda>p. case map_of (rp_Peers p) peer of None \<Rightarrow> 0 | Some n \<Rightarrow> n) (rc_Parts r))"

subsection \<open>The runs of several machines\<close>

text \<open>\<open>MergeJobs\<close> of the cluster view: all runs by start time, the newest kept.\<close>

definition MergeJobs :: "('a \<Rightarrow> string) \<Rightarrow> 'a list \<Rightarrow> int \<Rightarrow> 'a list" where
  "MergeJobs started jobs limit = at_most limit (newest_first started jobs)"

subsection \<open>Facts\<close>

definition names_sorted :: "history \<Rightarrow> bool" where
  "names_sorted h \<longleftrightarrow> sorted_wrt (\<lambda>a b. de_Name a < de_Name b) h"

lemma set_put_entry: "set (put_entry x h) \<subseteq> insert x (set h)"
  by (induction h) auto

lemma names_sorted_put: "names_sorted h \<Longrightarrow> names_sorted (put_entry x h)"
proof (induction h)
  case (Cons e h)
  then have rest: "names_sorted h" "\<forall>b \<in> set h. de_Name e < de_Name b" by (simp_all add: names_sorted_def)
  consider "de_Name x = de_Name e" | "de_Name x < de_Name e" | "de_Name e < de_Name x" by fastforce
  then show ?case
  proof cases
    case 1
    then show ?thesis using rest by (simp add: names_sorted_def)
  next
    case 2
    then show ?thesis using rest by (auto simp: names_sorted_def)
  next
    case 3
    then have "\<forall>b \<in> set (put_entry x h). de_Name e < de_Name b" using rest(2) set_put_entry [of x h] by auto
    then show ?thesis using Cons.IH [OF rest(1)] 3 by (auto simp: names_sorted_def)
  qed
qed (simp add: names_sorted_def)

lemma find_put_entry:
  "names_sorted h \<Longrightarrow> find (\<lambda>e. de_Name e = i) (put_entry x h) = (if de_Name x = i then Some x else find (\<lambda>e. de_Name e = i) h)"
proof (induction h)
  case (Cons e h)
  then have "\<forall>b \<in> set h. de_Name e < de_Name b" "names_sorted h" by (simp_all add: names_sorted_def)
  then show ?case using Cons.IH by auto
qed simp

text \<open>What was stored last under an id is what is read, and nothing else changes.\<close>

lemma read_saved: "names_sorted h \<Longrightarrow> ReadRecord (SaveRecord now i r h) j = (if i = j then Some r else ReadRecord h j)"
  by (simp add: ReadRecord_def SaveRecord_def find_put_entry)

lemma finalized_is_terminal:
  assumes "names_sorted h"
  shows "\<exists>r'. ReadRecord (FinalizeAt fmt parse now i r e finished h) i = Some r' \<and> IsTerminal (ru_Status r')
    \<and> ru_FinishedAt r' = fmt finished \<and> ru_ID r' = ru_ID r"
  using read_saved [OF assms]
  by (auto simp: FinalizeAt_def Let_def IsTerminal_def split: option.splits run_error.splits)

lemma query_bounds:
  "length (QueryRuns h s n) \<le> n" "r \<in> set (QueryRuns h s n) \<Longrightarrow> ru_ScriptPath r = s \<and> 0 < ru_PeakMemBytes r"
  by (auto simp: QueryRuns_def dest!: in_set_takeD)

lemma full_id_resolves: "i \<noteq> [] \<Longrightarrow> ReadRecord h i = Some r \<Longrightarrow> Resolve h i = Inr r"
  by (simp add: Resolve_def)

lemma resolved_matches:
  assumes "Resolve h i = Inr r"
  shows "\<exists>n. ReadRecord h n = Some r \<and> (n = i \<or> HasPrefix n i \<or> HasSuffix n i)"
proof (cases "ReadRecord h i")
  case None
  let ?es = "filter (\<lambda>e. de_IsDir e \<and> (HasPrefix (de_Name e) i \<or> HasSuffix (de_Name e) i)) h"
  obtain e where e: "?es = [e]" "ReadRecord h (de_Name e) = Some r"
    using assms None by (auto simp: Resolve_def split: if_splits list.splits option.splits)
  then have "e \<in> set ?es" by (simp only: list.set) simp
  then show ?thesis using e(2) by auto
qed (use assms in \<open>auto simp: Resolve_def split: if_splits\<close>)

lemma prune_counts: "fst (Prune now d h) = h \<longleftrightarrow> snd (Prune now d h) = 0"
  by (simp add: Prune_def filter_empty_conv filter_id_conv)

lemma prune_spares: "e \<in> set h \<Longrightarrow> \<not> de_HasMeta e \<Longrightarrow> e \<in> set (fst (Prune now d h))"
  by (simp add: Prune_def stale_def)

lemma elsewhere_at_most_total:
  "0 \<le> rc_LocalItems r \<Longrightarrow> FromElsewhere r \<le> receipt_total r"
  by (simp add: FromElsewhere_def receipt_total_def)

lemma span_covers:
  "fold (span_step parse) stages (Some (a, b)) = Some (c, d) \<Longrightarrow> c \<le> a \<and> b \<le> d
     \<and> (\<forall>s \<in> set stages. \<forall>begun. parse (sg_At s) = Some begun \<longrightarrow> c \<le> begun \<and> begun + sg_Ms s * 1000000 \<le> d)"
proof (induction stages arbitrary: a b)
  case (Cons s stages)
  show ?case
  proof (cases "parse (sg_At s)")
    case None
    then show ?thesis using Cons by (simp add: span_step_def)
  next
    case (Some begun)
    then have "span_step parse s (Some (a, b)) = Some (min begun a, max (begun + sg_Ms s * 1000000) b)"
      by (simp add: span_step_def Let_def min_def max_def)
    then have "fold (span_step parse) stages (Some (min begun a, max (begun + sg_Ms s * 1000000) b)) = Some (c, d)"
      using Cons.prems by simp
    from Cons.IH [OF this] show ?thesis using Some by auto
  qed
qed simp

subsection \<open>The order of time stamps\<close>

text \<open>
  RFC 3339 with nanoseconds as the code prints it, from the text of the seconds and the nine digits of the
  fraction: the fraction loses its trailing zeros, and is left out when it is zero.
\<close>

definition fraction_text :: "string \<Rightarrow> string" where
  "fraction_text digits =
     (let kept = rev (dropWhile (\<lambda>c. c = CHR ''0'') (rev digits)) in if kept = [] then [] else CHR ''.'' # kept)"

definition utc_stamp :: "string \<Rightarrow> string \<Rightarrow> string" where
  "utc_stamp seconds digits = seconds @ fraction_text digits @ ''Z''"

text \<open>
  Compared as texts, a run that started at half past a second counts as newer than one that started ten
  milliseconds later, and one that started on the second as newer than every other of that second.
\<close>

lemma half_second_sorts_late: "utc_stamp ''2026-01-01T00:00:00'' ''510000000'' < utc_stamp ''2026-01-01T00:00:00'' ''500000000''"
  by code_simp

lemma whole_second_sorts_last: "utc_stamp ''2026-01-01T00:00:00'' ''999999999'' < utc_stamp ''2026-01-01T00:00:00'' ''000000000''"
  by code_simp

end
