(* ===== verification/Estimate.thy ===== *)
theory Estimate
  imports History
begin

text \<open>
  How much memory a job is taken to need, \<^verbatim>\<open>src/internal/resourceest/estimator.go\<close>: what the user says, else the
  peaks of earlier runs, else the size of the data, else the libraries imported. \<open>Admit\<close> of the same file is in
  \<^theory_text>\<open>Lease\<close>. The file tree and the absolute path answer through parameters; byte counts are
  integers without overflow.
\<close>

subsection \<open>Baselines\<close>

definition KB :: int where "KB = 1024"
definition MB :: int where "MB = 1024 * KB"
definition GB :: int where "GB = 1024 * MB"
definition pythonBaseline :: int where "pythonBaseline = 100 * MB"
definition defaultEstimate :: int where "defaultEstimate = 512 * MB"
definition fileMultiplier :: int where "fileMultiplier = 3"
definition historyBuffer :: f64 where "historyBuffer = 12 / 10"
definition maxHistoryRuns :: nat where "maxHistoryRuns = 5"
definition peakDecay :: f64 where "peakDecay = 8 / 10"

definition libBaselines :: "(string \<times> int) list" where
  "libBaselines =
     [(''torch'', 2 * GB), (''tensorflow'', 3 * GB), (''keras'', 1 * GB), (''pandas'', 300 * MB), (''numpy'', 200 * MB),
      (''scipy'', 400 * MB), (''sklearn'', 500 * MB), (''matplotlib'', 200 * MB), (''opencv'', 300 * MB), (''PIL'', 150 * MB),
      (''sqlalchemy'', 100 * MB), (''celery'', 100 * MB), (''fastapi'', 80 * MB), (''django'', 150 * MB), (''flask'', 60 * MB)]"

text \<open>The loop over the imports: the ones seen, in lower case, and the sum.\<close>

fun baseline_loop :: "string list \<Rightarrow> string list \<Rightarrow> int \<Rightarrow> int" where
  "baseline_loop seen [] acc = acc"
| "baseline_loop seen (imp # imps) acc =
     (let i = ToLower imp
      in if i \<in> set seen then baseline_loop seen imps acc
         else baseline_loop (i # seen) imps (acc + (case map_of libBaselines i of None \<Rightarrow> 0 | Some b \<Rightarrow> b)))"

definition importBaseline :: "string list \<Rightarrow> int" where
  "importBaseline imports = baseline_loop [] imports 0"

subsection \<open>Files\<close>

datatype file_tree = RegularFile int | Directory "file_tree list" | UnreadableFile

text \<open>\<open>Walk\<close> passes over what it cannot read.\<close>

fun dirSize :: "file_tree \<Rightarrow> int" where
  "dirSize (RegularFile n) = n"
| "dirSize (Directory ts) = sum_list (map dirSize ts)"
| "dirSize UnreadableFile = 0"

definition sumFileSizes :: "(string \<Rightarrow> file_tree option) \<Rightarrow> string list \<Rightarrow> int" where
  "sumFileSizes stat paths = sum_list (map (\<lambda>p. case stat p of None \<Rightarrow> 0 | Some t \<Rightarrow> dirSize t) paths)"

subsection \<open>Earlier runs\<close>

fun decay_loop :: "f64 \<Rightarrow> f64 \<Rightarrow> int list \<Rightarrow> f64" where
  "decay_loop best w [] = best"
| "decay_loop best w (p # ps) = decay_loop (max best (of_int p * w)) (w * peakDecay) ps"

definition decayedPeak :: "int list \<Rightarrow> f64" where
  "decayedPeak newestFirst = decay_loop 0 1 newestFirst"

definition past_peaks :: "run_record list \<Rightarrow> string list \<Rightarrow> int list" where
  "past_peaks runs args =
     (let same = take maxHistoryRuns (filter (\<lambda>r. ru_Args r = args) runs)
      in map ru_PeakMemBytes (if same = [] then take maxHistoryRuns runs else same))"

definition historicalEstimate :: "(string \<Rightarrow> string option) \<Rightarrow> history \<Rightarrow> string \<Rightarrow> string list \<Rightarrow> int" where
  "historicalEstimate absolute h scriptPath args =
     (let absPath = (case absolute scriptPath of None \<Rightarrow> scriptPath | Some a \<Rightarrow> a);
          runs = QueryRuns h absPath 50
      in go_int (decayedPeak (past_peaks runs args) * historyBuffer))"

subsection \<open>The estimate\<close>

record EstimateOpts =
  eo_ScriptPath :: string
  eo_Args :: "string list"
  eo_DataFilePaths :: "string list"
  eo_Imports :: "string list"
  eo_UserMemBytes :: int

datatype tier = TierUser | TierHistorical | TierFilesize | TierImport

record ResourceReq =
  rq_MemBytes :: int
  rq_Tier :: tier

record estimate_world =
  ew_absolute :: "string \<Rightarrow> string option"
  ew_history :: history
  ew_stat :: "string \<Rightarrow> file_tree option"
  ew_imports :: "string \<Rightarrow> string list"

definition script_history :: "estimate_world \<Rightarrow> EstimateOpts \<Rightarrow> int" where
  "script_history w opts =
     (if eo_ScriptPath opts = [] then 0 else historicalEstimate (ew_absolute w) (ew_history w) (eo_ScriptPath opts) (eo_Args opts))"

definition Estimate :: "estimate_world \<Rightarrow> EstimateOpts \<Rightarrow> ResourceReq" where
  "Estimate w opts =
     (let est = script_history w opts;
          totalSize = sumFileSizes (ew_stat w) (eo_DataFilePaths opts);
          libBase = importBaseline (eo_Imports opts)
      in if 0 < eo_UserMemBytes opts then \<lparr>rq_MemBytes = eo_UserMemBytes opts, rq_Tier = TierUser\<rparr>
         else if 0 < est then \<lparr>rq_MemBytes = est, rq_Tier = TierHistorical\<rparr>
         else if eo_DataFilePaths opts \<noteq> [] \<and> 0 < totalSize
         then \<lparr>rq_MemBytes = totalSize * fileMultiplier + libBase + pythonBaseline, rq_Tier = TierFilesize\<rparr>
         else if eo_Imports opts \<noteq> [] \<and> 0 < libBase then \<lparr>rq_MemBytes = libBase + pythonBaseline, rq_Tier = TierImport\<rparr>
         else \<lparr>rq_MemBytes = defaultEstimate, rq_Tier = TierImport\<rparr>)"

definition EstimateForRun :: "estimate_world \<Rightarrow> string \<Rightarrow> string list \<Rightarrow> string list \<Rightarrow> int \<Rightarrow> ResourceReq" where
  "EstimateForRun w scriptPath args dataFiles userMem =
     Estimate w \<lparr>eo_ScriptPath = scriptPath, eo_Args = args, eo_DataFilePaths = dataFiles, eo_Imports = ew_imports w scriptPath,
       eo_UserMemBytes = userMem\<rparr>"

definition EstimateFromScript :: "estimate_world \<Rightarrow> string \<Rightarrow> string list \<Rightarrow> int \<Rightarrow> ResourceReq" where
  "EstimateFromScript w scriptPath dataFiles userMem = EstimateForRun w scriptPath [] dataFiles userMem"

subsection \<open>What an estimate promises\<close>

lemma sizes_pos [simp]: "0 < KB" "0 < MB" "0 < GB" by (simp_all add: KB_def MB_def GB_def)

lemma baselines_nonneg: "list_all (\<lambda>(k, b). 0 < b) libBaselines"
  by (simp add: libBaselines_def)

lemma baseline_loop_ge: "acc \<le> baseline_loop seen imps acc"
proof (induction seen imps acc rule: baseline_loop.induct)
  case (2 seen imp imps acc)
  define d where "d = (case map_of libBaselines (ToLower imp) of None \<Rightarrow> 0 | Some b \<Rightarrow> b)"
  have "0 \<le> d"
    using baselines_nonneg by (auto simp: d_def list_all_iff split: option.split dest!: map_of_SomeD)
  show ?case
  proof (cases "ToLower imp \<in> set seen")
    case True
    then show ?thesis using "2.IH"(1) by (simp add: Let_def)
  next
    case False
    then have "acc + d \<le> baseline_loop (ToLower imp # seen) imps (acc + d)"
      using "2.IH"(2) unfolding d_def by simp
    then have "acc \<le> baseline_loop (ToLower imp # seen) imps (acc + d)" using \<open>0 \<le> d\<close> by linarith
    then show ?thesis using False by (simp add: Let_def d_def)
  qed
qed simp

lemma importBaseline_nonneg: "0 \<le> importBaseline imps"
  using baseline_loop_ge [of 0 "[]" imps] by (simp add: importBaseline_def)

lemma decay_loop_ge: "best \<le> decay_loop best w ps"
  by (induction best w ps rule: decay_loop.induct) (auto intro: order_trans)

lemma decay_loop_le:
  "best \<le> c \<Longrightarrow> 0 \<le> w \<Longrightarrow> w \<le> 1 \<Longrightarrow> 0 \<le> c \<Longrightarrow> \<forall>p \<in> set ps. of_int p \<le> c \<Longrightarrow> decay_loop best w ps \<le> c"
proof (induction best w ps rule: decay_loop.induct)
  case (2 best w p ps)
  have "of_int p * w \<le> c"
  proof (cases "0 \<le> p")
    case True
    then have "of_int p * w \<le> of_int p * 1" using "2.prems" by (intro mult_left_mono) simp_all
    then show ?thesis using "2.prems"(5) by (auto intro: order_trans)
  next
    case False
    then have "of_int p * w \<le> 0" using "2.prems"(2) by (intro mult_nonpos_nonneg) simp_all
    then show ?thesis using "2.prems"(4) by linarith
  qed
  moreover have "w * peakDecay \<le> 1" using "2.prems"(2,3) by (simp add: peakDecay_def)
  ultimately show ?case using 2 by (simp add: peakDecay_def)
qed simp

lemma decayedPeak_bounds:
  assumes "ps \<noteq> []" "\<forall>p \<in> set ps. 0 < p \<and> p \<le> c"
  shows "of_int (hd ps) \<le> decayedPeak ps \<and> decayedPeak ps \<le> of_int c"
proof -
  obtain p qs where ps: "ps = p # qs" using assms(1) by (cases ps) simp_all
  have "of_int p \<le> decay_loop (max 0 (of_int p * 1)) (1 * peakDecay) qs"
    by (rule order_trans [OF _ decay_loop_ge]) simp
  moreover have "decay_loop 0 1 ps \<le> of_int c"
    using assms ps by (intro decay_loop_le) auto
  ultimately show ?thesis by (simp add: decayedPeak_def ps)
qed

text \<open>
  A script that ran before with the same arguments is taken to need 1.2 times its last peak at least, and
  1.2 times the largest of its last five peaks at most.
\<close>

theorem estimate_follows_history:
  fixes w :: estimate_world and opts :: EstimateOpts
  defines "runs \<equiv> QueryRuns (ew_history w) (case ew_absolute w (eo_ScriptPath opts) of None \<Rightarrow> eo_ScriptPath opts | Some a \<Rightarrow> a) 50"
  defines "same \<equiv> take maxHistoryRuns (filter (\<lambda>r. ru_Args r = eo_Args opts) runs)"
  assumes "eo_UserMemBytes opts \<le> 0" "eo_ScriptPath opts \<noteq> []" "same \<noteq> []"
  shows "rq_Tier (Estimate w opts) = TierHistorical
    \<and> \<lfloor>of_int (ru_PeakMemBytes (hd same)) * historyBuffer\<rfloor> \<le> rq_MemBytes (Estimate w opts)
    \<and> rq_MemBytes (Estimate w opts) \<le> \<lfloor>of_int (Max (ru_PeakMemBytes ` set same)) * historyBuffer\<rfloor>"
proof -
  let ?ps = "map ru_PeakMemBytes same"
  have peak: "0 < ru_PeakMemBytes r \<and> ru_PeakMemBytes r \<le> Max (ru_PeakMemBytes ` set same)" if "r \<in> set same" for r
    using that query_bounds(2) by (auto simp: same_def runs_def dest!: in_set_takeD)
  have bounds: "of_int (hd ?ps) \<le> decayedPeak ?ps" "decayedPeak ?ps \<le> of_int (Max (ru_PeakMemBytes ` set same))"
    using decayedPeak_bounds [of ?ps "Max (ru_PeakMemBytes ` set same)"] assms(5) peak by auto
  have hd: "hd ?ps = ru_PeakMemBytes (hd same)" "0 < ru_PeakMemBytes (hd same)"
    using assms(5) peak [of "hd same"] by (simp_all add: hd_map)
  have est: "script_history w opts = \<lfloor>decayedPeak ?ps * historyBuffer\<rfloor>"
    using bounds(1) hd assms(3-5) unfolding script_history_def historicalEstimate_def past_peaks_def Let_def
    by (simp add: go_int_nonneg historyBuffer_def same_def [symmetric] runs_def [symmetric])
  have low: "of_int (ru_PeakMemBytes (hd same)) * historyBuffer \<le> decayedPeak ?ps * historyBuffer"
    using bounds(1) hd(1) by (simp add: historyBuffer_def)
  have "1 \<le> of_int (ru_PeakMemBytes (hd same)) * historyBuffer"
    using hd(2) by (simp add: historyBuffer_def)
  then have "1 \<le> \<lfloor>decayedPeak ?ps * historyBuffer\<rfloor>" using low by (simp add: le_floor_iff)
  then have "Estimate w opts = \<lparr>rq_MemBytes = \<lfloor>decayedPeak ?ps * historyBuffer\<rfloor>, rq_Tier = TierHistorical\<rparr>"
    using assms(3) est by (simp add: Estimate_def Let_def)
  moreover have "decayedPeak ?ps * historyBuffer \<le> of_int (Max (ru_PeakMemBytes ` set same)) * historyBuffer"
    using bounds(2) by (simp add: historyBuffer_def)
  ultimately show ?thesis using low by (simp add: floor_mono)
qed

lemma estimate_positive: "0 < rq_MemBytes (Estimate w opts)"
  using importBaseline_nonneg [of "eo_Imports opts"]
  by (simp add: Estimate_def Let_def fileMultiplier_def pythonBaseline_def defaultEstimate_def add_pos_nonneg add_nonneg_pos)

lemma user_estimate_wins: "0 < eo_UserMemBytes opts \<Longrightarrow> Estimate w opts = \<lparr>rq_MemBytes = eo_UserMemBytes opts, rq_Tier = TierUser\<rparr>"
  by (simp add: Estimate_def)

text \<open>The names are looked up in lower case, and the entry of Pillow is not, so it never counts.\<close>

lemma PIL_never_counts: "importBaseline [''PIL''] = 0"
  by code_simp

end
