(* ===== verification/NatType.thy ===== *)
theory NatType
  imports Wire
begin

text \<open>
  How the router in front of this machine maps and filters, \<^verbatim>\<open>src/internal/nattype/nattype.go\<close>, and the STUN
  messages it is asked with, \<^verbatim>\<open>stun.go\<close>. A slice or an index out of range is a panic, the outer \<open>None\<close>. What a socket
  and the resolver answer are arguments, in the order of the calls; deadlines show as failed reads. The JSON of
  the reflector's messages is taken decoded.
\<close>

unbundle bit_operations_syntax

subsection \<open>Bytes\<close>

definition be16 :: "16 word \<Rightarrow> byte list" where
  "be16 n = [ucast (drop_bit 8 n), ucast n]"

definition rd16 :: "byte list \<Rightarrow> nat \<Rightarrow> 16 word option" where
  "rd16 bs i = (if i + 2 \<le> length bs then Some (push_bit 8 (ucast (bs ! i)) OR ucast (bs ! (i + 1))) else None)"

definition rd32 :: "byte list \<Rightarrow> nat \<Rightarrow> 32 word option" where
  "rd32 bs i = (if i + 4 \<le> length bs then Some (from_be32 (take 4 (drop i bs))) else None)"

definition sub_list :: "byte list \<Rightarrow> nat \<Rightarrow> nat \<Rightarrow> byte list option" where
  "sub_list bs i j = (if i \<le> j \<and> j \<le> length bs then Some (take (j - i) (drop i bs)) else None)"

definition dotted :: "32 word \<Rightarrow> string" where
  "dotted a = decimal (unat (drop_bit 24 a)) @ ''.'' @ decimal (unat (drop_bit 16 a AND 255)) @ ''.''
     @ decimal (unat (drop_bit 8 a AND 255)) @ ''.'' @ decimal (unat (a AND 255))"

definition host_port :: "32 word \<Rightarrow> 16 word \<Rightarrow> string" where
  "host_port a p = dotted a @ '':'' @ decimal (unat p)"

subsection \<open>STUN\<close>

definition stunBindingRequest :: "16 word" where "stunBindingRequest = 0x0001"
definition stunBindingResponse :: "16 word" where "stunBindingResponse = 0x0101"
definition stunMagicCookie :: "32 word" where "stunMagicCookie = 0x2112A442"
definition attrMappedAddress :: "16 word" where "attrMappedAddress = 0x0001"
definition attrXorMappedAddr :: "16 word" where "attrXorMappedAddr = 0x0020"

datatype stun_error = ShortReply nat | NotAResponse | WrongCookie | OtherTransaction | NoMappedAddress
  | ShortAttribute | IPv6Mapped | UnknownFamily "8 word" | UnsupportedMapped

definition stunRequest :: "byte list \<Rightarrow> byte list" where
  "stunRequest tid = be16 stunBindingRequest @ be16 0 @ be32 stunMagicCookie @ tid"

definition parseXorMapped :: "byte list \<Rightarrow> (stun_error + 32 word \<times> 16 word) option" where
  "parseXorMapped v =
     (if length v < 8 then Some (Inl ShortAttribute)
      else case (rd16 v 2, rd32 v 4) of
          (Some p, Some a) \<Rightarrow>
            Some (if v ! 1 = 0x01 then Inr (a XOR stunMagicCookie, p XOR ucast (drop_bit 16 stunMagicCookie))
                  else if v ! 1 = 0x02 then Inl IPv6Mapped else Inl (UnknownFamily (v ! 1)))
        | _ \<Rightarrow> None)"

definition parseMapped :: "byte list \<Rightarrow> (stun_error + 32 word \<times> 16 word) option" where
  "parseMapped v =
     (if length v < 8 \<or> v ! 1 \<noteq> 0x01 then Some (Inl UnsupportedMapped)
      else case (rd16 v 2, rd32 v 4) of (Some p, Some a) \<Rightarrow> Some (Inr (a, p)) | _ \<Rightarrow> None)"

definition attr_value :: "16 word \<Rightarrow> byte list \<Rightarrow> (stun_error + 32 word \<times> 16 word) option" where
  "attr_value ty v =
     (if ty = attrXorMappedAddr then parseXorMapped v
      else if ty = attrMappedAddress then parseMapped v
      else Some (Inl NoMappedAddress))"

definition advance :: "nat \<Rightarrow> nat" where
  "advance alen = 4 + alen + (if alen mod 4 \<noteq> 0 then 4 - alen mod 4 else 0)"

text \<open>The loop over the attributes.\<close>

function stun_attrs :: "byte list \<Rightarrow> (stun_error + 32 word \<times> 16 word) option" where
  "stun_attrs body =
     (if length body < 4 then Some (Inl NoMappedAddress)
      else case (rd16 body 0, rd16 body 2) of
          (Some ty, Some n) \<Rightarrow>
            if length body < 4 + unat n then Some (Inl NoMappedAddress)
            else (case sub_list body 4 (4 + unat n) of
                None \<Rightarrow> None
              | Some v \<Rightarrow>
                  (case attr_value ty v of
                     None \<Rightarrow> None
                   | Some (Inr a) \<Rightarrow> Some (Inr a)
                   | Some (Inl e) \<Rightarrow>
                       if length body < advance (unat n) then Some (Inl NoMappedAddress)
                       else stun_attrs (drop (advance (unat n)) body)))
        | _ \<Rightarrow> None)"
  by pat_completeness auto
termination by (relation "measure length") (auto simp: advance_def)

declare stun_attrs.simps [simp del]

definition stunParse :: "byte list \<Rightarrow> byte list \<Rightarrow> (stun_error + 32 word \<times> 16 word) option" where
  "stunParse msg tid =
     (if length msg < 20 then Some (Inl (ShortReply (length msg)))
      else case (rd16 msg 0, rd32 msg 4, rd16 msg 2) of
          (Some ty, Some cookie, Some n) \<Rightarrow>
            if ty \<noteq> stunBindingResponse then Some (Inl NotAResponse)
            else if cookie \<noteq> stunMagicCookie then Some (Inl WrongCookie)
            else if take 12 (drop 8 msg) \<noteq> tid then Some (Inl OtherTransaction)
            else
              let len = (if length msg < 20 + unat n then length msg - 20 else unat n)
              in (case sub_list msg 20 (20 + len) of None \<Rightarrow> None | Some body \<Rightarrow> stun_attrs body)
        | _ \<Rightarrow> None)"

subsection \<open>The probe\<close>

datatype mapping = EndpointIndependent | AddressDependent | UnknownMapping
datatype filtering = FilterOpen | FilterRestricted | FilterUnknown

record probe_result =
  pr_Mapping :: mapping
  pr_External :: string
  pr_Seen :: "string list"
  pr_Blocked :: bool
  pr_Filter :: filtering

record reflection =
  rf_You :: string
  rf_From :: string
  rf_Ack :: bool

text \<open>One attempt: whether the datagram was written, what was read.\<close>

type_synonym 'a attempt = "bool \<times> 'a option"

text \<open>Three attempts, each with its own transaction.\<close>

fun stun_tries :: "(byte list \<times> byte list attempt) list \<Rightarrow> (string option) option" where
  "stun_tries [] = Some None"
| "stun_tries ((tid, written, got) # xs) =
     (case (if written then got else None) of
        None \<Rightarrow> stun_tries xs
      | Some msg \<Rightarrow>
          (case stunParse msg tid of
             None \<Rightarrow> None
           | Some (Inl e) \<Rightarrow> stun_tries xs
           | Some (Inr (a, p)) \<Rightarrow> Some (Some (host_port a p))))"

definition stunOnce :: "(byte list \<times> byte list attempt) list \<Rightarrow> (string option) option" where
  "stunOnce xs = stun_tries (take 3 xs)"

fun reflect_tries :: "reflection option attempt list \<Rightarrow> string option" where
  "reflect_tries [] = None"
| "reflect_tries ((written, got) # xs) =
     (case (if written then got else None) of
        Some (Some r) \<Rightarrow> if rf_You r \<noteq> [] then Some (rf_You r) else reflect_tries xs
      | _ \<Rightarrow> reflect_tries xs)"

definition reflectOnce :: "reflection option attempt list \<Rightarrow> string option" where
  "reflectOnce xs = reflect_tries (take 3 xs)"

text \<open>
  The filter test: up to four reads an attempt, each the sender's port and the decoded message. The result is the
  verdict, or whether the reflector has acknowledged so far.
\<close>

fun filter_reads :: "16 word \<Rightarrow> bool \<Rightarrow> (16 word \<times> reflection option) option list \<Rightarrow> filtering + bool" where
  "filter_reads port acked [] = Inr acked"
| "filter_reads port acked (None # rs) = Inr acked"
| "filter_reads port acked (Some (from_port, got) # rs) =
     (case got of
        None \<Rightarrow> filter_reads port acked rs
      | Some r \<Rightarrow>
          if rf_From r = [] then filter_reads port acked rs
          else if rf_Ack r \<and> from_port = port then filter_reads port True rs
          else if from_port \<noteq> port then Inl FilterOpen
          else filter_reads port acked rs)"

fun filter_tries :: "16 word \<Rightarrow> bool \<Rightarrow> (bool \<times> (16 word \<times> reflection option) option list) list \<Rightarrow> filtering option" where
  "filter_tries port acked [] = None"
| "filter_tries port acked ((written, reads) # xs) =
     (if \<not> written then filter_tries port acked xs
      else case filter_reads port acked (take 4 reads) of
          Inl f \<Rightarrow> Some f
        | Inr True \<Rightarrow> Some FilterRestricted
        | Inr False \<Rightarrow> filter_tries port False xs)"

definition filterTest :: "16 word \<Rightarrow> (bool \<times> (16 word \<times> reflection option) option list) list \<Rightarrow> filtering option" where
  "filterTest port xs = filter_tries port False (take 3 xs)"

text \<open>What asking one server brings: it may not resolve, answer STUN, or answer as a reflector.\<close>

record server_answers =
  sa_port :: "16 word option"
  sa_filter :: "(bool \<times> (16 word \<times> reflection option) option list) list"
  sa_stun :: "(byte list \<times> byte list attempt) list"
  sa_reflect :: "reflection option attempt list"

definition external_of :: "server_answers \<Rightarrow> (string option) option" where
  "external_of s =
     (if sa_port s = None then Some None
      else case stunOnce (sa_stun s) of
          None \<Rightarrow> None
        | Some (Some e) \<Rightarrow> Some (if e \<noteq> [] then Some e else reflectOnce (sa_reflect s))
        | Some None \<Rightarrow> Some (reflectOnce (sa_reflect s)))"

fun seen_loop :: "string list \<Rightarrow> server_answers list \<Rightarrow> string list option" where
  "seen_loop order [] = Some order"
| "seen_loop order (s # ss) =
     (case external_of s of
        None \<Rightarrow> None
      | Some (Some e) \<Rightarrow> seen_loop (if e = [] \<or> e \<in> set order then order else order @ [e]) ss
      | Some None \<Rightarrow> seen_loop order ss)"

definition classify :: "string list \<Rightarrow> filtering \<Rightarrow> probe_result" where
  "classify order f =
     \<lparr>pr_Mapping = (if order = [] then UnknownMapping else if length order = 1 then EndpointIndependent else AddressDependent),
      pr_External = (case order of [] \<Rightarrow> [] | e # es \<Rightarrow> e), pr_Seen = order, pr_Blocked = (order = []), pr_Filter = f\<rparr>"

datatype probe_error = TooFewServers nat | NoLocalPort

definition Probe :: "bool \<Rightarrow> server_answers list \<Rightarrow> (probe_error + probe_result) option" where
  "Probe bound servers =
     (if length servers < 2 then Some (Inl (TooFewServers (length servers)))
      else if \<not> bound then Some (Inl NoLocalPort)
      else
        let s = hd servers;
            f = (case sa_port s of None \<Rightarrow> FilterUnknown
                 | Some port \<Rightarrow> (case filterTest port (sa_filter s) of None \<Rightarrow> FilterUnknown | Some f \<Rightarrow> f))
        in map_option (\<lambda>order. Inr (classify order f)) (seen_loop [] servers))"

text \<open>The reflector: what it sends back for one datagram, and from which of its two sockets.\<close>

definition reflect_replies :: "bool option \<Rightarrow> string \<Rightarrow> string \<Rightarrow> string option \<Rightarrow> (bool \<times> reflection) list" where
  "reflect_replies fromOther sender own other =
     (case (fromOther, other) of
        (Some True, Some o2) \<Rightarrow>
          [(True, \<lparr>rf_You = sender, rf_From = own, rf_Ack = True\<rparr>), (False, \<lparr>rf_You = sender, rf_From = o2, rf_Ack = False\<rparr>)]
      | _ \<Rightarrow> [(True, \<lparr>rf_You = sender, rf_From = own, rf_Ack = False\<rparr>)])"

subsection \<open>No reply makes the parser panic\<close>

lemma rd16_Some: "i + 2 \<le> length bs \<Longrightarrow> \<exists>w. rd16 bs i = Some w" by (simp add: rd16_def)
lemma rd32_Some: "i + 4 \<le> length bs \<Longrightarrow> \<exists>w. rd32 bs i = Some w" by (simp add: rd32_def)

lemma attr_value_total: "attr_value ty v \<noteq> None"
  by (simp add: attr_value_def parseXorMapped_def parseMapped_def rd16_def rd32_def)

lemma stun_attrs_total: "stun_attrs body \<noteq> None"
proof (induction body rule: stun_attrs.induct)
  case (1 body)
  show ?case
  proof (cases "length body < 4")
    case True
    then show ?thesis by (simp add: stun_attrs.simps [of body])
  next
    case False
    then obtain ty n where w: "rd16 body 0 = Some ty" "rd16 body 2 = Some n" by (simp add: rd16_def)
    show ?thesis
    proof (cases "length body < 4 + unat n")
      case True
      then show ?thesis using w by (simp add: stun_attrs.simps [of body])
    next
      case short: False
      then obtain v where v: "sub_list body 4 (4 + unat n) = Some v" by (simp add: sub_list_def)
      obtain r where r: "attr_value ty v = Some r" using attr_value_total [of ty v] by auto
      show ?thesis
      proof (cases r)
        case (Inl e)
        show ?thesis
        proof (cases "length body < advance (unat n)")
          case True
          then show ?thesis using w v r Inl by (subst stun_attrs.simps) simp
        next
          case False
          then have "stun_attrs (drop (advance (unat n)) body) \<noteq> None"
            using 1 \<open>\<not> length body < 4\<close> short w v r Inl by simp
          then show ?thesis using w v r Inl by (subst stun_attrs.simps) simp
        qed
      next
        case (Inr a)
        then show ?thesis using w v r by (subst stun_attrs.simps) simp
      qed
    qed
  qed
qed

lemma stunParse_total: "stunParse msg tid \<noteq> None"
  using stun_attrs_total by (auto simp: stunParse_def rd16_def rd32_def sub_list_def Let_def)

subsection \<open>A reply made by a server\<close>

lemma bytes_16: "push_bit 8 (ucast (ucast (drop_bit 8 w) :: byte)) OR ucast (ucast w :: byte) = (w :: 16 word)"
  by (rule bit_word_eqI) (auto simp: bit_simps)

lemma length_be16 [simp]: "length (be16 w) = 2" by (simp add: be16_def)

lemma rd16_be16: "rd16 (xs @ be16 w @ ys) (length xs) = Some w"
proof -
  have "(xs @ be16 w @ ys) ! length xs = ucast (drop_bit 8 w)" "(xs @ be16 w @ ys) ! Suc (length xs) = ucast w"
    by (simp_all add: be16_def nth_append)
  then show ?thesis by (simp add: rd16_def bytes_16)
qed

lemma rd32_be32: "rd32 (xs @ be32 w @ ys) (length xs) = Some w"
  by (simp add: rd32_def from_be32_be32)

text \<open>An attribute on the wire, padded to a multiple of four, and the value of an XOR-mapped IPv4 address.\<close>

definition put_attr :: "16 word \<Rightarrow> byte list \<Rightarrow> byte list" where
  "put_attr ty v = be16 ty @ be16 (of_nat (length v)) @ v @ replicate (advance (length v) - (4 + length v)) 0"

definition xor_mapped :: "32 word \<Rightarrow> 16 word \<Rightarrow> byte list" where
  "xor_mapped a p = [0, 0x01] @ be16 (p XOR ucast (drop_bit 16 stunMagicCookie)) @ be32 (a XOR stunMagicCookie)"

definition binding_response :: "byte list \<Rightarrow> byte list \<Rightarrow> byte list" where
  "binding_response tid body = be16 stunBindingResponse @ be16 (of_nat (length body)) @ be32 stunMagicCookie @ tid @ body"

definition plain_attr :: "16 word \<times> byte list \<Rightarrow> bool" where
  "plain_attr = (\<lambda>(ty, v). ty \<noteq> attrXorMappedAddr \<and> ty \<noteq> attrMappedAddress \<and> length v < 2 ^ 16)"

lemma length_put_attr: "length (put_attr ty v) = advance (length v)"
  by (simp add: put_attr_def advance_def)

lemma unat_16: "n < 2 ^ 16 \<Longrightarrow> unat (of_nat n :: 16 word) = n"
  by (simp add: unat_of_nat take_bit_nat_eq_self)

lemma attr_reads:
  assumes "length v < 2 ^ 16"
  shows "rd16 (put_attr ty v @ rest) 0 = Some ty" "rd16 (put_attr ty v @ rest) 2 = Some (of_nat (length v))"
    "sub_list (put_attr ty v @ rest) 4 (4 + length v) = Some v" "\<not> length (put_attr ty v @ rest) < 4 + length v"
proof -
  show "rd16 (put_attr ty v @ rest) 0 = Some ty"
    using rd16_be16 [of "[]"] by (simp add: put_attr_def)
  show "rd16 (put_attr ty v @ rest) 2 = Some (of_nat (length v))"
    using rd16_be16 [of "be16 ty"] by (simp add: put_attr_def)
  show "sub_list (put_attr ty v @ rest) 4 (4 + length v) = Some v"
    by (simp add: put_attr_def sub_list_def)
  show "\<not> length (put_attr ty v @ rest) < 4 + length v" by (simp add: put_attr_def)
qed

lemma stun_attrs_step:
  assumes "length v < 2 ^ 16"
  shows "stun_attrs (put_attr ty v @ rest) =
    (case attr_value ty v of None \<Rightarrow> None | Some (Inr a) \<Rightarrow> Some (Inr a) | Some (Inl e) \<Rightarrow> stun_attrs rest)"
proof -
  have "\<not> length (put_attr ty v @ rest) < 4" by (simp add: put_attr_def)
  moreover have "\<not> length (put_attr ty v @ rest) < advance (length v)" by (simp add: length_put_attr)
  moreover have "drop (advance (length v)) (put_attr ty v @ rest) = rest" by (simp add: length_put_attr)
  ultimately show ?thesis
    using attr_reads [OF assms, of ty rest] by (subst stun_attrs.simps) (simp add: unat_16 [OF assms] split: option.split sum.split)
qed

lemma xor_mapped_value: "attr_value attrXorMappedAddr (xor_mapped a p) = Some (Inr (a, p))"
proof -
  have "rd16 (xor_mapped a p) 2 = Some (p XOR ucast (drop_bit 16 stunMagicCookie))"
    using rd16_be16 [of "[0, 0x01]"] by (simp add: xor_mapped_def numeral_2_eq_2)
  moreover have "rd32 (xor_mapped a p) 4 = Some (a XOR stunMagicCookie)"
    using rd32_be32 [of "[0, 0x01] @ be16 (p XOR ucast (drop_bit 16 stunMagicCookie))" "a XOR stunMagicCookie" "[]"]
    by (simp add: xor_mapped_def)
  moreover have "length (xor_mapped a p) = 8" "xor_mapped a p ! 1 = 0x01" by (simp_all add: xor_mapped_def be32_def)
  ultimately show ?thesis by (simp add: attr_value_def parseXorMapped_def xor.assoc)
qed

lemma stun_attrs_finds:
  assumes "list_all plain_attr attrs"
  shows "stun_attrs (concat (map (\<lambda>(ty, v). put_attr ty v) attrs) @ put_attr attrXorMappedAddr (xor_mapped a p) @ rest) = Some (Inr (a, p))"
  using assms
proof (induction attrs)
  case Nil
  have "length (xor_mapped a p) < 2 ^ 16" by (simp add: xor_mapped_def be32_def)
  then show ?case by (simp add: stun_attrs_step xor_mapped_value)
next
  case (Cons x attrs)
  obtain ty v where x: "x = (ty, v)" by fastforce
  have plain: "ty \<noteq> attrXorMappedAddr" "ty \<noteq> attrMappedAddress" "length v < 2 ^ 16" using Cons.prems x by (simp_all add: plain_attr_def)
  then have "attr_value ty v = Some (Inl NoMappedAddress)" by (simp add: attr_value_def)
  then show ?case using Cons.IH Cons.prems x stun_attrs_step [OF plain(3)] by simp
qed

lemma response_reads:
  assumes "length tid = 12" "length body < 2 ^ 16"
  shows "stunParse (binding_response tid body) tid' = (if tid = tid' then stun_attrs body else Some (Inl OtherTransaction))"
proof -
  let ?m = "binding_response tid body"
  have "rd16 ?m 0 = Some stunBindingResponse" using rd16_be16 [of "[]"] by (simp add: binding_response_def)
  moreover have "rd16 ?m 2 = Some (of_nat (length body))" using rd16_be16 [of "be16 stunBindingResponse"] by (simp add: binding_response_def)
  moreover have "rd32 ?m 4 = Some stunMagicCookie"
    using rd32_be32 [of "be16 stunBindingResponse @ be16 (of_nat (length body))"] by (simp add: binding_response_def)
  moreover have "take 12 (drop 8 ?m) = tid" using assms(1) by (simp add: binding_response_def)
  moreover have "length ?m = 20 + length body" "sub_list ?m 20 (20 + length body) = Some body"
    using assms(1) by (simp_all add: binding_response_def sub_list_def)
  ultimately show ?thesis by (cases "tid = tid'") (simp_all add: stunParse_def unat_16 [OF assms(2)])
qed

text \<open>The address a server mapped this machine to comes out of its reply, behind any other attributes,
  when and only when the reply is to this request.\<close>

theorem stun_reply_roundtrip:
  assumes "length tid = 12" "list_all plain_attr attrs"
    and "body = concat (map (\<lambda>(ty, v). put_attr ty v) attrs) @ put_attr attrXorMappedAddr (xor_mapped a p) @ rest" "length body < 2 ^ 16"
  shows "stunParse (binding_response tid body) tid' = Some (if tid = tid' then Inr (a, p) else Inl OtherTransaction)"
  using response_reads [OF assms(1,4)] stun_attrs_finds [OF assms(2)] assms(3) by simp

theorem stun_reply_roundtrip_witness:
  "stunParse (binding_response (replicate 12 7) (put_attr 0x8022 [1, 2, 3] @ put_attr attrXorMappedAddr (xor_mapped 0x01020304 4711)))
     (replicate 12 7) = Some (Inr (0x01020304, 4711))"
  using stun_reply_roundtrip [of "replicate 12 7" "[(0x8022, [1, 2, 3])]"
      "put_attr 0x8022 [1, 2, 3] @ put_attr attrXorMappedAddr (xor_mapped 0x01020304 4711)" "0x01020304" 4711 "[]" "replicate 12 7"]
  by (simp add: plain_attr_def attrXorMappedAddr_def attrMappedAddress_def length_put_attr advance_def xor_mapped_def be32_def)

text \<open>A server that cannot run the filter test never gets the verdict open: some datagram has to come from another port.\<close>

lemma open_needs_a_stranger:
  "filter_reads port acked rs = Inl f \<Longrightarrow> f = FilterOpen \<and> (\<exists>q r. Some (q, Some r) \<in> set rs \<and> q \<noteq> port \<and> rf_From r \<noteq> [])"
proof (induction port acked rs rule: filter_reads.induct)
  case (3 port acked from_port got rs)
  then show ?case by (auto split: option.splits if_splits)
qed simp_all

text \<open>One answer, from either of two servers, is called endpoint-independent.\<close>

lemma one_answer_is_called_independent:
  "map_option (map_sum id pr_Mapping) (Probe True
     [\<lparr>sa_port = Some 1, sa_filter = [], sa_stun = [], sa_reflect = [(True, Some (Some \<lparr>rf_You = ''a'', rf_From = [], rf_Ack = False\<rparr>))]\<rparr>,
      \<lparr>sa_port = Some 2, sa_filter = [], sa_stun = [], sa_reflect = []\<rparr>]) = Some (Inr EndpointIndependent)"
  by code_simp

end
