(* ===== verification/DdpPlan.thy ===== *)
theory DdpPlan
  imports DdpPlace FindNode
begin

text \<open>
  The plan of a training run, \<^verbatim>\<open>src/ddp_plan.go\<close>, and the ring that \<open>runDDP\<close> of \<^verbatim>\<open>src/ddp_cmd.go\<close>
  assembles from it: which nodes may take a rank, how many ranks fit and why a node is turned down,
  the ring that the placement chooses, its lead, the addresses at which each rank reaches the others
  and the environment each rank is started with. What the daemons answer, the route of the machine
  (\<open>localIPFor\<close>) and the environment variables of the command are arguments.
\<close>

subsection \<open>Names and addresses\<close>

definition Itoa :: "int \<Rightarrow> string" where
  "Itoa i = (if i < 0 then CHR ''-'' # decimal (nat (- i)) else decimal (nat i))"

definition JoinHostPort :: "string \<Rightarrow> int \<Rightarrow> string" where
  "JoinHostPort host port = (if CHR '':'' \<in> set host then ''['' @ host @ '']:'' else host @ '':'') @ Itoa port"

definition shortID :: "string \<Rightarrow> string" where
  "shortID i = (if 8 < length i then take 8 i else if i = [] then ''-'' else i)"

definition ddpExtractHost :: "string \<Rightarrow> string" where
  "ddpExtractHost endpoint =
     (let s = (case Cut (CHR ''@'') endpoint of None \<Rightarrow> endpoint | Some (_, rest) \<Rightarrow> rest)
      in case Cut (CHR '':'') s of None \<Rightarrow> s | Some (host, _) \<Rightarrow> host)"

definition ddpHostName :: "node_record \<Rightarrow> string" where
  "ddpHostName n =
     (if capability n ''hostname'' \<noteq> [] then capability n ''hostname''
      else if ddpExtractHost (nr_SSHEndpoint n) \<noteq> [] then ddpExtractHost (nr_SSHEndpoint n)
      else shortID (nr_NodeID n))"

definition ddpHostList :: "node_record list \<Rightarrow> string" where
  "ddpHostList ring = Join '','' (map (\<lambda>n. map (\<lambda>c. if c = CHR '','' then CHR '' '' else c) (ddpHostName n)) ring)"

text \<open>The hosts that the plan takes for loopback.\<close>

definition loopback_host :: "string \<Rightarrow> bool" where
  "loopback_host host \<longleftrightarrow> host = [] \<or> host = ''127.0.0.1'' \<or> host = ''localhost'' \<or> host = ''::1''"

definition ddpForwardedLead :: "node_record \<Rightarrow> string \<Rightarrow> bool" where
  "ddpForwardedLead n selfMachine \<longleftrightarrow>
     loopback_host (ddpExtractHost (nr_SSHEndpoint n))
     \<and> (capability n MachineCapability = [] \<or> capability n MachineCapability \<noteq> selfMachine)"

datatype lead_error = AskingFailed string | NoPathToLead string string

fun path_in :: "node_record \<Rightarrow> node_record list \<Rightarrow> string option" where
  "path_in lead [] = None"
| "path_in lead (r # rs) =
     (if nr_NodeID r \<noteq> nr_NodeID lead \<or> nr_DaemonPort r = 0 then path_in lead rs
      else let host = ddpExtractHost (nr_SSHEndpoint r)
           in Some (JoinHostPort (if host = [] then ''127.0.0.1'' else host) (nr_DaemonPort r)))"

text \<open>The empty address stands for: the lead address everybody else gets.\<close>

definition ddpLeadAddrFor ::
  "(string \<Rightarrow> int \<Rightarrow> node_record list option) \<Rightarrow> node_record \<Rightarrow> node_record \<Rightarrow> string \<Rightarrow> lead_error + string" where
  "ddpLeadAddrFor fetch n lead selfMachine =
     (if \<not> ddpForwardedLead n selfMachine \<or> nr_NodeID n = nr_NodeID lead then Inr []
      else case fetch (ddpExtractHost (nr_SSHEndpoint n)) (nr_DaemonPort n) of
        None \<Rightarrow> Inl (AskingFailed (ddpHostName n))
      | Some nodes \<Rightarrow>
          (case path_in lead nodes of None \<Rightarrow> Inl (NoPathToLead (ddpHostName n) (ddpHostName lead)) | Some a \<Rightarrow> Inr a))"

subsection \<open>Devices\<close>

definition ddpHasGPU :: "node_record \<Rightarrow> bool" where
  "ddpHasGPU n \<longleftrightarrow> (capability n ''gpu'' \<noteq> [] \<and> capability n ''gpu'' \<noteq> ''none'')
     \<or> ld_GPUModel (nr_Load n) \<noteq> [] \<or> ld_GPUs (nr_Load n) \<noteq> []"

text \<open>\<open>override\<close> is the variable \<open>PIPEDPEER_DDP_RANKS_PER_NODE\<close>, empty when unset.\<close>

definition ddpSlots :: "string \<Rightarrow> node_record \<Rightarrow> int" where
  "ddpSlots override n =
     (let gpus = int (length (ld_GPUs (nr_Load n)));
          reported = (if 1 < gpus then gpus
            else case Atoi (capability n ''gpu_count'') of Some c \<Rightarrow> (if 1 < c then c else 1) | None \<Rightarrow> 1)
      in case Atoi override of Some k \<Rightarrow> (if 0 < k then k else reported) | None \<Rightarrow> reported)"

definition ddpOneDeviceKind :: "candidate list \<Rightarrow> bool \<Rightarrow> candidate list" where
  "ddpOneDeviceKind cands preferGPU =
     (if \<not> preferGPU then cands
      else let gpu = filter ca_HasGPU cands in if gpu \<noteq> [] then gpu else cands)"

subsection \<open>Shares\<close>

definition ddpEvenTolerance :: f64 where "ddpEvenTolerance = 2 / 100"

definition ddpUneven :: "f64 list \<Rightarrow> bool" where
  "ddpUneven w \<longleftrightarrow> \<not> length w < 2 \<and>
     (let lo = foldl (\<lambda>lo x. if x < lo then x else lo) (hd w) w;
          hi = foldl (\<lambda>hi x. if hi < x then x else hi) (hd w) w
      in ddpEvenTolerance \<le> hi - lo)"

text \<open>The absent slice \<open>nil\<close> is the empty list.\<close>

definition ddpNormaliseWeights :: "f64 list \<Rightarrow> f64 list" where
  "ddpNormaliseWeights w =
     (if list_ex (\<lambda>x. x \<le> 0) w \<or> sum_list w \<le> 0 then [] else map (\<lambda>x. x / sum_list w) w)"

text \<open>\<open>strconv.FormatFloat(x, 'f', 6, 64)\<close> of a share: the nearest decimal, ties to even.\<close>

definition round_half_even :: "f64 \<Rightarrow> int" where
  "round_half_even y =
     (let f = \<lfloor>y\<rfloor>; d = y - of_int f
      in if d < 1 / 2 \<or> (d = 1 / 2 \<and> even f) then f else f + 1)"

definition format6 :: "f64 \<Rightarrow> string" where
  "format6 x =
     (let n = nat (round_half_even (\<bar>x\<bar> * 1000000)); frac = decimal (n mod 1000000)
      in (if x < 0 then ''-'' else []) @ decimal (n div 1000000) @ ''.'' @ replicate (6 - length frac) CHR ''0'' @ frac)"

definition ddpWeightList :: "f64 list \<Rightarrow> string" where
  "ddpWeightList w = Join '','' (map format6 w)"

subsection \<open>The order of the ring\<close>

fun lead_scan :: "string \<Rightarrow> nat \<Rightarrow> nat option \<Rightarrow> node_record list \<Rightarrow> nat option" where
  "lead_scan selfMachine i first [] = first"
| "lead_scan selfMachine i first (n # ns) =
     (if ddpForwardedLead n selfMachine then lead_scan selfMachine (Suc i) first ns
      else if ddpHasGPU n then Some i
      else lead_scan selfMachine (Suc i) (if first = None then Some i else first) ns)"

text \<open>\<open>None\<close> is the code's -1: nothing in the ring can lead.\<close>

definition ddpLeadIndex :: "node_record list \<Rightarrow> string \<Rightarrow> nat option" where
  "ddpLeadIndex ring selfMachine = lead_scan selfMachine 0 None ring"

definition ddpToFront :: "'a list \<Rightarrow> nat \<Rightarrow> 'a list" where
  "ddpToFront s i = (if i = 0 \<or> length s \<le> i then s else s ! i # take i s @ drop (Suc i) s)"

definition ddpDistinctMachines :: "node_record list \<Rightarrow> int" where
  "ddpDistinctMachines ring =
     (let keys = map (\<lambda>n. capability n MachineCapability) ring;
          seen = remdups (filter (\<lambda>k. k \<noteq> []) keys);
          unknown = filter (\<lambda>k. k = []) keys;
          n = int (length seen) + int (length unknown)
      in if n < 1 then 1 else n)"

text \<open>The ranks on a node other than the lead's; \<open>ddpLocalRanks\<close> lists the map it returns by rank.\<close>

definition ranks_on :: "node_record list \<Rightarrow> string \<Rightarrow> nat list" where
  "ranks_on ring node =
     filter (\<lambda>i. 0 < i \<and> nr_NodeID (ring ! i) \<noteq> nr_NodeID (ring ! 0) \<and> nr_NodeID (ring ! i) = node) [0..<length ring]"

definition ddpLocalRanks :: "node_record list \<Rightarrow> (nat \<times> string) list" where
  "ddpLocalRanks ring =
     map (\<lambda>i. (i, Join '','' (map decimal (ranks_on ring (nr_NodeID (ring ! i))))))
       (filter (\<lambda>i. 0 < i \<and> 2 \<le> length (ranks_on ring (nr_NodeID (ring ! i)))) [0..<length ring])"

definition sync_url :: "string \<Rightarrow> string" where
  "sync_url hostport = ''http://'' @ hostport @ ''/v1/ddp/sync''"

definition peer_host :: "(string \<Rightarrow> string) \<Rightarrow> node_record \<Rightarrow> node_record \<Rightarrow> string" where
  "peer_host localIPFor seen_by n =
     (let host = ddpExtractHost (nr_SSHEndpoint n)
      in if \<not> loopback_host host then host
         else let other = ddpExtractHost (nr_SSHEndpoint seen_by)
              in if \<not> loopback_host other then localIPFor other else ''127.0.0.1'')"

definition ddpPeerURLs :: "(string \<Rightarrow> string) \<Rightarrow> node_record list \<Rightarrow> nat \<Rightarrow> string \<Rightarrow> string" where
  "ddpPeerURLs localIPFor ring i selfMachine =
     (if length ring < 3 \<or> length ring \<le> i \<or> list_ex (\<lambda>n. ddpForwardedLead n selfMachine) ring then []
      else Join '','' (map (\<lambda>n. sync_url (JoinHostPort (peer_host localIPFor (ring ! i) n) (nr_DaemonPort n))) ring))"

definition ddpSharesNode :: "node_record list \<Rightarrow> nat \<Rightarrow> bool" where
  "ddpSharesNode ring i \<longleftrightarrow> list_ex (\<lambda>j. j \<noteq> i \<and> nr_NodeID (ring ! j) = nr_NodeID (ring ! i)) [0..<length ring]"

subsection \<open>Who may take a rank\<close>

record ring_options =
  go_Nodes :: int
  go_DaemonPort :: int
  go_Envs :: "string list"
  go_GPUDevices :: string
  go_RequireGPU :: bool
  go_PreferGPU :: bool
  go_NoSelf :: bool
  go_ExcludeMachine :: string
  go_SelfNodeID :: string
  go_Native :: bool
  go_SelfMachine :: string
  go_MaxRanks :: int

definition ddpNativeRefusal :: "bool \<Rightarrow> node_record \<Rightarrow> string \<Rightarrow> string" where
  "ddpNativeRefusal native n selfMachine =
     (if \<not> native \<or> \<not> ddpForwardedLead n selfMachine then []
      else ''native torch.distributed needs a direct network path; '' @ ddpHostName n @ '' is reached over the internet link'')"

definition ddpExcluded :: "ring_options \<Rightarrow> node_record \<Rightarrow> bool" where
  "ddpExcluded opt n \<longleftrightarrow>
     capability n RoleCapability \<noteq> [] \<or> ddpNativeRefusal (go_Native opt) n (go_SelfMachine opt) \<noteq> []
     \<or> (go_NoSelf opt \<and> go_SelfNodeID opt \<noteq> [] \<and> nr_NodeID n = go_SelfNodeID opt)
     \<or> SameMachine (capability n MachineCapability) (go_ExcludeMachine opt)"

text \<open>The reason of a refusal with the figures its text shows.\<close>

datatype refusal_reason = NativePath string | NoGPUForced | LittleGPUMemory int int | LittleGrantable int int int

record refusal =
  rf_node :: string
  rf_reason :: refusal_reason
  rf_busy :: bool

record rank_demand =
  dm_requireGPU :: bool
  dm_requiredGPUMem :: int
  dm_requiredMem :: int
  dm_exclude :: string
  dm_native :: bool

definition gpu_fits :: "rank_demand \<Rightarrow> node_record \<Rightarrow> bool" where
  "gpu_fits d n \<longleftrightarrow> ddpHasGPU n
     \<and> (dm_requiredGPUMem d \<le> 0 \<or> dm_requiredGPUMem d \<le> ld_GPUMemBytes (nr_Load n) - ld_GPUMemUsedBytes (nr_Load n))"

definition cpu_fits :: "rank_demand \<Rightarrow> node_record \<Rightarrow> bool" where
  "cpu_fits d n \<longleftrightarrow> \<not> dm_requireGPU d
     \<and> (dm_requiredMem d \<le> 0
        \<or> Admit (dm_requiredMem d) (ld_AvailableMemBytes (nr_Load n)) (ld_ActiveJobs (nr_Load n) = 0))"

definition why_not :: "rank_demand \<Rightarrow> node_record \<Rightarrow> refusal_reason" where
  "why_not d n =
     (if dm_requireGPU d \<and> \<not> ddpHasGPU n then NoGPUForced
      else if dm_requireGPU d
      then LittleGPUMemory (dm_requiredGPUMem d) (ld_GPUMemBytes (nr_Load n) - ld_GPUMemUsedBytes (nr_Load n))
      else LittleGrantable (dm_requiredMem d) (ld_AvailableMemBytes (nr_Load n)) (ld_ActiveJobs (nr_Load n)))"

text \<open>One turn of the loop over the nodes of the daemon's list.\<close>

definition rank_node :: "string \<Rightarrow> rank_demand \<Rightarrow> string \<Rightarrow> node_record \<Rightarrow> int \<times> refusal list \<Rightarrow> int \<times> refusal list" where
  "rank_node override d selfMachine n acc =
     (let (found, refused) = acc
      in if nr_State n \<noteq> ''healthy'' \<or> capability n RoleCapability \<noteq> [] then acc
         else if SameMachine (capability n MachineCapability) (dm_exclude d) then acc
         else if ddpNativeRefusal (dm_native d) n selfMachine \<noteq> []
         then (found, refused @ [\<lparr>rf_node = shortID (nr_NodeID n), rf_reason = NativePath (ddpHostName n), rf_busy = False\<rparr>])
         else if gpu_fits d n \<or> cpu_fits d n then (found + ddpSlots override n, refused)
         else (found, refused @ [\<lparr>rf_node = shortID (nr_NodeID n), rf_reason = why_not d n,
                rf_busy = (ld_ActiveJobs (nr_Load n) \<noteq> 0)\<rparr>]))"

text \<open>\<open>reply\<close> is the daemon's node list, \<open>None\<close> when it cannot be had or read; \<open>self\<close> this machine's key.\<close>

definition ddpEligibleRanks ::
  "string \<Rightarrow> rank_demand \<Rightarrow> string \<Rightarrow> node_record list option \<Rightarrow> int \<times> refusal list" where
  "ddpEligibleRanks override d self reply =
     (case reply of None \<Rightarrow> (0, [])
      | Some nodes \<Rightarrow> fold (rank_node override d (if dm_native d then self else [])) nodes (0, []))"

text \<open>
  \<open>ddpEligibleSettled\<close>: \<open>ask k\<close> is the answer of the k-th count, \<open>clock k\<close> the time of the k-th look
  at the deadline and \<open>cancelled k\<close> whether the run is cancelled in the k-th wait. Times are
  nanoseconds.
\<close>

definition ddpSettleWait :: int where "ddpSettleWait = 25000000000"

partial_function (option) settle ::
  "(nat \<Rightarrow> int \<times> refusal list) \<Rightarrow> (nat \<Rightarrow> int) \<Rightarrow> (nat \<Rightarrow> bool) \<Rightarrow> int \<Rightarrow> nat \<Rightarrow> (int \<times> refusal list) option" where
  "settle ask clock cancelled deadline k =
     (if fst (ask k) < 2 \<and> list_ex rf_busy (snd (ask k)) \<and> clock k < deadline
      then (if cancelled k then Some (ask k) else settle ask clock cancelled deadline (Suc k))
      else Some (ask k))"

definition ddpEligibleSettled ::
  "(nat \<Rightarrow> int \<times> refusal list) \<Rightarrow> int \<Rightarrow> (nat \<Rightarrow> int) \<Rightarrow> (nat \<Rightarrow> bool) \<Rightarrow> (int \<times> refusal list) option" where
  "ddpEligibleSettled ask start clock cancelled = settle ask clock cancelled (start + ddpSettleWait) 0"

subsection \<open>The ring\<close>

record ring_env =
  ge_nodes :: "node_record list option"
  ge_override :: string
  ge_equal_batches :: bool
  ge_probe :: "candidate \<Rightarrow> f64 option"

definition ring_usable :: "ring_options \<Rightarrow> node_record \<Rightarrow> bool" where
  "ring_usable opt n \<longleftrightarrow> nr_State n = ''healthy'' \<and> \<not> (go_RequireGPU opt \<and> \<not> ddpHasGPU n)
     \<and> ddpNativeRefusal (go_Native opt) n (go_SelfMachine opt) = [] \<and> \<not> ddpExcluded opt n"

definition ring_candidate :: "string \<Rightarrow> node_record \<Rightarrow> candidate" where
  "ring_candidate override n =
     \<lparr>ca_NodeID = nr_NodeID n, ca_Host = ddpExtractHost (nr_SSHEndpoint n), ca_Port = nr_DaemonPort n,
      ca_Cores = ld_TotalCPUs (nr_Load n), ca_MemBytes = ld_AvailableMemBytes (nr_Load n),
      ca_HasGPU = ddpHasGPU n, ca_Slots = ddpSlots override n\<rparr>"

definition ring_place :: "ring_env \<Rightarrow> ring_options \<Rightarrow> place_options" where
  "ring_place e opt = \<lparr>po_Max = go_Nodes opt, po_WorkingSetBytes = 0,
     po_ProportionalBatches = (\<not> ge_equal_batches e), po_KeepAll = (0 < go_MaxRanks opt)\<rparr>"

record seat =
  se_node :: node_record
  se_slot :: nat
  se_weight :: f64

text \<open>The map \<open>byID\<close>: of two nodes with one id the later one stays.\<close>

definition by_id :: "node_record list \<Rightarrow> string \<Rightarrow> node_record option" where
  "by_id nodes i = map_of (rev (map (\<lambda>n. (nr_NodeID n, n)) nodes)) i"

definition seat_of :: "ring_options \<Rightarrow> node_record list \<Rightarrow> choice \<Rightarrow> seat option" where
  "seat_of opt nodes c =
     (case by_id nodes (ca_NodeID (cc_Candidate c)) of
        None \<Rightarrow> None
      | Some n \<Rightarrow> if nr_NodeID n = [] then None
          else Some \<lparr>se_node = (if nr_DaemonPort n = 0 then n\<lparr>nr_DaemonPort := go_DaemonPort opt\<rparr> else n),
                     se_slot = cc_Slot c, se_weight = cc_Weight c\<rparr>)"

definition ddpChooseRing ::
  "ring_env \<Rightarrow> ring_options \<Rightarrow> node_record \<Rightarrow> node_record list \<times> nat list \<times> f64 list" where
  "ddpChooseRing e opt rank0 =
     (case ge_nodes e of None \<Rightarrow> ([], [], [])
      | Some all_nodes \<Rightarrow>
          let nodes = filter (ring_usable opt) all_nodes;
              cands = ddpOneDeviceKind (map (ring_candidate (ge_override e)) nodes) (go_RequireGPU opt \<or> go_PreferGPU opt)
          in if cands = [] then ([], [], [])
             else let chosen = rp_Chosen (Select (ge_probe e) cands (ring_place e opt));
                      ordered = sort_key (\<lambda>c. \<not> ca_HasGPU (cc_Candidate c)) chosen;
                      seats = List.map_filter (seat_of opt nodes) ordered
                  in if seats = [] \<and> nr_NodeID rank0 \<noteq> [] then ([rank0], [0], [1])
                     else (map se_node seats, map se_slot seats,
                           if ge_equal_batches e then [] else map se_weight seats))"

text \<open>What \<open>runDDP\<close> makes of it. Slicing to fewer than one rank panics.\<close>

record training_ring =
  tr_ranks :: "node_record list"
  tr_slots :: "nat list"
  tr_weights :: "f64 list"

datatype assembly = RingNotWorthIt | NobodyCanLead | SlicePanics | Assembled training_ring

definition assemble :: "ring_options \<Rightarrow> node_record list \<times> nat list \<times> f64 list \<Rightarrow> assembly" where
  "assemble opt chosen =
     (let (ring, slots, weights) = chosen
      in if length ring < 2 then RingNotWorthIt
         else let nodes = (if int (length ring) < go_Nodes opt then int (length ring) else go_Nodes opt)
           in case ddpLeadIndex ring (go_SelfMachine opt) of
                None \<Rightarrow> NobodyCanLead
              | Some lead \<Rightarrow>
                  let weights = (if length weights = length ring then ddpToFront weights lead else weights);
                      ring = ddpToFront ring lead; slots = ddpToFront slots lead
                  in if nodes < 1 then SlicePanics
                     else Assembled \<lparr>tr_ranks = take (nat nodes) ring, tr_slots = take (nat nodes) slots,
                       tr_weights = (if nodes \<le> int (length weights) then ddpNormaliseWeights (take (nat nodes) weights)
                                     else weights)\<rparr>)"

text \<open>The address of the lead that the ranks get (\<open>MASTER_ADDR\<close> and the sync address).\<close>

definition plain_loopback :: "string \<Rightarrow> bool" where
  "plain_loopback host \<longleftrightarrow> host = [] \<or> host = ''127.0.0.1'' \<or> host = ''localhost''"

definition master_addr :: "(string \<Rightarrow> string) \<Rightarrow> node_record list \<Rightarrow> string" where
  "master_addr localIPFor ranks =
     (let host = ddpExtractHost (nr_SSHEndpoint (hd ranks));
          routed = filter (\<lambda>h. \<not> loopback_host h) (map (\<lambda>p. ddpExtractHost (nr_SSHEndpoint p)) (tl ranks))
      in if plain_loopback host then localIPFor (case routed of [] \<Rightarrow> [] | h # _ \<Rightarrow> h) else host)"

subsection \<open>The environment of a rank\<close>

definition ddpThreadVars :: "string list" where
  "ddpThreadVars = [''OMP_NUM_THREADS'', ''MKL_NUM_THREADS'']"

definition reported_cores :: "node_record \<Rightarrow> int" where
  "reported_cores n =
     (if ld_TotalCPUs (nr_Load n) \<le> 0
      then (case Atoi (capability n ''cpu_cores'') of None \<Rightarrow> 0 | Some c \<Rightarrow> c) else ld_TotalCPUs (nr_Load n))"

definition machine_of :: "node_record \<Rightarrow> string" where
  "machine_of m = (if capability m MachineCapability \<noteq> [] then capability m MachineCapability else nr_NodeID m)"

definition ranks_here :: "node_record list \<Rightarrow> node_record \<Rightarrow> nat" where
  "ranks_here ring n = length (filter (\<lambda>m. machine_of m = machine_of n) ring)"

definition rank_threads :: "node_record list \<Rightarrow> nat \<Rightarrow> int" where
  "rank_threads ring i = max 1 (go_div (reported_cores (ring ! i)) (int (ranks_here ring (ring ! i))))"

definition ddpThreadEnv :: "string list \<Rightarrow> node_record list \<Rightarrow> nat \<Rightarrow> string list" where
  "ddpThreadEnv user ring i =
     (if reported_cores (ring ! i) \<le> 0 then []
      else map (\<lambda>v. v @ ''='' @ Itoa (rank_threads ring i))
             (filter (\<lambda>v. \<not> list_ex (\<lambda>e. HasPrefix e (v @ ''='')) user) ddpThreadVars))"

definition ddpNativeMasterPort :: int where "ddpNativeMasterPort = 29500"

text \<open>
  Where the rounds of a rank go: to the machine's own daemon first (the ranks on it), around the
  butterfly (every rank's address), or to the lead.
\<close>

datatype sync_route = LocalFirst string | Butterfly string | ToTheLead

definition sync_route_of :: "(string \<Rightarrow> string) \<Rightarrow> node_record list \<Rightarrow> string \<Rightarrow> nat \<Rightarrow> bool \<Rightarrow> sync_route" where
  "sync_route_of localIPFor ring selfMachine i join =
     (if join then ToTheLead
      else let loc = ddpLocalRanks ring; peers = ddpPeerURLs localIPFor ring i selfMachine
           in case map_of loc i of
                Some ranks \<Rightarrow> if ranks \<noteq> [] then LocalFirst ranks
                  else if peers \<noteq> [] \<and> loc = [] then Butterfly peers else ToTheLead
              | None \<Rightarrow> if peers \<noteq> [] \<and> loc = [] then Butterfly peers else ToTheLead)"

fun route_env :: "sync_route \<Rightarrow> string list" where
  "route_env (LocalFirst ranks) = [''PIPEDPEER_DDP_LOCAL='' @ ranks]"
| "route_env (Butterfly peers) = [''PIPEDPEER_DDP_PEERS='' @ peers]"
| "route_env ToTheLead = []"

record launch_env =
  le_localIPFor :: "string \<Rightarrow> string"
  le_group :: string
  le_overlap :: bool
  le_token :: string

definition rank_gpu_devices :: "ring_options \<Rightarrow> node_record list \<Rightarrow> nat list \<Rightarrow> nat \<Rightarrow> bool \<Rightarrow> string" where
  "rank_gpu_devices opt ring slots i join =
     (if go_GPUDevices opt = [] \<and> \<not> join \<and> ddpSharesNode ring i then decimal (slots ! i) else go_GPUDevices opt)"

text \<open>\<open>ring\<close> is the ring when rank \<open>i\<close> starts, \<open>start\<close> the ring the run started with.\<close>

definition rank_envs ::
  "launch_env \<Rightarrow> ring_options \<Rightarrow> training_ring \<Rightarrow> node_record list \<Rightarrow> nat \<Rightarrow> node_record \<Rightarrow> bool \<Rightarrow> string \<Rightarrow> string list" where
  "rank_envs e opt start ring i n join via =
     (let master = master_addr (le_localIPFor e) (tr_ranks start);
          world = int (length ring);
          leadAddr = (if via \<noteq> [] then via else JoinHostPort master (nr_DaemonPort (hd (tr_ranks start))))
      in go_Envs opt
         @ [''PIPEDPEER_DDP=1'',
            ''PIPEDPEER_RANK='' @ decimal i,
            ''PIPEDPEER_WORLD_SIZE='' @ Itoa world,
            ''RANK='' @ decimal i,
            ''WORLD_SIZE='' @ Itoa world,
            ''MASTER_ADDR='' @ master,
            ''MASTER_PORT='' @ Itoa ddpNativeMasterPort,
            ''PIPEDPEER_SUBMITTER='' @ JoinHostPort (le_localIPFor e (ddpExtractHost (nr_SSHEndpoint n))) (go_DaemonPort opt),
            ''PIPEDPEER_DDP_SYNC='' @ sync_url leadAddr,
            ''PIPEDPEER_DDP_GROUP='' @ le_group e,
            ''PIPEDPEER_DDP_MACHINES='' @ Itoa (ddpDistinctMachines ring),
            ''PIPEDPEER_DDP_HOSTS='' @ ddpHostList ring]
         @ ddpThreadEnv (go_Envs opt) ring i
         @ (if 2 \<le> go_MaxRanks opt then [''PIPEDPEER_DDP_FIXED=1''] else [])
         @ route_env (sync_route_of (le_localIPFor e) ring (go_SelfMachine opt) i join)
         @ (if le_overlap e then [''PIPEDPEER_DDP_OVERLAP=1''] else [])
         @ (if join then [''PIPEDPEER_DDP_JOIN=1'']
            else if length (tr_weights start) = length ring
            then [''PIPEDPEER_DDP_WEIGHTS='' @ ddpWeightList (tr_weights start)] else [])
         @ (if le_token e \<noteq> [] then [''PIPEDPEER_TOKEN='' @ le_token e] else []))"

subsection \<open>The lead\<close>

lemma extract_host_no_colon: "CHR '':'' \<notin> set (ddpExtractHost e)"
  by (auto simp: ddpExtractHost_def Let_def Cut_None split: option.splits dest: Cut_Some)

lemma ToFront_eq: "i < length s \<Longrightarrow> ddpToFront s i = s ! i # take i s @ drop (Suc i) s"
  by (cases s) (simp_all add: ddpToFront_def)

lemma ToFront_mset: "mset (ddpToFront s i) = mset s"
proof (cases "i < length s")
  case True
  then show ?thesis
    by (simp add: ToFront_eq) (metis id_take_nth_drop mset_append mset.simps(2) union_mset_add_mset_right)
qed (simp add: ddpToFront_def)

lemma ToFront_length [simp]: "length (ddpToFront s i) = length s"
  by (metis ToFront_mset size_mset)

lemma ToFront_Nil [simp]: "ddpToFront [] i = []"
  by (simp add: ddpToFront_def)

lemma ToFront_map: "map f (ddpToFront s i) = ddpToFront (map f s) i"
  by (cases "i < length s") (simp_all add: ToFront_eq take_map drop_map ddpToFront_def)

lemma ToFront_hd: "i < length s \<Longrightarrow> hd (ddpToFront s i) = s ! i"
  by (simp add: ToFront_eq)

definition can_lead :: "string \<Rightarrow> node_record \<Rightarrow> bool" where
  "can_lead self n \<longleftrightarrow> \<not> ddpForwardedLead n self"

lemma lead_scan_found:
  assumes "lead_scan self i first ns = Some k"
  shows "first = Some k \<and> (\<forall>n \<in> set ns. can_lead self n \<longrightarrow> \<not> ddpHasGPU n)
    \<or> (\<exists>j < length ns. k = i + j \<and> can_lead self (ns ! j)
         \<and> (ddpHasGPU (ns ! j) \<or> first = None \<and> (\<forall>n \<in> set ns. can_lead self n \<longrightarrow> \<not> ddpHasGPU n)))"
  using assms
proof (induction ns arbitrary: i first)
  case (Cons n ns)
  show ?case
  proof (cases "can_lead self n \<and> ddpHasGPU n")
    case True
    then show ?thesis using Cons.prems by (intro disjI2 exI [of _ 0]) (simp add: can_lead_def)
  next
    case False
    let ?f = "if ddpForwardedLead n self then first else if first = None then Some i else first"
    have "lead_scan self (Suc i) ?f ns = Some k" using False Cons.prems by (auto simp: can_lead_def split: if_splits)
    from Cons.IH [OF this] False show ?thesis
    proof (elim disjE exE conjE, goal_cases)
      case 1
      then show ?case
        by (cases "first = None \<and> can_lead self n") (auto simp: can_lead_def split: if_splits intro: exI [of _ 0])
    next
      case (2 j)
      then show ?case by (intro disjI2 exI [of _ "Suc j"]) simp
    next
      case (3 j)
      then show ?case by (intro disjI2 exI [of _ "Suc j"]) (auto split: if_splits)
    qed
  qed
qed simp

lemma lead_scan_None: "lead_scan self i first ns = None \<longleftrightarrow> first = None \<and> (\<forall>n \<in> set ns. \<not> can_lead self n)"
  by (induction ns arbitrary: i first) (auto simp: can_lead_def)

lemma lead_found:
  assumes "ddpLeadIndex ring self = Some k"
  shows "k < length ring" and "can_lead self (ring ! k)"
    and "ddpHasGPU (ring ! k) \<or> (\<forall>n \<in> set ring. can_lead self n \<longrightarrow> \<not> ddpHasGPU n)"
  using lead_scan_found [OF assms [unfolded ddpLeadIndex_def]] by auto

lemma no_lead: "ddpLeadIndex ring self = None \<longleftrightarrow> (\<forall>n \<in> set ring. \<not> can_lead self n)"
  by (simp add: ddpLeadIndex_def lead_scan_None)

subsection \<open>Shares\<close>

lemma normalised_sum:
  assumes "w \<noteq> []" "list_all (\<lambda>x. 0 < x) w"
  shows "length (ddpNormaliseWeights w) = length w" and "list_all (\<lambda>x. 0 < x) (ddpNormaliseWeights w)"
    and "sum_list (ddpNormaliseWeights w) = 1"
proof -
  have pos: "0 < sum_list w" using assms by (induction w) (auto simp: add_pos_nonneg sum_list_nonneg list_all_iff less_imp_le)
  then have eq: "ddpNormaliseWeights w = map (\<lambda>x. x / sum_list w) w"
    using assms by (auto simp: ddpNormaliseWeights_def list_all_iff list_ex_iff not_le)
  show "length (ddpNormaliseWeights w) = length w" by (simp add: eq)
  show "list_all (\<lambda>x. 0 < x) (ddpNormaliseWeights w)" using assms pos by (simp add: eq list_all_iff)
  have "sum_list (map (\<lambda>x. x / c) w) = sum_list w / c" for c by (induction w) (simp_all add: add_divide_distrib)
  then show "sum_list (ddpNormaliseWeights w) = 1" using pos by (simp add: eq)
qed

subsection \<open>Seats\<close>

lemma port_capability [simp]: "capability (n\<lparr>nr_DaemonPort := p\<rparr>) k = capability n k"
  by (simp add: capability_def)

lemma port_simps [simp]:
  "ddpHasGPU (n\<lparr>nr_DaemonPort := p\<rparr>) = ddpHasGPU n"
  "ddpForwardedLead (n\<lparr>nr_DaemonPort := p\<rparr>) self = ddpForwardedLead n self"
  "ddpHostName (n\<lparr>nr_DaemonPort := p\<rparr>) = ddpHostName n"
  "ddpSlots override (n\<lparr>nr_DaemonPort := p\<rparr>) = ddpSlots override n"
  unfolding ddpHasGPU_def ddpForwardedLead_def ddpHostName_def ddpSlots_def by simp_all

lemma port_refusal [simp]: "ddpNativeRefusal native (n\<lparr>nr_DaemonPort := p\<rparr>) self = ddpNativeRefusal native n self"
  unfolding ddpNativeRefusal_def by simp

lemma port_ring_usable [simp]: "ring_usable opt (n\<lparr>nr_DaemonPort := p\<rparr>) = ring_usable opt n"
  unfolding ring_usable_def ddpExcluded_def by simp

lemma slots_positive: "1 \<le> ddpSlots override n"
  by (auto simp: ddpSlots_def Let_def split: option.split)

lemma by_id_found:
  assumes "distinct (map nr_NodeID nodes)" "n \<in> set nodes"
  shows "by_id nodes (nr_NodeID n) = Some n"
  using assms by (auto simp: by_id_def comp_def rev_map [symmetric] intro!: map_of_is_SomeI)

lemma OneDeviceKind_sub: "set (ddpOneDeviceKind cands prefer) \<subseteq> set cands"
  by (auto simp: ddpOneDeviceKind_def Let_def split: if_splits)

lemma OneDeviceKind_distinct: "distinct (map f cands) \<Longrightarrow> distinct (map f (ddpOneDeviceKind cands prefer))"
  by (simp add: ddpOneDeviceKind_def Let_def distinct_map_filter)

lemma OneDeviceKind_one:
  "prefer \<Longrightarrow> list_all ca_HasGPU (ddpOneDeviceKind cands prefer) \<or> list_all (\<lambda>c. \<not> ca_HasGPU c) (ddpOneDeviceKind cands prefer)"
  by (auto simp: ddpOneDeviceKind_def Let_def list_all_iff filter_empty_conv)

text \<open>What every seat of a chosen ring has, and the ring as a whole.\<close>

definition seat_ok :: "ring_env \<Rightarrow> ring_options \<Rightarrow> node_record list \<Rightarrow> node_record \<times> nat \<Rightarrow> bool" where
  "seat_ok e opt nodes p \<longleftrightarrow> ring_usable opt (fst p) \<and> nr_NodeID (fst p) \<in> nr_NodeID ` set nodes
     \<and> snd p < nat (ddpSlots (ge_override e) (fst p))"

definition seat_key :: "node_record \<times> nat \<Rightarrow> string \<times> nat" where
  "seat_key p = (nr_NodeID (fst p), snd p)"

definition one_kind :: "ring_options \<Rightarrow> node_record list \<Rightarrow> bool" where
  "one_kind opt ring \<longleftrightarrow> (go_RequireGPU opt \<or> go_PreferGPU opt)
     \<longrightarrow> list_all ddpHasGPU ring \<or> list_all (\<lambda>n. \<not> ddpHasGPU n) ring"

lemma seat_facts:
  assumes "distinct (map nr_NodeID nodes)" "n \<in> set nodes" "cc_Candidate c = ring_candidate override n"
    and "seat_of opt nodes c = Some s"
  shows "seat_key (se_node s, se_slot s) = rank_slot c \<and> se_weight s = cc_Weight c
    \<and> (\<exists>p. se_node s = n\<lparr>nr_DaemonPort := p\<rparr>)"
proof -
  have "by_id nodes (ca_NodeID (cc_Candidate c)) = Some n"
    using by_id_found [OF assms(1,2)] by (simp add: assms(3) ring_candidate_def)
  then have "s = \<lparr>se_node = (if nr_DaemonPort n = 0 then n\<lparr>nr_DaemonPort := go_DaemonPort opt\<rparr> else n),
      se_slot = cc_Slot c, se_weight = cc_Weight c\<rparr>"
    using assms(4) by (simp add: seat_of_def split: if_splits)
  moreover have "\<exists>p. (if nr_DaemonPort n = 0 then n\<lparr>nr_DaemonPort := go_DaemonPort opt\<rparr> else n) = n\<lparr>nr_DaemonPort := p\<rparr>"
    by (cases "nr_DaemonPort n = 0") (auto intro: exI [of _ "nr_DaemonPort n"])
  ultimately show ?thesis by (simp add: seat_key_def rank_slot_def assms(3) ring_candidate_def)
qed

lemma chosen_ring:
  assumes nodes: "ge_nodes e = Some nodes" "distinct (map nr_NodeID nodes)"
      "list_all (\<lambda>n. CHR ''#'' \<notin> set (nr_NodeID n)) nodes"
    and ring: "ddpChooseRing e opt rank0 = (ring, slots, weights)" "2 \<le> length ring"
  shows "length slots = length ring" and "distinct (map seat_key (zip ring slots))"
    and "list_all (seat_ok e opt nodes) (zip ring slots)" and "one_kind opt ring"
    and "weights = [] \<or> length weights = length ring \<and> list_all (\<lambda>x. 0 < x) weights"
    and "0 < go_Nodes opt \<longrightarrow> int (length ring) \<le> go_Nodes opt"
proof -
  define us where "us = filter (ring_usable opt) nodes"
  define cands where "cands = ddpOneDeviceKind (map (ring_candidate (ge_override e)) us) (go_RequireGPU opt \<or> go_PreferGPU opt)"
  define chosen where "chosen = rp_Chosen (Select (ge_probe e) cands (ring_place e opt))"
  define ordered where "ordered = sort_key (\<lambda>c. \<not> ca_HasGPU (cc_Candidate c)) chosen"
  define seats where "seats = List.map_filter (seat_of opt us) ordered"
  have "cands \<noteq> []" and "\<not> (seats = [] \<and> nr_NodeID rank0 \<noteq> [])"
    using ring nodes(1)
    by (auto simp: ddpChooseRing_def us_def cands_def chosen_def ordered_def seats_def Let_def split: if_splits)
  then have r: "ring = map se_node seats" "slots = map se_slot seats"
      "weights = (if ge_equal_batches e then [] else map se_weight seats)"
    using ring(1) nodes(1)
    by (simp_all add: ddpChooseRing_def us_def cands_def chosen_def ordered_def seats_def Let_def split: if_splits)
  have dus: "distinct (map nr_NodeID us)" using nodes(2) by (simp add: us_def distinct_map_filter)
  have sub: "set cands \<subseteq> ring_candidate (ge_override e) ` set us" using OneDeviceKind_sub by (fastforce simp: cands_def)
  have ids: "ids_ok cands"
  proof -
    have "map ca_NodeID (map (ring_candidate (ge_override e)) us) = map nr_NodeID us" by (simp add: ring_candidate_def)
    then have "distinct (map ca_NodeID cands)" unfolding cands_def using dus by (metis OneDeviceKind_distinct)
    then show ?thesis using sub nodes(3) by (fastforce simp: ids_ok_def list_all_iff us_def ring_candidate_def)
  qed
  note plan = select_ring [OF ids refl, of "ge_probe e" "ring_place e opt", folded chosen_def]
  have ms: "mset ordered = mset chosen" by (simp add: ordered_def)
  then have st: "set ordered = set chosen" by (metis set_mset_mset)
  have cand: "\<exists>n \<in> set us. cc_Candidate c = ring_candidate (ge_override e) n
      \<and> cc_Candidate c \<in> set cands \<and> cc_Slot c < nat (ddpSlots (ge_override e) n) \<and> 0 < cc_Weight c"
    if "c \<in> set ordered" for c
  proof -
    have "rank_ok cands (ring_place e opt) c" "0 < cc_Weight c" using that st plan by (auto simp: list_all_iff)
    then obtain n where "n \<in> set us" "cc_Candidate c = ring_candidate (ge_override e) n" "cc_Candidate c \<in> set cands"
      "cc_Slot c < slots_of (cc_Candidate c)" using sub by (auto simp: rank_ok_def)
    moreover have "slots_of (ring_candidate (ge_override e) n) = nat (ddpSlots (ge_override e) n)"
      using slots_positive [of "ge_override e" n] by (simp add: slots_of_def ring_candidate_def max_def)
    ultimately show ?thesis using \<open>0 < cc_Weight c\<close> by auto
  qed
  have key: "seat_of opt us c = Some t \<Longrightarrow> c \<in> set ordered \<Longrightarrow>
      seat_key (se_node t, se_slot t) = rank_slot c \<and> se_weight t = cc_Weight c" for c t
    using cand seat_facts [OF dus] by blast
  have zip: "zip ring slots = map (\<lambda>t. (se_node t, se_slot t)) seats" by (simp add: r zip_map_map zip_same_conv_map)
  show "length slots = length ring" by (simp add: r)
  have kept: "map (\<lambda>t. seat_key (se_node t, se_slot t)) seats = map rank_slot (filter (\<lambda>c. seat_of opt us c \<noteq> None) ordered)"
    unfolding seats_def map_filter_def map_map
  proof (rule map_cong [OF refl])
    fix c assume "c \<in> set (filter (\<lambda>c. seat_of opt us c \<noteq> None) ordered)"
    then obtain t where t: "seat_of opt us c = Some t" "c \<in> set ordered" by auto
    then show "((\<lambda>t. seat_key (se_node t, se_slot t)) \<circ> (the \<circ> seat_of opt us)) c = rank_slot c"
      using key [OF t] by (simp add: t(1))
  qed
  have "mset (map rank_slot ordered) = mset (map rank_slot chosen)" by (simp add: ms)
  then have "distinct (map rank_slot ordered)" using plan mset_eq_imp_distinct_iff by blast
  then show "distinct (map seat_key (zip ring slots))" by (simp add: zip comp_def kept distinct_map_filter)
  have seat: "\<exists>c \<in> set ordered. seat_of opt us c = Some t" if "t \<in> set seats" for t
    using that by (auto simp: seats_def map_filter_def)
  have node: "\<exists>n p. n \<in> set us \<and> se_node t = n\<lparr>nr_DaemonPort := p\<rparr> \<and> se_slot t < nat (ddpSlots (ge_override e) n)
      \<and> ring_candidate (ge_override e) n \<in> set cands \<and> 0 < se_weight t" if "t \<in> set seats" for t
  proof -
    obtain c where c: "c \<in> set ordered" "seat_of opt us c = Some t" using seat [OF \<open>t \<in> set seats\<close>] by blast
    obtain n where n: "n \<in> set us" "cc_Candidate c = ring_candidate (ge_override e) n" "cc_Candidate c \<in> set cands"
      "cc_Slot c < nat (ddpSlots (ge_override e) n)" "0 < cc_Weight c" using cand [OF c(1)] by blast
    then show ?thesis using seat_facts [OF dus n(1,2) c(2)] by (auto simp: seat_key_def rank_slot_def)
  qed
  show "list_all (seat_ok e opt nodes) (zip ring slots)"
    unfolding list_all_iff zip using node by (fastforce simp: seat_ok_def us_def)
  show "one_kind opt ring"
    unfolding one_kind_def
  proof
    assume "go_RequireGPU opt \<or> go_PreferGPU opt"
    then have "list_all ca_HasGPU cands \<or> list_all (\<lambda>c. \<not> ca_HasGPU c) cands" unfolding cands_def by (rule OneDeviceKind_one)
    then show "list_all ddpHasGPU ring \<or> list_all (\<lambda>n. \<not> ddpHasGPU n) ring"
      using node by (fastforce simp: list_all_iff r ring_candidate_def)
  qed
  show "weights = [] \<or> length weights = length ring \<and> list_all (\<lambda>x. 0 < x) weights"
    using node by (auto simp: r list_all_iff)
  have "length seats \<le> length chosen"
    using mset_eq_length [OF ms] by (simp add: seats_def map_filter_def) (metis length_filter_le)
  then show "0 < go_Nodes opt \<longrightarrow> int (length ring) \<le> go_Nodes opt" using plan by (auto simp: r ring_place_def)
qed

subsection \<open>The ring of a run\<close>

lemma ToFront_zip:
  assumes "length xs = length ys"
  shows "zip (ddpToFront xs i) (ddpToFront ys i) = ddpToFront (zip xs ys) i"
proof -
  have "ddpToFront xs i = map fst (ddpToFront (zip xs ys) i)" "ddpToFront ys i = map snd (ddpToFront (zip xs ys) i)"
    using assms by (simp_all add: ToFront_map)
  then show ?thesis by (simp add: zip_map_fst_snd)
qed

lemma ToFront_distinct: "distinct (map f (ddpToFront s i)) = distinct (map f s)"
  by (rule mset_eq_imp_distinct_iff) (simp add: ToFront_mset)

lemma ToFront_set: "set (ddpToFront s i) = set s"
  by (metis ToFront_mset set_mset_mset)

lemma ToFront_list_all: "list_all P (ddpToFront s i) = list_all P s"
  by (simp add: list_all_iff ToFront_set)

lemma list_all_take: "list_all P s \<Longrightarrow> list_all P (take n s)"
  by (auto simp: list_all_iff dest: in_set_takeD)

lemma one_kind_take: "one_kind opt ring \<Longrightarrow> one_kind opt (take n (ddpToFront ring i))"
  unfolding one_kind_def using list_all_take ToFront_list_all by blast

lemma assembled:
  assumes "assemble opt (ring, slots, weights) = Assembled R"
  obtains lead n where "2 \<le> length ring" "1 \<le> n" "n \<le> length ring" "int n \<le> go_Nodes opt"
    "n = length ring \<or> int n = go_Nodes opt"
    "ddpLeadIndex ring (go_SelfMachine opt) = Some lead"
    "tr_ranks R = take n (ddpToFront ring lead)" "tr_slots R = take n (ddpToFront slots lead)"
    "weights = [] \<Longrightarrow> tr_weights R = []"
    "length weights = length ring \<Longrightarrow> tr_weights R = ddpNormaliseWeights (take n (ddpToFront weights lead))"
proof -
  define k where "k = (if int (length ring) < go_Nodes opt then int (length ring) else go_Nodes opt)"
  obtain lead where lead: "ddpLeadIndex ring (go_SelfMachine opt) = Some lead"
    using assms by (cases "ddpLeadIndex ring (go_SelfMachine opt)") (simp_all add: assemble_def split: if_splits)
  have "2 \<le> length ring" "1 \<le> k" using assms lead by (simp_all add: assemble_def k_def [symmetric] Let_def split: if_splits)
  then have R: "R = \<lparr>tr_ranks = take (nat k) (ddpToFront ring lead), tr_slots = take (nat k) (ddpToFront slots lead),
      tr_weights = (let w = (if length weights = length ring then ddpToFront weights lead else weights)
        in if k \<le> int (length w) then ddpNormaliseWeights (take (nat k) w) else w)\<rparr>"
    using assms lead by (simp add: assemble_def k_def [symmetric] Let_def)
  have n: "1 \<le> nat k" "nat k \<le> length ring" "int (nat k) \<le> go_Nodes opt" "nat k = length ring \<or> int (nat k) = go_Nodes opt"
    using \<open>1 \<le> k\<close> by (auto simp: k_def split: if_splits)
  show thesis
    using \<open>2 \<le> length ring\<close> n lead
  proof (rule that)
    show "tr_ranks R = take (nat k) (ddpToFront ring lead)" "tr_slots R = take (nat k) (ddpToFront slots lead)"
      by (simp_all add: R)
    show "tr_weights R = []" if "weights = []" using that \<open>2 \<le> length ring\<close> \<open>1 \<le> k\<close> by (simp add: R)
    show "tr_weights R = ddpNormaliseWeights (take (nat k) (ddpToFront weights lead))" if "length weights = length ring"
      using that nat_le_iff [THEN iffD1, OF n(2)] by (simp add: R Let_def)
  qed
qed

definition shares_ok :: "training_ring \<Rightarrow> bool" where
  "shares_ok R \<longleftrightarrow> tr_weights R = []
     \<or> length (tr_weights R) = length (tr_ranks R) \<and> list_all (\<lambda>x. 0 < x) (tr_weights R) \<and> sum_list (tr_weights R) = 1"

text \<open>C27: The ring that a training run assembles has at least two ranks and no more than asked for; its
  lead is a node whose address means the same to every rank; every seat is an accelerator slot of a
  healthy node that the options allow, no slot is given to two ranks, the ring keeps to one kind of
  device when a GPU is wanted, and its shares, when it has any, are positive and add up to one.\<close>

theorem training_ring_is_sound:
  assumes nodes: "ge_nodes e = Some nodes" "distinct (map nr_NodeID nodes)"
      "list_all (\<lambda>n. CHR ''#'' \<notin> set (nr_NodeID n)) nodes"
    and ring: "assemble opt (ddpChooseRing e opt rank0) = Assembled R"
  shows "2 \<le> length (tr_ranks R) \<and> int (length (tr_ranks R)) \<le> go_Nodes opt
    \<and> can_lead (go_SelfMachine opt) (hd (tr_ranks R))
    \<and> length (tr_slots R) = length (tr_ranks R) \<and> distinct (map seat_key (zip (tr_ranks R) (tr_slots R)))
    \<and> list_all (seat_ok e opt nodes) (zip (tr_ranks R) (tr_slots R))
    \<and> one_kind opt (tr_ranks R) \<and> shares_ok R"
proof -
  obtain ring slots weights where c: "ddpChooseRing e opt rank0 = (ring, slots, weights)" by (cases "ddpChooseRing e opt rank0")
  obtain lead n where a: "2 \<le> length ring" "1 \<le> n" "n \<le> length ring" "int n \<le> go_Nodes opt"
    "n = length ring \<or> int n = go_Nodes opt" "ddpLeadIndex ring (go_SelfMachine opt) = Some lead"
    "tr_ranks R = take n (ddpToFront ring lead)" "tr_slots R = take n (ddpToFront slots lead)"
    "weights = [] \<Longrightarrow> tr_weights R = []"
    "length weights = length ring \<Longrightarrow> tr_weights R = ddpNormaliseWeights (take n (ddpToFront weights lead))"
    using ring [unfolded c] by (rule assembled) blast
  note ch = chosen_ring [OF nodes c a(1)]
  note lead = lead_found [OF a(6)]
  have two: "2 \<le> length (tr_ranks R)" using ch(6) a by auto
  have "hd (tr_ranks R) = ring ! lead" using a(2,7) lead(1) by (simp add: ToFront_hd hd_take)
  moreover have zip: "zip (tr_ranks R) (tr_slots R) = take n (ddpToFront (zip ring slots) lead)"
    using ch(1) by (simp add: a(7,8) take_zip [symmetric] ToFront_zip)
  moreover have "distinct (map seat_key (take n (ddpToFront (zip ring slots) lead)))"
    using ch(2) by (simp flip: take_map add: ToFront_distinct distinct_take)
  moreover have "list_all (seat_ok e opt nodes) (take n (ddpToFront (zip ring slots) lead))"
    using ch(3) by (simp add: list_all_take ToFront_list_all)
  moreover have "one_kind opt (tr_ranks R)" using ch(4) by (simp add: a(7) one_kind_take)
  moreover have "shares_ok R"
  proof (cases "weights = []")
    case False
    let ?w = "take n (ddpToFront weights lead)"
    have w: "length weights = length ring" "list_all (\<lambda>x. 0 < x) weights" using ch(5) False by auto
    have "?w \<noteq> []" using a(2) w(1) a(1) by (metis ToFront_length list.size(3) not_numeral_le_zero take_eq_Nil not_one_le_zero)
    moreover have "list_all (\<lambda>x. 0 < x) ?w" using w(2) by (simp add: list_all_take ToFront_list_all)
    ultimately show ?thesis using normalised_sum [of ?w] a(3,7,10) w(1) by (simp add: shares_ok_def)
  qed (simp add: shares_ok_def a(9))
  ultimately show ?thesis using two a(3,4,7,8) lead(2) ch(1) by simp
qed

subsection \<open>Where the rounds go\<close>

fun is_butterfly :: "sync_route \<Rightarrow> bool" where
  "is_butterfly (Butterfly _) \<longleftrightarrow> True"
| "is_butterfly _ \<longleftrightarrow> False"

lemma map_of_tagged: "map_of (map (\<lambda>i. (i, f i)) (filter P xs)) k = (if k \<in> set xs \<and> P k then Some (f k) else None)"
  by (induction xs) auto

lemma local_ranks_at:
  "map_of (ddpLocalRanks ring) i =
     (if i < length ring \<and> 0 < i \<and> 2 \<le> length (ranks_on ring (nr_NodeID (ring ! i)))
      then Some (Join '','' (map decimal (ranks_on ring (nr_NodeID (ring ! i))))) else None)"
  by (simp add: ddpLocalRanks_def map_of_tagged)

declare decimal_not_Nil [simp]

lemma Join_two: "1 < length ws \<Longrightarrow> sep \<noteq> [] \<Longrightarrow> Join sep ws \<noteq> []"
  by (induction sep ws rule: Join.induct) auto

lemma local_text: "map_of (ddpLocalRanks ring) i = Some ranks \<Longrightarrow> ranks \<noteq> []"
  using Join_two [of "map decimal (ranks_on ring (nr_NodeID (ring ! i)))" "'',''"]
  by (auto simp: local_ranks_at split: if_splits)

lemma peer_urls_given:
  "ddpPeerURLs f ring i self \<noteq> [] \<longleftrightarrow> 3 \<le> length ring \<and> i < length ring \<and> list_all (can_lead self) ring"
proof -
  have "list_ex (\<lambda>n. ddpForwardedLead n self) ring \<longleftrightarrow> \<not> list_all (can_lead self) ring"
    by (simp add: list_ex_iff list_all_iff can_lead_def)
  moreover have "3 \<le> length ring \<Longrightarrow> Join '','' (map g ring) \<noteq> []" for g
    using Join_two [of "map g ring" "'',''"] by simp
  ultimately show ?thesis by (auto simp: ddpPeerURLs_def not_less)
qed

lemma route_of_start:
  assumes "i < length ring"
  shows "is_butterfly (sync_route_of f ring self i False)
    \<longleftrightarrow> 3 \<le> length ring \<and> list_all (can_lead self) ring \<and> ddpLocalRanks ring = []"
proof (cases "map_of (ddpLocalRanks ring) i")
  case None
  then show ?thesis using assms peer_urls_given [of f ring i self] by (auto simp: sync_route_of_def Let_def)
next
  case (Some ranks)
  then have "ddpLocalRanks ring \<noteq> []" by auto
  with Some local_text [OF Some] show ?thesis by (simp add: sync_route_of_def Let_def)
qed

text \<open>The ranks a run starts with agree on where each round goes: either all of them take the
  butterfly or none does, and a rank that averages on its own machine first is one of two or more
  ranks of a node that is not the lead's, and is given the list of exactly those ranks.\<close>

theorem sync_routes_agree:
  assumes "i < length ring" "j < length ring"
  shows "is_butterfly (sync_route_of f ring self i False) = is_butterfly (sync_route_of f ring self j False)
    \<and> (\<forall>ranks. sync_route_of f ring self i False = LocalFirst ranks \<longrightarrow>
         0 < i \<and> nr_NodeID (ring ! i) \<noteq> nr_NodeID (ring ! 0) \<and> 2 \<le> length (ranks_on ring (nr_NodeID (ring ! i)))
         \<and> ranks = Join '','' (map decimal (ranks_on ring (nr_NodeID (ring ! i)))))"
proof (intro conjI allI impI)
  show "is_butterfly (sync_route_of f ring self i False) = is_butterfly (sync_route_of f ring self j False)"
    using assms by (simp add: route_of_start)
next
  fix ranks assume "sync_route_of f ring self i False = LocalFirst ranks"
  then have "map_of (ddpLocalRanks ring) i = Some ranks"
    by (simp add: sync_route_of_def Let_def split: option.splits if_splits)
  then have l: "0 < i" "2 \<le> length (ranks_on ring (nr_NodeID (ring ! i)))"
    "ranks = Join '','' (map decimal (ranks_on ring (nr_NodeID (ring ! i))))"
    by (auto simp: local_ranks_at split: if_splits)
  then have "ranks_on ring (nr_NodeID (ring ! i)) \<noteq> []" by auto
  then obtain k where "k \<in> set (ranks_on ring (nr_NodeID (ring ! i)))" by (metis list.set_intros(1) neq_Nil_conv)
  then show "nr_NodeID (ring ! i) \<noteq> nr_NodeID (ring ! 0)" by (auto simp: ranks_on_def)
  show "0 < i" "2 \<le> length (ranks_on ring (nr_NodeID (ring ! i)))"
    "ranks = Join '','' (map decimal (ranks_on ring (nr_NodeID (ring ! i))))" by fact+
qed

subsection \<open>Threads\<close>

lemma ranks_here_positive: "i < length ring \<Longrightarrow> 0 < ranks_here ring (ring ! i)"
  by (auto simp: ranks_here_def length_greater_0_conv filter_empty_conv)

text \<open>A machine with a core for every rank on it is not oversubscribed; otherwise a rank gets one thread.\<close>

theorem threads_share_the_cores:
  assumes "i < length ring" "0 < reported_cores (ring ! i)"
  shows "1 \<le> rank_threads ring i
    \<and> (if int (ranks_here ring (ring ! i)) \<le> reported_cores (ring ! i)
       then rank_threads ring i * int (ranks_here ring (ring ! i)) \<le> reported_cores (ring ! i)
       else rank_threads ring i = 1)"
proof -
  let ?h = "int (ranks_here ring (ring ! i))" and ?c = "reported_cores (ring ! i)"
  have h: "0 < ?h" using ranks_here_positive [OF assms(1)] by simp
  then have div: "go_div ?c ?h = ?c div ?h" using assms(2) by (simp add: go_div_nonneg)
  show ?thesis
  proof (cases "?h \<le> ?c")
    case True
    have "1 \<le> ?c div ?h" using True h by (simp add: pos_imp_zdiv_pos_iff int_one_le_iff_zero_less)
    then have "rank_threads ring i = ?c div ?h" by (simp add: rank_threads_def div)
    moreover have "?c div ?h * ?h \<le> ?c" using h by (metis div_mult_mod_eq le_add_same_cancel1 pos_mod_sign)
    ultimately show ?thesis using True \<open>1 \<le> ?c div ?h\<close> by simp
  next
    case False
    then have "?c div ?h = 0" using assms(2) by (simp add: div_pos_pos_trivial)
    then show ?thesis using False by (simp add: rank_threads_def div)
  qed
qed

subsection \<open>Counting the ranks that fit\<close>

text \<open>The nodes that count, and what they add up to.\<close>

definition may_host :: "rank_demand \<Rightarrow> string \<Rightarrow> node_record \<Rightarrow> bool" where
  "may_host d self n \<longleftrightarrow> nr_State n = ''healthy'' \<and> capability n RoleCapability = []
     \<and> \<not> SameMachine (capability n MachineCapability) (dm_exclude d)
     \<and> ddpNativeRefusal (dm_native d) n self = [] \<and> (gpu_fits d n \<or> cpu_fits d n)"

lemma rank_node_fold:
  "fst (fold (rank_node override d self) nodes acc)
     = fst acc + sum_list (map (ddpSlots override) (filter (may_host d self) nodes))"
  by (induction nodes arbitrary: acc) (auto simp: rank_node_def may_host_def Let_def split: prod.splits)

lemma eligible_ranks_counted:
  "fst (ddpEligibleRanks override d self (Some nodes))
     = sum_list (map (ddpSlots override) (filter (may_host d (if dm_native d then self else [])) nodes))"
  by (simp add: ddpEligibleRanks_def rank_node_fold)

text \<open>The loop that waits for busy nodes, when its clock advances by the wait of two seconds.\<close>

definition waits :: "(nat \<Rightarrow> int \<times> refusal list) \<Rightarrow> nat \<Rightarrow> bool" where
  "waits ask k \<longleftrightarrow> fst (ask k) < 2 \<and> list_ex rf_busy (snd (ask k))"

lemma settle_ends:
  assumes "\<And>j. k \<le> j \<Longrightarrow> start + 2000000000 * int j \<le> clock j" "deadline \<le> start + 2000000000 * int (k + m)"
  shows "\<exists>j. k \<le> j \<and> j \<le> k + m \<and> settle ask clock cancelled deadline k = Some (ask j)
    \<and> (waits ask j \<longrightarrow> deadline \<le> clock j \<or> cancelled j)"
  using assms
proof (induction m arbitrary: k)
  case 0
  have "start + 2000000000 * int k \<le> clock k" by (rule "0.prems"(1)) simp
  then have "deadline \<le> clock k" using "0.prems"(2) by simp
  then show ?case by (intro exI [of _ k]) (simp add: settle.simps)
next
  case (Suc m)
  show ?case
  proof (cases "waits ask k \<and> clock k < deadline \<and> \<not> cancelled k")
    case True
    have "\<exists>j. Suc k \<le> j \<and> j \<le> Suc k + m \<and> settle ask clock cancelled deadline (Suc k) = Some (ask j)
        \<and> (waits ask j \<longrightarrow> deadline \<le> clock j \<or> cancelled j)"
      using Suc.prems by (intro Suc.IH) auto
    moreover have "settle ask clock cancelled deadline k = settle ask clock cancelled deadline (Suc k)"
      using True by (subst settle.simps) (simp add: waits_def)
    ultimately show ?thesis by (auto intro: Suc_leD)
  next
    case False
    have "settle ask clock cancelled deadline k = Some (ask k)"
      using False by (subst settle.simps) (auto simp: waits_def)
    then show ?thesis using False by (intro exI [of _ k]) auto
  qed
qed

theorem settled_count_returns:
  assumes "\<And>k. start + 2000000000 * int k \<le> clock k"
  shows "\<exists>j \<le> 13. ddpEligibleSettled ask start clock cancelled = Some (ask j)
    \<and> (waits ask j \<longrightarrow> start + ddpSettleWait \<le> clock j \<or> cancelled j)"
  using settle_ends [of 0 start clock "start + ddpSettleWait" 13 ask cancelled] assms
  by (simp add: ddpEligibleSettled_def ddpSettleWait_def)

subsection \<open>Evaluation at concrete inputs\<close>

definition ex_ring_node :: "string \<Rightarrow> string \<Rightarrow> string \<Rightarrow> node_record" where
  "ex_ring_node i endpoint machine =
     \<lparr>nr_NodeID = i, nr_SSHEndpoint = endpoint, nr_DaemonPort = 0, nr_Capabilities = [(MachineCapability, machine)],
      nr_Load = no_load\<lparr>ld_TotalCPUs := 4\<rparr>, nr_HealthScore = 1, nr_State = ''healthy''\<rparr>"

definition ex_ring_options :: ring_options where
  "ex_ring_options = \<lparr>go_Nodes = 2, go_DaemonPort = 80, go_Envs = [], go_GPUDevices = [], go_RequireGPU = False,
     go_PreferGPU = False, go_NoSelf = False, go_ExcludeMachine = [], go_SelfNodeID = ''a'', go_Native = False,
     go_SelfMachine = ''A'', go_MaxRanks = 2\<rparr>"

definition ex_ring_env :: ring_env where
  "ex_ring_env = \<lparr>ge_nodes = Some [ex_ring_node ''b'' ''127.0.0.1:9'' ''B'', ex_ring_node ''a'' ''127.0.0.1:22'' ''A''],
     ge_override = [], ge_equal_batches = False, ge_probe = (\<lambda>c. Some (if ca_NodeID c = ''b'' then 3 else 1))\<rparr>"

definition ex_ring :: training_ring where
  "ex_ring = \<lparr>tr_ranks = [(ex_ring_node ''a'' ''127.0.0.1:22'' ''A'')\<lparr>nr_DaemonPort := 80\<rparr>,
     (ex_ring_node ''b'' ''127.0.0.1:9'' ''B'')\<lparr>nr_DaemonPort := 80\<rparr>], tr_slots = [0, 0], tr_weights = [1 / 4, 3 / 4]\<rparr>"

text \<open>The faster machine is behind a forwarder, so the slower one leads.\<close>

lemma ex_ring_eval: "assemble ex_ring_options (ddpChooseRing ex_ring_env ex_ring_options no_node) = Assembled ex_ring"
  by code_simp

theorem training_ring_is_sound_witness:
  "map nr_NodeID (tr_ranks ex_ring) = [''a'', ''b''] \<and> can_lead ''A'' (hd (tr_ranks ex_ring)) \<and> shares_ok ex_ring
   \<and> distinct (map seat_key (zip (tr_ranks ex_ring) (tr_slots ex_ring)))"
proof -
  define nodes where "nodes = [ex_ring_node ''b'' ''127.0.0.1:9'' ''B'', ex_ring_node ''a'' ''127.0.0.1:22'' ''A'']"
  have "ge_nodes ex_ring_env = Some nodes" by (simp add: ex_ring_env_def nodes_def)
  moreover have "distinct (map nr_NodeID nodes)" "list_all (\<lambda>n. CHR ''#'' \<notin> set (nr_NodeID n)) nodes"
    by (simp_all add: nodes_def ex_ring_node_def)
  ultimately show ?thesis
    using training_ring_is_sound [OF _ _ _ ex_ring_eval] by (simp add: ex_ring_options_def ex_ring_def ex_ring_node_def)
qed

theorem sync_routes_agree_witness:
  "is_butterfly (sync_route_of id [ex_ring_node ''a'' ''1.1.1.1'' [], ex_ring_node ''b'' ''1.1.1.2'' [], ex_ring_node ''c'' ''1.1.1.3'' []] [] 2 False)"
proof -
  let ?ring = "[ex_ring_node ''a'' ''1.1.1.1'' [], ex_ring_node ''b'' ''1.1.1.2'' [], ex_ring_node ''c'' ''1.1.1.3'' []]"
  have "is_butterfly (sync_route_of id ?ring [] 0 False)" by code_simp
  then show ?thesis using sync_routes_agree [of 0 ?ring 2 id "[]"] by simp
qed

theorem threads_share_the_cores_witness:
  "rank_threads [ex_ring_node ''a'' [] ''m'', ex_ring_node ''b'' [] ''m''] 1 * 2 \<le> 4"
proof -
  let ?ring = "[ex_ring_node ''a'' [] ''m'', ex_ring_node ''b'' [] ''m'']"
  have "reported_cores (?ring ! 1) = 4" "ranks_here ?ring (?ring ! 1) = 2"
    by (simp_all add: ex_ring_node_def reported_cores_def ranks_here_def machine_of_def capability_def)
  then show ?thesis using threads_share_the_cores [of 1 ?ring] by simp
qed

theorem settled_count_returns_witness:
  "\<exists>j \<le> 13. ddpEligibleSettled (\<lambda>_. (1, [\<lparr>rf_node = [], rf_reason = NoGPUForced, rf_busy = True\<rparr>])) 0
      (\<lambda>k. 2000000000 * int k) (\<lambda>_. False) = Some (1, [\<lparr>rf_node = [], rf_reason = NoGPUForced, rf_busy = True\<rparr>])
    \<and> 25000000000 \<le> 2000000000 * int j"
  using settled_count_returns [of 0 "\<lambda>k. 2000000000 * int k"
      "\<lambda>_. (1, [\<lparr>rf_node = [], rf_reason = NoGPUForced, rf_busy = True\<rparr>])" "\<lambda>_. False"]
  by (simp add: waits_def ddpSettleWait_def)

end
