(* ===== verification/DdpCrew.thy ===== *)
theory DdpCrew
  imports DdpPlan
begin

text \<open>
  The ranks of a training run while it lasts: \<^verbatim>\<open>src/ddpdown.go\<close> waits for every rank and decides how
  the run ends, \<^verbatim>\<open>src/ddpup.go\<close> finds machines to add. \<open>ddpAwaitRanks\<close> is a step relation whose
  steps are the messages its select can take; what it does to the outside (a rank cancelled, a rank
  reported to the lead's daemon) is a log. \<open>ddpGrower.run\<close> is one function per tick. An error is a
  record of what the code asks of it; whether the run's context is cancelled is read once per message
  and carried by it. Lines printed are not modelled.
\<close>

subsection \<open>How a rank ends\<close>

record run_error =
  er_build :: bool
  er_sandbox :: bool
  er_closureRefused :: bool
  er_cancelled :: bool
  er_exit :: "int option"
  er_text :: string

definition ddpMissedStartExit :: int where "ddpMissedStartExit = 75"
definition ddpStoppedExit :: int where "ddpStoppedExit = 76"
definition ddpReleasedExit :: int where "ddpReleasedExit = 77"

definition ddpExitCode :: "run_error \<Rightarrow> int" where
  "ddpExitCode err = (case er_exit err of Some code \<Rightarrow> code | None \<Rightarrow> -1)"

definition ddpMissedStart :: "run_error \<Rightarrow> bool" where
  "ddpMissedStart err \<longleftrightarrow> ddpExitCode err = ddpMissedStartExit"

definition IsPermanent :: "run_error \<Rightarrow> bool" where
  "IsPermanent err \<longleftrightarrow>
     (if er_build err then True
      else if er_sandbox err then False
      else if er_closureRefused err then True
      else case er_exit err of Some code \<Rightarrow> 0 < code \<and> code \<le> 125 | None \<Rightarrow> False)"

subsection \<open>Waiting for the ranks\<close>

text \<open>The first failure of a rank, why a run fails while ranks still run, and what the run returns.\<close>

datatype rank_failure = RankFailed nat string run_error

datatype verdict = TrainingStopped nat string | ScriptFailed nat string run_error | LeadDied nat string run_error

datatype run_failure = FirstFailed rank_failure "(nat \<times> string) list" | Fatal verdict | NoRankFinished

datatype crew_act = CancelRank nat | ReportDown nat run_error

record crew =
  cw_hosts :: "string list"
  cw_running :: int
  cw_ended :: "nat list"
  cw_finished :: bool
  cw_joiners :: "nat list"
  cw_grace :: bool
  cw_stopped :: bool
  cw_firstErr :: "rank_failure option"
  cw_died :: "nat list"
  cw_fatal :: "verdict option"
  cw_fatalFirst :: bool
  cw_others :: "(nat \<times> string) list"
  cw_refused :: "nat list"
  cw_ok :: int
  cw_acts :: "crew_act list"

definition crew_start :: "string list \<Rightarrow> crew" where
  "crew_start hosts = \<lparr>cw_hosts = hosts, cw_running = int (length hosts), cw_ended = [], cw_finished = False,
     cw_joiners = [], cw_grace = False, cw_stopped = False, cw_firstErr = None, cw_died = [], cw_fatal = None,
     cw_fatalFirst = False, cw_others = [], cw_refused = [], cw_ok = 0, cw_acts = []\<rparr>"

text \<open>\<open>stop\<close> lists the starting ranks that can be stopped on their own.\<close>

definition cancel_rest :: "nat list \<Rightarrow> crew \<Rightarrow> crew" where
  "cancel_rest stop s = s\<lparr>cw_acts := cw_acts s @ map CancelRank (cw_joiners s)
     @ map CancelRank (filter (\<lambda>r. r \<notin> set (cw_ended s)) stop)\<rparr>"

definition abort :: "nat list \<Rightarrow> verdict \<Rightarrow> crew \<Rightarrow> crew" where
  "abort stop why s =
     (if cw_fatal s \<noteq> None then s
      else cancel_rest stop (s\<lparr>cw_fatal := Some why, cw_stopped := True, cw_grace := False,
        cw_fatalFirst := (cw_others s = [])\<rparr>))"

text \<open>The top of the loop: the grace period starts when only joiners are left or a rank has finished.\<close>

definition arm_grace :: "crew \<Rightarrow> crew" where
  "arm_grace s =
     (if \<not> cw_grace s \<and> \<not> cw_stopped s
         \<and> (cw_finished s \<or> cw_joiners s \<noteq> [] \<and> cw_running s = int (length (cw_joiners s)))
      then s\<lparr>cw_grace := True\<rparr> else s)"

definition put_host :: "nat \<Rightarrow> string \<Rightarrow> string list \<Rightarrow> string list" where
  "put_host rank host hosts =
     (let hosts = hosts @ replicate (Suc rank - length hosts) ''?'' in hosts[rank := host])"

definition on_added :: "nat \<Rightarrow> string \<Rightarrow> crew \<Rightarrow> crew" where
  "on_added rank host s =
     (let s = s\<lparr>cw_hosts := put_host rank host (cw_hosts s), cw_running := cw_running s + 1\<rparr>
      in if cw_fatal s \<noteq> None
         then s\<lparr>cw_refused := rank # cw_refused s, cw_acts := cw_acts s @ [CancelRank rank]\<rparr>
         else s\<lparr>cw_joiners := List.insert rank (cw_joiners s)\<rparr>)"

definition on_grace :: "nat list \<Rightarrow> crew \<Rightarrow> crew" where
  "on_grace stop s = cancel_rest stop (s\<lparr>cw_grace := False, cw_stopped := True\<rparr>)"

definition report_down :: "nat \<Rightarrow> run_error \<Rightarrow> crew \<Rightarrow> crew" where
  "report_down rank err s = (if 0 < cw_running s then s\<lparr>cw_acts := cw_acts s @ [ReportDown rank err]\<rparr> else s)"

text \<open>A rank that failed and was not being stopped: \<open>first_err\<close> notes it, \<open>rank_lost\<close> decides.\<close>

definition first_err :: "nat \<Rightarrow> string \<Rightarrow> run_error \<Rightarrow> crew \<Rightarrow> crew" where
  "first_err rank host err s =
     (if cw_firstErr s = None then s\<lparr>cw_firstErr := Some (RankFailed rank host err)\<rparr>
      else s\<lparr>cw_others := cw_others s @ [(rank, host)]\<rparr>)"

definition rank_lost :: "nat list \<Rightarrow> nat \<Rightarrow> string \<Rightarrow> run_error \<Rightarrow> bool \<Rightarrow> crew \<Rightarrow> crew" where
  "rank_lost stop rank host err joiner s =
     (let code = ddpExitCode err
      in if \<not> joiner \<and> code = ddpMissedStartExit then report_down rank err s
         else if \<not> joiner \<and> code = ddpStoppedExit then abort stop (TrainingStopped rank host) s
         else if \<not> joiner \<and> IsPermanent err then abort stop (ScriptFailed rank host err) s
         else if \<not> joiner \<and> rank = 0 then abort stop (LeadDied rank host err) s
         else report_down rank err s)"

definition on_result :: "nat list \<Rightarrow> nat \<Rightarrow> run_error option \<Rightarrow> bool \<Rightarrow> crew \<Rightarrow> crew" where
  "on_result stop rank res ctxDone s =
     (let joiner = rank \<in> set (cw_joiners s);
          s = s\<lparr>cw_running := cw_running s - 1, cw_ended := rank # cw_ended s, cw_joiners := removeAll rank (cw_joiners s)\<rparr>;
          host = (if rank < length (cw_hosts s) then cw_hosts s ! rank else ''?'')
      in case res of
           None \<Rightarrow> s\<lparr>cw_ok := cw_ok s + 1, cw_finished := True\<rparr>
         | Some err \<Rightarrow>
             if ddpExitCode err = ddpReleasedExit \<and> \<not> ctxDone then s
             else if cw_fatal s \<noteq> None
                     \<or> (rank \<in> set (cw_refused s) \<or> cw_stopped s) \<and> er_cancelled err \<and> \<not> ctxDone then s
             else let s = first_err rank host err s
               in if ctxDone then s
                  else rank_lost stop rank host err joiner (s\<lparr>cw_died := cw_died s @ [rank]\<rparr>))"

definition run_result :: "bool \<Rightarrow> crew \<Rightarrow> run_failure option" where
  "run_result ctxDone s =
     (if ctxDone then map_option (\<lambda>f. FirstFailed f []) (cw_firstErr s)
      else if cw_fatal s \<noteq> None \<and> (cw_fatalFirst s \<or> 0 < cw_ok s) then map_option Fatal (cw_fatal s)
      else if cw_ok s = 0
      then Some (case cw_firstErr s of None \<Rightarrow> NoRankFinished | Some f \<Rightarrow> FirstFailed f (cw_others s))
      else None)"

datatype crew_event = RankAdded nat string | GraceOver | RankEnded nat "run_error option" bool

fun crew_step :: "nat list \<Rightarrow> crew_event \<Rightarrow> crew \<Rightarrow> crew" where
  "crew_step stop (RankAdded rank host) s = on_added rank host s"
| "crew_step stop GraceOver s = on_grace stop s"
| "crew_step stop (RankEnded rank res ctxDone) s = on_result stop rank res ctxDone s"

text \<open>
  What can arrive: \<open>start\<close> of \<open>runDDP\<close> announces the rank after the last one; a rank that was started
  ends once; the grace period ends when one is running.
\<close>

fun crew_legal :: "crew_event \<Rightarrow> crew \<Rightarrow> bool" where
  "crew_legal (RankAdded rank host) s \<longleftrightarrow> rank = length (cw_hosts s)"
| "crew_legal GraceOver s \<longleftrightarrow> cw_grace s"
| "crew_legal (RankEnded rank res ctxDone) s \<longleftrightarrow> rank < length (cw_hosts s) \<and> rank \<notin> set (cw_ended s)"

inductive ddpAwaitRanks :: "string list \<Rightarrow> crew_event list \<Rightarrow> crew \<Rightarrow> bool" for hosts :: "string list" where
  waiting: "ddpAwaitRanks hosts [] (crew_start hosts)"
| message: "ddpAwaitRanks hosts es s \<Longrightarrow> 0 < cw_running s \<Longrightarrow> crew_legal e (arm_grace s)
    \<Longrightarrow> ddpAwaitRanks hosts (es @ [e]) (crew_step [0..<length hosts] e (arm_grace s))"

subsection \<open>Machines that may take a new rank\<close>

definition ddpRejoinAfter :: int where "ddpRejoinAfter = 30000000000"
definition ddpMaxRejoins :: int where "ddpMaxRejoins = 2"

record up_state =
  us_known :: "string list"
  us_running :: "(string \<times> int) list"
  us_deadAt :: "(string \<times> int) list"
  us_seenDown :: "string list"
  us_joins :: "(string \<times> int) list"

text \<open>Reading a missing key of a Go map of ints gives 0.\<close>

definition entry :: "(string \<times> int) list \<Rightarrow> string \<Rightarrow> int" where
  "entry t k = (case map_of t k of None \<Rightarrow> 0 | Some v \<Rightarrow> v)"

definition healthy_ids :: "node_record list \<Rightarrow> string list" where
  "healthy_ids nodes = map nr_NodeID (filter (\<lambda>n. nr_State n = ''healthy'') nodes)"

definition newDDPUpState :: "node_record list \<Rightarrow> up_state" where
  "newDDPUpState nodes = \<lparr>us_known = remdups (healthy_ids nodes), us_running = [], us_deadAt = [], us_seenDown = [], us_joins = []\<rparr>"

definition up_started :: "string \<Rightarrow> up_state \<Rightarrow> up_state" where
  "up_started node s = s\<lparr>us_running := AList.update node (entry (us_running s) node + 1) (us_running s),
     us_known := List.insert node (us_known s)\<rparr>"

definition up_ended :: "string \<Rightarrow> bool \<Rightarrow> int \<Rightarrow> up_state \<Rightarrow> up_state" where
  "up_ended node died now s =
     (let s = (if 0 < entry (us_running s) node
               then s\<lparr>us_running := AList.update node (entry (us_running s) node - 1) (us_running s)\<rparr> else s)
      in if died then s\<lparr>us_deadAt := AList.update node now (us_deadAt s), us_seenDown := removeAll node (us_seenDown s)\<rparr>
         else s)"

definition up_live :: "up_state \<Rightarrow> int" where
  "up_live s = sum_list (map snd (us_running s))"

definition note_down :: "node_record list \<Rightarrow> up_state \<Rightarrow> up_state" where
  "note_down nodes s =
     s\<lparr>us_seenDown := fold List.insert (filter (\<lambda>i. i \<notin> set (healthy_ids nodes)) (map fst (us_deadAt s))) (us_seenDown s)\<rparr>"

definition may_take :: "(node_record \<Rightarrow> bool) \<Rightarrow> string list \<Rightarrow> int \<Rightarrow> up_state \<Rightarrow> node_record \<Rightarrow> bool" where
  "may_take want healthy now s n \<longleftrightarrow>
     (let i = nr_NodeID n
      in i \<in> set healthy \<and> \<not> 0 < entry (us_running s) i \<and> \<not> ddpMaxRejoins \<le> entry (us_joins s) i \<and> want n
         \<and> (case map_of (us_deadAt s) i of
              Some died \<Rightarrow> i \<in> set (us_seenDown s) \<or> ddpRejoinAfter \<le> now - died
            | None \<Rightarrow> i \<notin> set (us_known s)))"

text \<open>\<open>sort.Slice\<close> by node id, taken stable.\<close>

definition up_pick :: "node_record list \<Rightarrow> int \<Rightarrow> (node_record \<Rightarrow> bool) \<Rightarrow> up_state \<Rightarrow> node_record option \<times> up_state" where
  "up_pick nodes now want s =
     (let s = note_down nodes s
      in (List.find (may_take want (healthy_ids nodes) now s) (sort_key nr_NodeID nodes), s))"

definition up_took :: "string \<Rightarrow> up_state \<Rightarrow> up_state" where
  "up_took node s = s\<lparr>us_joins := AList.update node (entry (us_joins s) node + 1) (us_joins s),
     us_deadAt := AList.delete node (us_deadAt s), us_seenDown := removeAll node (us_seenDown s)\<rparr>"

subsection \<open>The watch for machines\<close>

text \<open>
  What asking the lead's daemon gives: \<open>Unreachable\<close> is a request that failed, a refusal is final
  when asking again is pointless. \<open>body\<close> is the error and the final flag of a reply that is JSON.
\<close>

datatype join_answer = MayJoin | JoinRefused string bool | Unreachable string

definition ddpJoinCheck :: "int \<Rightarrow> (string \<times> bool) option \<Rightarrow> join_answer" where
  "ddpJoinCheck status body =
     (if status = 200 then MayJoin
      else case body of
          Some (msg, final) \<Rightarrow> if status = 409 \<and> msg \<noteq> [] then JoinRefused msg final
            else JoinRefused (''the lead daemon cannot take ranks mid-run (HTTP '' @ Itoa status @ '')'') (status = 404 \<or> status = 405)
        | None \<Rightarrow> JoinRefused (''the lead daemon cannot take ranks mid-run (HTTP '' @ Itoa status @ '')'') (status = 404 \<or> status = 405))"

text \<open>What one tick of the watch meets: the daemon's list, the time, the lead's answer, and whether the run takes it.\<close>

record tick_env =
  ti_nodes :: "node_record list option"
  ti_now :: int
  ti_answer :: join_answer
  ti_taken :: bool

datatype tick_end = KeepWatching | WatchOver

definition grow_wanted :: "ring_options \<Rightarrow> bool \<Rightarrow> node_record \<Rightarrow> bool" where
  "grow_wanted opt gpuRing n \<longleftrightarrow>
     \<not> ddpExcluded opt n \<and> (\<not> (go_RequireGPU opt \<or> go_PreferGPU opt) \<or> ddpHasGPU n = gpuRing)"

text \<open>The start of a rank that joins is \<open>start\<close> of \<open>runDDP\<close>: the launch notes it as running.\<close>

definition grow_tick ::
  "ring_options \<Rightarrow> (node_record \<Rightarrow> bool) \<Rightarrow> tick_env \<Rightarrow> up_state \<Rightarrow> tick_end \<times> node_record option \<times> up_state" where
  "grow_tick opt want e s =
     (if 0 < go_MaxRanks opt \<and> go_MaxRanks opt \<le> up_live s then (KeepWatching, None, s)
      else case ti_nodes e of
        None \<Rightarrow> (KeepWatching, None, s)
      | Some nodes \<Rightarrow>
          (case up_pick nodes (ti_now e) want s of
             (None, s) \<Rightarrow> (KeepWatching, None, s)
           | (Some n, s) \<Rightarrow>
               (case ti_answer e of
                  JoinRefused _ final \<Rightarrow> (if final then WatchOver else KeepWatching, None, s)
                | Unreachable _ \<Rightarrow> (KeepWatching, None, s)
                | MayJoin \<Rightarrow>
                    let s = up_took (nr_NodeID n) s
                    in if ti_taken e then (KeepWatching, Some n, up_started (nr_NodeID n) s) else (WatchOver, None, s))))"

text \<open>
  A run's watch: ends of ranks and ticks in any order, no tick once the watch is over. \<open>joined\<close> lists
  the nodes given a rank.
\<close>

inductive ddpGrower ::
  "ring_options \<Rightarrow> (node_record \<Rightarrow> bool) \<Rightarrow> up_state \<Rightarrow> tick_end \<Rightarrow> node_record list \<Rightarrow> up_state \<Rightarrow> bool"
  for opt :: ring_options and want :: "node_record \<Rightarrow> bool" and s0 :: up_state where
  begun: "ddpGrower opt want s0 KeepWatching [] s0"
| rank_ended: "ddpGrower opt want s0 w joined s \<Longrightarrow> ddpGrower opt want s0 w joined (up_ended node died now s)"
| tick: "ddpGrower opt want s0 KeepWatching joined s \<Longrightarrow> grow_tick opt want e s = (w, started, s')
    \<Longrightarrow> ddpGrower opt want s0 w (joined @ (case started of None \<Rightarrow> [] | Some n \<Rightarrow> [n])) s'"

subsection \<open>What holds while the ranks are awaited\<close>

lemma abort_simps [simp]:
  "cw_hosts (abort stop why s) = cw_hosts s" "cw_running (abort stop why s) = cw_running s"
  "cw_ended (abort stop why s) = cw_ended s" "cw_joiners (abort stop why s) = cw_joiners s"
  "cw_refused (abort stop why s) = cw_refused s" "cw_ok (abort stop why s) = cw_ok s"
  "cw_firstErr (abort stop why s) = cw_firstErr s" "cw_others (abort stop why s) = cw_others s"
  "cw_finished (abort stop why s) = cw_finished s"
  "cw_fatal (abort stop why s) = (case cw_fatal s of None \<Rightarrow> Some why | Some v \<Rightarrow> Some v)"
  "cw_acts (abort stop why s) = (if cw_fatal s = None then cw_acts s @ map CancelRank (cw_joiners s)
     @ map CancelRank (filter (\<lambda>r. r \<notin> set (cw_ended s)) stop) else cw_acts s)"
  by (auto simp: abort_def cancel_rest_def)

lemma cancel_rest_simps [simp]:
  "cw_hosts (cancel_rest stop s) = cw_hosts s" "cw_running (cancel_rest stop s) = cw_running s"
  "cw_ended (cancel_rest stop s) = cw_ended s" "cw_joiners (cancel_rest stop s) = cw_joiners s"
  "cw_refused (cancel_rest stop s) = cw_refused s" "cw_ok (cancel_rest stop s) = cw_ok s"
  "cw_firstErr (cancel_rest stop s) = cw_firstErr s" "cw_others (cancel_rest stop s) = cw_others s"
  "cw_finished (cancel_rest stop s) = cw_finished s" "cw_fatal (cancel_rest stop s) = cw_fatal s"
  by (simp_all add: cancel_rest_def)

lemma report_down_simps [simp]:
  "cw_hosts (report_down r err s) = cw_hosts s" "cw_running (report_down r err s) = cw_running s"
  "cw_ended (report_down r err s) = cw_ended s" "cw_joiners (report_down r err s) = cw_joiners s"
  "cw_refused (report_down r err s) = cw_refused s" "cw_ok (report_down r err s) = cw_ok s"
  "cw_firstErr (report_down r err s) = cw_firstErr s" "cw_others (report_down r err s) = cw_others s"
  "cw_finished (report_down r err s) = cw_finished s" "cw_fatal (report_down r err s) = cw_fatal s"
  "set (cw_acts s) \<subseteq> set (cw_acts (report_down r err s))"
  by (auto simp: report_down_def)

lemma first_err_simps [simp]:
  "cw_hosts (first_err r h err s) = cw_hosts s" "cw_running (first_err r h err s) = cw_running s"
  "cw_ended (first_err r h err s) = cw_ended s" "cw_joiners (first_err r h err s) = cw_joiners s"
  "cw_refused (first_err r h err s) = cw_refused s" "cw_ok (first_err r h err s) = cw_ok s"
  "cw_finished (first_err r h err s) = cw_finished s" "cw_fatal (first_err r h err s) = cw_fatal s"
  "cw_acts (first_err r h err s) = cw_acts s" "cw_died (first_err r h err s) = cw_died s"
  "cw_firstErr (first_err r h err s) \<noteq> None"
  by (simp_all add: first_err_def)

lemma put_host_length: "length (put_host rank host hosts) = max (length hosts) (Suc rank)"
  by (auto simp: put_host_def Let_def)

fun verdict_rank :: "verdict \<Rightarrow> nat" where
  "verdict_rank (TrainingStopped r _) = r"
| "verdict_rank (ScriptFailed r _ _) = r"
| "verdict_rank (LeadDied r _ _) = r"

definition going :: "crew \<Rightarrow> nat set" where
  "going s = {..<length (cw_hosts s)} - set (cw_ended s)"

definition cancelled :: "crew \<Rightarrow> nat set" where
  "cancelled s = {r. CancelRank r \<in> set (cw_acts s)}"

text \<open>The bookkeeping; \<open>n\<close> is the number of ranks the run started with.\<close>

definition crew_inv :: "nat \<Rightarrow> crew \<Rightarrow> bool" where
  "crew_inv n s \<longleftrightarrow> n \<le> length (cw_hosts s)
     \<and> set (cw_ended s) \<subseteq> {..<length (cw_hosts s)} \<and> distinct (cw_ended s)
     \<and> cw_running s = int (length (cw_hosts s)) - int (length (cw_ended s))
     \<and> set (cw_joiners s) \<subseteq> {n..} \<inter> going s
     \<and> (cw_fatal s = None \<longrightarrow> {n..} \<inter> going s \<subseteq> set (cw_joiners s))
     \<and> (cw_fatal s \<noteq> None \<longrightarrow> going s \<subseteq> cancelled s)
     \<and> (\<forall>v. cw_fatal s = Some v \<longrightarrow> verdict_rank v < n \<and> cw_firstErr s \<noteq> None)"

lemma crew_inv_start: "crew_inv (length hosts) (crew_start hosts)"
  by (auto simp: crew_inv_def crew_start_def going_def)

lemma crew_inv_arm [simp]: "crew_inv n (arm_grace s) = crew_inv n s"
  by (simp add: arm_grace_def crew_inv_def going_def cancelled_def)

lemma crew_inv_added:
  assumes "crew_inv n s" "rank = length (cw_hosts s)"
  shows "crew_inv n (on_added rank host s)"
proof -
  have "rank \<notin> set (cw_ended s)" using assms by (auto simp: crew_inv_def)
  then have "going (on_added rank host s) = insert rank (going s)"
    using assms(2) by (auto simp: going_def on_added_def put_host_length Let_def)
  then show ?thesis
    using assms by (auto simp: crew_inv_def on_added_def put_host_length cancelled_def Let_def less_SucI)
qed

lemma going_cover:
  assumes "crew_inv n s"
  shows "going s \<subseteq> cancelled s \<union> set (cw_joiners s) \<union> {r. r < n \<and> r \<notin> set (cw_ended s)}"
proof
  fix r assume r: "r \<in> going s"
  have all: "cw_fatal s \<noteq> None \<longrightarrow> going s \<subseteq> cancelled s"
    and joining: "cw_fatal s = None \<longrightarrow> {n..} \<inter> going s \<subseteq> set (cw_joiners s)" using assms by (simp_all add: crew_inv_def)
  have ended: "r \<notin> set (cw_ended s)" using r by (simp add: going_def)
  show "r \<in> cancelled s \<union> set (cw_joiners s) \<union> {r. r < n \<and> r \<notin> set (cw_ended s)}"
  proof (cases "r < n")
    case False
    then have "r \<in> {n..} \<inter> going s" using r by simp
    then show ?thesis using all joining r by blast
  qed (simp add: ended)
qed

lemma crew_inv_grace:
  assumes "crew_inv n s"
  shows "crew_inv n (on_grace [0..<n] s) \<and> going (on_grace [0..<n] s) \<subseteq> cancelled (on_grace [0..<n] s)"
proof -
  have g: "going (on_grace [0..<n] s) = going s" by (simp add: going_def on_grace_def)
  have c: "cancelled (on_grace [0..<n] s) = cancelled s \<union> set (cw_joiners s) \<union> {r. r < n \<and> r \<notin> set (cw_ended s)}"
    by (auto simp: cancelled_def on_grace_def cancel_rest_def)
  then have "going s \<subseteq> cancelled (on_grace [0..<n] s)" using going_cover [OF assms] by simp
  then show ?thesis using assms unfolding crew_inv_def g by (auto simp: on_grace_def)
qed

text \<open>The end of a rank: first the bookkeeping, then what is made of it.\<close>

definition note_end :: "nat \<Rightarrow> crew \<Rightarrow> crew" where
  "note_end rank s = s\<lparr>cw_running := cw_running s - 1, cw_ended := rank # cw_ended s, cw_joiners := removeAll rank (cw_joiners s)\<rparr>"

lemma crew_inv_note:
  assumes "crew_inv n s" "rank < length (cw_hosts s)" "rank \<notin> set (cw_ended s)"
  shows "crew_inv n (note_end rank s)"
  using assms by (auto simp: crew_inv_def note_end_def going_def cancelled_def)

lemma crew_inv_cong:
  assumes "crew_inv n s" "cw_hosts t = cw_hosts s" "cw_ended t = cw_ended s" "cw_running t = cw_running s"
    "cw_joiners t = cw_joiners s" "cw_fatal t = cw_fatal s" "set (cw_acts s) \<subseteq> set (cw_acts t)"
    "cw_firstErr t = None \<longrightarrow> cw_firstErr s = None"
  shows "crew_inv n t"
proof -
  have "going t = going s" "cancelled s \<subseteq> cancelled t" using assms(2,3,7) by (auto simp: going_def cancelled_def)
  then show ?thesis using assms by (auto simp: crew_inv_def)
qed

lemma crew_inv_abort:
  assumes "crew_inv n s" "verdict_rank why < n" "cw_firstErr s \<noteq> None"
  shows "crew_inv n (abort [0..<n] why s)"
proof (cases "cw_fatal s")
  case None
  have g: "going (abort [0..<n] why s) = going s" by (simp add: going_def)
  have c: "cancelled (abort [0..<n] why s) = cancelled s \<union> set (cw_joiners s) \<union> {r. r < n \<and> r \<notin> set (cw_ended s)}"
    using None by (auto simp: cancelled_def)
  then have "going s \<subseteq> cancelled (abort [0..<n] why s)" using going_cover [OF assms(1)] by simp
  then show ?thesis using assms unfolding crew_inv_def g by (auto simp: None)
qed (simp add: assms abort_def)

lemma crew_inv_lost:
  assumes "crew_inv n s" "joiner \<longleftrightarrow> n \<le> rank" "cw_firstErr s \<noteq> None"
  shows "crew_inv n (rank_lost [0..<n] rank host err joiner s)"
proof -
  have "crew_inv n (report_down rank err s)" by (rule crew_inv_cong [OF assms(1)]) simp_all
  then show ?thesis using assms by (auto simp: rank_lost_def Let_def intro!: crew_inv_abort)
qed

lemma note_end_simps [simp]:
  "cw_hosts (note_end r s) = cw_hosts s" "cw_ended (note_end r s) = r # cw_ended s"
  "cw_fatal (note_end r s) = cw_fatal s" "cw_firstErr (note_end r s) = cw_firstErr s"
  "cw_ok (note_end r s) = cw_ok s" "cw_stopped (note_end r s) = cw_stopped s" "cw_refused (note_end r s) = cw_refused s"
  by (simp_all add: note_end_def)

text \<open>The cases of a rank's end.\<close>

definition let_go :: "nat \<Rightarrow> run_error \<Rightarrow> bool \<Rightarrow> crew \<Rightarrow> bool" where
  "let_go rank err ctxDone s \<longleftrightarrow> (ddpExitCode err = ddpReleasedExit \<and> \<not> ctxDone) \<or> cw_fatal s \<noteq> None
     \<or> ((rank \<in> set (cw_refused s) \<or> cw_stopped s) \<and> er_cancelled err \<and> \<not> ctxDone)"

definition end_host :: "nat \<Rightarrow> crew \<Rightarrow> string" where
  "end_host rank s = (if rank < length (cw_hosts s) then cw_hosts s ! rank else ''?'')"

lemma two_exits: "(if a then x else if b then x else y) = (if a \<or> b then x else y)"
  by simp

lemma on_result_eq:
  "on_result stop rank None ctxDone s = (note_end rank s)\<lparr>cw_ok := cw_ok s + 1, cw_finished := True\<rparr>"
  "on_result stop rank (Some err) ctxDone s =
     (if let_go rank err ctxDone s then note_end rank s
      else let t = first_err rank (end_host rank s) err (note_end rank s)
        in if ctxDone then t
           else rank_lost stop rank (end_host rank s) err (rank \<in> set (cw_joiners s)) (t\<lparr>cw_died := cw_died t @ [rank]\<rparr>))"
proof -
  show "on_result stop rank None ctxDone s = (note_end rank s)\<lparr>cw_ok := cw_ok s + 1, cw_finished := True\<rparr>"
    by (simp add: on_result_def note_end_def)
  have e: "on_result stop rank (Some err) ctxDone s =
     (let s' = note_end rank s
      in if ddpExitCode err = ddpReleasedExit \<and> \<not> ctxDone then s'
         else if cw_fatal s' \<noteq> None \<or> (rank \<in> set (cw_refused s') \<or> cw_stopped s') \<and> er_cancelled err \<and> \<not> ctxDone then s'
         else let t = first_err rank (end_host rank s') err s'
           in if ctxDone then t
              else rank_lost stop rank (end_host rank s') err (rank \<in> set (cw_joiners s)) (t\<lparr>cw_died := cw_died t @ [rank]\<rparr>))"
    unfolding on_result_def note_end_def [symmetric] end_host_def Let_def by (simp only: option.case)
  have h: "end_host rank (note_end rank s) = end_host rank s" by (simp add: end_host_def)
  show "on_result stop rank (Some err) ctxDone s =
     (if let_go rank err ctxDone s then note_end rank s
      else let t = first_err rank (end_host rank s) err (note_end rank s)
        in if ctxDone then t
           else rank_lost stop rank (end_host rank s) err (rank \<in> set (cw_joiners s)) (t\<lparr>cw_died := cw_died t @ [rank]\<rparr>))"
    unfolding e Let_def h note_end_simps let_go_def two_exits by (rule refl)
qed

lemma joiner_iff:
  assumes "crew_inv n s" "rank < length (cw_hosts s)" "rank \<notin> set (cw_ended s)" "cw_fatal s = None"
  shows "rank \<in> set (cw_joiners s) \<longleftrightarrow> n \<le> rank"
  using assms by (auto simp: crew_inv_def going_def)

lemma crew_inv_result:
  assumes "crew_inv n s" "rank < length (cw_hosts s)" "rank \<notin> set (cw_ended s)"
  shows "crew_inv n (on_result [0..<n] rank res ctxDone s)"
proof (cases res)
  case None
  show ?thesis unfolding None on_result_eq
    by (rule crew_inv_cong [OF crew_inv_note [OF assms]]) simp_all
next
  case (Some err)
  show ?thesis
  proof (cases "let_go rank err ctxDone s")
    case True
    then show ?thesis using crew_inv_note [OF assms] by (simp add: Some on_result_eq)
  next
    case False
    define t where "t = first_err rank (end_host rank s) err (note_end rank s)"
    have t: "crew_inv n t" unfolding t_def by (rule crew_inv_cong [OF crew_inv_note [OF assms]]) simp_all
    have "crew_inv n (t\<lparr>cw_died := cw_died t @ [rank]\<rparr>)" by (rule crew_inv_cong [OF t]) simp_all
    moreover have "rank \<in> set (cw_joiners s) \<longleftrightarrow> n \<le> rank"
      using False by (intro joiner_iff [OF assms]) (simp add: let_go_def)
    ultimately have "crew_inv n (rank_lost [0..<n] rank (end_host rank s) err (rank \<in> set (cw_joiners s)) (t\<lparr>cw_died := cw_died t @ [rank]\<rparr>))"
      by (intro crew_inv_lost) (simp_all add: t_def)
    then show ?thesis using False t by (simp add: Some on_result_eq Let_def t_def)
  qed
qed

lemma crew_inv_step: "crew_inv n s \<Longrightarrow> crew_legal e s \<Longrightarrow> crew_inv n (crew_step [0..<n] e s)"
  by (cases e) (simp_all add: crew_inv_added crew_inv_grace crew_inv_result)

lemma awaited_inv: "ddpAwaitRanks hosts es s \<Longrightarrow> crew_inv (length hosts) s"
  by (induction rule: ddpAwaitRanks.induct) (simp_all add: crew_inv_start crew_inv_step)

lemma crew_books:
  assumes "ddpAwaitRanks hosts es s"
  shows "cw_running s = int (card (going s))
    \<and> (cw_fatal s \<noteq> None \<longrightarrow> going s \<subseteq> cancelled s)
    \<and> (\<forall>v. cw_fatal s = Some v \<longrightarrow> verdict_rank v < length hosts)"
proof -
  have inv: "crew_inv (length hosts) s" by (rule awaited_inv [OF assms])
  then have "card (going s) = length (cw_hosts s) - length (cw_ended s)"
    by (simp add: crew_inv_def going_def card_Diff_subset distinct_card)
  moreover have "length (cw_ended s) \<le> length (cw_hosts s)"
    using inv card_mono [of "{..<length (cw_hosts s)}" "set (cw_ended s)"] by (simp add: crew_inv_def distinct_card)
  ultimately show ?thesis using inv by (simp add: crew_inv_def of_nat_diff)
qed

text \<open>C28: While the ranks of a training run are awaited, the number the loop waits for is the number of ranks
  that were started and have not ended; once the run has failed, every rank still going has been told to
  stop, joiners announced later included; and only a rank the run started with can fail the run.\<close>

theorem failed_run_stops_every_rank:
  assumes "ddpAwaitRanks hosts es s"
  shows "cw_running s = int (card (going s))
    \<and> (cw_fatal s \<noteq> None \<longrightarrow> going s \<subseteq> cancelled s)
    \<and> (\<forall>v. cw_fatal s = Some v \<longrightarrow> verdict_rank v < length hosts)"
  using crew_books [OF assms] .

subsection \<open>When a run succeeds\<close>

fun succeeded :: "crew_event \<Rightarrow> bool" where
  "succeeded (RankEnded _ None _) \<longleftrightarrow> True"
| "succeeded _ \<longleftrightarrow> False"

text \<open>Ends of the first \<open>n\<close> ranks that do not fail the run.\<close>

fun harmless :: "nat \<Rightarrow> crew_event \<Rightarrow> bool" where
  "harmless n (RankEnded r (Some err) ctxDone) \<longleftrightarrow>
     r < n \<and> \<not> ctxDone \<longrightarrow> ddpExitCode err \<in> {ddpReleasedExit, ddpMissedStartExit} \<or> er_cancelled err
       \<or> ddpExitCode err \<noteq> ddpStoppedExit \<and> \<not> IsPermanent err \<and> r \<noteq> 0"
| "harmless n _ \<longleftrightarrow> True"

lemma rank_lost_simps [simp]:
  "cw_ok (rank_lost stop r h err j s) = cw_ok s"
  "cw_finished (rank_lost stop r h err j s) = cw_finished s"
  by (simp_all add: rank_lost_def Let_def)

lemma ok_arm [simp]: "cw_ok (arm_grace s) = cw_ok s" "cw_fatal (arm_grace s) = cw_fatal s"
    "cw_joiners (arm_grace s) = cw_joiners s" "cw_acts (arm_grace s) = cw_acts s"
  by (simp_all add: arm_grace_def)

lemma ok_step: "cw_ok (crew_step stop e s) = cw_ok s + (if succeeded e then 1 else 0)"
proof (cases e)
  case (RankEnded r res c)
  then show ?thesis by (cases res) (simp_all add: on_result_eq Let_def)
qed (simp_all add: on_added_def on_grace_def Let_def)

lemma ok_counts: "ddpAwaitRanks hosts es s \<Longrightarrow> cw_ok s = int (length (filter succeeded es))"
  by (induction rule: ddpAwaitRanks.induct) (simp_all add: crew_start_def ok_step)

lemma harmful_is_fatal:
  assumes "crew_inv n s" "crew_legal e s" "\<not> harmless n e"
  shows "cw_fatal (crew_step [0..<n] e s) \<noteq> None"
proof -
  obtain r err where e: "e = RankEnded r (Some err) False" "r < n" "ddpExitCode err \<noteq> ddpReleasedExit"
    "ddpExitCode err \<noteq> ddpMissedStartExit" "\<not> er_cancelled err"
    "ddpExitCode err = ddpStoppedExit \<or> IsPermanent err \<or> r = 0"
    using assms(3) by (cases "(n, e)" rule: harmless.cases) auto
  show ?thesis
  proof (cases "cw_fatal s")
    case None
    have "r \<notin> set (cw_joiners s)" using assms(2) joiner_iff [OF assms(1) _ _ None] e by auto
    moreover have "\<not> let_go r err False s" using None e by (simp add: let_go_def)
    ultimately show ?thesis using None e(3-6) by (auto simp: e(1) on_result_eq rank_lost_def Let_def)
  next
    case (Some v)
    then have "let_go r err False s" by (simp add: let_go_def)
    then show ?thesis using Some by (simp add: e(1) on_result_eq)
  qed
qed

lemma fatal_stays: "cw_fatal s \<noteq> None \<Longrightarrow> cw_fatal (crew_step stop e s) \<noteq> None"
proof (cases e)
  case (RankEnded r res c)
  assume "cw_fatal s \<noteq> None"
  then show ?thesis using RankEnded by (cases res) (auto simp: on_result_eq let_go_def)
qed (simp_all add: on_added_def on_grace_def Let_def)

lemma unfailed_was_harmless:
  "ddpAwaitRanks hosts es s \<Longrightarrow> cw_fatal s = None \<Longrightarrow> list_all (harmless (length hosts)) es"
proof (induction rule: ddpAwaitRanks.induct)
  case (message es s e)
  have "cw_fatal s = None" using message.prems fatal_stays [of "arm_grace s" "[0..<length hosts]" e] by (cases "cw_fatal s") auto
  moreover have "harmless (length hosts) e"
    using harmful_is_fatal [of "length hosts" "arm_grace s" e] awaited_inv [OF message.hyps(1)] message.hyps(3) message.prems
    by auto
  ultimately show ?case using message.IH by simp
qed simp

text \<open>C29: When the loop that awaits the ranks ends uncancelled, every rank has ended; the run succeeds
  exactly when nothing failed it for good and some rank finished, and then no rank it started with ended
  by its script failing, by the ring being stopped, or by the lead's machine being lost.\<close>

theorem run_success_is_earned:
  assumes "ddpAwaitRanks hosts es s" "cw_running s = 0"
  shows "going s = {}
    \<and> (run_result False s = None \<longleftrightarrow> cw_fatal s = None \<and> list_ex succeeded es)
    \<and> (run_result False s = None \<longrightarrow> list_all (harmless (length hosts)) es)"
proof -
  have "finite (going s)" by (simp add: going_def)
  then have "going s = {}" using crew_books [OF assms(1)] assms(2) by simp
  moreover have ok: "cw_ok s = 0 \<longleftrightarrow> \<not> list_ex succeeded es" "0 \<le> cw_ok s"
    by (simp_all add: ok_counts [OF assms(1)] list_ex_iff filter_empty_conv)
  then have "run_result False s = None \<longleftrightarrow> cw_fatal s = None \<and> list_ex succeeded es"
    by (cases "cw_fatal s") (auto simp: run_result_def)
  ultimately show ?thesis using unfailed_was_harmless [OF assms(1)] by blast
qed

text \<open>
  The grace period ends once and stops every rank that still runs. A machine that is announced after
  that is not stopped: nothing but its own end removes it.
\<close>

lemma grace_stops_the_rest:
  "ddpAwaitRanks hosts es s \<Longrightarrow> going (on_grace [0..<length hosts] s) \<subseteq> cancelled (on_grace [0..<length hosts] s)"
  using crew_inv_grace [OF awaited_inv] by blast

lemma two_ranks_run: "ddpAwaitRanks [''a'', ''b''] [] (crew_start [''a'', ''b''])"
  by (rule ddpAwaitRanks.waiting)

lemma late_joiner_is_not_stopped:
  defines "s \<equiv> fold (\<lambda>e s. crew_step [0, 1] e (arm_grace s))
    [RankEnded 0 None False, GraceOver, RankAdded 2 ''c'', RankEnded 1 None False] (crew_start [''a'', ''b''])"
  shows "ddpAwaitRanks [''a'', ''b''] [RankEnded 0 None False, GraceOver, RankAdded 2 ''c'', RankEnded 1 None False] s
    \<and> going s = {2} \<and> 2 \<notin> cancelled s \<and> arm_grace s = s"
proof -
  let ?st = "\<lambda>e s. crew_step [0, 1] e (arm_grace s)"
  have up: "[0..<length [''a'', ''b'']] = [0, 1]" by (simp add: upt_rec)
  note step = ddpAwaitRanks.message [of "[''a'', ''b'']", unfolded up]
  have e1: "ddpAwaitRanks [''a'', ''b''] ([] @ [RankEnded 0 None False]) (?st (RankEnded 0 None False) (crew_start [''a'', ''b'']))"
    by (rule step [OF two_ranks_run]) (simp_all add: crew_start_def arm_grace_def)
  have e2: "ddpAwaitRanks [''a'', ''b''] (([] @ [RankEnded 0 None False]) @ [GraceOver])
      (?st GraceOver (?st (RankEnded 0 None False) (crew_start [''a'', ''b''])))"
    by (rule step [OF e1]) (simp_all add: crew_start_def arm_grace_def on_result_def)
  have e3: "ddpAwaitRanks [''a'', ''b''] ((([] @ [RankEnded 0 None False]) @ [GraceOver]) @ [RankAdded 2 ''c''])
      (?st (RankAdded 2 ''c'') (?st GraceOver (?st (RankEnded 0 None False) (crew_start [''a'', ''b'']))))"
    by (rule step [OF e2]) (simp_all add: crew_start_def arm_grace_def on_result_def on_grace_def cancel_rest_def)
  have e4: "ddpAwaitRanks [''a'', ''b''] (((([] @ [RankEnded 0 None False]) @ [GraceOver]) @ [RankAdded 2 ''c'']) @ [RankEnded 1 None False]) s"
    unfolding s_def fold.simps comp_def id_def
    by (rule step [OF e3]) (simp_all add: crew_start_def arm_grace_def on_result_def on_grace_def cancel_rest_def on_added_def put_host_def)
  have "going s = {2} \<and> 2 \<notin> cancelled s \<and> arm_grace s = s"
    by (auto simp: s_def crew_start_def arm_grace_def on_result_def on_grace_def cancel_rest_def on_added_def put_host_def
        going_def cancelled_def)
  then show ?thesis using e4 by simp
qed

subsection \<open>Machines that join\<close>

lemma entry_update [simp]: "entry (AList.update k v t) k' = (if k' = k then v else entry t k')"
  by (simp add: entry_def update_conv')

lemma sum_update: "sum_list (map snd (AList.update k (entry t k + d) t)) = sum_list (map snd t) + (d :: int)"
  by (induction t) (auto simp: entry_def)

lemma note_down_simps [simp]: "us_running (note_down nodes s) = us_running s" "us_joins (note_down nodes s) = us_joins s"
    "us_known (note_down nodes s) = us_known s" "us_deadAt (note_down nodes s) = us_deadAt s"
  by (simp_all add: note_down_def)

lemma live_started: "up_live (up_started node s) = up_live s + 1"
  by (simp add: up_live_def up_started_def sum_update)

lemma live_ended: "up_live (up_ended node died now s) \<le> up_live s"
  using sum_update [of node "us_running s" "-1"] by (simp add: up_live_def up_ended_def Let_def)

text \<open>A machine that is picked is due a rank.\<close>

lemma picked_is_due:
  assumes "up_pick nodes now want s = (Some n, s')"
  shows "n \<in> set nodes \<and> may_take want (healthy_ids nodes) now s' n \<and> s' = note_down nodes s"
  using assms by (auto simp: up_pick_def Let_def find_Some_iff) (metis length_sort nth_mem set_sort)

lemma tick_effect:
  assumes "grow_tick opt want e s = (w, started, s')"
  shows "(started = None \<and> us_running s' = us_running s
        \<and> (\<forall>i. entry (us_joins s) i \<le> entry (us_joins s') i \<and> (entry (us_joins s') i \<le> max (entry (us_joins s) i) ddpMaxRejoins)))
    \<or> (\<exists>n. started = Some n \<and> want n \<and> up_live s' = up_live s + 1
        \<and> (0 < go_MaxRanks opt \<longrightarrow> up_live s < go_MaxRanks opt) \<and> entry (us_joins s) (nr_NodeID n) < ddpMaxRejoins
        \<and> (\<forall>i. entry (us_joins s') i = entry (us_joins s) i + (if i = nr_NodeID n then 1 else 0)))"
proof (cases "0 < go_MaxRanks opt \<and> go_MaxRanks opt \<le> up_live s")
  case True
  then show ?thesis using assms by (auto simp: grow_tick_def)
next
  case room: False
  show ?thesis
  proof (cases "ti_nodes e")
    case None
    then show ?thesis using assms room by (auto simp: grow_tick_def)
  next
    case (Some nodes)
    obtain pick t where p: "up_pick nodes (ti_now e) want s = (pick, t)" by fastforce
    show ?thesis
    proof (cases pick)
      case None
      then show ?thesis using assms room Some p by (auto simp: grow_tick_def up_pick_def Let_def)
    next
      case (Some n)
      have due: "may_take want (healthy_ids nodes) (ti_now e) t n" "t = note_down nodes s"
        using picked_is_due p Some by auto
      then have few: "entry (us_joins s) (nr_NodeID n) < ddpMaxRejoins" "want n" by (auto simp: may_take_def Let_def)
      have took: "us_running (up_took (nr_NodeID n) t) = us_running s"
        "entry (us_joins (up_took (nr_NodeID n) t)) i = entry (us_joins s) i + (if i = nr_NodeID n then 1 else 0)" for i
        by (simp_all add: up_took_def due(2))
      have tick: "grow_tick opt want e s =
          (case ti_answer e of JoinRefused _ final \<Rightarrow> (if final then WatchOver else KeepWatching, None, t)
           | Unreachable _ \<Rightarrow> (KeepWatching, None, t)
           | MayJoin \<Rightarrow> if ti_taken e then (KeepWatching, Some n, up_started (nr_NodeID n) (up_took (nr_NodeID n) t))
               else (WatchOver, None, up_took (nr_NodeID n) t))"
        by (simp only: grow_tick_def room if_False \<open>ti_nodes e = Some nodes\<close> option.case p [unfolded Some] prod.case Let_def)
      show ?thesis
      proof (cases "ti_answer e = MayJoin")
        case True
        show ?thesis
        proof (cases "ti_taken e")
          case yes: True
          then have "started = Some n" "s' = up_started (nr_NodeID n) (up_took (nr_NodeID n) t)"
            using assms True by (simp_all add: tick)
          moreover have "up_live (up_took (nr_NodeID n) t) = up_live s" by (simp add: up_live_def took(1))
          moreover have "us_joins (up_started (nr_NodeID n) (up_took (nr_NodeID n) t)) = us_joins (up_took (nr_NodeID n) t)"
            by (simp add: up_started_def)
          ultimately show ?thesis using few room took(2) by (auto simp: live_started)
        next
          case False
          then show ?thesis using assms True few took by (auto simp: tick)
        qed
      next
        case False
        then have "started = None" "s' = t" using assms by (auto simp: tick split: join_answer.splits if_splits)
        then show ?thesis by (simp add: due(2))
      qed
    qed
  qed
qed

definition times_joined :: "node_record list \<Rightarrow> string \<Rightarrow> int" where
  "times_joined joined i = int (length (filter (\<lambda>n. nr_NodeID n = i) joined))"

lemma watch_inv:
  assumes "ddpGrower opt want s0 w joined s" "\<And>i. entry (us_joins s0) i = 0"
    "0 < go_MaxRanks opt \<longrightarrow> up_live s0 \<le> go_MaxRanks opt"
  shows "(0 < go_MaxRanks opt \<longrightarrow> up_live s \<le> go_MaxRanks opt) \<and> list_all want joined
    \<and> (\<forall>i. times_joined joined i \<le> entry (us_joins s) i \<and> entry (us_joins s) i \<le> ddpMaxRejoins)"
  using assms
proof (induction rule: ddpGrower.induct)
  case begun
  then show ?case by (simp add: times_joined_def ddpMaxRejoins_def)
next
  case (rank_ended w joined s node died now)
  moreover have "us_joins (up_ended node died now s) = us_joins s" by (simp add: up_ended_def Let_def)
  ultimately show ?case using live_ended [of node died now s] by auto
next
  case (tick joined s e w started s')
  from tick_effect [OF tick.hyps(2)] show ?case
  proof (elim disjE exE conjE)
    assume a: "started = None" "us_running s' = us_running s"
      "\<forall>i. entry (us_joins s) i \<le> entry (us_joins s') i \<and> entry (us_joins s') i \<le> max (entry (us_joins s) i) ddpMaxRejoins"
    then have "up_live s' = up_live s" by (simp add: up_live_def)
    then show ?thesis using tick a(1,3) by simp (metis max.absorb2 order_trans)
  next
    fix n assume "started = Some n" "want n" "up_live s' = up_live s + 1"
      "0 < go_MaxRanks opt \<longrightarrow> up_live s < go_MaxRanks opt" "entry (us_joins s) (nr_NodeID n) < ddpMaxRejoins"
      "\<forall>i. entry (us_joins s') i = entry (us_joins s) i + (if i = nr_NodeID n then 1 else 0)"
    moreover from this have "0 < go_MaxRanks opt \<longrightarrow> up_live s' \<le> go_MaxRanks opt" by auto
    moreover note tick.IH [OF tick.prems]
    ultimately show ?thesis by (simp add: times_joined_def)
  qed
qed

lemma live_fold: "up_live (fold up_started ranks s) = up_live s + int (length ranks)"
  by (induction ranks arbitrary: s) (simp_all add: live_started)

lemma joins_fold [simp]: "us_joins (fold up_started ranks s) = us_joins s"
  by (induction ranks arbitrary: s) (simp_all add: up_started_def)

text \<open>While a run lasts, its ranks never exceed the number asked for, only wanted machines are given a rank,
  and no machine is given a new rank more than twice.\<close>

theorem watch_keeps_its_limits:
  assumes "ddpGrower opt want (fold up_started ranks (newDDPUpState nodes)) w joined s"
    and "0 < go_MaxRanks opt \<longrightarrow> int (length ranks) \<le> go_MaxRanks opt"
  shows "(0 < go_MaxRanks opt \<longrightarrow> up_live s \<le> go_MaxRanks opt) \<and> list_all want joined
    \<and> times_joined joined i \<le> ddpMaxRejoins"
proof -
  let ?s0 = "fold up_started ranks (newDDPUpState nodes)"
  have "entry (us_joins ?s0) j = 0" for j by (simp add: newDDPUpState_def entry_def)
  moreover have "up_live ?s0 = int (length ranks)" by (simp add: live_fold, simp add: up_live_def newDDPUpState_def)
  ultimately show ?thesis using watch_inv [OF assms(1)] assms(2) by (metis order_trans)
qed

subsection \<open>Evaluation at concrete inputs\<close>

definition ex_crash :: run_error where
  "ex_crash = \<lparr>er_build = False, er_sandbox = False, er_closureRefused = False, er_cancelled = False,
     er_exit = Some 1, er_text = []\<rparr>"

text \<open>The script of rank 1 crashes while rank 0 trains.\<close>

lemma ex_crashed:
  "ddpAwaitRanks [''a'', ''b''] [RankEnded 1 (Some ex_crash) False]
     (crew_step [0..<2] (RankEnded 1 (Some ex_crash) False) (crew_start [''a'', ''b'']))"
  using ddpAwaitRanks.message [OF two_ranks_run, of "RankEnded 1 (Some ex_crash) False"]
  by (simp add: crew_start_def arm_grace_def numeral_2_eq_2)

theorem failed_run_stops_every_rank_witness:
  "going (crew_step [0..<2] (RankEnded 1 (Some ex_crash) False) (crew_start [''a'', ''b''])) = {0}
   \<and> 0 \<in> cancelled (crew_step [0..<2] (RankEnded 1 (Some ex_crash) False) (crew_start [''a'', ''b'']))"
proof -
  let ?s = "crew_step [0..<2] (RankEnded 1 (Some ex_crash) False) (crew_start [''a'', ''b''])"
  have s: "cw_ended ?s = [1]" "length (cw_hosts ?s) = 2" "cw_fatal ?s \<noteq> None"
    by (simp_all add: crew_start_def on_result_def first_err_def rank_lost_def ex_crash_def ddpExitCode_def
      ddpMissedStartExit_def ddpStoppedExit_def ddpReleasedExit_def IsPermanent_def Let_def)
  have "going ?s = {0}" unfolding going_def s by auto
  then show ?thesis using failed_run_stops_every_rank [OF ex_crashed] s(3) by simp
qed

definition ex_done :: crew where
  "ex_done = crew_step [0..<1] (RankEnded 0 None False) (crew_start [''a''])"

theorem run_success_is_earned_witness:
  "going ex_done = {} \<and> run_result False ex_done = None"
proof -
  have "ddpAwaitRanks [''a''] [] (crew_start [''a''])" by (rule ddpAwaitRanks.waiting)
  from ddpAwaitRanks.message [OF this, of "RankEnded 0 None False"]
  have "ddpAwaitRanks [''a''] [RankEnded 0 None False] ex_done" by (simp add: ex_done_def crew_start_def arm_grace_def)
  moreover have "cw_running ex_done = 0" "cw_fatal ex_done = None"
    by (simp_all add: ex_done_def crew_start_def on_result_def)
  ultimately show ?thesis using run_success_is_earned [of "[''a'']" "[RankEnded 0 None False]" ex_done] by simp
qed

theorem watch_keeps_its_limits_witness:
  "up_live (up_ended ''a'' True 5 (fold up_started [''a'', ''b''] (newDDPUpState []))) \<le> 2"
proof -
  have "ddpGrower ex_ring_options (\<lambda>_. True) (fold up_started [''a'', ''b''] (newDDPUpState [])) KeepWatching []
      (up_ended ''a'' True 5 (fold up_started [''a'', ''b''] (newDDPUpState [])))"
    by (rule ddpGrower.rank_ended [OF ddpGrower.begun])
  from watch_keeps_its_limits [OF this, of "[]"] show ?thesis by (simp add: ex_ring_options_def)
qed

end
