(* ===== verification/DdpLocal.thy ===== *)
theory DdpLocal
  imports DdpSync GoStrings
begin

text \<open>
  The machine-local half of a sync round, \<^verbatim>\<open>src/internal/daemonapi/ddplocal.go\<close>: the ranks of one
  machine are summed by its own daemon, sent to the lead as one contribution, and given the lead's
  answer. The stretches under the mutex are \<open>local_post\<close> (a rank's arrival), \<open>local_partial\<close> (its
  timer), \<open>forward_local\<close> (the start of \<open>ddpForwardLocal\<close>), \<open>forward_answered\<close> (its end) and
  \<open>local_take\<close> (a rank goes home with the answer). Rounds live in a store, as the handlers share them
  by pointer after the board has let go of them. The POST to the lead answers through an argument; at
  the wide types the mean stands for the bytes it is put in.
\<close>

subsection \<open>Data\<close>

record local_answer =
  la_status :: int
  la_ctype :: string
  la_body :: "byte list"

record ddpLocalRound =
  lr_acc :: "ddpAccumulator option"
  lr_hdr :: ddpSyncRequest
  lr_upstream :: string
  lr_members :: "ddpMember list"
  lr_want :: nat
  lr_sent :: bool
  lr_fetched :: nat
  lr_answer :: "local_answer option"
  lr_created :: time

record local_board =
  lb_board :: ddpBoard
  lb_store :: "ddpLocalRound list"
  lb_local :: "(string \<times> addr) list"

definition local_key :: "ddpSyncRequest \<Rightarrow> string" where
  "local_key req = rq_Group req @ ''/'' @ jsonInt (rq_Seq req) @ ''@local''"

definition rnd :: "local_board \<Rightarrow> addr \<Rightarrow> ddpLocalRound" where
  "rnd b a = lb_store b ! a"

definition put_rnd :: "addr \<Rightarrow> ddpLocalRound \<Rightarrow> local_board \<Rightarrow> local_board" where
  "put_rnd a r b = b\<lparr>lb_store := (lb_store b)[a := r]\<rparr>"

subsection \<open>A rank arrives\<close>

definition local_ok :: "ddpMode \<Rightarrow> ddpSyncRequest \<Rightarrow> string \<Rightarrow> bool" where
  "local_ok mode req upstream \<longleftrightarrow>
     \<not> (mode \<noteq> ddpModeReduce \<or> rq_Count req \<le> 0 \<or> dtype_size (rq_DType req) = 0 \<or> 0 < rq_Shards req
        \<or> rq_Rank req \<notin> set (rq_Local req) \<or> \<not> HasPrefix upstream ''http://'' \<or> \<not> HasSuffix upstream ''/v1/ddp/sync'')"

datatype local_outcome =
    BadLocalRequest | BadLocalSegments ddp_error | ContributionRefused int ddp_error
  | WaitsLocally addr | ForwardStarts addr

definition new_local :: "time \<Rightarrow> ddpSyncRequest \<Rightarrow> string \<Rightarrow> ddp_error + ddpLocalRound" where
  "new_local now req upstream =
     (let ac = newDDPAccumulator (rq_DType req) (nat (rq_Count req));
          r = \<lparr>lr_acc = Some ac, lr_hdr = req, lr_upstream = upstream, lr_members = [], lr_want = length (rq_Local req),
               lr_sent = False, lr_fetched = 0, lr_answer = None, lr_created = now\<rparr>
      in if 1 < length (rq_Counts req)
         then (case withSegments (rq_Counts req) ac of Inl e \<Rightarrow> Inl e | Inr ac' \<Rightarrow> Inr (r\<lparr>lr_acc := Some ac'\<rparr>))
         else Inr r)"

definition open_local :: "time \<Rightarrow> ddpSyncRequest \<Rightarrow> string \<Rightarrow> local_board \<Rightarrow> ddp_error + addr \<times> local_board" where
  "open_local now req upstream b =
     (case map_of (lb_local b) (local_key req) of
        Some a \<Rightarrow> Inr (a, b)
      | None \<Rightarrow>
          (case new_local now req upstream of
             Inl e \<Rightarrow> Inl e
           | Inr r \<Rightarrow> Inr (length (lb_store b), b\<lparr>lb_store := lb_store b @ [r],
               lb_local := AList.update (local_key req) (length (lb_store b)) (lb_local b)\<rparr>)))"

definition member_of :: "ddpSyncRequest \<Rightarrow> ddpMember" where
  "member_of req = \<lparr>mb_Rank = rq_Rank req, mb_StepMillis = rq_StepMillis req, mb_SyncMillis = rq_SyncMillis req,
     mb_Samples = rq_Samples req\<rparr>"

definition merge_header :: "ddpSyncRequest \<Rightarrow> ddpSyncRequest \<Rightarrow> ddpSyncRequest" where
  "merge_header req hdr = hdr\<lparr>rq_SyncEvery := max (rq_SyncEvery hdr) (rq_SyncEvery req),
     rq_Sharded := rq_Sharded hdr \<or> rq_Sharded req, rq_Fixed := rq_Fixed hdr \<or> rq_Fixed req\<rparr>"

text \<open>A fresh rank's contribution, before the forward has started.\<close>

definition contribute :: "ddpSyncRequest \<Rightarrow> byte list \<Rightarrow> ddpLocalRound \<Rightarrow> ddp_error + ddpLocalRound" where
  "contribute req blob r =
     (if rq_Rank req \<in> mb_Rank ` set (lr_members r) \<or> lr_sent r then Inr r
      else case lr_acc r of None \<Rightarrow> Inr r
        | Some ac \<Rightarrow>
            (case addSegmented blob (scales_of req) (of_int (rq_Samples req)) ac of
               Inl e \<Rightarrow> Inl e
             | Inr ac' \<Rightarrow> Inr (r\<lparr>lr_acc := Some ac', lr_members := lr_members r @ [member_of req],
                 lr_hdr := merge_header req (lr_hdr r)\<rparr>)))"

definition local_post ::
  "time \<Rightarrow> ddpMode \<Rightarrow> ddpSyncRequest \<Rightarrow> string \<Rightarrow> byte list \<Rightarrow> local_board \<Rightarrow> local_outcome \<times> local_board" where
  "local_post now mode req upstream blob b =
     (if \<not> local_ok mode req upstream then (BadLocalRequest, b)
      else case open_local now req upstream b of
          Inl e \<Rightarrow> (BadLocalSegments e, b)
        | Inr (a, b1) \<Rightarrow>
            (case contribute req blob (rnd b1 a) of
               Inl e \<Rightarrow> (ContributionRefused (rq_Rank req) e, b1)
             | Inr r \<Rightarrow>
                 if \<not> lr_sent r \<and> lr_want r \<le> length (lr_members r)
                 then (ForwardStarts a, put_rnd a (r\<lparr>lr_sent := True\<rparr>) b1)
                 else (WaitsLocally a, put_rnd a r b1)))"

text \<open>The timer of a waiting rank; it says whether the forward starts.\<close>

definition local_partial :: "addr \<Rightarrow> local_board \<Rightarrow> bool \<times> local_board" where
  "local_partial a b =
     (let r = rnd b a
      in if \<not> lr_sent r \<and> lr_members r \<noteq> [] then (True, put_rnd a (r\<lparr>lr_sent := True\<rparr>) b) else (False, b))"

definition local_take :: "string \<Rightarrow> addr \<Rightarrow> local_board \<Rightarrow> local_answer option \<times> local_board" where
  "local_take key a b =
     (let r = rnd b a
      in if lr_answer r = None then (None, b)
         else let r' = r\<lparr>lr_fetched := lr_fetched r + 1\<rparr>; b1 = put_rnd a r' b
           in (lr_answer r, if length (lr_members r') \<le> lr_fetched r' \<and> map_of (lb_local b) key = Some a
                            then b1\<lparr>lb_local := AList.delete key (lb_local b1)\<rparr> else b1))"

subsection \<open>The forward\<close>

definition forward_samples :: "ddpAccumulator \<Rightarrow> int" where
  "forward_samples ac = (if ac_weight ac \<le> 0 then -1 else go_round (ac_weight ac))"

definition uplink_key :: "ddpSyncRequest \<Rightarrow> nat \<Rightarrow> string" where
  "uplink_key hdr n = ''up/'' @ rq_Kind hdr @ ''/'' @ decimal n"

definition forward_header :: "ddpLocalRound \<Rightarrow> ddpAccumulator \<Rightarrow> ddp_error + reduced \<Rightarrow> ddpSyncRequest" where
  "forward_header r ac payload =
     (let scales = (case payload of Inr (Int8Mean _ scales) \<Rightarrow> scales | _ \<Rightarrow> [])
      in (lr_hdr r)\<lparr>rq_Rank := mb_Rank (hd (lr_members r)), rq_Members := lr_members r, rq_Local := [],
           rq_StepMillis := 0, rq_SyncMillis := 0, rq_Samples := forward_samples ac,
           rq_Scale := (if scales = [] then 0 else hd scales), rq_Scales := scales\<rparr>)"

text \<open>The mean that goes to the lead; the uplink residual stays with the group's run.\<close>

definition uplink_mean :: "time \<Rightarrow> ddpSyncRequest \<Rightarrow> ddpAccumulator \<Rightarrow> ddpBoard \<Rightarrow> (ddp_error + reduced) \<times> ddpBoard" where
  "uplink_mean now hdr ac bd =
     (let n = length (ac_sum ac); k = uplink_key hdr n; run = run_of now (rq_Group hdr) bd;
          res = (if ac_dtype ac = ddpI8
                 then Some (case map_of (rn_residual run) k of Some v \<Rightarrow> v | None \<Rightarrow> replicate n 0) else None);
          keep = (\<lambda>v. case v of None \<Rightarrow> bd
                    | Some v \<Rightarrow> put_run (rq_Group hdr) (run\<lparr>rn_residual := AList.update k v (rn_residual run)\<rparr>) bd)
      in case mean_reply res ac of
           Inl err \<Rightarrow> (Inl err, keep res)
         | Inr (out, left) \<Rightarrow> (Inr out, keep left))"

definition forward_local ::
  "time \<Rightarrow> addr \<Rightarrow> local_board \<Rightarrow> (ddpSyncRequest \<times> (ddp_error + reduced)) option \<times> local_board" where
  "forward_local now a b =
     (let r = rnd b a
      in case lr_acc r of None \<Rightarrow> (None, b)
         | Some ac \<Rightarrow>
             (let p = uplink_mean now (lr_hdr r) ac (lb_board b)
              in (Some (forward_header r ac (fst p), fst p), put_rnd a (r\<lparr>lr_acc := None\<rparr>) (b\<lparr>lb_board := snd p\<rparr>))))"

text \<open>\<open>reply\<close> is the lead's answer, or why there is none; \<open>say\<close> puts the reason in the body.\<close>

definition forward_answered :: "(string \<Rightarrow> byte list) \<Rightarrow> string + local_answer \<Rightarrow> addr \<Rightarrow> local_board \<Rightarrow> local_board" where
  "forward_answered say reply a b =
     put_rnd a ((rnd b a)\<lparr>lr_answer := Some (case reply of
         Inr ans \<Rightarrow> ans
       | Inl why \<Rightarrow> \<lparr>la_status = 409, la_ctype = ''application/json'',
           la_body = say (''the lead machine stopped answering this machine's daemon ('' @ why @ '')'')\<rparr>)\<rparr>) b"

definition local_sweep :: "time \<Rightarrow> int \<Rightarrow> local_board \<Rightarrow> local_board" where
  "local_sweep now maxAge b = b\<lparr>lb_local := filter (\<lambda>(k, a). now - lr_created (rnd b a) \<le> maxAge) (lb_local b)\<rparr>"

subsection \<open>Runs\<close>

datatype local_event =
    LocalPost time ddpMode ddpSyncRequest string "byte list"
  | LocalPartial addr
  | LocalForward time addr
  | LocalAnswered "string \<Rightarrow> byte list" "string + local_answer" addr
  | LocalTake string addr
  | LocalSweep time int

fun local_step :: "local_event \<Rightarrow> local_board \<Rightarrow> local_board" where
  "local_step (LocalPost now mode req upstream blob) b = snd (local_post now mode req upstream blob b)"
| "local_step (LocalPartial a) b = snd (local_partial a b)"
| "local_step (LocalForward now a) b = snd (forward_local now a b)"
| "local_step (LocalAnswered render reply a) b = forward_answered render reply a b"
| "local_step (LocalTake key a) b = snd (local_take key a b)"
| "local_step (LocalSweep now maxAge) b = local_sweep now maxAge b"

definition empty_local :: local_board where
  "empty_local = \<lparr>lb_board = newDDPBoard, lb_store = [], lb_local = []\<rparr>"

text \<open>What a rank contributes, and a round whose sum is that of its members.\<close>

definition contrib :: "ddpSyncRequest \<times> byte list \<Rightarrow> contribution" where
  "contrib p = (snd p, scales_of (fst p), of_int (rq_Samples (fst p)))"

definition summed :: "(ddpSyncRequest \<times> byte list) list \<Rightarrow> ddpAccumulator \<Rightarrow> bool" where
  "summed posts ac \<longleftrightarrow> (\<exists>dt n segs. (segs = [] \<or> sum_list segs = n) \<and> add_all (map contrib posts) (fresh_acc dt n segs) = Inr ac)"

definition round_ok :: "ddpLocalRound \<Rightarrow> bool" where
  "round_ok r \<longleftrightarrow> distinct (map mb_Rank (lr_members r))
     \<and> (case lr_acc r of None \<Rightarrow> lr_sent r
        | Some ac \<Rightarrow> (\<exists>posts. lr_members r = map (member_of \<circ> fst) posts \<and> summed posts ac))"

definition board_ok :: "local_board \<Rightarrow> bool" where
  "board_ok b \<longleftrightarrow> list_all round_ok (lb_store b) \<and> (\<forall>(k, a) \<in> set (lb_local b). a < length (lb_store b))"

lemma with_segments_fresh:
  assumes "withSegments counts (newDDPAccumulator dt n) = Inr ac"
  shows "\<exists>segs. sum_list segs = n \<and> ac = fresh_acc dt n segs"
proof -
  have pos: "\<forall>c \<in> set counts. 0 < c" and eq: "sum_list counts = int n" "ac = fresh_acc dt n (map nat counts)"
    using assms by (auto simp: withSegments_def newDDPAccumulator_def fresh_acc_def find_None_iff split: option.splits if_splits)
  have "int (sum_list (map nat counts)) = sum_list counts" using pos by (induction counts) auto
  then have "sum_list (map nat counts) = n" using eq(1) by linarith
  then show ?thesis using eq(2) by blast
qed

lemma summed_Nil: "segs = [] \<or> sum_list segs = n \<Longrightarrow> summed [] (fresh_acc dt n segs)"
  by (auto simp: summed_def)

lemma new_local_ok: "new_local now req upstream = Inr r \<Longrightarrow> round_ok r \<and> \<not> lr_sent r"
proof -
  assume new: "new_local now req upstream = Inr r"
  let ?ac = "newDDPAccumulator (rq_DType req) (nat (rq_Count req))"
  have fr: "?ac = fresh_acc (rq_DType req) (nat (rq_Count req)) []" by (simp add: fresh_acc_def newDDPAccumulator_def)
  have "summed [] ?ac" unfolding fr by (rule summed_Nil) simp
  moreover have "withSegments (rq_Counts req) ?ac = Inr ac \<Longrightarrow> summed [] ac" for ac
    using with_segments_fresh summed_Nil by blast
  ultimately show ?thesis using new by (auto simp: new_local_def round_ok_def Let_def split: if_splits sum.splits)
qed

lemma summed_snoc:
  assumes "summed posts ac" "addSegmented blob (scales_of req) (of_int (rq_Samples req)) ac = Inr ac'"
  shows "summed (posts @ [(req, blob)]) ac'"
proof -
  have "add_all cs a = Inr ac \<Longrightarrow> add_all (cs @ [contrib (req, blob)]) a = Inr ac'" for cs a
  proof (induction cs arbitrary: a)
    case Nil
    then show ?case using assms(2) by (simp add: contrib_def)
  next
    case (Cons c cs)
    obtain p sc w where "c = (p, sc, w)" by (cases c)
    then show ?case using Cons by (auto split: sum.splits)
  qed
  then show ?thesis using assms(1) by (fastforce simp: summed_def)
qed

lemma contribute_ok:
  assumes "contribute req blob r = Inr r'" "round_ok r"
  shows "round_ok r' \<and> lr_sent r' = lr_sent r"
proof (cases "rq_Rank req \<in> mb_Rank ` set (lr_members r) \<or> lr_sent r \<or> lr_acc r = None")
  case True
  then have "r' = r" using assms(1) by (auto simp: contribute_def split: if_splits)
  then show ?thesis using assms(2) by simp
next
  case False
  then obtain ac where ac: "lr_acc r = Some ac" by auto
  then obtain posts where posts: "lr_members r = map (member_of \<circ> fst) posts" "summed posts ac"
    using assms(2) by (auto simp: round_ok_def)
  obtain ac' where ac': "addSegmented blob (scales_of req) (of_int (rq_Samples req)) ac = Inr ac'"
    and r': "r' = r\<lparr>lr_acc := Some ac', lr_members := lr_members r @ [member_of req], lr_hdr := merge_header req (lr_hdr r)\<rparr>"
    using assms(1) False ac by (auto simp: contribute_def split: sum.splits)
  have "\<exists>ps. lr_members r' = map (member_of \<circ> fst) ps \<and> summed ps ac'"
    using posts(1) summed_snoc [OF posts(2) ac'] by (intro exI [of _ "posts @ [(req, blob)]"]) (simp add: r')
  moreover have "distinct (map mb_Rank (lr_members r'))"
    using assms(2) False by (simp add: r' round_ok_def member_of_def)
  ultimately show ?thesis by (simp add: round_ok_def r')
qed

lemma rounds_update: "list_all P xs \<Longrightarrow> P x \<Longrightarrow> list_all P (xs[i := x])"
  by (auto simp: list_all_iff dest: set_update_subset_insert [THEN subsetD])

lemma board_ok_put: "board_ok b \<Longrightarrow> round_ok r \<Longrightarrow> board_ok (put_rnd a r b)"
  by (simp add: board_ok_def put_rnd_def rounds_update)

lemma board_ok_rnd: "board_ok b \<Longrightarrow> a < length (lb_store b) \<Longrightarrow> round_ok (rnd b a)"
  by (simp add: board_ok_def rnd_def list_all_length)

text \<open>An address out of the store is one that no handler holds; the operations leave the store as it is.\<close>

lemma put_rnd_outside: "\<not> a < length (lb_store b) \<Longrightarrow> put_rnd a r b = b"
  by (simp add: put_rnd_def not_less list_update_beyond)

lemma board_ok_put_field:
  assumes "board_ok b" "round_ok (rnd b a) \<Longrightarrow> round_ok r"
  shows "board_ok (put_rnd a r b)"
  using assms board_ok_put board_ok_rnd put_rnd_outside by (cases "a < length (lb_store b)") auto

lemma open_local_ok:
  assumes "open_local now req upstream b = Inr (a, b1)" "board_ok b"
  shows "board_ok b1 \<and> a < length (lb_store b1)"
proof (cases "map_of (lb_local b) (local_key req)")
  case None
  then obtain r where r: "new_local now req upstream = Inr r" "a = length (lb_store b)"
    "b1 = b\<lparr>lb_store := lb_store b @ [r], lb_local := AList.update (local_key req) (length (lb_store b)) (lb_local b)\<rparr>"
    using assms(1) by (auto simp: open_local_def split: sum.splits)
  have "\<forall>(k, a) \<in> set (AList.update (local_key req) (length (lb_store b)) (lb_local b)). a < Suc (length (lb_store b))"
    using assms(2) set_update_sub [of "local_key req" "length (lb_store b)" "lb_local b"]
    by (fastforce simp: board_ok_def)
  then show ?thesis using assms(2) new_local_ok [OF r(1)] by (simp add: r(2,3) board_ok_def)
next
  case (Some a')
  then have "a = a'" "b1 = b" using assms(1) by (simp_all add: open_local_def)
  moreover have "(local_key req, a') \<in> set (lb_local b)" using Some by (rule map_of_SomeD)
  ultimately show ?thesis using assms(2) by (auto simp: board_ok_def)
qed

lemma sent_ok: "round_ok r \<Longrightarrow> round_ok (r\<lparr>lr_sent := True\<rparr>)"
  by (simp add: round_ok_def split: option.splits)

lemma local_post_ok: "board_ok b \<Longrightarrow> board_ok (snd (local_post now mode req upstream blob b))"
proof (cases "open_local now req upstream b")
  case (Inr p)
  assume b: "board_ok b"
  obtain a b1 where p: "p = (a, b1)" by fastforce
  have o: "board_ok b1" "a < length (lb_store b1)" using open_local_ok Inr p b by auto
  show ?thesis
  proof (cases "contribute req blob (rnd b1 a)")
    case (Inr r)
    have "round_ok r" using contribute_ok [OF Inr board_ok_rnd [OF o]] by simp
    then show ?thesis using b o \<open>open_local now req upstream b = Inr p\<close> p Inr
      by (simp add: local_post_def board_ok_put sent_ok)
  qed (use b o Inr p in \<open>simp add: local_post_def\<close>)
qed (simp add: local_post_def)

lemma board_field_ok [simp]: "board_ok (b\<lparr>lb_board := bd\<rparr>) = board_ok b"
    "lb_store (b\<lparr>lb_board := bd\<rparr>) = lb_store b" "rnd (b\<lparr>lb_board := bd\<rparr>) a = rnd b a"
  by (simp_all add: board_ok_def rnd_def)

text \<open>The forward runs once for a round, after it was marked sent.\<close>

fun local_legal :: "local_event \<Rightarrow> local_board \<Rightarrow> bool" where
  "local_legal (LocalForward now a) b \<longleftrightarrow> a < length (lb_store b) \<and> lr_sent (rnd b a)"
| "local_legal _ b \<longleftrightarrow> True"

lemma forward_ok:
  assumes "board_ok b" "a < length (lb_store b)" "lr_sent (rnd b a)"
  shows "board_ok (snd (forward_local now a b))"
proof (cases "lr_acc (rnd b a)")
  case (Some ac)
  have r: "round_ok ((rnd b a)\<lparr>lr_acc := None\<rparr>)"
    using board_ok_rnd [OF assms(1,2)] assms(3) by (simp add: round_ok_def)
  show ?thesis using board_ok_put [OF _ r] assms(1) by (simp add: forward_local_def Some Let_def)
qed (simp add: forward_local_def assms(1))

lemma local_step_ok: "board_ok b \<Longrightarrow> local_legal e b \<Longrightarrow> board_ok (local_step e b)"
proof (cases e)
  case (LocalPartial a)
  assume "board_ok b"
  then show ?thesis using LocalPartial by (auto simp: local_partial_def Let_def intro!: board_ok_put_field sent_ok)
next
  case (LocalAnswered render reply a)
  assume "board_ok b"
  then show ?thesis unfolding LocalAnswered local_step.simps forward_answered_def
    by (rule board_ok_put_field) (simp add: round_ok_def split: option.splits)
next
  case (LocalTake key a)
  assume b: "board_ok b"
  let ?b1 = "put_rnd a ((rnd b a)\<lparr>lr_fetched := lr_fetched (rnd b a) + 1\<rparr>) b"
  have "board_ok ?b1" by (rule board_ok_put_field [OF b]) (simp add: round_ok_def split: option.splits)
  moreover from this have "board_ok (?b1\<lparr>lb_local := AList.delete key (lb_local ?b1)\<rparr>)"
    by (auto simp: board_ok_def AList.delete_eq)
  ultimately show ?thesis using b by (simp add: LocalTake local_take_def Let_def)
next
  case (LocalSweep now maxAge)
  assume "board_ok b"
  then show ?thesis by (auto simp: LocalSweep local_sweep_def board_ok_def)
qed (simp_all add: local_post_ok forward_ok)

interpretation local_rounds: guarded_machine local_step local_legal board_ok
  by unfold_locales (rule local_step_ok)

lemma empty_local_ok: "board_ok empty_local"
  by (simp add: board_ok_def empty_local_def)

subsection \<open>The lead's average\<close>

lemma go_round_of_int [simp]: "go_round (of_int k) = k"
proof -
  have "\<lfloor>(of_int i :: f64) + 1 / 2\<rfloor> = i" for i by linarith
  then have "\<lfloor>(of_int k :: f64) + 1 / 2\<rfloor> = k" "\<lfloor>(of_int (- k) :: f64) + 1 / 2\<rfloor> = - k" by blast+
  then show ?thesis by (simp add: go_round_def)
qed

lemma sampleWeight_int: "\<exists>k \<ge> 0. sampleWeight (of_int n) = of_int k"
  by (cases "n < 0"; cases "n = 0") (auto simp: sampleWeight_def intro: exI [of _ 0] exI [of _ 1] exI [of _ n])

lemma total_weight_int: "\<exists>k \<ge> 0. sum_list (map weight_of (map contrib posts)) = of_int k"
proof (induction posts)
  case Nil
  show ?case by (rule exI [of _ 0]) simp
next
  case (Cons p posts)
  obtain i where i: "0 \<le> i" "sampleWeight (of_int (rq_Samples (fst p))) = of_int i" using sampleWeight_int by blast
  obtain j where j: "0 \<le> j" "sum_list (map weight_of (map contrib posts)) = of_int j" using Cons by blast
  have "weight_of (contrib p) = of_int i" using i(2) by (simp add: weight_of_def contrib_def)
  then show ?case using i(1) j by (intro exI [of _ "i + j"]) simp
qed

text \<open>The forwarded count weighs at the lead what the machine's ranks weigh there together.\<close>

lemma forward_weight:
  assumes "ac_weight ac = of_int k" "0 \<le> k"
  shows "sampleWeight (of_int (forward_samples ac)) = ac_weight ac"
  using assms by (auto simp: forward_samples_def sampleWeight_def)

lemma means_times_weight:
  assumes "0 \<le> ac_weight ac" "ac_weight ac = 0 \<Longrightarrow> x = 0"
  shows "x * inv_weight ac * ac_weight ac = x"
  using assms by (cases "ac_weight ac = 0") (auto simp: inv_weight_def)

lemma weights_nonneg: "0 \<le> weight_of c"
  by (cases c) (simp add: weight_of_def sampleWeight_def)

lemma no_weight_no_sum:
  assumes "sum_list (map weight_of cs) = 0"
  shows "(\<Sum>c\<leftarrow>cs. weight_of c * f c) = (0 :: f64)"
  using assms
proof (induction cs)
  case (Cons c cs)
  have "0 \<le> sum_list (map weight_of cs)" by (rule sum_list_nonneg) (auto simp: weights_nonneg)
  then have "weight_of c = 0" "sum_list (map weight_of cs) = 0" using Cons.prems weights_nonneg [of c] by auto
  then show ?case using Cons.IH by simp
qed simp

text \<open>At a wide type the segments play no part in what a payload means.\<close>

lemma wide_values: "ac_dtype a \<noteq> ddpI8 \<Longrightarrow> ac_dtype b = ac_dtype a \<Longrightarrow> length (ac_sum b) = length (ac_sum a)
    \<Longrightarrow> values_of b c = values_of a c"
  by (cases c) (simp add: values_of_def decode_payload_def)

lemma one_for_all:
  assumes m: "add_all cs (fresh_acc dt n segs) = Inr am" "segs = [] \<or> sum_list segs = n" "dt \<noteq> ddpI8"
    and L: "add_all cs L = Inr L'" "acc_shape L" "ac_dtype L = dt" "length (ac_sum L) = n"
    and w: "sum_list (map weight_of cs) = of_int k" "0 \<le> k"
  defines "F \<equiv> fold_in (map (\<lambda>s. s * inv_weight am) (ac_sum am)) (sampleWeight (of_int (forward_samples am))) L"
  shows "ac_sum F = ac_sum L' \<and> ac_weight F = ac_weight L'"
proof -
  let ?A = "fresh_acc dt n segs"
  have shape: "acc_shape ?A" "length (ac_sum ?A) = n" "ac_weight ?A = 0" "\<And>j. j < n \<Longrightarrow> ac_sum ?A ! j = 0"
    using m(2) by (auto simp: acc_shape_def fresh_acc_def newDDPAccumulator_def)
  note mach = add_all_sums [OF m(1) shape(1)]
  note lead = add_all_sums [OF L(1,2)]
  have W: "ac_weight am = sum_list (map weight_of cs)" "length (ac_sum am) = n" using mach shape by simp_all
  have vals: "values_of L c = values_of ?A c" for c
    using m(3) L(3,4) by (intro wide_values) (simp_all add: fresh_acc_def newDDPAccumulator_def)
  have sw: "sampleWeight (of_int (forward_samples am)) = ac_weight am"
    using w W(1) by (intro forward_weight [of _ k]) simp_all
  have "ac_sum F = ac_sum L'"
  proof (rule nth_equalityI)
    show "length (ac_sum F) = length (ac_sum L')" using lead W(2) L(4) by (simp add: F_def fold_in_def)
    fix j assume "j < length (ac_sum F)"
    then have j: "j < n" using W(2) L(4) by (simp add: F_def fold_in_def)
    let ?x = "\<Sum>c\<leftarrow>cs. weight_of c * values_of ?A c ! j"
    have am: "ac_sum am ! j = ?x" using mach j shape by simp
    have "ac_sum am ! j * inv_weight am * ac_weight am = ac_sum am ! j"
    proof (rule means_times_weight)
      show "0 \<le> ac_weight am" using W(1) w by simp
      show "ac_sum am ! j = 0" if "ac_weight am = 0" using that no_weight_no_sum [of cs] W(1) by (simp add: am)
    qed
    then have "ac_sum F ! j = ac_sum L ! j + ?x" using j W(2) L(4) by (simp add: F_def fold_in_def sw am)
    then show "ac_sum F ! j = ac_sum L' ! j" using lead j L(4) by (simp add: vals)
  qed
  moreover have "ac_weight F = ac_weight L'" using lead by (simp add: F_def fold_in_def sw W(1))
  ultimately show ?thesis by simp
qed


subsection \<open>What the local round does not check\<close>

text \<open>
  The lead refuses a round whose ranks are not at the same place of the loop (\<open>check_kind\<close>). A local
  round takes the first rank's kind for all: a rank that sends weights is summed with one that sends
  gradients.
\<close>

lemma kinds_are_not_compared:
  assumes "contribute req blob r = Inr r'"
  shows "contribute (req\<lparr>rq_Kind := k\<rparr>) blob r = Inr r' \<and> rq_Kind (lr_hdr r') = rq_Kind (lr_hdr r)"
proof -
  have k: "scales_of (req\<lparr>rq_Kind := k\<rparr>) = scales_of req" "member_of (req\<lparr>rq_Kind := k\<rparr>) = member_of req"
    "merge_header (req\<lparr>rq_Kind := k\<rparr>) h = merge_header req h" "rq_Samples (req\<lparr>rq_Kind := k\<rparr>) = rq_Samples req"
    "rq_Rank (req\<lparr>rq_Kind := k\<rparr>) = rq_Rank req" for h
    by (simp_all add: scales_of_def member_of_def merge_header_def)
  have "contribute (req\<lparr>rq_Kind := k\<rparr>) blob r = contribute req blob r" unfolding contribute_def k by (rule refl)
  moreover have "rq_Kind (lr_hdr r') = rq_Kind (lr_hdr r)"
    using assms by (auto simp: contribute_def merge_header_def split: if_splits option.splits sum.splits)
  ultimately show ?thesis using assms by simp
qed

subsection \<open>Evaluation at concrete inputs\<close>

definition ex_local_req :: "int \<Rightarrow> int \<Rightarrow> ddpSyncRequest" where
  "ex_local_req rank samples = \<lparr>rq_Group = ''g'', rq_Seq = 2, rq_Rank = rank, rq_World = 3, rq_DType = ddpF32, rq_Count = 1,
     rq_Scale = 0, rq_Scales = [], rq_Counts = [], rq_Kind = ''grads'', rq_SyncEvery = 1, rq_StepMillis = 5, rq_Samples = samples,
     rq_SyncMillis = 1, rq_Sharded = False, rq_StartWait = 0, rq_Manifest = None, rq_Fixed = False, rq_SyncMode = [],
     rq_Shard = 0, rq_Shards = 0, rq_Local = [1, 2], rq_Members = []\<rparr>"

definition ex_local_posts :: "local_event list" where
  "ex_local_posts = [LocalPost 0 ddpModeReduce (ex_local_req 1 3) ''http://a/v1/ddp/sync'' [0, 0, 0x80, 0x3f],
     LocalPost 1 ddpModeReduce (ex_local_req 2 1) ''http://a/v1/ddp/sync'' [0, 0, 0, 0]]"

definition ex_local_hdr :: ddpSyncRequest where
  "ex_local_hdr = (ex_local_req 1 4)\<lparr>rq_Local := [], rq_StepMillis := 0, rq_SyncMillis := 0,
     rq_Members := [member_of (ex_local_req 1 3), member_of (ex_local_req 2 1)]\<rparr>"

lemma ex_values: "decode_payload ddpF32 [] 1 [0, 0, 0x80, 0x3f] [0] = Inr [1]" "decode_payload ddpF32 [] 1 [0, 0, 0, 0] [0] = Inr [0]"
  by (simp_all add: decode_payload_def element_def value32_def units32_def)

text \<open>Three samples at 1 and one at 0: the machine sends 3/4 for four samples.\<close>

lemmas ex_local_defs = local_post_def local_ok_def open_local_def new_local_def local_key_def contribute_def rnd_def put_rnd_def
  newDDPAccumulator_def member_of_def merge_header_def scales_of_def addSegmented_decode fold_in_def sampleWeight_def
  HasPrefix_def HasSuffix_def

definition ex_local_round :: ddpLocalRound where
  "ex_local_round = \<lparr>lr_acc = Some \<lparr>ac_dtype = ddpF32, ac_segments = [], ac_sum = [3], ac_count = 2, ac_weight = 4, ac_sumSq = 3\<rparr>,
     lr_hdr = ex_local_req 1 3, lr_upstream = ''http://a/v1/ddp/sync'',
     lr_members = [member_of (ex_local_req 1 3), member_of (ex_local_req 2 1)], lr_want = 2, lr_sent = True, lr_fetched = 0,
     lr_answer = None, lr_created = 0\<rparr>"

lemma ex_local_run: "lb_store (fold local_step ex_local_posts empty_local) = [ex_local_round]"
  by (simp add: ex_local_posts_def empty_local_def ex_local_round_def ex_local_req_def ex_local_defs ex_values [simplified])

lemma ex_local_forward:
  "fst (forward_local 2 0 (fold local_step ex_local_posts empty_local)) = Some (ex_local_hdr, Inr (WideMean ddpF32 [3 / 4]))"
  by (simp add: forward_local_def rnd_def ex_local_run ex_local_round_def uplink_mean_def mean_reply_def inv_weight_def
      forward_header_def forward_samples_def ex_local_hdr_def ex_local_req_def member_of_def go_round_of_int [of 4, simplified] Let_def)


end
