(* ===== verification/NarPack.thy ===== *)
theory NarPack
  imports MapSet GoMap "HOL-Library.List_Lexorder" "HOL-Library.Char_ord"
begin

text \<open>
  A closure as it travels between peers, \<^verbatim>\<open>src/internal/narpack/narpack.go\<close>, and the bound on the cache it is
  published from, \<^verbatim>\<open>prune.go\<close>. A cache directory is a list of files by their name below it, with the time of
  last use; a tar stream is the list of its entries and whether it ends well; a file system is a list of files
  by absolute path. What Go's \<^verbatim>\<open>path\<close> package does to a name is written out. The JSON of the manifest answers
  through arguments, as does the file system's consent to a new file; \<^verbatim>\<open>nix\<close> itself is not modelled.
\<close>

subsection \<open>Paths\<close>

definition clean_step :: "bool \<Rightarrow> string list \<Rightarrow> string \<Rightarrow> string list" where
  "clean_step rooted stack c =
     (if c = [] \<or> c = ''.'' then stack
      else if c = ''..''
        then if stack \<noteq> [] \<and> last stack \<noteq> ''..'' then butlast stack else if rooted then stack else stack @ [c]
      else stack @ [c])"

definition IsAbs :: "string \<Rightarrow> bool" where
  "IsAbs p \<longleftrightarrow> HasPrefix p ''/''"

definition clean_parts :: "string \<Rightarrow> string list" where
  "clean_parts p = foldl (clean_step (IsAbs p)) [] (Split CHR ''/'' p)"

text \<open>\<open>path.Clean\<close>.\<close>

definition Clean :: "string \<Rightarrow> string" where
  "Clean p =
     (let body = Join ''/'' (clean_parts p)
      in if IsAbs p then ''/'' @ body else if body = [] then ''.'' else body)"

text \<open>\<open>filepath.Join\<close> of a directory and a name below it, neither empty.\<close>

definition join_name :: "string \<Rightarrow> string \<Rightarrow> string" where
  "join_name dir name = Clean (dir @ ''/'' @ name)"

datatype name_error = EmptyName | OutsideDir string

definition safeName :: "string \<Rightarrow> name_error + string" where
  "safeName name =
     (let c = Clean (map (\<lambda>x. if x = CHR 0x5C then CHR ''/'' else x) name)
      in if c = [] \<or> c = ''.'' then Inl EmptyName
         else if IsAbs c \<or> c = ''..'' \<or> HasPrefix c ''../'' then Inl (OutsideDir name) else Inr c)"

subsection \<open>Narinfo files\<close>

fun CutStr :: "string \<Rightarrow> string \<Rightarrow> (string \<times> string) option" where
  "CutStr sep [] = (if sep = [] then Some ([], []) else None)"
| "CutStr sep (c # s) =
     (if HasPrefix (c # s) sep then Some ([], drop (length sep) (c # s))
      else case CutStr sep s of None \<Rightarrow> None | Some (a, b) \<Rightarrow> Some (c # a, b))"

record narinfo =
  ni_StorePath :: string
  ni_URL :: string
  ni_Signed :: bool
  ni_Name :: string

datatype narinfo_error = LineLimit | NoStorePath string | NoURL string

definition narinfo_line :: "narinfo \<Rightarrow> string \<Rightarrow> narinfo" where
  "narinfo_line ni l =
     (case CutStr '': '' l of None \<Rightarrow> ni
      | Some (field, v) \<Rightarrow>
          if field = ''StorePath'' then ni\<lparr>ni_StorePath := TrimSpace v\<rparr>
          else if field = ''URL'' then ni\<lparr>ni_URL := TrimSpace v\<rparr>
          else if field = ''Sig'' then ni\<lparr>ni_Signed := True\<rparr> else ni)"

definition narinfo_line_limit :: int where "narinfo_line_limit = 8 * 1024 * 1024"

definition ParseNarinfo :: "string \<Rightarrow> string \<Rightarrow> narinfo_error + narinfo" where
  "ParseNarinfo name body =
     (if \<not> list_all (\<lambda>l. int (length l) < narinfo_line_limit) (raw_lines body) then Inl LineLimit
      else let ni = foldl narinfo_line \<lparr>ni_StorePath = [], ni_URL = [], ni_Signed = False, ni_Name = name\<rparr>
                 (map dropCR (raw_lines body))
           in if ni_StorePath ni = [] then Inl (NoStorePath name)
              else if ni_URL ni = [] then Inl (NoURL name) else Inr ni)"

subsection \<open>The cache directory\<close>

record cache_file =
  cf_Body :: string
  cf_Used :: int

type_synonym cache = "(string \<times> cache_file) list"

text \<open>The narinfo files of the directory itself, in the order a listing has them.\<close>

definition narinfo_files :: "cache \<Rightarrow> (string \<times> cache_file) list" where
  "narinfo_files c = filter (\<lambda>(name, f). CHR ''/'' \<notin> set name \<and> HasSuffix name ''.narinfo'') (sort_key fst c)"

fun index_files :: "(string \<times> cache_file) list \<Rightarrow> (string \<times> narinfo) list \<Rightarrow> narinfo_error + (string \<times> narinfo) list" where
  "index_files [] out = Inr out"
| "index_files ((name, f) # fs) out =
     (case ParseNarinfo name (cf_Body f) of
        Inl e \<Rightarrow> Inl e
      | Inr ni \<Rightarrow> index_files fs (AList.update (ni_StorePath ni) ni out))"

definition index_of :: "cache \<Rightarrow> narinfo_error + (string \<times> narinfo) list" where
  "index_of c = index_files (narinfo_files c) []"

text \<open>The file a URL names below the directory; one outside it is not in the model, so not found.\<close>

definition archive_name :: "string \<Rightarrow> string" where
  "archive_name url = Clean (''./'' @ url)"

subsection \<open>Packing\<close>

record manifest =
  mf_Format :: int
  mf_Roots :: "string list"
  mf_Signer :: string
  mf_SignerKey :: string

definition no_manifest :: manifest where
  "no_manifest = \<lparr>mf_Format = 0, mf_Roots = [], mf_Signer = [], mf_SignerKey = []\<rparr>"

definition Format :: int where "Format = 1"
definition ManifestName :: string where "ManifestName = ''pipedpeer-closure.json''"

text \<open>\<open>en_Whole\<close>: the stream holds all of the entry's body.\<close>

record tar_entry =
  en_Name :: string
  en_Dir :: bool
  en_Body :: string
  en_Whole :: bool

definition file_entry :: "string \<Rightarrow> string \<Rightarrow> tar_entry" where
  "file_entry name body = \<lparr>en_Name = name, en_Dir = False, en_Body = body, en_Whole = True\<rparr>"

datatype pack_error = NoRootsToPack | BadIndex narinfo_error | NeverPublished string | ReadFailed string

definition pack_path :: "cache \<Rightarrow> (string \<times> narinfo) list \<Rightarrow> (string \<Rightarrow> bool) \<Rightarrow> string \<Rightarrow> pack_error + tar_entry list" where
  "pack_path c index send p =
     (case map_of index p of
        None \<Rightarrow> Inl (NeverPublished p)
      | Some ni \<Rightarrow>
          (case map_of c (ni_Name ni) of
             None \<Rightarrow> Inl (ReadFailed p)
           | Some f \<Rightarrow>
               if \<not> send p then Inr [file_entry (ni_Name ni) (cf_Body f)]
               else (case map_of c (archive_name (ni_URL ni)) of
                  None \<Rightarrow> Inl (ReadFailed p)
                | Some a \<Rightarrow> Inr [file_entry (ni_Name ni) (cf_Body f), file_entry (ni_URL ni) (cf_Body a)])))"

fun pack_paths :: "cache \<Rightarrow> (string \<times> narinfo) list \<Rightarrow> (string \<Rightarrow> bool) \<Rightarrow> string list \<Rightarrow> pack_error + tar_entry list" where
  "pack_paths c index send [] = Inr []"
| "pack_paths c index send (p # ps) =
     (case pack_path c index send p of Inl e \<Rightarrow> Inl e
      | Inr es \<Rightarrow> (case pack_paths c index send ps of Inl e \<Rightarrow> Inl e | Inr rest \<Rightarrow> Inr (es @ rest)))"

text \<open>\<open>wanted\<close> is what the peer lacks, \<open>None\<close> when it could not say.\<close>

definition sends :: "string list \<Rightarrow> string list option \<Rightarrow> string \<Rightarrow> bool" where
  "sends closure wanted p = (case wanted of None \<Rightarrow> p \<in> set closure | Some w \<Rightarrow> p \<in> set w)"

definition PackSigned ::
  "(manifest \<Rightarrow> string) \<Rightarrow> manifest \<Rightarrow> cache \<Rightarrow> string list \<Rightarrow> string list \<Rightarrow> string list option \<Rightarrow> pack_error + tar_entry list" where
  "PackSigned encode m c roots closure wanted =
     (if roots = [] then Inl NoRootsToPack
      else case index_of c of
        Inl e \<Rightarrow> Inl (BadIndex e)
      | Inr index \<Rightarrow>
          let m = m\<lparr>mf_Format := Format, mf_Roots := roots\<rparr>
          in case pack_paths c index (sends closure wanted) (sort closure) of
               Inl e \<Rightarrow> Inl e
             | Inr es \<Rightarrow> Inr (file_entry ManifestName (encode m) # es))"

definition Pack :: "(manifest \<Rightarrow> string) \<Rightarrow> cache \<Rightarrow> string list \<Rightarrow> string list \<Rightarrow> string list option \<Rightarrow> pack_error + tar_entry list" where
  "Pack encode c roots closure wanted = PackSigned encode no_manifest c roots closure wanted"

subsection \<open>Unpacking\<close>

type_synonym files = "(string \<times> string) list"

definition maxManifestBytes :: int where "maxManifestBytes = 16 * 2 ^ 20"

datatype unpack_error =
    TarBroken | BadName name_error | ManifestTooBig | BadManifest | WriteFailed string
  | NoManifest | OtherFormat int | NoRoots

text \<open>
  \<open>decode body m\<close> reads the JSON over the manifest \<open>m\<close>, whose fields it keeps where the text has none.
  \<open>create\<close> is whether the file system lets a file be made (its directories included).
\<close>

fun unpack_entries ::
  "(files \<Rightarrow> string \<Rightarrow> bool) \<Rightarrow> (string \<Rightarrow> manifest \<Rightarrow> manifest option) \<Rightarrow> string \<Rightarrow> bool \<Rightarrow> tar_entry list \<Rightarrow>
   manifest \<times> bool \<Rightarrow> files \<Rightarrow> (unpack_error + manifest) \<times> files" where
  "unpack_entries create decode dir ends [] (m, seen) fs =
     (if \<not> ends then Inl TarBroken
      else if \<not> seen then Inl NoManifest
      else if mf_Format m \<noteq> Format then Inl (OtherFormat (mf_Format m))
      else if mf_Roots m = [] then Inl NoRoots else Inr m, fs)"
| "unpack_entries create decode dir ends (e # es) (m, seen) fs =
     (if en_Dir e then unpack_entries create decode dir ends es (m, seen) fs
      else case safeName (en_Name e) of
        Inl err \<Rightarrow> (Inl (BadName err), fs)
      | Inr name \<Rightarrow>
          if name = ManifestName
          then if maxManifestBytes < int (length (en_Body e)) then (Inl ManifestTooBig, fs)
               else if \<not> en_Whole e then (Inl TarBroken, fs)
               else (case decode (en_Body e) m of
                   None \<Rightarrow> (Inl BadManifest, fs)
                 | Some m' \<Rightarrow> unpack_entries create decode dir ends es (m', True) fs)
          else let dst = join_name dir name
               in if \<not> create fs dst then (Inl (WriteFailed dst), fs)
                  else let fs' = AList.update dst (en_Body e) fs
                       in if \<not> en_Whole e then (Inl TarBroken, fs')
                          else unpack_entries create decode dir ends es (m, seen) fs')"

definition Unpack ::
  "(files \<Rightarrow> string \<Rightarrow> bool) \<Rightarrow> (string \<Rightarrow> manifest \<Rightarrow> manifest option) \<Rightarrow> string \<Rightarrow> tar_entry list \<times> bool \<Rightarrow>
   files \<Rightarrow> (unpack_error + manifest) \<times> files" where
  "Unpack create decode dir archive fs = unpack_entries create decode dir (snd archive) (fst archive) (no_manifest, False) fs"

subsection \<open>Telling the formats apart\<close>

definition tarMagicOffset :: nat where "tarMagicOffset = 257"
definition tarMagic :: string where "tarMagic = ''ustar''"

definition IsArchive :: "string \<Rightarrow> bool" where
  "IsArchive stream =
     (let head = take (tarMagicOffset + length tarMagic) stream
      in if length head < tarMagicOffset + length tarMagic then False
         else if drop tarMagicOffset head \<noteq> tarMagic then False
         else rev (dropWhile (\<lambda>c. c = CHR 0x00) (rev (take (length ManifestName) head))) = ManifestName)"

subsection \<open>The import\<close>

definition Fields :: "string \<Rightarrow> string list" where
  "Fields s = filter (\<lambda>w. w \<noteq> []) (Split CHR '' '' (map (\<lambda>c. if is_space c then CHR '' '' else c) s))"

definition cacheURI :: "string \<Rightarrow> string" where
  "cacheURI dir = ''file://'' @ dir @ ''?compression=zstd''"

definition importArgv :: "string \<Rightarrow> string list \<Rightarrow> string \<Rightarrow> string list" where
  "importArgv dir roots keys =
     [''nix'', ''copy'', ''--from'', cacheURI dir]
     @ (if keys \<noteq> [] then [''--option'', ''extra-trusted-public-keys'', keys] else []) @ roots"

text \<open>The keys an import trusts: the file's, \<open>None\<close> when it cannot be read, and the sender's own.\<close>

definition clusterKeys :: "string option \<Rightarrow> string" where
  "clusterKeys file = (case file of None \<Rightarrow> [] | Some body \<Rightarrow> Join '' '' (Fields body))"

definition import_keys :: "string option \<Rightarrow> string list \<Rightarrow> string" where
  "import_keys file extra = Join '' '' (Fields (clusterKeys file @ '' '' @ Join '' '' extra))"

definition import_command :: "string option \<Rightarrow> string \<Rightarrow> string list \<Rightarrow> string list \<Rightarrow> string list option" where
  "import_command file dir roots extra = (if roots = [] then None else Some (importArgv dir roots (import_keys file extra)))"

subsection \<open>Bounding the cache\<close>

definition DefaultMaxBytes :: int where "DefaultMaxBytes = 8 * 2 ^ 30"

definition MaxBytes :: "string \<Rightarrow> int" where
  "MaxBytes env = (case Atoi env of Some n \<Rightarrow> if 0 < n then n else DefaultMaxBytes | None \<Rightarrow> DefaultMaxBytes)"

record cache_entry =
  ce_narinfo :: string
  ce_nar :: "string option"
  ce_size :: int
  ce_used :: int

text \<open>An entry of the listing: the archive counts when the narinfo reads and the archive is there.\<close>

definition scan_entry :: "cache \<Rightarrow> string \<times> cache_file \<Rightarrow> cache_entry" where
  "scan_entry c nf =
     (let (name, f) = nf;
          size = int (length (cf_Body f))
      in case ParseNarinfo name (cf_Body f) of
           Inl _ \<Rightarrow> \<lparr>ce_narinfo = name, ce_nar = None, ce_size = size, ce_used = cf_Used f\<rparr>
         | Inr ni \<Rightarrow>
             (case map_of c (archive_name (ni_URL ni)) of
                None \<Rightarrow> \<lparr>ce_narinfo = name, ce_nar = None, ce_size = size, ce_used = cf_Used f\<rparr>
              | Some a \<Rightarrow> \<lparr>ce_narinfo = name, ce_nar = Some (archive_name (ni_URL ni)),
                  ce_size = size + int (length (cf_Body a)), ce_used = cf_Used f\<rparr>))"

definition scan :: "cache \<Rightarrow> cache_entry list" where
  "scan c = map (scan_entry c) (narinfo_files c)"

definition Size :: "cache \<Rightarrow> int" where
  "Size c = (\<Sum>e\<leftarrow>scan c. ce_size e)"

text \<open>\<open>removable\<close> is whether a file can be removed.\<close>

definition remove_file :: "(string \<Rightarrow> bool) \<Rightarrow> string \<Rightarrow> cache \<Rightarrow> cache" where
  "remove_file removable name c = (if removable name then AList.delete name c else c)"

definition drop_entry :: "(string \<Rightarrow> bool) \<Rightarrow> cache_entry \<Rightarrow> cache \<Rightarrow> cache" where
  "drop_entry removable e c =
     remove_file removable (ce_narinfo e) (case ce_nar e of None \<Rightarrow> c | Some a \<Rightarrow> remove_file removable a c)"

fun prune_loop :: "(string \<Rightarrow> bool) \<Rightarrow> int \<Rightarrow> int \<Rightarrow> cache_entry list \<Rightarrow> int \<Rightarrow> cache \<Rightarrow> int \<times> cache" where
  "prune_loop removable limit whole [] freed c = (freed, c)"
| "prune_loop removable limit whole (e # es) freed c =
     (if whole - freed \<le> limit then (freed, c)
      else prune_loop removable limit whole es (if removable (ce_narinfo e) then freed + ce_size e else freed)
             (drop_entry removable e c))"

definition Prune_cache :: "(string \<Rightarrow> bool) \<Rightarrow> int \<Rightarrow> cache \<Rightarrow> int \<times> cache" where
  "Prune_cache removable limit c =
     (if limit \<le> 0 then (0, c)
      else if Size c \<le> limit then (0, c)
      else prune_loop removable limit (Size c) (sort_key ce_used (scan c)) 0 c)"

text \<open>The narinfo files of the paths just sent are marked as used; an unreadable index marks none.\<close>

definition Touch :: "int \<Rightarrow> string list \<Rightarrow> cache \<Rightarrow> cache" where
  "Touch now paths c =
     (case index_of c of Inl _ \<Rightarrow> c
      | Inr index \<Rightarrow>
          fold (\<lambda>p c. case map_of index p of None \<Rightarrow> c
                  | Some ni \<Rightarrow> (case map_of c (ni_Name ni) of None \<Rightarrow> c
                      | Some f \<Rightarrow> AList.update (ni_Name ni) (f\<lparr>cf_Used := now\<rparr>) c)) paths c)"

subsection \<open>Names below a directory\<close>

text \<open>A path element the kernel takes as the name of an entry.\<close>

definition ordinary :: "string \<Rightarrow> bool" where
  "ordinary n \<longleftrightarrow> n \<noteq> [] \<and> n \<noteq> ''.'' \<and> n \<noteq> ''..'' \<and> CHR ''/'' \<notin> set n"

lemma Split_single: "sep \<notin> set w \<Longrightarrow> Split sep w = [w]"
  by (induction w) auto

lemma Split_append: "sep \<notin> set w \<Longrightarrow> Split sep (w @ sep # s) = w # Split sep s"
  by (induction w) auto

lemma Split_two: "Split sep (a @ sep # b) = Split sep a @ Split sep b"
proof (induction a)
  case (Cons c a)
  then show ?case by (cases "Split sep a") auto
qed simp

lemma Split_Join: "ws \<noteq> [] \<Longrightarrow> \<forall>w \<in> set ws. sep \<notin> set w \<Longrightarrow> Split sep (Join [sep] ws) = ws"
proof (induction ws)
  case (Cons w ws)
  then show ?case by (cases ws) (simp_all add: Split_single Split_append)
qed simp

lemma Join_Nil_iff: "\<forall>w \<in> set ws. w \<noteq> [] \<Longrightarrow> Join sep ws = [] \<longleftrightarrow> ws = []"
proof (cases ws)
  case (Cons w vs)
  then show "\<forall>w \<in> set ws. w \<noteq> [] \<Longrightarrow> Join sep ws = [] \<longleftrightarrow> ws = []" by (cases vs) simp_all
qed simp

text \<open>The stack while cleaning: parent steps first unless the path is rooted, then ordinary names.\<close>

definition clean_stack :: "bool \<Rightarrow> string list \<Rightarrow> bool" where
  "clean_stack rooted s \<longleftrightarrow> (\<exists>k ns. s = replicate k ''..'' @ ns \<and> list_all ordinary ns \<and> (rooted \<longrightarrow> k = 0))"

lemma clean_step_stack:
  assumes "clean_stack rooted s" "CHR ''/'' \<notin> set c"
  shows "clean_stack rooted (clean_step rooted s c)"
proof -
  obtain k ns where s: "s = replicate k ''..'' @ ns" "list_all ordinary ns" "rooted \<longrightarrow> k = 0"
    using assms(1) by (auto simp: clean_stack_def)
  have ord: "ordinary (last ns)" if "ns \<noteq> []" using s(2) that by (simp add: list_all_iff)
  consider (skip) "c = [] \<or> c = ''.''" | (up) "c = ''..''" | (down) "ordinary c"
    using assms(2) by (auto simp: ordinary_def)
  then show ?thesis
  proof cases
    case up
    show ?thesis
    proof (cases "ns = []")
      case True
      then have "clean_step rooted s c = (if rooted then s else replicate (Suc k) ''..'')"
        using up by (cases k) (simp_all add: clean_step_def s(1) flip: replicate_append_same)
      moreover have "clean_stack rooted (replicate (Suc k) ''..'')" if "\<not> rooted"
        unfolding clean_stack_def using that by (intro exI [of _ "Suc k"] exI [of _ "[]"]) simp
      ultimately show ?thesis using assms(1) by (cases rooted) simp_all
    next
      case False
      then have "clean_step rooted s c = replicate k ''..'' @ butlast ns"
        using up ord by (simp add: clean_step_def s(1) ordinary_def butlast_append)
      then show ?thesis using s(2,3) unfolding clean_stack_def list_all_iff
        by (intro exI [of _ k] exI [of _ "butlast ns"]) (auto dest: in_set_butlastD)
    qed
  next
    case down
    then have "clean_step rooted s c = replicate k ''..'' @ (ns @ [c])" by (simp add: clean_step_def s(1) ordinary_def)
    then show ?thesis using s(2,3) down unfolding clean_stack_def
      by (intro exI [of _ k] exI [of _ "ns @ [c]"]) simp
  qed (use assms(1) in \<open>auto simp: clean_step_def\<close>)
qed

lemma clean_parts_stack: "clean_stack (IsAbs p) (clean_parts p)"
proof -
  have "clean_stack r s \<Longrightarrow> \<forall>w \<in> set ws. CHR ''/'' \<notin> set w \<Longrightarrow> clean_stack r (foldl (clean_step r) s ws)" for r s ws
    by (induction ws arbitrary: s) (simp_all add: clean_step_stack)
  moreover have "clean_stack (IsAbs p) []" by (auto simp: clean_stack_def)
  ultimately show ?thesis unfolding clean_parts_def using Split_parts by blast
qed

text \<open>Ordinary names go through cleaning as they are.\<close>

lemma clean_ordinary: "list_all ordinary ns \<Longrightarrow> foldl (clean_step r) s ns = s @ ns"
  by (induction ns arbitrary: s) (auto simp: clean_step_def ordinary_def)

lemma safeName_ordinary:
  assumes "safeName name = Inr c"
  obtains ns where "ns \<noteq> []" "list_all ordinary ns" "c = Join ''/'' ns" "Split CHR ''/'' c = ns"
proof -
  let ?p = "map (\<lambda>x. if x = CHR 0x5C then CHR ''/'' else x) name"
  have c: "c = Clean ?p" "c \<noteq> ''.''" "\<not> IsAbs c" "c \<noteq> ''..''" "\<not> HasPrefix c ''../''"
    using assms by (auto simp: safeName_def Let_def split: if_splits)
  have "IsAbs (''/'' @ x)" for x by (simp add: IsAbs_def HasPrefix_def)
  then have rel: "\<not> IsAbs ?p" using c(1,3) unfolding Clean_def Let_def by metis
  obtain k ns where ps: "clean_parts ?p = replicate k ''..'' @ ns" "list_all ordinary ns"
    using clean_parts_stack [of ?p] by (auto simp: clean_stack_def)
  have "c = (if Join ''/'' (replicate k ''..'' @ ns) = [] then ''.'' else Join ''/'' (replicate k ''..'' @ ns))"
    unfolding c(1) by (simp only: Clean_def Let_def ps(1) rel if_False)
  then have body: "c = Join ''/'' (replicate k ''..'' @ ns)" using c(2) by (simp split: if_splits)
  have "k = 0"
  proof (rule ccontr)
    assume "k \<noteq> 0"
    then obtain j where k: "k = Suc j" by (cases k) auto
    show False
    proof (cases "replicate j ''..'' @ ns")
      case Nil
      then show False using body c(4) by (simp add: k)
    next
      case (Cons w ws)
      then have "c = ''..'' @ ''/'' @ Join ''/'' (w # ws)" using body by (simp add: k)
      then show False using c(5) by (simp add: HasPrefix_def)
    qed
  qed
  moreover have "ns \<noteq> []"
  proof
    assume "ns = []"
    then have "clean_parts ?p = []" using ps(1) \<open>k = 0\<close> by simp
    then show False using c(1,2) rel by (simp add: Clean_def)
  qed
  moreover have "Split CHR ''/'' (Join ''/'' ns) = ns"
    using \<open>ns \<noteq> []\<close> ps(2) by (intro Split_Join) (auto simp: list_all_iff ordinary_def)
  ultimately show ?thesis using that ps(2) body by simp
qed

text \<open>The absolute path with these names.\<close>

definition abs_path :: "string list \<Rightarrow> string" where
  "abs_path ds = ''/'' @ Join ''/'' ds"

lemma Join_append: "ds \<noteq> [] \<Longrightarrow> ns \<noteq> [] \<Longrightarrow> Join sep (ds @ ns) = Join sep ds @ sep @ Join sep ns"
proof (induction ds)
  case (Cons d ds)
  then show ?case by (cases ds; cases ns) simp_all
qed simp

lemma join_name_below:
  assumes "list_all ordinary ds" "ds \<noteq> []" "list_all ordinary ns" "ns \<noteq> []"
  shows "join_name (abs_path ds) (Join ''/'' ns) = abs_path (ds @ ns)"
proof -
  have no_sep: "\<forall>w \<in> set (ds @ ns). CHR ''/'' \<notin> set w" using assms by (auto simp: list_all_iff ordinary_def)
  have p: "abs_path ds @ ''/'' @ Join ''/'' ns = CHR ''/'' # Join ''/'' (ds @ ns)"
    using Join_append [OF assms(2,4), of "''/''"] by (simp add: abs_path_def)
  have "Split CHR ''/'' (CHR ''/'' # Join ''/'' (ds @ ns)) = [] # (ds @ ns)"
    using Split_Join [of "ds @ ns" "CHR ''/''"] no_sep assms(2) by simp
  then have "clean_parts (CHR ''/'' # Join ''/'' (ds @ ns)) = ds @ ns"
    using clean_ordinary [of "ds @ ns" True "[]"] assms
    by (simp add: clean_parts_def IsAbs_def HasPrefix_def clean_step_def)
  then show ?thesis unfolding join_name_def p by (simp add: Clean_def IsAbs_def HasPrefix_def abs_path_def)
qed

subsection \<open>Unpacking stays inside\<close>

text \<open>Where a path leads: an empty element or a dot stays, two dots go up.\<close>

definition walk :: "string \<Rightarrow> string list" where
  "walk p = foldl (\<lambda>w c. if c = [] \<or> c = ''.'' then w else if c = ''..'' then butlast w else w @ [c]) [] (Split CHR ''/'' p)"

lemma walk_abs_path:
  assumes "list_all ordinary ns" "ns \<noteq> []"
  shows "walk (abs_path ns) = ns"
proof -
  let ?f = "\<lambda>w c. if c = [] \<or> c = ''.'' then w else if c = ''..'' then butlast w else w @ [c]"
  have fold: "list_all ordinary ns \<Longrightarrow> foldl ?f w ns = w @ ns" for w ns
    by (induction ns arbitrary: w) (auto simp: ordinary_def)
  have "Split CHR ''/'' (abs_path ns) = [] # ns"
    using Split_Join [of ns "CHR ''/''"] assms by (auto simp: abs_path_def list_all_iff ordinary_def)
  then show ?thesis using fold [OF assms(1), of "[]"] by (simp add: walk_def)
qed

lemma unpack_entry_path:
  assumes "list_all ordinary ds" "ds \<noteq> []" "safeName n = Inr name"
  obtains ns where "ns \<noteq> []" "list_all ordinary ns" "join_name (abs_path ds) name = abs_path (ds @ ns)" "name = Join ''/'' ns"
proof -
  obtain ns where ns: "ns \<noteq> []" "list_all ordinary ns" "name = Join ''/'' ns" using assms(3) by (rule safeName_ordinary)
  then show ?thesis using that join_name_below [OF assms(1,2) ns(2,1)] by simp
qed

lemma unpack_changes:
  assumes "list_all ordinary ds" "ds \<noteq> []" "unpack_entries create decode (abs_path ds) ends es st fs = (r, fs')"
    and "map_of fs' q \<noteq> map_of fs q"
  shows "\<exists>ns. ns \<noteq> [] \<and> list_all ordinary ns \<and> q = abs_path (ds @ ns)"
  using assms(3,4)
proof (induction es arbitrary: st fs)
  case Nil
  then show ?case by (cases st) simp
next
  case (Cons e es)
  obtain m seen where st: "st = (m, seen)" by (rule prod.exhaust)
  note run = Cons.prems(1) [unfolded st]
  show ?case
  proof (cases "en_Dir e")
    case True
    then show ?thesis using Cons.IH [OF _ Cons.prems(2), of "(m, seen)"] run by simp
  next
    case False
    show ?thesis
    proof (cases "safeName (en_Name e)")
      case (Inl err)
      then show ?thesis using run Cons.prems(2) False by simp
    next
      case (Inr name)
      show ?thesis
      proof (cases "name = ManifestName")
        case True
        then show ?thesis using run Cons.prems(2) Cons.IH [OF _ Cons.prems(2)] False Inr
          by (auto split: if_splits option.splits)
      next
        case other: False
        obtain ns where ns: "ns \<noteq> []" "list_all ordinary ns" "join_name (abs_path ds) name = abs_path (ds @ ns)"
          using assms(1,2) Inr by (rule unpack_entry_path)
        let ?fs = "AList.update (abs_path (ds @ ns)) (en_Body e) fs"
        show ?thesis
        proof (cases "q = abs_path (ds @ ns)")
          case True
          then show ?thesis using ns by blast
        next
          case q: False
          have same: "map_of ?fs q = map_of fs q" using q by (simp add: update_conv')
          show ?thesis
          proof (cases "create fs (abs_path (ds @ ns)) \<and> en_Whole e")
            case True
            then have "unpack_entries create decode (abs_path ds) ends es (m, seen) ?fs = (r, fs')"
              using run False Inr other by (simp add: ns(3))
            then show ?thesis using Cons.IH [of "(m, seen)" ?fs] Cons.prems(2) same by simp
          next
            case stop: False
            then have "fs' = fs \<or> fs' = ?fs" using run False Inr other by (auto simp: ns(3) Let_def split: if_splits)
            then show ?thesis using Cons.prems(2) same by auto
          qed
        qed
      qed
    qed
  qed
qed

text \<open>C18: Whatever another machine puts in a closure archive, unpacking it changes no file but those whose
  path leads, by ordinary names, below the directory it unpacks into, also when it ends with an error.\<close>

theorem unpack_stays_inside:
  assumes "list_all ordinary ds" "ds \<noteq> []" "Unpack create decode (abs_path ds) archive fs = (r, fs')"
    and "map_of fs' q \<noteq> map_of fs q"
  shows "\<exists>ns. walk q = walk (abs_path ds) @ ns \<and> ns \<noteq> [] \<and> list_all ordinary ns"
proof -
  obtain ns where ns: "ns \<noteq> []" "list_all ordinary ns" "q = abs_path (ds @ ns)"
    using unpack_changes [OF assms(1,2) assms(3) [unfolded Unpack_def] assms(4)] by blast
  then show ?thesis using walk_abs_path [of "ds @ ns"] walk_abs_path [OF assms(1,2)] assms(1) by auto
qed

subsection \<open>What is packed arrives\<close>

lemma safe_archive_name: "safeName u = Inr u \<Longrightarrow> archive_name u = u"
proof -
  assume u: "safeName u = Inr u"
  obtain ns where ns: "ns \<noteq> []" "list_all ordinary ns" "u = Join ''/'' ns" "Split CHR ''/'' u = ns"
    by (rule safeName_ordinary [OF u])
  have split: "Split CHR ''/'' (''./'' @ u) = ''.'' # ns" by (simp add: ns(4))
  have "\<not> IsAbs (''./'' @ u)" by (simp add: IsAbs_def HasPrefix_def)
  moreover from this have "clean_parts (''./'' @ u) = ns"
    unfolding clean_parts_def split using clean_ordinary [OF ns(2), of False "[]"] by (simp add: clean_step_def)
  moreover have "u \<noteq> []" using ns(1,2,3) Join_Nil_iff [of ns "''/''"] by (auto simp: list_all_iff ordinary_def)
  ultimately show "archive_name u = u" by (simp add: archive_name_def Clean_def ns(3) Let_def)
qed

definition plain_entry :: "tar_entry \<Rightarrow> bool" where
  "plain_entry e \<longleftrightarrow> safeName (en_Name e) = Inr (en_Name e) \<and> en_Name e \<noteq> ManifestName"

definition put_entry_file :: "string \<Rightarrow> tar_entry \<Rightarrow> files \<Rightarrow> files" where
  "put_entry_file dir e fs = AList.update (join_name dir (en_Name e)) (en_Body e) fs"

lemma unpack_good:
  assumes "list_all (\<lambda>e. plain_entry e \<and> \<not> en_Dir e \<and> en_Whole e) es" "mf_Format m = Format" "mf_Roots m \<noteq> []"
  shows "unpack_entries (\<lambda>_ _. True) decode dir True es (m, True) fs = (Inr m, fold (put_entry_file dir) es fs)"
  using assms(1) by (induction es arbitrary: fs) (simp_all add: assms(2,3) plain_entry_def put_entry_file_def Let_def)

lemma join_name_inj:
  assumes "list_all ordinary ds" "ds \<noteq> []" "safeName x = Inr a" "safeName y = Inr b"
  shows "join_name (abs_path ds) a = join_name (abs_path ds) b \<longleftrightarrow> a = b"
proof -
  have "join_name (abs_path ds) a = abs_path ds @ ''/'' @ a" if name: "safeName x = Inr a" for x a
  proof -
    obtain ns where "ns \<noteq> []" "join_name (abs_path ds) a = abs_path (ds @ ns)" "a = Join ''/'' ns"
      by (rule unpack_entry_path [OF assms(1,2) name])
    then show ?thesis using Join_append [OF assms(2), of ns "''/''"] by (simp add: abs_path_def)
  qed
  from this [OF assms(3)] this [OF assms(4)] show ?thesis by simp
qed

lemma received_file:
  assumes "list_all ordinary ds" "ds \<noteq> []" "safeName n = Inr n"
    and "\<forall>e \<in> set es. plain_entry e \<and> Some (en_Body e) = g (en_Name e)"
  shows "map_of (fold (put_entry_file (abs_path ds)) es fs) (join_name (abs_path ds) n) =
    (if n \<in> en_Name ` set es then g n else map_of fs (join_name (abs_path ds) n))"
  using assms(4)
proof (induction es arbitrary: fs)
  case (Cons e es)
  have e: "safeName (en_Name e) = Inr (en_Name e)" using Cons.prems by (simp add: plain_entry_def)
  show ?case using Cons join_name_inj [OF assms(1,2) e assms(3)]
    by (auto simp: put_entry_file_def update_conv')
qed simp

text \<open>The names a path of the closure has in the archive.\<close>

definition sent_names :: "(string \<times> narinfo) list \<Rightarrow> (string \<Rightarrow> bool) \<Rightarrow> string \<Rightarrow> string list" where
  "sent_names index send p = (case map_of index p of None \<Rightarrow> []
     | Some ni \<Rightarrow> ni_Name ni # (if send p then [ni_URL ni] else []))"

lemma pack_path_entries:
  assumes "pack_path c index send p = Inr es"
  shows "map en_Name es = sent_names index send p
    \<and> list_all (\<lambda>e. \<not> en_Dir e \<and> en_Whole e) es
    \<and> (\<forall>e \<in> set es. Some (en_Body e) = map_option cf_Body (map_of c (en_Name e))
         \<or> Some (en_Body e) = map_option cf_Body (map_of c (archive_name (en_Name e))) \<and> en_Name e \<noteq> archive_name (en_Name e))"
  using assms by (auto simp: pack_path_def sent_names_def file_entry_def split: option.splits if_splits)

lemma pack_paths_entries:
  assumes "pack_paths c index send ps = Inr es"
  shows "map en_Name es = concat (map (sent_names index send) ps)
    \<and> list_all (\<lambda>e. \<not> en_Dir e \<and> en_Whole e) es
    \<and> (\<forall>e \<in> set es. Some (en_Body e) = map_option cf_Body (map_of c (en_Name e))
         \<or> Some (en_Body e) = map_option cf_Body (map_of c (archive_name (en_Name e))) \<and> en_Name e \<noteq> archive_name (en_Name e))"
  using assms
proof (induction ps arbitrary: es)
  case (Cons p ps)
  obtain es1 es2 where es: "pack_path c index send p = Inr es1" "pack_paths c index send ps = Inr es2" "es = es1 @ es2"
    using Cons.prems by (auto split: sum.splits)
  show ?case using pack_path_entries [OF es(1)] Cons.IH [OF es(2)] unfolding es(3) by (simp add: ball_Un)
qed simp

lemma safe_ManifestName: "safeName ManifestName = Inr ManifestName"
proof -
  have "ordinary ManifestName" by (simp add: ManifestName_def ordinary_def)
  then have "clean_parts ManifestName = [ManifestName]"
    using clean_ordinary [of "[ManifestName]" False "[]"] Split_single [of "CHR ''/''" ManifestName]
    by (simp add: clean_parts_def ordinary_def) (simp add: ManifestName_def IsAbs_def HasPrefix_def)
  then have "Clean ManifestName = ManifestName"
    unfolding Clean_def by (simp add: Let_def) (simp add: ManifestName_def IsAbs_def HasPrefix_def)
  moreover have "map (\<lambda>x. if x = CHR 0x5C then CHR ''/'' else x) ManifestName = ManifestName" by (simp add: ManifestName_def)
  ultimately show ?thesis by (simp add: safeName_def) (simp add: ManifestName_def IsAbs_def HasPrefix_def)
qed

text \<open>C19: A packed closure arrives: unpacking what was packed gives the manifest with the roots, and the
  new cache holds, each with its sender's contents, exactly the narinfo files of the whole closure and
  the archives of the paths the peer lacks.\<close>

theorem packed_closure_arrives:
  assumes "PackSigned encode m0 c roots closure wanted = Inr es"
    and "m = m0\<lparr>mf_Format := Format, mf_Roots := roots\<rparr>"
    and "decode (encode m) no_manifest = Some m" "int (length (encode m)) \<le> maxManifestBytes"
    and "list_all plain_entry (tl es)" "list_all ordinary ds" "ds \<noteq> []" "safeName n = Inr n"
  shows "\<exists>index fs. index_of c = Inr index \<and> Unpack (\<lambda>_ _. True) decode (abs_path ds) (es, True) [] = (Inr m, fs)
    \<and> map_of fs (join_name (abs_path ds) n) =
        (if n \<in> set (concat (map (sent_names index (sends closure wanted)) closure)) then map_option cf_Body (map_of c n) else None)"
proof -
  have roots: "roots \<noteq> []" using assms(1) by (auto simp: PackSigned_def)
  obtain index es' where index: "index_of c = Inr index"
    and pack: "pack_paths c index (sends closure wanted) (sort closure) = Inr es'"
    and es: "es = file_entry ManifestName (encode m) # es'"
    using assms(1) unfolding assms(2) by (auto simp: PackSigned_def Let_def split: if_splits sum.splits)
  note entries = pack_paths_entries [OF pack]
  have plain: "\<forall>e \<in> set es'. plain_entry e" using assms(5) by (simp add: es list_all_iff)
  then have good: "list_all (\<lambda>e. plain_entry e \<and> \<not> en_Dir e \<and> en_Whole e) es'" using entries by (simp add: list_all_iff)
  have bodies: "\<forall>e \<in> set es'. plain_entry e \<and> Some (en_Body e) = map_option cf_Body (map_of c (en_Name e))"
    using plain entries safe_archive_name by (auto simp: plain_entry_def)
  let ?fs = "fold (put_entry_file (abs_path ds)) es' []"
  have "Unpack (\<lambda>_ _. True) decode (abs_path ds) (es, True) [] = (Inr m, ?fs)"
    using assms(3,4) unpack_good [OF good, of m decode "abs_path ds" "[]"] roots
    by (simp add: Unpack_def es file_entry_def safe_ManifestName) (simp add: assms(2))
  moreover have "set (map en_Name es') = set (concat (map (sent_names index (sends closure wanted)) closure))"
    using entries by simp
  ultimately show ?thesis
    using received_file [OF assms(6-8) bodies, of "[]"] index by (auto simp flip: set_map)
qed

subsection \<open>The cache stays under its cap\<close>

lemma prune_loop_prefix:
  "prune_loop (\<lambda>_. True) limit whole es freed c = (freed', c') \<Longrightarrow>
    \<exists>k \<le> length es. freed' = freed + (\<Sum>e\<leftarrow>take k es. ce_size e) \<and> c' = fold (drop_entry (\<lambda>_. True)) (take k es) c
      \<and> (k < length es \<longrightarrow> whole - freed' \<le> limit)
      \<and> (0 < k \<longrightarrow> limit < whole - (freed + (\<Sum>e\<leftarrow>take (k - 1) es. ce_size e)))"
proof (induction es arbitrary: freed c)
  case (Cons e es)
  show ?case
  proof (cases "whole - freed \<le> limit")
    case True
    then show ?thesis using Cons.prems by (intro exI [of _ 0]) simp
  next
    case False
    then have "prune_loop (\<lambda>_. True) limit whole es (freed + ce_size e) (drop_entry (\<lambda>_. True) e c) = (freed', c')"
      using Cons.prems by simp
    from Cons.IH [OF this] obtain k where k: "k \<le> length es" "freed' = freed + ce_size e + (\<Sum>e\<leftarrow>take k es. ce_size e)"
      "c' = fold (drop_entry (\<lambda>_. True)) (take k es) (drop_entry (\<lambda>_. True) e c)" "k < length es \<longrightarrow> whole - freed' \<le> limit"
      "0 < k \<longrightarrow> limit < whole - (freed + ce_size e + (\<Sum>e\<leftarrow>take (k - 1) es. ce_size e))" by blast
    show ?thesis
    proof (intro exI [of _ "Suc k"] conjI impI)
      show "limit < whole - (freed + (\<Sum>e\<leftarrow>take (Suc k - 1) (e # es). ce_size e))"
        using False k(5) by (cases k) (simp_all add: algebra_simps)
    qed (use k in simp_all)
  qed
qed simp

definition gone_names :: "cache_entry list \<Rightarrow> string set" where
  "gone_names es = set (map ce_narinfo es) \<union> (\<Union>e \<in> set es. set_option (ce_nar e))"

lemma drop_entry_filter: "drop_entry (\<lambda>_. True) e c = filter (\<lambda>(n, f). n \<notin> gone_names [e]) c"
  by (auto simp: drop_entry_def remove_file_def gone_names_def AList.delete_eq intro!: filter_cong split: option.split)

lemma drop_fold_filter: "fold (drop_entry (\<lambda>_. True)) es c = filter (\<lambda>(n, f). n \<notin> gone_names es) c"
proof (induction es arbitrary: c)
  case (Cons e es)
  have "gone_names (e # es) = gone_names [e] \<union> gone_names es" by (auto simp: gone_names_def)
  then show ?case
    by (simp only: fold_simps comp_def Cons.IH) (auto simp: drop_entry_filter [of e] intro!: filter_cong)
qed (simp add: gone_names_def case_prod_unfold)

lemma narinfo_files_filter:
  "narinfo_files (filter (\<lambda>(n, f). n \<notin> D) c) = filter (\<lambda>(n, f). n \<notin> D) (narinfo_files c)"
  by (auto simp: narinfo_files_def filter_sort [symmetric] intro!: filter_cong)

lemma map_of_filter_names: "map_of (filter (\<lambda>(n, f). n \<notin> D) c) x = (if x \<in> D then None else map_of c x)"
  by (induction c) auto

lemma scan_entry_smaller: "ce_size (scan_entry (filter (\<lambda>(n, f). n \<notin> D) c) x) \<le> ce_size (scan_entry c x)"
  by (cases x) (simp add: scan_entry_def Let_def map_of_filter_names split: sum.split option.split)

lemma scan_entry_size: "0 \<le> ce_size (scan_entry c x)" "ce_narinfo (scan_entry c x) = fst x"
  by (cases x, simp add: scan_entry_def Let_def split: sum.split option.split)+

lemma sum_sizes_nonneg: "\<forall>e \<in> set es. 0 \<le> ce_size e \<Longrightarrow> 0 \<le> (\<Sum>e\<leftarrow>es. ce_size e)"
  by (induction es) auto

text \<open>What is left after some entries went is no larger than the entries left.\<close>

lemma Size_after_drop:
  assumes "mset es = mset (scan c)"
  shows "Size (fold (drop_entry (\<lambda>_. True)) (take k es) c) \<le> (\<Sum>e\<leftarrow>drop k es. ce_size e)"
proof -
  let ?D = "gone_names (take k es)"
  let ?P = "\<lambda>e. ce_narinfo e \<notin> ?D"
  have pos: "\<forall>e \<in> set es. 0 \<le> ce_size e"
    using mset_eq_setD [OF assms] by (auto simp: scan_def scan_entry_size)
  have "Size (fold (drop_entry (\<lambda>_. True)) (take k es) c)
      = (\<Sum>x\<leftarrow>filter (\<lambda>(n, f). n \<notin> ?D) (narinfo_files c). ce_size (scan_entry (filter (\<lambda>(n, f). n \<notin> ?D) c) x))"
    by (simp add: drop_fold_filter Size_def scan_def narinfo_files_filter comp_def)
  also have "\<dots> \<le> (\<Sum>x\<leftarrow>filter (\<lambda>(n, f). n \<notin> ?D) (narinfo_files c). ce_size (scan_entry c x))"
    by (intro sum_list_mono scan_entry_smaller)
  also have "\<dots> = (\<Sum>e\<leftarrow>filter ?P (scan c). ce_size e)"
    by (simp add: scan_def filter_map comp_def scan_entry_size case_prod_unfold)
  also have "\<dots> = (\<Sum>e\<leftarrow>filter ?P es. ce_size e)"
    by (intro sum_list_map_perm) (simp add: assms)
  also have "\<dots> = (\<Sum>e\<leftarrow>filter ?P (take k es). ce_size e) + (\<Sum>e\<leftarrow>filter ?P (drop k es). ce_size e)"
    by (simp flip: sum_list_append map_append filter_append)
  also have "filter ?P (take k es) = []" by (simp add: filter_empty_conv gone_names_def)
  also have "(\<Sum>e\<leftarrow>filter ?P (drop k es). ce_size e) \<le> (\<Sum>e\<leftarrow>drop k es. ce_size e)"
    using pos by (intro sum_list_map_filter_le) (auto dest: in_set_dropD)
  finally show ?thesis by simp
qed

text \<open>C20: Pruning a cache whose files can be removed brings it under its cap. It removes the entries used
  longest ago, in that order, none beyond what the cap asks for, and reports the bytes it took.\<close>

theorem prune_bounds_the_cache:
  assumes "0 < limit" "Prune_cache (\<lambda>_. True) limit c = (freed, c')" "es = sort_key ce_used (scan c)"
  shows "Size c' \<le> limit
    \<and> (\<exists>k. c' = fold (drop_entry (\<lambda>_. True)) (take k es) c \<and> freed = (\<Sum>e\<leftarrow>take k es. ce_size e)
          \<and> (k = 0 \<or> limit < Size c - (\<Sum>e\<leftarrow>take (k - 1) es. ce_size e)))"
proof (cases "Size c \<le> limit")
  case True
  then show ?thesis using assms by (auto simp: Prune_cache_def intro: exI [of _ 0])
next
  case False
  then have run: "prune_loop (\<lambda>_. True) limit (Size c) es 0 c = (freed, c')"
    using assms by (simp add: Prune_cache_def)
  obtain k where k: "k \<le> length es" "freed = (\<Sum>e\<leftarrow>take k es. ce_size e)" "c' = fold (drop_entry (\<lambda>_. True)) (take k es) c"
    "k < length es \<longrightarrow> Size c - freed \<le> limit" "0 < k \<longrightarrow> limit < Size c - (\<Sum>e\<leftarrow>take (k - 1) es. ce_size e)"
    using prune_loop_prefix [OF run] by auto
  have perm: "mset es = mset (scan c)" by (simp add: assms(3))
  have "Size c = (\<Sum>e\<leftarrow>es. ce_size e)" unfolding Size_def by (intro sum_list_map_perm) (simp add: perm)
  also have "\<dots> = freed + (\<Sum>e\<leftarrow>drop k es. ce_size e)"
    unfolding k(2) by (simp flip: sum_list_append map_append)
  finally have rest: "(\<Sum>e\<leftarrow>drop k es. ce_size e) = Size c - freed" by simp
  have "Size c - freed \<le> limit"
  proof (cases "k < length es")
    case False
    then have "drop k es = []" by simp
    then show ?thesis using rest assms(1) by simp
  qed (use k(4) in simp)
  then have "Size c' \<le> limit" using Size_after_drop [OF perm, of k] rest by (simp add: k(3))
  then show ?thesis using k by blast
qed

text \<open>
  Two store paths of the same contents have one archive. Evicting either removes it, and the other,
  whose narinfo stays, cannot be sent any more.
\<close>

lemma shared_archive_is_lost:
  assumes "map_of index p = Some ni" "ce_nar e = Some (archive_name (ni_URL ni))" "send p"
  shows "pack_path (drop_entry (\<lambda>_. True) e c) index send p = Inl (ReadFailed p)"
proof -
  have "map_of (drop_entry (\<lambda>_. True) e c) (archive_name (ni_URL ni)) = None"
    by (simp add: drop_entry_def remove_file_def assms(2) delete_conv')
  then show ?thesis by (simp add: pack_path_def assms(1,3) split: option.split)
qed

text \<open>One narinfo that does not read stops every transfer out of the cache, whatever it carries.\<close>

lemma unreadable_narinfo_stops_packing:
  assumes "(name, f) \<in> set (narinfo_files c)" "ParseNarinfo name (cf_Body f) = Inl e" "roots \<noteq> []"
  shows "\<exists>e. PackSigned encode m c roots closure wanted = Inl (BadIndex e)"
proof -
  have "(name, f) \<in> set fs \<Longrightarrow> \<exists>e. index_files fs out = Inl e" for fs out
    using assms(2) by (induction fs arbitrary: out) (auto split: sum.split)
  then obtain e where "index_of c = Inl e" using assms(1) unfolding index_of_def by blast
  then show ?thesis using assms(3) by (simp add: PackSigned_def)
qed

subsection \<open>Concrete inputs\<close>

definition ex_cache :: cache where
  "ex_cache = [(''nar/x'', \<lparr>cf_Body = ''XXXX'', cf_Used = 1\<rparr>),
     (''b.narinfo'', \<lparr>cf_Body = ''StorePath: /b'' @ [CHR 0x0A] @ ''URL: nar/x'', cf_Used = 9\<rparr>),
     (''a.narinfo'', \<lparr>cf_Body = ''StorePath: /a'' @ [CHR 0x0A] @ ''URL: nar/y'' @ [CHR 0x0A], cf_Used = 3\<rparr>)]"

definition ex_archive :: "tar_entry list" where
  "ex_archive = [file_entry ''a/../x'' ''B'', file_entry ''../y'' ''C'']"

lemma unpack_stays_inside_witness:
  "Unpack (\<lambda>_ _. True) (\<lambda>_. Some) (abs_path [''c'']) (ex_archive, True) []
     = (Inl (BadName (OutsideDir ''../y'')), [(''/c/x'', ''B'')])
   \<and> (\<exists>ns. walk ''/c/x'' = walk (abs_path [''c'']) @ ns \<and> ns \<noteq> [] \<and> list_all ordinary ns)"
proof -
  have run: "Unpack (\<lambda>_ _. True) (\<lambda>_. Some) (abs_path [''c'']) (ex_archive, True) []
     = (Inl (BadName (OutsideDir ''../y'')), [(''/c/x'', ''B'')])" by code_simp
  have "list_all ordinary [''c'']" by (simp add: ordinary_def)
  from unpack_stays_inside [OF this _ run, of "''/c/x''"] run show ?thesis by simp
qed

lemma packed_closure_arrives_witness:
  "let m = no_manifest\<lparr>mf_Format := Format, mf_Roots := [''/b'']\<rparr>;
       packed = PackSigned (\<lambda>_. ''J'') no_manifest ex_cache [''/b''] [''/b'', ''/a''] (Some [''/b''])
   in \<exists>es fs. packed = Inr es \<and> Unpack (\<lambda>_ _. True) (\<lambda>_ _. Some m) (abs_path [''c'']) (es, True) [] = (Inr m, fs)
        \<and> map_of fs (join_name (abs_path [''c'']) ''nar/x'') = Some ''XXXX''"
proof -
  let ?m = "no_manifest\<lparr>mf_Format := Format, mf_Roots := [''/b'']\<rparr>"
  let ?es = "file_entry ManifestName ''J'' # [file_entry ''a.narinfo'' (''StorePath: /a'' @ [CHR 0x0A] @ ''URL: nar/y'' @ [CHR 0x0A]),
    file_entry ''b.narinfo'' (''StorePath: /b'' @ [CHR 0x0A] @ ''URL: nar/x''), file_entry ''nar/x'' ''XXXX'']"
  have pack: "PackSigned (\<lambda>_. ''J'') no_manifest ex_cache [''/b''] [''/b'', ''/a''] (Some [''/b'']) = Inr ?es" by code_simp
  have plain: "list_all plain_entry (tl ?es)" by code_simp
  have ds: "list_all ordinary [''c'']" by (simp add: ordinary_def)
  have n: "safeName ''nar/x'' = Inr ''nar/x''" by code_simp
  have index: "index_of ex_cache = Inr [(''/a'', \<lparr>ni_StorePath = ''/a'', ni_URL = ''nar/y'', ni_Signed = False, ni_Name = ''a.narinfo''\<rparr>),
    (''/b'', \<lparr>ni_StorePath = ''/b'', ni_URL = ''nar/x'', ni_Signed = False, ni_Name = ''b.narinfo''\<rparr>)]" by code_simp
  have small: "int (length ''J'') \<le> maxManifestBytes" by (simp add: maxManifestBytes_def)
  have cached: "map_of ex_cache ''nar/x'' = Some \<lparr>cf_Body = ''XXXX'', cf_Used = 1\<rparr>" by (simp add: ex_cache_def)
  show ?thesis
    using packed_closure_arrives [where encode = "\<lambda>_. ''J''" and decode = "\<lambda>_ _. Some ?m" and m = ?m, OF pack refl refl small plain ds _ n]
    by (simp add: Let_def pack index cached sent_names_def sends_def)
qed

lemma prune_bounds_the_cache_witness:
  "let (freed, c') = Prune_cache (\<lambda>_. True) 30 ex_cache in freed = 25 \<and> map fst c' = [''nar/x'', ''b.narinfo''] \<and> Size c' \<le> 30"
proof -
  have run: "Prune_cache (\<lambda>_. True) 30 ex_cache = (25, take 2 ex_cache)" by code_simp
  show ?thesis using prune_bounds_the_cache [OF _ run refl] by (simp add: run) (simp add: ex_cache_def)
qed

end
