(* ===== verification/Links.thy ===== *)
theory Links
  imports GoMap GoStrings "HOL-Library.List_Lexorder" "HOL-Library.Char_ord" "HOL-Library.Multiset"
begin

text \<open>
  How a daemon keeps direct links to the members of its cluster: \<^verbatim>\<open>src/internal/internet\<close> (\<^verbatim>\<open>hints.go\<close>, \<^verbatim>\<open>link.go\<close>,
  \<^verbatim>\<open>introducer.go\<close>, \<^verbatim>\<open>connect.go\<close> and the manager of \<^verbatim>\<open>internet.go\<close>) and the candidates of \<^verbatim>\<open>direct/direct.go\<close>. Every
  stretch under the manager's lock is one function on its state; the punch and the QUIC connection answer
  through the arguments of the events. A connection is a number; the parsing and the class of an IP address
  answer through \<open>address_env\<close>; addresses are taken unmapped. Times are nanoseconds, 0 the zero time.
\<close>

abbreviation second :: int where "second \<equiv> 1000000000"

subsection \<open>Candidates\<close>

text \<open>An address and port, by its text; \<open>ae_parse\<close> reads one, \<open>None\<close> when it is none.\<close>

record addr_port =
  ap_ip :: string
  ap_port :: int

record address_env =
  ae_parse :: "string \<Rightarrow> addr_port option"
  ae_text :: "addr_port \<Rightarrow> string"
  ae_loopback :: "string \<Rightarrow> bool"
  ae_private :: "string \<Rightarrow> bool"
  ae_global :: "string \<Rightarrow> bool"

datatype cand_kind = KindLAN | KindMapped | KindReflex | KindGossip

fun cand_rank :: "cand_kind \<Rightarrow> nat" where
  "cand_rank KindLAN = 0"
| "cand_rank KindMapped = 1"
| "cand_rank KindReflex = 2"
| "cand_rank KindGossip = 3"

fun kind_text :: "cand_kind \<Rightarrow> string" where
  "kind_text KindLAN = ''lan''"
| "kind_text KindMapped = ''mapped''"
| "kind_text KindReflex = ''reflex''"
| "kind_text KindGossip = ''gossip''"

record direct_candidate =
  cd_Kind :: cand_kind
  cd_Addr :: addr_port

definition kind_of_text :: "string \<Rightarrow> cand_kind option" where
  "kind_of_text s =
     (if s = ''lan'' then Some KindLAN else if s = ''mapped'' then Some KindMapped
      else if s = ''reflex'' then Some KindReflex else if s = ''gossip'' then Some KindGossip else None)"

definition ParseCandidate :: "address_env \<Rightarrow> string \<Rightarrow> direct_candidate option" where
  "ParseCandidate e s =
     (case Cut CHR '':'' s of None \<Rightarrow> None
      | Some (kind, a) \<Rightarrow>
          (case ae_parse e a of None \<Rightarrow> None
           | Some ap \<Rightarrow> (case kind_of_text kind of None \<Rightarrow> None | Some k \<Rightarrow> Some \<lparr>cd_Kind = k, cd_Addr = ap\<rparr>)))"

text \<open>The insertion sort of the source, on the part already sorted, last first.\<close>

fun place_cand :: "direct_candidate \<Rightarrow> direct_candidate list \<Rightarrow> direct_candidate list" where
  "place_cand c [] = [c]"
| "place_cand c (d # ds) = (if cand_rank (cd_Kind c) < cand_rank (cd_Kind d) then d # place_cand c ds else c # d # ds)"

definition sortByRank :: "direct_candidate list \<Rightarrow> direct_candidate list" where
  "sortByRank cs = rev (foldl (\<lambda>ds c. place_cand c ds) [] cs)"

text \<open>The wire form, and the candidates once per address.\<close>

definition cand_text :: "address_env \<Rightarrow> direct_candidate \<Rightarrow> string" where
  "cand_text e c = kind_text (cd_Kind c) @ '':'' @ ae_text e (cd_Addr c)"

definition dedupe_cands :: "direct_candidate list \<Rightarrow> direct_candidate list" where
  "dedupe_cands cs = sortByRank (snd (fold (\<lambda>c (seen, out). if cd_Addr c \<in> set seen then (seen, out)
     else (seen @ [cd_Addr c], out @ [c])) cs ([], [])))"

text \<open>What a machine publishes: its addresses on the interfaces that are up, the mapped and the reflexive one.\<close>

definition Gather :: "address_env \<Rightarrow> (string \<Rightarrow> bool) \<Rightarrow> (string list \<times> bool) list \<Rightarrow> int \<Rightarrow> addr_port option \<Rightarrow> addr_port option \<Rightarrow> direct_candidate list" where
  "Gather e local_only ifaces port mapped reflex =
     dedupe_cands
       (concat (map (\<lambda>(ips, usable). if usable
           then map (\<lambda>ip. \<lparr>cd_Kind = KindLAN, cd_Addr = \<lparr>ap_ip = ip, ap_port = port\<rparr>\<rparr>)
                  (filter (\<lambda>ip. \<not> ae_loopback e ip \<and> \<not> local_only ip) ips)
           else []) ifaces)
        @ (case mapped of None \<Rightarrow> [] | Some a \<Rightarrow> [\<lparr>cd_Kind = KindMapped, cd_Addr = a\<rparr>])
        @ (case reflex of None \<Rightarrow> [] | Some a \<Rightarrow> [\<lparr>cd_Kind = KindReflex, cd_Addr = a\<rparr>]))"

definition ParseCandidates :: "address_env \<Rightarrow> string list \<Rightarrow> direct_candidate list" where
  "ParseCandidates e ss = sortByRank (List.map_filter (ParseCandidate e) ss)"

definition pathKind :: "direct_candidate list \<Rightarrow> addr_port \<Rightarrow> string" where
  "pathKind cs a = (case find (\<lambda>c. cd_Addr c = a) cs of None \<Rightarrow> ''punched'' | Some c \<Rightarrow> kind_text (cd_Kind c))"

definition short :: "string \<Rightarrow> string" where
  "short node = take 8 node"

subsection \<open>The manager\<close>

record link =
  lk_addr :: string
  lk_conn :: nat
  lk_lastSeen :: int
  lk_since :: int
  lk_dialled :: bool
  lk_path :: string

record backoff_entry =
  bo_until :: int
  bo_tried :: string
  bo_reason :: string

record hint =
  hi_cands :: "string list"
  hi_at :: int

record inflight =
  if_id :: nat
  if_started :: int
  if_kicked :: bool

record introducer =
  in_addr :: string
  in_self :: bool
  in_hidden :: bool
  in_at :: "addr_port option"
  in_waiting :: int
  in_lastReply :: int
  in_lastErr :: string
  in_members :: nat
  in_you :: "addr_port option"
  in_peers :: "string list"
  in_silent :: bool

record manager =
  mg_self :: string
  mg_Poll :: int
  mg_intros :: "introducer list"
  mg_peers :: "(string \<times> link) list"
  mg_reflex :: "addr_port option"
  mg_backoff :: "(string \<times> backoff_entry) list"
  mg_invited :: "(string \<times> string list) list"
  mg_listed :: "string list"
  mg_cands :: "(string \<times> string list) list"
  mg_hints :: "(string \<times> hint) list"
  mg_trying :: "string list"
  mg_inflight :: "(string \<times> inflight) list"
  mg_observed :: "(string \<times> string) list"

definition silentAfter :: int where "silentAfter = 60 * second"
definition raceWindow :: int where "raceWindow = 10 * second"
definition lostAfter :: int where "lostAfter = 5 * second"
definition kickStale :: int where "kickStale = 5 * second"
definition hintTTL :: int where "hintTTL = 600 * second"

definition new_introducer :: "string \<Rightarrow> bool \<Rightarrow> introducer" where
  "new_introducer a self = \<lparr>in_addr = a, in_self = self, in_hidden = False, in_at = None, in_waiting = 0, in_lastReply = 0,
     in_lastErr = [], in_members = 0, in_you = None, in_peers = [], in_silent = False\<rparr>"

text \<open>The configured introducers once each, blanks trimmed, and this daemon's own at the port it serves.\<close>

definition NewManager :: "string \<Rightarrow> int \<Rightarrow> string list \<Rightarrow> string option \<Rightarrow> manager" where
  "NewManager self poll addrs serve =
     (let seen = foldl (\<lambda>out a. let a = TrimSpace a in if a = [] \<or> a \<in> set out then out else out @ [a]) [] addrs
      in \<lparr>mg_self = self, mg_Poll = (if poll \<le> 0 then 20 * second else poll),
          mg_intros = map (\<lambda>a. new_introducer a False) seen @ (case serve of None \<Rightarrow> [] | Some a \<Rightarrow> [new_introducer a True]),
          mg_peers = [], mg_reflex = None, mg_backoff = [], mg_invited = [], mg_listed = [], mg_cands = [], mg_hints = [],
          mg_trying = [], mg_inflight = [], mg_observed = []\<rparr>)"

subsection \<open>Which addresses, and whether to try\<close>

definition add_cand :: "address_env \<Rightarrow> string \<Rightarrow> string list \<times> string list \<Rightarrow> string list \<times> string list" where
  "add_cand e c acc =
     (let (seen, out) = acc
      in case ParseCandidate e c of None \<Rightarrow> acc
         | Some pc \<Rightarrow> let a = ae_text e (cd_Addr pc) in if a \<in> set seen then acc else (seen @ [a], out @ [c]))"

definition known_cands :: "manager \<Rightarrow> string \<Rightarrow> int \<Rightarrow> string list" where
  "known_cands m node now =
     (case map_of (mg_cands m) node of None \<Rightarrow> [] | Some cs \<Rightarrow> cs)
     @ (case map_of (mg_invited m) node of None \<Rightarrow> [] | Some cs \<Rightarrow> cs)
     @ (case map_of (mg_observed m) node of None \<Rightarrow> [] | Some c \<Rightarrow> if c = [] then [] else [c])
     @ (case map_of (mg_hints m) node of None \<Rightarrow> [] | Some h \<Rightarrow> if now - hi_at h \<le> hintTTL then hi_cands h else [])"

definition candidatesLocked :: "address_env \<Rightarrow> manager \<Rightarrow> string \<Rightarrow> int \<Rightarrow> string list" where
  "candidatesLocked e m node now = snd (fold (add_cand e) (known_cands m node now) ([], []))"

definition candKey :: "string list \<Rightarrow> string" where
  "candKey cs = Join ''|'' (sort cs)"

definition shouldTry :: "backoff_entry option \<Rightarrow> string list \<Rightarrow> int \<Rightarrow> bool" where
  "shouldTry back cs now =
     (case back of None \<Rightarrow> True | Some b \<Rightarrow> bo_until b \<le> now \<or> bo_tried b \<noteq> candKey cs)"

text \<open>What a stretch does besides: a connection closed with its code, a join or a leave of the node table, the
  start of an attempt, a peer reported as unreachable.\<close>

datatype link_effect =
    CloseConn nat int
  | Joined string string
  | Gone string string
  | StartConnect string "string list"
  | ReportUnreachable string string
  | SyncNow

definition attempt :: "address_env \<Rightarrow> nat \<Rightarrow> string \<Rightarrow> int \<Rightarrow> manager \<Rightarrow> link_effect list \<times> manager" where
  "attempt e i node now m =
     (if map_of (mg_peers m) node \<noteq> None \<or> node \<in> set (mg_trying m) then ([], m)
      else let cs = candidatesLocked e m node now
           in if \<not> shouldTry (map_of (mg_backoff m) node) cs now then ([], m)
              else ([StartConnect node cs],
                    m\<lparr>mg_trying := node # mg_trying m,
                      mg_inflight := AList.update node \<lparr>if_id = i, if_started = now, if_kicked = False\<rparr> (mg_inflight m)\<rparr>))"

definition noPath :: "string \<Rightarrow> string \<Rightarrow> string \<Rightarrow> int \<Rightarrow> manager \<Rightarrow> link_effect list \<times> manager" where
  "noPath node reason tried now m =
     (let wait = (case map_of (mg_backoff m) node of
            Some b \<Rightarrow> if 0 < bo_until b - now then (bo_until b - now) * 2 else 30 * second
          | None \<Rightarrow> 30 * second);
          wait = (if 300 * second < wait then 300 * second else wait)
      in ([ReportUnreachable node reason],
          m\<lparr>mg_backoff := AList.update node \<lparr>bo_until = now + wait, bo_tried = tried, bo_reason = reason\<rparr> (mg_backoff m)\<rparr>))"

definition release :: "string \<Rightarrow> manager \<Rightarrow> manager" where
  "release node m = m\<lparr>mg_trying := removeAll node (mg_trying m)\<rparr>"

text \<open>The end of a try: whether it was restarted by a kick.\<close>

definition attempt_end :: "nat \<Rightarrow> string \<Rightarrow> manager \<Rightarrow> bool \<times> manager" where
  "attempt_end i node m =
     (let mine = (case map_of (mg_inflight m) node of Some a \<Rightarrow> if_id a = i | None \<Rightarrow> False);
          kicked = (case map_of (mg_inflight m) node of Some a \<Rightarrow> if_id a = i \<and> if_kicked a | None \<Rightarrow> False)
      in (kicked, release node (if mine then m\<lparr>mg_inflight := AList.delete node (mg_inflight m)\<rparr> else m)))"

text \<open>\<open>failed\<close> is the reason the attempt gives, \<open>stopping\<close> whether the daemon is.\<close>

definition attempt_done ::
  "address_env \<Rightarrow> nat \<Rightarrow> nat \<Rightarrow> string \<Rightarrow> string list \<Rightarrow> string option \<Rightarrow> bool \<Rightarrow> int \<Rightarrow> manager \<Rightarrow> link_effect list \<times> manager" where
  "attempt_done e i fresh_id node cs failed stopping now m =
     (let (kicked, m) = attempt_end i node m
      in case failed of None \<Rightarrow> ([], m)
         | Some reason \<Rightarrow>
             if kicked \<and> \<not> stopping then attempt e fresh_id node now m else noPath node reason (candKey cs) now m)"

text \<open>The first stretch of a kick, and whether an attempt follows.\<close>

definition kick_mark :: "(nat \<Rightarrow> bool) \<Rightarrow> string \<Rightarrow> bool \<Rightarrow> int \<Rightarrow> manager \<Rightarrow> bool \<times> manager" where
  "kick_mark up node restart now m =
     (if (case map_of (mg_peers m) node of Some l \<Rightarrow> up (lk_conn l) | None \<Rightarrow> False) then (False, m)
      else let m = m\<lparr>mg_backoff := AList.delete node (mg_backoff m)\<rparr>
           in case map_of (mg_inflight m) node of
                Some a \<Rightarrow>
                  if restart \<and> \<not> if_kicked a \<and> kickStale \<le> now - if_started a
                  then (False, m\<lparr>mg_inflight := AList.update node (a\<lparr>if_kicked := True\<rparr>) (mg_inflight m)\<rparr>)
                  else (True, m)
              | None \<Rightarrow> (True, m))"

definition kick :: "address_env \<Rightarrow> (nat \<Rightarrow> bool) \<Rightarrow> nat \<Rightarrow> string \<Rightarrow> bool \<Rightarrow> int \<Rightarrow> manager \<Rightarrow> link_effect list \<times> manager" where
  "kick e up i node restart now m =
     (let (go, m) = kick_mark up node restart now m in if go then attempt e i node now m else ([], m))"

text \<open>The penalised peer with the prefix; a map has no order, so the first of the list.\<close>

definition probedBy :: "address_env \<Rightarrow> (nat \<Rightarrow> bool) \<Rightarrow> nat \<Rightarrow> string \<Rightarrow> int \<Rightarrow> manager \<Rightarrow> link_effect list \<times> manager" where
  "probedBy e up i prefix now m =
     (case find (\<lambda>n. short n = prefix) (map fst (mg_backoff m)) of
        None \<Rightarrow> ([], m)
      | Some node \<Rightarrow> if node = [] then ([], m) else kick e up i node False now m)"

definition hint_form :: "address_env \<Rightarrow> string \<Rightarrow> string option" where
  "hint_form e c =
     (case ParseCandidate e c of Some _ \<Rightarrow> Some c
      | None \<Rightarrow> (case ae_parse e c of None \<Rightarrow> None | Some ap \<Rightarrow> Some (kind_text KindGossip @ '':'' @ ae_text e ap)))"

definition Hint :: "address_env \<Rightarrow> nat \<Rightarrow> string \<Rightarrow> string list \<Rightarrow> bool \<Rightarrow> int \<Rightarrow> manager \<Rightarrow> link_effect list \<times> manager" where
  "Hint e i node cs running now m =
     (let good = List.map_filter (hint_form e) cs
      in if node = [] \<or> node = mg_self m \<or> good = [] then ([], m)
         else let m = m\<lparr>mg_hints := AList.update node \<lparr>hi_cands = good, hi_at = now\<rparr> (mg_hints m)\<rparr>
              in if running then attempt e i node now m else ([], m))"

definition onPunchRequest ::
  "address_env \<Rightarrow> (nat \<Rightarrow> bool) \<Rightarrow> nat \<Rightarrow> string \<Rightarrow> string list \<Rightarrow> int \<Rightarrow> manager \<Rightarrow> link_effect list \<times> manager" where
  "onPunchRequest e up i from cs now m =
     (if from = mg_self m then ([], m)
      else let busy = from \<in> set (mg_trying m);
               m = m\<lparr>mg_invited := AList.update from cs (mg_invited m),
                     mg_trying := (if busy then mg_trying m else from # mg_trying m)\<rparr>
           in if busy then kick e up i from True now m else ([StartConnect from cs], m))"

definition redial :: "address_env \<Rightarrow> string \<Rightarrow> int \<Rightarrow> manager \<Rightarrow> link_effect list \<times> manager" where
  "redial e node now m =
     (if node \<in> set (mg_trying m) then ([], m)
      else let cs = candidatesLocked e m node now
           in if cs = [] then ([], m) else ([StartConnect node cs], m\<lparr>mg_trying := node # mg_trying m\<rparr>))"

definition moves :: "manager \<Rightarrow> (string \<times> nat \<times> bool) list" where
  "moves m = map (\<lambda>(node, l). (node, lk_conn l, lk_dialled l)) (mg_peers m)"

subsection \<open>Links\<close>

definition codeReplaced :: int where "codeReplaced = 2"
definition pathInbound :: string where "pathInbound = ''punched-in''"

definition newWins :: "string \<Rightarrow> string \<Rightarrow> bool \<Rightarrow> bool" where
  "newWins self node dialled = ((if dialled then self else node) = min self node)"

definition observeLocked :: "string \<Rightarrow> string \<Rightarrow> manager \<Rightarrow> manager" where
  "observeLocked node at_addr m = m\<lparr>mg_observed := AList.update node (kind_text KindReflex @ '':'' @ at_addr) (mg_observed m)\<rparr>"

text \<open>
  A new authenticated connection \<open>c\<close> at \<open>remote\<close>. \<open>port\<close> is the address of the forwarder a new link gets, \<open>None\<close> when
  no local port opens. The second look under the lock, when another connection linked meanwhile, is this function
  again at that moment.
\<close>

definition linkUp ::
  "(nat \<Rightarrow> bool) \<Rightarrow> string \<Rightarrow> nat \<Rightarrow> string \<Rightarrow> string \<Rightarrow> string option \<Rightarrow> int \<Rightarrow> manager \<Rightarrow> link_effect list \<times> manager" where
  "linkUp up node c remote path port now m =
     (if node = mg_self m then ([CloseConn c 0], m)
      else let dialled = (path \<noteq> pathInbound)
           in case map_of (mg_peers m) node of
                Some old \<Rightarrow>
                  if lk_conn old = c then ([], m)
                  else if up (lk_conn old) \<and> now - lk_since old < raceWindow \<and> \<not> newWins (mg_self m) node dialled
                  then ([CloseConn c codeReplaced], m)
                  else ([CloseConn (lk_conn old) codeReplaced],
                        (observeLocked node remote m)\<lparr>
                          mg_peers := AList.update node (old\<lparr>lk_conn := c, lk_dialled := dialled, lk_path := path,
                            lk_since := now, lk_lastSeen := now\<rparr>) (mg_peers m),
                          mg_backoff := AList.delete node (mg_backoff m)\<rparr>)
              | None \<Rightarrow>
                  (case port of None \<Rightarrow> ([CloseConn c 1], m)
                   | Some a \<Rightarrow>
                       ([Joined node a],
                        (observeLocked node remote m)\<lparr>
                          mg_peers := AList.update node \<lparr>lk_addr = a, lk_conn = c, lk_lastSeen = now, lk_since = now,
                            lk_dialled = dialled, lk_path = path\<rparr> (mg_peers m),
                          mg_backoff := AList.delete node (mg_backoff m)\<rparr>)))"

definition dropWhere :: "string \<Rightarrow> (link \<Rightarrow> bool) \<Rightarrow> manager \<Rightarrow> link_effect list \<times> manager" where
  "dropWhere node match m =
     (case map_of (mg_peers m) node of None \<Rightarrow> ([], m)
      | Some l \<Rightarrow>
          if \<not> match l then ([], m)
          else ([CloseConn (lk_conn l) 0, Gone node (lk_addr l)], m\<lparr>mg_peers := AList.delete node (mg_peers m)\<rparr>))"

definition dropLink :: "string \<Rightarrow> manager \<Rightarrow> link_effect list \<times> manager" where
  "dropLink node m = dropWhere node (\<lambda>_. True) m"

text \<open>The forwarder at the address has stopped accepting; forwarders have distinct addresses while they live.\<close>

definition dropLinkIf :: "string \<Rightarrow> string \<Rightarrow> manager \<Rightarrow> link_effect list \<times> manager" where
  "dropLinkIf node a m = dropWhere node (\<lambda>l. lk_addr l = a) m"

text \<open>The watcher of a connection that died, after its grace when the far end replaced it.\<close>

definition watchConn :: "string \<Rightarrow> nat \<Rightarrow> manager \<Rightarrow> link_effect list \<times> manager" where
  "watchConn node c m = dropWhere node (\<lambda>l. lk_conn l = c) m"

definition closeAll :: "manager \<Rightarrow> link_effect list \<times> manager" where
  "closeAll m = (concat (map (\<lambda>(node, l). [CloseConn (lk_conn l) 0, Gone node (lk_addr l)]) (mg_peers m)), m\<lparr>mg_peers := []\<rparr>)"

subsection \<open>Introducers\<close>

definition isPublic :: "address_env \<Rightarrow> string \<Rightarrow> bool" where
  "isPublic e ip \<longleftrightarrow> ae_global e ip \<and> \<not> ae_private e ip"

definition fresh :: "manager \<Rightarrow> introducer \<Rightarrow> int \<Rightarrow> bool" where
  "fresh m i now \<longleftrightarrow> in_lastReply i \<noteq> 0 \<and> now - in_lastReply i \<le> 3 * mg_Poll m"

definition lostLocked :: "introducer \<Rightarrow> int \<Rightarrow> bool" where
  "lostLocked i now \<longleftrightarrow> \<not> in_hidden i \<and> in_lastReply i \<noteq> 0 \<and> in_waiting i \<noteq> 0 \<and> lostAfter \<le> now - in_waiting i"

definition introducerLost :: "manager \<Rightarrow> int \<Rightarrow> bool" where
  "introducerLost m now = list_ex (\<lambda>i. lostLocked i now) (mg_intros m)"

definition listedLocked :: "manager \<Rightarrow> int \<Rightarrow> string list" where
  "listedLocked m now = remdups (concat (map in_peers (filter (\<lambda>i. fresh m i now) (mg_intros m))))"

definition reflex_step ::
  "address_env \<Rightarrow> manager \<Rightarrow> int \<Rightarrow> introducer \<Rightarrow> addr_port option \<times> int \<times> bool \<Rightarrow> addr_port option \<times> int \<times> bool" where
  "reflex_step e m now i best =
     (let (a, t, pub) = best
      in case in_you i of None \<Rightarrow> best
         | Some you \<Rightarrow>
             if \<not> fresh m i now \<or> ae_loopback e (ap_ip you) then best
             else let p = isPublic e (ap_ip you)
                  in if a = None \<or> (p \<and> \<not> pub) \<or> (p = pub \<and> t < in_lastReply i) then (Some you, in_lastReply i, p) else best)"

definition bestReflexLocked :: "address_env \<Rightarrow> manager \<Rightarrow> int \<Rightarrow> addr_port option" where
  "bestReflexLocked e m now = fst (fold (reflex_step e m now) (mg_intros m) (None, 0, False))"

text \<open>Whether the introducer at position \<open>k\<close> is a stranger's.\<close>

definition strayLocked :: "address_env \<Rightarrow> manager \<Rightarrow> nat \<Rightarrow> int \<Rightarrow> bool" where
  "strayLocked e m k now =
     (let i = mg_intros m ! k
      in if in_self i \<or> in_hidden i \<or> in_lastReply i \<noteq> 0 \<or> in_waiting i = 0 \<or> now - in_waiting i < silentAfter
            \<or> (case in_at i of None \<Rightarrow> True | Some a \<Rightarrow> isPublic e (ap_ip a)) then False
         else list_ex (\<lambda>j. j \<noteq> k \<and> \<not> in_self (mg_intros m ! j) \<and> fresh m (mg_intros m ! j) now) [0..<length (mg_intros m)])"

definition introducerAt :: "address_env \<Rightarrow> addr_port \<Rightarrow> manager \<Rightarrow> nat \<times> manager" where
  "introducerAt e from m =
     (case find (\<lambda>k. in_at (mg_intros m ! k) = Some from) [0..<length (mg_intros m)] of
        Some k \<Rightarrow> (k, m)
      | None \<Rightarrow> (length (mg_intros m),
          m\<lparr>mg_intros := mg_intros m @ [(new_introducer (ae_text e from) False)\<lparr>in_at := Some from, in_hidden := True\<rparr>]\<rparr>))"

text \<open>One listed peer: its node, candidates and the address the introducer saw.\<close>

type_synonym listed_peer = "string \<times> string list \<times> string"

text \<open>The first stretch of a reply: whether the introducer had been lost, and whether to register again.\<close>

definition registered ::
  "address_env \<Rightarrow> nat \<Rightarrow> string \<Rightarrow> listed_peer list \<Rightarrow> int \<Rightarrow> manager \<Rightarrow> (bool \<times> bool) \<times> manager" where
  "registered e k you peers now m =
     (let i = mg_intros m ! k;
          listed = remdups (filter (\<lambda>n. n \<noteq> mg_self m) (map fst peers));
          wasLost = lostLocked i now;
          i = i\<lparr>in_lastReply := now, in_waiting := 0, in_lastErr := [], in_silent := False, in_members := length listed,
                in_peers := listed, in_you := (case ae_parse e you of None \<Rightarrow> in_you i | Some a \<Rightarrow> Some a)\<rparr>;
          before = mg_reflex m;
          m = m\<lparr>mg_intros := (mg_intros m)[k := i]\<rparr>;
          m = m\<lparr>mg_reflex := bestReflexLocked e m now\<rparr>
      in ((wasLost, mg_reflex m \<noteq> None \<and> mg_reflex m \<noteq> before), m))"

definition registered_peer ::
  "address_env \<Rightarrow> (nat \<Rightarrow> bool) \<Rightarrow> nat \<Rightarrow> bool \<Rightarrow> listed_peer \<Rightarrow> int \<Rightarrow> int \<Rightarrow> manager \<Rightarrow> link_effect list \<times> manager" where
  "registered_peer e up i wasLost p seen now m =
     (let (node, cs, a) = p
      in if node = mg_self m then ([], m)
         else let cs = (if a \<noteq> [] then cs @ [kind_text KindReflex @ '':'' @ a] else cs);
                  m = m\<lparr>mg_cands := AList.update node cs (mg_cands m),
                        mg_peers := map (\<lambda>(n, l). (n, if n = node then l\<lparr>lk_lastSeen := seen\<rparr> else l)) (mg_peers m)\<rparr>
              in if wasLost then kick e up i node True now m else attempt e i node now m)"

definition expired_links :: "(nat \<Rightarrow> bool) \<Rightarrow> manager \<Rightarrow> string list \<Rightarrow> int \<Rightarrow> string list" where
  "expired_links up m live now =
     filter (\<lambda>n. case map_of (mg_peers m) n of None \<Rightarrow> False
               | Some l \<Rightarrow> n \<notin> set live \<and> \<not> up (lk_conn l) \<and> 3 * mg_Poll m < now - lk_lastSeen l)
       (remdups (map fst (mg_peers m)))"

text \<open>The last stretch names the links to let go.\<close>

definition registered_end :: "(nat \<Rightarrow> bool) \<Rightarrow> int \<Rightarrow> manager \<Rightarrow> string list \<times> manager" where
  "registered_end up now m =
     (let m = m\<lparr>mg_listed := listedLocked m now\<rparr> in (expired_links up m (mg_listed m) now, m))"

text \<open>A registration round: \<open>resolve\<close> gives the address or the reason it has none, \<open>written\<close> whether the packet left.\<close>

definition introducerFailed :: "nat \<Rightarrow> string \<Rightarrow> manager \<Rightarrow> manager" where
  "introducerFailed k reason m = m\<lparr>mg_intros := (mg_intros m)[k := (mg_intros m ! k)\<lparr>in_lastErr := reason\<rparr>]\<rparr>"

definition sync_one ::
  "address_env \<Rightarrow> (string \<Rightarrow> string + addr_port) \<Rightarrow> (addr_port \<Rightarrow> string option) \<Rightarrow> int \<Rightarrow> nat \<Rightarrow> manager \<Rightarrow> manager" where
  "sync_one e resolve written now k m =
     (let i = mg_intros m ! k
      in if in_hidden i \<or> strayLocked e m k now then m
         else let i = (case resolve (in_addr i) of Inr a \<Rightarrow> i\<lparr>in_at := Some a\<rparr> | Inl _ \<Rightarrow> i);
                  i = (if in_waiting i = 0 then i\<lparr>in_waiting := now\<rparr> else i);
                  m = m\<lparr>mg_intros := (mg_intros m)[k := i]\<rparr>
              in case resolve (in_addr i) of
                   Inl reason \<Rightarrow> introducerFailed k reason m
                 | Inr a \<Rightarrow> (case written a of Some reason \<Rightarrow> introducerFailed k reason m | None \<Rightarrow> m))"

definition silence_one :: "int \<Rightarrow> introducer \<Rightarrow> introducer" where
  "silence_one now i =
     (if in_hidden i \<or> in_silent i \<or> in_waiting i = 0 \<or> now - in_waiting i < silentAfter then i
      else i\<lparr>in_silent := True, in_lastErr := (if in_lastErr i = [] then ''no answer for 1m0s'' else in_lastErr i)\<rparr>)"

definition checkSilence :: "int \<Rightarrow> manager \<Rightarrow> manager" where
  "checkSilence now m = m\<lparr>mg_intros := map (silence_one now) (mg_intros m)\<rparr>"

definition retryHinted :: "int \<Rightarrow> manager \<Rightarrow> string list \<times> manager" where
  "retryHinted now m =
     (let keep = filter (\<lambda>(n, h). now - hi_at h \<le> hintTTL) (mg_hints m)
      in (map fst (filter (\<lambda>(n, h). n \<notin> set (mg_listed m)) keep), m\<lparr>mg_hints := keep\<rparr>))"

definition sync_round ::
  "address_env \<Rightarrow> (string \<Rightarrow> string + addr_port) \<Rightarrow> (addr_port \<Rightarrow> string option) \<Rightarrow> int \<Rightarrow> manager \<Rightarrow> string list \<times> manager" where
  "sync_round e resolve written now m =
     retryHinted now (checkSilence now (fold (sync_one e resolve written now) [0..<length (mg_intros m)] m))"

definition mappingIsOurs :: "addr_port \<Rightarrow> addr_port option \<Rightarrow> bool" where
  "mappingIsOurs mapped reflex = (case reflex of None \<Rightarrow> True | Some r \<Rightarrow> ap_ip r = ap_ip mapped)"

text \<open>What the user is shown.\<close>

definition Peers :: "manager \<Rightarrow> (string \<times> string) list" where
  "Peers m = map (\<lambda>(n, l). (n, lk_addr l)) (mg_peers m)"

definition Unreachable :: "manager \<Rightarrow> int \<Rightarrow> (string \<times> string) list" where
  "Unreachable m now = List.map_filter (\<lambda>(n, b).
     let hinted = (case map_of (mg_hints m) n of Some h \<Rightarrow> now - hi_at h \<le> hintTTL | None \<Rightarrow> False)
     in if (n \<in> set (mg_listed m) \<or> hinted) \<and> map_of (mg_peers m) n = None then Some (n, bo_reason b) else None) (mg_backoff m)"

definition linkPaths :: "manager \<Rightarrow> (string \<times> string) list" where
  "linkPaths m = map (\<lambda>(n, l). (n, lk_path l)) (mg_peers m)"

definition Introducers :: "manager \<Rightarrow> (string \<times> int \<times> string \<times> nat) list" where
  "Introducers m = map (\<lambda>i. (in_addr i, in_lastReply i, in_lastErr i, in_members i))
     (filter (\<lambda>i. \<not> in_self i \<and> \<not> in_hidden i) (mg_intros m))"

subsection \<open>Runs\<close>

text \<open>The goroutines that connect to a peer: a try with its number, the answer to a punch request, a redial.\<close>

datatype worker_kind = TryWorker nat "string list" | PunchWorker "string list" | RedialWorker "string list"

record links =
  ls_m :: manager
  ls_running :: "(string \<times> worker_kind) list"
  ls_count :: nat
  ls_going :: "string list"

definition spawn :: "(string list \<Rightarrow> worker_kind) \<Rightarrow> link_effect list \<Rightarrow> (string \<times> worker_kind) list \<Rightarrow> (string \<times> worker_kind) list" where
  "spawn k fx r = (case fx of [StartConnect node cs] \<Rightarrow> (node, k cs) # r | _ \<Rightarrow> r)"

datatype link_event =
    LvAttempt string int
  | LvListed listed_peer bool int int
  | LvKick string bool int
  | LvProbe string int
  | LvHint string "string list" bool int
  | LvPunch string "string list" int
  | LvRedial string int
  | LvDone string worker_kind "string option" bool int
  | LvLink string nat string string "string option" int
  | LvRelease string nat "string list"
  | LvNoPath string string string int
  | LvKickMark string bool int
  | LvInvited string "string list"
  | LvConnDead string nat
  | LvForwarderDead string string
  | LvReply addr_port string "listed_peer list" int
  | LvExpire int
  | LvDrop string
  | LvSync "string \<Rightarrow> string + addr_port" "addr_port \<Rightarrow> string option" int

definition with_m :: "(manager \<Rightarrow> manager) \<Rightarrow> links \<Rightarrow> links" where
  "with_m f s = s\<lparr>ls_m := f (ls_m s)\<rparr>"

text \<open>A stretch that may start a worker of kind \<open>k\<close>.\<close>

definition run_stretch :: "(string list \<Rightarrow> worker_kind) \<Rightarrow> (manager \<Rightarrow> link_effect list \<times> manager) \<Rightarrow> links \<Rightarrow> links" where
  "run_stretch k f s =
     (let (fx, m) = f (ls_m s)
      in s\<lparr>ls_m := m, ls_running := spawn k fx (ls_running s), ls_count := ls_count s + 1\<rparr>)"

text \<open>
  \<open>up\<close> says which connections live at that moment. A punch request that finds a worker kicks instead of starting
  one. A kick, the punch request that kicks and the end of a try let go of the lock in the middle: \<open>LvKickMark\<close>,
  \<open>LvInvited\<close> and \<open>LvRelease\<close> are their first stretches alone, \<open>LvAttempt\<close> and \<open>LvNoPath\<close> the others, so that every
  interleaving is a run. A reply names the links to let go (\<open>LvExpire\<close>) and drops them later (\<open>LvDrop\<close>).
\<close>

fun link_step :: "address_env \<Rightarrow> link_event \<times> (nat \<Rightarrow> bool) \<Rightarrow> links \<Rightarrow> links" where
  "link_step e (LvAttempt node now, up) s = run_stretch (TryWorker (ls_count s)) (attempt e (ls_count s) node now) s"
| "link_step e (LvListed p wasLost seen now, up) s =
     run_stretch (TryWorker (ls_count s)) (registered_peer e up (ls_count s) wasLost p seen now) s"
| "link_step e (LvKick node restart now, up) s = run_stretch (TryWorker (ls_count s)) (kick e up (ls_count s) node restart now) s"
| "link_step e (LvProbe prefix now, up) s = run_stretch (TryWorker (ls_count s)) (probedBy e up (ls_count s) prefix now) s"
| "link_step e (LvHint node cs running now, up) s =
     run_stretch (TryWorker (ls_count s)) (Hint e (ls_count s) node cs running now) s"
| "link_step e (LvPunch from cs now, up) s =
     run_stretch (if from \<in> set (mg_trying (ls_m s)) then TryWorker (ls_count s) else PunchWorker)
       (onPunchRequest e up (ls_count s) from cs now) s"
| "link_step e (LvRedial node now, up) s = run_stretch RedialWorker (redial e node now) s"
| "link_step e (LvDone node w failed stopping now, up) s =
     (let s = s\<lparr>ls_running := remove1 (node, w) (ls_running s)\<rparr>
      in case w of
           TryWorker i cs \<Rightarrow> run_stretch (TryWorker (ls_count s)) (attempt_done e i (ls_count s) node cs failed stopping now) s
         | _ \<Rightarrow> with_m (release node) s)"
| "link_step e (LvLink node c remote path port now, up) s = with_m (\<lambda>m. snd (linkUp up node c remote path port now m)) s"
| "link_step e (LvConnDead node c, up) s = with_m (\<lambda>m. snd (watchConn node c m)) s"
| "link_step e (LvForwarderDead node a, up) s = with_m (\<lambda>m. snd (dropLinkIf node a m)) s"
| "link_step e (LvReply from you peers now, up) s =
     with_m (\<lambda>m. let (k, m) = introducerAt e from m in snd (registered e k you peers now m)) s"
| "link_step e (LvExpire now, up) s =
     (with_m (\<lambda>m. snd (registered_end up now m)) s)\<lparr>ls_going := fst (registered_end up now (ls_m s)) @ ls_going s\<rparr>"
| "link_step e (LvDrop node, up) s = (with_m (\<lambda>m. snd (dropLink node m)) s)\<lparr>ls_going := remove1 node (ls_going s)\<rparr>"
| "link_step e (LvRelease node i cs, up) s =
     with_m (\<lambda>m. snd (attempt_end i node m)) (s\<lparr>ls_running := remove1 (node, TryWorker i cs) (ls_running s)\<rparr>)"
| "link_step e (LvNoPath node reason tried now, up) s = with_m (\<lambda>m. snd (noPath node reason tried now m)) s"
| "link_step e (LvKickMark node restart now, up) s = with_m (\<lambda>m. snd (kick_mark up node restart now m)) s"
| "link_step e (LvInvited node cs, up) s = with_m (\<lambda>m. m\<lparr>mg_invited := AList.update node cs (mg_invited m)\<rparr>) s"
| "link_step e (LvSync resolve written now, up) s = with_m (\<lambda>m. snd (sync_round e resolve written now m)) s"

fun link_ok :: "link_event \<times> (nat \<Rightarrow> bool) \<Rightarrow> links \<Rightarrow> bool" where
  "link_ok (LvDone node w failed stopping now, up) s \<longleftrightarrow> (node, w) \<in> set (ls_running s)"
| "link_ok (LvRelease node i cs, up) s \<longleftrightarrow> (node, TryWorker i cs) \<in> set (ls_running s)"
| "link_ok (LvDrop node, up) s \<longleftrightarrow> node \<in> set (ls_going s)"
| "link_ok _ s \<longleftrightarrow> True"

subsection \<open>One worker for a peer, no link to ourselves\<close>

text \<open>
  A node is being tried exactly while one goroutine connects to it, the try in flight is that goroutine,
  and no node is linked to itself.
\<close>

definition workers_ok :: "manager \<Rightarrow> (string \<times> worker_kind) list \<Rightarrow> bool" where
  "workers_ok m r \<longleftrightarrow> distinct (map fst r) \<and> set (mg_trying m) = fst ` set r
     \<and> (\<forall>n i cs. (n, TryWorker i cs) \<in> set r \<longrightarrow> map_option if_id (map_of (mg_inflight m) n) = Some i)
     \<and> (\<forall>n a. map_of (mg_inflight m) n = Some a \<longrightarrow> (\<exists>cs. (n, TryWorker (if_id a) cs) \<in> set r))"

definition links_inv :: "links \<Rightarrow> bool" where
  "links_inv s \<longleftrightarrow> workers_ok (ls_m s) (ls_running s) \<and> map_of (mg_peers (ls_m s)) (mg_self (ls_m s)) = None"

lemma workers_ok_cong:
  assumes "workers_ok m r" "mg_trying m' = mg_trying m" "mg_inflight m' = mg_inflight m"
  shows "workers_ok m' r"
  using assms by (simp add: workers_ok_def)

lemma attempt_cases:
  obtains (idle) "attempt e i node now m = ([], m)"
  | (start) cs where "node \<notin> set (mg_trying m)" "map_of (mg_peers m) node = None"
      "attempt e i node now m = ([StartConnect node cs], m\<lparr>mg_trying := node # mg_trying m,
         mg_inflight := AList.update node \<lparr>if_id = i, if_started = now, if_kicked = False\<rparr> (mg_inflight m)\<rparr>)"
proof (cases "map_of (mg_peers m) node \<noteq> None \<or> node \<in> set (mg_trying m) \<or> \<not> shouldTry (map_of (mg_backoff m) node) (candidatesLocked e m node now) now")
  case True
  then have "attempt e i node now m = ([], m)" unfolding attempt_def Let_def by (elim disjE) simp_all
  then show ?thesis by (rule idle)
next
  case False
  then have free: "map_of (mg_peers m) node = None" "node \<notin> set (mg_trying m)" by blast+
  have "attempt e i node now m = ([StartConnect node (candidatesLocked e m node now)], m\<lparr>mg_trying := node # mg_trying m,
         mg_inflight := AList.update node \<lparr>if_id = i, if_started = now, if_kicked = False\<rparr> (mg_inflight m)\<rparr>)"
    unfolding attempt_def Let_def using False by (simp only: de_Morgan_disj not_not if_False if_True HOL.simp_thms)
  then show ?thesis by (rule start [OF free(2,1)])
qed

lemma workers_ok_attempt:
  assumes "workers_ok m r"
  shows "workers_ok (snd (attempt e i node now m)) (spawn (TryWorker i) (fst (attempt e i node now m)) r)"
proof (cases rule: attempt_cases [of e i node now m])
  case idle
  then show ?thesis using assms by (simp add: spawn_def)
next
  case (start cs)
  have new: "node \<notin> fst ` set r" using start(1) assms by (simp add: workers_ok_def)
  then have other: "(node, w) \<notin> set r" for w by force
  let ?a = "\<lparr>if_id = i, if_started = now, if_kicked = False\<rparr>"
  have d: "distinct (map fst r)" and t: "set (mg_trying m) = fst ` set r"
    and w: "\<And>n i cs. (n, TryWorker i cs) \<in> set r \<Longrightarrow> map_option if_id (map_of (mg_inflight m) n) = Some i"
    and h: "\<And>n a. map_of (mg_inflight m) n = Some a \<Longrightarrow> \<exists>cs. (n, TryWorker (if_id a) cs) \<in> set r"
    using assms unfolding workers_ok_def by blast+
  have w': "map_option if_id (map_of (AList.update node ?a (mg_inflight m)) n) = Some j"
    if "(n, TryWorker j cs') \<in> set ((node, TryWorker i cs) # r)" for n j cs'
    using that other w by (cases "n = node") (auto simp: update_conv')
  have h': "\<exists>cs'. (n, TryWorker (if_id b) cs') \<in> set ((node, TryWorker i cs) # r)"
    if "map_of (AList.update node ?a (mg_inflight m)) n = Some b" for n b
    using that h by (cases "n = node") (auto simp: update_conv')
  show ?thesis unfolding start(3) workers_ok_def fst_conv snd_conv spawn_def
    using d t new w' h' by simp
qed

text \<open>A stretch that changes neither what is tried nor the links, or makes an attempt after such a change.\<close>

definition attempts :: "address_env \<Rightarrow> nat \<Rightarrow> manager \<Rightarrow> link_effect list \<times> manager \<Rightarrow> bool" where
  "attempts e i m out \<longleftrightarrow> (\<exists>m'. mg_trying m' = mg_trying m \<and> map_option if_id \<circ> map_of (mg_inflight m') = map_option if_id \<circ> map_of (mg_inflight m)
     \<and> mg_self m' = mg_self m \<and> (\<forall>n. map_option lk_conn (map_of (mg_peers m') n) = map_option lk_conn (map_of (mg_peers m) n))
     \<and> (\<forall>n. map_option lk_addr (map_of (mg_peers m') n) = map_option lk_addr (map_of (mg_peers m) n))
     \<and> (out = ([], m') \<or> (\<exists>node now. out = attempt e i node now m')))"

lemma workers_ok_ids:
  assumes "workers_ok m r" "mg_trying m' = mg_trying m"
    and "map_option if_id \<circ> map_of (mg_inflight m') = map_option if_id \<circ> map_of (mg_inflight m)"
  shows "workers_ok m' r"
proof -
  have ids: "map_option if_id (map_of (mg_inflight m') n) = map_option if_id (map_of (mg_inflight m) n)" for n
    using assms(3) by (metis comp_apply)
  have "\<exists>cs. (n, TryWorker (if_id a) cs) \<in> set r" if held: "map_of (mg_inflight m') n = Some a" for n a
  proof -
    obtain b where "map_of (mg_inflight m) n = Some b" "if_id b = if_id a"
      using ids [of n] unfolding held by (cases "map_of (mg_inflight m) n") auto
    then show ?thesis using assms(1) unfolding workers_ok_def by metis
  qed
  then show ?thesis using assms(1,2) ids unfolding workers_ok_def by simp
qed

lemma attempt_keeps: "mg_self (snd (attempt e i node now m)) = mg_self m" "mg_peers (snd (attempt e i node now m)) = mg_peers m"
  by (cases rule: attempt_cases [of e i node now m]; simp)+

lemma attempts_ok:
  assumes "attempts e i m out" "workers_ok m r"
  shows "workers_ok (snd out) (spawn (TryWorker i) (fst out) r) \<and> mg_self (snd out) = mg_self m
    \<and> (\<forall>n. map_option lk_conn (map_of (mg_peers (snd out)) n) = map_option lk_conn (map_of (mg_peers m) n))
    \<and> (\<forall>n. map_option lk_addr (map_of (mg_peers (snd out)) n) = map_option lk_addr (map_of (mg_peers m) n))"
proof -
  obtain m' where m': "mg_trying m' = mg_trying m" "map_option if_id \<circ> map_of (mg_inflight m') = map_option if_id \<circ> map_of (mg_inflight m)"
    "mg_self m' = mg_self m" "\<forall>n. map_option lk_conn (map_of (mg_peers m') n) = map_option lk_conn (map_of (mg_peers m) n)"
    "\<forall>n. map_option lk_addr (map_of (mg_peers m') n) = map_option lk_addr (map_of (mg_peers m) n)"
    "out = ([], m') \<or> (\<exists>node now. out = attempt e i node now m')"
    using assms(1) unfolding attempts_def by blast
  have ok: "workers_ok m' r" using workers_ok_ids [OF assms(2) m'(1,2)] .
  from m'(6) show ?thesis
  proof
    assume "out = ([], m')"
    then show ?thesis using ok m' by (simp add: spawn_def)
  next
    assume "\<exists>node now. out = attempt e i node now m'"
    then obtain node now where "out = attempt e i node now m'" by blast
    then show ?thesis using workers_ok_attempt [OF ok] m' by (simp add: attempt_keeps)
  qed
qed

named_theorems trying "stretches that only make an attempt"

lemma attempts_attempt [trying]: "attempts e i m (attempt e i node now m)"
  unfolding attempts_def by blast

lemma attempts_idle [trying]: "attempts e i m ([], m)"
  unfolding attempts_def by blast

lemma attempts_after:
  assumes "mg_trying m' = mg_trying m" "mg_inflight m' = mg_inflight m" "mg_self m' = mg_self m"
    and "\<And>n. map_option lk_conn (map_of (mg_peers m') n) = map_option lk_conn (map_of (mg_peers m) n)"
    and "\<And>n. map_option lk_addr (map_of (mg_peers m') n) = map_option lk_addr (map_of (mg_peers m) n)"
    and "attempts e i m' out"
  shows "attempts e i m out"
  using assms(6) unfolding attempts_def assms(1-5) .

lemma kick_mark_keeps:
  "mg_trying (snd (kick_mark up node restart now m)) = mg_trying m"
  "map_option if_id \<circ> map_of (mg_inflight (snd (kick_mark up node restart now m))) = map_option if_id \<circ> map_of (mg_inflight m)"
  "mg_self (snd (kick_mark up node restart now m)) = mg_self m" "mg_peers (snd (kick_mark up node restart now m)) = mg_peers m"
  by (simp_all add: kick_mark_def Let_def fun_eq_iff update_conv' split: option.split)

lemma attempts_marked:
  "attempts e i m ([], snd (kick_mark up node restart now m))"
  "attempts e i m (attempt e i n t (snd (kick_mark up node restart now m)))"
  unfolding attempts_def
  by (rule exI [of _ "snd (kick_mark up node restart now m)"], simp add: kick_mark_keeps)
    (rule exI [of _ "snd (kick_mark up node restart now m)"], simp add: kick_mark_keeps, blast)

lemma attempts_kick [trying]: "attempts e i m (kick e up i node restart now m)"
  by (simp add: kick_def split_def Let_def attempts_marked)

lemma attempts_probedBy [trying]: "attempts e i m (probedBy e up i prefix now m)"
  by (simp add: probedBy_def attempts_idle attempts_kick split: option.split)

lemma attempts_Hint [trying]: "attempts e i m (Hint e i node cs running now m)"
proof -
  let ?m = "m\<lparr>mg_hints := AList.update node \<lparr>hi_cands = List.map_filter (hint_form e) cs, hi_at = now\<rparr> (mg_hints m)\<rparr>"
  have "attempts e i m (attempt e i node now ?m)" "attempts e i m ([], ?m)"
    by (rule attempts_after [OF _ _ _ _ _ attempts_attempt [of e i ?m node now]], simp_all)
      (rule attempts_after [OF _ _ _ _ _ attempts_idle [of e i ?m]], simp_all)
  then show ?thesis by (simp add: Hint_def Let_def attempts_idle)
qed

lemma map_of_seen: "map_of (map (\<lambda>(n, l). (n, if n = node then f l else l)) ps) x
    = (if x = node then map_option f (map_of ps x) else map_of ps x)"
  by (induction ps) auto

lemma attempts_registered_peer [trying]: "attempts e i m (registered_peer e up i wasLost p seen now m)"
proof -
  obtain node cs a where p: "p = (node, cs, a)" by (rule prod_cases3)
  let ?m = "m\<lparr>mg_cands := AList.update node (if a \<noteq> [] then cs @ [kind_text KindReflex @ '':'' @ a] else cs) (mg_cands m),
    mg_peers := map (\<lambda>(n, l). (n, if n = node then l\<lparr>lk_lastSeen := seen\<rparr> else l)) (mg_peers m)\<rparr>"
  have same: "map_option lk_conn (map_of (mg_peers ?m) n) = map_option lk_conn (map_of (mg_peers m) n)"
    "map_option lk_addr (map_of (mg_peers ?m) n) = map_option lk_addr (map_of (mg_peers m) n)" for n
    by (simp_all add: map_of_seen option.map_comp comp_def)
  have "attempts e i m (kick e up i node True now ?m)" "attempts e i m (attempt e i node now ?m)"
    using attempts_after [OF _ _ _ same attempts_kick] attempts_after [OF _ _ _ same attempts_attempt] by simp_all
  then show ?thesis by (simp add: registered_peer_def p Let_def attempts_idle)
qed

text \<open>A worker ends.\<close>

lemma only_worker: "distinct (map fst r) \<Longrightarrow> (n, v) \<in> set r \<Longrightarrow> (n, w) \<in> set r \<Longrightarrow> v = w"
  by (metis eq_key_imp_eq_value)

lemma workers_ok_remove:
  assumes "workers_ok m r" "(node, w) \<in> set r"
    and "mg_trying m' = removeAll node (mg_trying m)"
    and "\<And>n. map_of (mg_inflight m') n = (if n = node then None else map_of (mg_inflight m) n)"
  shows "workers_ok m' (remove1 (node, w) r)"
proof -
  have d: "distinct (map fst r)" and t: "set (mg_trying m) = fst ` set r"
    and wk: "\<And>n i cs. (n, TryWorker i cs) \<in> set r \<Longrightarrow> map_option if_id (map_of (mg_inflight m) n) = Some i"
    and h: "\<And>n a. map_of (mg_inflight m) n = Some a \<Longrightarrow> \<exists>cs. (n, TryWorker (if_id a) cs) \<in> set r"
    using assms(1) unfolding workers_ok_def by blast+
  have dr: "distinct r" using d by (simp add: distinct_map)
  have set: "set (remove1 (node, w) r) = set r - {(node, w)}" using dr by (rule set_remove1_eq)
  have only: "(node, v) \<in> set r \<Longrightarrow> v = w" for v using only_worker [OF d _ assms(2)] by blast
  have fst: "fst ` (set r - {(node, w)}) = fst ` set r - {node}"
  proof (intro equalityI subsetI)
    fix y assume "y \<in> fst ` (set r - {(node, w)})"
    then obtain x where x: "y = fst x" "x \<in> set r - {(node, w)}" by (rule imageE)
    obtain v where "x = (y, v)" using x(1) by (cases x) simp
    then have v: "(y, v) \<in> set r" "(y, v) \<noteq> (node, w)" using x(2) by simp_all
    then have "y \<noteq> node" using only by blast
    then show "y \<in> fst ` set r - {node}" using v(1) by (auto intro: image_eqI [of _ fst "(y, v)"])
  next
    fix y assume "y \<in> fst ` set r - {node}"
    then obtain v where "(y, v) \<in> set r" "y \<noteq> node" by auto
    then have "(y, v) \<in> set r - {(node, w)}" by simp
    then show "y \<in> fst ` (set r - {(node, w)})" by (intro image_eqI [of _ fst "(y, v)"]) simp_all
  qed
  have "distinct (map fst (remove1 (node, w) r))"
    using d dr by (simp add: distinct_map set inj_on_diff)
  moreover have "map_option if_id (map_of (mg_inflight m') n) = Some i" if "(n, TryWorker i cs) \<in> set r - {(node, w)}" for n i cs
    using that only wk by (cases "n = node") (auto simp: assms(4))
  moreover have "\<exists>cs. (n, TryWorker (if_id a) cs) \<in> set r - {(node, w)}" if held: "map_of (mg_inflight m') n = Some a" for n a
  proof -
    have n: "n \<noteq> node" "map_of (mg_inflight m) n = Some a" using held by (simp_all add: assms(4) split: if_splits)
    then show ?thesis using h [OF n(2)] by simp
  qed
  ultimately show ?thesis unfolding workers_ok_def set by (simp add: assms(3) t fst)
qed

lemma no_inflight:
  assumes "workers_ok m r" "(node, w) \<in> set r" "\<forall>i cs. w \<noteq> TryWorker i cs"
  shows "map_of (mg_inflight m) node = None"
proof (rule ccontr)
  assume "map_of (mg_inflight m) node \<noteq> None"
  then obtain a where "map_of (mg_inflight m) node = Some a" by blast
  then obtain cs where "(node, TryWorker (if_id a) cs) \<in> set r" using assms(1) unfolding workers_ok_def by blast
  moreover have "distinct (map fst r)" using assms(1) by (simp add: workers_ok_def)
  ultimately show False using only_worker assms(2,3) by metis
qed

lemma noPath_keeps:
  "mg_trying (snd (noPath node reason tried now m)) = mg_trying m" "mg_inflight (snd (noPath node reason tried now m)) = mg_inflight m"
  "mg_self (snd (noPath node reason tried now m)) = mg_self m" "mg_peers (snd (noPath node reason tried now m)) = mg_peers m"
  "spawn k (fst (noPath node reason tried now m)) r = r"
  by (simp_all add: noPath_def Let_def spawn_def)

lemma attempt_end_ok:
  assumes "workers_ok m r" "(node, TryWorker i cs) \<in> set r"
  shows "workers_ok (snd (attempt_end i node m)) (remove1 (node, TryWorker i cs) r)
    \<and> mg_self (snd (attempt_end i node m)) = mg_self m \<and> mg_peers (snd (attempt_end i node m)) = mg_peers m"
proof -
  have "map_option if_id (map_of (mg_inflight m) node) = Some i" using assms unfolding workers_ok_def by blast
  then obtain a where a: "map_of (mg_inflight m) node = Some a" "if_id a = i" by auto
  let ?m = "release node (m\<lparr>mg_inflight := AList.delete node (mg_inflight m)\<rparr>)"
  have m: "snd (attempt_end i node m) = ?m" by (simp add: attempt_end_def a Let_def)
  have "workers_ok ?m (remove1 (node, TryWorker i cs) r)"
    by (rule workers_ok_remove [OF assms]) (simp_all add: release_def delete_conv')
  then show ?thesis unfolding m by (simp add: release_def)
qed

lemma attempt_done_ok:
  assumes "workers_ok m r" "(node, TryWorker i cs) \<in> set r"
  shows "workers_ok (snd (attempt_done e i j node cs failed stopping now m))
      (spawn (TryWorker j) (fst (attempt_done e i j node cs failed stopping now m)) (remove1 (node, TryWorker i cs) r))
    \<and> mg_self (snd (attempt_done e i j node cs failed stopping now m)) = mg_self m
    \<and> mg_peers (snd (attempt_done e i j node cs failed stopping now m)) = mg_peers m"
proof -
  obtain kicked m' where m': "attempt_end i node m = (kicked, m')" by (rule prod.exhaust)
  have ok: "workers_ok m' (remove1 (node, TryWorker i cs) r)" and same: "mg_self m' = mg_self m" "mg_peers m' = mg_peers m"
    using attempt_end_ok [OF assms] by (simp_all add: m')
  show ?thesis
  proof (cases failed)
    case None
    then show ?thesis using ok same by (simp add: attempt_done_def m' spawn_def)
  next
    case (Some reason)
    show ?thesis
    proof (cases "kicked \<and> \<not> stopping")
      case True
      then have "attempt_done e i j node cs failed stopping now m = attempt e j node now m'"
        by (simp add: attempt_done_def m' Some)
      then show ?thesis using workers_ok_attempt [OF ok] same by (simp add: attempt_keeps)
    next
      case False
      then have "attempt_done e i j node cs failed stopping now m = noPath node reason (candKey cs) now m'"
        by (auto simp: attempt_done_def m' Some)
      then show ?thesis using workers_ok_cong [OF ok] same by (simp add: noPath_keeps)
    qed
  qed
qed

text \<open>A punch request and a redial start a worker only where none is.\<close>

lemma workers_ok_start:
  assumes "workers_ok m r" "node \<notin> set (mg_trying m)" "mg_trying m' = node # mg_trying m" "mg_inflight m' = mg_inflight m"
    and "\<forall>i cs. w \<noteq> TryWorker i cs"
  shows "workers_ok m' ((node, w) # r)"
proof -
  have "node \<notin> fst ` set r" using assms(1,2) by (simp add: workers_ok_def)
  then show ?thesis using assms unfolding workers_ok_def by simp metis
qed

lemma onPunchRequest_busy:
  "from \<in> set (mg_trying m) \<Longrightarrow> attempts e i m (onPunchRequest e up i from cs now m)"
  by (auto simp: onPunchRequest_def Let_def attempts_idle intro!: attempts_after [OF _ _ _ _ _ attempts_kick])

lemma onPunchRequest_free:
  assumes "from \<notin> set (mg_trying m)" "workers_ok m r"
  shows "workers_ok (snd (onPunchRequest e up i from cs now m)) (spawn PunchWorker (fst (onPunchRequest e up i from cs now m)) r)
    \<and> mg_self (snd (onPunchRequest e up i from cs now m)) = mg_self m
    \<and> mg_peers (snd (onPunchRequest e up i from cs now m)) = mg_peers m"
  using assms workers_ok_start [of m r "from" "m\<lparr>mg_invited := AList.update from cs (mg_invited m), mg_trying := from # mg_trying m\<rparr>" "PunchWorker cs"]
  by (simp add: onPunchRequest_def Let_def spawn_def)

lemma redial_ok:
  assumes "workers_ok m r"
  shows "workers_ok (snd (redial e node now m)) (spawn RedialWorker (fst (redial e node now m)) r)
    \<and> mg_self (snd (redial e node now m)) = mg_self m \<and> mg_peers (snd (redial e node now m)) = mg_peers m"
  using assms workers_ok_start [of m r node "m\<lparr>mg_trying := node # mg_trying m\<rparr>" "RedialWorker (candidatesLocked e m node now)"]
  by (simp add: redial_def Let_def spawn_def)

lemma linkUp_keeps:
  "mg_trying (snd (linkUp up node c remote path port now m)) = mg_trying m"
  "mg_inflight (snd (linkUp up node c remote path port now m)) = mg_inflight m"
  "mg_self (snd (linkUp up node c remote path port now m)) = mg_self m"
  "n \<noteq> node \<Longrightarrow> map_of (mg_peers (snd (linkUp up node c remote path port now m))) n = map_of (mg_peers m) n"
  "node = mg_self m \<Longrightarrow> snd (linkUp up node c remote path port now m) = m"
  by (auto simp: linkUp_def Let_def observeLocked_def update_conv' split: option.split)

lemma dropWhere_keeps:
  "mg_trying (snd (dropWhere node match m)) = mg_trying m" "mg_inflight (snd (dropWhere node match m)) = mg_inflight m"
  "mg_self (snd (dropWhere node match m)) = mg_self m" "mg_Poll (snd (dropWhere node match m)) = mg_Poll m"
  "map_of (mg_peers (snd (dropWhere node match m))) n =
     (case map_of (mg_peers m) n of None \<Rightarrow> None | Some l \<Rightarrow> if n = node \<and> match l then None else Some l)"
  by (auto simp: dropWhere_def delete_conv' split: option.split)

text \<open>Stretches that leave links and workers alone.\<close>

definition quiet :: "manager \<Rightarrow> manager \<Rightarrow> bool" where
  "quiet m m' \<longleftrightarrow> mg_trying m' = mg_trying m \<and> mg_inflight m' = mg_inflight m \<and> mg_self m' = mg_self m \<and> mg_peers m' = mg_peers m"

lemma quiet_trans: "quiet m m' \<Longrightarrow> quiet m' m'' \<Longrightarrow> quiet m m''"
  by (simp add: quiet_def)

lemma quiet_fold: "(\<And>x m. quiet m (f x m)) \<Longrightarrow> quiet m (fold f xs m)"
proof (induction xs arbitrary: m)
  case (Cons x xs)
  then show ?case using quiet_trans [OF Cons.prems [of m x] Cons.IH] by simp
qed (simp add: quiet_def)

lemma quiet_reply: "quiet m (case introducerAt e from m of (k, m) \<Rightarrow> snd (registered e k you peers now m))"
  by (simp add: quiet_def introducerAt_def registered_def Let_def split: option.split)

lemma quiet_sync: "quiet m (snd (sync_round e resolve written now m))"
proof -
  have "quiet m (sync_one e resolve written now k m)" for k m
    by (simp add: quiet_def sync_one_def Let_def introducerFailed_def split: sum.split option.split)
  then have "quiet m (fold (sync_one e resolve written now) ks m)" for ks by (rule quiet_fold)
  then show ?thesis by (simp add: quiet_def sync_round_def retryHinted_def checkSilence_def Let_def)
qed

lemma registered_end_keeps:
  "quiet m (snd (registered_end up now m))" "fst (registered_end up now m) = expired_links up m (listedLocked m now) now"
  by (simp_all add: registered_end_def quiet_def Let_def expired_links_def cong: option.case_cong)

lemma run_attempts_inv:
  assumes "links_inv s" "attempts e (ls_count s) (ls_m s) (f (ls_m s))"
  shows "links_inv (run_stretch (TryWorker (ls_count s)) f s)"
proof -
  have ok: "workers_ok (ls_m s) (ls_running s)" and none: "map_of (mg_peers (ls_m s)) (mg_self (ls_m s)) = None"
    using assms(1) by (simp_all add: links_inv_def)
  note kept = attempts_ok [OF assms(2) ok]
  have "map_option lk_conn (map_of (mg_peers (snd (f (ls_m s)))) (mg_self (ls_m s)))
      = map_option lk_conn (map_of (mg_peers (ls_m s)) (mg_self (ls_m s)))" using kept by blast
  then have "map_of (mg_peers (snd (f (ls_m s)))) (mg_self (ls_m s)) = None" by (simp add: none)
  then show ?thesis using kept by (simp add: links_inv_def run_stretch_def split_def Let_def)
qed

lemma run_stretch_inv:
  assumes "links_inv s" "workers_ok (snd (f (ls_m s))) (spawn k (fst (f (ls_m s))) (ls_running s))"
    and "mg_self (snd (f (ls_m s))) = mg_self (ls_m s)" "mg_peers (snd (f (ls_m s))) = mg_peers (ls_m s)"
  shows "links_inv (run_stretch k f s)"
  using assms by (simp add: links_inv_def run_stretch_def split_def Let_def)

lemma quiet_inv: "links_inv s \<Longrightarrow> quiet (ls_m s) (f (ls_m s)) \<Longrightarrow> links_inv (with_m f s)"
  by (simp add: links_inv_def with_m_def quiet_def workers_ok_def)

lemma with_m_inv:
  assumes "links_inv s" "mg_trying (f (ls_m s)) = mg_trying (ls_m s)" "mg_inflight (f (ls_m s)) = mg_inflight (ls_m s)"
    and "mg_self (f (ls_m s)) = mg_self (ls_m s)"
    and "map_of (mg_peers (ls_m s)) (mg_self (ls_m s)) = None \<Longrightarrow> map_of (mg_peers (f (ls_m s))) (mg_self (ls_m s)) = None"
  shows "links_inv (with_m f s)"
  using assms by (simp add: links_inv_def with_m_def workers_ok_def)

lemma quiet_noPath: "quiet m (snd (noPath node reason tried now m))"
  by (simp add: quiet_def noPath_keeps)

lemma quiet_invited: "quiet m (m\<lparr>mg_invited := x\<rparr>)"
  by (simp add: quiet_def)

lemma links_inv_going: "links_inv (s\<lparr>ls_going := g\<rparr>) = links_inv s"
  by (simp add: links_inv_def)

lemma link_step_inv:
  assumes "links_inv s" "link_ok ev s"
  shows "links_inv (link_step e ev s)"
proof -
  obtain v up where ev: "ev = (v, up)" by (rule prod.exhaust)
  have ok: "workers_ok (ls_m s) (ls_running s)" using assms(1) by (simp add: links_inv_def)
  show ?thesis
  proof (cases v)
    case (LvPunch "from" cs now)
    show ?thesis
    proof (cases "from \<in> set (mg_trying (ls_m s))")
      case True
      then have "attempts e (ls_count s) (ls_m s) (onPunchRequest e up (ls_count s) from cs now (ls_m s))"
        by (rule onPunchRequest_busy)
      from run_attempts_inv [OF assms(1), of e "onPunchRequest e up (ls_count s) from cs now", OF this]
      show ?thesis using True by (simp add: ev LvPunch)
    next
      case False
      then show ?thesis using run_stretch_inv [OF assms(1)] onPunchRequest_free [OF False ok] by (simp add: ev LvPunch)
    qed
  next
    case (LvRedial node now)
    show ?thesis using run_stretch_inv [OF assms(1)] redial_ok [OF ok] by (simp add: ev LvRedial)
  next
    case (LvDone node w failed stopping now)
    have w: "(node, w) \<in> set (ls_running s)" using assms(2) by (simp add: ev LvDone)
    let ?s = "s\<lparr>ls_running := remove1 (node, w) (ls_running s)\<rparr>"
    have released: "links_inv (with_m (release node) ?s)" if "\<forall>i cs. w \<noteq> TryWorker i cs"
    proof -
      have "workers_ok (release node (ls_m s)) (remove1 (node, w) (ls_running s))"
        by (rule workers_ok_remove [OF ok w]) (simp_all add: release_def no_inflight [OF ok w that])
      then show ?thesis using assms(1) by (simp add: links_inv_def with_m_def release_def)
    qed
    show ?thesis
    proof (cases w)
      case (TryWorker i cs)
      have "workers_ok (snd (attempt_done e i (ls_count s) node cs failed stopping now (ls_m s)))
          (spawn (TryWorker (ls_count s)) (fst (attempt_done e i (ls_count s) node cs failed stopping now (ls_m s))) (ls_running ?s))
        \<and> mg_self (snd (attempt_done e i (ls_count s) node cs failed stopping now (ls_m s))) = mg_self (ls_m s)
        \<and> mg_peers (snd (attempt_done e i (ls_count s) node cs failed stopping now (ls_m s))) = mg_peers (ls_m s)"
        using attempt_done_ok [OF ok w [unfolded TryWorker]] by (simp add: TryWorker)
      then show ?thesis using assms(1)
        by (simp add: ev LvDone TryWorker Let_def links_inv_def run_stretch_def split_def Let_def)
    qed (use released in \<open>simp_all add: ev LvDone Let_def\<close>)
  next
    case (LvLink node c remote path port now)
    have "map_of (mg_peers (snd (linkUp up node c remote path port now (ls_m s)))) (mg_self (ls_m s)) = None"
      if "map_of (mg_peers (ls_m s)) (mg_self (ls_m s)) = None"
      using that linkUp_keeps(4) [of "mg_self (ls_m s)" node] linkUp_keeps(5) [of node "ls_m s"]
      by (cases "node = mg_self (ls_m s)") simp_all
    then show ?thesis using assms(1) by (simp add: ev LvLink) (rule with_m_inv, simp_all add: linkUp_keeps(1-3))
  next
    case (LvConnDead node c)
    show ?thesis using assms(1) by (simp add: ev LvConnDead) (rule with_m_inv, simp_all add: watchConn_def dropWhere_keeps)
  next
    case (LvForwarderDead node a)
    show ?thesis using assms(1) by (simp add: ev LvForwarderDead) (rule with_m_inv, simp_all add: dropLinkIf_def dropWhere_keeps)
  next
    case (LvRelease node i cs)
    have w: "(node, TryWorker i cs) \<in> set (ls_running s)" using assms(2) by (simp add: ev LvRelease)
    then show ?thesis using assms(1) attempt_end_ok [OF ok w]
      by (simp add: ev LvRelease links_inv_def with_m_def)
  next
    case (LvKickMark node restart now)
    have "workers_ok (snd (kick_mark up node restart now (ls_m s))) (ls_running s)"
      by (rule workers_ok_ids [OF ok kick_mark_keeps(1,2)])
    then show ?thesis using assms(1) by (simp add: ev LvKickMark links_inv_def with_m_def kick_mark_keeps)
  next
    case (LvExpire now)
    show ?thesis using assms(1) registered_end_keeps(1) [of "ls_m s" up now] by (simp add: ev LvExpire links_inv_going quiet_inv)
  next
    case (LvDrop node)
    show ?thesis using assms(1)
      by (simp add: ev LvDrop links_inv_going) (rule with_m_inv, simp_all add: dropLink_def dropWhere_keeps)
  qed (use assms(1) in \<open>simp_all add: ev run_attempts_inv [of s e] trying quiet_inv quiet_reply quiet_sync quiet_noPath quiet_invited\<close>)
qed

interpretation lm: guarded_machine "link_step e" link_ok links_inv for e
  by unfold_locales (rule link_step_inv)

definition links_start :: "string \<Rightarrow> int \<Rightarrow> string list \<Rightarrow> string option \<Rightarrow> links" where
  "links_start self poll addrs serve = \<lparr>ls_m = NewManager self poll addrs serve, ls_running = [], ls_count = 0, ls_going = []\<rparr>"

lemma links_start_inv: "links_inv (links_start self poll addrs serve)"
  by (simp add: links_start_def links_inv_def NewManager_def Let_def workers_ok_def)

text \<open>C13: In every run of the manager at most one goroutine connects to a given node, it is being tried
  exactly while one does, the try that can be restarted is the one running, and no link leads to the
  daemon itself.\<close>

theorem one_worker_per_peer:
  assumes "lm.run_ok e es (links_start self poll addrs serve)"
    and "s = fold (link_step e) es (links_start self poll addrs serve)"
  shows "distinct (map fst (ls_running s)) \<and> set (mg_trying (ls_m s)) = fst ` set (ls_running s)
    \<and> map_of (mg_peers (ls_m s)) (mg_self (ls_m s)) = None
    \<and> (case map_of (mg_inflight (ls_m s)) n of None \<Rightarrow> True | Some a \<Rightarrow> \<exists>cs. (n, TryWorker (if_id a) cs) \<in> set (ls_running s))"
proof -
  have "links_inv s" unfolding assms(2) by (rule lm.run_inv [OF links_start_inv assms(1)])
  then show ?thesis by (auto simp: links_inv_def workers_ok_def split: option.split)
qed

subsection \<open>A live link stays\<close>

definition forwarder :: "string \<Rightarrow> links \<Rightarrow> string option" where
  "forwarder n s = map_option lk_addr (map_of (mg_peers (ls_m s)) n)"

text \<open>
  The node's connection lives at the time of the event; a watcher speaks of a connection that has died; the
  node's forwarder still accepts. A connection of the node may be replaced by another.
\<close>

fun undisturbed :: "string \<Rightarrow> link_event \<times> (nat \<Rightarrow> bool) \<Rightarrow> links \<Rightarrow> bool" where
  "undisturbed n (v, up) s \<longleftrightarrow> (case map_of (mg_peers (ls_m s)) n of None \<Rightarrow> True | Some l \<Rightarrow> up (lk_conn l))
     \<and> (case v of LvConnDead m c \<Rightarrow> \<not> up c | LvForwarderDead m a \<Rightarrow> m \<noteq> n \<or> Some a \<noteq> forwarder n s | _ \<Rightarrow> True)"

fun stays_undisturbed :: "address_env \<Rightarrow> string \<Rightarrow> (link_event \<times> (nat \<Rightarrow> bool)) list \<Rightarrow> links \<Rightarrow> bool" where
  "stays_undisturbed e n [] s \<longleftrightarrow> True"
| "stays_undisturbed e n (ev # es) s \<longleftrightarrow> undisturbed n ev s \<and> stays_undisturbed e n es (link_step e ev s)"

lemma linkUp_forwarder:
  assumes "map_of (mg_peers m) n = Some l"
  shows "map_option lk_addr (map_of (mg_peers (snd (linkUp up node c remote path port now m))) n) = Some (lk_addr l)"
proof (cases "n = node")
  case True
  then show ?thesis using assms
    by (cases "node = mg_self m") (auto simp: linkUp_def Let_def observeLocked_def update_conv')
next
  case False
  then show ?thesis using assms by (simp add: linkUp_keeps(4))
qed

lemma run_attempts_forwarder:
  assumes "links_inv s" "attempts e (ls_count s) (ls_m s) (f (ls_m s))"
  shows "forwarder n (run_stretch (TryWorker (ls_count s)) f s) = forwarder n s"
proof -
  have "workers_ok (ls_m s) (ls_running s)" using assms(1) by (simp add: links_inv_def)
  from attempts_ok [OF assms(2) this]
  have "map_option lk_addr (map_of (mg_peers (snd (f (ls_m s)))) n) = map_option lk_addr (map_of (mg_peers (ls_m s)) n)" by blast
  then show ?thesis by (simp add: forwarder_def run_stretch_def split_def Let_def)
qed

lemma run_stretch_forwarder:
  "mg_peers (snd (f (ls_m s))) = mg_peers (ls_m s) \<Longrightarrow> forwarder n (run_stretch k f s) = forwarder n s"
  by (simp add: forwarder_def run_stretch_def split_def Let_def)

lemma quiet_forwarder: "quiet (ls_m s) (f (ls_m s)) \<Longrightarrow> forwarder n (with_m f s) = forwarder n s"
  by (simp add: forwarder_def with_m_def quiet_def)

lemma forwarder_going: "forwarder n (s\<lparr>ls_going := g\<rparr>) = forwarder n s"
  by (simp add: forwarder_def)

lemma kick_mark_forwarder: "forwarder n (with_m (\<lambda>m. snd (kick_mark up node restart now m)) s) = forwarder n s"
  by (simp add: forwarder_def with_m_def kick_mark_keeps)

lemma link_step_forwarder:
  assumes "links_inv s" "link_ok ev s" "undisturbed n ev s" "forwarder n s = Some a" "n \<notin> set (ls_going s)"
  shows "forwarder n (link_step e ev s) = Some a"
proof -
  obtain v up where ev: "ev = (v, up)" by (rule prod.exhaust)
  have ok: "workers_ok (ls_m s) (ls_running s)" using assms(1) by (simp add: links_inv_def)
  obtain l where l: "map_of (mg_peers (ls_m s)) n = Some l" "lk_addr l = a" using assms(4) by (auto simp: forwarder_def)
  have up: "up (lk_conn l)" using assms(3) by (simp add: ev l(1))
  show ?thesis
  proof (cases v)
    case (LvPunch "from" cs now)
    show ?thesis
    proof (cases "from \<in> set (mg_trying (ls_m s))")
      case True
      then have "attempts e (ls_count s) (ls_m s) (onPunchRequest e up (ls_count s) from cs now (ls_m s))"
        by (rule onPunchRequest_busy)
      from run_attempts_forwarder [OF assms(1), of e "onPunchRequest e up (ls_count s) from cs now", OF this]
      show ?thesis using True assms(4) by (simp add: ev LvPunch)
    next
      case False
      then show ?thesis using run_stretch_forwarder onPunchRequest_free [OF False ok] assms(4) by (simp add: ev LvPunch)
    qed
  next
    case (LvRedial node now)
    show ?thesis using run_stretch_forwarder redial_ok [OF ok] assms(4) by (simp add: ev LvRedial)
  next
    case (LvDone node w failed stopping now)
    have w: "(node, w) \<in> set (ls_running s)" using assms(2) by (simp add: ev LvDone)
    show ?thesis
    proof (cases w)
      case (TryWorker i cs)
      show ?thesis using attempt_done_ok [OF ok w [unfolded TryWorker]] assms(4)
        by (simp add: ev LvDone TryWorker Let_def run_stretch_def split_def forwarder_def)
    qed (use assms(4) in \<open>simp_all add: ev LvDone Let_def forwarder_def with_m_def release_def\<close>)
  next
    case (LvLink node c remote path port now)
    show ?thesis using linkUp_forwarder [OF l(1)] l(2) by (simp add: ev LvLink forwarder_def with_m_def)
  next
    case (LvConnDead node c)
    have "lk_conn l \<noteq> c" using assms(3) up by (auto simp: ev LvConnDead)
    then show ?thesis using l by (simp add: ev LvConnDead forwarder_def with_m_def watchConn_def dropWhere_keeps)
  next
    case (LvForwarderDead node b)
    then show ?thesis using l assms(3,4) by (auto simp: ev LvForwarderDead forwarder_def with_m_def dropLinkIf_def dropWhere_keeps)
  next
    case (LvRelease node i cs)
    have "(node, TryWorker i cs) \<in> set (ls_running s)" using assms(2) by (simp add: ev LvRelease)
    from attempt_end_ok [OF ok this] show ?thesis using assms(4) by (simp add: ev LvRelease forwarder_def with_m_def)
  next
    case (LvDrop node)
    have "node \<noteq> n" using assms(2,5) by (auto simp: ev LvDrop)
    then show ?thesis using l by (simp add: ev LvDrop forwarder_def with_m_def dropLink_def dropWhere_keeps)
  qed (use assms(1,4) in \<open>simp_all add: ev run_attempts_forwarder [of s e] trying quiet_forwarder quiet_reply quiet_sync quiet_noPath quiet_invited forwarder_going
      registered_end_keeps(1) kick_mark_forwarder\<close>)
qed

lemma going_step:
  assumes "undisturbed n ev s" "forwarder n s = Some a" "n \<notin> set (ls_going s)"
  shows "n \<notin> set (ls_going (link_step e ev s))"
proof -
  obtain v up where ev: "ev = (v, up)" by (rule prod.exhaust)
  obtain l where "map_of (mg_peers (ls_m s)) n = Some l" using assms(2) by (auto simp: forwarder_def)
  then have "n \<notin> set (expired_links up (ls_m s) live t)" for live t using assms(1) by (simp add: ev expired_links_def)
  then show ?thesis using assms(3)
    by (cases v) (auto simp: ev run_stretch_def with_m_def registered_end_keeps(2) Let_def split: prod.split worker_kind.split dest: notin_set_remove1)
qed

lemma undisturbed_run:
  assumes "links_inv s" "lm.run_ok e es s" "stays_undisturbed e n es s" "forwarder n s = Some a" "n \<notin> set (ls_going s)"
  shows "forwarder n (fold (link_step e) es s) = Some a"
  using assms
proof (induction es arbitrary: s)
  case (Cons ev es)
  have "links_inv (link_step e ev s)" using Cons.prems(1,2) by (intro link_step_inv) simp_all
  moreover have "forwarder n (link_step e ev s) = Some a" using Cons.prems by (intro link_step_forwarder) simp_all
  moreover have "n \<notin> set (ls_going (link_step e ev s))" using Cons.prems(3-5) by (intro going_step) simp_all
  ultimately show ?case using Cons.IH Cons.prems(2,3) by simp
qed simp


subsection \<open>Both ends keep the same connection\<close>

text \<open>The two connections of a race as one end has them: the number, the path, the remote address, the time.\<close>

definition meet :: "(nat \<Rightarrow> bool) \<Rightarrow> string \<Rightarrow> string option \<Rightarrow> (nat \<times> string \<times> string \<times> int) list \<Rightarrow> manager \<Rightarrow> manager" where
  "meet up node port cs m = fold (\<lambda>(c, path, remote, t) m. snd (linkUp up node c remote path port t m)) cs m"

definition kept_conn :: "manager \<Rightarrow> string \<Rightarrow> nat option" where
  "kept_conn m node = map_option lk_conn (map_of (mg_peers m) node)"

lemma linkUp_first:
  assumes "node \<noteq> mg_self m" "map_of (mg_peers m) node = None"
  shows "mg_self (snd (linkUp up node c remote path (Some port) t m)) = mg_self m
    \<and> map_of (mg_peers (snd (linkUp up node c remote path (Some port) t m))) node =
      Some \<lparr>lk_addr = port, lk_conn = c, lk_lastSeen = t, lk_since = t, lk_dialled = (path \<noteq> pathInbound), lk_path = path\<rparr>"
  using assms by (simp add: linkUp_def observeLocked_def update_conv')

lemma linkUp_second:
  assumes "node \<noteq> mg_self m" "map_of (mg_peers m) node = Some old" "lk_conn old \<noteq> c" "t - lk_since old < raceWindow"
    and "newWins (mg_self m) node (path \<noteq> pathInbound) \<or> up (lk_conn old)"
  shows "kept_conn (snd (linkUp up node c remote path port t m)) node =
    Some (if newWins (mg_self m) node (path \<noteq> pathInbound) then c else lk_conn old)"
  using assms by (auto simp: linkUp_def Let_def kept_conn_def observeLocked_def update_conv')

lemma meet_two:
  assumes "node \<noteq> mg_self m" "map_of (mg_peers m) node = None" "c1 \<noteq> c2" "t2 - t1 < raceWindow"
    and "newWins (mg_self m) node (p2 \<noteq> pathInbound) \<or> up c1"
  shows "kept_conn (meet up node (Some port) [(c1, p1, r1, t1), (c2, p2, r2, t2)] m) node =
    Some (if newWins (mg_self m) node (p2 \<noteq> pathInbound) then c2 else c1)"
proof -
  let ?m = "snd (linkUp up node c1 r1 p1 (Some port) t1 m)"
  note first = linkUp_first [OF assms(1,2), of up c1 r1 p1 port t1]
  show ?thesis
    unfolding meet_def using linkUp_second [of node ?m _ c2 t2 p2 up r2 "Some port"] first assms by simp
qed

lemma newWins_one: "a \<noteq> b \<Longrightarrow> newWins a b True = (a < b)" "a \<noteq> b \<Longrightarrow> newWins a b False = (b < a)"
  by (auto simp: newWins_def min_def)

text \<open>C12: When two nodes reach each other at once, each ends up with one connection and both with the same
  one, the one dialled by the lower fingerprint, in whatever order each end sees the two, as long as an end
  sees both within the race window and that connection lives.\<close>

theorem race_ends_agree:
  assumes "a = mg_self ma" "b = mg_self mb" "a \<noteq> b" "map_of (mg_peers ma) b = None" "map_of (mg_peers mb) a = None"
    and "c1 \<noteq> c2" "pa \<noteq> pathInbound" "pb \<noteq> pathInbound" "up (if a < b then c1 else c2)"
    and "\<bar>t1 - t2\<bar> < raceWindow" "\<bar>t3 - t4\<bar> < raceWindow"
    and "atA \<in> {[(c1, pa, r1, t1), (c2, pathInbound, r2, t2)], [(c2, pathInbound, r2, t2), (c1, pa, r1, t1)]}"
    and "atB \<in> {[(c2, pb, r3, t3), (c1, pathInbound, r4, t4)], [(c1, pathInbound, r4, t4), (c2, pb, r3, t3)]}"
  shows "kept_conn (meet up b (Some portA) atA ma) b = Some (if a < b then c1 else c2)
    \<and> kept_conn (meet up a (Some portB) atB mb) a = Some (if a < b then c1 else c2)"
proof -
  have ab: "b \<noteq> mg_self ma" "a \<noteq> mg_self mb" "b \<noteq> a" using assms(1-3) by auto
  have le: "\<not> a < b \<longleftrightarrow> b < a" using assms(3) by auto
  have wins: "newWins a b True = (a < b)" "newWins a b False = (b < a)" "newWins b a True = (b < a)" "newWins b a False = (a < b)"
    using newWins_one assms(3) by auto
  have times: "t2 - t1 < raceWindow" "t1 - t2 < raceWindow" "t4 - t3 < raceWindow" "t3 - t4 < raceWindow"
    using assms(10,11) by auto
  note A = meet_two [OF ab(1) assms(4), unfolded assms(1) [symmetric]]
  note B = meet_two [OF ab(2) assms(5), unfolded assms(2) [symmetric]]
  have "kept_conn (meet up b (Some portA) atA ma) b = Some (if a < b then c1 else c2)"
    using A [of c1 c2 t2 t1 pathInbound up portA pa r1 r2] A [of c2 c1 t1 t2 pa up portA pathInbound r2 r1] assms(6-9,12) times wins le
    by (auto split: if_splits)
  moreover have "kept_conn (meet up a (Some portB) atB mb) a = Some (if a < b then c1 else c2)"
    using B [of c2 c1 t4 t3 pathInbound up portB pb r3 r4] B [of c1 c2 t3 t4 pb up portB pathInbound r4 r3] assms(6-9,13) times wins le
    by (auto split: if_splits)
  ultimately show ?thesis ..
qed


subsection \<open>The order of candidates, the penalty, the reflexive address\<close>

lemma rev_place_cand:
  "sorted (rev (map (cand_rank \<circ> cd_Kind) ds)) \<Longrightarrow>
   rev (place_cand c ds) = filter (\<lambda>d. cand_rank (cd_Kind d) \<le> cand_rank (cd_Kind c)) (rev ds) @ [c]
     @ filter (\<lambda>d. cand_rank (cd_Kind c) < cand_rank (cd_Kind d)) (rev ds)"
proof (induction ds)
  case (Cons d ds)
  show ?case
  proof (cases "cand_rank (cd_Kind c) < cand_rank (cd_Kind d)")
    case True
    then show ?thesis using Cons by (simp add: sorted_append)
  next
    case False
    then have "\<forall>x\<in>set ds. cand_rank (cd_Kind x) \<le> cand_rank (cd_Kind c)" using Cons.prems by (auto simp: sorted_append)
    then have "filter (\<lambda>d. cand_rank (cd_Kind d) \<le> cand_rank (cd_Kind c)) (rev ds) = rev ds"
      "filter (\<lambda>d. cand_rank (cd_Kind c) < cand_rank (cd_Kind d)) (rev ds) = []"
      by (simp_all add: filter_id_conv filter_empty_conv not_less)
    then show ?thesis using False by simp
  qed
qed simp

lemma sort_key_snoc_split:
  "sort_key f (xs @ [x]) = filter (\<lambda>y. f y \<le> f x) (sort_key f xs) @ [x] @ filter (\<lambda>y. f x < f y) (sort_key f xs)"
proof (rule properties_for_sort_key)
  show "mset (filter (\<lambda>y. f y \<le> f x) (sort_key f xs) @ [x] @ filter (\<lambda>y. f x < f y) (sort_key f xs)) = mset (xs @ [x])"
    using multiset_partition [of "mset xs" "\<lambda>y. f y \<le> f x"] by (simp add: not_le)
  show "filter (\<lambda>y. f k = f y) (filter (\<lambda>y. f y \<le> f x) (sort_key f xs) @ [x] @ filter (\<lambda>y. f x < f y) (sort_key f xs))
      = filter (\<lambda>y. f k = f y) (xs @ [x])" for k
  proof -
    have s: "filter (\<lambda>y. f k = f y) (sort_key f xs) = filter (\<lambda>y. f k = f y) xs"
      using sort_key_stable [of f "f k" xs] by (simp add: eq_commute)
    have "filter (\<lambda>y. f k = f y) (filter (\<lambda>y. f y \<le> f x) ys) = (if f k \<le> f x then filter (\<lambda>y. f k = f y) ys else [])"
      "filter (\<lambda>y. f k = f y) (filter (\<lambda>y. f x < f y) ys) = (if f k \<le> f x then [] else filter (\<lambda>y. f k = f y) ys)" for ys
      by (induction ys) auto
    then show ?thesis using s by auto
  qed
  show "sorted (map f (filter (\<lambda>y. f y \<le> f x) (sort_key f xs) @ [x] @ filter (\<lambda>y. f x < f y) (sort_key f xs)))"
    by (auto simp: sorted_append sorted_filter)
qed

lemma sortByRank_is_stable_sort: "sortByRank cs = sort_key (cand_rank \<circ> cd_Kind) cs"
proof -
  have "rev (foldl (\<lambda>ds c. place_cand c ds) [] cs) = sort_key (cand_rank \<circ> cd_Kind) cs"
  proof (induction cs rule: rev_induct)
    case (snoc c cs)
    let ?ds = "foldl (\<lambda>ds c. place_cand c ds) [] cs"
    have "sorted (rev (map (cand_rank \<circ> cd_Kind) ?ds))" by (simp only: rev_map snoc sorted_sort_key)
    from rev_place_cand [OF this, of c] show ?case by (simp add: snoc sort_key_snoc_split)
  qed simp
  then show ?thesis by (simp add: sortByRank_def)
qed

lemma ParseCandidate_cand_text:
  assumes "ae_parse e (ae_text e (cd_Addr c)) = Some (cd_Addr c)"
  shows "ParseCandidate e (cand_text e c) = Some c"
  using assms by (cases c; cases "cd_Kind c") (simp_all add: ParseCandidate_def cand_text_def kind_of_text_def)

lemma dedupe_fold:
  "fold (\<lambda>c (seen, out). if cd_Addr c \<in> set seen then (seen, out) else (seen @ [cd_Addr c], out @ [c])) cs (map cd_Addr out, out) = (seen', out')
   \<Longrightarrow> distinct (map cd_Addr out) \<Longrightarrow> seen' = map cd_Addr out' \<and> distinct (map cd_Addr out')
     \<and> set (map cd_Addr out') = set (map cd_Addr out) \<union> set (map cd_Addr cs) \<and> set out' \<subseteq> set out \<union> set cs"
proof (induction cs arbitrary: out)
  case (Cons c cs)
  show ?case
  proof (cases "cd_Addr c \<in> set (map cd_Addr out)")
    case True
    then show ?thesis using Cons.IH [of out] Cons.prems by auto
  next
    case False
    then show ?thesis using Cons.IH [of "out @ [c]"] Cons.prems by auto
  qed
qed simp

lemma Gather_addresses:
  "distinct (map cd_Addr (Gather e lo ifaces port mapped reflex)) \<and> sorted (map (cand_rank \<circ> cd_Kind) (Gather e lo ifaces port mapped reflex))"
proof -
  have "distinct (map cd_Addr (dedupe_cands cs)) \<and> sorted (map (cand_rank \<circ> cd_Kind) (dedupe_cands cs))" for cs
  proof -
    obtain seen out where f: "fold (\<lambda>c (seen, out). if cd_Addr c \<in> set seen then (seen, out) else (seen @ [cd_Addr c], out @ [c])) cs ([], []) = (seen, out)"
      by (rule prod.exhaust)
    have d: "distinct (map cd_Addr out)" using dedupe_fold [of cs "[]"] f by simp
    have "mset (map cd_Addr (sort_key (cand_rank \<circ> cd_Kind) out)) = mset (map cd_Addr out)" by (simp only: mset_map mset_sort)
    then have "distinct (map cd_Addr (sort_key (cand_rank \<circ> cd_Kind) out))" using d by (metis mset_eq_imp_distinct_iff)
    then show ?thesis by (simp add: dedupe_cands_def f sortByRank_is_stable_sort)
  qed
  then show ?thesis unfolding Gather_def by blast
qed

lemma candKey_of_set: "mset cs = mset ds \<Longrightarrow> candKey cs = candKey ds"
  unfolding candKey_def by (metis sorted_list_of_multiset_mset)

lemma noPath_waits:
  assumes "b = map_of (mg_backoff (snd (noPath node reason tried now m))) node"
  shows "\<exists>w. b = Some \<lparr>bo_until = now + w, bo_tried = tried, bo_reason = reason\<rparr> \<and> 0 < w \<and> w \<le> 300 * second"
  unfolding assms noPath_def Let_def by (auto simp: update_conv' split: option.split)

text \<open>The comment says a peer is backed off \<^emph>\<open>further each time\<close>; a try made once the penalty has run out always
  earns the first penalty again.\<close>

lemma retry_never_backs_off_further:
  assumes "map_of (mg_backoff m) node = Some b" "bo_until b \<le> now"
  shows "map_of (mg_backoff (snd (noPath node reason tried now m))) node
    = Some \<lparr>bo_until = now + 30 * second, bo_tried = tried, bo_reason = reason\<rparr>"
  using assms by (simp add: noPath_def Let_def update_conv')

text \<open>
  An introducer at a private address that answers from another one is never heard at the address it was asked at:
  its answer belongs to a hidden introducer, and that one is the fresh other that makes it a stranger's. While
  it is the only one, the node then registers with nobody until the answer is stale.
\<close>

lemma own_answer_makes_a_stray:
  assumes "mg_intros m = [i, j]" "in_lastReply i = 0" "\<not> in_self i" "\<not> in_hidden i" "in_at i = Some a" "\<not> isPublic e (ap_ip a)"
    and "in_waiting i \<noteq> 0" "silentAfter \<le> now - in_waiting i"
    and "in_hidden j" "\<not> in_self j" "in_lastReply j \<noteq> 0" "now - in_lastReply j \<le> 3 * mg_Poll m"
  shows "fold (sync_one e resolve written now) [0..<length (mg_intros m)] m = m"
proof -
  have "strayLocked e m 0 now" using assms by (simp add: strayLocked_def fresh_def upt_rec [of 0 2] upt_rec [of 1 2])
  then have "sync_one e resolve written now 0 m = m" by (simp add: sync_one_def Let_def)
  moreover have "sync_one e resolve written now 1 m = m" using assms by (simp add: sync_one_def Let_def)
  ultimately show ?thesis using assms(1) by (simp add: upt_rec [of 0 2] upt_rec [of 1 2])
qed

text \<open>The reflexive address is one a fresh introducer saw, never a loopback one, and a public one if any saw one.\<close>

definition seen_by :: "address_env \<Rightarrow> manager \<Rightarrow> int \<Rightarrow> introducer \<Rightarrow> addr_port \<Rightarrow> bool" where
  "seen_by e m now i a \<longleftrightarrow> fresh m i now \<and> in_you i = Some a \<and> \<not> ae_loopback e (ap_ip a)"

lemma reflex_fold:
  assumes "fold (reflex_step e m now) is (None, 0, False) = (a, t, pub)"
  shows "(case a of None \<Rightarrow> \<forall>i\<in>set is. \<forall>b. \<not> seen_by e m now i b
      | Some x \<Rightarrow> (\<exists>i\<in>set is. seen_by e m now i x \<and> in_lastReply i = t) \<and> pub = isPublic e (ap_ip x)
          \<and> (\<forall>i\<in>set is. \<forall>b. seen_by e m now i b \<longrightarrow> isPublic e (ap_ip b) \<longrightarrow> pub \<and> in_lastReply i \<le> t))"
  using assms
proof (induction "is" arbitrary: a t pub rule: rev_induct)
  case (snoc i "is")
  obtain a' t' pub' where before: "fold (reflex_step e m now) is (None, 0, False) = (a', t', pub')" by (rule prod_cases3)
  have now: "reflex_step e m now i (a', t', pub') = (a, t, pub)" using snoc.prems before by simp
  note IH = snoc.IH [OF before]
  show ?case
  proof (cases "\<exists>b. seen_by e m now i b")
    case False
    then have same: "reflex_step e m now i (a', t', pub') = (a', t', pub')"
      by (auto simp: reflex_step_def seen_by_def split: option.split)
    then show ?thesis using now IH False by (auto split: option.splits)
  next
    case True
    then obtain b where b: "seen_by e m now i b" by blast
    then have only: "seen_by e m now i c \<longleftrightarrow> c = b" for c by (auto simp: seen_by_def)
    let ?p = "isPublic e (ap_ip b)"
    have step: "reflex_step e m now i (a', t', pub') =
        (if a' = None \<or> (?p \<and> \<not> pub') \<or> (?p = pub' \<and> t' < in_lastReply i) then (Some b, in_lastReply i, ?p) else (a', t', pub'))"
      using b by (simp add: reflex_step_def seen_by_def Let_def)
    show ?thesis
    proof (cases "a' = None \<or> (?p \<and> \<not> pub') \<or> (?p = pub' \<and> t' < in_lastReply i)")
      case True
      then have new: "a = Some b" "t = in_lastReply i" "pub = ?p" using now step by simp_all
      have "pub \<and> in_lastReply j \<le> t" if "j \<in> set is" "seen_by e m now j c" "isPublic e (ap_ip c)" for j c
        using that IH True new by (cases a') fastforce+
      then show ?thesis using new b only by auto
    next
      case False
      then have new: "a = a'" "t = t'" "pub = pub'" using now unfolding step if_not_P [OF False] by simp_all
      then show ?thesis using False IH only by (cases a') (auto simp: not_less)
    qed
  qed
qed simp

lemma bestReflexLocked_sound:
  assumes "bestReflexLocked e m now = Some x"
  shows "(\<exists>i\<in>set (mg_intros m). seen_by e m now i x)
    \<and> ((\<exists>i\<in>set (mg_intros m). \<exists>b. seen_by e m now i b \<and> isPublic e (ap_ip b)) \<longrightarrow> isPublic e (ap_ip x))"
proof -
  obtain t pub where f: "fold (reflex_step e m now) (mg_intros m) (None, 0, False) = (Some x, t, pub)"
    using assms unfolding bestReflexLocked_def by (metis prod.collapse)
  show ?thesis using reflex_fold [OF f] by auto
qed


text \<open>
  The names of the links to let go are taken under the lock and the links are dropped without a second look: a
  peer that came back in between, on a connection that lives, loses it and its local address.
\<close>

lemma late_drop_takes_a_new_link:
  assumes "n \<in> set (ls_going s)" "map_of (mg_peers (ls_m s)) n = Some l" "n \<noteq> mg_self (ls_m s)" "lk_conn l \<noteq> c" "\<not> up (lk_conn l)"
    and "t = link_step e (LvLink n c remote path port now, up) s" "u = link_step e (LvDrop n, up) t"
  shows "map_option lk_conn (map_of (mg_peers (ls_m t)) n) = Some c \<and> link_ok (LvDrop n, up) t \<and> map_of (mg_peers (ls_m u)) n = None"
  using assms(1-5) unfolding assms(6,7)
  by (simp add: with_m_def linkUp_def Let_def observeLocked_def update_conv' dropLink_def dropWhere_keeps)

subsection \<open>Examples\<close>

definition ex_ips :: address_env where
  "ex_ips = \<lparr>ae_parse = (\<lambda>s. Some \<lparr>ap_ip = s, ap_port = 7\<rparr>), ae_text = ap_ip, ae_loopback = (\<lambda>_. False),
     ae_private = (\<lambda>_. False), ae_global = (\<lambda>_. True)\<rparr>"

text \<open>Two nodes listed, one try failing, a connection from the other that is linked.\<close>

definition ex_run :: "(link_event \<times> (nat \<Rightarrow> bool)) list" where
  "ex_run = [(LvListed (''b'', [], []) False 5 5, \<lambda>_. True), (LvListed (''c'', [], []) False 5 5, \<lambda>_. True),
     (LvDone ''b'' (TryWorker 0 []) (Some ''x'') False 9, \<lambda>_. True),
     (LvLink ''c'' 1 ''h'' ''lan'' (Some ''p'') 9, \<lambda>_. True)]"

lemmas links_eval = ex_run_def links_start_def NewManager_def run_stretch_def registered_peer_def attempt_def Let_def
  candidatesLocked_def known_cands_def shouldTry_def spawn_def attempt_done_def attempt_end_def noPath_def release_def with_m_def
  linkUp_def observeLocked_def candKey_def

lemma ex_run_ok: "lm.run_ok e ex_run (links_start ''a'' 0 [] None)"
  by (simp add: lm.run_ok.simps links_eval)

lemma one_worker_per_peer_witness:
  "let s = fold (link_step ex_ips) ex_run (links_start ''a'' 0 [] None)
   in ls_running s = [(''c'', TryWorker 1 [])] \<and> distinct (map fst (ls_running s)) \<and> set (mg_trying (ls_m s)) = {''c''}"
proof -
  have run: "ls_running (fold (link_step ex_ips) ex_run (links_start ''a'' 0 [] None)) = [(''c'', TryWorker 1 [])]"
    by (simp add: links_eval)
  show ?thesis using one_worker_per_peer [OF ex_run_ok refl, of ex_ips] by (simp add: Let_def run)
qed


lemma race_ends_agree_witness:
  "let m = NewManager ''a'' 0 [] None; w = NewManager ''b'' 0 [] None; up = (\<lambda>_. True)
   in kept_conn (meet up ''b'' (Some ''p'') [(2, pathInbound, ''h'', 5), (1, ''lan'', ''g'', 9)] m) ''b'' = Some 1
     \<and> kept_conn (meet up ''a'' (Some ''q'') [(2, ''lan'', ''h'', 6), (1, pathInbound, ''g'', 8)] w) ''a'' = Some 1"
proof -
  let ?m = "NewManager ''a'' 0 [] None" and ?w = "NewManager ''b'' 0 [] None"
  have "''a'' = mg_self ?m" "''b'' = mg_self ?w" "''a'' \<noteq> ''b''" "map_of (mg_peers ?m) ''b'' = None" "map_of (mg_peers ?w) ''a'' = None"
    by (simp_all add: NewManager_def Let_def)
  from race_ends_agree [OF this, of 1 2 "''lan''" "''lan''" "\<lambda>_. True" 9 5 6 8
      "[(2, pathInbound, ''h'', 5), (1, ''lan'', ''g'', 9)]" "''g''" "''h''" "[(2, ''lan'', ''h'', 6), (1, pathInbound, ''g'', 8)]" "''h''" "''g''" "''p''" "''q''"]
  show ?thesis by (simp add: Let_def pathInbound_def raceWindow_def)
qed

end
