(* ===== verification/Spec2Isabelle.thy ===== *)
theory Spec2Isabelle
  imports Schedule Lease NodePoll DdpReduce Wire Pool PoolStats DdpPlace DdpRing Rendezvous Coordinator JobClient MapSet Estimate NatType DdpCrew DdpLocal NarPack Links
begin

text \<open>
  A verification development for Pipedpeer, which pools the machines of a few people into a cluster that runs
  Python scripts. Every machine runs a daemon (\<^verbatim>\<open>src/internal/daemonapi\<close>); the command line on a submitter's machine
  picks a node for a job, leases memory on it, runs the job there and reads its output back. A running script may
  spread a map over the daemons of the cluster (the pool), and a training script may form a ring that averages
  gradients through the daemon of its first rank.

  \<^bold>\<open>The theories and the code they model.\<close>

  \<^item> \<^theory_text>\<open>Prelude\<close>, \<^theory_text>\<open>GoMap\<close>, \<^theory_text>\<open>GoStrings\<close>: the number types, the interface of a Go map (locale
    \<open>go_table\<close>, interpreted on association lists) and of a machine whose steps keep an invariant (locale
    \<open>guarded_machine\<close>, interpreted on the lease table, the address book, the flight book and the statistics), and
    the parts of \<open>strings\<close> and \<open>strconv\<close> the code uses.
  \<^item> \<^theory_text>\<open>Schedule\<close>: \<^verbatim>\<open>schedule/schedule.go\<close>, \<^verbatim>\<open>pool.go\<close>. How much of a piece of work each device gets (\<open>Compute\<close> and its
    solver) and when a pool map backs up or splits a part. The shares add up to the work, every device is accounted
    for, and the predicted finish is within a part of the best possible.
  \<^item> \<^theory_text>\<open>Lease\<close>: \<^verbatim>\<open>daemonapi/serverlease.go\<close>, the admission part of \<^verbatim>\<open>serverhttp.go\<close>, \<^verbatim>\<open>state.go\<close>, \<open>failOrphanedJobs\<close> of
    \<^verbatim>\<open>joblog.go\<close>, \<open>Admit\<close> of \<^verbatim>\<open>resourceest\<close>, \<^verbatim>\<open>cgroups/budget.go\<close>. Accept, commit, renew, bind, complete, sweep,
    restart. A GPU is never promised twice, what is accepted fits the memory, a lease follows its life cycle,
    the cap on jobs holds, and a restart recovers the table.
  \<^item> \<^theory_text>\<open>NodeBook\<close>: \<^verbatim>\<open>nodestore/store.go\<close>. The two SQL tables as lists of rows, one function per statement, and the invariant
    that every operation keeps.
  \<^item> \<^theory_text>\<open>FindNode\<close>, \<^theory_text>\<open>Coordinator\<close>: \<^verbatim>\<open>coordinator/find.go\<close>, \<^verbatim>\<open>nodes.go\<close>, \<^verbatim>\<open>coordinator.go\<close>, \<^verbatim>\<open>place.go\<close>,
    \<^verbatim>\<open>execute.go\<close>. Which node a job goes to, the lease protocol with it, and the retries. The node chosen can take the
    job, a committed lease is completed or given up, refused nodes are left out, and a run ends.
  \<^item> \<^theory_text>\<open>JobLog\<close>, \<^theory_text>\<open>JobClient\<close>: \<^verbatim>\<open>daemonapi/joblog.go\<close>, \<^verbatim>\<open>attach.go\<close>, the writer of \<^verbatim>\<open>execrun.go\<close>; \<^verbatim>\<open>daemonctl/replay.go\<close>
    and \<open>streamJob\<close>. The record of a job's output, the clients that follow it live or later, and what they print. Every
    frame reaches an attacher once and in order, and the result ends it.
  \<^item> \<^theory_text>\<open>MapSet\<close>: \<^verbatim>\<open>app/mapset.go\<close>. A fan-out over shards: no row is lost or doubled.
  \<^item> \<^theory_text>\<open>Rates\<close>, \<^theory_text>\<open>FlightBook\<close>, \<^theory_text>\<open>Pool\<close>, \<^theory_text>\<open>PoolStats\<close>: \<^verbatim>\<open>daemonapi/poolrates.go\<close>, \<^verbatim>\<open>poolsteal.go\<close>, \<^verbatim>\<open>pool.go\<close>, \<^verbatim>\<open>poolrun.go\<close>,
    \<^verbatim>\<open>poolhandlers.go\<close>, \<^verbatim>\<open>poolremote.go\<close>, \<^verbatim>\<open>poolstats.go\<close>. What the pool learns of its peers, how it cuts a chunk, gates
    the parts in flight and puts the results back in order.
  \<^item> \<^theory_text>\<open>Wire\<close>: \<^verbatim>\<open>daemonapi/poolwire.go\<close>. Frames of 32-bit lengths, and globals that cross a link once.
  \<^item> \<^theory_text>\<open>Float16\<close>, \<^theory_text>\<open>DdpReduce\<close>: \<^verbatim>\<open>daemonapi/ddpreduce.go\<close>. The binary16 codec on words and the averaging of gradients.
  \<^item> \<^theory_text>\<open>DdpPlace\<close>, \<^theory_text>\<open>DdpRebalance\<close>, \<^theory_text>\<open>DdpBoard\<close>, \<^theory_text>\<open>DdpSync\<close>, \<^theory_text>\<open>DdpRounds\<close>, \<^theory_text>\<open>DdpRing\<close>: \<^verbatim>\<open>ddpplace/ddpplace.go\<close> and
    \<^verbatim>\<open>daemonapi/ddprebalance.go\<close>, \<^verbatim>\<open>ddppacing.go\<close>, \<^verbatim>\<open>ddpboard.go\<close>, \<^verbatim>\<open>ddpdown.go\<close>, \<^verbatim>\<open>ddpup.go\<close>, \<^verbatim>\<open>ddpsync.go\<close>, \<^verbatim>\<open>ddprequest.go\<close>. Who
    trains, with which share, the board of rounds on the lead, and the exchange. A round has one answer, the
    mean of contributions that count each rank once; it closes with everyone who is left; an error ends the ring.
  \<^item> \<^theory_text>\<open>Rendezvous\<close>: \<^verbatim>\<open>rendezvous/rendezvous.go\<close>. The introducer's book, and its rate limit over every window of time.

  \<^bold>\<open>How the code is represented.\<close> A struct is a record with the source's fields behind a short prefix, an enum a
  datatype, a method a function from the old state to the new one. A method that holds its component's mutex
  from its first read to its last write is one step; where a handler lets go of the mutex, the stretches are
  separate steps and the theorems quantify over every interleaving (the rounds of a ring, the attachers of a job, the
  goroutines of a fan-out). Go maps are association lists with distinct keys, and nothing proved depends on their order.
  Pointers that are shared and mutated, the rounds of the ring and the channels of a log, live in a store and
  are named by address. Errors are values of a datatype; a message's text is replaced by a constructor with the
  figures the text shows. A \<open>float64\<close> is the rational number it denotes and its arithmetic exact, \<open>+Inf\<close> is \<open>None\<close>;
  only the binary16 codec and the frame lengths are on words, where the width matters. Byte counts and times are
  integers without overflow. \<open>sort.Slice\<close>, which leaves the order of equals open, is taken to be stable.
  A handler reads the clock once.

  \<^bold>\<open>Parameters.\<close> What is not under \<^verbatim>\<open>src/\<close> is an argument: the JSON printer and parser, SHA-256, zstd, \<open>exp2\<close>,
  humanised byte counts, the probe of a training node, callbacks, the clock and fresh ids. What the outside
  answers to the coordinator is a function of everything it was asked so far; a run that never ends has the
  value \<open>None\<close>, and \<open>Coordinator.run_ends\<close> says which runs end. File-system calls of a job's log
  answer in its events; the properties of attach assume that they succeed, the definitions do not.

  \<^bold>\<open>Fuel.\<close> \<open>Float16.normalise\<close> takes at most ten rounds: a subnormal mantissa has ten bits, so the shift that finds its
  leading bit comes within ten. Every other loop is structural in a list or a bound of the source, has a measure, or
  is a partial function.

  \<^bold>\<open>Not modelled\<close>, with the reasons in the manifest: what only starts processes, moves bytes through sockets or the
  nix store, reads the machine (GPUs, interfaces, cgroup files) or formats text; cryptography, whose promises are
  not this code's; the Python shim. The HTTP handlers of the modelled components are modelled from the decoded
  request to the reply's values.
\<close>

end
